(* ===== verification/Omega_Prelude.thy ===== *)
theory Omega_Prelude
  imports Main "HOL-Library.Monad_Syntax" "HOL-Library.Signed_Division"
begin

text \<open>
  Shared vocabulary of the development.

  Failure.  \<open>OMEGA_H_CHECK\<close> aborts, an array access out of range aborts under
  \<open>OMEGA_H_CHECK_BOUNDS\<close> (and is undefined without it), and reading a cell of a fresh
  \<open>Write\<close> array that nothing wrote yields garbage; an allocation of negative size fails.  These are the value \<^term>\<open>None\<close>: a
  theorem that an operation returns \<^term>\<open>Some y\<close> therefore also says that none of them happens.

  Arrays.  A \<open>Read\<close> array is a list.  A \<open>Write\<close> array allocated without a value is a list of
  optional cells, all \<^term>\<open>None\<close> at first; \<open>alloc\<close> allocates it, \<open>freeze\<close> is its conversion to a \<open>Read\<close> array.

  Loops.  \<open>run_for\<close> runs a body over an explicit sequence of indices; \<open>for_range\<close> is the C++ loop
  from a lower bound to an excluded upper bound, \<open>parallel_for\<close> the library's loop over
  \<open>0 .. n - 1\<close> in the order of the serial build (\<open>src/src/Omega_h_for.hpp\<close>).  The lemmas on
  \<open>run_for\<close> hold for every sequence of indices, so they also cover the orders that the OpenMP,
  CUDA and Kokkos builds may choose for loops whose iterations write different cells.
\<close>

named_theorems arr_simps "sizes and accesses of arrays"

type_synonym lo = int

section \<open>Checks, arrays and accesses\<close>

definition omega_check :: "bool \<Rightarrow> unit option" where
  "omega_check b = (if b then Some () else None)"

definition asize :: "'a list \<Rightarrow> lo" where
  "asize a = int (length a)"

definition rd :: "'a list \<Rightarrow> lo \<Rightarrow> 'a option" where
  "rd a i = (if 0 \<le> i \<and> i < asize a then Some (a ! nat i) else None)"

definition wr :: "'a list \<Rightarrow> lo \<Rightarrow> 'a \<Rightarrow> 'a list option" where
  "wr a i v = (if 0 \<le> i \<and> i < asize a then Some (a[nat i := v]) else None)"

definition swap2 :: "'a list \<Rightarrow> lo \<Rightarrow> lo \<Rightarrow> 'a list option" where
  "swap2 a i j = do { x \<leftarrow> rd a i; y \<leftarrow> rd a j; a' \<leftarrow> wr a i y; wr a' j x }"

definition rd_last :: "'a list \<Rightarrow> 'a option" where
  "rd_last a = rd a (asize a - 1)"

definition fresh :: "lo \<Rightarrow> 'a option list" where
  "fresh n = replicate (nat n) None"

definition alloc :: "lo \<Rightarrow> 'a option list option" where
  "alloc n = (if 0 \<le> n then Some (fresh n) else None)"

definition freeze :: "'a option list \<Rightarrow> 'a list option" where
  "freeze w = those w"

definition divide_no_remainder :: "lo \<Rightarrow> lo \<Rightarrow> lo option" where
  "divide_no_remainder a b = do {
     omega_check (b \<noteq> 0);
     omega_check (a mod b = 0);
     Some (a div b)
   }"

lemma omega_check_simps [simp]:
  "omega_check True = Some ()" "omega_check False = None"
  by (simp_all add: omega_check_def)

lemma omega_check_eq_Some [simp]: "omega_check b = Some u \<longleftrightarrow> b"
  by (simp add: omega_check_def)

lemma omega_check_bind [simp]: "(omega_check b \<bind> f) = (if b then f () else None)"
  by (simp add: omega_check_def)

lemma asize_simps [simp, arr_simps]:
  "asize [] = 0" "asize (x # xs) = 1 + asize xs" "asize (xs @ ys) = asize xs + asize ys"
  "asize (map f xs) = asize xs" "asize (xs[k := v]) = asize xs" "asize (rev xs) = asize xs"
  "asize (replicate n x) = int n"
  by (simp_all add: asize_def)

lemma asize_ge0 [simp]: "0 \<le> asize a"
  by (simp add: asize_def)

lemma asize_map_upt [simp, arr_simps]: "asize (map f [0..<n]) = int n"
  by (simp add: asize_def)

lemma length_asize: "length a = nat (asize a)"
  by (simp add: asize_def)

lemma rd_int [simp]: "k < length a \<Longrightarrow> rd a (int k) = Some (a ! k)"
  by (simp add: rd_def asize_def)

lemma rd_Some: "0 \<le> i \<Longrightarrow> i < asize a \<Longrightarrow> rd a i = Some (a ! nat i)"
  by (simp add: rd_def)

lemma rd_eq_Some_conv: "rd a i = Some v \<longleftrightarrow> 0 \<le> i \<and> i < asize a \<and> v = a ! nat i"
  by (auto simp: rd_def)

lemma wr_int [simp]: "k < length a \<Longrightarrow> wr a (int k) v = Some (a[k := v])"
  by (simp add: wr_def asize_def)

lemma wr_Some: "0 \<le> i \<Longrightarrow> i < asize a \<Longrightarrow> wr a i v = Some (a[nat i := v])"
  by (simp add: wr_def)

lemma swap2_Some:
  assumes "0 \<le> i" "i < asize a" "0 \<le> j" "j < asize a"
  shows "swap2 a i j = Some (a[nat i := a ! nat j, nat j := a ! nat i])"
  using assms by (simp add: swap2_def rd_Some wr_Some)

lemma nth_int_mem: "0 \<le> i \<Longrightarrow> i < asize a \<Longrightarrow> a ! nat i \<in> set a"
  by (simp add: asize_def nat_less_iff)

lemma in_set_int_conv: "x \<in> set a \<longleftrightarrow> (\<exists>i. 0 \<le> i \<and> i < asize a \<and> a ! nat i = x)"
proof
  assume "x \<in> set a"
  then obtain k where "k < length a" "a ! k = x" by (auto simp: in_set_conv_nth)
  then show "\<exists>i. 0 \<le> i \<and> i < asize a \<and> a ! nat i = x"
    by (intro exI [of _ "int k"]) (simp add: asize_def)
qed (auto intro: nth_int_mem)

lemma distinct_nth_int_eq:
  assumes "distinct a" "0 \<le> i" "i < asize a" "0 \<le> j" "j < asize a"
  shows "a ! nat i = a ! nat j \<longleftrightarrow> i = j"
  using nth_eq_iff_index_eq [OF assms(1), of "nat i" "nat j"] assms(2-5)
  by (simp add: asize_def nat_less_iff eq_nat_nat_iff)

lemma rd_last_conv: "a \<noteq> [] \<Longrightarrow> rd_last a = Some (last a)"
  by (auto simp: rd_last_def rd_def asize_def last_conv_nth Suc_le_eq nat_diff_distrib)

lemma asize_fresh [simp, arr_simps]: "0 \<le> n \<Longrightarrow> asize (fresh n) = n"
  by (simp add: fresh_def)

lemma alloc_nonneg [simp]: "0 \<le> n \<Longrightarrow> alloc n = Some (fresh n)"
  by (simp add: alloc_def)

lemma length_fresh [simp]: "length (fresh n) = nat n"
  by (simp add: fresh_def)

lemma nth_fresh [simp]: "k < nat n \<Longrightarrow> fresh n ! k = None"
  by (simp add: fresh_def)

lemma those_map_Some [simp]: "those (map Some xs) = Some xs"
  by (induction xs) auto

lemma freeze_map_Some [simp]: "freeze (map Some xs) = Some xs"
  by (simp add: freeze_def)

lemma freeze_eqI:
  assumes "length w = length xs" and "\<And>k. k < length xs \<Longrightarrow> w ! k = Some (xs ! k)"
  shows "freeze w = Some xs"
proof -
  have "w = map Some xs"
    using assms by (intro nth_equalityI) auto
  then show ?thesis by simp
qed

lemma divide_no_remainder_Some [simp]:
  "b \<noteq> 0 \<Longrightarrow> divide_no_remainder (a * b) b = Some a"
  by (simp add: divide_no_remainder_def)

text \<open>C's division and remainder truncate towards zero; on non-negative operands they are \<open>div\<close>, \<open>mod\<close>.\<close>

lemma smod_nonneg: "0 \<le> a \<Longrightarrow> 0 < b \<Longrightarrow> a smod b = a mod (b::int)"
  by (cases "a = 0") (simp_all add: smod_int_alt_def)

lemma sdiv_nonneg: "0 \<le> a \<Longrightarrow> 0 < b \<Longrightarrow> a sdiv b = a div (b::int)"
  by (cases "a = 0") (simp_all add: signed_divide_int_def)

section \<open>Loops\<close>

fun run_for :: "'i list \<Rightarrow> ('i \<Rightarrow> 's \<Rightarrow> 's option) \<Rightarrow> 's \<Rightarrow> 's option" where
  "run_for [] f s = Some s"
| "run_for (i # is) f s = do { s' \<leftarrow> f i s; run_for is f s' }"

definition for_range :: "lo \<Rightarrow> lo \<Rightarrow> (lo \<Rightarrow> 's \<Rightarrow> 's option) \<Rightarrow> 's \<Rightarrow> 's option" where
  "for_range b e f s = run_for [b..e - 1] f s"

definition parallel_for :: "lo \<Rightarrow> (lo \<Rightarrow> 's \<Rightarrow> 's option) \<Rightarrow> 's \<Rightarrow> 's option" where
  "parallel_for n f s = for_range 0 n f s"

lemma run_for_append: "run_for (is @ js) f s = do { s' \<leftarrow> run_for is f s; run_for js f s' }"
proof (induction "is" arbitrary: s)
  case Nil
  show ?case by simp
next
  case (Cons i "is")
  show ?case by (cases "f i s") (simp_all add: Cons.IH)
qed

lemma run_for_Nil_fun [simp]: "run_for [] f = Some"
  by (rule ext) simp

lemma run_for_single [simp]: "run_for [i] f s = f i s"
  by (cases "f i s") simp_all

lemma run_for_cong:
  assumes "\<And>i s. i \<in> set is \<Longrightarrow> f i s = g i s"
  shows "run_for is f s = run_for is g s"
  using assms by (induction "is" arbitrary: s) (auto split: Option.bind_splits)

text \<open>Two nested loops are one loop over the pairs of indices.\<close>

lemma run_for_map: "run_for (map g is) f s = run_for is (\<lambda>i. f (g i)) s"
proof (induction "is" arbitrary: s)
  case Nil
  show ?case by simp
next
  case (Cons i "is")
  show ?case by (cases "f (g i) s") (simp_all add: Cons.IH)
qed

lemma run_for_nested:
  "run_for is (\<lambda>a s. run_for js (f a) s) s = run_for (List.product is js) (\<lambda>(a, j). f a j) s"
proof (induction "is" arbitrary: s)
  case Nil
  show ?case by simp
next
  case (Cons i "is")
  show ?case
    by (cases "run_for js (f i) s") (simp_all add: Cons.IH run_for_append run_for_map)
qed

lemma run_for_nested_dep:
  "run_for is (\<lambda>a s. run_for (js a) (f a) s) s =
   run_for (concat (map (\<lambda>a. map (Pair a) (js a)) is)) (\<lambda>(a, j). f a j) s"
proof (induction "is" arbitrary: s)
  case Nil
  show ?case by simp
next
  case (Cons i "is")
  show ?case
    by (cases "run_for (js i) (f i) s") (simp_all add: Cons.IH run_for_append run_for_map)
qed

lemma run_for_filter:
  "run_for is (\<lambda>i s. if c i then f i s else Some s) s = run_for (filter c is) f s"
proof (induction "is" arbitrary: s)
  case Nil
  show ?case by simp
next
  case (Cons i "is")
  show ?case by (cases "f i s") (simp_all add: Cons.IH)
qed

text \<open>Total correctness over any sequence of indices, the invariant seeing the indices done so far.\<close>

lemma run_for_rule:
  assumes "P [] s"
    and "\<And>done i rest s. is = done @ i # rest \<Longrightarrow> P done s \<Longrightarrow> \<exists>s'. f i s = Some s' \<and> P (done @ [i]) s'"
  shows "\<exists>s'. run_for is f s = Some s' \<and> P is s'"
proof -
  have "\<exists>s'. run_for done f s = Some s' \<and> P done s'" if "is = done @ rest" for "done" rest
    using that
  proof (induction "done" arbitrary: rest rule: rev_induct)
    case Nil
    show ?case using assms(1) by simp
  next
    case (snoc i "done")
    then obtain s1 where "run_for done f s = Some s1" "P done s1" by auto
    moreover obtain s2 where "f i s1 = Some s2" "P (done @ [i]) s2"
      using assms(2) [of "done" i rest s1] snoc.prems \<open>P done s1\<close> by auto
    ultimately show ?case by (simp add: run_for_append)
  qed
  from this [of "is" "[]"] show ?thesis by simp
qed

lemma upto_eq_map_upt: "[0..int n - 1] = map int [0..<n]"
  by (induction n) (simp_all add: upto_rec2)

lemma for_range_empty [simp]: "e \<le> b \<Longrightarrow> for_range b e f s = Some s"
  by (simp add: for_range_def)

lemma for_range_snoc:
  "b \<le> e \<Longrightarrow> for_range b (e + 1) f s = do { s' \<leftarrow> for_range b e f s; f e s' }"
  by (simp add: for_range_def upto_rec2 [of b e] run_for_append)

text \<open>The total-correctness rule for a loop: an invariant that every iteration re-establishes.\<close>

lemma for_range_rule:
  assumes "P b s" and "b \<le> e"
    and step: "\<And>i s. b \<le> i \<Longrightarrow> i < e \<Longrightarrow> P i s \<Longrightarrow> \<exists>s'. f i s = Some s' \<and> P (i + 1) s'"
  shows "\<exists>s'. for_range b e f s = Some s' \<and> P e s'"
  using \<open>b \<le> e\<close> step
proof (induction e rule: int_ge_induct)
  case base
  with assms(1) show ?case by simp
next
  case (step e)
  then obtain s1 where "for_range b e f s = Some s1" "P e s1"
    by force
  moreover obtain s2 where "f e s1 = Some s2" "P (e + 1) s2"
    using step.prems [of e s1] \<open>P e s1\<close> step.hyps by auto
  ultimately show ?case
    using step.hyps by (simp add: for_range_snoc)
qed

lemma parallel_for_rule:
  assumes "P 0 s" and "0 \<le> n"
    and "\<And>i s. 0 \<le> i \<Longrightarrow> i < n \<Longrightarrow> P i s \<Longrightarrow> \<exists>s'. f i s = Some s' \<and> P (i + 1) s'"
  shows "\<exists>s'. parallel_for n f s = Some s' \<and> P n s'"
  unfolding parallel_for_def using assms by (intro for_range_rule) auto

text \<open>
  A loop in which iteration \<open>i\<close> writes the single cell \<open>p i\<close>, over any sequence of indices: the
  cells hit hold what their iteration wrote and the others are unchanged.  Two iterations may hit
  the same cell as long as they write the same value.
\<close>

lemma run_for_scatter:
  assumes "\<And>i s. i \<in> set is \<Longrightarrow> length s = m \<Longrightarrow> f i s = wr s (p i) (h i)"
    and "\<And>i. i \<in> set is \<Longrightarrow> 0 \<le> p i \<and> p i < int m"
    and "\<And>i j. i \<in> set is \<Longrightarrow> j \<in> set is \<Longrightarrow> p i = p j \<Longrightarrow> h i = h j"
    and "length s = m"
  shows "\<exists>s'. run_for is f s = Some s' \<and> length s' = m \<and>
     (\<forall>i \<in> set is. s' ! nat (p i) = h i) \<and>
     (\<forall>k. int k \<notin> p ` set is \<longrightarrow> s' ! k = s ! k)"
  using assms
proof (induction "is" arbitrary: s)
  case Nil
  show ?case using Nil.prems(4) by simp
next
  case (Cons i "is")
  let ?s1 = "s[nat (p i) := h i]"
  have fi: "f i s = Some ?s1"
    using Cons.prems(1) [of i s] Cons.prems(2) [of i] Cons.prems(4) by (simp add: wr_def asize_def)
  have "\<exists>s'. run_for is f ?s1 = Some s' \<and> length s' = m \<and>
     (\<forall>i \<in> set is. s' ! nat (p i) = h i) \<and>
     (\<forall>k. int k \<notin> p ` set is \<longrightarrow> s' ! k = ?s1 ! k)"
  proof (rule Cons.IH)
    show "f j t = wr t (p j) (h j)" if "j \<in> set is" "length t = m" for j t
      using Cons.prems(1) that by simp
    show "0 \<le> p j \<and> p j < int m" if "j \<in> set is" for j
      using Cons.prems(2) that by simp
    show "h j = h k" if "j \<in> set is" "k \<in> set is" "p j = p k" for j k
      using Cons.prems(3) [of j k] that by simp
    show "length ?s1 = m" using Cons.prems(4) by simp
  qed
  then obtain s' where s': "run_for is f ?s1 = Some s'" "length s' = m"
    "\<forall>i \<in> set is. s' ! nat (p i) = h i" "\<forall>k. int k \<notin> p ` set is \<longrightarrow> s' ! k = ?s1 ! k"
    by blast
  have pi: "0 \<le> p i" "p i < int m" using Cons.prems(2) [of i] by auto
  have hit: "s' ! nat (p i) = h i"
  proof (cases "p i \<in> p ` set is")
    case True
    then obtain j where j: "p i = p j" "j \<in> set is" by (rule imageE)
    have "h i = h j" using j by (intro Cons.prems(3)) simp_all
    moreover have "s' ! nat (p j) = h j" using s'(3) j(2) by blast
    ultimately show ?thesis by (simp only: j(1))
  next
    case False
    then have "s' ! nat (p i) = ?s1 ! nat (p i)" using s'(4) pi by auto
    then show ?thesis using pi Cons.prems(4) by simp
  qed
  have rest: "s' ! k = s ! k" if "int k \<notin> p ` set (i # is)" for k
  proof -
    from that have "int k \<notin> p ` set is" "k \<noteq> nat (p i)" using pi by auto
    then show ?thesis using s'(4) by simp
  qed
  show ?case
  proof (intro exI conjI ballI allI impI)
    show "run_for (i # is) f s = Some s'" using fi s'(1) by simp
    show "length s' = m" by fact
    show "s' ! nat (p j) = h j" if "j \<in> set (i # is)" for j
      using that hit s'(3) by auto
    show "s' ! k = s ! k" if "int k \<notin> p ` set (i # is)" for k
      using that by (rule rest)
  qed
qed

lemma parallel_for_scatter:
  assumes "\<And>i s. 0 \<le> i \<Longrightarrow> i < n \<Longrightarrow> length s = m \<Longrightarrow> f i s = wr s (p i) (h i)"
    and "\<And>i. 0 \<le> i \<Longrightarrow> i < n \<Longrightarrow> 0 \<le> p i \<and> p i < int m"
    and "\<And>i j. 0 \<le> i \<Longrightarrow> i < n \<Longrightarrow> 0 \<le> j \<Longrightarrow> j < n \<Longrightarrow> p i = p j \<Longrightarrow> h i = h j"
    and "length s = m"
  shows "\<exists>s'. parallel_for n f s = Some s' \<and> length s' = m \<and>
     (\<forall>i. 0 \<le> i \<and> i < n \<longrightarrow> s' ! nat (p i) = h i) \<and>
     (\<forall>k. (\<forall>i. 0 \<le> i \<and> i < n \<longrightarrow> p i \<noteq> int k) \<longrightarrow> s' ! k = s ! k)"
proof -
  have "\<exists>s'. run_for [0..n - 1] f s = Some s' \<and> length s' = m \<and>
     (\<forall>i \<in> set [0..n - 1]. s' ! nat (p i) = h i) \<and>
     (\<forall>k. int k \<notin> p ` set [0..n - 1] \<longrightarrow> s' ! k = s ! k)"
  proof (rule run_for_scatter)
    show "f i t = wr t (p i) (h i)" if "i \<in> set [0..n - 1]" "length t = m" for i t
      using assms(1) that by simp
    show "0 \<le> p i \<and> p i < int m" if "i \<in> set [0..n - 1]" for i
      using assms(2) that by simp
    show "h i = h j" if "i \<in> set [0..n - 1]" "j \<in> set [0..n - 1]" "p i = p j" for i j
      using assms(3) [of i j] that by simp
  qed fact
  then obtain s' where s': "run_for [0..n - 1] f s = Some s'" "length s' = m"
    "\<forall>i \<in> set [0..n - 1]. s' ! nat (p i) = h i"
    "\<forall>k. int k \<notin> p ` set [0..n - 1] \<longrightarrow> s' ! k = s ! k"
    by blast
  show ?thesis
  proof (intro exI conjI allI impI)
    show "parallel_for n f s = Some s'"
      using s'(1) by (simp add: parallel_for_def for_range_def)
    show "length s' = m" by fact
    show "s' ! nat (p i) = h i" if "0 \<le> i \<and> i < n" for i
      using that s'(3) by simp
    show "s' ! k = s ! k" if "\<forall>i. 0 \<le> i \<and> i < n \<longrightarrow> p i \<noteq> int k" for k
    proof -
      have "int k \<notin> p ` set [0..n - 1]" using that by force
      then show ?thesis using s'(4) by blast
    qed
  qed
qed

text \<open>
  More generally an iteration may write a whole region of cells.  If every iteration gives the cells
  of its region the values that one function \<open>V\<close> prescribes and leaves the others alone, so does the
  loop, in whatever order it runs and however often it repeats an iteration.
\<close>

lemma run_for_regions:
  assumes "\<And>i s. i \<in> set is \<Longrightarrow> length s = m \<Longrightarrow>
      \<exists>s'. f i s = Some s' \<and> length s' = m \<and> (\<forall>k \<in> R i. s' ! k = V k) \<and>
           (\<forall>k. k \<notin> R i \<longrightarrow> s' ! k = s ! k)"
    and "length s = m"
  shows "\<exists>s'. run_for is f s = Some s' \<and> length s' = m \<and>
     (\<forall>k \<in> \<Union>(R ` set is). s' ! k = V k) \<and>
     (\<forall>k. k \<notin> \<Union>(R ` set is) \<longrightarrow> s' ! k = s ! k)"
  using assms
proof (induction "is" arbitrary: s)
  case Nil
  then show ?case by simp
next
  case (Cons i "is")
  obtain s1 where s1: "f i s = Some s1" "length s1 = m" "\<forall>k \<in> R i. s1 ! k = V k"
    "\<forall>k. k \<notin> R i \<longrightarrow> s1 ! k = s ! k"
    using Cons.prems(1) [of i s] Cons.prems(2) by auto
  have "\<exists>s'. run_for is f s1 = Some s' \<and> length s' = m \<and>
     (\<forall>k \<in> \<Union>(R ` set is). s' ! k = V k) \<and> (\<forall>k. k \<notin> \<Union>(R ` set is) \<longrightarrow> s' ! k = s1 ! k)"
    using Cons.prems(1) s1(2) by (intro Cons.IH) auto
  then obtain s' where s': "run_for is f s1 = Some s'" "length s' = m"
    "\<forall>k \<in> \<Union>(R ` set is). s' ! k = V k" "\<forall>k. k \<notin> \<Union>(R ` set is) \<longrightarrow> s' ! k = s1 ! k"
    by blast
  have "s' ! k = V k" if "k \<in> \<Union>(R ` set (i # is))" for k
    using that s'(3,4) s1(3) by (cases "k \<in> \<Union>(R ` set is)") auto
  moreover have "s' ! k = s ! k" if "k \<notin> \<Union>(R ` set (i # is))" for k
    using that s'(4) s1(4) by auto
  ultimately show ?case using s1(1) s'(1,2) by simp
qed

text \<open>
  The most frequent shape: allocate \<open>Write c(n)\<close>, compute \<open>c[i]\<close> for every \<open>i\<close>, return \<open>c\<close>.
\<close>

definition fill_each :: "lo \<Rightarrow> (lo \<Rightarrow> 'a option) \<Rightarrow> 'a list option" where
  "fill_each n g = do {
     c \<leftarrow> alloc n;
     w \<leftarrow> parallel_for n (\<lambda>i c. do { v \<leftarrow> g i; wr c i (Some v) }) c;
     freeze w
   }"

lemma fill_each_Some:
  assumes "0 \<le> n" and "\<And>k. int k < n \<Longrightarrow> g (int k) = Some (h k)"
  shows "fill_each n g = Some (map h [0..<nat n])"
proof -
  let ?f = "\<lambda>i c. do { v \<leftarrow> g i; wr c i (Some v) }"
  have "\<exists>w. parallel_for n ?f (fresh n) = Some w \<and> length w = nat n \<and>
     (\<forall>i. 0 \<le> i \<and> i < n \<longrightarrow> w ! nat i = Some (h (nat i))) \<and>
     (\<forall>k. (\<forall>i. 0 \<le> i \<and> i < n \<longrightarrow> i \<noteq> int k) \<longrightarrow> w ! k = fresh n ! k)"
  proof (rule parallel_for_scatter)
    fix i :: int and s :: "'a option list"
    assume "0 \<le> i" "i < n"
    then show "?f i s = wr s i (Some (h (nat i)))"
      using assms(2) [of "nat i"] by simp
  qed simp_all
  then obtain w where w: "parallel_for n ?f (fresh n) = Some w" "length w = nat n"
    "\<forall>i. 0 \<le> i \<and> i < n \<longrightarrow> w ! nat i = Some (h (nat i))"
    by blast
  have "freeze w = Some (map h [0..<nat n])"
  proof (rule freeze_eqI)
    show "length w = length (map h [0..<nat n])" using w(2) by simp
    fix k assume "k < length (map h [0..<nat n])"
    then have "0 \<le> int k \<and> int k < n" by auto
    then have "w ! nat (int k) = Some (h (nat (int k)))" using w(3) by blast
    then show "w ! k = Some (map h [0..<nat n] ! k)"
      using \<open>k < length (map h [0..<nat n])\<close> by simp
  qed
  with w(1) assms(1) show ?thesis by (simp add: fill_each_def)
qed

lemma fill_each_map:
  assumes "n = asize a" and "\<And>k. k < length a \<Longrightarrow> g (int k) = Some (h (a ! k))"
  shows "fill_each n g = Some (map h a)"
proof -
  have "fill_each n g = Some (map (\<lambda>k. h (a ! k)) [0..<nat n])"
    using assms by (intro fill_each_Some) (auto simp: asize_def)
  also have "map (\<lambda>k. h (a ! k)) [0..<nat n] = map h a"
    using assms(1) by (intro nth_equalityI) (auto simp: asize_def)
  finally show ?thesis .
qed

text \<open>
  Arrays of fixed-width rows: iteration \<open>i\<close> writes the \<open>w\<close> consecutive cells of row \<open>p i\<close>.
\<close>

lemma parallel_for_cong:
  assumes "\<And>i s. 0 \<le> i \<Longrightarrow> i < n \<Longrightarrow> f i s = g i s"
  shows "parallel_for n f s = parallel_for n g s"
  unfolding parallel_for_def for_range_def using assms by (intro run_for_cong) auto

lemma row_index_inject:
  fixes j k w :: int
  assumes "a * w + j = b * w + k" "0 \<le> j" "j < w" "0 \<le> k" "k < w"
  shows "a = b \<and> j = k"
proof -
  have "(a * w + j) div w = a" "(b * w + k) div w = b" using assms(2-5) by simp_all
  with assms(1) have "a = b" by metis
  with assms(1) show ?thesis by simp
qed

lemma row_index_bound:
  fixes j w :: int
  assumes "0 \<le> j" "j < w" "0 \<le> b" "b < n"
  shows "0 \<le> b * w + j \<and> b * w + j < n * w"
proof -
  have "(b + 1) * w \<le> n * w" using assms by (intro mult_right_mono) auto
  then show ?thesis using assms by (simp add: algebra_simps)
qed

lemma div_less_rows:
  fixes k w :: int
  assumes "0 < w" "k < n * w"
  shows "k div w < n"
proof (rule ccontr)
  assume "\<not> k div w < n"
  then have "n * w \<le> k div w * w" using assms(1) by (intro mult_right_mono) auto
  also have "\<dots> \<le> k"
    using assms(1) by (metis add.commute div_mult_mod_eq le_add_same_cancel2 pos_mod_sign)
  finally show False using assms(2) by simp
qed

lemma scatter_rows_list:
  assumes f: "\<And>i s. i \<in> set is \<Longrightarrow>
      f i s = for_range 0 w (\<lambda>j s. do { v \<leftarrow> g i j; wr s (p i * w + j) v }) s"
    and g: "\<And>i j. i \<in> set is \<Longrightarrow> 0 \<le> j \<Longrightarrow> j < w \<Longrightarrow> g i j = Some (h i j)"
    and p: "\<And>i. i \<in> set is \<Longrightarrow> 0 \<le> p i \<and> p i < m"
    and same: "\<And>i k j. i \<in> set is \<Longrightarrow> k \<in> set is \<Longrightarrow> p i = p k \<Longrightarrow>
        0 \<le> j \<Longrightarrow> j < w \<Longrightarrow> h i j = h k j"
    and len: "length s = nat (m * w)"
  shows "\<exists>s'. run_for is f s = Some s' \<and> length s' = length s \<and>
     (\<forall>i j. i \<in> set is \<and> 0 \<le> j \<and> j < w \<longrightarrow> s' ! nat (p i * w + j) = h i j) \<and>
     (\<forall>b j. 0 \<le> b \<and> b < m \<and> 0 \<le> j \<and> j < w \<and> b \<notin> p ` set is \<longrightarrow>
        s' ! nat (b * w + j) = s ! nat (b * w + j))"
proof -
  let ?F = "\<lambda>(i, j) s. do { v \<leftarrow> g i j; wr s (p i * w + j) v }"
  let ?is = "List.product is [0..w - 1]"
  let ?p = "\<lambda>(i, j). p i * w + j"
  have "run_for is f s = run_for is (\<lambda>i s. run_for [0..w - 1] (\<lambda>j. ?F (i, j)) s) s"
    by (rule run_for_cong) (simp add: f for_range_def)
  also have "\<dots> = run_for ?is ?F s"
    by (simp add: run_for_nested)
  finally have run: "run_for is f s = run_for ?is ?F s" .
  have "\<exists>s'. run_for ?is ?F s = Some s' \<and> length s' = nat (m * w) \<and>
     (\<forall>ij \<in> set ?is. s' ! nat (?p ij) = (\<lambda>(i, j). h i j) ij) \<and>
     (\<forall>k. int k \<notin> ?p ` set ?is \<longrightarrow> s' ! k = s ! k)"
  proof (rule run_for_scatter)
    show "?F ij t = wr t (?p ij) ((\<lambda>(i, j). h i j) ij)" if "ij \<in> set ?is" for ij t
      using that g by auto
    show "0 \<le> ?p ij \<and> ?p ij < int (nat (m * w))" if "ij \<in> set ?is" for ij
      using that row_index_bound [of "snd ij" w "p (fst ij)" m] p [of "fst ij"] by auto
    show "(\<lambda>(i, j). h i j) ij = (\<lambda>(i, j). h i j) kl"
      if "ij \<in> set ?is" "kl \<in> set ?is" "?p ij = ?p kl" for ij kl
    proof -
      have "p (fst ij) = p (fst kl) \<and> snd ij = snd kl"
        using that by (intro row_index_inject [of _ w]) auto
      then show ?thesis using that(1,2) same [of "fst ij" "fst kl" "snd kl"] by auto
    qed
  qed (rule len)
  then obtain s' where s': "run_for ?is ?F s = Some s'" "length s' = nat (m * w)"
    "\<forall>ij \<in> set ?is. s' ! nat (?p ij) = (\<lambda>(i, j). h i j) ij"
    "\<forall>k. int k \<notin> ?p ` set ?is \<longrightarrow> s' ! k = s ! k" by blast
  have "s' ! nat (p i * w + j) = h i j" if "i \<in> set is \<and> 0 \<le> j \<and> j < w" for i j
    using s'(3) that by (force dest!: bspec [where x = "(i, j)"])
  moreover have "s' ! nat (b * w + j) = s ! nat (b * w + j)"
    if "0 \<le> b \<and> b < m \<and> 0 \<le> j \<and> j < w \<and> b \<notin> p ` set is" for b j
  proof -
    have "b * w + j \<noteq> p i * w + k" if "i \<in> set is" "0 \<le> k" "k < w" for i k
      using row_index_inject [of b w j "p i" k] that
        \<open>0 \<le> b \<and> b < m \<and> 0 \<le> j \<and> j < w \<and> b \<notin> p ` set is\<close> by auto
    then have "b * w + j \<notin> ?p ` set ?is" by (auto simp only: image_iff set_product) auto
    then show ?thesis
      using s'(4) row_index_bound [of j w b m] that by (auto dest: spec [where x = "nat (b * w + j)"])
  qed
  ultimately show ?thesis using run s'(1,2) len by auto
qed

lemma scatter_rows:
  assumes "\<And>i s. 0 \<le> i \<Longrightarrow> i < n \<Longrightarrow>
      f i s = for_range 0 w (\<lambda>j s. do { v \<leftarrow> g i j; wr s (p i * w + j) v }) s"
    and "\<And>i j. 0 \<le> i \<Longrightarrow> i < n \<Longrightarrow> 0 \<le> j \<Longrightarrow> j < w \<Longrightarrow> g i j = Some (h i j)"
    and "\<And>i. 0 \<le> i \<Longrightarrow> i < n \<Longrightarrow> 0 \<le> p i \<and> p i < m"
    and "\<And>i k j. 0 \<le> i \<Longrightarrow> i < n \<Longrightarrow> 0 \<le> k \<Longrightarrow> k < n \<Longrightarrow> p i = p k \<Longrightarrow>
        0 \<le> j \<Longrightarrow> j < w \<Longrightarrow> h i j = h k j"
    and "length s = nat (m * w)"
  shows "\<exists>s'. parallel_for n f s = Some s' \<and> length s' = length s \<and>
     (\<forall>i j. 0 \<le> i \<and> i < n \<and> 0 \<le> j \<and> j < w \<longrightarrow> s' ! nat (p i * w + j) = h i j) \<and>
     (\<forall>b j. 0 \<le> b \<and> b < m \<and> 0 \<le> j \<and> j < w \<and> (\<forall>i. 0 \<le> i \<and> i < n \<longrightarrow> p i \<noteq> b) \<longrightarrow>
        s' ! nat (b * w + j) = s ! nat (b * w + j))"
proof -
  have "\<exists>s'. run_for [0..n - 1] f s = Some s' \<and> length s' = length s \<and>
     (\<forall>i j. i \<in> set [0..n - 1] \<and> 0 \<le> j \<and> j < w \<longrightarrow> s' ! nat (p i * w + j) = h i j) \<and>
     (\<forall>b j. 0 \<le> b \<and> b < m \<and> 0 \<le> j \<and> j < w \<and> b \<notin> p ` set [0..n - 1] \<longrightarrow>
        s' ! nat (b * w + j) = s ! nat (b * w + j))"
  proof (rule scatter_rows_list)
    show "h i j = h k j"
      if "i \<in> set [0..n - 1]" "k \<in> set [0..n - 1]" "p i = p k" "0 \<le> j" "j < w" for i k j
      using assms(4) [of i k j] that by simp
    show "f i t = for_range 0 w (\<lambda>j s. do { v \<leftarrow> g i j; wr s (p i * w + j) v }) t"
      if "i \<in> set [0..n - 1]" for i t
      using assms(1) [of i t] that by simp
    show "g i j = Some (h i j)" if "i \<in> set [0..n - 1]" "0 \<le> j" "j < w" for i j
      using assms(2) [of i j] that by simp
    show "0 \<le> p i \<and> p i < m" if "i \<in> set [0..n - 1]" for i
      using assms(3) [of i] that by simp
  qed (rule assms(5))
  then obtain s' where s': "run_for [0..n - 1] f s = Some s'" "length s' = length s"
    "\<And>i j. i \<in> set [0..n - 1] \<and> 0 \<le> j \<and> j < w \<Longrightarrow> s' ! nat (p i * w + j) = h i j"
    "\<And>b j. 0 \<le> b \<and> b < m \<and> 0 \<le> j \<and> j < w \<and> b \<notin> p ` set [0..n - 1] \<Longrightarrow>
        s' ! nat (b * w + j) = s ! nat (b * w + j)" by blast
  show ?thesis
  proof (intro exI conjI allI impI)
    show "parallel_for n f s = Some s'" using s'(1) by (simp add: parallel_for_def for_range_def)
    show "length s' = length s" by fact
    show "s' ! nat (p i * w + j) = h i j" if "0 \<le> i \<and> i < n \<and> 0 \<le> j \<and> j < w" for i j
      using that s'(3) by simp
    show "s' ! nat (b * w + j) = s ! nat (b * w + j)"
      if "0 \<le> b \<and> b < m \<and> 0 \<le> j \<and> j < w \<and> (\<forall>i. 0 \<le> i \<and> i < n \<longrightarrow> p i \<noteq> b)" for b j
      using that by (intro s'(4)) auto
  qed
qed

text \<open>The rows of a fresh array, filled in order.\<close>

lemma fill_rows:
  assumes f: "\<And>i s. 0 \<le> i \<Longrightarrow> i < n \<Longrightarrow>
      f i s = for_range 0 w (\<lambda>j s. do { v \<leftarrow> g i j; wr s (i * w + j) (Some v) }) s"
    and g: "\<And>i j. 0 \<le> i \<Longrightarrow> i < n \<Longrightarrow> 0 \<le> j \<Longrightarrow> j < w \<Longrightarrow> g i j = Some (h i j)"
    and "0 \<le> w" "m = n * w"
  shows "do { s \<leftarrow> parallel_for n f (fresh m); freeze s } =
     Some (map (\<lambda>k. h (int k div w) (int k mod w)) [0..<nat m])"
proof -
  have "\<exists>s'. parallel_for n f (fresh m) = Some s' \<and> length s' = length (fresh m :: 'a option list) \<and>
     (\<forall>i j. 0 \<le> i \<and> i < n \<and> 0 \<le> j \<and> j < w \<longrightarrow> s' ! nat (i * w + j) = Some (h i j)) \<and>
     (\<forall>b j. 0 \<le> b \<and> b < n \<and> 0 \<le> j \<and> j < w \<and> (\<forall>i. 0 \<le> i \<and> i < n \<longrightarrow> i \<noteq> b) \<longrightarrow>
        s' ! nat (b * w + j) = fresh m ! nat (b * w + j))"
  proof (rule scatter_rows)
    show "f i s = for_range 0 w (\<lambda>j s. do { v \<leftarrow> do { v \<leftarrow> g i j; Some (Some v) }; wr s (i * w + j) v }) s"
      if "0 \<le> i" "i < n" for i s
      using f [OF that] by (simp add: Option.bind_assoc)
    show "do { v \<leftarrow> g i j; Some (Some v) } = Some (Some (h i j))"
      if "0 \<le> i" "i < n" "0 \<le> j" "j < w" for i j
      using g [OF that] by simp
  qed (use assms in simp_all)
  then obtain s where s: "parallel_for n f (fresh m) = Some s" "length s = nat m"
    "\<And>i j. 0 \<le> i \<and> i < n \<and> 0 \<le> j \<and> j < w \<Longrightarrow> s ! nat (i * w + j) = Some (h i j)"
    by auto
  have "freeze s = Some (map (\<lambda>k. h (int k div w) (int k mod w)) [0..<nat m])"
  proof (rule freeze_eqI)
    fix k assume "k < length (map (\<lambda>k. h (int k div w) (int k mod w)) [0..<nat m])"
    then have k: "k < nat m" by simp
    then have w: "0 < w" using assms(3,4) by (cases "w = 0") auto
    have km: "int k < n * w" using k assms(4) by linarith
    have "int k div w < n" using w km by (rule div_less_rows)
    then have "s ! nat (int k div w * w + int k mod w) = Some (h (int k div w) (int k mod w))"
      using w by (intro s(3)) (auto simp: pos_imp_zdiv_nonneg_iff)
    then show "s ! k = Some (map (\<lambda>k. h (int k div w) (int k mod w)) [0..<nat m] ! k)"
      using k by simp
  qed (use s(2) in simp)
  with s(1) show ?thesis by simp
qed

text \<open>The cells of rows of equal length.\<close>

lemma length_concat_same:
  "\<forall>r \<in> set R. length r = m \<Longrightarrow> length (concat R) = length R * m"
  by (induction R) simp_all

lemma concat_same_nth:
  assumes "\<forall>r \<in> set R. length r = m" "s < length R" "x < m"
  shows "concat R ! (s * m + x) = R ! s ! x" "s * m + x < length (concat R)"
  using assms
proof (induction R arbitrary: s)
  case (Cons r R)
  {
    case 1
    then show ?case using Cons.IH(1) by (cases s) (simp_all add: nth_append)
  next
    case 2
    then show ?case using Cons.IH(2) by (cases s) simp_all
  }
qed simp_all

end
