(* ===== verification/Align.thy ===== *)
theory Align
  imports Omega_Prelude "HOL-Library.Word"
begin

text \<open>
  Alignment codes (\<open>src/src/Omega_h_align.hpp\<close>, \<open>Omega_h_align.cpp\<close>).

  A code is an \<open>I8\<close>, here an \<^typ>\<open>8 word\<close>: bit 0 says whether the entity is flipped, bits 1 and 2
  hold a rotation, the bits above say which boundary entity of its parent it is.  The accessors
  promote the code to \<open>int\<close> first (\<^term>\<open>sint\<close>), then shift and mask, as the C++ does; C's
  remainder \<open>%\<close> is \<^term>\<open>(smod)\<close>, which truncates towards zero.

  The lemmas show that packing and unpacking are inverse, that a code acts on the vertex (and
  edge) indices of an entity as a permutation, that \<open>invert_alignment\<close> and
  \<open>compound_alignments\<close> are the inverse and the composition of these permutations, and that
  \<open>align_ev2v\<close> moves every vertex of every entity of an array to the index the permutation says.
\<close>

unbundle bit_operations_syntax

type_synonym i8 = "8 word"

section \<open>Codes\<close>

definition code_is_flipped :: "i8 \<Rightarrow> bool" where
  "code_is_flipped code = (sint code AND 1 \<noteq> 0)"

definition code_rotation :: "i8 \<Rightarrow> int" where
  "code_rotation code = drop_bit 1 (sint code) AND 3"

definition code_which_down :: "i8 \<Rightarrow> int" where
  "code_which_down code = drop_bit 3 (sint code)"

definition make_code :: "bool \<Rightarrow> int \<Rightarrow> int \<Rightarrow> i8" where
  "make_code is_flipped rotation which_down =
     word_of_int ((push_bit 3 which_down OR push_bit 1 rotation) OR of_bool is_flipped)"

definition rotate_index :: "int \<Rightarrow> int \<Rightarrow> int \<Rightarrow> int" where
  "rotate_index nverts_per_ent index rotation = (index + rotation) smod nverts_per_ent"

definition invert_rotation :: "int \<Rightarrow> int \<Rightarrow> int" where
  "invert_rotation nverts_per_ent rotation = (nverts_per_ent - rotation) smod nverts_per_ent"

definition reverse_index :: "int \<Rightarrow> int \<Rightarrow> int" where
  "reverse_index n i = n - 1 - i"

definition flip_vert_index :: "int \<Rightarrow> int \<Rightarrow> int" where
  "flip_vert_index n i = (if i = 0 then 0 else 1 + reverse_index (n - 1) (i - 1))"

definition flip_edge_index :: "int \<Rightarrow> int \<Rightarrow> int" where
  "flip_edge_index n i = reverse_index n i"

definition align_vert_index :: "int \<Rightarrow> int \<Rightarrow> i8 \<Rightarrow> int" where
  "align_vert_index nverts_per_ent index code =
     (if code_is_flipped code
      then flip_vert_index nverts_per_ent (rotate_index nverts_per_ent index (code_rotation code))
      else rotate_index nverts_per_ent index (code_rotation code))"

definition align_edge_index :: "int \<Rightarrow> int \<Rightarrow> i8 \<Rightarrow> int" where
  "align_edge_index nverts_per_ent index code =
     (if code_is_flipped code
      then flip_edge_index nverts_per_ent (rotate_index nverts_per_ent index (code_rotation code))
      else rotate_index nverts_per_ent index (code_rotation code))"

definition align_index :: "int \<Rightarrow> int \<Rightarrow> int \<Rightarrow> i8 \<Rightarrow> int" where
  "align_index nverts_per_ent index_dim index code =
     (if index_dim = 0 then align_vert_index nverts_per_ent index code
      else align_edge_index nverts_per_ent index code)"

definition rotation_to_first :: "int \<Rightarrow> int \<Rightarrow> int" where
  "rotation_to_first nverts_per_ent new_first = invert_rotation nverts_per_ent new_first"

definition invert_alignment :: "int \<Rightarrow> i8 \<Rightarrow> i8" where
  "invert_alignment nverts_per_ent code =
     (if code_is_flipped code then code
      else make_code False (invert_rotation nverts_per_ent (code_rotation code)) 0)"

definition compound_alignments_deg :: "int \<Rightarrow> i8 \<Rightarrow> i8 \<Rightarrow> i8" where
  "compound_alignments_deg nverts_per_ent code1 code2 =
     (let old_first = align_vert_index nverts_per_ent
                        (align_vert_index nverts_per_ent 0 code1) code2;
          rotation = rotation_to_first nverts_per_ent old_first;
          is_flipped = (code_is_flipped code1 \<noteq> code_is_flipped code2)
      in invert_alignment nverts_per_ent (make_code is_flipped rotation 0))"

definition compound_alignments :: "int \<Rightarrow> i8 \<Rightarrow> i8 \<Rightarrow> i8 option" where
  "compound_alignments deg code1 code2 =
     (if deg = 3 then Some (compound_alignments_deg 3 code1 code2)
      else if deg = 2 then Some (compound_alignments_deg 2 code1 code2)
      else None)"

subsection \<open>Packing and unpacking\<close>

lemma rotation_cases:
  assumes "0 \<le> r" "r < 4"
  obtains "r = 0" | "r = 1" | "r = 2" | "r = (3::int)"
  using assms by linarith

lemma code_fields_table:
  "\<forall>d \<in> set [0..15]. \<forall>r \<in> set [0..3]. \<forall>f \<in> set [False, True].
     code_is_flipped (make_code f r d) = f \<and> code_rotation (make_code f r d) = r \<and>
     code_which_down (make_code f r d) = d"
  by code_simp

lemma code_fields_make_code:
  assumes "0 \<le> rotation" "rotation < 4" "0 \<le> which_down" "which_down < 16"
  shows "code_is_flipped (make_code f rotation which_down) = f"
    and "code_rotation (make_code f rotation which_down) = rotation"
    and "code_which_down (make_code f rotation which_down) = which_down"
proof -
  have "which_down \<in> set [0..15]" "rotation \<in> set [0..3]" "f \<in> set [False, True]"
    using assms by auto
  then show "code_is_flipped (make_code f rotation which_down) = f"
    and "code_rotation (make_code f rotation which_down) = rotation"
    and "code_which_down (make_code f rotation which_down) = which_down"
    using code_fields_table by blast+
qed

lemma code_rotation_bounds [simp]: "0 \<le> code_rotation c" "code_rotation c < 4"
proof -
  have "code_rotation c = drop_bit 1 (sint c) mod 4"
    unfolding code_rotation_def using take_bit_eq_mask [of 2 "drop_bit 1 (sint c)"]
    by (simp add: take_bit_eq_mod mask_eq_exp_minus_1)
  then show "0 \<le> code_rotation c" "code_rotation c < 4" by simp_all
qed

lemma make_code_fields [simp]:
  assumes "0 \<le> rotation" "rotation < 4"
  shows "code_is_flipped (make_code f rotation 0) = f"
    and "code_rotation (make_code f rotation 0) = rotation"
  using code_fields_make_code [of rotation 0 f] assms by simp_all

subsection \<open>The permutation a code stands for\<close>

text \<open>
  The action on vertex indices depends on the code only through its flip and its rotation, so
  facts about it are finite tables over these two fields and the index.
\<close>

definition act_vert :: "int \<Rightarrow> bool \<Rightarrow> int \<Rightarrow> int \<Rightarrow> int" where
  "act_vert n f r i = (if f then flip_vert_index n (rotate_index n i r) else rotate_index n i r)"

definition act_edge :: "int \<Rightarrow> bool \<Rightarrow> int \<Rightarrow> int \<Rightarrow> int" where
  "act_edge n f r i = (if f then flip_edge_index n (rotate_index n i r) else rotate_index n i r)"

lemma align_vert_index_act:
  "align_vert_index n i c = act_vert n (code_is_flipped c) (code_rotation c) i"
  by (simp add: align_vert_index_def act_vert_def)

lemma align_edge_index_act:
  "align_edge_index n i c = act_edge n (code_is_flipped c) (code_rotation c) i"
  by (simp add: align_edge_index_def act_edge_def)

lemma act_range_table:
  "\<forall>n \<in> set [2..4]. \<forall>f \<in> set [False, True]. \<forall>r \<in> set [0..3]. \<forall>i \<in> set [0..n - 1].
     act_vert n f r i \<in> set [0..n - 1] \<and> act_edge n f r i \<in> set [0..n - 1]"
  by code_simp

lemma act_inverse_table:
  "\<forall>n \<in> set [2..4]. \<forall>f \<in> set [False, True]. \<forall>r \<in> set [0..3]. \<forall>i \<in> set [0..n - 1].
     let c = (if f then make_code True r 0 else make_code False (invert_rotation n r) 0);
         act = (\<lambda>j. act_vert n (code_is_flipped c) (code_rotation c) j);
         acte = (\<lambda>j. act_edge n (code_is_flipped c) (code_rotation c) j)
     in act (act_vert n f r i) = i \<and> acte (act_edge n f r i) = i \<and>
        act_vert n f r (act i) = i \<and> act_edge n f r (acte i) = i"
  by code_simp

lemma act_compound_table:
  "\<forall>n \<in> set [2..3]. \<forall>f \<in> set [False, True]. \<forall>r \<in> set [0..3].
   \<forall>f' \<in> set [False, True]. \<forall>r' \<in> set [0..3]. \<forall>i \<in> set [0..n - 1].
     let c = invert_alignment n (make_code (f \<noteq> f')
               (rotation_to_first n (act_vert n f' r' (act_vert n f r 0))) 0)
     in act_vert n (code_is_flipped c) (code_rotation c) i = act_vert n f' r' (act_vert n f r i)"
  by code_simp

lemma code_rotation_range: "code_rotation c \<in> set [0..3]"
  using code_rotation_bounds [of c] by (simp del: code_rotation_bounds)

lemma bool_range: "(f::bool) \<in> set [False, True]"
  by auto

lemma align_index_range:
  assumes "n \<in> {2, 3, 4}" "0 \<le> i" "i < n"
  shows "0 \<le> align_vert_index n i c \<and> align_vert_index n i c < n"
    and "0 \<le> align_edge_index n i c \<and> align_edge_index n i c < n"
proof -
  have "n \<in> set [2..4]" "i \<in> set [0..n - 1]" using assms by auto
  note act_range_table [THEN bspec, OF this(1), THEN bspec, OF bool_range [of "code_is_flipped c"],
      THEN bspec, OF code_rotation_range [of c], THEN bspec, OF this(2)]
  then show "0 \<le> align_vert_index n i c \<and> align_vert_index n i c < n"
    and "0 \<le> align_edge_index n i c \<and> align_edge_index n i c < n"
    by (auto simp: align_vert_index_act align_edge_index_act)
qed

lemma invert_alignment_fields:
  "invert_alignment n c =
     (if code_is_flipped c then c
      else make_code False (invert_rotation n (code_rotation c)) 0)"
  by (simp add: invert_alignment_def)

lemma invert_alignment_inverse:
  assumes "n \<in> {2, 3, 4}" "0 \<le> i" "i < n"
  shows "align_vert_index n (align_vert_index n i c) (invert_alignment n c) = i"
    and "align_edge_index n (align_edge_index n i c) (invert_alignment n c) = i"
    and "align_vert_index n (align_vert_index n i (invert_alignment n c)) c = i"
    and "align_edge_index n (align_edge_index n i (invert_alignment n c)) c = i"
proof -
  have n: "n \<in> set [2..4]" and i: "i \<in> set [0..n - 1]" using assms by auto
  note tab = act_inverse_table [THEN bspec, OF n, THEN bspec, OF bool_range [of "code_is_flipped c"],
      THEN bspec, OF code_rotation_range [of c], THEN bspec, OF i]
  show "align_vert_index n (align_vert_index n i c) (invert_alignment n c) = i"
    and "align_edge_index n (align_edge_index n i c) (invert_alignment n c) = i"
    and "align_vert_index n (align_vert_index n i (invert_alignment n c)) c = i"
    and "align_edge_index n (align_edge_index n i (invert_alignment n c)) c = i"
    using tab
    by (cases "code_is_flipped c";
        simp add: Let_def align_vert_index_act align_edge_index_act invert_alignment_fields)+
qed

lemma compound_alignments_deg_act:
  assumes "n \<in> {2, 3}" "0 \<le> i" "i < n"
  shows "align_vert_index n i (compound_alignments_deg n c1 c2) =
         align_vert_index n (align_vert_index n i c1) c2"
proof -
  have n: "n \<in> set [2..3]" and i: "i \<in> set [0..n - 1]" using assms by auto
  note tab = act_compound_table [THEN bspec, OF n, THEN bspec, OF bool_range [of "code_is_flipped c1"],
      THEN bspec, OF code_rotation_range [of c1], THEN bspec, OF bool_range [of "code_is_flipped c2"],
      THEN bspec, OF code_rotation_range [of c2], THEN bspec, OF i]
  then show ?thesis
    by (simp add: Let_def align_vert_index_act compound_alignments_deg_def)
qed

section \<open>The interface of an alignment: a group acting on indices\<close>

text \<open>
  What the adjacency code relies on: a code acts on the indices of an entity, its inverse undoes
  it.  Everything the clients need (injectivity, surjectivity) follows.
\<close>

locale alignment_action =
  fixes n :: int
    and act :: "'c \<Rightarrow> int \<Rightarrow> int"
    and inv :: "'c \<Rightarrow> 'c"
  assumes act_range: "0 \<le> i \<Longrightarrow> i < n \<Longrightarrow> 0 \<le> act c i \<and> act c i < n"
    and inv_act: "0 \<le> i \<Longrightarrow> i < n \<Longrightarrow> act (inv c) (act c i) = i"
    and act_inv: "0 \<le> i \<Longrightarrow> i < n \<Longrightarrow> act c (act (inv c) i) = i"
begin

lemma act_inj: "inj_on (act c) {0..<n}"
  by (rule inj_on_inverseI [where g = "act (inv c)"]) (simp add: inv_act)

lemma act_bij: "bij_betw (act c) {0..<n} {0..<n}"
proof (rule bij_betw_imageI)
  show "inj_on (act c) {0..<n}" by (rule act_inj)
  show "act c ` {0..<n} = {0..<n}"
  proof
    show "act c ` {0..<n} \<subseteq> {0..<n}" using act_range by auto
    show "{0..<n} \<subseteq> act c ` {0..<n}"
    proof
      fix i assume "i \<in> {0..<n}"
      then have "i = act c (act (inv c) i)" "act (inv c) i \<in> {0..<n}"
        using act_inv act_range by auto
      then show "i \<in> act c ` {0..<n}" by (rule image_eqI)
    qed
  qed
qed

lemma act_eq_iff: "0 \<le> i \<Longrightarrow> i < n \<Longrightarrow> 0 \<le> j \<Longrightarrow> j < n \<Longrightarrow> act c i = act c j \<longleftrightarrow> i = j"
  using inj_on_eq_iff [OF act_inj, of i j c] by simp

end

locale composable_action = alignment_action n act inv
  for n :: int and act :: "'c \<Rightarrow> int \<Rightarrow> int" and inv :: "'c \<Rightarrow> 'c" +
  fixes comp :: "'c \<Rightarrow> 'c \<Rightarrow> 'c"
  assumes act_comp: "0 \<le> i \<Longrightarrow> i < n \<Longrightarrow> act (comp c d) i = act d (act c i)"
begin

lemma comp_inv: "0 \<le> i \<Longrightarrow> i < n \<Longrightarrow> act (comp c (inv c)) i = i"
  by (simp add: act_comp inv_act)

lemma comp_assoc:
  "0 \<le> i \<Longrightarrow> i < n \<Longrightarrow> act (comp (comp c d) e) i = act (comp c (comp d e)) i"
  by (simp add: act_comp act_range)

end

interpretation edge_verts: composable_action 2 "\<lambda>c i. align_vert_index 2 i c"
    "invert_alignment 2" "compound_alignments_deg 2"
  by unfold_locales
    (simp_all add: align_index_range invert_alignment_inverse compound_alignments_deg_act)

interpretation tri_verts: composable_action 3 "\<lambda>c i. align_vert_index 3 i c"
    "invert_alignment 3" "compound_alignments_deg 3"
  by unfold_locales
    (simp_all add: align_index_range invert_alignment_inverse compound_alignments_deg_act)

interpretation quad_verts: alignment_action 4 "\<lambda>c i. align_vert_index 4 i c" "invert_alignment 4"
  by unfold_locales (simp_all add: align_index_range invert_alignment_inverse)

interpretation tri_edges: alignment_action 3 "\<lambda>c i. align_edge_index 3 i c" "invert_alignment 3"
  by unfold_locales (simp_all add: align_index_range invert_alignment_inverse)

interpretation quad_edges: alignment_action 4 "\<lambda>c i. align_edge_index 4 i c" "invert_alignment 4"
  by unfold_locales (simp_all add: align_index_range invert_alignment_inverse)

section \<open>Aligning arrays of vertex lists\<close>

definition rotate_adj :: "int \<Rightarrow> int \<Rightarrow> 'a list \<Rightarrow> lo \<Rightarrow> 'a option list \<Rightarrow> lo \<Rightarrow>
    'a option list option" where
  "rotate_adj nverts_per_ent rotation inp in_offset out out_offset =
     for_range 0 nverts_per_ent (\<lambda>j out. do {
       let out_j = rotate_index nverts_per_ent j rotation;
       x \<leftarrow> rd inp (in_offset + j);
       wr out (out_offset + out_j) (Some x)
     }) out"

definition flip_adj :: "int \<Rightarrow> 'a option list \<Rightarrow> lo \<Rightarrow> 'a option list option" where
  "flip_adj deg adj offset =
     (if deg = 4 then swap2 adj (offset + 1) (offset + 3)
      else if deg = 3 then swap2 adj (offset + 1) (offset + 2)
      else if deg = 2 then Some adj
      else None)"

definition align_adj :: "int \<Rightarrow> i8 \<Rightarrow> 'a list \<Rightarrow> lo \<Rightarrow> 'a option list \<Rightarrow> lo \<Rightarrow>
    'a option list option" where
  "align_adj nverts_per_ent code inp in_offset out out_offset = do {
     out \<leftarrow> rotate_adj nverts_per_ent (code_rotation code) inp in_offset out out_offset;
     if code_is_flipped code then flip_adj nverts_per_ent out out_offset else Some out
   }"

definition align_ev2v_deg :: "int \<Rightarrow> 'a list \<Rightarrow> i8 list \<Rightarrow> 'a list option" where
  "align_ev2v_deg deg ev2v codes = do {
     omega_check (asize ev2v = asize codes * deg);
     let ne = asize codes;
     ev2v_w \<leftarrow> parallel_for ne (\<lambda>e ev2v_w. do {
       code \<leftarrow> rd codes e;
       align_adj deg code ev2v (e * deg) ev2v_w (e * deg)
     }) (fresh (asize ev2v));
     freeze ev2v_w
   }"

definition align_ev2v :: "int \<Rightarrow> 'a list \<Rightarrow> i8 list \<Rightarrow> 'a list option" where
  "align_ev2v deg ev2v codes =
     (if deg = 4 then align_ev2v_deg 4 ev2v codes
      else if deg = 3 then align_ev2v_deg 3 ev2v codes
      else if deg = 2 then align_ev2v_deg 2 ev2v codes
      else None)"

lemma rotate_index_range:
  assumes "n \<in> {2, 3, 4}" "0 \<le> i" "0 \<le> r"
  shows "0 \<le> rotate_index n i r \<and> rotate_index n i r < n"
  using assms by (auto simp: rotate_index_def smod_nonneg)

lemma rotate_index_inj:
  assumes "n \<in> {2, 3, 4}" "0 \<le> i" "i < n" "0 \<le> j" "j < n" "0 \<le> r"
    and "rotate_index n i r = rotate_index n j r"
  shows "i = j"
proof -
  have "(i + r) mod n = (j + r) mod n"
    using assms by (auto simp: rotate_index_def smod_nonneg)
  then have "i mod n = j mod n"
    by (metis add_diff_cancel_right' mod_diff_left_eq)
  with assms show ?thesis by simp
qed

lemma rotate_adj_spec:
  assumes n: "n \<in> {2, 3, 4}" and r: "0 \<le> r"
    and "0 \<le> io" "io + n \<le> asize inp" "0 \<le> oo" "oo + n \<le> asize out"
  shows "\<exists>out'. rotate_adj n r inp io out oo = Some out' \<and> length out' = length out \<and>
    (\<forall>j. 0 \<le> j \<and> j < n \<longrightarrow> out' ! nat (oo + rotate_index n j r) = Some (inp ! nat (io + j))) \<and>
    (\<forall>k. int k < oo \<or> oo + n \<le> int k \<longrightarrow> out' ! k = out ! k)"
proof -
  let ?f = "\<lambda>j out. do { let out_j = rotate_index n j r; x \<leftarrow> rd inp (io + j);
                         wr out (oo + out_j) (Some x) }"
  have "\<exists>out'. parallel_for n ?f out = Some out' \<and> length out' = length out \<and>
     (\<forall>j. 0 \<le> j \<and> j < n \<longrightarrow> out' ! nat (oo + rotate_index n j r) = Some (inp ! nat (io + j))) \<and>
     (\<forall>k. (\<forall>j. 0 \<le> j \<and> j < n \<longrightarrow> oo + rotate_index n j r \<noteq> int k) \<longrightarrow> out' ! k = out ! k)"
  proof (rule parallel_for_scatter)
    fix j :: int and s :: "'a option list"
    assume j: "0 \<le> j" "j < n"
    show "?f j s = wr s (oo + rotate_index n j r) (Some (inp ! nat (io + j)))"
      using j assms by (simp add: Let_def rd_Some)
    show "0 \<le> oo + rotate_index n j r \<and> oo + rotate_index n j r < int (length out)"
      using rotate_index_range [OF n j(1) r] assms by (simp add: asize_def)
  next
    fix i j assume "0 \<le> i" "i < n" "0 \<le> j" "j < n"
      "oo + rotate_index n i r = oo + rotate_index n j r"
    then show "Some (inp ! nat (io + i)) = Some (inp ! nat (io + j))"
      using rotate_index_inj [OF n, of i j r] r by simp
  qed simp
  moreover have "oo + rotate_index n j r \<noteq> int k"
    if "0 \<le> j \<and> j < n" "int k < oo \<or> oo + n \<le> int k" for j k
    using that rotate_index_range [OF n, of j r] r by auto
  ultimately show ?thesis
    unfolding rotate_adj_def parallel_for_def by blast
qed

lemma flip_adj_spec:
  assumes n: "n \<in> {2, 3, 4}" and "0 \<le> oo" "oo + n \<le> asize out"
  shows "\<exists>out'. flip_adj n out oo = Some out' \<and> length out' = length out \<and>
    (\<forall>j. 0 \<le> j \<and> j < n \<longrightarrow> out' ! nat (oo + flip_vert_index n j) = out ! nat (oo + j)) \<and>
    (\<forall>k. int k < oo \<or> oo + n \<le> int k \<longrightarrow> out' ! k = out ! k)"
proof -
  have small: "j = 0 \<or> j = 1 \<or> j = 2 \<or> j = 3" if "0 \<le> j" "j < n" for j
    using n that by auto
  consider "n = 2" | "n = 3" | "n = 4" using n by auto
  then show ?thesis
  proof cases
    case 1
    have "flip_vert_index 2 j = j" if "0 \<le> j" "j < 2" for j
      using that by (auto simp: flip_vert_index_def reverse_index_def)
    with 1 show ?thesis by (simp add: flip_adj_def)
  next
    case 2
    let ?out = "out[nat (oo + 1) := out ! nat (oo + 2), nat (oo + 2) := out ! nat (oo + 1)]"
    have "flip_adj n out oo = Some ?out"
      using 2 assms by (simp add: flip_adj_def swap2_Some)
    moreover have "?out ! nat (oo + flip_vert_index n j) = out ! nat (oo + j)" if "0 \<le> j \<and> j < n" for j
    proof -
      have "j = 0 \<or> j = 1 \<or> j = 2" using 2 that by auto
      then show ?thesis using 2 assms
        by (elim disjE) (simp_all add: flip_vert_index_def reverse_index_def asize_def nth_list_update eq_nat_nat_iff)
    qed
    ultimately show ?thesis
      using 2 assms by (intro exI [of _ ?out]) (auto simp: nth_list_update)
  next
    case 3
    let ?out = "out[nat (oo + 1) := out ! nat (oo + 3), nat (oo + 3) := out ! nat (oo + 1)]"
    have "flip_adj n out oo = Some ?out"
      using 3 assms by (simp add: flip_adj_def swap2_Some)
    moreover have "?out ! nat (oo + flip_vert_index n j) = out ! nat (oo + j)" if "0 \<le> j \<and> j < n" for j
    proof -
      have "j = 0 \<or> j = 1 \<or> j = 2 \<or> j = 3" using 3 that by auto
      then show ?thesis using 3 assms
        by (elim disjE) (simp_all add: flip_vert_index_def reverse_index_def asize_def nth_list_update eq_nat_nat_iff)
    qed
    ultimately show ?thesis
      using 3 assms by (intro exI [of _ ?out]) (auto simp: nth_list_update)
  qed
qed

lemma align_adj_spec:
  assumes n: "n \<in> {2, 3, 4}"
    and "0 \<le> io" "io + n \<le> asize inp" "0 \<le> oo" "oo + n \<le> asize out"
  shows "\<exists>out'. align_adj n c inp io out oo = Some out' \<and> length out' = length out \<and>
    (\<forall>j. 0 \<le> j \<and> j < n \<longrightarrow> out' ! nat (oo + align_vert_index n j c) = Some (inp ! nat (io + j))) \<and>
    (\<forall>k. int k < oo \<or> oo + n \<le> int k \<longrightarrow> out' ! k = out ! k)"
proof -
  obtain o1 where o1: "rotate_adj n (code_rotation c) inp io out oo = Some o1"
    "length o1 = length out"
    "\<And>j. 0 \<le> j \<Longrightarrow> j < n \<Longrightarrow>
       o1 ! nat (oo + rotate_index n j (code_rotation c)) = Some (inp ! nat (io + j))"
    "\<And>k. int k < oo \<or> oo + n \<le> int k \<Longrightarrow> o1 ! k = out ! k"
    using rotate_adj_spec [OF n code_rotation_bounds(1) [of c] assms(2-5)] by blast
  have "oo + n \<le> asize o1" using o1(2) assms(5) by (simp add: asize_def)
  then obtain o2 where o2: "flip_adj n o1 oo = Some o2" "length o2 = length o1"
    "\<And>j. 0 \<le> j \<Longrightarrow> j < n \<Longrightarrow> o2 ! nat (oo + flip_vert_index n j) = o1 ! nat (oo + j)"
    "\<And>k. int k < oo \<or> oo + n \<le> int k \<Longrightarrow> o2 ! k = o1 ! k"
    using flip_adj_spec [OF n assms(4), of o1] by blast
  have rot: "0 \<le> rotate_index n j (code_rotation c) \<and> rotate_index n j (code_rotation c) < n"
    if "0 \<le> j" for j
    using rotate_index_range [OF n that code_rotation_bounds(1)] .
  show ?thesis
  proof (cases "code_is_flipped c")
    case True
    have "align_adj n c inp io out oo = Some o2"
      using True o1(1) o2(1) by (simp add: align_adj_def)
    moreover have "o2 ! nat (oo + align_vert_index n j c) = Some (inp ! nat (io + j))"
      if "0 \<le> j \<and> j < n" for j
      using True that rot [of j] o1(3) [of j] o2(3) by (simp add: align_vert_index_def)
    ultimately show ?thesis using o1 o2 by auto
  next
    case False
    then have "align_adj n c inp io out oo = Some o1"
      using o1(1) by (simp add: align_adj_def)
    with False show ?thesis using o1 by (auto simp: align_vert_index_def)
  qed
qed

text \<open>
  Entity \<open>e\<close> of a width-\<open>n\<close> array occupies the cells \<open>e * n .. e * n + n - 1\<close>; different
  entities occupy different cells.
\<close>

lemma entity_range:
  assumes "0 \<le> e" "e < m" "(0::int) < n"
  shows "0 \<le> e * n" "e * n + n \<le> m * n"
proof -
  show "0 \<le> e * n" using assms by simp
  have "(e + 1) * n \<le> m * n" using assms by (intro mult_right_mono) auto
  then show "e * n + n \<le> m * n" by (simp add: algebra_simps)
qed

lemma entity_of_cell:
  assumes "0 \<le> k" "k < m * n" "(0::int) < n"
  shows "0 \<le> k div n" "k div n < m"
  using assms div_less_rows [OF assms(3,2)] by (simp_all add: pos_imp_zdiv_nonneg_iff)

lemma entity_disjoint:
  assumes "(e'::int) < e" "0 < n" "a < n"
  shows "e' * n + a < e * n"
proof -
  have "(e' + 1) * n \<le> e * n" using assms by (intro mult_right_mono) auto
  with assms show ?thesis by (simp add: algebra_simps)
qed

lemma align_ev2v_deg_spec:
  assumes n: "n \<in> {2, 3, 4}" and sz: "asize ev2v = asize codes * n"
  shows "\<exists>out. align_ev2v_deg n ev2v codes = Some out \<and> length out = length ev2v \<and>
    (\<forall>e j. 0 \<le> e \<and> e < asize codes \<and> 0 \<le> j \<and> j < n \<longrightarrow>
       out ! nat (e * n + align_vert_index n j (codes ! nat e)) = ev2v ! nat (e * n + j))"
proof -
  have n0: "0 < n" using n by auto
  let ?f = "\<lambda>e ev2v_w. do { code \<leftarrow> rd codes e; align_adj n code ev2v (e * n) ev2v_w (e * n) }"
  let ?P = "\<lambda>m w. length w = length ev2v \<and>
    (\<forall>e j. 0 \<le> e \<and> e < m \<and> 0 \<le> j \<and> j < n \<longrightarrow>
       w ! nat (e * n + align_vert_index n j (codes ! nat e)) = Some (ev2v ! nat (e * n + j)))"
  have "\<exists>w. parallel_for (asize codes) ?f (fresh (asize ev2v)) = Some w \<and> ?P (asize codes) w"
  proof (rule parallel_for_rule)
    show "?P 0 (fresh (asize ev2v))" by (auto simp: asize_def)
    fix e w assume e: "0 \<le> e" "e < asize codes" and P: "?P e w"
    have rng: "0 \<le> e * n" "e * n + n \<le> asize ev2v" "e * n + n \<le> asize w"
      using entity_range [OF e n0] sz P by (simp_all add: asize_def)
    obtain w' where w': "align_adj n (codes ! nat e) ev2v (e * n) w (e * n) = Some w'"
      "length w' = length w"
      "\<And>j. 0 \<le> j \<Longrightarrow> j < n \<Longrightarrow>
         w' ! nat (e * n + align_vert_index n j (codes ! nat e)) = Some (ev2v ! nat (e * n + j))"
      "\<And>k. int k < e * n \<or> e * n + n \<le> int k \<Longrightarrow> w' ! k = w ! k"
      using align_adj_spec [OF n rng(1,2) rng(1) rng(3), of "codes ! nat e"] by blast
    have "w' ! nat (e' * n + align_vert_index n j (codes ! nat e')) = Some (ev2v ! nat (e' * n + j))"
      if H: "0 \<le> e'" "e' < e + 1" "0 \<le> j" "j < n" for e' j
    proof (cases "e' = e")
      case True
      with w'(3) H show ?thesis by simp
    next
      case False
      let ?a = "align_vert_index n j (codes ! nat e')"
      have a: "0 \<le> ?a" "?a < n" using align_index_range(1) [OF n H(3,4)] by auto
      have "0 \<le> e' * n + ?a" using H n0 a by simp
      moreover have "e' * n + ?a < e * n" using False H n0 a by (intro entity_disjoint) auto
      ultimately have "w' ! nat (e' * n + ?a) = w ! nat (e' * n + ?a)"
        by (intro w'(4)) simp
      then show ?thesis using False H P by simp
    qed
    then show "\<exists>s'. ?f e w = Some s' \<and> ?P (e + 1) s'"
      using e w' P by (auto simp: rd_Some)
  qed simp
  then obtain w where w: "parallel_for (asize codes) ?f (fresh (asize ev2v)) = Some w"
    "length w = length ev2v"
    "\<And>e j. 0 \<le> e \<Longrightarrow> e < asize codes \<Longrightarrow> 0 \<le> j \<Longrightarrow> j < n \<Longrightarrow>
       w ! nat (e * n + align_vert_index n j (codes ! nat e)) = Some (ev2v ! nat (e * n + j))"
    by blast
  have cell: "\<exists>v. w ! k = Some v" if k: "k < length w" for k
  proof -
    let ?e = "int k div n" and ?i = "int k mod n"
    have e: "0 \<le> ?e" "?e < asize codes"
      using entity_of_cell [of "int k" "asize codes" n] k w(2) sz n0 by (simp_all add: asize_def)
    have i: "0 \<le> ?i" "?i < n" using n0 by simp_all
    let ?j = "align_vert_index n ?i (invert_alignment n (codes ! nat ?e))"
    have j: "0 \<le> ?j" "?j < n" using align_index_range(1) [OF n i] by auto
    have "align_vert_index n ?j (codes ! nat ?e) = ?i"
      using invert_alignment_inverse(3) [OF n i] .
    then have "w ! nat (?e * n + ?i) = Some (ev2v ! nat (?e * n + ?j))"
      using w(3) [OF e j] by simp
    moreover have "nat (?e * n + ?i) = k" by simp
    ultimately show ?thesis by auto
  qed
  let ?out = "map the w"
  have "freeze w = Some ?out"
    using cell by (intro freeze_eqI) (auto dest!: cell)
  then have "align_ev2v_deg n ev2v codes = Some ?out"
    using sz w(1) by (simp add: align_ev2v_deg_def)
  moreover have "?out ! nat (e * n + align_vert_index n j (codes ! nat e)) = ev2v ! nat (e * n + j)"
    if H: "0 \<le> e" "e < asize codes" "0 \<le> j" "j < n" for e j
  proof -
    let ?a = "align_vert_index n j (codes ! nat e)"
    have a: "0 \<le> ?a" "?a < n" using align_index_range(1) [OF n H(3,4)] by auto
    then have "0 \<le> e * n + ?a" "e * n + ?a < asize ev2v"
      using entity_range [OF H(1,2) n0] sz by auto
    then have "nat (e * n + ?a) < length w" using w(2) by (simp add: asize_def)
    then show ?thesis using w(3) [OF H] by simp
  qed
  ultimately show ?thesis using w(2) by (intro exI [of _ ?out]) simp
qed

lemma align_ev2v_spec:
  assumes n: "n \<in> {2, 3, 4}" and sz: "asize ev2v = asize codes * n"
  shows "\<exists>out. align_ev2v n ev2v codes = Some out \<and> length out = length ev2v \<and>
    (\<forall>e j. 0 \<le> e \<and> e < asize codes \<and> 0 \<le> j \<and> j < n \<longrightarrow>
       out ! nat (e * n + align_vert_index n j (codes ! nat e)) = ev2v ! nat (e * n + j))"
  using align_ev2v_deg_spec [OF assms] n by (auto simp: align_ev2v_def)

section \<open>Properties\<close>

text \<open>Packing and unpacking an alignment code: the three fields of a code made from a flip, a
  rotation of two bits and a boundary index of four bits are the ones it was made from, and two
  codes made from different fields differ.\<close>

theorem make_code_roundtrip:
  assumes "0 \<le> rotation" "rotation < 4" "0 \<le> which_down" "which_down < 16"
    and "0 \<le> rotation'" "rotation' < 4" "0 \<le> which_down'" "which_down' < 16"
  shows "code_is_flipped (make_code flipped rotation which_down) = flipped \<and>
    code_rotation (make_code flipped rotation which_down) = rotation \<and>
    code_which_down (make_code flipped rotation which_down) = which_down \<and>
    (make_code flipped rotation which_down = make_code flipped' rotation' which_down' \<longleftrightarrow>
       flipped = flipped' \<and> rotation = rotation' \<and> which_down = which_down')"
proof -
  note l = code_fields_make_code [OF assms(1-4), of flipped]
  note r = code_fields_make_code [OF assms(5-8), of flipped']
  have "flipped = flipped' \<and> rotation = rotation' \<and> which_down = which_down'"
    if "make_code flipped rotation which_down = make_code flipped' rotation' which_down'"
    using l r unfolding that by simp
  then show ?thesis using l by auto
qed

theorem make_code_roundtrip_witness:
  "code_which_down (make_code True 2 13) = 13 \<and> make_code True 2 13 \<noteq> make_code True 1 13"
  using make_code_roundtrip [of 2 13 1 13 True True] by simp

text \<open>C11. \<open>compound_alignments\<close> and \<open>invert_alignment\<close> are the composition and the inverse of the
  permutations of vertex indices that codes stand for: the compound of two codes moves an index where
  the first and then the second move it, and composing a code with its inverse, on either side,
  moves nothing.\<close>

theorem alignments_form_group:
  assumes "deg = 2 \<or> deg = 3" "0 \<le> i" "i < deg"
  shows "\<exists>c l r. compound_alignments deg code1 code2 = Some c \<and>
    align_vert_index deg i c = align_vert_index deg (align_vert_index deg i code1) code2 \<and>
    compound_alignments deg code1 (invert_alignment deg code1) = Some r \<and>
    align_vert_index deg i r = i \<and>
    compound_alignments deg (invert_alignment deg code1) code1 = Some l \<and>
    align_vert_index deg i l = i"
  using assms
  by (auto simp: compound_alignments_def edge_verts.act_comp tri_verts.act_comp
      edge_verts.inv_act tri_verts.inv_act edge_verts.act_inv tri_verts.act_inv)

theorem alignments_form_group_witness:
  "\<exists>c. compound_alignments 3 (make_code True 1 0) (make_code False 2 0) = Some c \<and>
     align_vert_index 3 0 c = 1"
proof -
  have "align_vert_index 3 (align_vert_index 3 0 (make_code True 1 0)) (make_code False 2 0) = 1"
    by code_simp
  then show ?thesis
    using alignments_form_group [of 3 0 "make_code True 1 0" "make_code False 2 0"] by auto
qed

text \<open>C12. Realigning an array of entity-to-vertex lists is lossless: \<open>align_ev2v\<close> succeeds for
  entities of 2, 3 or 4 vertices, whatever the codes, it only moves vertices inside their entity, and
  aligning the result with the inverse codes gives the original array back.\<close>

theorem align_ev2v_roundtrip:
  assumes "deg \<in> {2, 3, 4}" "asize ev2v = asize codes * deg"
  shows "\<exists>out. align_ev2v deg ev2v codes = Some out \<and>
    (\<forall>e j. 0 \<le> e \<and> e < asize codes \<and> 0 \<le> j \<and> j < deg \<longrightarrow>
       out ! nat (e * deg + align_vert_index deg j (codes ! nat e)) = ev2v ! nat (e * deg + j)) \<and>
    align_ev2v deg out (map (invert_alignment deg) codes) = Some ev2v"
proof -
  let ?inv = "map (invert_alignment deg) codes"
  obtain out where out: "align_ev2v deg ev2v codes = Some out" "length out = length ev2v"
    "\<And>e j. 0 \<le> e \<and> e < asize codes \<and> 0 \<le> j \<and> j < deg \<Longrightarrow>
       out ! nat (e * deg + align_vert_index deg j (codes ! nat e)) = ev2v ! nat (e * deg + j)"
    using align_ev2v_spec [OF assms] by blast
  have "asize out = asize ?inv * deg" using assms(2) out(2) by (simp add: asize_def)
  then obtain out2 where out2: "align_ev2v deg out ?inv = Some out2" "length out2 = length out"
    "\<And>e j. 0 \<le> e \<and> e < asize ?inv \<and> 0 \<le> j \<and> j < deg \<Longrightarrow>
       out2 ! nat (e * deg + align_vert_index deg j (?inv ! nat e)) = out ! nat (e * deg + j)"
    using align_ev2v_spec [OF assms(1), of out ?inv] by blast
  have "out2 = ev2v"
  proof (rule nth_equalityI)
    show "length out2 = length ev2v" using out(2) out2(2) by simp
    fix k assume "k < length out2"
    then have k: "int k < asize codes * deg" using out(2) out2(2) assms(2) by (simp add: asize_def)
    have deg: "0 < deg" using assms(1) by auto
    let ?e = "int k div deg" and ?i = "int k mod deg"
    have e: "0 \<le> ?e" "?e < asize codes" and i: "0 \<le> ?i" "?i < deg"
      using div_less_rows [OF deg k] deg by (simp_all add: pos_imp_zdiv_nonneg_iff)
    let ?c = "codes ! nat ?e"
    let ?j = "align_vert_index deg ?i ?c"
    have j: "0 \<le> ?j" "?j < deg" using align_index_range(1) [OF assms(1) i] by auto
    have inv: "?inv ! nat ?e = invert_alignment deg ?c" using e by (simp add: asize_def nat_less_iff)
    have "out2 ! nat (?e * deg + ?i) = out ! nat (?e * deg + ?j)"
      using out2(3) [of ?e ?j] e j invert_alignment_inverse(1) [OF assms(1) i, of ?c]
      by (simp add: inv)
    also have "\<dots> = ev2v ! nat (?e * deg + ?i)" using out(3) [of ?e ?i] e i by blast
    finally show "out2 ! k = ev2v ! k" by simp
  qed
  then show ?thesis using out out2(1) by blast
qed

theorem align_ev2v_roundtrip_witness:
  "\<exists>out. align_ev2v 3 [7, 8, 9, 4, 5, 6 :: int] [make_code True 1 0, make_code False 2 0] = Some out \<and>
     align_ev2v 3 out [invert_alignment 3 (make_code True 1 0), invert_alignment 3 (make_code False 2 0)]
       = Some [7, 8, 9, 4, 5, 6]"
  using align_ev2v_roundtrip [of 3 "[7, 8, 9, 4, 5, 6 :: int]" "[make_code True 1 0, make_code False 2 0]"]
  by auto

end
