(* ===== verification/Templates.thy ===== *)
theory Templates
  imports Omega_Prelude
begin

text \<open>
  What the local boundary tables of an element must satisfy (\<open>src/src/Omega_h_template_up.hpp\<close>
  defines the records).  A table \<open>down elem bdry which_bdry which_vert\<close> lists the vertices of every
  boundary entity, a table \<open>up elem bdry which_bdry which_up\<close> the entities one dimension higher that
  contain it.  The predicates below relate the two tables; they are computable, so the theories of
  the concrete tables discharge them by evaluation.
\<close>

record template_up =
  tup_up :: int
  tup_which_down :: int
  tup_is_flipped :: bool

record split_vertex =
  sv_dim :: int
  sv_which_down :: int

definition TemplateUp :: "int \<Rightarrow> int \<Rightarrow> int \<Rightarrow> template_up" where
  "TemplateUp up which_down is_flipped =
     \<lparr>tup_up = up, tup_which_down = which_down, tup_is_flipped = (is_flipped \<noteq> 0)\<rparr>"

definition SplitVertex :: "int \<Rightarrow> int \<Rightarrow> split_vertex" where
  "SplitVertex dim which_down = \<lparr>sv_dim = dim, sv_which_down = which_down\<rparr>"

type_synonym down_table = "int \<Rightarrow> int \<Rightarrow> int \<Rightarrow> int \<Rightarrow> int"
type_synonym up_table = "int \<Rightarrow> int \<Rightarrow> int \<Rightarrow> int \<Rightarrow> template_up"
type_synonym degree_table = "int \<Rightarrow> int \<Rightarrow> int"

text \<open>The vertices of boundary entity \<open>w\<close> of kind \<open>b\<close>, in the element \<open>e\<close>'s numbering.\<close>

definition ent_verts :: "down_table \<Rightarrow> degree_table \<Rightarrow> int \<Rightarrow> int \<Rightarrow> int \<Rightarrow> int list" where
  "ent_verts down deg e b w =
     (if e = b then [0..deg e 0 - 1] else map (down e b w) [0..deg b 0 - 1])"

text \<open>
  The vertices of boundary entity \<open>d\<close> (of kind \<open>b\<close>) of the element's boundary entity \<open>x\<close> (of kind
  \<open>m\<close>), reversed when \<open>f\<close>: the way through the intermediate entity.
\<close>

definition via_verts :: "down_table \<Rightarrow> degree_table \<Rightarrow> int \<Rightarrow> int \<Rightarrow> int \<Rightarrow> template_up \<Rightarrow> int list" where
  "via_verts down deg e m b t =
     (let vs = map (down e m (tup_up t)) (ent_verts down deg m b (tup_which_down t))
      in if tup_is_flipped t then rev vs else vs)"

definition up_entry_ok :: "down_table \<Rightarrow> degree_table \<Rightarrow> int \<Rightarrow> int \<Rightarrow> int \<Rightarrow> int \<Rightarrow> template_up \<Rightarrow> bool"
  where
  "up_entry_ok down deg e m b w t \<longleftrightarrow>
     0 \<le> tup_up t \<and> tup_up t < deg e m \<and> 0 \<le> tup_which_down t \<and> tup_which_down t < deg m b \<and>
     via_verts down deg e m b t = ent_verts down deg e b w"

text \<open>Every boundary entity has exactly the vertices of an entity: valid, distinct indices.\<close>

definition down_ok :: "down_table \<Rightarrow> degree_table \<Rightarrow> int \<Rightarrow> int \<Rightarrow> bool" where
  "down_ok down deg e b \<longleftrightarrow>
     (\<forall>w \<in> set [0..deg e b - 1].
        set (ent_verts down deg e b w) \<subseteq> set [0..deg e 0 - 1] \<and>
        distinct (ent_verts down deg e b w) \<and>
        (\<forall>w' \<in> set [0..deg e b - 1]. w' \<noteq> w \<longrightarrow>
           set (ent_verts down deg e b w) \<noteq> set (ent_verts down deg e b w')))"

text \<open>
  The \<open>n\<close> upward entries of a boundary entity are correct, and they are all of them: every way to
  see the entity as a boundary of an intermediate entity is listed once.
\<close>

definition up_ok :: "down_table \<Rightarrow> up_table \<Rightarrow> degree_table \<Rightarrow> int \<Rightarrow> int \<Rightarrow> int \<Rightarrow> int \<Rightarrow> bool" where
  "up_ok down up deg e m b n \<longleftrightarrow>
     (\<forall>w \<in> set [0..deg e b - 1].
        (\<forall>u \<in> set [0..n - 1]. up_entry_ok down deg e m b w (up e b w u)) \<and>
        (\<forall>x \<in> set [0..deg e m - 1]. \<forall>d \<in> set [0..deg m b - 1].
           set (via_verts down deg e m b \<lparr>tup_up = x, tup_which_down = d, tup_is_flipped = False\<rparr>) =
             set (ent_verts down deg e b w) \<longrightarrow>
           length (filter (\<lambda>u. tup_up (up e b w u) = x \<and> tup_which_down (up e b w u) = d)
             [0..n - 1]) = 1))"

section \<open>The interface the adjacency code uses\<close>

text \<open>
  \<open>transit\<close> (in \<open>Omega_h_adj.cpp\<close>) goes from an element to its boundary entities through the first
  upward entry; what it relies on is that this entry is in range and describes the same vertices.
\<close>

locale boundary_tables =
  fixes down :: down_table and up :: up_table and deg :: degree_table
    and elem mid low :: int
  assumes entry: "0 \<le> w \<Longrightarrow> w < deg elem low \<Longrightarrow>
      up_entry_ok down deg elem mid low w (up elem low w 0)"
begin

lemma up_range:
  assumes "0 \<le> w" "w < deg elem low"
  shows "0 \<le> tup_up (up elem low w 0)" "tup_up (up elem low w 0) < deg elem mid"
    and "0 \<le> tup_which_down (up elem low w 0)" "tup_which_down (up elem low w 0) < deg mid low"
  using entry [OF assms] by (simp_all add: up_entry_ok_def)

lemma up_verts:
  assumes "0 \<le> w" "w < deg elem low"
  shows "via_verts down deg elem mid low (up elem low w 0) = ent_verts down deg elem low w"
  using entry [OF assms] by (simp add: up_entry_ok_def)

end

lemma up_ok_entry:
  assumes "up_ok down up deg e m b n" "0 \<le> w" "w < deg e b" "0 < n"
  shows "up_entry_ok down deg e m b w (up e b w 0)"
  using assms by (auto simp: up_ok_def)

lemma boundary_tables_up_ok:
  "up_ok down up deg e m b n \<Longrightarrow> 0 < n \<Longrightarrow> boundary_tables down up deg e m b"
  by unfold_locales (rule up_ok_entry)

end
