(* ===== verification/Simplex.thy ===== *)
theory Simplex
  imports Templates
begin

text \<open>
  The boundary tables of simplices: vertices, edges, triangles and tetrahedra
  (\<open>src/src/Omega_h_simplex.hpp\<close>).  The lemmas show that the tables are consistent with each other
  and that \<open>simplex_opposite_template\<close> maps every boundary entity to the complementary one.
\<close>

section \<open>The tables\<close>

definition simplex_down_template :: "int \<Rightarrow> int \<Rightarrow> int \<Rightarrow> int \<Rightarrow> int" where
  "simplex_down_template elem_dim bdry_dim which_bdry which_vert =
    (if elem_dim = 3 then 
       (if bdry_dim = 2 then 
          (if which_bdry = 0 then 
             (if which_vert = 0 then 0
              else if which_vert = 1 then 2
              else if which_vert = 2 then 1
              else - 1)
           else if which_bdry = 1 then 
             (if which_vert = 0 then 0
              else if which_vert = 1 then 1
              else if which_vert = 2 then 3
              else - 1)
           else if which_bdry = 2 then 
             (if which_vert = 0 then 1
              else if which_vert = 1 then 2
              else if which_vert = 2 then 3
              else - 1)
           else if which_bdry = 3 then 
             (if which_vert = 0 then 2
              else if which_vert = 1 then 0
              else if which_vert = 2 then 3
              else - 1)
           else - 1)
        else if bdry_dim = 1 then 
          (if which_bdry = 0 then 
             (if which_vert = 0 then 0
              else if which_vert = 1 then 1
              else - 1)
           else if which_bdry = 1 then 
             (if which_vert = 0 then 1
              else if which_vert = 1 then 2
              else - 1)
           else if which_bdry = 2 then 
             (if which_vert = 0 then 2
              else if which_vert = 1 then 0
              else - 1)
           else if which_bdry = 3 then 
             (if which_vert = 0 then 0
              else if which_vert = 1 then 3
              else - 1)
           else if which_bdry = 4 then 
             (if which_vert = 0 then 1
              else if which_vert = 1 then 3
              else - 1)
           else if which_bdry = 5 then 
             (if which_vert = 0 then 2
              else if which_vert = 1 then 3
              else - 1)
           else - 1)
        else if bdry_dim = 0 then 
          (if which_bdry = 0 then 0
           else if which_bdry = 1 then 1
           else if which_bdry = 2 then 2
           else if which_bdry = 3 then 3
           else - 1)
        else - 1)
     else if elem_dim = 2 then 
       (if bdry_dim = 1 then 
          (if which_bdry = 0 then 
             (if which_vert = 0 then 0
              else if which_vert = 1 then 1
              else - 1)
           else if which_bdry = 1 then 
             (if which_vert = 0 then 1
              else if which_vert = 1 then 2
              else - 1)
           else if which_bdry = 2 then 
             (if which_vert = 0 then 2
              else if which_vert = 1 then 0
              else - 1)
           else - 1)
        else if bdry_dim = 0 then 
          (if which_bdry = 0 then 0
           else if which_bdry = 1 then 1
           else if which_bdry = 2 then 2
           else - 1)
        else - 1)
     else if elem_dim = 1 then 
       (if bdry_dim = 0 then 
          (if which_bdry = 0 then 0
           else if which_bdry = 1 then 1
           else - 1)
        else - 1)
     else - 1)"

definition simplex_up_template :: "int \<Rightarrow> int \<Rightarrow> int \<Rightarrow> int \<Rightarrow> template_up" where
  "simplex_up_template elem_dim bdry_dim which_bdry which_up =
    (if elem_dim = 3 then 
       (if bdry_dim = 0 then 
          (if which_bdry = 0 then 
             (if which_up = 0 then TemplateUp 0 0 0
              else if which_up = 1 then TemplateUp 2 1 0
              else if which_up = 2 then TemplateUp 3 0 0
              else TemplateUp (- 1) (- 1) 0)
           else if which_bdry = 1 then 
             (if which_up = 0 then TemplateUp 1 0 0
              else if which_up = 1 then TemplateUp 0 1 0
              else if which_up = 2 then TemplateUp 4 0 0
              else TemplateUp (- 1) (- 1) 0)
           else if which_bdry = 2 then 
             (if which_up = 0 then TemplateUp 2 0 0
              else if which_up = 1 then TemplateUp 1 1 0
              else if which_up = 2 then TemplateUp 5 0 0
              else TemplateUp (- 1) (- 1) 0)
           else if which_bdry = 3 then 
             (if which_up = 0 then TemplateUp 5 1 0
              else if which_up = 1 then TemplateUp 4 1 0
              else if which_up = 2 then TemplateUp 3 1 0
              else TemplateUp (- 1) (- 1) 0)
           else TemplateUp (- 1) (- 1) 0)
        else if bdry_dim = 1 then 
          (if which_bdry = 0 then 
             (if which_up = 0 then TemplateUp 0 2 1
              else if which_up = 1 then TemplateUp 1 0 0
              else TemplateUp (- 1) (- 1) 0)
           else if which_bdry = 1 then 
             (if which_up = 0 then TemplateUp 0 1 1
              else if which_up = 1 then TemplateUp 2 0 0
              else TemplateUp (- 1) (- 1) 0)
           else if which_bdry = 2 then 
             (if which_up = 0 then TemplateUp 0 0 1
              else if which_up = 1 then TemplateUp 3 0 0
              else TemplateUp (- 1) (- 1) 0)
           else if which_bdry = 3 then 
             (if which_up = 0 then TemplateUp 1 2 1
              else if which_up = 1 then TemplateUp 3 1 0
              else TemplateUp (- 1) (- 1) 0)
           else if which_bdry = 4 then 
             (if which_up = 0 then TemplateUp 2 2 1
              else if which_up = 1 then TemplateUp 1 1 0
              else TemplateUp (- 1) (- 1) 0)
           else if which_bdry = 5 then 
             (if which_up = 0 then TemplateUp 3 2 1
              else if which_up = 1 then TemplateUp 2 1 0
              else TemplateUp (- 1) (- 1) 0)
           else TemplateUp (- 1) (- 1) 0)
        else TemplateUp (- 1) (- 1) 0)
     else if elem_dim = 2 then 
       (if bdry_dim = 0 then 
          (if which_bdry = 0 then 
             (if which_up = 0 then TemplateUp 0 0 0
              else if which_up = 1 then TemplateUp 2 1 0
              else TemplateUp (- 1) (- 1) 0)
           else if which_bdry = 1 then 
             (if which_up = 0 then TemplateUp 1 0 0
              else if which_up = 1 then TemplateUp 0 1 0
              else TemplateUp (- 1) (- 1) 0)
           else if which_bdry = 2 then 
             (if which_up = 0 then TemplateUp 2 0 0
              else if which_up = 1 then TemplateUp 1 1 0
              else TemplateUp (- 1) (- 1) 0)
           else TemplateUp (- 1) (- 1) 0)
        else TemplateUp (- 1) (- 1) 0)
     else TemplateUp (- 1) (- 1) 0)"

definition simplex_opposite_template :: "int \<Rightarrow> int \<Rightarrow> int \<Rightarrow> int" where
  "simplex_opposite_template elem_dim bdry_dim which_bdry =
    (if elem_dim = 3 then 
       (if bdry_dim = 0 then 
          (if which_bdry = 0 then 2
           else if which_bdry = 1 then 3
           else if which_bdry = 2 then 1
           else if which_bdry = 3 then 0
           else - 1)
        else if bdry_dim = 1 then 
          (if which_bdry = 0 then 5
           else if which_bdry = 1 then 3
           else if which_bdry = 2 then 4
           else if which_bdry = 3 then 1
           else if which_bdry = 4 then 2
           else if which_bdry = 5 then 0
           else - 1)
        else if bdry_dim = 2 then 
          (if which_bdry = 0 then 3
           else if which_bdry = 1 then 2
           else if which_bdry = 2 then 0
           else if which_bdry = 3 then 1
           else - 1)
        else - 1)
     else if elem_dim = 2 then 
       (if bdry_dim = 0 then 
          (if which_bdry = 0 then 1
           else if which_bdry = 1 then 2
           else if which_bdry = 2 then 0
           else - 1)
        else if bdry_dim = 1 then 
          (if which_bdry = 0 then 2
           else if which_bdry = 1 then 0
           else if which_bdry = 2 then 1
           else - 1)
        else - 1)
     else if elem_dim = 1 then 
       (if bdry_dim = 0 then 1 - which_bdry
        else - 1)
     else - 1)"

definition simplex_degree :: "int \<Rightarrow> int \<Rightarrow> int" where
  "simplex_degree from_dim to_dim =
    (if from_dim = 0 then 1
     else if from_dim = 1 then 
       (if to_dim = 0 then 2
        else if to_dim = 1 then 1
        else - 1)
     else if from_dim = 2 then 
       (if to_dim = 0 then 3
        else if to_dim = 1 then 3
        else if to_dim = 2 then 1
        else - 1)
     else if from_dim = 3 then 
       (if to_dim = 0 then 4
        else if to_dim = 1 then 6
        else if to_dim = 2 then 4
        else if to_dim = 3 then 1
        else - 1)
     else - 1)"

definition simplex_singular_name :: "int \<Rightarrow> string option" where
  "simplex_singular_name dim =
     (if dim = 3 then Some ''tet''
      else if dim = 2 then Some ''triangle''
      else if dim = 1 then Some ''edge''
      else if dim = 0 then Some ''vertex'' else None)"

definition simplex_plural_name :: "int \<Rightarrow> string option" where
  "simplex_plural_name dim =
     (if dim = 3 then Some ''tets''
      else if dim = 2 then Some ''triangles''
      else if dim = 1 then Some ''edges''
      else if dim = 0 then Some ''vertices'' else None)"

section \<open>Consistency\<close>

lemma simplex_down_ok:
  "(e, b) \<in> set [(3, 2), (3, 1), (3, 0), (2, 1), (2, 0), (1, 0)] \<Longrightarrow>
   down_ok simplex_down_template simplex_degree e b"
proof -
  have "\<forall>(e, b) \<in> set [(3, 2), (3, 1), (3, 0), (2, 1), (2, 0), (1, 0)].
      down_ok simplex_down_template simplex_degree e b"
    by code_simp
  then show "(e, b) \<in> set [(3, 2), (3, 1), (3, 0), (2, 1), (2, 0), (1, 0)] \<Longrightarrow>
      down_ok simplex_down_template simplex_degree e b" by blast
qed

lemma simplex_up_ok:
  "up_ok simplex_down_template simplex_up_template simplex_degree 3 1 0 3"
  "up_ok simplex_down_template simplex_up_template simplex_degree 3 2 1 2"
  "up_ok simplex_down_template simplex_up_template simplex_degree 2 1 0 2"
  by code_simp+

interpretation tet_edges_via_faces:
  boundary_tables simplex_down_template simplex_up_template simplex_degree 3 2 1
  by (rule boundary_tables_up_ok [OF simplex_up_ok(2)]) simp

interpretation tet_verts_via_edges:
  boundary_tables simplex_down_template simplex_up_template simplex_degree 3 1 0
  by (rule boundary_tables_up_ok [OF simplex_up_ok(1)]) simp

interpretation tri_verts_via_edges:
  boundary_tables simplex_down_template simplex_up_template simplex_degree 2 1 0
  by (rule boundary_tables_up_ok [OF simplex_up_ok(3)]) simp

text \<open>
  The opposite of boundary entity \<open>w\<close> of dimension \<open>b\<close> has dimension \<open>e - 1 - b\<close>, no vertex in
  common with it, together with it all vertices, and \<open>w\<close> as its own opposite.
\<close>

definition opposite_ok :: "int \<Rightarrow> int \<Rightarrow> int \<Rightarrow> bool" where
  "opposite_ok e b w \<longleftrightarrow>
     (let opp = simplex_opposite_template e b w; c = e - 1 - b;
          vs = ent_verts simplex_down_template simplex_degree e b w;
          os = ent_verts simplex_down_template simplex_degree e c opp
      in 0 \<le> opp \<and> opp < simplex_degree e c \<and> set vs \<inter> set os = {} \<and>
         set vs \<union> set os = set [0..simplex_degree e 0 - 1] \<and>
         simplex_opposite_template e c opp = w)"

lemma opposite_ok_table:
  "\<forall>e \<in> set [1..3]. \<forall>b \<in> set [0..e - 1]. \<forall>w \<in> set [0..simplex_degree e b - 1]. opposite_ok e b w"
  by code_simp

section \<open>Properties\<close>

text \<open>C23. \<open>simplex_opposite_template\<close> is complementation: the opposite of a boundary entity of an
  edge, triangle or tetrahedron is a boundary entity of the complementary dimension, it shares no
  vertex with the entity and covers the remaining vertices, and its own opposite is the entity.\<close>

theorem simplex_opposite_complement:
  assumes "1 \<le> elem_dim" "elem_dim \<le> 3" "0 \<le> bdry_dim" "bdry_dim < elem_dim"
    and "0 \<le> which_bdry" "which_bdry < simplex_degree elem_dim bdry_dim"
  shows "let opp = simplex_opposite_template elem_dim bdry_dim which_bdry;
             opp_dim = elem_dim - 1 - bdry_dim;
             verts = ent_verts simplex_down_template simplex_degree elem_dim bdry_dim which_bdry;
             opp_verts = ent_verts simplex_down_template simplex_degree elem_dim opp_dim opp
         in 0 \<le> opp \<and> opp < simplex_degree elem_dim opp_dim \<and>
            set verts \<inter> set opp_verts = {} \<and> set verts \<union> set opp_verts = {0..elem_dim} \<and>
            simplex_opposite_template elem_dim opp_dim opp = which_bdry"
proof -
  have "elem_dim \<in> set [1..3]" "bdry_dim \<in> set [0..elem_dim - 1]"
    "which_bdry \<in> set [0..simplex_degree elem_dim bdry_dim - 1]"
    using assms by auto
  then have "opposite_ok elem_dim bdry_dim which_bdry" using opposite_ok_table by blast
  moreover have "simplex_degree elem_dim 0 = elem_dim + 1"
    using assms(1,2) by (auto simp: simplex_degree_def)
  ultimately show ?thesis by (simp add: opposite_ok_def Let_def)
qed

theorem simplex_opposite_complement_witness:
  "set (ent_verts simplex_down_template simplex_degree 3 1 1) \<inter>
   set (ent_verts simplex_down_template simplex_degree 3 1 (simplex_opposite_template 3 1 1)) = {} \<and>
   simplex_opposite_template 3 1 (simplex_opposite_template 3 1 1) = 1"
proof -
  have "1 < simplex_degree 3 1" "(3 - 1 - 1 :: int) = 1" by code_simp+
  then show ?thesis
    using simplex_opposite_complement [of 3 1 1, unfolded Let_def] by (simp only:)
qed

end
