(* ===== verification/Hypercube.thy ===== *)
theory Hypercube
  imports Templates
begin

text \<open>
  The boundary tables of hypercubes: vertices, edges, quadrilaterals and hexahedra, and the table
  that splits a hypercube into children for adaptive refinement
  (\<open>src/src/Omega_h_hypercube.hpp\<close>).  The longest tables are cut at their outer \<open>switch\<close> cases.
  The lemmas show that the boundary tables are consistent, that every child of a split is the dual
  of a boundary entity of its parent, and that the full-dimensional children are the half-size
  copies of the parent around its vertices.
\<close>

section \<open>The tables\<close>

definition hypercube_down_template_3_1 :: "int \<Rightarrow> int \<Rightarrow> int" where
  "hypercube_down_template_3_1 which_bdry which_vert =
    (if which_bdry = 0 then 
       (if which_vert = 0 then 0
        else if which_vert = 1 then 1
        else - 1)
     else if which_bdry = 1 then 
       (if which_vert = 0 then 1
        else if which_vert = 1 then 2
        else - 1)
     else if which_bdry = 2 then 
       (if which_vert = 0 then 2
        else if which_vert = 1 then 3
        else - 1)
     else if which_bdry = 3 then 
       (if which_vert = 0 then 3
        else if which_vert = 1 then 0
        else - 1)
     else if which_bdry = 4 then 
       (if which_vert = 0 then 0
        else if which_vert = 1 then 4
        else - 1)
     else if which_bdry = 5 then 
       (if which_vert = 0 then 1
        else if which_vert = 1 then 5
        else - 1)
     else if which_bdry = 6 then 
       (if which_vert = 0 then 2
        else if which_vert = 1 then 6
        else - 1)
     else if which_bdry = 7 then 
       (if which_vert = 0 then 3
        else if which_vert = 1 then 7
        else - 1)
     else if which_bdry = 8 then 
       (if which_vert = 0 then 4
        else if which_vert = 1 then 5
        else - 1)
     else if which_bdry = 9 then 
       (if which_vert = 0 then 5
        else if which_vert = 1 then 6
        else - 1)
     else if which_bdry = 10 then 
       (if which_vert = 0 then 6
        else if which_vert = 1 then 7
        else - 1)
     else if which_bdry = 11 then 
       (if which_vert = 0 then 7
        else if which_vert = 1 then 4
        else - 1)
     else - 1)"

definition hypercube_down_template_3_2 :: "int \<Rightarrow> int \<Rightarrow> int" where
  "hypercube_down_template_3_2 which_bdry which_vert =
    (if which_bdry = 0 then 
       (if which_vert = 0 then 1
        else if which_vert = 1 then 0
        else if which_vert = 2 then 3
        else if which_vert = 3 then 2
        else - 1)
     else if which_bdry = 1 then 
       (if which_vert = 0 then 0
        else if which_vert = 1 then 1
        else if which_vert = 2 then 5
        else if which_vert = 3 then 4
        else - 1)
     else if which_bdry = 2 then 
       (if which_vert = 0 then 1
        else if which_vert = 1 then 2
        else if which_vert = 2 then 6
        else if which_vert = 3 then 5
        else - 1)
     else if which_bdry = 3 then 
       (if which_vert = 0 then 2
        else if which_vert = 1 then 3
        else if which_vert = 2 then 7
        else if which_vert = 3 then 6
        else - 1)
     else if which_bdry = 4 then 
       (if which_vert = 0 then 3
        else if which_vert = 1 then 0
        else if which_vert = 2 then 4
        else if which_vert = 3 then 7
        else - 1)
     else if which_bdry = 5 then 
       (if which_vert = 0 then 4
        else if which_vert = 1 then 5
        else if which_vert = 2 then 6
        else if which_vert = 3 then 7
        else - 1)
     else - 1)"

definition hypercube_down_template :: "int \<Rightarrow> int \<Rightarrow> int \<Rightarrow> int \<Rightarrow> int" where
  "hypercube_down_template elem_dim bdry_dim which_bdry which_vert =
    (if elem_dim = 1 then 
       (if bdry_dim = 0 then which_bdry
        else - 1)
     else if elem_dim = 2 then 
       (if bdry_dim = 0 then which_bdry
        else if bdry_dim = 1 then 
          (if which_bdry = 0 then 
             (if which_vert = 0 then 0
              else if which_vert = 1 then 1
              else - 1)
           else if which_bdry = 1 then 
             (if which_vert = 0 then 1
              else if which_vert = 1 then 2
              else - 1)
           else if which_bdry = 2 then 
             (if which_vert = 0 then 2
              else if which_vert = 1 then 3
              else - 1)
           else if which_bdry = 3 then 
             (if which_vert = 0 then 3
              else if which_vert = 1 then 0
              else - 1)
           else - 1)
        else - 1)
     else if elem_dim = 3 then 
       (if bdry_dim = 0 then which_bdry
        else if bdry_dim = 1 then hypercube_down_template_3_1 which_bdry which_vert
        else if bdry_dim = 2 then hypercube_down_template_3_2 which_bdry which_vert
        else - 1)
     else - 1)"

definition hypercube_up_template_3_0 :: "int \<Rightarrow> int \<Rightarrow> template_up" where
  "hypercube_up_template_3_0 which_bdry which_up =
    (if which_bdry = 0 then 
       (if which_up = 0 then TemplateUp 0 0 0
        else if which_up = 1 then TemplateUp 3 1 0
        else if which_up = 2 then TemplateUp 4 0 0
        else TemplateUp (- 1) (- 1) 0)
     else if which_bdry = 1 then 
       (if which_up = 0 then TemplateUp 1 0 0
        else if which_up = 1 then TemplateUp 0 1 0
        else if which_up = 2 then TemplateUp 5 0 0
        else TemplateUp (- 1) (- 1) 0)
     else if which_bdry = 2 then 
       (if which_up = 0 then TemplateUp 2 0 0
        else if which_up = 1 then TemplateUp 1 1 0
        else if which_up = 2 then TemplateUp 6 0 0
        else TemplateUp (- 1) (- 1) 0)
     else if which_bdry = 3 then 
       (if which_up = 0 then TemplateUp 3 0 0
        else if which_up = 1 then TemplateUp 2 1 0
        else if which_up = 2 then TemplateUp 7 0 0
        else TemplateUp (- 1) (- 1) 0)
     else if which_bdry = 4 then 
       (if which_up = 0 then TemplateUp 8 0 0
        else if which_up = 1 then TemplateUp 11 1 0
        else if which_up = 2 then TemplateUp 4 1 0
        else TemplateUp (- 1) (- 1) 0)
     else if which_bdry = 5 then 
       (if which_up = 0 then TemplateUp 9 0 0
        else if which_up = 1 then TemplateUp 8 1 0
        else if which_up = 2 then TemplateUp 5 1 0
        else TemplateUp (- 1) (- 1) 0)
     else if which_bdry = 6 then 
       (if which_up = 0 then TemplateUp 10 0 0
        else if which_up = 1 then TemplateUp 9 1 0
        else if which_up = 2 then TemplateUp 6 1 0
        else TemplateUp (- 1) (- 1) 0)
     else if which_bdry = 7 then 
       (if which_up = 0 then TemplateUp 11 0 0
        else if which_up = 1 then TemplateUp 10 1 0
        else if which_up = 2 then TemplateUp 7 1 0
        else TemplateUp (- 1) (- 1) 0)
     else TemplateUp (- 1) (- 1) 0)"

definition hypercube_up_template_3_1 :: "int \<Rightarrow> int \<Rightarrow> template_up" where
  "hypercube_up_template_3_1 which_bdry which_up =
    (if which_bdry = 0 then 
       (if which_up = 0 then TemplateUp 0 0 1
        else if which_up = 1 then TemplateUp 1 0 0
        else TemplateUp (- 1) (- 1) 0)
     else if which_bdry = 1 then 
       (if which_up = 0 then TemplateUp 0 3 1
        else if which_up = 1 then TemplateUp 2 0 0
        else TemplateUp (- 1) (- 1) 0)
     else if which_bdry = 2 then 
       (if which_up = 0 then TemplateUp 0 2 1
        else if which_up = 1 then TemplateUp 3 0 0
        else TemplateUp (- 1) (- 1) 0)
     else if which_bdry = 3 then 
       (if which_up = 0 then TemplateUp 0 1 1
        else if which_up = 1 then TemplateUp 4 0 0
        else TemplateUp (- 1) (- 1) 0)
     else if which_bdry = 4 then 
       (if which_up = 0 then TemplateUp 1 3 1
        else if which_up = 1 then TemplateUp 4 1 0
        else TemplateUp (- 1) (- 1) 0)
     else if which_bdry = 5 then 
       (if which_up = 0 then TemplateUp 2 3 1
        else if which_up = 1 then TemplateUp 1 1 0
        else TemplateUp (- 1) (- 1) 0)
     else if which_bdry = 6 then 
       (if which_up = 0 then TemplateUp 3 3 1
        else if which_up = 1 then TemplateUp 2 1 0
        else TemplateUp (- 1) (- 1) 0)
     else if which_bdry = 7 then 
       (if which_up = 0 then TemplateUp 4 3 1
        else if which_up = 1 then TemplateUp 3 1 0
        else TemplateUp (- 1) (- 1) 0)
     else if which_bdry = 8 then 
       (if which_up = 0 then TemplateUp 5 0 0
        else if which_up = 1 then TemplateUp 1 2 1
        else TemplateUp (- 1) (- 1) 0)
     else if which_bdry = 9 then 
       (if which_up = 0 then TemplateUp 5 1 0
        else if which_up = 1 then TemplateUp 2 2 1
        else TemplateUp (- 1) (- 1) 0)
     else if which_bdry = 10 then 
       (if which_up = 0 then TemplateUp 5 2 0
        else if which_up = 1 then TemplateUp 3 2 1
        else TemplateUp (- 1) (- 1) 0)
     else if which_bdry = 11 then 
       (if which_up = 0 then TemplateUp 5 3 0
        else if which_up = 1 then TemplateUp 4 2 1
        else TemplateUp (- 1) (- 1) 0)
     else TemplateUp (- 1) (- 1) 0)"

definition hypercube_up_template :: "int \<Rightarrow> int \<Rightarrow> int \<Rightarrow> int \<Rightarrow> template_up" where
  "hypercube_up_template elem_dim bdry_dim which_bdry which_up =
    (if elem_dim = 3 then 
       (if bdry_dim = 0 then hypercube_up_template_3_0 which_bdry which_up
        else if bdry_dim = 1 then hypercube_up_template_3_1 which_bdry which_up
        else TemplateUp (- 1) (- 1) 0)
     else if elem_dim = 2 then 
       (if bdry_dim = 0 then 
          (if which_bdry = 0 then 
             (if which_up = 0 then TemplateUp 3 1 0
              else if which_up = 1 then TemplateUp 0 0 0
              else TemplateUp (- 1) (- 1) 0)
           else if which_bdry = 1 then 
             (if which_up = 0 then TemplateUp 0 1 0
              else if which_up = 1 then TemplateUp 1 0 0
              else TemplateUp (- 1) (- 1) 0)
           else if which_bdry = 2 then 
             (if which_up = 0 then TemplateUp 1 1 0
              else if which_up = 1 then TemplateUp 2 0 0
              else TemplateUp (- 1) (- 1) 0)
           else if which_bdry = 3 then 
             (if which_up = 0 then TemplateUp 2 1 0
              else if which_up = 1 then TemplateUp 3 0 0
              else TemplateUp (- 1) (- 1) 0)
           else TemplateUp (- 1) (- 1) 0)
        else TemplateUp (- 1) (- 1) 0)
     else TemplateUp (- 1) (- 1) 0)"

definition hypercube_split_template_2_2 :: "int \<Rightarrow> int \<Rightarrow> split_vertex" where
  "hypercube_split_template_2_2 which_child which_child_vtx =
    (if which_child = 0 then 
       (if which_child_vtx = 0 then SplitVertex 0 0
        else if which_child_vtx = 1 then SplitVertex 1 0
        else if which_child_vtx = 2 then SplitVertex 2 0
        else if which_child_vtx = 3 then SplitVertex 1 3
        else SplitVertex (- 1) (- 1))
     else if which_child = 1 then 
       (if which_child_vtx = 0 then SplitVertex 1 0
        else if which_child_vtx = 1 then SplitVertex 0 1
        else if which_child_vtx = 2 then SplitVertex 1 1
        else if which_child_vtx = 3 then SplitVertex 2 0
        else SplitVertex (- 1) (- 1))
     else if which_child = 2 then 
       (if which_child_vtx = 0 then SplitVertex 2 0
        else if which_child_vtx = 1 then SplitVertex 1 1
        else if which_child_vtx = 2 then SplitVertex 0 2
        else if which_child_vtx = 3 then SplitVertex 1 2
        else SplitVertex (- 1) (- 1))
     else if which_child = 3 then 
       (if which_child_vtx = 0 then SplitVertex 1 3
        else if which_child_vtx = 1 then SplitVertex 2 0
        else if which_child_vtx = 2 then SplitVertex 1 2
        else if which_child_vtx = 3 then SplitVertex 0 3
        else SplitVertex (- 1) (- 1))
     else SplitVertex (- 1) (- 1))"

definition hypercube_split_template_3_2 :: "int \<Rightarrow> int \<Rightarrow> split_vertex" where
  "hypercube_split_template_3_2 which_child which_child_vtx =
    (if which_child = 0 then 
       (if which_child_vtx = 0 then SplitVertex 1 0
        else if which_child_vtx = 1 then SplitVertex 2 0
        else if which_child_vtx = 2 then SplitVertex 3 0
        else if which_child_vtx = 3 then SplitVertex 2 1
        else SplitVertex (- 1) (- 1))
     else if which_child = 1 then 
       (if which_child_vtx = 0 then SplitVertex 2 0
        else if which_child_vtx = 1 then SplitVertex 1 1
        else if which_child_vtx = 2 then SplitVertex 2 2
        else if which_child_vtx = 3 then SplitVertex 3 0
        else SplitVertex (- 1) (- 1))
     else if which_child = 2 then 
       (if which_child_vtx = 0 then SplitVertex 2 0
        else if which_child_vtx = 1 then SplitVertex 1 2
        else if which_child_vtx = 2 then SplitVertex 2 3
        else if which_child_vtx = 3 then SplitVertex 3 0
        else SplitVertex (- 1) (- 1))
     else if which_child = 3 then 
       (if which_child_vtx = 0 then SplitVertex 1 3
        else if which_child_vtx = 1 then SplitVertex 2 0
        else if which_child_vtx = 2 then SplitVertex 3 0
        else if which_child_vtx = 3 then SplitVertex 2 4
        else SplitVertex (- 1) (- 1))
     else if which_child = 4 then 
       (if which_child_vtx = 0 then SplitVertex 1 4
        else if which_child_vtx = 1 then SplitVertex 2 1
        else if which_child_vtx = 2 then SplitVertex 3 0
        else if which_child_vtx = 3 then SplitVertex 2 4
        else SplitVertex (- 1) (- 1))
     else if which_child = 5 then 
       (if which_child_vtx = 0 then SplitVertex 2 1
        else if which_child_vtx = 1 then SplitVertex 1 5
        else if which_child_vtx = 2 then SplitVertex 2 2
        else if which_child_vtx = 3 then SplitVertex 3 0
        else SplitVertex (- 1) (- 1))
     else if which_child = 6 then 
       (if which_child_vtx = 0 then SplitVertex 3 0
        else if which_child_vtx = 1 then SplitVertex 2 2
        else if which_child_vtx = 2 then SplitVertex 1 6
        else if which_child_vtx = 3 then SplitVertex 2 3
        else SplitVertex (- 1) (- 1))
     else if which_child = 7 then 
       (if which_child_vtx = 0 then SplitVertex 2 4
        else if which_child_vtx = 1 then SplitVertex 3 0
        else if which_child_vtx = 2 then SplitVertex 2 3
        else if which_child_vtx = 3 then SplitVertex 1 7
        else SplitVertex (- 1) (- 1))
     else if which_child = 8 then 
       (if which_child_vtx = 0 then SplitVertex 2 1
        else if which_child_vtx = 1 then SplitVertex 3 0
        else if which_child_vtx = 2 then SplitVertex 2 5
        else if which_child_vtx = 3 then SplitVertex 1 8
        else SplitVertex (- 1) (- 1))
     else if which_child = 9 then 
       (if which_child_vtx = 0 then SplitVertex 3 0
        else if which_child_vtx = 1 then SplitVertex 2 2
        else if which_child_vtx = 2 then SplitVertex 1 9
        else if which_child_vtx = 3 then SplitVertex 2 5
        else SplitVertex (- 1) (- 1))
     else if which_child = 10 then 
       (if which_child_vtx = 0 then SplitVertex 3 0
        else if which_child_vtx = 1 then SplitVertex 2 3
        else if which_child_vtx = 2 then SplitVertex 1 10
        else if which_child_vtx = 3 then SplitVertex 2 5
        else SplitVertex (- 1) (- 1))
     else if which_child = 11 then 
       (if which_child_vtx = 0 then SplitVertex 2 4
        else if which_child_vtx = 1 then SplitVertex 3 0
        else if which_child_vtx = 2 then SplitVertex 2 5
        else if which_child_vtx = 3 then SplitVertex 1 11
        else SplitVertex (- 1) (- 1))
     else SplitVertex (- 1) (- 1))"

definition hypercube_split_template_3_3 :: "int \<Rightarrow> int \<Rightarrow> split_vertex" where
  "hypercube_split_template_3_3 which_child which_child_vtx =
    (if which_child = 0 then 
       (if which_child_vtx = 0 then SplitVertex 0 0
        else if which_child_vtx = 1 then SplitVertex 1 0
        else if which_child_vtx = 2 then SplitVertex 2 0
        else if which_child_vtx = 3 then SplitVertex 1 3
        else if which_child_vtx = 4 then SplitVertex 1 4
        else if which_child_vtx = 5 then SplitVertex 2 1
        else if which_child_vtx = 6 then SplitVertex 3 0
        else if which_child_vtx = 7 then SplitVertex 2 4
        else SplitVertex (- 1) (- 1))
     else if which_child = 1 then 
       (if which_child_vtx = 0 then SplitVertex 1 0
        else if which_child_vtx = 1 then SplitVertex 0 1
        else if which_child_vtx = 2 then SplitVertex 1 1
        else if which_child_vtx = 3 then SplitVertex 2 0
        else if which_child_vtx = 4 then SplitVertex 2 1
        else if which_child_vtx = 5 then SplitVertex 1 5
        else if which_child_vtx = 6 then SplitVertex 2 2
        else if which_child_vtx = 7 then SplitVertex 3 0
        else SplitVertex (- 1) (- 1))
     else if which_child = 2 then 
       (if which_child_vtx = 0 then SplitVertex 2 0
        else if which_child_vtx = 1 then SplitVertex 1 1
        else if which_child_vtx = 2 then SplitVertex 0 2
        else if which_child_vtx = 3 then SplitVertex 1 2
        else if which_child_vtx = 4 then SplitVertex 3 0
        else if which_child_vtx = 5 then SplitVertex 2 2
        else if which_child_vtx = 6 then SplitVertex 1 6
        else if which_child_vtx = 7 then SplitVertex 2 3
        else SplitVertex (- 1) (- 1))
     else if which_child = 3 then 
       (if which_child_vtx = 0 then SplitVertex 1 3
        else if which_child_vtx = 1 then SplitVertex 2 0
        else if which_child_vtx = 2 then SplitVertex 1 2
        else if which_child_vtx = 3 then SplitVertex 0 3
        else if which_child_vtx = 4 then SplitVertex 2 4
        else if which_child_vtx = 5 then SplitVertex 3 0
        else if which_child_vtx = 6 then SplitVertex 2 3
        else if which_child_vtx = 7 then SplitVertex 1 7
        else SplitVertex (- 1) (- 1))
     else if which_child = 4 then 
       (if which_child_vtx = 0 then SplitVertex 1 4
        else if which_child_vtx = 1 then SplitVertex 2 1
        else if which_child_vtx = 2 then SplitVertex 3 0
        else if which_child_vtx = 3 then SplitVertex 2 4
        else if which_child_vtx = 4 then SplitVertex 0 4
        else if which_child_vtx = 5 then SplitVertex 1 8
        else if which_child_vtx = 6 then SplitVertex 2 5
        else if which_child_vtx = 7 then SplitVertex 1 11
        else SplitVertex (- 1) (- 1))
     else if which_child = 5 then 
       (if which_child_vtx = 0 then SplitVertex 2 1
        else if which_child_vtx = 1 then SplitVertex 1 5
        else if which_child_vtx = 2 then SplitVertex 2 2
        else if which_child_vtx = 3 then SplitVertex 3 0
        else if which_child_vtx = 4 then SplitVertex 1 8
        else if which_child_vtx = 5 then SplitVertex 0 5
        else if which_child_vtx = 6 then SplitVertex 1 9
        else if which_child_vtx = 7 then SplitVertex 2 5
        else SplitVertex (- 1) (- 1))
     else if which_child = 6 then 
       (if which_child_vtx = 0 then SplitVertex 3 0
        else if which_child_vtx = 1 then SplitVertex 2 2
        else if which_child_vtx = 2 then SplitVertex 1 6
        else if which_child_vtx = 3 then SplitVertex 2 3
        else if which_child_vtx = 4 then SplitVertex 2 5
        else if which_child_vtx = 5 then SplitVertex 1 9
        else if which_child_vtx = 6 then SplitVertex 0 6
        else if which_child_vtx = 7 then SplitVertex 1 10
        else SplitVertex (- 1) (- 1))
     else if which_child = 7 then 
       (if which_child_vtx = 0 then SplitVertex 2 4
        else if which_child_vtx = 1 then SplitVertex 3 0
        else if which_child_vtx = 2 then SplitVertex 2 3
        else if which_child_vtx = 3 then SplitVertex 1 7
        else if which_child_vtx = 4 then SplitVertex 1 11
        else if which_child_vtx = 5 then SplitVertex 2 5
        else if which_child_vtx = 6 then SplitVertex 1 10
        else if which_child_vtx = 7 then SplitVertex 0 7
        else SplitVertex (- 1) (- 1))
     else SplitVertex (- 1) (- 1))"

definition hypercube_split_template :: "int \<Rightarrow> int \<Rightarrow> int \<Rightarrow> int \<Rightarrow> split_vertex" where
  "hypercube_split_template parent_dim child_dim which_child which_child_vtx =
    (if parent_dim = 1 then 
       (if child_dim = 0 then SplitVertex 1 0
        else if child_dim = 1 then 
          (if which_child = 0 then 
             (if which_child_vtx = 0 then SplitVertex 0 0
              else if which_child_vtx = 1 then SplitVertex 1 0
              else SplitVertex (- 1) (- 1))
           else if which_child = 1 then 
             (if which_child_vtx = 0 then SplitVertex 1 0
              else if which_child_vtx = 1 then SplitVertex 0 1
              else SplitVertex (- 1) (- 1))
           else SplitVertex (- 1) (- 1))
        else SplitVertex (- 1) (- 1))
     else if parent_dim = 2 then 
       (if child_dim = 0 then SplitVertex 2 0
        else if child_dim = 1 then 
          (if which_child_vtx = 0 then SplitVertex 1 which_child
           else if which_child_vtx = 1 then SplitVertex 2 0
           else SplitVertex (- 1) (- 1))
        else if child_dim = 2 then hypercube_split_template_2_2 which_child which_child_vtx
        else SplitVertex (- 1) (- 1))
     else if parent_dim = 3 then 
       (if child_dim = 0 then SplitVertex 3 0
        else if child_dim = 1 then 
          (if which_child_vtx = 0 then SplitVertex 2 which_child
           else if which_child_vtx = 1 then SplitVertex 3 0
           else SplitVertex (- 1) (- 1))
        else if child_dim = 2 then hypercube_split_template_3_2 which_child which_child_vtx
        else if child_dim = 3 then hypercube_split_template_3_3 which_child which_child_vtx
        else SplitVertex (- 1) (- 1))
     else SplitVertex (- 1) (- 1))"

definition hypercube_degree :: "int \<Rightarrow> int \<Rightarrow> int" where
  "hypercube_degree from_dim to_dim =
    (if from_dim = 0 then 
       (if to_dim = 0 then 1
        else - 1)
     else if from_dim = 1 then 
       (if to_dim = 0 then 2
        else if to_dim = 1 then 1
        else - 1)
     else if from_dim = 2 then 
       (if to_dim = 0 then 4
        else if to_dim = 1 then 4
        else if to_dim = 2 then 1
        else - 1)
     else if from_dim = 3 then 
       (if to_dim = 0 then 8
        else if to_dim = 1 then 12
        else if to_dim = 2 then 6
        else if to_dim = 3 then 1
        else - 1)
     else - 1)"

definition hypercube_singular_name :: "int \<Rightarrow> string option" where
  "hypercube_singular_name dim =
     (if dim = 3 then Some ''hex''
      else if dim = 2 then Some ''quad''
      else if dim = 1 then Some ''edge''
      else if dim = 0 then Some ''vertex'' else None)"

definition hypercube_plural_name :: "int \<Rightarrow> string option" where
  "hypercube_plural_name dim =
     (if dim = 3 then Some ''hexes''
      else if dim = 2 then Some ''quads''
      else if dim = 1 then Some ''edges''
      else if dim = 0 then Some ''vertices'' else None)"

definition hypercube_split_degree :: "int \<Rightarrow> int \<Rightarrow> int" where
  "hypercube_split_degree parent_dim child_dim = hypercube_degree parent_dim (parent_dim - child_dim)"

section \<open>Consistency of the boundary tables\<close>

lemma hypercube_down_ok:
  "(e, b) \<in> set [(3, 2), (3, 1), (3, 0), (2, 1), (2, 0), (1, 0)] \<Longrightarrow>
   down_ok hypercube_down_template hypercube_degree e b"
proof -
  have "\<forall>(e, b) \<in> set [(3, 2), (3, 1), (3, 0), (2, 1), (2, 0), (1, 0)].
      down_ok hypercube_down_template hypercube_degree e b"
    by code_simp
  then show "(e, b) \<in> set [(3, 2), (3, 1), (3, 0), (2, 1), (2, 0), (1, 0)] \<Longrightarrow>
      down_ok hypercube_down_template hypercube_degree e b" by blast
qed

lemma hypercube_up_ok:
  "up_ok hypercube_down_template hypercube_up_template hypercube_degree 3 1 0 3"
  "up_ok hypercube_down_template hypercube_up_template hypercube_degree 3 2 1 2"
  "up_ok hypercube_down_template hypercube_up_template hypercube_degree 2 1 0 2"
  by code_simp+

interpretation hex_edges_via_faces:
  boundary_tables hypercube_down_template hypercube_up_template hypercube_degree 3 2 1
  by (rule boundary_tables_up_ok [OF hypercube_up_ok(2)]) simp

interpretation hex_verts_via_edges:
  boundary_tables hypercube_down_template hypercube_up_template hypercube_degree 3 1 0
  by (rule boundary_tables_up_ok [OF hypercube_up_ok(1)]) simp

interpretation quad_verts_via_edges:
  boundary_tables hypercube_down_template hypercube_up_template hypercube_degree 2 1 0
  by (rule boundary_tables_up_ok [OF hypercube_up_ok(3)]) simp

section \<open>Splitting\<close>

text \<open>
  A split vertex \<open>(d, k)\<close> is the midpoint of boundary entity \<open>k\<close> of dimension \<open>d\<close> of the parent (the
  parent itself when \<open>d\<close> is its dimension).
\<close>

abbreviation hc_verts :: "int \<Rightarrow> int \<Rightarrow> int \<Rightarrow> int list" where
  "hc_verts \<equiv> ent_verts hypercube_down_template hypercube_degree"

definition split_verts :: "int \<Rightarrow> int \<Rightarrow> int \<Rightarrow> split_vertex list" where
  "split_verts p c k = map (hypercube_split_template p c k) [0..2 ^ nat c - 1]"

text \<open>The boundary entities of the parent that contain boundary entity \<open>(b, k)\<close>.\<close>

definition containing :: "int \<Rightarrow> int \<Rightarrow> int \<Rightarrow> split_vertex list" where
  "containing p b k =
     [SplitVertex d w. d \<leftarrow> [b..p], w \<leftarrow> [0..hypercube_degree p d - 1],
        set (hc_verts p b k) \<subseteq> set (hc_verts p d w)]"

lemma set_containing:
  "set (containing p b k) = {SplitVertex d w | d w. b \<le> d \<and> d \<le> p \<and> 0 \<le> w \<and>
     w < hypercube_degree p d \<and> set (hc_verts p b k) \<subseteq> set (hc_verts p d w)}" (is "?L = ?R")
proof
  show "?L \<subseteq> ?R" by (auto simp: containing_def split: if_splits) blast
  show "?R \<subseteq> ?L" by (auto simp: containing_def) force
qed

definition split_dual_ok :: "int \<Rightarrow> int \<Rightarrow> int \<Rightarrow> bool" where
  "split_dual_ok p c k \<longleftrightarrow>
     distinct (split_verts p c k) \<and> set (split_verts p c k) = set (containing p (p - c) k)"

lemma split_dual_table:
  "\<forall>p \<in> set [1..3]. \<forall>c \<in> set [0..p]. \<forall>k \<in> set [0..hypercube_split_degree p c - 1].
     split_dual_ok p c k"
  by code_simp

text \<open>
  Vertex \<open>v\<close> of the full-dimensional child \<open>k\<close> is the midpoint of the smallest boundary entity that
  contains both vertex \<open>k\<close> and vertex \<open>v\<close> of the parent, that is the midpoint between the two.
\<close>

definition split_homothety_ok :: "int \<Rightarrow> int \<Rightarrow> int \<Rightarrow> bool" where
  "split_homothety_ok p k v \<longleftrightarrow>
     (let s = hypercube_split_template p p k v
      in {k, v} \<subseteq> set (hc_verts p (sv_dim s) (sv_which_down s)) \<and>
         (\<forall>d \<in> set [0..sv_dim s - 1]. \<forall>w \<in> set [0..hypercube_degree p d - 1].
            \<not> {k, v} \<subseteq> set (hc_verts p d w)))"

lemma split_homothety_table:
  "\<forall>p \<in> set [1..3]. \<forall>k \<in> set [0..hypercube_degree p 0 - 1]. \<forall>v \<in> set [0..hypercube_degree p 0 - 1].
     split_homothety_ok p k v"
  by code_simp

section \<open>Properties\<close>

text \<open>C18. Splitting a hypercube at its midpoints: the vertices of the child \<open>k\<close> of dimension \<open>c\<close> of
  a parent of dimension \<open>p\<close> are the midpoints of exactly the boundary entities of the parent that
  contain its boundary entity \<open>k\<close> of dimension \<open>p - c\<close>, each listed once.  So the children of
  dimension \<open>c\<close> in the interior of the parent are dual to its boundary entities of dimension \<open>p - c\<close>.\<close>

theorem hypercube_split_dual:
  assumes "1 \<le> parent_dim" "parent_dim \<le> 3" "0 \<le> child_dim" "child_dim \<le> parent_dim"
    and "0 \<le> which_child" "which_child < hypercube_split_degree parent_dim child_dim"
  shows "distinct (map (hypercube_split_template parent_dim child_dim which_child)
             [0..2 ^ nat child_dim - 1]) \<and>
    set (map (hypercube_split_template parent_dim child_dim which_child) [0..2 ^ nat child_dim - 1]) =
      {SplitVertex dim which_down | dim which_down.
         parent_dim - child_dim \<le> dim \<and> dim \<le> parent_dim \<and>
         0 \<le> which_down \<and> which_down < hypercube_degree parent_dim dim \<and>
         set (hc_verts parent_dim (parent_dim - child_dim) which_child) \<subseteq>
           set (hc_verts parent_dim dim which_down)}"
proof -
  have "parent_dim \<in> set [1..3]" "child_dim \<in> set [0..parent_dim]"
    "which_child \<in> set [0..hypercube_split_degree parent_dim child_dim - 1]"
    using assms by auto
  then have "split_dual_ok parent_dim child_dim which_child" using split_dual_table by blast
  then show ?thesis by (simp only: split_dual_ok_def split_verts_def set_containing)
qed

theorem hypercube_split_dual_witness:
  "SplitVertex 2 0 \<in> set (map (hypercube_split_template 2 2 1) [0..2 ^ nat 2 - 1])"
proof -
  have "set (hc_verts 2 (2 - 2) 1) \<subseteq> set (hc_verts 2 2 0)" "1 < hypercube_split_degree 2 2"
    "0 < hypercube_degree 2 2"
    by code_simp+
  then have "SplitVertex 2 0 \<in> {SplitVertex d w | d w. 2 - 2 \<le> d \<and> d \<le> 2 \<and> 0 \<le> w \<and>
     w < hypercube_degree 2 d \<and> set (hc_verts 2 (2 - 2) 1) \<subseteq> set (hc_verts 2 d w)}"
    by (intro CollectI exI [of _ 2] exI [of _ 0]) simp
  then show ?thesis
    using hypercube_split_dual [of 2 2 1] \<open>1 < hypercube_split_degree 2 2\<close> by simp
qed

text \<open>The full-dimensional children are the halves of the parent: vertex \<open>v\<close> of child \<open>k\<close> is the
  midpoint of a boundary entity of the parent that contains both vertex \<open>k\<close> and vertex \<open>v\<close> of the
  parent, and of the smallest one, so the child is the parent shrunk by half towards its vertex \<open>k\<close>.\<close>

theorem hypercube_split_homothety:
  assumes "1 \<le> dim" "dim \<le> 3" "0 \<le> k" "k < hypercube_degree dim 0"
    and "0 \<le> v" "v < hypercube_degree dim 0"
  shows "let s = hypercube_split_template dim dim k v
    in {k, v} \<subseteq> set (hc_verts dim (sv_dim s) (sv_which_down s)) \<and>
       (\<forall>d w. 0 \<le> d \<longrightarrow> d < sv_dim s \<longrightarrow> 0 \<le> w \<longrightarrow> w < hypercube_degree dim d \<longrightarrow>
          \<not> {k, v} \<subseteq> set (hc_verts dim d w))"
proof -
  have "dim \<in> set [1..3]" "k \<in> set [0..hypercube_degree dim 0 - 1]"
    "v \<in> set [0..hypercube_degree dim 0 - 1]"
    using assms by auto
  then have "split_homothety_ok dim k v" using split_homothety_table by blast
  then show ?thesis by (simp add: split_homothety_ok_def Let_def)
qed

theorem hypercube_split_homothety_witness:
  "3 \<in> set (hc_verts 3 (sv_dim (hypercube_split_template 3 3 3 6))
     (sv_which_down (hypercube_split_template 3 3 3 6)))"
proof -
  have "3 < hypercube_degree 3 0" "6 < hypercube_degree 3 0" by code_simp+
  then show ?thesis using hypercube_split_homothety [of 3 3 6] by (simp add: Let_def)
qed

end
