(* ===== verification/Element.thy ===== *)
theory Element
  imports Simplex Hypercube
begin

text \<open>
  Boundary tables by element family and by topological type (\<open>src/src/Omega_h_element.hpp\<close>).

  Uniform meshes have a family (simplex or hypercube) and a dimension; mixed meshes number their
  entities by \<open>Topo_type\<close>: vertex 0, edge 1, triangle 2, quadrilateral 3, tetrahedron 4,
  hexahedron 5, wedge 6, pyramid 7.  The C++ overloads both sets of functions; here the versions
  on types are called \<open>topo_...\<close>.  The lemmas show that the tables of both kinds are consistent,
  except for the entries of wedges and pyramids that the section on mixed types lists.
\<close>

datatype family = OMEGA_H_SIMPLEX | OMEGA_H_HYPERCUBE | OMEGA_H_MIXED

datatype topo_type = Vertex | Edge | Triangle | Quadrilateral | Tetrahedron | Hexahedron | Wedge
  | Pyramid

fun topo_int :: "topo_type \<Rightarrow> int" where
  "topo_int Vertex = 0" | "topo_int Edge = 1" | "topo_int Triangle = 2"
| "topo_int Quadrilateral = 3" | "topo_int Tetrahedron = 4" | "topo_int Hexahedron = 5"
| "topo_int Wedge = 6" | "topo_int Pyramid = 7"

section \<open>By family\<close>

definition element_down_template :: "family \<Rightarrow> int \<Rightarrow> int \<Rightarrow> int \<Rightarrow> int \<Rightarrow> int" where
  "element_down_template family elem_dim bdry_dim which_bdry which_vert =
     (if family = OMEGA_H_SIMPLEX
      then simplex_down_template elem_dim bdry_dim which_bdry which_vert
      else hypercube_down_template elem_dim bdry_dim which_bdry which_vert)"

definition element_degree :: "family \<Rightarrow> int \<Rightarrow> int \<Rightarrow> int" where
  "element_degree family from_dim to_dim =
     (if family = OMEGA_H_SIMPLEX then simplex_degree from_dim to_dim
      else hypercube_degree from_dim to_dim)"

definition element_up_template :: "family \<Rightarrow> int \<Rightarrow> int \<Rightarrow> int \<Rightarrow> int \<Rightarrow> template_up" where
  "element_up_template family elem_dim bdry_dim which_bdry which_up =
     (if family = OMEGA_H_SIMPLEX
      then simplex_up_template elem_dim bdry_dim which_bdry which_up
      else hypercube_up_template elem_dim bdry_dim which_bdry which_up)"

definition topological_singular_name :: "family \<Rightarrow> int \<Rightarrow> string option" where
  "topological_singular_name family dim =
     (if family = OMEGA_H_SIMPLEX then simplex_singular_name dim else hypercube_singular_name dim)"

definition topological_plural_name :: "family \<Rightarrow> int \<Rightarrow> string option" where
  "topological_plural_name family dim =
     (if family = OMEGA_H_SIMPLEX then simplex_plural_name dim else hypercube_plural_name dim)"

definition dimensional_singular_name :: "int \<Rightarrow> string option" where
  "dimensional_singular_name dim =
     (if dim = 3 then Some ''region''
      else if dim = 2 then Some ''face''
      else if dim = 1 then Some ''edge''
      else if dim = 0 then Some ''vertex'' else None)"

definition dimensional_plural_name :: "int \<Rightarrow> string option" where
  "dimensional_plural_name dim =
     (if dim = 3 then Some ''regions''
      else if dim = 2 then Some ''faces''
      else if dim = 1 then Some ''edges''
      else if dim = 0 then Some ''vertices'' else None)"

section \<open>By topological type\<close>

definition topo_down_template :: "int \<Rightarrow> int \<Rightarrow> int \<Rightarrow> int \<Rightarrow> int" where
  "topo_down_template elem_type bdry_type which_bdry which_vert =
    (if elem_type = 7 then 
       (if bdry_type = 3 then 
          (if which_bdry = 0 then 
             (if which_vert = 0 then 1
              else if which_vert = 1 then 0
              else if which_vert = 2 then 3
              else if which_vert = 3 then 2
              else - 1)
           else - 1)
        else if bdry_type = 2 then 
          (if which_bdry = 0 then 
             (if which_vert = 0 then 0
              else if which_vert = 1 then 1
              else if which_vert = 2 then 4
              else - 1)
           else if which_bdry = 1 then 
             (if which_vert = 0 then 1
              else if which_vert = 1 then 2
              else if which_vert = 2 then 4
              else - 1)
           else if which_bdry = 2 then 
             (if which_vert = 0 then 2
              else if which_vert = 1 then 3
              else if which_vert = 2 then 4
              else - 1)
           else if which_bdry = 3 then 
             (if which_vert = 0 then 3
              else if which_vert = 1 then 0
              else if which_vert = 2 then 4
              else - 1)
           else - 1)
        else if bdry_type = 1 then 
          (if which_bdry = 0 then 
             (if which_vert = 0 then 0
              else if which_vert = 1 then 1
              else - 1)
           else if which_bdry = 1 then 
             (if which_vert = 0 then 1
              else if which_vert = 1 then 2
              else - 1)
           else if which_bdry = 2 then 
             (if which_vert = 0 then 2
              else if which_vert = 1 then 3
              else - 1)
           else if which_bdry = 3 then 
             (if which_vert = 0 then 3
              else if which_vert = 1 then 0
              else - 1)
           else if which_bdry = 4 then 
             (if which_vert = 0 then 0
              else if which_vert = 1 then 4
              else - 1)
           else if which_bdry = 5 then 
             (if which_vert = 0 then 1
              else if which_vert = 1 then 4
              else - 1)
           else if which_bdry = 6 then 
             (if which_vert = 0 then 2
              else if which_vert = 1 then 4
              else - 1)
           else if which_bdry = 7 then 
             (if which_vert = 0 then 3
              else if which_vert = 1 then 4
              else - 1)
           else - 1)
        else if bdry_type = 0 then 
          (if which_bdry = 0 then 0
           else if which_bdry = 1 then 1
           else if which_bdry = 2 then 2
           else if which_bdry = 3 then 3
           else if which_bdry = 4 then 4
           else - 1)
        else - 1)
     else if elem_type = 6 then 
       (if bdry_type = 3 then 
          (if which_bdry = 0 then 
             (if which_vert = 0 then 0
              else if which_vert = 1 then 1
              else if which_vert = 2 then 4
              else if which_vert = 3 then 3
              else - 1)
           else if which_bdry = 1 then 
             (if which_vert = 0 then 1
              else if which_vert = 1 then 2
              else if which_vert = 2 then 5
              else if which_vert = 3 then 4
              else - 1)
           else if which_bdry = 2 then 
             (if which_vert = 0 then 2
              else if which_vert = 1 then 0
              else if which_vert = 2 then 3
              else if which_vert = 3 then 5
              else - 1)
           else - 1)
        else if bdry_type = 2 then 
          (if which_bdry = 0 then 
             (if which_vert = 0 then 1
              else if which_vert = 1 then 0
              else if which_vert = 2 then 2
              else - 1)
           else if which_bdry = 1 then 
             (if which_vert = 0 then 3
              else if which_vert = 1 then 4
              else if which_vert = 2 then 5
              else - 1)
           else - 1)
        else if bdry_type = 1 then 
          (if which_bdry = 0 then 
             (if which_vert = 0 then 0
              else if which_vert = 1 then 1
              else - 1)
           else if which_bdry = 1 then 
             (if which_vert = 0 then 1
              else if which_vert = 1 then 2
              else - 1)
           else if which_bdry = 2 then 
             (if which_vert = 0 then 2
              else if which_vert = 1 then 0
              else - 1)
           else if which_bdry = 3 then 
             (if which_vert = 0 then 0
              else if which_vert = 1 then 3
              else - 1)
           else if which_bdry = 4 then 
             (if which_vert = 0 then 1
              else if which_vert = 1 then 4
              else - 1)
           else if which_bdry = 5 then 
             (if which_vert = 0 then 2
              else if which_vert = 1 then 5
              else - 1)
           else if which_bdry = 6 then 
             (if which_vert = 0 then 4
              else if which_vert = 1 then 3
              else - 1)
           else if which_bdry = 7 then 
             (if which_vert = 0 then 5
              else if which_vert = 1 then 4
              else - 1)
           else if which_bdry = 8 then 
             (if which_vert = 0 then 3
              else if which_vert = 1 then 5
              else - 1)
           else - 1)
        else if bdry_type = 0 then 
          (if which_bdry = 0 then 0
           else if which_bdry = 1 then 1
           else if which_bdry = 2 then 2
           else if which_bdry = 3 then 3
           else if which_bdry = 4 then 4
           else if which_bdry = 5 then 5
           else - 1)
        else - 1)
     else if elem_type = 5 then 
       (if bdry_type = 3 then hypercube_down_template 3 2 which_bdry which_vert
        else if bdry_type = 1 then hypercube_down_template 3 1 which_bdry which_vert
        else if bdry_type = 0 then hypercube_down_template 3 0 which_bdry which_vert
        else - 1)
     else if elem_type = 4 then 
       (if bdry_type = 2 then simplex_down_template 3 2 which_bdry which_vert
        else if bdry_type = 1 then simplex_down_template 3 1 which_bdry which_vert
        else if bdry_type = 0 then simplex_down_template 3 0 which_bdry which_vert
        else - 1)
     else if elem_type = 3 then 
       (if bdry_type = 1 then hypercube_down_template 2 1 which_bdry which_vert
        else if bdry_type = 0 then hypercube_down_template 2 0 which_bdry which_vert
        else - 1)
     else if elem_type = 2 then 
       (if bdry_type = 1 then simplex_down_template 2 1 which_bdry which_vert
        else if bdry_type = 0 then simplex_down_template 2 0 which_bdry which_vert
        else - 1)
     else if elem_type = 1 then simplex_down_template 1 0 which_bdry which_vert
     else - 1)"

definition topo_up_template_6 :: "int \<Rightarrow> int \<Rightarrow> int \<Rightarrow> template_up" where
  "topo_up_template_6 bdry_type which_bdry which_up =
    (if bdry_type = 0 then 
       (if which_bdry = 0 then 
          (if which_up = 0 then TemplateUp 0 0 0
           else TemplateUp (- 1) (- 1) 0)
        else if which_bdry = 1 then 
          (if which_up = 0 then TemplateUp 1 0 0
           else TemplateUp (- 1) (- 1) 0)
        else if which_bdry = 2 then 
          (if which_up = 0 then TemplateUp 2 0 0
           else TemplateUp (- 1) (- 1) 0)
        else if which_bdry = 3 then 
          (if which_up = 0 then TemplateUp 6 1 0
           else TemplateUp (- 1) (- 1) 0)
        else if which_bdry = 4 then 
          (if which_up = 0 then TemplateUp 7 1 0
           else TemplateUp (- 1) (- 1) 0)
        else if which_bdry = 5 then 
          (if which_up = 0 then TemplateUp 8 1 0
           else TemplateUp (- 1) (- 1) 0)
        else TemplateUp (- 1) (- 1) 0)
     else if bdry_type = 1 then 
       (if which_bdry = 0 then 
          (if which_up = 0 then TemplateUp 0 0 0
           else TemplateUp (- 1) (- 1) 0)
        else if which_bdry = 1 then 
          (if which_up = 0 then TemplateUp 1 0 0
           else TemplateUp (- 1) (- 1) 0)
        else if which_bdry = 2 then 
          (if which_up = 0 then TemplateUp 2 0 0
           else TemplateUp (- 1) (- 1) 0)
        else if which_bdry = 3 then 
          (if which_up = 0 then TemplateUp 0 3 0
           else TemplateUp (- 1) (- 1) 0)
        else if which_bdry = 4 then 
          (if which_up = 0 then TemplateUp 1 3 0
           else TemplateUp (- 1) (- 1) 0)
        else if which_bdry = 5 then 
          (if which_up = 0 then TemplateUp 2 3 0
           else TemplateUp (- 1) (- 1) 0)
        else if which_bdry = 6 then 
          (if which_up = 0 then TemplateUp 0 2 0
           else TemplateUp (- 1) (- 1) 0)
        else if which_bdry = 7 then 
          (if which_up = 0 then TemplateUp 1 2 0
           else TemplateUp (- 1) (- 1) 0)
        else if which_bdry = 8 then 
          (if which_up = 0 then TemplateUp 2 2 0
           else TemplateUp (- 1) (- 1) 0)
        else TemplateUp (- 1) (- 1) 0)
     else TemplateUp (- 1) (- 1) 0)"

definition topo_up_template_7 :: "int \<Rightarrow> int \<Rightarrow> int \<Rightarrow> template_up" where
  "topo_up_template_7 bdry_type which_bdry which_up =
    (if bdry_type = 0 then 
       (if which_bdry = 0 then 
          (if which_up = 0 then TemplateUp 0 0 0
           else TemplateUp (- 1) (- 1) 0)
        else if which_bdry = 1 then 
          (if which_up = 0 then TemplateUp 1 0 0
           else TemplateUp (- 1) (- 1) 0)
        else if which_bdry = 2 then 
          (if which_up = 0 then TemplateUp 2 0 0
           else TemplateUp (- 1) (- 1) 0)
        else if which_bdry = 3 then 
          (if which_up = 0 then TemplateUp 3 0 0
           else TemplateUp (- 1) (- 1) 0)
        else if which_bdry = 4 then 
          (if which_up = 0 then TemplateUp 4 0 0
           else TemplateUp (- 1) (- 1) 0)
        else TemplateUp (- 1) (- 1) 0)
     else if bdry_type = 1 then 
       (if which_bdry = 0 then 
          (if which_up = 0 then TemplateUp 0 0 0
           else TemplateUp (- 1) (- 1) 0)
        else if which_bdry = 1 then 
          (if which_up = 0 then TemplateUp 1 0 0
           else TemplateUp (- 1) (- 1) 0)
        else if which_bdry = 2 then 
          (if which_up = 0 then TemplateUp 2 0 0
           else TemplateUp (- 1) (- 1) 0)
        else if which_bdry = 3 then 
          (if which_up = 0 then TemplateUp 3 0 0
           else TemplateUp (- 1) (- 1) 0)
        else if which_bdry = 4 then 
          (if which_up = 0 then TemplateUp 0 2 0
           else TemplateUp (- 1) (- 1) 0)
        else if which_bdry = 5 then 
          (if which_up = 0 then TemplateUp 1 2 0
           else TemplateUp (- 1) (- 1) 0)
        else if which_bdry = 6 then 
          (if which_up = 0 then TemplateUp 2 2 0
           else TemplateUp (- 1) (- 1) 0)
        else if which_bdry = 7 then 
          (if which_up = 0 then TemplateUp 3 2 0
           else TemplateUp (- 1) (- 1) 0)
        else TemplateUp (- 1) (- 1) 0)
     else TemplateUp (- 1) (- 1) 0)"

definition topo_up_template :: "int \<Rightarrow> int \<Rightarrow> int \<Rightarrow> int \<Rightarrow> template_up" where
  "topo_up_template elem_type bdry_type which_bdry which_up =
    (if elem_type = 2 then simplex_up_template 2 bdry_type which_bdry which_up
     else if elem_type = 3 then hypercube_up_template 2 bdry_type which_bdry which_up
     else if elem_type = 4 then simplex_up_template 3 bdry_type which_bdry which_up
     else if elem_type = 5 then hypercube_up_template 3 bdry_type which_bdry which_up
     else if elem_type = 6 then topo_up_template_6 bdry_type which_bdry which_up
     else if elem_type = 7 then topo_up_template_7 bdry_type which_bdry which_up
     else TemplateUp (- 1) (- 1) 0)"

definition topo_degree :: "topo_type \<Rightarrow> topo_type \<Rightarrow> int" where
  "topo_degree from_type to_type =
     (let from_t = topo_int from_type; to_t = topo_int to_type in
      if from_t = 0 then (if to_t = 0 then 1 else - 1)
      else if from_t = 1 then (if to_t = 0 then 2 else if to_t = 1 then 1 else - 1)
      else if from_t = 2 then
        (if to_t = 0 then 3 else if to_t = 1 then 3 else if to_t = 2 then 1 else - 1)
      else if from_t = 3 then
        (if to_t = 0 then 4 else if to_t = 1 then 4 else if to_t = 3 then 1 else - 1)
      else if from_t = 4 then
        (if to_t = 0 then 4 else if to_t = 1 then 6 else if to_t = 2 then 4
         else if to_t = 4 then 1 else - 1)
      else if from_t = 5 then
        (if to_t = 0 then 8 else if to_t = 1 then 12 else if to_t = 3 then 6
         else if to_t = 5 then 1 else - 1)
      else if from_t = 6 then
        (if to_t = 0 then 6 else if to_t = 1 then 9 else if to_t = 2 then 2
         else if to_t = 3 then 3 else if to_t = 6 then 1 else - 1)
      else if from_t = 7 then
        (if to_t = 0 then 5 else if to_t = 1 then 8 else if to_t = 2 then 4
         else if to_t = 3 then 1 else if to_t = 7 then 1 else - 1)
      else - 1)"

definition topo_singular_name :: "topo_type \<Rightarrow> string option" where
  "topo_singular_name ent_type =
     (if topo_int ent_type = 7 then Some ''pyramid''
      else if topo_int ent_type = 6 then Some ''wedge''
      else if topo_int ent_type = 5 then Some ''hexahedron''
      else if topo_int ent_type = 4 then Some ''tetrahedron''
      else if topo_int ent_type = 3 then Some ''quadrilateral''
      else if topo_int ent_type = 2 then Some ''triangle''
      else if topo_int ent_type = 1 then Some ''edge''
      else if topo_int ent_type = 0 then Some ''vertex'' else None)"

definition topo_plural_name :: "topo_type \<Rightarrow> string option" where
  "topo_plural_name ent_type =
     (if topo_int ent_type = 7 then Some ''pyramids''
      else if topo_int ent_type = 6 then Some ''wedges''
      else if topo_int ent_type = 5 then Some ''hexahedrons''
      else if topo_int ent_type = 4 then Some ''tetrahedrons''
      else if topo_int ent_type = 3 then Some ''quadrilaterals''
      else if topo_int ent_type = 2 then Some ''triangles''
      else if topo_int ent_type = 1 then Some ''edges''
      else if topo_int ent_type = 0 then Some ''vertices'' else None)"

section \<open>Consistency of the mixed tables\<close>

text \<open>The tables on type numbers, in the form the predicates of \<open>Templates\<close> take.\<close>

definition type_of_int :: "int \<Rightarrow> topo_type" where
  "type_of_int k = [Vertex, Edge, Triangle, Quadrilateral, Tetrahedron, Hexahedron, Wedge, Pyramid]
     ! nat k"

definition topo_deg :: degree_table where
  "topo_deg e b = topo_degree (type_of_int e) (type_of_int b)"

text \<open>The pairs of an element type and the types of its proper boundary entities.\<close>

definition topo_pairs :: "(int \<times> int) list" where
  "topo_pairs = [(1, 0), (2, 1), (2, 0), (3, 1), (3, 0), (4, 2), (4, 1), (4, 0), (5, 3), (5, 1),
     (5, 0), (6, 3), (6, 2), (6, 1), (6, 0), (7, 3), (7, 2), (7, 1), (7, 0)]"

lemma topo_down_table: "\<forall>(e, b) \<in> set topo_pairs. down_ok topo_down_template topo_deg e b"
  by code_simp

text \<open>
  The triples (element, intermediate entity, boundary entity) for which \<open>topo_up_template\<close> has an
  entry, and the entries that disagree with \<open>topo_down_template\<close>.
\<close>

definition topo_triples :: "(int \<times> int \<times> int) list" where
  "topo_triples = [(2, 1, 0), (3, 1, 0), (4, 1, 0), (4, 2, 1), (5, 1, 0), (5, 3, 1), (6, 1, 0),
     (6, 3, 1), (7, 1, 0), (7, 2, 1)]"

definition topo_entry_ok :: "int \<Rightarrow> int \<Rightarrow> int \<Rightarrow> int \<Rightarrow> bool" where
  "topo_entry_ok e m b w = up_entry_ok topo_down_template topo_deg e m b w (topo_up_template e b w 0)"

definition topo_bad_entries :: "(int \<times> int \<times> int \<times> int) list" where
  "topo_bad_entries = [(e, m, b, w). (e, m, b) \<leftarrow> topo_triples, w \<leftarrow> [0..topo_deg e b - 1],
     \<not> topo_entry_ok e m b w]"

lemma topo_bad_entries_eq:
  "topo_bad_entries = [(6, 3, 1, 3), (6, 3, 1, 4), (6, 3, 1, 5), (7, 1, 0, 4), (7, 2, 1, 4),
     (7, 2, 1, 5), (7, 2, 1, 6), (7, 2, 1, 7)]"
  by code_simp

section \<open>Properties\<close>

text \<open>C22. The boundary tables of the simplices and of the hypercubes are consistent: every boundary
  entity has distinct vertices of the element and no two have the same vertices; every entry of the
  upward tables names an intermediate entity and a boundary entity of it that runs through the same
  vertices in the same order once the flip is undone; and the entries of an entity are exactly the
  ways to see it in an intermediate entity, each listed once.  The downward tables of the mixed types
  are consistent as well.\<close>

theorem boundary_tables_consistent:
  "list_all (\<lambda>(e, b). down_ok simplex_down_template simplex_degree e b \<and>
                      down_ok hypercube_down_template hypercube_degree e b)
     [(3, 2), (3, 1), (3, 0), (2, 1), (2, 0), (1, 0)] \<and>
   list_all (\<lambda>(e, m, b, n). up_ok simplex_down_template simplex_up_template simplex_degree e m b n \<and>
                            up_ok hypercube_down_template hypercube_up_template hypercube_degree e m b n)
     [(3, 1, 0, 3), (3, 2, 1, 2), (2, 1, 0, 2)] \<and>
   list_all (\<lambda>(e, b). down_ok topo_down_template topo_deg e b) topo_pairs"
  using simplex_down_ok hypercube_down_ok simplex_up_ok hypercube_up_ok topo_down_table
  by (simp add: list_all_iff)

text \<open>C17. The upward tables of the mixed types are inconsistent for wedges and pyramids, and nowhere
  else: among all entries of \<open>element_up_template\<close> on type numbers, exactly eight disagree with the
  downward table.  Edges 3, 4 and 5 of the wedge and edges 4 to 7 of the pyramid run against the
  direction the entry claims (their flip bit should be set), and the entry of the pyramid's apex
  names an end of an edge that is not the apex.\<close>

theorem topo_up_template_defects:
  "topo_bad_entries =
     [(6, 3, 1, 3), (6, 3, 1, 4), (6, 3, 1, 5), (7, 1, 0, 4), (7, 2, 1, 4), (7, 2, 1, 5),
      (7, 2, 1, 6), (7, 2, 1, 7)] \<and>
   list_all (\<lambda>w. up_entry_ok topo_down_template topo_deg 6 3 1 w
       (topo_up_template 6 1 w 0 \<lparr>tup_is_flipped := True\<rparr>)) [3, 4, 5] \<and>
   list_all (\<lambda>w. up_entry_ok topo_down_template topo_deg 7 2 1 w
       (topo_up_template 7 1 w 0 \<lparr>tup_is_flipped := True\<rparr>)) [4, 5, 6, 7] \<and>
   up_entry_ok topo_down_template topo_deg 7 1 0 4
       (topo_up_template 7 0 4 0 \<lparr>tup_which_down := 1\<rparr>)"
proof (intro conjI)
  show "list_all (\<lambda>w. up_entry_ok topo_down_template topo_deg 6 3 1 w
       (topo_up_template 6 1 w 0 \<lparr>tup_is_flipped := True\<rparr>)) [3, 4, 5]"
    by code_simp
  show "list_all (\<lambda>w. up_entry_ok topo_down_template topo_deg 7 2 1 w
       (topo_up_template 7 1 w 0 \<lparr>tup_is_flipped := True\<rparr>)) [4, 5, 6, 7]"
    by code_simp
  show "up_entry_ok topo_down_template topo_deg 7 1 0 4
       (topo_up_template 7 0 4 0 \<lparr>tup_which_down := 1\<rparr>)"
    by code_simp
qed (rule topo_bad_entries_eq)

end
