(* ===== verification/Scan.thy ===== *)
theory Scan
  imports Omega_Prelude
begin

text \<open>
  Scans (\<open>src/src/Omega_h_scan.hpp\<close>, \<open>Omega_h_int_scan.cpp\<close>).

  \<open>transform_inclusive_scan\<close> is the serial loop; \<open>first\<close> reads input \<open>i\<close> given the current output
  array, since \<open>fill_right\<close> scans an array onto itself.  \<open>omp_inclusive_scan\<close> is the OpenMP version:
  every thread reduces its block, all threads meet at a barrier, then every thread scans its block
  starting from the sums of the blocks before it.  The main results: the scans compute the prefix
  combinations of their input (\<open>scan_list\<close>), both versions agree for every number of threads and
  every order in which the threads run, and \<open>offset_scan\<close> and differences are inverse.
\<close>

section \<open>Prefix combinations, the specification\<close>

fun scan_from :: "('a \<Rightarrow> 'a \<Rightarrow> 'a) \<Rightarrow> 'a \<Rightarrow> 'a list \<Rightarrow> 'a list" where
  "scan_from p v [] = []"
| "scan_from p v (x # xs) = p v x # scan_from p (p v x) xs"

fun scan_list :: "('a \<Rightarrow> 'a \<Rightarrow> 'a) \<Rightarrow> 'a list \<Rightarrow> 'a list" where
  "scan_list p [] = []"
| "scan_list p (x # xs) = x # scan_from p x xs"

lemma length_scan_from [simp]: "length (scan_from p v xs) = length xs"
  by (induction xs arbitrary: v) auto

lemma length_scan_list [simp]: "length (scan_list p xs) = length xs"
  by (cases xs) auto

lemma nth_scan_from: "k < length xs \<Longrightarrow> scan_from p v xs ! k = foldl p v (take (Suc k) xs)"
  by (induction xs arbitrary: v k) (auto simp: nth_Cons split: nat.splits)

lemma nth_scan_list: "k < length xs \<Longrightarrow> scan_list p xs ! k = foldl p (hd xs) (take k (tl xs))"
  by (cases xs) (auto simp: nth_Cons nth_scan_from split: nat.splits)

lemma scan_list_Suc:
  "Suc k < length xs \<Longrightarrow> scan_list p xs ! Suc k = p (scan_list p xs ! k) (xs ! Suc k)"
  by (cases xs) (simp_all add: nth_scan_list take_Suc_conv_app_nth del: scan_list.simps)

lemma scan_list_0: "xs \<noteq> [] \<Longrightarrow> scan_list p xs ! 0 = xs ! 0"
  by (cases xs) auto

section \<open>The serial scan\<close>

definition transform_inclusive_scan ::
    "lo \<Rightarrow> ('b option list \<Rightarrow> lo \<Rightarrow> 'a option) \<Rightarrow> lo \<Rightarrow> ('b \<Rightarrow> 'b \<Rightarrow> 'b) \<Rightarrow> ('a \<Rightarrow> 'b option) \<Rightarrow>
     'b option list \<Rightarrow> 'b option list option" where
  "transform_inclusive_scan n first result p transform out =
     (if n \<le> 0 then Some out else do {
        x \<leftarrow> first out 0;
        value \<leftarrow> transform x;
        out \<leftarrow> wr out (result + 0) (Some value);
        (value, out) \<leftarrow> for_range 1 n (\<lambda>i (value, out). do {
          x \<leftarrow> first out i;
          y \<leftarrow> transform x;
          let value = p value y;
          out \<leftarrow> wr out (result + i) (Some value);
          Some (value, out)
        }) (value, out);
        Some out
      })"

definition inclusive_scan ::
    "int list \<Rightarrow> lo \<Rightarrow> int option list \<Rightarrow> int option list option" where
  "inclusive_scan input result out =
     (if asize input \<le> 0 then Some out else do {
        value \<leftarrow> rd input 0;
        out \<leftarrow> wr out (result + 0) (Some value);
        (value, out) \<leftarrow> for_range 1 (asize input) (\<lambda>i (value, out). do {
          x \<leftarrow> rd input i;
          let value = value + x;
          out \<leftarrow> wr out (result + i) (Some value);
          Some (value, out)
        }) (value, out);
        Some out
      })"

definition offset_scan :: "int list \<Rightarrow> lo list option" where
  "offset_scan a = do {
     out \<leftarrow> wr (fresh (asize a + 1)) 0 (Some 0);
     out \<leftarrow> inclusive_scan a 1 out;
     freeze out
   }"

definition fill_right :: "lo option list \<Rightarrow> lo option list option" where
  "fill_right a =
     transform_inclusive_scan (asize a) (\<lambda>out i. Option.bind (rd out i) (\<lambda>c. c)) 0 max Some a"

lemma inclusive_scan_transform:
  "inclusive_scan input result out =
     transform_inclusive_scan (asize input) (\<lambda>_ i. rd input i) result (+) Some out"
  by (simp add: inclusive_scan_def transform_inclusive_scan_def)

text \<open>
  The scan of \<open>n\<close> inputs writes the \<open>n\<close> prefix combinations to the cells from \<open>result\<close> on and leaves
  the other cells alone, provided input \<open>i\<close> is readable before cell \<open>i\<close> is written.
\<close>

lemma transform_inclusive_scan_spec:
  assumes first: "\<And>i w. i < length vals \<Longrightarrow> length w = length out \<Longrightarrow>
      (\<And>k. nat result + i \<le> k \<Longrightarrow> w ! k = out ! k) \<Longrightarrow>
      Option.bind (first w (int i)) transform = Some (vals ! i)"
    and "0 \<le> result" "result + int (length vals) \<le> asize out"
  shows "\<exists>w. transform_inclusive_scan (int (length vals)) first result p transform out = Some w \<and>
    length w = length out \<and>
    (\<forall>k < length vals. w ! (nat result + k) = Some (scan_list p vals ! k)) \<and>
    (\<forall>k. k < nat result \<or> nat result + length vals \<le> k \<longrightarrow> w ! k = out ! k)"
proof (cases "vals = []")
  case True
  then show ?thesis by (simp add: transform_inclusive_scan_def)
next
  case False
  let ?r = "nat result" and ?n = "length vals"
  let ?f = "\<lambda>i (value, out). do { x \<leftarrow> first out i; y \<leftarrow> transform x; let value = p value y;
               out \<leftarrow> wr out (result + i) (Some value); Some (value, out) }"
  let ?P = "\<lambda>i (value, w). 1 \<le> i \<and> i \<le> int ?n \<and> length w = length out \<and>
     value = scan_list p vals ! (nat i - 1) \<and>
     (\<forall>k < nat i. w ! (?r + k) = Some (scan_list p vals ! k)) \<and>
     (\<forall>k. k < ?r \<or> ?r + nat i \<le> k \<longrightarrow> w ! k = out ! k)"
  have n: "0 < ?n" using False by simp
  have idx: "nat (result + int k) = ?r + k" for k using assms(2) by simp
  have sz: "?r + k < length out" if "k < ?n" for k
    using that assms(2,3) by (simp add: asize_def)
  have x0: "Option.bind (first out 0) transform = Some (vals ! 0)"
    using first [of 0 out] n by simp
  then obtain x where x: "first out 0 = Some x" "transform x = Some (vals ! 0)"
    by (auto simp: Option.bind_eq_Some_conv)
  let ?o = "out[?r := Some (vals ! 0)]"
  have w0: "wr out (result + 0) (Some (vals ! 0)) = Some ?o"
    using sz [OF n] assms(2) by (simp add: wr_def asize_def)
  have "\<exists>s. for_range 1 (int ?n) ?f (vals ! 0, ?o) = Some s \<and> ?P (int ?n) s"
  proof (rule for_range_rule [where P = ?P])
    show "?P 1 (vals ! 0, ?o)" using n sz [OF n] by (auto simp: scan_list_0 False Suc_le_eq)
    fix i :: int and s assume i: "1 \<le> i" "i < int ?n" and P: "?P i s"
    obtain v w where s: "s = (v, w)" by force
    let ?k = "nat i"
    have k: "?k < ?n" "i = int ?k" "1 \<le> ?k" using i by auto
    have "Option.bind (first w (int ?k)) transform = Some (vals ! ?k)"
      using P s k by (intro first) auto
    then obtain y where y: "first w i = Some y" "transform y = Some (vals ! ?k)"
      using k(2) by (auto simp: Option.bind_eq_Some_conv)
    have v': "p v (vals ! ?k) = scan_list p vals ! ?k"
      using scan_list_Suc [of "?k - 1" vals p] P s k by simp
    have wr': "wr w (result + i) (Some (p v (vals ! ?k))) = Some (w[?r + ?k := Some (p v (vals ! ?k))])"
      using sz [OF k(1)] assms(2) P s i by (simp add: wr_def asize_def nat_add_distrib)
    show "\<exists>s'. ?f i s = Some s' \<and> ?P (i + 1) s'"
    proof (intro exI conjI)
      show "?f i s = Some (p v (vals ! ?k), w[?r + ?k := Some (p v (vals ! ?k))])"
        using s y wr' by (simp add: Let_def)
      show "?P (i + 1) (p v (vals ! ?k), w[?r + ?k := Some (p v (vals ! ?k))])"
        using P s i v' sz [OF k(1)]
        by (auto simp: nth_list_update nat_add_distrib less_Suc_eq)
    qed
  qed (use n in linarith)
  then obtain v w where vw: "for_range 1 (int ?n) ?f (vals ! 0, ?o) = Some (v, w)" "?P (int ?n) (v, w)"
    by auto
  have "transform_inclusive_scan (int ?n) first result p transform out = Some w"
    using n x w0 vw(1) by (simp add: transform_inclusive_scan_def)
  then show ?thesis using vw(2) by auto
qed

section \<open>The OpenMP scan\<close>

definition omp_begin :: "lo \<Rightarrow> lo \<Rightarrow> lo \<Rightarrow> lo" where
  "omp_begin n num_threads thread_num =
     (let quotient = n sdiv num_threads; remainder = n smod num_threads
      in if thread_num > remainder then quotient * thread_num + remainder
         else (quotient + 1) * thread_num)"

definition omp_end :: "lo \<Rightarrow> lo \<Rightarrow> lo \<Rightarrow> lo" where
  "omp_end n num_threads thread_num =
     (let quotient = n sdiv num_threads; remainder = n smod num_threads;
          begin_i = omp_begin n num_threads thread_num
      in if thread_num \<ge> remainder then begin_i + quotient else begin_i + quotient + 1)"

definition omp_first_phase ::
    "('a \<Rightarrow> 'a \<Rightarrow> 'a) \<Rightarrow> 'a list \<Rightarrow> lo \<Rightarrow> lo \<Rightarrow> 'a option list \<Rightarrow> 'a option list option" where
  "omp_first_phase p vals num_threads thread_num thread_sums =
     (let begin_i = omp_begin (asize vals) num_threads thread_num;
          end_i = omp_end (asize vals) num_threads thread_num
      in if begin_i < end_i then do {
           thread_sum \<leftarrow> rd vals begin_i;
           thread_sum \<leftarrow> for_range (begin_i + 1) end_i
             (\<lambda>i thread_sum. do { x \<leftarrow> rd vals i; Some (p thread_sum x) }) thread_sum;
           wr thread_sums thread_num (Some thread_sum)
         } else Some thread_sums)"

definition rd_cell :: "'a option list \<Rightarrow> lo \<Rightarrow> 'a option" where
  "rd_cell w i = do { c \<leftarrow> rd w i; c }"

lemma rd_cell_Some: "0 \<le> i \<Longrightarrow> i < asize w \<Longrightarrow> rd_cell w i = w ! nat i"
  by (simp add: rd_cell_def rd_Some)

definition omp_second_phase ::
    "('a \<Rightarrow> 'a \<Rightarrow> 'a) \<Rightarrow> 'a list \<Rightarrow> lo \<Rightarrow> 'a option list \<Rightarrow> lo \<Rightarrow> lo \<Rightarrow> 'a option list \<Rightarrow>
     'a option list option" where
  "omp_second_phase p vals num_threads thread_sums result thread_num out =
     (let begin_i = omp_begin (asize vals) num_threads thread_num;
          end_i = omp_end (asize vals) num_threads thread_num
      in if begin_i < end_i then do {
           thread_sum \<leftarrow>
             (if thread_num \<noteq> 0 then do {
                thread_sum \<leftarrow> rd_cell thread_sums 0;
                thread_sum \<leftarrow> for_range 1 thread_num
                  (\<lambda>i thread_sum. do { x \<leftarrow> rd_cell thread_sums i; Some (p thread_sum x) }) thread_sum;
                x \<leftarrow> rd vals begin_i;
                Some (p thread_sum x)
              } else rd vals begin_i);
           out \<leftarrow> wr out (result + begin_i) (Some thread_sum);
           (thread_sum, out) \<leftarrow> for_range (begin_i + 1) end_i (\<lambda>i (thread_sum, out). do {
             x \<leftarrow> rd vals i;
             let thread_sum = p thread_sum x;
             out \<leftarrow> wr out (result + i) (Some thread_sum);
             Some (thread_sum, out)
           }) (thread_sum, out);
           Some out
         } else Some out)"

text \<open>
  \<open>sched1\<close> and \<open>sched2\<close> are the orders in which the threads do the two phases; between the phases
  is the barrier.
\<close>

definition omp_inclusive_scan ::
    "lo list \<Rightarrow> lo list \<Rightarrow> lo \<Rightarrow> ('a \<Rightarrow> 'a \<Rightarrow> 'a) \<Rightarrow> 'a list \<Rightarrow> lo \<Rightarrow> 'a option list \<Rightarrow>
     'a option list option" where
  "omp_inclusive_scan sched1 sched2 num_threads p vals result out =
     (if asize vals \<le> 0 then Some out else do {
        let max_num_threads = 512;
        thread_sums \<leftarrow> run_for sched1 (omp_first_phase p vals num_threads) (fresh max_num_threads);
        run_for sched2 (omp_second_phase p vals num_threads thread_sums result) out
      })"

subsection \<open>The blocks of the threads\<close>

lemma omp_begin_min:
  assumes "0 \<le> n" "0 < T" "0 \<le> t"
  shows "omp_begin n T t = (n div T) * t + min t (n mod T)"
  using assms by (auto simp: omp_begin_def Let_def smod_nonneg sdiv_nonneg algebra_simps)

lemma omp_end_next:
  assumes "0 \<le> n" "0 < T" "0 \<le> t"
  shows "omp_end n T t = omp_begin n T (t + 1)"
  using assms
  by (auto simp: omp_end_def omp_begin_min Let_def smod_nonneg sdiv_nonneg algebra_simps)

lemma omp_begin_0: "0 \<le> n \<Longrightarrow> 0 < T \<Longrightarrow> omp_begin n T 0 = 0"
  by (simp add: omp_begin_min)

lemma omp_begin_last: "0 \<le> n \<Longrightarrow> 0 < T \<Longrightarrow> omp_begin n T T = n"
  by (simp add: omp_begin_min less_imp_le)

lemma omp_begin_mono:
  assumes "0 \<le> n" "0 < T" "0 \<le> s" "s \<le> t"
  shows "omp_begin n T s \<le> omp_begin n T t"
proof -
  have "(n div T) * s \<le> (n div T) * t"
    using assms by (intro mult_left_mono) (simp_all add: pos_imp_zdiv_nonneg_iff)
  with assms show ?thesis by (simp add: omp_begin_min)
qed

text \<open>If the block of a thread is not empty, neither are the blocks before it.\<close>

lemma omp_blocks_nonempty:
  assumes "0 \<le> n" "0 < T" "0 \<le> s" "s \<le> t" "omp_begin n T t < omp_begin n T (t + 1)"
  shows "omp_begin n T s < omp_begin n T (s + 1)"
proof -
  have "0 \<le> n div T" using assms by (simp add: pos_imp_zdiv_nonneg_iff)
  with assms show ?thesis by (auto simp: omp_begin_min algebra_simps split: if_splits)
qed

text \<open>Every input belongs to the block of one thread.\<close>

lemma omp_block_of:
  assumes "0 \<le> n" "0 < T" "0 \<le> i" "i < n"
  shows "\<exists>t. 0 \<le> t \<and> t < T \<and> omp_begin n T t \<le> i \<and> i < omp_begin n T (t + 1)"
proof -
  have "\<exists>t. 0 \<le> t \<and> t < m \<and> omp_begin n T t \<le> i \<and> i < omp_begin n T (t + 1)"
    if "0 \<le> m" "i < omp_begin n T m" for m
    using that
  proof (induction m rule: int_ge_induct)
    case base
    then show ?case using assms by (simp add: omp_begin_0)
  next
    case (step m)
    show ?case
    proof (cases "i < omp_begin n T m")
      case True
      then show ?thesis using step.IH by force
    next
      case False
      then show ?thesis using step by (intro exI [of _ m]) auto
    qed
  qed
  from this [of T] show ?thesis using assms by (simp add: omp_begin_last)
qed

subsection \<open>What the two phases compute\<close>

definition combine :: "('a \<Rightarrow> 'a \<Rightarrow> 'a) \<Rightarrow> 'a list \<Rightarrow> 'a" where
  "combine p xs = foldl p (hd xs) (tl xs)"

lemma combine_snoc: "xs \<noteq> [] \<Longrightarrow> combine p (xs @ [x]) = p (combine p xs) x"
  by (simp add: combine_def)

lemma combine_append:
  assumes assoc: "\<And>x y z. p (p x y) z = p x (p y z)" and "xs \<noteq> []" "ys \<noteq> []"
  shows "combine p (xs @ ys) = p (combine p xs) (combine p ys)"
  using \<open>ys \<noteq> []\<close>
proof (induction ys rule: rev_nonempty_induct)
  case (single y)
  then show ?case using \<open>xs \<noteq> []\<close> by (simp add: combine_snoc) (simp add: combine_def)
next
  case (snoc y ys)
  then show ?case
    using combine_snoc [of "xs @ ys" p y] \<open>xs \<noteq> []\<close> by (simp add: combine_snoc assoc)
qed

lemma scan_list_combine: "k < length xs \<Longrightarrow> scan_list p xs ! k = combine p (take (Suc k) xs)"
  by (cases xs) (simp_all add: nth_scan_list combine_def del: scan_list.simps)

definition slice :: "'a list \<Rightarrow> int \<Rightarrow> int \<Rightarrow> 'a list" where
  "slice xs b e = take (nat (e - b)) (drop (nat b) xs)"

lemma slice_single: "0 \<le> b \<Longrightarrow> b < asize xs \<Longrightarrow> slice xs b (b + 1) = [xs ! nat b]"
  by (simp add: slice_def asize_def take_Suc_conv_app_nth)

lemma slice_snoc:
  assumes "0 \<le> b" "b \<le> i" "i < asize xs"
  shows "slice xs b (i + 1) = slice xs b i @ [xs ! nat i]"
proof -
  have "nat (i + 1 - b) = Suc (nat (i - b))" using assms by simp
  moreover have "nat b + nat (i - b) = nat i" using assms by simp
  ultimately show ?thesis
    using assms by (simp add: slice_def take_Suc_conv_app_nth asize_def)
qed

lemma slice_append:
  assumes "0 \<le> a" "a \<le> b" "b \<le> c"
  shows "slice xs a b @ slice xs b c = slice xs a c"
proof -
  have "nat (c - a) = nat (b - a) + nat (c - b)" "nat a + nat (b - a) = nat b" using assms by simp_all
  then show ?thesis by (simp add: slice_def take_add add.commute)
qed

lemma slice_nonempty: "0 \<le> b \<Longrightarrow> b < e \<Longrightarrow> e \<le> asize xs \<Longrightarrow> slice xs b e \<noteq> []"
  by (simp add: slice_def asize_def)

lemma slice_0: "slice xs 0 e = take (nat e) xs"
  by (simp add: slice_def)

lemma omp_reduce_loop:
  assumes "0 \<le> b" "b < e" "e \<le> asize vals"
  shows "for_range (b + 1) e (\<lambda>i s. do { x \<leftarrow> rd vals i; Some (p s x) }) (vals ! nat b) =
    Some (combine p (slice vals b e))"
proof -
  have "\<exists>s. for_range (b + 1) e (\<lambda>i s. do { x \<leftarrow> rd vals i; Some (p s x) }) (vals ! nat b) = Some s \<and>
     s = combine p (slice vals b e)"
  proof (rule for_range_rule [where P = "\<lambda>i s. s = combine p (slice vals b i)"])
    show "vals ! nat b = combine p (slice vals b (b + 1))"
      using assms by (simp add: slice_single combine_def)
    fix i s assume "b + 1 \<le> i" "i < e" "s = combine p (slice vals b i)"
    then show "\<exists>s'. do { x \<leftarrow> rd vals i; Some (p s x) } = Some s' \<and> s' = combine p (slice vals b (i + 1))"
      using assms by (simp add: rd_Some slice_snoc combine_snoc slice_nonempty)
  qed (use assms in simp)
  then show ?thesis by simp
qed

text \<open>The setting of the two phases: \<open>T\<close> threads on a non-empty input.\<close>

lemma omp_block_bounds:
  assumes "0 < T" "0 \<le> t" "t < T"
  shows "0 \<le> omp_begin (asize vals) T t" "omp_end (asize vals) T t \<le> asize vals"
proof -
  show "0 \<le> omp_begin (asize vals) T t"
    using omp_begin_mono [of "asize vals" T 0 t] omp_begin_0 [of "asize vals" T] assms by simp
  show "omp_end (asize vals) T t \<le> asize vals"
    using omp_begin_mono [of "asize vals" T "t + 1" T] assms
    by (simp add: omp_end_next omp_begin_last)
qed

lemma omp_first_phase_spec:
  assumes "0 < T" "0 \<le> t" "t < T" "int (length sums) = 512" "T \<le> 512"
  shows "\<exists>sums'. omp_first_phase p vals T t sums = Some sums' \<and> length sums' = length sums \<and>
     (\<forall>k \<in> (if omp_begin (asize vals) T t < omp_end (asize vals) T t then {nat t} else {}).
        sums' ! k = Some (combine p (slice vals (omp_begin (asize vals) T (int k))
          (omp_end (asize vals) T (int k))))) \<and>
     (\<forall>k. k \<notin> (if omp_begin (asize vals) T t < omp_end (asize vals) T t then {nat t} else {}) \<longrightarrow>
        sums' ! k = sums ! k)"
proof (cases "omp_begin (asize vals) T t < omp_end (asize vals) T t")
  case True
  note b = omp_block_bounds [OF assms(1-3), of vals]
  have "omp_first_phase p vals T t sums =
      Some (sums[nat t := Some (combine p (slice vals (omp_begin (asize vals) T t)
        (omp_end (asize vals) T t)))])"
    using True b assms
    by (simp add: omp_first_phase_def rd_Some omp_reduce_loop wr_def asize_def)
  then show ?thesis using True assms by auto
next
  case False
  then show ?thesis by (simp add: omp_first_phase_def)
qed

lemma omp_first_phases:
  assumes "0 < T" "T \<le> 512" "set sched = {0..<T}"
  shows "\<exists>sums. run_for sched (omp_first_phase p vals T) (fresh 512) = Some sums \<and>
     length sums = 512 \<and>
     (\<forall>t. 0 \<le> t \<and> t < T \<and> omp_begin (asize vals) T t < omp_end (asize vals) T t \<longrightarrow>
        sums ! nat t = Some (combine p (slice vals (omp_begin (asize vals) T t)
          (omp_end (asize vals) T t))))"
proof -
  let ?R = "\<lambda>t. if omp_begin (asize vals) T t < omp_end (asize vals) T t then {nat t} else {}"
  let ?V = "\<lambda>k. Some (combine p (slice vals (omp_begin (asize vals) T (int k))
          (omp_end (asize vals) T (int k))))"
  have "\<exists>sums. run_for sched (omp_first_phase p vals T) (fresh 512) = Some sums \<and>
     length sums = 512 \<and> (\<forall>k \<in> \<Union>(?R ` set sched). sums ! k = ?V k) \<and>
     (\<forall>k. k \<notin> \<Union>(?R ` set sched) \<longrightarrow> sums ! k = fresh 512 ! k)"
  proof (rule run_for_regions)
    fix t and s :: "'a option list" assume t: "t \<in> set sched" and l: "length s = 512"
    have t': "0 \<le> t" "t < T" using t assms(3) by auto
    show "\<exists>s'. omp_first_phase p vals T t s = Some s' \<and> length s' = 512 \<and>
       (\<forall>k \<in> ?R t. s' ! k = ?V k) \<and> (\<forall>k. k \<notin> ?R t \<longrightarrow> s' ! k = s ! k)"
      using omp_first_phase_spec [OF assms(1) t', of s p vals] l assms(2) by simp
  qed simp
  then obtain sums where sums: "run_for sched (omp_first_phase p vals T) (fresh 512) = Some sums"
    "length sums = 512" "\<forall>k \<in> \<Union>(?R ` set sched). sums ! k = ?V k"
    by blast
  have "sums ! nat t = ?V (nat t)"
    if "0 \<le> t \<and> t < T \<and> omp_begin (asize vals) T t < omp_end (asize vals) T t" for t
    using that sums(3) assms(3) by auto
  then show ?thesis using sums(1,2) by auto
qed

text \<open>Adding up the sums of the blocks before a thread gives the combination of all inputs before it.\<close>

lemma omp_prefix_loop:
  assumes assoc: "\<And>x y z. p (p x y) z = p x (p y z)"
    and T: "0 < T" "T \<le> 512" and t: "0 < t" "t < T"
    and ne: "omp_begin (asize vals) T t < omp_end (asize vals) T t"
    and len: "length sums = 512"
    and sums: "\<And>s. 0 \<le> s \<Longrightarrow> s < T \<Longrightarrow>
      omp_begin (asize vals) T s < omp_end (asize vals) T s \<Longrightarrow>
      sums ! nat s = Some (combine p (slice vals (omp_begin (asize vals) T s)
        (omp_end (asize vals) T s)))"
  shows "do { s0 \<leftarrow> rd_cell sums 0;
              for_range 1 t (\<lambda>i s. do { x \<leftarrow> rd_cell sums i; Some (p s x) }) s0 } =
    Some (combine p (slice vals 0 (omp_begin (asize vals) T t)))"
proof -
  let ?b = "\<lambda>s. omp_begin (asize vals) T s"
  have next_b: "omp_end (asize vals) T s = ?b (s + 1)" if "0 \<le> s" for s
    using omp_end_next T that by simp
  have ne': "?b s < ?b (s + 1)" if "0 \<le> s" "s < t" for s
    using omp_blocks_nonempty [of "asize vals" T s t] that T t ne next_b [of t] by simp
  have cell: "rd_cell sums s = Some (combine p (slice vals (?b s) (?b (s + 1))))"
    if "0 \<le> s" "s < t" for s
  proof -
    have "rd_cell sums s = sums ! nat s"
      using that T t len by (simp add: rd_cell_def rd_def asize_def)
    then show ?thesis using sums [of s] ne' [OF that] that t by (simp add: next_b)
  qed
  have b0: "?b 0 = 0" using T by (simp add: omp_begin_0)
  have bT: "?b s \<le> asize vals" if "0 \<le> s" "s \<le> T" for s
    using omp_begin_mono [of "asize vals" T s T] omp_begin_last [of "asize vals" T] that T by simp
  have "\<exists>s. for_range 1 t (\<lambda>i s. do { x \<leftarrow> rd_cell sums i; Some (p s x) })
        (combine p (slice vals 0 (?b 1))) = Some s \<and> s = combine p (slice vals 0 (?b t))"
  proof (rule for_range_rule [where P = "\<lambda>i s. s = combine p (slice vals 0 (?b i))"])
    fix i s assume i: "1 \<le> i" "i < t" and s: "s = combine p (slice vals 0 (?b i))"
    have "0 < ?b i"
      using ne' [of 0] omp_begin_mono [of "asize vals" T 1 i] i t T b0 by simp
    moreover have "?b i < ?b (i + 1)" using ne' i by simp
    moreover have "?b (i + 1) \<le> asize vals" using bT i t by simp
    ultimately have
      "combine p (slice vals 0 (?b (i + 1))) =
       p (combine p (slice vals 0 (?b i))) (combine p (slice vals (?b i) (?b (i + 1))))"
      using combine_append [OF assoc, of "slice vals 0 (?b i)" "slice vals (?b i) (?b (i + 1))"]
      by (simp add: slice_append slice_nonempty)
    then show "\<exists>s'. do { x \<leftarrow> rd_cell sums i; Some (p s x) } = Some s' \<and>
        s' = combine p (slice vals 0 (?b (i + 1)))"
      using cell [of i] i s by simp
  qed (use t in simp_all)
  then show ?thesis using cell [of 0] t b0 by simp
qed

lemma omp_second_phase_spec:
  assumes assoc: "\<And>x y z. p (p x y) z = p x (p y z)"
    and T: "0 < T" "T \<le> 512" and t: "0 \<le> t" "t < T"
    and len: "length sums = 512"
    and sums: "\<And>s. 0 \<le> s \<Longrightarrow> s < T \<Longrightarrow>
      omp_begin (asize vals) T s < omp_end (asize vals) T s \<Longrightarrow>
      sums ! nat s = Some (combine p (slice vals (omp_begin (asize vals) T s)
        (omp_end (asize vals) T s)))"
    and res: "0 \<le> result" "result + asize vals \<le> int m" "length out = m"
  shows "\<exists>w. omp_second_phase p vals T sums result t out = Some w \<and> length w = m \<and>
     (\<forall>k \<in> {nat (result + omp_begin (asize vals) T t)..<nat (result + omp_end (asize vals) T t)}.
        w ! k = Some (scan_list p vals ! (k - nat result))) \<and>
     (\<forall>k. k \<notin> {nat (result + omp_begin (asize vals) T t)..<nat (result + omp_end (asize vals) T t)} \<longrightarrow>
        w ! k = out ! k)"
proof (cases "omp_begin (asize vals) T t < omp_end (asize vals) T t")
  case False
  then show ?thesis using res by (simp add: omp_second_phase_def)
next
  case True
  let ?b = "omp_begin (asize vals) T t" and ?e = "omp_end (asize vals) T t"
  let ?S = "\<lambda>i. combine p (slice vals 0 (i + 1))"
  note bnd = omp_block_bounds [OF T(1) t, of vals]
  have S_scan: "?S i = scan_list p vals ! nat i" if "0 \<le> i" "i < asize vals" for i
  proof -
    have "nat (i + 1) = Suc (nat i)" using that by simp
    then show ?thesis using that by (simp add: slice_0 scan_list_combine asize_def)
  qed
  have start: "(if t \<noteq> 0 then do {
                s0 \<leftarrow> rd_cell sums 0;
                s1 \<leftarrow> for_range 1 t (\<lambda>i s. do { x \<leftarrow> rd_cell sums i; Some (p s x) }) s0;
                x \<leftarrow> rd vals ?b;
                Some (p s1 x)
              } else rd vals ?b) = Some (?S ?b)"
  proof (cases "t = 0")
    case True
    then show ?thesis using \<open>?b < ?e\<close> bnd T
      using slice_single [of 0 vals] by (simp add: omp_begin_0 rd_Some combine_def)
  next
    case False
    have "do { s0 \<leftarrow> rd_cell sums 0; s1 \<leftarrow> for_range 1 t
            (\<lambda>i s. do { x \<leftarrow> rd_cell sums i; Some (p s x) }) s0; x \<leftarrow> rd vals ?b; Some (p s1 x) } =
          do { s1 \<leftarrow> do { s0 \<leftarrow> rd_cell sums 0; for_range 1 t
            (\<lambda>i s. do { x \<leftarrow> rd_cell sums i; Some (p s x) }) s0 }; x \<leftarrow> rd vals ?b; Some (p s1 x) }"
      by (simp add: Option.bind_assoc)
    also have "\<dots> = do { x \<leftarrow> rd vals ?b; Some (p (combine p (slice vals 0 ?b)) x) }"
      using omp_prefix_loop [OF assoc T _ t(2) True len sums] False t by simp
    also have "\<dots> = Some (?S ?b)"
    proof -
      have "omp_begin (asize vals) T 0 < omp_begin (asize vals) T (0 + 1)"
        using omp_blocks_nonempty [of "asize vals" T 0 t] T t True by (simp add: omp_end_next)
      then have "0 < ?b"
        using omp_begin_mono [of "asize vals" T 1 t] T t False by (simp add: omp_begin_0)
      then show ?thesis
        using True bnd by (simp add: rd_Some slice_snoc combine_snoc slice_nonempty)
    qed
    finally show ?thesis using False by simp
  qed
  let ?f = "\<lambda>i (s, out). do { x \<leftarrow> rd vals i; let s = p s x;
               out \<leftarrow> wr out (result + i) (Some s); Some (s, out) }"
  let ?o = "out[nat (result + ?b) := Some (?S ?b)]"
  let ?P = "\<lambda>i (s, w). s = ?S (i - 1) \<and> length w = m \<and>
     (\<forall>k. nat (result + ?b) \<le> k \<and> k < nat (result + i) \<longrightarrow> w ! k = Some (scan_list p vals ! (k - nat result))) \<and>
     (\<forall>k. k < nat (result + ?b) \<or> nat (result + i) \<le> k \<longrightarrow> w ! k = out ! k)"
  have w0: "wr out (result + ?b) (Some (?S ?b)) = Some ?o"
    using True bnd res by (simp add: wr_def asize_def)
  have "\<exists>s. for_range (?b + 1) ?e ?f (?S ?b, ?o) = Some s \<and> ?P ?e s"
  proof (rule for_range_rule [where P = ?P])
    have "nat (result + ?b) < m" using True bnd res by simp
    then show "?P (?b + 1) (?S ?b, ?o)"
      using True bnd res S_scan [of ?b] by (auto simp: nth_list_update nat_add_distrib less_Suc_eq)
    fix i s assume i: "?b + 1 \<le> i" "i < ?e" and P: "?P i s"
    obtain v w where s: "s = (v, w)" by force
    have i': "0 < i" "i < asize vals" using i bnd by simp_all
    have v: "p v (vals ! nat i) = ?S i"
      using P s i' slice_snoc [of 0 i vals] slice_nonempty [of 0 i vals] by (simp add: combine_snoc)
    have "wr w (result + i) (Some (?S i)) = Some (w[nat (result + i) := Some (?S i)])"
      using P s i' res by (simp add: wr_def asize_def)
    then have "?f i s = Some (?S i, w[nat (result + i) := Some (?S i)])"
      using s i' v by (simp add: rd_Some Let_def)
    moreover have "?P (i + 1) (?S i, w[nat (result + i) := Some (?S i)])"
      using P s i i' res S_scan [of i] bnd
      by (auto simp: nth_list_update nat_add_distrib less_Suc_eq)
    ultimately show "\<exists>s'. ?f i s = Some s' \<and> ?P (i + 1) s'" by blast
  qed (use True in simp)
  then obtain v w where vw: "for_range (?b + 1) ?e ?f (?S ?b, ?o) = Some (v, w)" "?P ?e (v, w)"
    by auto
  have "omp_second_phase p vals T sums result t out = Some w"
    unfolding omp_second_phase_def Let_def [of "omp_begin _ _ _"] Let_def [of "omp_end _ _ _"]
    using True start w0 vw(1) by simp
  then show ?thesis using vw(2) by auto
qed

lemma omp_scan_spec:
  assumes assoc: "\<And>x y z. p (p x y) z = p x (p y z)"
    and T: "0 < T" "T \<le> 512"
    and sched: "set sched1 = {0..<T}" "set sched2 = {0..<T}"
    and res: "0 \<le> result" "result + asize vals \<le> asize out"
  shows "\<exists>w. omp_inclusive_scan sched1 sched2 T p vals result out = Some w \<and>
    length w = length out \<and>
    (\<forall>k < length vals. w ! (nat result + k) = Some (scan_list p vals ! k)) \<and>
    (\<forall>k. k < nat result \<or> nat result + length vals \<le> k \<longrightarrow> w ! k = out ! k)"
proof (cases "vals = []")
  case True
  then show ?thesis by (simp add: omp_inclusive_scan_def)
next
  case False
  obtain sums where sums: "run_for sched1 (omp_first_phase p vals T) (fresh 512) = Some sums"
    "length sums = 512"
    "\<And>t. 0 \<le> t \<Longrightarrow> t < T \<Longrightarrow> omp_begin (asize vals) T t < omp_end (asize vals) T t \<Longrightarrow>
        sums ! nat t = Some (combine p (slice vals (omp_begin (asize vals) T t)
          (omp_end (asize vals) T t)))"
    using omp_first_phases [OF T sched(1), of p vals] by blast
  let ?R = "\<lambda>t. {nat (result + omp_begin (asize vals) T t)..<nat (result + omp_end (asize vals) T t)}"
  let ?V = "\<lambda>k. Some (scan_list p vals ! (k - nat result))"
  have "\<exists>w. run_for sched2 (omp_second_phase p vals T sums result) out = Some w \<and>
     length w = length out \<and> (\<forall>k \<in> \<Union>(?R ` set sched2). w ! k = ?V k) \<and>
     (\<forall>k. k \<notin> \<Union>(?R ` set sched2) \<longrightarrow> w ! k = out ! k)"
  proof (rule run_for_regions)
    fix t and s :: "'a option list" assume t: "t \<in> set sched2" and l: "length s = length out"
    then have t': "0 \<le> t" "t < T" using sched(2) by auto
    have res': "result + asize vals \<le> int (length out)" using res(2) by (simp add: asize_def)
    show "\<exists>w. omp_second_phase p vals T sums result t s = Some w \<and> length w = length out \<and>
       (\<forall>k \<in> ?R t. w ! k = ?V k) \<and> (\<forall>k. k \<notin> ?R t \<longrightarrow> w ! k = s ! k)"
      by (rule omp_second_phase_spec [OF assoc T t' sums(2) sums(3) res(1) res' l])
  qed simp
  then obtain w where w: "run_for sched2 (omp_second_phase p vals T sums result) out = Some w"
    "length w = length out" "\<forall>k \<in> \<Union>(?R ` set sched2). w ! k = ?V k"
    "\<forall>k. k \<notin> \<Union>(?R ` set sched2) \<longrightarrow> w ! k = out ! k"
    by blast
  have "w ! (nat result + k) = Some (scan_list p vals ! k)" if "k < length vals" for k
  proof -
    have "int k < asize vals" using that by (simp add: asize_def)
    then obtain t where t: "0 \<le> t" "t < T" "omp_begin (asize vals) T t \<le> int k"
      "int k < omp_begin (asize vals) T (t + 1)"
      using omp_block_of [of "asize vals" T "int k"] T by auto
    then have "int k < omp_end (asize vals) T t" using T by (simp add: omp_end_next)
    then have "nat (result + omp_begin (asize vals) T t) \<le> nat result + k"
      "nat result + k < nat (result + omp_end (asize vals) T t)"
      using t res(1) by linarith+
    then have "nat result + k \<in> ?R t" by simp
    then show ?thesis using w(3) t sched(2) by auto
  qed
  moreover have "w ! k = out ! k" if "k < nat result \<or> nat result + length vals \<le> k" for k
  proof -
    have "k \<notin> ?R t" if "t \<in> set sched2" for t
      using \<open>k < nat result \<or> nat result + length vals \<le> k\<close> that sched(2) res(1) T
        omp_block_bounds [OF T(1), of t vals] by (auto simp: asize_def)
    then show ?thesis using w(4) by blast
  qed
  moreover have "omp_inclusive_scan sched1 sched2 T p vals result out = Some w"
    using w(1) sums(1) False by (simp add: omp_inclusive_scan_def asize_def)
  ultimately show ?thesis using w(2) by blast
qed

section \<open>Offsets\<close>

text \<open>
  The offsets of consecutive groups of given sizes: \<open>offset_scan\<close> computes them, and in the OpenMP
  build it computes the same.
\<close>

definition offsets :: "int list \<Rightarrow> int list" where
  "offsets ds = map (\<lambda>k. sum_list (take k ds)) [0..<Suc (length ds)]"

lemma length_offsets [simp]: "length (offsets ds) = Suc (length ds)"
  by (simp add: offsets_def)

lemma asize_offsets [simp, arr_simps]: "asize (offsets ds) = asize ds + 1"
  by (simp add: asize_def)

lemma nth_offsets: "k \<le> length ds \<Longrightarrow> offsets ds ! k = sum_list (take k ds)"
  unfolding offsets_def by (simp del: upt_Suc)

lemma offsets_0 [simp]: "offsets ds ! 0 = 0"
  by (simp add: nth_offsets)

lemma offsets_Suc: "k < length ds \<Longrightarrow> offsets ds ! Suc k = offsets ds ! k + ds ! k"
  by (simp add: nth_offsets take_Suc_conv_app_nth)

lemma offsets_last: "offsets ds ! length ds = sum_list ds"
  by (simp add: nth_offsets)

lemma offsets_nonempty [simp]: "offsets ds \<noteq> []"
  by (metis length_offsets list.size(3) nat.distinct(1))

lemma rd_last_offsets [simp]: "rd_last (offsets ds) = Some (sum_list ds)"
  by (simp add: rd_last_conv last_conv_nth offsets_last)

lemma foldl_plus_sum: "foldl (+) (v::int) xs = v + sum_list xs"
  by (induction xs arbitrary: v) auto

lemma scan_list_plus: "k < length ds \<Longrightarrow> scan_list (+) ds ! k = sum_list (take (Suc k) (ds::int list))"
  by (cases ds) (auto simp: nth_scan_list foldl_plus_sum simp del: scan_list.simps)

lemma offsets_of_scan:
  fixes a :: "int list"
  assumes "length w = Suc (length a)" "w ! 0 = Some 0"
    and "\<And>k. k < length a \<Longrightarrow> w ! Suc k = Some (scan_list (+) a ! k)"
  shows "freeze w = Some (offsets a)"
proof (rule freeze_eqI)
  fix k assume "k < length (offsets a)"
  then show "w ! k = Some (offsets a ! k)"
    using assms by (cases k) (auto simp: nth_offsets scan_list_plus)
qed (use assms in simp)

lemma offset_scan_eq: "offset_scan a = Some (offsets a)"
proof -
  let ?o = "(fresh (asize a + 1))[0 := Some (0::int)]"
  have "wr (fresh (asize a + 1)) 0 (Some 0) = Some ?o"
    by (simp add: wr_def)
  moreover obtain w where "inclusive_scan a 1 ?o = Some w" "length w = length ?o"
    "\<forall>k < length a. w ! (nat 1 + k) = Some (scan_list (+) a ! k)"
    "\<forall>k. k < nat 1 \<or> nat 1 + length a \<le> k \<longrightarrow> w ! k = ?o ! k"
  proof -
    have "\<exists>w. transform_inclusive_scan (int (length a)) (\<lambda>_ i. rd a i) 1 (+) Some ?o = Some w \<and>
      length w = length ?o \<and>
      (\<forall>k < length a. w ! (nat 1 + k) = Some (scan_list (+) a ! k)) \<and>
      (\<forall>k. k < nat 1 \<or> nat 1 + length a \<le> k \<longrightarrow> w ! k = ?o ! k)"
      by (rule transform_inclusive_scan_spec) (simp_all add: asize_def)
    then show ?thesis using that by (auto simp: inclusive_scan_transform asize_def)
  qed
  moreover from this have "freeze w = Some (offsets a)"
    by (intro offsets_of_scan) (auto simp: asize_def nat_add_distrib)
  ultimately show ?thesis by (simp add: offset_scan_def)
qed

definition omp_offset_scan :: "lo list \<Rightarrow> lo list \<Rightarrow> lo \<Rightarrow> int list \<Rightarrow> lo list option" where
  "omp_offset_scan sched1 sched2 num_threads a = do {
     out \<leftarrow> wr (fresh (asize a + 1)) 0 (Some 0);
     out \<leftarrow> omp_inclusive_scan sched1 sched2 num_threads (+) a 1 out;
     freeze out
   }"

lemma omp_offset_scan_eq:
  assumes "0 < T" "T \<le> 512" "set sched1 = {0..<T}" "set sched2 = {0..<T}"
  shows "omp_offset_scan sched1 sched2 T a = Some (offsets a)"
proof -
  let ?o = "(fresh (asize a + 1))[0 := Some (0::int)]"
  have w0: "wr (fresh (asize a + 1)) 0 (Some 0) = Some ?o"
    by (simp add: wr_def)
  obtain w where w: "omp_inclusive_scan sched1 sched2 T (+) a 1 ?o = Some w" "length w = length ?o"
    "\<forall>k < length a. w ! (nat 1 + k) = Some (scan_list (+) a ! k)"
    "\<forall>k. k < nat 1 \<or> nat 1 + length a \<le> k \<longrightarrow> w ! k = ?o ! k"
    using omp_scan_spec [of "(+)" T sched1 sched2 1 a ?o] assms by (auto simp: add.assoc)
  then have "freeze w = Some (offsets a)"
    by (intro offsets_of_scan) (auto simp: asize_def nat_add_distrib)
  with w0 w(1) show ?thesis by (simp add: omp_offset_scan_def)
qed

lemma fill_right_eq: "fill_right (map Some a) = Some (map Some (scan_list max a))"
proof -
  have "\<exists>w. transform_inclusive_scan (int (length a)) (\<lambda>out i. Option.bind (rd out i) (\<lambda>c. c)) 0 max Some
      (map Some a) = Some w \<and> length w = length (map Some a) \<and>
      (\<forall>k < length a. w ! (nat 0 + k) = Some (scan_list max a ! k)) \<and>
      (\<forall>k. k < nat 0 \<or> nat 0 + length a \<le> k \<longrightarrow> w ! k = map Some a ! k)"
  proof (rule transform_inclusive_scan_spec)
    fix i and w :: "int option list"
    assume "i < length a" "length w = length (map Some a)"
      "\<And>k. nat 0 + i \<le> k \<Longrightarrow> w ! k = map Some a ! k"
    then have "rd w (int i) = Some (Some (a ! i))" by simp
    then show "Option.bind (Option.bind (rd w (int i)) (\<lambda>c. c)) Some = Some (a ! i)" by simp
  qed (simp_all add: asize_def)
  then obtain w where w: "fill_right (map Some a) = Some w" "length w = length a"
    "\<forall>k < length a. w ! k = Some (scan_list max a ! k)"
    by (auto simp: fill_right_def asize_def)
  then have "w = map Some (scan_list max a)" by (intro nth_equalityI) auto
  with w(1) show ?thesis by simp
qed

section \<open>Properties\<close>

text \<open>C13. \<open>offset_scan\<close> computes the offsets of consecutive groups from their sizes: entry \<open>k\<close> of the
  result is the sum of the first \<open>k\<close> sizes and the last entry is the total.  The OpenMP version
  computes the same array for every number of threads up to the limit of 512 and every order in which
  the threads execute the two phases around the barrier.  Sums are mathematical integers: the arrays are
  those of the code as long as no total leaves the range of its 32 bits.\<close>

theorem offset_scan_prefix_sums:
  assumes "0 < num_threads" "num_threads \<le> 512"
    and "set sched1 = {0..<num_threads}" "set sched2 = {0..<num_threads}"
  shows "\<exists>out. offset_scan a = Some out \<and>
    omp_offset_scan sched1 sched2 num_threads a = Some out \<and>
    length out = Suc (length a) \<and> (\<forall>k \<le> length a. out ! k = sum_list (take k a))"
  by (intro exI [of _ "offsets a"]) (simp add: offset_scan_eq omp_offset_scan_eq [OF assms] nth_offsets)

theorem offset_scan_prefix_sums_witness:
  "omp_offset_scan [2, 0, 1] [1, 0, 2] 3 [4, 0, 2, 7, 1] = Some [0, 4, 4, 6, 13, 14]"
proof -
  have "offset_scan [4, 0, 2, 7, 1] = Some [0, 4, 4, 6, 13, 14]" by code_simp
  moreover have "set [2, 0, 1] = {0..<(3::int)}" "set [1, 0, 2] = {0..<(3::int)}" by auto
  ultimately show ?thesis
    using offset_scan_prefix_sums [of 3 "[2, 0, 1]" "[1, 0, 2]" "[4, 0, 2, 7, 1]"] by auto
qed

text \<open>C25. \<open>fill_right\<close>, which scans an array onto itself, leaves in every cell the maximum of the
  values the array held up to this cell.\<close>

theorem fill_right_running_max:
  assumes "a \<noteq> []"
  shows "\<exists>out. fill_right (map Some a) = Some (map Some out) \<and> length out = length a \<and>
    (\<forall>k < length a. out ! k = Max (set (take (Suc k) a)))"
proof -
  have fold: "foldl max v xs = Max (insert v (set xs))" for v :: int and xs
  proof -
    have "(\<lambda>x s. max s x) = (max :: int \<Rightarrow> int \<Rightarrow> int)" by (intro ext) (rule max.commute)
    then have "foldl max v xs = fold max xs v" by (simp add: foldl_conv_fold)
    then show ?thesis by (simp add: Max.set_eq_fold [symmetric])
  qed
  show ?thesis
    using assms
    by (intro exI [of _ "scan_list max a"]) (auto simp: fill_right_eq nth_scan_list fold neq_Nil_conv)
qed

theorem fill_right_running_max_witness:
  "fill_right [Some 0, Some (- 1), Some 3, Some (- 1)] = Some [Some 0, Some 0, Some 3, Some 3]"
proof -
  have "fill_right (map Some [0, - 1, 3, - 1]) = Some [Some 0, Some 0, Some 3, Some 3]" by code_simp
  then show ?thesis using fill_right_running_max [of "[0, - 1, 3, - 1]"] by simp
qed

end
