(* ===== verification/Array_Ops.thy ===== *)
theory Array_Ops
  imports Omega_Prelude "HOL-Library.Word"
begin

text \<open>
  Whole-array operations (\<open>src/src/Omega_h_array_ops.cpp\<close>) over mathematical integers: the
  instances for \<open>I8\<close>, \<open>I32\<close> and \<open>I64\<close> compute the same as long as no value leaves the type's
  range; \<open>lo_min\<close> and \<open>lo_max\<close> are the range of \<open>LO\<close>.  Flags (\<open>Bytes\<close>) are integers, 0 and 1.  The
  operations on \<open>Real\<close> alone (closeness, powers, reproducible sums) are not modelled.  The lemmas
  give every operation as a function of the lists; \<open>coalesce\<close> has the defect described at its
  definition.
\<close>

unbundle bit_operations_syntax

definition lo_max :: int where "lo_max = 2147483647"

definition lo_min :: int where "lo_min = - 2147483648"

section \<open>Reductions\<close>

definition transform_reduce :: "lo \<Rightarrow> 'r \<Rightarrow> ('r \<Rightarrow> 'b \<Rightarrow> 'r) \<Rightarrow> (lo \<Rightarrow> 'b option) \<Rightarrow> 'r option" where
  "transform_reduce n init p transform =
     for_range 0 n (\<lambda>i init. do { x \<leftarrow> transform i; Some (p init x) }) init"

definition array_eq :: "'a list \<Rightarrow> 'a list \<Rightarrow> bool option" where
  "array_eq a b = do {
     omega_check (asize a = asize b);
     transform_reduce (asize a) True (\<and>) (\<lambda>i. do { x \<leftarrow> rd a i; y \<leftarrow> rd b i; Some (x = y) })
   }"

definition get_sum :: "int list \<Rightarrow> int option" where
  "get_sum a = transform_reduce (asize a) 0 (+) (rd a)"

definition get_min :: "int list \<Rightarrow> int option" where
  "get_min a = transform_reduce (asize a) lo_max min (rd a)"

definition get_max :: "int list \<Rightarrow> int option" where
  "get_max a = transform_reduce (asize a) lo_min max (rd a)"

definition find_last :: "'a list \<Rightarrow> 'a \<Rightarrow> lo option" where
  "find_last array value =
     transform_reduce (asize array) (- 1) max
       (\<lambda>i. do { x \<leftarrow> rd array i; Some (if x = value then i else - 1) })"

definition is_sorted :: "int list \<Rightarrow> bool option" where
  "is_sorted a =
     (if asize a < 2 then Some True
      else transform_reduce (asize a - 1) True (\<and>)
             (\<lambda>i. do { x \<leftarrow> rd a i; y \<leftarrow> rd a (i + 1); Some (x \<le> y) }))"

lemma transform_reduce_eq:
  assumes "\<And>k. k < n \<Longrightarrow> t (int k) = Some (h k)"
  shows "transform_reduce (int n) init p t = Some (foldl p init (map h [0..<n]))"
proof -
  let ?f = "\<lambda>i r. do { x \<leftarrow> t i; Some (p r x) }"
  have "\<exists>r. for_range 0 (int n) ?f init = Some r \<and> r = foldl p init (map h [0..<nat (int n)])"
  proof (rule for_range_rule [where P = "\<lambda>i r. r = foldl p init (map h [0..<nat i])"])
    fix i r assume "0 \<le> i" "i < int n" "r = foldl p init (map h [0..<nat i])"
    then show "\<exists>s'. ?f i r = Some s' \<and> s' = foldl p init (map h [0..<nat (i + 1)])"
      using assms [of "nat i"] by (simp add: nat_add_distrib)
  qed simp_all
  then show ?thesis by (simp add: transform_reduce_def)
qed

lemma transform_reduce_array:
  "transform_reduce (asize a) init p (rd a) = Some (foldl p init a)"
  using transform_reduce_eq [of "length a" "rd a" "\<lambda>k. a ! k" init p]
  by (simp add: asize_def map_nth)

lemma foldl_conj: "foldl (\<and>) b bs = (b \<and> list_all (\<lambda>x. x) bs)"
  by (induction bs arbitrary: b) auto

lemma array_eq_spec:
  assumes "length a = length b"
  shows "array_eq a b = Some (a = b)"
proof -
  have "transform_reduce (int (length a)) True (\<and>) (\<lambda>i. do { x \<leftarrow> rd a i; y \<leftarrow> rd b i; Some (x = y) }) =
      Some (foldl (\<and>) True (map (\<lambda>k. a ! k = b ! k) [0..<length a]))"
    using assms by (intro transform_reduce_eq) simp
  moreover have "list_all (\<lambda>x. x) (map (\<lambda>k. a ! k = b ! k) [0..<length a]) = (a = b)"
    using assms by (auto simp: list_all_iff intro: nth_equalityI)
  ultimately show ?thesis
    unfolding array_eq_def using assms by (simp only: asize_def foldl_conj) simp
qed

lemma get_sum_spec: "get_sum a = Some (sum_list a)"
proof -
  have "foldl (+) v a = v + sum_list a" for v by (induction a arbitrary: v) auto
  then show ?thesis by (simp add: get_sum_def transform_reduce_array)
qed

lemma foldl_min: "foldl min v (xs::int list) = (if xs = [] then v else min v (Min (set xs)))"
proof (induction xs arbitrary: v)
  case (Cons x xs)
  then show ?case by (cases "xs = []") (auto simp: min.assoc)
qed simp

lemma foldl_max: "foldl max v (xs::int list) = (if xs = [] then v else max v (Max (set xs)))"
proof (induction xs arbitrary: v)
  case (Cons x xs)
  then show ?case by (cases "xs = []") (auto simp: max.assoc)
qed simp

lemma get_min_spec:
  assumes "a \<noteq> []" "\<forall>x \<in> set a. x \<le> lo_max"
  shows "get_min a = Some (Min (set a))"
proof -
  have "Min (set a) \<le> lo_max" using assms by (meson List.finite_set Min_in set_empty)
  with assms show ?thesis by (simp add: get_min_def transform_reduce_array foldl_min)
qed

lemma get_max_spec:
  assumes "a \<noteq> []" "\<forall>x \<in> set a. lo_min \<le> x"
  shows "get_max a = Some (Max (set a))"
proof -
  have "lo_min \<le> Max (set a)" using assms by (meson List.finite_set Max_in set_empty)
  with assms show ?thesis by (simp add: get_max_def transform_reduce_array foldl_max)
qed

lemma is_sorted_spec: "is_sorted a = Some (sorted a)"
proof (cases "asize a < 2")
  case True
  then have "length a < 2" by (simp add: asize_def)
  then have "sorted a" by (cases a) auto
  then show ?thesis using True by (simp add: is_sorted_def)
next
  case False
  let ?n = "length a - 1"
  have n: "asize a - 1 = int ?n" using False by (simp add: asize_def)
  have "transform_reduce (int ?n) True (\<and>) (\<lambda>i. do { x \<leftarrow> rd a i; y \<leftarrow> rd a (i + 1); Some (x \<le> y) }) =
      Some (foldl (\<and>) True (map (\<lambda>k. a ! k \<le> a ! Suc k) [0..<?n]))"
  proof (rule transform_reduce_eq)
    fix k assume "k < ?n"
    then show "do { x \<leftarrow> rd a (int k); y \<leftarrow> rd a (int k + 1); Some (x \<le> y) } =
        Some (a ! k \<le> a ! Suc k)"
      using rd_int [of "Suc k" a] by (simp add: add.commute)
  qed
  then show ?thesis
    using False n by (auto simp: is_sorted_def foldl_conj list_all_iff sorted_iff_nth_Suc)
qed

lemma foldl_max_last:
  "foldl max (- 1) (map (\<lambda>k. if P k then int k else - 1) [0..<n]) =
   (if \<exists>k < n. P k then int (Max {k. k < n \<and> P k}) else - 1)"
proof (induction n)
  case (Suc n)
  have split: "{k. k < Suc n \<and> P k} = (if P n then insert n {k. k < n \<and> P k} else {k. k < n \<and> P k})"
    by (auto simp: less_Suc_eq)
  show ?case
  proof (cases "P n")
    case True
    have "Max (insert n {k. k < n \<and> P k}) = n" by (intro Max_eqI) auto
    moreover have "foldl max (- 1) (map (\<lambda>k. if P k then int k else - 1) [0..<n]) \<le> int n"
      using Suc.IH by (auto intro: less_imp_le)
    ultimately show ?thesis using True split by auto
  next
    case False
    then show ?thesis using Suc.IH split by (auto simp: less_Suc_eq max_def)
  qed
qed simp

lemma find_last_spec:
  "find_last a v =
     Some (if v \<in> set a then int (Max {k. k < length a \<and> a ! k = v}) else - 1)"
proof -
  have "transform_reduce (int (length a)) (- 1) max
      (\<lambda>i. do { x \<leftarrow> rd a i; Some (if x = v then i else - 1) }) =
      Some (foldl max (- 1) (map (\<lambda>k. if a ! k = v then int k else - 1) [0..<length a]))"
    by (intro transform_reduce_eq) simp
  then show ?thesis by (auto simp: find_last_def asize_def foldl_max_last in_set_conv_nth)
qed

section \<open>Elementwise operations\<close>

text \<open>
  \<open>map_each\<close> and \<open>zip_each\<close> are the loop that most functions of the file write out: allocate the
  result, compute cell \<open>i\<close> from cell \<open>i\<close> of the operands.
\<close>

definition map_each :: "('a \<Rightarrow> 'b) \<Rightarrow> 'a list \<Rightarrow> 'b list option" where
  "map_each f a = fill_each (asize a) (\<lambda>i. do { x \<leftarrow> rd a i; Some (f x) })"

definition zip_each :: "('a \<Rightarrow> 'b \<Rightarrow> 'c) \<Rightarrow> 'a list \<Rightarrow> 'b list \<Rightarrow> 'c list option" where
  "zip_each f a b = do {
     omega_check (asize a = asize b);
     fill_each (asize a) (\<lambda>i. do { x \<leftarrow> rd a i; y \<leftarrow> rd b i; Some (f x y) })
   }"

lemma map_each_eq [simp]: "map_each f a = Some (map f a)"
  unfolding map_each_def by (rule fill_each_map) simp_all

lemma zip_each_eq:
  "zip_each f a b = (if length a = length b then Some (map2 f a b) else None)"
proof (cases "length a = length b")
  case True
  have "fill_each (asize a) (\<lambda>i. do { x \<leftarrow> rd a i; y \<leftarrow> rd b i; Some (f x y) }) =
      Some (map (\<lambda>k. f (a ! k) (b ! k)) [0..<nat (asize a)])"
    using True by (intro fill_each_Some) (simp_all add: asize_def)
  also have "map (\<lambda>k. f (a ! k) (b ! k)) [0..<nat (asize a)] = map2 f a b"
    using True by (intro nth_equalityI) (auto simp: asize_def)
  finally show ?thesis using True by (simp add: zip_each_def asize_def)
qed (simp add: zip_each_def asize_def)

definition multiply_each_by :: "int list \<Rightarrow> int \<Rightarrow> int list option" where
  "multiply_each_by a b = map_each (\<lambda>x. x * b) a"

definition divide_each_by :: "int list \<Rightarrow> int \<Rightarrow> int list option" where
  "divide_each_by a b =
     fill_each (asize a) (\<lambda>i. do { x \<leftarrow> rd a i; if b = 0 then None else Some (x sdiv b) })"

definition add_each :: "int list \<Rightarrow> int list \<Rightarrow> int list option" where
  "add_each a b = zip_each (+) a b"

definition subtract_each :: "int list \<Rightarrow> int list \<Rightarrow> int list option" where
  "subtract_each a b = zip_each (-) a b"

definition add_to_each :: "int list \<Rightarrow> int \<Rightarrow> int list option" where
  "add_to_each a b = map_each (\<lambda>x. x + b) a"

definition subtract_from_each :: "int list \<Rightarrow> int \<Rightarrow> int list option" where
  "subtract_from_each a b = map_each (\<lambda>x. x - b) a"

definition each_geq_to :: "int list \<Rightarrow> int \<Rightarrow> int list option" where
  "each_geq_to a b = map_each (\<lambda>x. of_bool (x \<ge> b)) a"

definition each_leq_to :: "int list \<Rightarrow> int \<Rightarrow> int list option" where
  "each_leq_to a b = map_each (\<lambda>x. of_bool (x \<le> b)) a"

definition each_gt :: "int list \<Rightarrow> int \<Rightarrow> int list option" where
  "each_gt a b = map_each (\<lambda>x. of_bool (x > b)) a"

definition each_lt :: "int list \<Rightarrow> int \<Rightarrow> int list option" where
  "each_lt a b = map_each (\<lambda>x. of_bool (x < b)) a"

definition gt_each :: "int list \<Rightarrow> int list \<Rightarrow> int list option" where
  "gt_each a b = zip_each (\<lambda>x y. of_bool (x > y)) a b"

definition lt_each :: "int list \<Rightarrow> int list \<Rightarrow> int list option" where
  "lt_each a b = zip_each (\<lambda>x y. of_bool (x < y)) a b"

definition eq_each :: "int list \<Rightarrow> int list \<Rightarrow> int list option" where
  "eq_each a b = zip_each (\<lambda>x y. of_bool (x = y)) a b"

definition neq_each :: "int list \<Rightarrow> int list \<Rightarrow> int list option" where
  "neq_each a b = zip_each (\<lambda>x y. of_bool (x \<noteq> y)) a b"

definition geq_each :: "int list \<Rightarrow> int list \<Rightarrow> int list option" where
  "geq_each a b = zip_each (\<lambda>x y. of_bool (x \<ge> y)) a b"

definition min_each :: "int list \<Rightarrow> int list \<Rightarrow> int list option" where
  "min_each a b = zip_each min a b"

definition max_each :: "int list \<Rightarrow> int list \<Rightarrow> int list option" where
  "max_each a b = zip_each max a b"

definition ternary_each :: "int list \<Rightarrow> 'a list \<Rightarrow> 'a list \<Rightarrow> 'a list option" where
  "ternary_each cond a b = do {
     omega_check (asize a = asize b);
     width \<leftarrow> divide_no_remainder (asize a) (asize cond);
     fill_each (asize a) (\<lambda>i. do {
       c \<leftarrow> (if width = 0 then None else rd cond (i sdiv width));
       if c \<noteq> 0 then rd a i else rd b i
     })
   }"

definition each_max_with :: "int list \<Rightarrow> int \<Rightarrow> int list option" where
  "each_max_with a b = map_each (\<lambda>x. max x b) a"

definition each_neq_to :: "int list \<Rightarrow> int \<Rightarrow> int list option" where
  "each_neq_to a b = map_each (\<lambda>x. of_bool (x \<noteq> b)) a"

definition each_eq :: "int list \<Rightarrow> int list \<Rightarrow> int list option" where
  "each_eq a b = zip_each (\<lambda>x y. of_bool (x = y)) a b"

definition each_eq_to :: "int list \<Rightarrow> int \<Rightarrow> int list option" where
  "each_eq_to a b = map_each (\<lambda>x. of_bool (x = b)) a"

definition land_each :: "int list \<Rightarrow> int list \<Rightarrow> int list option" where
  "land_each a b = zip_each (\<lambda>x y. of_bool (x \<noteq> 0 \<and> y \<noteq> 0)) a b"

definition lor_each :: "int list \<Rightarrow> int list \<Rightarrow> int list option" where
  "lor_each a b = zip_each (\<lambda>x y. of_bool (x \<noteq> 0 \<or> y \<noteq> 0)) a b"

definition bit_or_each :: "int list \<Rightarrow> int list \<Rightarrow> int list option" where
  "bit_or_each a b = zip_each (OR) a b"

definition bit_neg_each :: "int list \<Rightarrow> int list option" where
  "bit_neg_each a = map_each (\<lambda>x. NOT x) a"

lemmas elementwise_defs =
  multiply_each_by_def add_each_def subtract_each_def add_to_each_def subtract_from_each_def
  each_geq_to_def each_leq_to_def each_gt_def each_lt_def gt_each_def lt_each_def eq_each_def
  neq_each_def geq_each_def min_each_def max_each_def each_max_with_def each_neq_to_def each_eq_def
  each_eq_to_def land_each_def lor_each_def bit_or_each_def bit_neg_each_def

section \<open>Operations on rows\<close>

definition multiply_each :: "int list \<Rightarrow> int list \<Rightarrow> int list option" where
  "multiply_each a b =
     (if asize b = 0 then do {
        omega_check (asize a = 0);
        freeze (fresh (asize a))
      } else do {
        width \<leftarrow> divide_no_remainder (asize a) (asize b);
        c \<leftarrow> parallel_for (asize b) (\<lambda>i. for_range 0 width (\<lambda>j c. do {
          x \<leftarrow> rd a (i * width + j);
          y \<leftarrow> rd b i;
          wr c (i * width + j) (Some (x * y))
        })) (fresh (asize a));
        freeze c
      })"

definition divide_each :: "int list \<Rightarrow> int list \<Rightarrow> int list option" where
  "divide_each a b = do {
     width \<leftarrow> divide_no_remainder (asize a) (asize b);
     c \<leftarrow> parallel_for (asize b) (\<lambda>i. for_range 0 width (\<lambda>j c. do {
       x \<leftarrow> rd a (i * width + j);
       y \<leftarrow> rd b i;
       q \<leftarrow> (if y = 0 then None else Some (x sdiv y));
       wr c (i * width + j) (Some q)
     })) (fresh (asize a));
     freeze c
   }"

definition concat_arrays :: "'a list \<Rightarrow> 'a list \<Rightarrow> 'a list option" where
  "concat_arrays a b = do {
     c \<leftarrow> parallel_for (asize a) (\<lambda>i c. do { x \<leftarrow> rd a i; wr c i (Some x) })
            (fresh (asize a + asize b));
     c \<leftarrow> parallel_for (asize b) (\<lambda>i c. do { x \<leftarrow> rd b i; wr c (i + asize a) (Some x) }) c;
     freeze c
   }"

definition get_component :: "'a list \<Rightarrow> lo \<Rightarrow> lo \<Rightarrow> 'a list option" where
  "get_component a ncomps component = do {
     n \<leftarrow> divide_no_remainder (asize a) ncomps;
     fill_each n (\<lambda>i. rd a (i * ncomps + component))
   }"

definition set_component :: "'a option list \<Rightarrow> 'a list \<Rightarrow> lo \<Rightarrow> lo \<Rightarrow> 'a option list option" where
  "set_component out a ncomps component =
     parallel_for (asize a) (\<lambda>i out. do { x \<leftarrow> rd a i; wr out (i * ncomps + component) (Some x) }) out"

definition interleave :: "'a list list \<Rightarrow> 'a list option" where
  "interleave arrays =
     (if arrays = [] then Some [] else do {
        let narrays = asize arrays;
        let array_size = asize (hd arrays);
        omega_check (\<forall>array \<in> set arrays. asize array = array_size);
        let out_size = narrays * array_size;
        out \<leftarrow> for_range 0 narrays (\<lambda>i out. do {
          array \<leftarrow> rd arrays i;
          parallel_for array_size (\<lambda>j out. do {
            x \<leftarrow> rd array j;
            wr out (j * narrays + i) (Some x)
          }) out
        }) (fresh out_size);
        freeze out
      })"

definition coalesce_offsets :: "'a list list \<Rightarrow> lo list option" where
  "coalesce_offsets arrays =
     for_range 1 (asize arrays + 1) (\<lambda>i offsets. do {
       previous \<leftarrow> rd offsets (i - 1);
       array \<leftarrow> rd arrays i;
       wr offsets i (previous + asize array)
     }) (replicate (length arrays + 1) 0)"

definition coalesce :: "'a list list \<Rightarrow> 'a list option" where
  "coalesce arrays =
     (if arrays = [] then Some [] else do {
        offsets \<leftarrow> coalesce_offsets arrays;
        out_size \<leftarrow> rd offsets (asize arrays);
        out \<leftarrow> for_range 0 (asize arrays) (\<lambda>i out. do {
          array \<leftarrow> rd arrays i;
          offset \<leftarrow> rd offsets i;
          parallel_for (asize array) (\<lambda>j out. do {
            x \<leftarrow> rd array j;
            wr out (offset + j) (Some x)
          }) out
        }) (fresh out_size);
        freeze out
      })"

lemma divide_no_remainder_eq_Some_conv:
  "divide_no_remainder a b = Some q \<longleftrightarrow> b \<noteq> 0 \<and> a = q * b"
  by (auto simp: divide_no_remainder_def)

lemma row_of_cell:
  assumes "asize a = w * asize b" "k < length a" "0 < asize b"
  shows "0 < w" "0 \<le> int k div w" "int k div w < asize b"
proof -
  have "0 < w * asize b" using assms(1,2) by (simp add: asize_def)
  then show "0 < w" using assms(3) by (simp add: zero_less_mult_iff)
  then show "0 \<le> int k div w" by (simp add: pos_imp_zdiv_nonneg_iff)
  have "int k < asize b * w" using assms(1,2) by (simp add: asize_def algebra_simps)
  then show "int k div w < asize b"
    using \<open>0 < w\<close> by (intro div_less_rows)
qed

text \<open>Arrays of numbers per item times (or divided by) one number per item.\<close>

lemma rowwise_eq:
  assumes w: "asize a = w * asize b" and b: "0 < asize b"
    and q: "\<And>x y. x \<in> set a \<Longrightarrow> y \<in> set b \<Longrightarrow> op2 x y = Some (f x y)"
  shows "do {
     c \<leftarrow> parallel_for (asize b) (\<lambda>i. for_range 0 w (\<lambda>j c. do {
       x \<leftarrow> rd a (i * w + j); y \<leftarrow> rd b i; q \<leftarrow> op2 x y; wr c (i * w + j) (Some q) })) (fresh (asize a));
     freeze c } =
   Some (map (\<lambda>k. f (a ! k) (b ! nat (int k div w))) [0..<length a])"
proof -
  let ?h = "\<lambda>i j. f (a ! nat (i * w + j)) (b ! nat i)"
  have w0: "0 \<le> w" using w b by (metis asize_ge0 mult_le_0_iff not_less zero_le_mult_iff)
  have cell: "do { x \<leftarrow> rd a (i * w + j); y \<leftarrow> rd b i; op2 x y } = Some (?h i j)"
    if "0 \<le> i" "i < asize b" "0 \<le> j" "j < w" for i j
  proof -
    have "0 \<le> i * w + j \<and> i * w + j < asize a"
      using row_index_bound [of j w i "asize b"] that w by (simp add: mult.commute)
    then have "rd a (i * w + j) = Some (a ! nat (i * w + j))" "a ! nat (i * w + j) \<in> set a"
      by (simp_all add: rd_Some asize_def nat_less_iff)
    moreover have "rd b i = Some (b ! nat i)" "b ! nat i \<in> set b"
      using that by (simp_all add: rd_Some asize_def nat_less_iff)
    ultimately show ?thesis using q by simp
  qed
  have "do {
     c \<leftarrow> parallel_for (asize b) (\<lambda>i. for_range 0 w (\<lambda>j c. do {
       x \<leftarrow> rd a (i * w + j); y \<leftarrow> rd b i; q \<leftarrow> op2 x y; wr c (i * w + j) (Some q) })) (fresh (asize a));
     freeze c } = Some (map (\<lambda>k. ?h (int k div w) (int k mod w)) [0..<nat (asize a)])"
    by (rule fill_rows [OF _ cell w0]) (simp_all add: w Option.bind_assoc mult.commute)
  also have "\<dots> = Some (map (\<lambda>k. f (a ! k) (b ! nat (int k div w))) [0..<length a])"
    by (simp add: asize_def)
  finally show ?thesis .
qed

lemma multiply_each_eq:
  assumes "asize a = w * asize b" "0 < asize b"
  shows "multiply_each a b = Some (map (\<lambda>k. a ! k * b ! nat (int k div w)) [0..<length a])"
  using rowwise_eq [of a w b "\<lambda>x y. Some (x * y)" "(*)"] assms
  by (simp add: multiply_each_def)

lemma multiply_each_same:
  assumes "length a = length b"
  shows "multiply_each a b = Some (map2 (*) a b)"
proof (cases "b = []")
  case True
  then show ?thesis using assms by (simp add: multiply_each_def fresh_def freeze_def)
next
  case False
  then have "multiply_each a b = Some (map (\<lambda>k. a ! k * b ! nat (int k div 1)) [0..<length a])"
    using assms by (intro multiply_each_eq) (auto simp: asize_def)
  also have "map (\<lambda>k. a ! k * b ! nat (int k div 1)) [0..<length a] = map2 (*) a b"
    using assms by (intro nth_equalityI) auto
  finally show ?thesis .
qed

lemma divide_each_eq:
  assumes "asize a = w * asize b" "0 < asize b" "0 \<notin> set b"
  shows "divide_each a b = Some (map (\<lambda>k. a ! k sdiv b ! nat (int k div w)) [0..<length a])"
proof -
  have "do {
     c \<leftarrow> parallel_for (asize b) (\<lambda>i. for_range 0 w (\<lambda>j c. do {
       x \<leftarrow> rd a (i * w + j); y \<leftarrow> rd b i; q \<leftarrow> (if y = 0 then None else Some (x sdiv y));
       wr c (i * w + j) (Some q) })) (fresh (asize a));
     freeze c } = Some (map (\<lambda>k. a ! k sdiv b ! nat (int k div w)) [0..<length a])"
    using assms by (intro rowwise_eq) auto
  then show ?thesis
    using assms(1,2) by (simp add: divide_each_def)
qed

lemma ternary_each_eq:
  assumes "length a = length b" "asize a = w * asize cond" "0 < asize cond"
  shows "ternary_each cond a b =
     Some (map (\<lambda>k. if cond ! nat (int k div w) \<noteq> 0 then a ! k else b ! k) [0..<length a])"
proof -
  have "fill_each (asize a) (\<lambda>i. do {
       c \<leftarrow> (if w = 0 then None else rd cond (i sdiv w));
       if c \<noteq> 0 then rd a i else rd b i }) =
     Some (map (\<lambda>k. if cond ! nat (int k div w) \<noteq> 0 then a ! k else b ! k) [0..<nat (asize a)])"
  proof (rule fill_each_Some)
    show "0 \<le> asize a" by simp
    fix k assume "int k < asize a"
    then have k: "k < length a" by (simp add: asize_def)
    note r = row_of_cell [OF assms(2) k assms(3)]
    show "do { c \<leftarrow> (if w = 0 then None else rd cond (int k sdiv w));
               if c \<noteq> 0 then rd a (int k) else rd b (int k) } =
          Some (if cond ! nat (int k div w) \<noteq> 0 then a ! k else b ! k)"
      using r k assms(1) by (simp add: sdiv_nonneg rd_Some)
  qed
  then show ?thesis using assms by (simp add: ternary_each_def asize_def)
qed

lemma get_component_eq:
  assumes "asize a = n * ncomps" "0 \<le> c" "c < ncomps" "0 \<le> n"
  shows "get_component a ncomps c = Some (map (\<lambda>i. a ! nat (int i * ncomps + c)) [0..<nat n])"
proof -
  have "fill_each n (\<lambda>i. rd a (i * ncomps + c)) =
      Some (map (\<lambda>i. a ! nat (int i * ncomps + c)) [0..<nat n])"
  proof (rule fill_each_Some)
    show "0 \<le> n" by (rule assms(4))
    fix k assume "int k < n"
    then show "rd a (int k * ncomps + c) = Some (a ! nat (int k * ncomps + c))"
      using row_index_bound [of c ncomps "int k" n] assms by (simp add: rd_Some)
  qed
  then show ?thesis using assms by (simp add: get_component_def)
qed

lemma coalesce_None: "arrays \<noteq> [] \<Longrightarrow> coalesce arrays = None"
proof -
  assume ne: "arrays \<noteq> []"
  have "coalesce_offsets arrays = None"
    unfolding coalesce_offsets_def
    using ne by (subst for_range_snoc)
      (simp_all add: rd_def asize_def Suc_le_eq split: Option.bind_splits)
  then show ?thesis using ne by (simp add: coalesce_def)
qed

lemma concat_arrays_eq: "concat_arrays a b = Some (a @ b)"
proof -
  let ?n = "asize a + asize b"
  have "\<exists>c. parallel_for (asize a) (\<lambda>i c. do { x \<leftarrow> rd a i; wr c i (Some x) }) (fresh ?n) = Some c \<and>
     length c = nat ?n \<and> (\<forall>i. 0 \<le> i \<and> i < asize a \<longrightarrow> c ! nat i = Some (a ! nat i)) \<and>
     (\<forall>k. (\<forall>i. 0 \<le> i \<and> i < asize a \<longrightarrow> i \<noteq> int k) \<longrightarrow> c ! k = fresh ?n ! k)"
  proof (rule parallel_for_scatter)
    show "0 \<le> i \<and> i < int (nat ?n)" if "0 \<le> i" "i < asize a" for i
      using that asize_ge0 [of b] by linarith
  qed (simp_all add: rd_Some)
  then obtain c where c: "parallel_for (asize a) (\<lambda>i c. do { x \<leftarrow> rd a i; wr c i (Some x) })
       (fresh ?n) = Some c" "length c = nat ?n"
    "\<forall>i. 0 \<le> i \<and> i < asize a \<longrightarrow> c ! nat i = Some (a ! nat i)" by blast
  have "\<exists>d. parallel_for (asize b) (\<lambda>i c. do { x \<leftarrow> rd b i; wr c (i + asize a) (Some x) }) c = Some d \<and>
     length d = nat ?n \<and> (\<forall>i. 0 \<le> i \<and> i < asize b \<longrightarrow> d ! nat (i + asize a) = Some (b ! nat i)) \<and>
     (\<forall>k. (\<forall>i. 0 \<le> i \<and> i < asize b \<longrightarrow> i + asize a \<noteq> int k) \<longrightarrow> d ! k = c ! k)"
  proof (rule parallel_for_scatter)
    show "0 \<le> i + asize a \<and> i + asize a < int (nat ?n)" if "0 \<le> i" "i < asize b" for i
      using that by simp
  qed (use c(2) in \<open>simp_all add: rd_Some\<close>)
  then obtain d where d: "parallel_for (asize b) (\<lambda>i c. do { x \<leftarrow> rd b i; wr c (i + asize a) (Some x) })
       c = Some d" "length d = nat ?n"
    "\<forall>i. 0 \<le> i \<and> i < asize b \<longrightarrow> d ! nat (i + asize a) = Some (b ! nat i)"
    "\<forall>k. (\<forall>i. 0 \<le> i \<and> i < asize b \<longrightarrow> i + asize a \<noteq> int k) \<longrightarrow> d ! k = c ! k" by blast
  have "freeze d = Some (a @ b)"
  proof (rule freeze_eqI)
    show "length d = length (a @ b)" using d(2) by (simp add: asize_def)
    fix k assume k: "k < length (a @ b)"
    show "d ! k = Some ((a @ b) ! k)"
    proof (cases "k < length a")
      case True
      then have "d ! k = c ! k" using d(4) by (simp add: asize_def)
      then show ?thesis using True c(3) [rule_format, of "int k"] by (simp add: asize_def nth_append)
    next
      case False
      then have "nat (int (k - length a) + asize a) = k" by (simp add: asize_def)
      then show ?thesis
        using False k d(3) [rule_format, of "int (k - length a)"]
        by (simp add: asize_def nth_append nat_diff_distrib)
    qed
  qed
  then show ?thesis using c(1) d(1) by (simp add: concat_arrays_def)
qed

lemma set_component_spec:
  assumes "asize out = asize a * ncomps" "0 \<le> c" "c < ncomps"
  shows "\<exists>out'. set_component out a ncomps c = Some out' \<and> length out' = length out \<and>
    (\<forall>i j. 0 \<le> i \<and> i < asize a \<and> 0 \<le> j \<and> j < ncomps \<longrightarrow>
       out' ! nat (i * ncomps + j) = (if j = c then Some (a ! nat i) else out ! nat (i * ncomps + j)))"
proof -
  have "\<exists>w. set_component out a ncomps c = Some w \<and> length w = length out \<and>
    (\<forall>i. 0 \<le> i \<and> i < asize a \<longrightarrow> w ! nat (i * ncomps + c) = Some (a ! nat i)) \<and>
    (\<forall>k. (\<forall>i. 0 \<le> i \<and> i < asize a \<longrightarrow> i * ncomps + c \<noteq> int k) \<longrightarrow> w ! k = out ! k)"
    unfolding set_component_def
  proof (rule parallel_for_scatter)
    show "0 \<le> i * ncomps + c \<and> i * ncomps + c < int (length out)" if "0 \<le> i" "i < asize a" for i
      using row_index_bound [of c ncomps i "asize a"] that assms by (simp add: asize_def)
    show "Some (a ! nat i) = Some (a ! nat j)" if "i * ncomps + c = j * ncomps + c" for i j
      using that row_index_inject [of i ncomps c j c] assms by simp
  qed (simp_all add: rd_Some)
  then obtain w where w: "set_component out a ncomps c = Some w" "length w = length out"
    "\<And>i. 0 \<le> i \<and> i < asize a \<Longrightarrow> w ! nat (i * ncomps + c) = Some (a ! nat i)"
    "\<And>k. (\<And>i. 0 \<le> i \<and> i < asize a \<Longrightarrow> i * ncomps + c \<noteq> int k) \<Longrightarrow> w ! k = out ! k"
    by blast
  have "w ! nat (i * ncomps + j) = out ! nat (i * ncomps + j)"
    if "0 \<le> i" "i < asize a" "0 \<le> j" "j < ncomps" "j \<noteq> c" for i j
  proof (rule w(4))
    fix l
    show "l * ncomps + c \<noteq> int (nat (i * ncomps + j))"
      using row_index_inject [of l ncomps c i j] row_index_bound [of j ncomps i "asize a"] that assms
      by auto
  qed
  with w(1-3) show ?thesis by auto
qed

lemma interleave_eq:
  assumes "arrays \<noteq> []" "\<forall>array \<in> set arrays. length array = m"
  shows "interleave arrays =
    Some (map (\<lambda>k. arrays ! (k mod length arrays) ! (k div length arrays)) [0..<length arrays * m])"
proof -
  let ?N = "length arrays"
  let ?F = "\<lambda>i j out. do { x \<leftarrow> rd (arrays ! nat i) j; wr out (j * int ?N + i) (Some x) }"
  let ?is = "List.product [0..int ?N - 1] [0..int m - 1]"
  let ?p = "\<lambda>(i, j). j * int ?N + i"
  let ?v = "\<lambda>(i, j). Some (arrays ! nat i ! nat j)"
  have N: "0 < ?N" using assms(1) by simp
  have mem: "length (arrays ! i) = m" if "i < ?N" for i using assms(2) that by simp
  have hd: "length (hd arrays) = m" using assms by simp
  have "for_range 0 (int ?N) (\<lambda>i out. do { array \<leftarrow> rd arrays i; parallel_for (int m) (\<lambda>j out. do {
          x \<leftarrow> rd array j; wr out (j * int ?N + i) (Some x) }) out }) (fresh (int ?N * int m)) =
        run_for [0..int ?N - 1] (\<lambda>i s. run_for [0..int m - 1] (?F i) s) (fresh (int ?N * int m))"
    unfolding for_range_def parallel_for_def
    by (intro run_for_cong) (simp add: rd_Some asize_def)
  also have "\<dots> = run_for ?is (\<lambda>(i, j). ?F i j) (fresh (int ?N * int m))"
    by (rule run_for_nested)
  finally have loop: "for_range 0 (int ?N) (\<lambda>i out. do { array \<leftarrow> rd arrays i; parallel_for (int m)
          (\<lambda>j out. do { x \<leftarrow> rd array j; wr out (j * int ?N + i) (Some x) }) out })
          (fresh (int ?N * int m)) = run_for ?is (\<lambda>(i, j). ?F i j) (fresh (int ?N * int m))" .
  have "\<exists>w. run_for ?is (\<lambda>(i, j). ?F i j) (fresh (int ?N * int m)) = Some w \<and>
     length w = ?N * m \<and> (\<forall>ij \<in> set ?is. w ! nat (?p ij) = ?v ij) \<and>
     (\<forall>k. int k \<notin> ?p ` set ?is \<longrightarrow> w ! k = fresh (int ?N * int m) ! k)"
  proof (rule run_for_scatter)
    show "(\<lambda>(i, j). ?F i j) ij s = wr s (?p ij) (?v ij)" if "ij \<in> set ?is" for ij s
      using that mem [of "nat (fst ij)"] by (auto simp: rd_Some asize_def)
    show "0 \<le> ?p ij \<and> ?p ij < int (?N * m)" if "ij \<in> set ?is" for ij
      using that row_index_bound [of "fst ij" "int ?N" "snd ij" "int m"]
      by (auto simp: mult.commute)
    show "?v ij = ?v kl" if "ij \<in> set ?is" "kl \<in> set ?is" "?p ij = ?p kl" for ij kl
      using that row_index_inject [of "snd ij" "int ?N" "fst ij" "snd kl" "fst kl"] by auto
  qed (simp add: nat_mult_distrib)
  then obtain w where w: "run_for ?is (\<lambda>(i, j). ?F i j) (fresh (int ?N * int m)) = Some w"
    "length w = ?N * m" "\<forall>ij \<in> set ?is. w ! nat (?p ij) = ?v ij" by blast
  have "freeze w = Some (map (\<lambda>k. arrays ! (k mod ?N) ! (k div ?N)) [0..<?N * m])"
  proof (rule freeze_eqI)
    fix k assume "k < length (map (\<lambda>k. arrays ! (k mod ?N) ! (k div ?N)) [0..<?N * m])"
    then have k: "k < ?N * m" by simp
    then have "k div ?N < m" by (simp add: less_mult_imp_div_less mult.commute)
    then have "(int (k mod ?N), int (k div ?N)) \<in> set ?is" using N by auto
    then have "w ! nat (?p (int (k mod ?N), int (k div ?N))) = ?v (int (k mod ?N), int (k div ?N))"
      using w(3) by blast
    moreover have "nat (?p (int (k mod ?N), int (k div ?N))) = k"
      by (simp flip: of_nat_mult of_nat_add of_nat_div of_nat_mod)
    ultimately show "w ! k = Some (map (\<lambda>k. arrays ! (k mod ?N) ! (k div ?N)) [0..<?N * m] ! k)"
      using k by simp
  qed (use w(2) in simp)
  then show ?thesis
    using assms loop w(1) hd by (simp add: interleave_def Let_def asize_def)
qed

lemma get_component_interleave:
  assumes "arrays \<noteq> []" "\<forall>array \<in> set arrays. length array = m" "i < length arrays"
  shows "do { out \<leftarrow> interleave arrays; get_component out (asize arrays) (int i) } = Some (arrays ! i)"
proof -
  let ?N = "length arrays"
  let ?out = "map (\<lambda>k. arrays ! (k mod ?N) ! (k div ?N)) [0..<?N * m]"
  have "get_component ?out (int ?N) (int i) =
      Some (map (\<lambda>j. ?out ! nat (int j * int ?N + int i)) [0..<nat (int m)])"
    using assms(3) by (intro get_component_eq) (simp_all add: asize_def)
  also have "map (\<lambda>j. ?out ! nat (int j * int ?N + int i)) [0..<nat (int m)] = arrays ! i"
  proof (rule nth_equalityI)
    fix j assume "j < length (map (\<lambda>j. ?out ! nat (int j * int ?N + int i)) [0..<nat (int m)])"
    then have j: "j < m" by simp
    have "nat (int j * int ?N + int i) = j * ?N + i" by (simp flip: of_nat_mult of_nat_add)
    moreover have "j * ?N + i < ?N * m"
      using row_index_bound [of "int i" "int ?N" "int j" "int m"] j assms(3)
      by (simp add: mult.commute flip: of_nat_mult of_nat_add)
    moreover have "(j * ?N + i) div ?N = j" "(j * ?N + i) mod ?N = i"
    proof -
      have "0 < ?N" using assms(1) by simp
      then show "(j * ?N + i) div ?N = j" using assms(3) by (subst div_mult_self3) auto
      show "(j * ?N + i) mod ?N = i" using assms(3) by simp
    qed
    ultimately show "map (\<lambda>j. ?out ! nat (int j * int ?N + int i)) [0..<nat (int m)] ! j = arrays ! i ! j"
      using j by simp
  qed (use assms in simp)
  finally show ?thesis using interleave_eq [OF assms(1,2)] by (simp add: asize_def)
qed

section \<open>Properties\<close>

text \<open>Interleaving arrays of equal size and extracting components are inverse: component \<open>i\<close> of
  the interleaved array is array \<open>i\<close>.\<close>

theorem interleave_roundtrip:
  assumes "arrays \<noteq> []" "\<forall>array \<in> set arrays. asize array = n" "0 \<le> i" "i < asize arrays"
  shows "\<exists>out. interleave arrays = Some out \<and> asize out = asize arrays * n \<and>
    get_component out (asize arrays) i = rd arrays i"
proof -
  have "\<forall>array \<in> set arrays. length array = nat n" using assms(2) by (auto simp: asize_def)
  moreover have "0 \<le> n" using assms(1,2) by (cases arrays) auto
  ultimately show ?thesis
    using interleave_eq [of arrays "nat n"] get_component_interleave [of arrays "nat n" "nat i"] assms
    by (simp add: asize_def rd_Some nat_less_iff)
qed

theorem interleave_roundtrip_witness:
  "\<exists>out. interleave [[1, 2, 3], [4, 5, 6 :: int]] = Some out \<and> get_component out 2 1 = Some [4, 5, 6]"
  using interleave_roundtrip [of "[[1, 2, 3], [4, 5, 6 :: int]]" 3 1] by (auto simp: rd_def)

text \<open>C24. \<open>coalesce\<close>, which is meant to concatenate arrays, fails on every non-empty list of arrays:
  its loop reads the size of array \<open>i\<close> where it needs the size of array \<open>i - 1\<close>, so the last iteration
  reads one past the end of the list.  (\<open>concat\<close>, the version for two arrays, is correct.)\<close>

theorem coalesce_reads_out_of_range:
  assumes "arrays \<noteq> []"
  shows "coalesce arrays = None \<and> concat_arrays a b = Some (a @ b)"
  using coalesce_None [OF assms] concat_arrays_eq by blast

theorem coalesce_reads_out_of_range_witness:
  "coalesce [[1, 2], [3 :: int]] = None"
  by (rule coalesce_reads_out_of_range [THEN conjunct1]) simp

end
