(* ===== verification/Map_Ops.thy ===== *)
theory Map_Ops
  imports Scan Array_Ops
begin

text \<open>
  Maps between index sets as arrays (\<open>src/src/Omega_h_map.cpp\<close>).

  A map \<open>a2b\<close> is an array of indices; a fan \<open>a2b\<close> is an array of offsets, item \<open>a\<close> owning the
  consecutive items from \<open>a2b[a]\<close> to \<open>a2b[a + 1]\<close>; data with \<open>width\<close> values per item are stored row by
  row (\<open>row\<close>).  Every function that scatters over a caller's \<open>Write\<close> array takes the array and returns
  it updated.  The lemmas give each function as a function of lists: \<open>unmap\<close> and \<open>map_into\<close> on rows,
  \<open>expand\<close> and \<open>invert_fan\<close> as the expansion of a fan, \<open>collect_marked\<close> as a filter,
  \<open>invert_funnel\<close> as the offsets of the value counts, and \<open>invert_map_by_atomics\<close> as the fibres of
  the map in the order in which the threads happened to claim their positions.
\<close>

section \<open>Scattering and gathering rows\<close>

definition add_into :: "int list \<Rightarrow> lo list \<Rightarrow> int option list \<Rightarrow> lo \<Rightarrow> int option list option" where
  "add_into a_data a2b b_data width = do {
     let na = asize a2b;
     omega_check (asize a_data = na * width);
     parallel_for na (\<lambda>a b_data. do {
       b \<leftarrow> rd a2b a;
       for_range 0 width (\<lambda>j b_data. do {
         x \<leftarrow> rd_cell b_data (b * width + j);
         y \<leftarrow> rd a_data (a * width + j);
         wr b_data (b * width + j) (Some (x + y))
       }) b_data
     }) b_data
   }"

definition map_into :: "'a list \<Rightarrow> lo list \<Rightarrow> 'a option list \<Rightarrow> lo \<Rightarrow> 'a option list option" where
  "map_into a_data a2b b_data width = do {
     let na = asize a2b;
     omega_check (asize a_data = na * width);
     parallel_for na (\<lambda>a b_data. do {
       b \<leftarrow> rd a2b a;
       for_range 0 width (\<lambda>j b_data. do {
         x \<leftarrow> rd a_data (a * width + j);
         wr b_data (b * width + j) (Some x)
       }) b_data
     }) b_data
   }"

definition map_value_into :: "'a \<Rightarrow> lo list \<Rightarrow> 'a option list \<Rightarrow> 'a option list option" where
  "map_value_into a_value a2b b_data =
     parallel_for (asize a2b) (\<lambda>a b_data. do {
       b \<leftarrow> rd a2b a;
       wr b_data b (Some a_value)
     }) b_data"

definition map_into_range ::
    "'a list \<Rightarrow> lo \<Rightarrow> lo \<Rightarrow> 'a option list \<Rightarrow> lo \<Rightarrow> 'a option list option" where
  "map_into_range a_data begin_b end_b b_data width = do {
     let na = end_b - begin_b;
     omega_check (asize a_data = na * width);
     parallel_for na (\<lambda>a b_data. do {
       let b = begin_b + a;
       for_range 0 width (\<lambda>j b_data. do {
         x \<leftarrow> rd a_data (a * width + j);
         wr b_data (b * width + j) (Some x)
       }) b_data
     }) b_data
   }"

definition map_onto :: "'a list \<Rightarrow> lo list \<Rightarrow> lo \<Rightarrow> 'a \<Rightarrow> lo \<Rightarrow> 'a list option" where
  "map_onto a_data a2b nb init_val width = do {
     omega_check (0 \<le> nb * width);
     let out = replicate (nat (nb * width)) (Some init_val);
     omega_check (asize out \<ge> asize a_data);
     out \<leftarrow> map_into a_data a2b out width;
     freeze out
   }"

definition unmap :: "lo list \<Rightarrow> 'a list \<Rightarrow> lo \<Rightarrow> 'a list option" where
  "unmap a2b b_data width = do {
     let na = asize a2b;
     a_data \<leftarrow> alloc (na * width);
     a_data \<leftarrow> parallel_for na (\<lambda>a a_data. do {
       b \<leftarrow> rd a2b a;
       for_range 0 width (\<lambda>j a_data. do {
         x \<leftarrow> rd b_data (b * width + j);
         wr a_data (a * width + j) (Some x)
       }) a_data
     }) a_data;
     freeze a_data
   }"

definition unmap_range :: "lo \<Rightarrow> lo \<Rightarrow> 'a list \<Rightarrow> lo \<Rightarrow> 'a list option" where
  "unmap_range begin_b end_b b_data width = do {
     omega_check (begin_b \<le> end_b);
     let na = end_b - begin_b;
     a_data \<leftarrow> alloc (na * width);
     a_data \<leftarrow> parallel_for na (\<lambda>a a_data. do {
       let b = a + begin_b;
       for_range 0 width (\<lambda>j a_data. do {
         x \<leftarrow> rd b_data (b * width + j);
         wr a_data (a * width + j) (Some x)
       }) a_data
     }) a_data;
     freeze a_data
   }"

definition permute :: "'a list \<Rightarrow> lo list \<Rightarrow> lo \<Rightarrow> 'a list option" where
  "permute a_data a2b width = do {
     let nb = asize a2b;
     b_data \<leftarrow> alloc (nb * width);
     b_data \<leftarrow> map_into a_data a2b b_data width;
     freeze b_data
   }"

text \<open>Row \<open>i\<close> of an array with \<open>w\<close> values per item.\<close>

definition row :: "lo \<Rightarrow> 'a list \<Rightarrow> lo \<Rightarrow> 'a list" where
  "row w xs i = map (\<lambda>j. xs ! nat (i * w + j)) [0..w - 1]"

lemma row_1 [simp]: "row 1 xs i = [xs ! nat i]"
  by (simp add: row_def)

lemma row_eq_iff:
  "row w xs i = row w ys k \<longleftrightarrow> (\<forall>j. 0 \<le> j \<and> j < w \<longrightarrow> xs ! nat (i * w + j) = ys ! nat (k * w + j))"
  by (auto simp: row_def)

lemma rows_eqI:
  assumes "0 \<le> w" "asize xs = n * w" "asize ys = n * w"
    and "\<And>i. 0 \<le> i \<Longrightarrow> i < n \<Longrightarrow> row w xs i = row w ys i"
  shows "xs = ys"
proof (rule nth_equalityI)
  show "length xs = length ys" using assms(2,3) by (simp add: asize_def)
  fix k assume "k < length xs"
  then have k: "int k < n * w" using assms(2) by (simp add: asize_def)
  then have w: "0 < w" using assms(1) by (cases "w = 0") auto
  have "0 \<le> int k div w" "int k div w < n"
    using div_less_rows [OF w k] w by (simp_all add: pos_imp_zdiv_nonneg_iff)
  then have "row w xs (int k div w) = row w ys (int k div w)" by (rule assms(4))
  then have "xs ! nat (int k div w * w + int k mod w) = ys ! nat (int k div w * w + int k mod w)"
    unfolding row_eq_iff using w by (auto dest: spec [where x = "int k mod w"])
  then show "xs ! k = ys ! k" by simp
qed

lemma int_row_bound:
  assumes "0 \<le> b" "b < n" "0 \<le> j" "j < w" "asize xs = n * w"
  shows "rd xs (b * w + j) = Some (xs ! nat (b * w + j))" "nat (b * w + j) < length xs"
  using row_index_bound [OF assms(3,4,1,2)] assms(5) by (simp_all add: rd_Some asize_def nat_less_iff)

lemma rd_row:
  assumes "0 \<le> b" "b * w + w \<le> asize xs" "0 \<le> j" "j < w"
  shows "rd xs (b * w + j) = Some (xs ! nat (b * w + j))"
  using assms by (intro rd_Some) (auto intro: add_nonneg_nonneg mult_nonneg_nonneg)

lemma unmap_ex:
  assumes w: "0 \<le> w" and rng: "\<And>b. b \<in> set a2b \<Longrightarrow> 0 \<le> b \<and> b * w + w \<le> asize b_data"
  shows "\<exists>out. unmap a2b b_data w = Some out \<and> asize out = asize a2b * w \<and>
    (\<forall>a. 0 \<le> a \<and> a < asize a2b \<longrightarrow> row w out a = row w b_data (a2b ! nat a))"
proof -
  let ?n = "asize a2b"
  let ?h = "\<lambda>a j. b_data ! nat (a2b ! nat a * w + j)"
  let ?out = "map (\<lambda>k. ?h (int k div w) (int k mod w)) [0..<nat (?n * w)]"
  have "do { s \<leftarrow> parallel_for ?n (\<lambda>a a_data. do { b \<leftarrow> rd a2b a; for_range 0 w (\<lambda>j a_data. do {
         x \<leftarrow> rd b_data (b * w + j); wr a_data (a * w + j) (Some x) }) a_data }) (fresh (?n * w));
       freeze s } = Some ?out"
  proof (rule fill_rows)
    show "do { b \<leftarrow> rd a2b a; for_range 0 w (\<lambda>j a_data. do {
         x \<leftarrow> rd b_data (b * w + j); wr a_data (a * w + j) (Some x) }) s } =
       for_range 0 w (\<lambda>j s. do { x \<leftarrow> rd b_data (a2b ! nat a * w + j); wr s (a * w + j) (Some x) }) s"
      if "0 \<le> a" "a < ?n" for a s
      using that by (simp add: rd_Some)
    show "rd b_data (a2b ! nat a * w + j) = Some (?h a j)"
      if "0 \<le> a" "a < ?n" "0 \<le> j" "j < w" for a j
    proof -
      have "a2b ! nat a \<in> set a2b" using that by (simp add: asize_def nat_less_iff)
      then show ?thesis using rng that by (intro rd_row) auto
    qed
  qed (use w in simp_all)
  moreover have "row w ?out a = row w b_data (a2b ! nat a)" if "0 \<le> a" "a < ?n" for a
  proof -
    have "?out ! nat (a * w + j) = b_data ! nat (a2b ! nat a * w + j)" if "0 \<le> j" "j < w" for j
      using row_index_bound [OF that \<open>0 \<le> a\<close> \<open>a < ?n\<close>] that by (simp add: nat_less_iff)
    then show ?thesis by (simp add: row_eq_iff)
  qed
  ultimately show ?thesis using w by (intro exI [of _ ?out]) (simp add: unmap_def asize_def)
qed

lemma unmap_1:
  assumes "\<And>b. b \<in> set a2b \<Longrightarrow> 0 \<le> b \<and> b < asize b_data"
  shows "unmap a2b b_data 1 = Some (map (\<lambda>b. b_data ! nat b) a2b)"
proof -
  obtain out where out: "unmap a2b b_data 1 = Some out" "asize out = asize a2b"
    "\<And>a. 0 \<le> a \<and> a < asize a2b \<Longrightarrow> row 1 out a = row 1 b_data (a2b ! nat a)"
    using unmap_ex [of 1 a2b b_data] assms by force
  have "out = map (\<lambda>b. b_data ! nat b) a2b"
  proof (rule nth_equalityI)
    fix k assume "k < length out"
    then show "out ! k = map (\<lambda>b. b_data ! nat b) a2b ! k"
      using out(2) out(3) [of "int k"] by (simp add: asize_def)
  qed (use out(2) in \<open>simp add: asize_def\<close>)
  with out(1) show ?thesis by simp
qed

lemma unmap_range_ex:
  assumes "0 \<le> w" "0 \<le> b0" "b0 \<le> b1" "b1 * w \<le> asize b_data"
  shows "\<exists>out. unmap_range b0 b1 b_data w = Some out \<and> asize out = (b1 - b0) * w \<and>
    (\<forall>a. 0 \<le> a \<and> a < b1 - b0 \<longrightarrow> row w out a = row w b_data (a + b0))"
proof -
  let ?a2b = "map (\<lambda>k. int k + b0) [0..<nat (b1 - b0)]"
  have "0 \<le> b \<and> b * w + w \<le> asize b_data" if b: "b \<in> set ?a2b" for b
  proof -
    have "(b + 1) * w \<le> b1 * w" using b assms by (intro mult_right_mono) auto
    then have "b * w + w \<le> asize b_data" using assms(4) by (simp add: algebra_simps)
    then show ?thesis using b assms by auto
  qed
  then obtain out where out: "unmap ?a2b b_data w = Some out" "asize out = asize ?a2b * w"
    "\<And>a. 0 \<le> a \<and> a < asize ?a2b \<Longrightarrow> row w out a = row w b_data (?a2b ! nat a)"
    using unmap_ex [of w ?a2b b_data] assms(1) by blast
  have n: "asize [0..<nat (b1 - b0)] = b1 - b0" using assms by (simp add: asize_def)
  have "unmap_range b0 b1 b_data w = unmap ?a2b b_data w"
  proof -
    have loop: "parallel_for (b1 - b0) (\<lambda>a a_data. do { let b = a + b0; for_range 0 w (\<lambda>j a_data. do {
          x \<leftarrow> rd b_data (b * w + j); wr a_data (a * w + j) (Some x) }) a_data }) s =
        parallel_for (b1 - b0) (\<lambda>a a_data. do { b \<leftarrow> rd ?a2b a; for_range 0 w (\<lambda>j a_data. do {
          x \<leftarrow> rd b_data (b * w + j); wr a_data (a * w + j) (Some x) }) a_data }) s" for s
    proof (rule parallel_for_cong)
      fix a t assume a: "0 \<le> a" "a < b1 - b0"
      then have "rd ?a2b a = Some (a + b0)" using n by (simp add: rd_Some)
      then show "do { let b = a + b0; for_range 0 w (\<lambda>j a_data. do {
          x \<leftarrow> rd b_data (b * w + j); wr a_data (a * w + j) (Some x) }) t } =
        do { b \<leftarrow> rd ?a2b a; for_range 0 w (\<lambda>j a_data. do {
          x \<leftarrow> rd b_data (b * w + j); wr a_data (a * w + j) (Some x) }) t }"
        by (simp add: Let_def)
    qed
    then show ?thesis using assms(3) by (simp add: unmap_range_def unmap_def n Let_def)
  qed
  with out n show ?thesis by simp
qed

text \<open>Scattering rows: several items may go to the same place as long as their rows agree.\<close>

lemma map_into_ex:
  assumes w: "0 \<le> w" and sz: "asize a_data = asize a2b * w" and len: "length b_data = nat (nb * w)"
    and rng: "\<And>b. b \<in> set a2b \<Longrightarrow> 0 \<le> b \<and> b < nb"
    and same: "\<And>a c. a < length a2b \<Longrightarrow> c < length a2b \<Longrightarrow> a2b ! a = a2b ! c \<Longrightarrow>
      row w a_data (int a) = row w a_data (int c)"
  shows "\<exists>out. map_into a_data a2b b_data w = Some out \<and> length out = length b_data \<and>
    (\<forall>a j. 0 \<le> a \<and> a < asize a2b \<and> 0 \<le> j \<and> j < w \<longrightarrow>
       out ! nat (a2b ! nat a * w + j) = Some (a_data ! nat (a * w + j))) \<and>
    (\<forall>b j. 0 \<le> b \<and> b < nb \<and> 0 \<le> j \<and> j < w \<and> b \<notin> set a2b \<longrightarrow>
       out ! nat (b * w + j) = b_data ! nat (b * w + j))"
proof -
  let ?n = "asize a2b"
  let ?f = "\<lambda>a b_data. do { b \<leftarrow> rd a2b a; for_range 0 w (\<lambda>j b_data. do {
         x \<leftarrow> rd a_data (a * w + j); wr b_data (b * w + j) (Some x) }) b_data }"
  have mem: "a2b ! nat a \<in> set a2b" if "0 \<le> a" "a < ?n" for a
    using that by (simp add: asize_def nat_less_iff)
  have "\<exists>s'. parallel_for ?n ?f b_data = Some s' \<and> length s' = length b_data \<and>
     (\<forall>i j. 0 \<le> i \<and> i < ?n \<and> 0 \<le> j \<and> j < w \<longrightarrow>
        s' ! nat (a2b ! nat i * w + j) = Some (a_data ! nat (i * w + j))) \<and>
     (\<forall>b j. 0 \<le> b \<and> b < nb \<and> 0 \<le> j \<and> j < w \<and> (\<forall>i. 0 \<le> i \<and> i < ?n \<longrightarrow> a2b ! nat i \<noteq> b) \<longrightarrow>
        s' ! nat (b * w + j) = b_data ! nat (b * w + j))"
  proof (rule scatter_rows)
    show "?f a s = for_range 0 w (\<lambda>j s. do { v \<leftarrow> do { x \<leftarrow> rd a_data (a * w + j); Some (Some x) };
        wr s (a2b ! nat a * w + j) v }) s" if "0 \<le> a" "a < ?n" for a s
      using that by (simp add: rd_Some Option.bind_assoc)
    show "do { x \<leftarrow> rd a_data (a * w + j); Some (Some x) } = Some (Some (a_data ! nat (a * w + j)))"
      if "0 \<le> a" "a < ?n" "0 \<le> j" "j < w" for a j
      using int_row_bound(1) [OF that sz] by simp
    show "0 \<le> a2b ! nat a \<and> a2b ! nat a < nb" if "0 \<le> a" "a < ?n" for a
      using rng mem that by blast
    show "Some (a_data ! nat (a * w + j)) = Some (a_data ! nat (c * w + j))"
      if "0 \<le> a" "a < ?n" "0 \<le> c" "c < ?n" "a2b ! nat a = a2b ! nat c" "0 \<le> j" "j < w" for a c j
    proof -
      have "row w a_data (int (nat a)) = row w a_data (int (nat c))"
        by (rule same) (use that in \<open>simp_all add: asize_def nat_less_iff\<close>)
      then show ?thesis using that by (simp add: row_eq_iff)
    qed
  qed (rule len)
  then obtain out where out: "parallel_for ?n ?f b_data = Some out" "length out = length b_data"
    "\<And>i j. 0 \<le> i \<and> i < ?n \<and> 0 \<le> j \<and> j < w \<Longrightarrow>
        out ! nat (a2b ! nat i * w + j) = Some (a_data ! nat (i * w + j))"
    "\<And>b j. 0 \<le> b \<and> b < nb \<and> 0 \<le> j \<and> j < w \<and> (\<forall>i. 0 \<le> i \<and> i < ?n \<longrightarrow> a2b ! nat i \<noteq> b) \<Longrightarrow>
        out ! nat (b * w + j) = b_data ! nat (b * w + j)" by blast
  have "map_into a_data a2b b_data w = Some out"
    using sz out(1) by (simp add: map_into_def Let_def)
  moreover have "out ! nat (b * w + j) = b_data ! nat (b * w + j)"
    if "0 \<le> b \<and> b < nb \<and> 0 \<le> j \<and> j < w \<and> b \<notin> set a2b" for b j
    using that mem by (intro out(4)) auto
  ultimately show ?thesis using out(2,3) by blast
qed

lemma map_into_distinct:
  assumes "0 \<le> w" "asize a_data = asize a2b * w" "length b_data = nat (nb * w)"
    and "\<And>b. b \<in> set a2b \<Longrightarrow> 0 \<le> b \<and> b < nb" and "distinct a2b"
  shows "\<exists>out. map_into a_data a2b b_data w = Some out \<and> length out = length b_data \<and>
    (\<forall>a j. 0 \<le> a \<and> a < asize a2b \<and> 0 \<le> j \<and> j < w \<longrightarrow>
       out ! nat (a2b ! nat a * w + j) = Some (a_data ! nat (a * w + j))) \<and>
    (\<forall>b j. 0 \<le> b \<and> b < nb \<and> 0 \<le> j \<and> j < w \<and> b \<notin> set a2b \<longrightarrow>
       out ! nat (b * w + j) = b_data ! nat (b * w + j))"
  using assms by (intro map_into_ex) (simp_all add: nth_eq_iff_index_eq)

lemma freeze_some:
  assumes "\<And>k. k < length w \<Longrightarrow> \<exists>v. w ! k = Some v"
  shows "\<exists>xs. freeze w = Some xs \<and> length xs = length w \<and> (\<forall>k < length w. w ! k = Some (xs ! k))"
proof (intro exI [of _ "map the w"] conjI allI impI)
  show "w ! k = Some (map the w ! k)" if "k < length w" for k
    using assms [OF that] that by auto
  then show "freeze w = Some (map the w)" by (intro freeze_eqI) auto
qed simp

lemma freeze_rows:
  assumes w: "0 \<le> w" and n: "0 \<le> n" and len: "length s = nat (n * w)"
    and cell: "\<And>b j. 0 \<le> b \<Longrightarrow> b < n \<Longrightarrow> 0 \<le> j \<Longrightarrow> j < w \<Longrightarrow> s ! nat (b * w + j) = Some (h b j)"
  shows "\<exists>out. freeze s = Some out \<and> asize out = n * w \<and>
    (\<forall>b j. 0 \<le> b \<and> b < n \<and> 0 \<le> j \<and> j < w \<longrightarrow> out ! nat (b * w + j) = h b j)"
proof -
  let ?out = "map (\<lambda>k. h (int k div w) (int k mod w)) [0..<nat (n * w)]"
  have "freeze s = Some ?out"
  proof (rule freeze_eqI)
    fix k assume "k < length ?out"
    then have k: "int k < n * w" by simp
    then have w': "0 < w" using w by (cases "w = 0") auto
    have "s ! nat (int k div w * w + int k mod w) = Some (h (int k div w) (int k mod w))"
      using div_less_rows [OF w' k] w' by (intro cell) (simp_all add: pos_imp_zdiv_nonneg_iff)
    then show "s ! k = Some (?out ! k)" using \<open>k < length ?out\<close> by simp
  qed (use len in simp)
  moreover have "?out ! nat (b * w + j) = h b j" if "0 \<le> b \<and> b < n \<and> 0 \<le> j \<and> j < w" for b j
    using row_index_bound [of j w b n] that by (simp add: nat_less_iff)
  ultimately show ?thesis using w n by (intro exI [of _ ?out]) (simp add: asize_def)
qed

lemma permute_ex:
  assumes w: "0 \<le> w" and sz: "asize a_data = asize a2b * w"
    and perm: "distinct a2b" "set a2b = {0..<asize a2b}"
  shows "\<exists>out. permute a_data a2b w = Some out \<and> asize out = asize a2b * w \<and>
    (\<forall>a. 0 \<le> a \<and> a < asize a2b \<longrightarrow> row w out (a2b ! nat a) = row w a_data a)"
proof -
  let ?n = "asize a2b"
  obtain s where s: "map_into a_data a2b (fresh (?n * w)) w = Some s"
    "length s = length (fresh (?n * w) :: 'a option list)"
    "\<And>a j. 0 \<le> a \<and> a < ?n \<and> 0 \<le> j \<and> j < w \<Longrightarrow>
       s ! nat (a2b ! nat a * w + j) = Some (a_data ! nat (a * w + j))"
    using map_into_distinct [OF w sz _ _ perm(1), of "fresh (?n * w)" ?n] perm(2) by auto
  define inv where "inv b = (THE a. 0 \<le> a \<and> a < ?n \<and> a2b ! nat a = b)" for b
  have inv: "0 \<le> inv b \<and> inv b < ?n \<and> a2b ! nat (inv b) = b" if "0 \<le> b" "b < ?n" for b
  proof -
    have "b \<in> set a2b" using perm(2) that by simp
    then obtain k where k: "0 \<le> k" "k < ?n" "a2b ! nat k = b" by (auto simp: in_set_int_conv)
    then have "\<exists>!a. 0 \<le> a \<and> a < ?n \<and> a2b ! nat a = b"
      using distinct_nth_int_eq [OF perm(1), of _ k] by (intro ex1I [of _ k]) auto
    then show ?thesis unfolding inv_def by (rule theI')
  qed
  have "s ! nat (b * w + j) = Some (a_data ! nat (inv b * w + j))"
    if "0 \<le> b" "b < ?n" "0 \<le> j" "j < w" for b j
    using s(3) [of "inv b" j] inv [OF that(1,2)] that by simp
  then have "\<exists>out. freeze s = Some out \<and> asize out = ?n * w \<and>
    (\<forall>b j. 0 \<le> b \<and> b < ?n \<and> 0 \<le> j \<and> j < w \<longrightarrow> out ! nat (b * w + j) = a_data ! nat (inv b * w + j))"
    by (intro freeze_rows) (use w s(2) in simp_all)
  then obtain out where out: "freeze s = Some out" "asize out = ?n * w"
    "\<And>b j. 0 \<le> b \<and> b < ?n \<and> 0 \<le> j \<and> j < w \<Longrightarrow>
       out ! nat (b * w + j) = a_data ! nat (inv b * w + j)" by blast
  have "row w out (a2b ! nat a) = row w a_data a" if a: "0 \<le> a" "a < ?n" for a
  proof -
    have b: "0 \<le> a2b ! nat a" "a2b ! nat a < ?n" using perm(2) nth_int_mem [OF a] by auto
    have "inv (a2b ! nat a) = a"
      using inv [OF b] a distinct_nth_int_eq [OF perm(1), of "inv (a2b ! nat a)" a] by simp
    then show ?thesis using out(3) b by (simp add: row_eq_iff)
  qed
  moreover have "permute a_data a2b w = Some out"
    using w s(1) out(1) by (simp add: permute_def)
  ultimately show ?thesis using out(2) by blast
qed

lemma map_onto_ex:
  assumes w: "0 \<le> w" and nb: "0 \<le> nb" and sz: "asize a_data = asize a2b * w"
    and rng: "\<And>b. b \<in> set a2b \<Longrightarrow> 0 \<le> b \<and> b < nb" and d: "distinct a2b"
  shows "\<exists>out. map_onto a_data a2b nb init w = Some out \<and> asize out = nb * w \<and>
    (\<forall>a. 0 \<le> a \<and> a < asize a2b \<longrightarrow> row w out (a2b ! nat a) = row w a_data a) \<and>
    (\<forall>b. 0 \<le> b \<and> b < nb \<and> b \<notin> set a2b \<longrightarrow> row w out b = replicate (nat w) init)"
proof -
  let ?n = "asize a2b" and ?r = "replicate (nat (nb * w)) (Some init)"
  have "card (set a2b) \<le> card {0..<nb}" using rng by (intro card_mono) auto
  then have "?n \<le> nb" using d nb by (simp add: asize_def distinct_card)
  then have big: "?n * w \<le> nb * w" using w by (intro mult_right_mono)
  obtain s where s: "map_into a_data a2b ?r w = Some s" "length s = length ?r"
    "\<And>a j. 0 \<le> a \<and> a < ?n \<and> 0 \<le> j \<and> j < w \<Longrightarrow>
       s ! nat (a2b ! nat a * w + j) = Some (a_data ! nat (a * w + j))"
    "\<And>b j. 0 \<le> b \<and> b < nb \<and> 0 \<le> j \<and> j < w \<and> b \<notin> set a2b \<Longrightarrow>
       s ! nat (b * w + j) = ?r ! nat (b * w + j)"
    using map_into_distinct [OF w sz _ rng d, of ?r] by auto
  let ?h = "\<lambda>b j. the (s ! nat (b * w + j))"
  have outside: "s ! nat (b * w + j) = Some init"
    if "0 \<le> b" "b < nb" "b \<notin> set a2b" "0 \<le> j" "j < w" for b j
    using s(4) [of b j] row_index_bound [of j w b nb] that by (simp add: nat_less_iff)
  have cell: "s ! nat (b * w + j) = Some (?h b j)" if "0 \<le> b" "b < nb" "0 \<le> j" "j < w" for b j
  proof (cases "b \<in> set a2b")
    case True
    then obtain a where "0 \<le> a" "a < ?n" "a2b ! nat a = b" by (auto simp: in_set_int_conv)
    then show ?thesis using s(3) [of a j] that by simp
  qed (use outside that in simp)
  have "\<exists>out. freeze s = Some out \<and> asize out = nb * w \<and>
    (\<forall>b j. 0 \<le> b \<and> b < nb \<and> 0 \<le> j \<and> j < w \<longrightarrow> out ! nat (b * w + j) = ?h b j)"
    using s(2) cell by (intro freeze_rows w nb) simp_all
  then obtain out where out: "freeze s = Some out" "asize out = nb * w"
    "\<And>b j. 0 \<le> b \<and> b < nb \<and> 0 \<le> j \<and> j < w \<Longrightarrow> out ! nat (b * w + j) = ?h b j" by blast
  have "row w out (a2b ! nat a) = row w a_data a" if "0 \<le> a" "a < ?n" for a
    using that rng [OF nth_int_mem [OF that]] out(3) s(3) by (simp add: row_eq_iff)
  moreover have "row w out b = replicate (nat w) init" if "0 \<le> b" "b < nb" "b \<notin> set a2b" for b
    using out(3) outside that by (intro nth_equalityI) (simp_all add: row_def)
  moreover have "map_onto a_data a2b nb init w = Some out"
    using w nb sz big s(1) out(1) by (simp add: map_onto_def Let_def)
  ultimately show ?thesis using out(2) by blast
qed

section \<open>Composition, inversion and marks\<close>

definition compound_maps :: "lo list \<Rightarrow> 'a list \<Rightarrow> 'a list option" where
  "compound_maps a2b b2c = do {
     let na = asize a2b;
     fill_each na (\<lambda>a. do { b \<leftarrow> rd a2b a; c \<leftarrow> rd b2c b; Some c })
   }"

definition invert_permutation :: "lo list \<Rightarrow> lo list option" where
  "invert_permutation a2b = do {
     b2a \<leftarrow> alloc (asize a2b);
     b2a \<leftarrow> parallel_for (asize a2b) (\<lambda>a b2a. do { b \<leftarrow> rd a2b a; wr b2a b (Some a) }) b2a;
     freeze b2a
   }"

definition invert_marks :: "int list \<Rightarrow> int list option" where
  "invert_marks marks = map_each (\<lambda>m. of_bool (m = 0)) marks"

definition collect_marked :: "int list \<Rightarrow> lo list option" where
  "collect_marked marks = do {
     let ntotal = asize marks;
     offsets \<leftarrow> offset_scan marks;
     nmarked \<leftarrow> rd_last offsets;
     marked \<leftarrow> alloc nmarked;
     marked \<leftarrow> parallel_for ntotal (\<lambda>i marked. do {
       m \<leftarrow> rd marks i;
       if m \<noteq> 0 then do { p \<leftarrow> rd offsets i; wr marked p (Some i) } else Some marked
     }) marked;
     freeze marked
   }"

definition mark_image :: "lo list \<Rightarrow> lo \<Rightarrow> int list option" where
  "mark_image a2b nb = do {
     let na = asize a2b;
     omega_check (0 \<le> nb);
     let out = replicate (nat nb) (Some 0);
     out \<leftarrow> parallel_for na (\<lambda>a out. do { b \<leftarrow> rd a2b a; wr out b (Some 1) }) out;
     freeze out
   }"

definition inject_map :: "lo list \<Rightarrow> lo option list \<Rightarrow> lo option list option" where
  "inject_map a2b b2a =
     parallel_for (asize a2b) (\<lambda>a b2a. do { b \<leftarrow> rd a2b a; wr b2a b (Some a) }) b2a"

definition invert_injective_map :: "lo list \<Rightarrow> lo \<Rightarrow> lo list option" where
  "invert_injective_map a2b nb = do {
     omega_check (0 \<le> nb);
     let b2a = replicate (nat nb) (Some (- 1));
     b2a \<leftarrow> inject_map a2b b2a;
     freeze b2a
   }"

text \<open>The position of a value in a list of distinct values.\<close>

definition index_of :: "'a list \<Rightarrow> 'a \<Rightarrow> lo" where
  "index_of xs x = int (length (takeWhile (\<lambda>y. y \<noteq> x) xs))"

lemma index_of_nth:
  assumes "distinct xs" "0 \<le> i" "i < asize xs"
  shows "index_of xs (xs ! nat i) = i"
proof -
  have i: "nat i < length xs" using assms(2,3) by (simp add: asize_def nat_less_iff)
  have "takeWhile (\<lambda>y. y \<noteq> xs ! nat i) xs = take (nat i) xs"
  proof (rule takeWhile_eq_take_P_nth)
    show "xs ! j \<noteq> xs ! nat i" if "j < nat i" "j < length xs" for j
      using that i nth_eq_iff_index_eq [OF assms(1)] by fastforce
  qed simp
  then show ?thesis using i assms(2) by (simp add: index_of_def)
qed

lemma index_of_mem:
  assumes "x \<in> set xs"
  shows "0 \<le> index_of xs x" "index_of xs x < asize xs" "xs ! nat (index_of xs x) = x"
proof -
  show "0 \<le> index_of xs x" by (simp add: index_of_def)
  have "length (takeWhile (\<lambda>y. y \<noteq> x) xs) < length xs"
    using assms by (metis (mono_tags) length_takeWhile_le le_neq_implies_less takeWhile_eq_all_conv
        takeWhile_eq_take take_all_iff nle_le)
  then show "index_of xs x < asize xs" "xs ! nat (index_of xs x) = x"
    using nth_length_takeWhile [of "\<lambda>y. y \<noteq> x" xs] by (simp_all add: index_of_def asize_def)
qed

lemma compound_maps_eq:
  assumes "\<And>b. b \<in> set a2b \<Longrightarrow> 0 \<le> b \<and> b < asize b2c"
  shows "compound_maps a2b b2c = Some (map (\<lambda>b. b2c ! nat b) a2b)"
proof -
  have "fill_each (asize a2b) (\<lambda>a. do { b \<leftarrow> rd a2b a; c \<leftarrow> rd b2c b; Some c }) =
      Some (map (\<lambda>b. b2c ! nat b) a2b)"
  proof (rule fill_each_map)
    fix k assume "k < length a2b"
    then have "0 \<le> a2b ! k" "a2b ! k < asize b2c" using assms [of "a2b ! k"] by simp_all
    then show "do { b \<leftarrow> rd a2b (int k); c \<leftarrow> rd b2c b; Some c } = Some (b2c ! nat (a2b ! k))"
      using \<open>k < length a2b\<close> by (simp add: rd_Some)
  qed simp
  then show ?thesis by (simp add: compound_maps_def)
qed

lemma inject_map_ex:
  assumes d: "distinct a2b" and rng: "\<And>b. b \<in> set a2b \<Longrightarrow> 0 \<le> b \<and> b < int m" and len: "length b2a = m"
  shows "inject_map a2b b2a =
    Some (map (\<lambda>b. if int b \<in> set a2b then Some (index_of a2b (int b)) else b2a ! b) [0..<m])"
proof -
  have "\<exists>s'. parallel_for (asize a2b) (\<lambda>a b2a. do { b \<leftarrow> rd a2b a; wr b2a b (Some a) }) b2a = Some s' \<and>
     length s' = m \<and> (\<forall>i. 0 \<le> i \<and> i < asize a2b \<longrightarrow> s' ! nat (a2b ! nat i) = Some i) \<and>
     (\<forall>k. (\<forall>i. 0 \<le> i \<and> i < asize a2b \<longrightarrow> a2b ! nat i \<noteq> int k) \<longrightarrow> s' ! k = b2a ! k)"
  proof (rule parallel_for_scatter)
    show "0 \<le> a2b ! nat i \<and> a2b ! nat i < int m" if "0 \<le> i" "i < asize a2b" for i
      using rng nth_int_mem [OF that] by blast
    show "Some i = Some j"
      if "0 \<le> i" "i < asize a2b" "0 \<le> j" "j < asize a2b" "a2b ! nat i = a2b ! nat j" for i j
      using distinct_nth_int_eq [OF d] that by simp
  qed (simp_all add: rd_Some len)
  then obtain s where s: "inject_map a2b b2a = Some s" "length s = m"
    "\<And>i. 0 \<le> i \<and> i < asize a2b \<Longrightarrow> s ! nat (a2b ! nat i) = Some i"
    "\<And>k. (\<And>i. 0 \<le> i \<and> i < asize a2b \<Longrightarrow> a2b ! nat i \<noteq> int k) \<Longrightarrow> s ! k = b2a ! k"
    by (auto simp: inject_map_def)
  have "s = map (\<lambda>b. if int b \<in> set a2b then Some (index_of a2b (int b)) else b2a ! b) [0..<m]"
  proof (rule nth_equalityI)
    fix k assume "k < length s"
    then have k: "k < m" using s(2) by simp
    show "s ! k = map (\<lambda>b. if int b \<in> set a2b then Some (index_of a2b (int b)) else b2a ! b) [0..<m] ! k"
    proof (cases "int k \<in> set a2b")
      case True
      then show ?thesis using s(3) [of "index_of a2b (int k)"] index_of_mem [OF True] k by simp
    next
      case False
      then have "a2b ! nat i \<noteq> int k" if "0 \<le> i \<and> i < asize a2b" for i
        using nth_int_mem [of i a2b] that by auto
      from s(4) [OF this] show ?thesis using False k by simp
    qed
  qed (use s(2) in simp)
  with s(1) show ?thesis by simp
qed

lemma invert_injective_map_eq:
  assumes "distinct a2b" "\<And>b. b \<in> set a2b \<Longrightarrow> 0 \<le> b \<and> b < nb" "0 \<le> nb"
  shows "invert_injective_map a2b nb =
    Some (map (\<lambda>b. if int b \<in> set a2b then index_of a2b (int b) else - 1) [0..<nat nb])"
proof -
  have "freeze (map (\<lambda>b. if int b \<in> set a2b then Some (index_of a2b (int b))
      else replicate (nat nb) (Some (- 1)) ! b) [0..<nat nb]) =
    Some (map (\<lambda>b. if int b \<in> set a2b then index_of a2b (int b) else - 1) [0..<nat nb])"
    by (rule freeze_eqI) auto
  then show ?thesis
    using inject_map_ex [OF assms(1), of "nat nb" "replicate (nat nb) (Some (- 1))"] assms(2,3)
    by (simp add: invert_injective_map_def Let_def)
qed

lemma invert_permutation_eq:
  assumes "distinct a2b" "set a2b = {0..<asize a2b}"
  shows "invert_permutation a2b = Some (map (\<lambda>b. index_of a2b (int b)) [0..<length a2b])"
proof -
  have "inject_map a2b (fresh (asize a2b)) =
      Some (map (\<lambda>b. if int b \<in> set a2b then Some (index_of a2b (int b))
        else fresh (asize a2b) ! b) [0..<length a2b])"
    by (rule inject_map_ex [OF assms(1)]) (use assms(2) in \<open>auto simp: asize_def\<close>)
  moreover have "freeze (map (\<lambda>b. if int b \<in> set a2b then Some (index_of a2b (int b))
      else fresh (asize a2b) ! b) [0..<length a2b]) =
    Some (map (\<lambda>b. index_of a2b (int b)) [0..<length a2b])"
    by (rule freeze_eqI) (use assms(2) in \<open>auto simp: asize_def\<close>)
  ultimately show ?thesis by (simp add: invert_permutation_def inject_map_def)
qed

lemma mark_image_eq:
  assumes "\<And>b. b \<in> set a2b \<Longrightarrow> 0 \<le> b \<and> b < nb" "0 \<le> nb"
  shows "mark_image a2b nb = Some (map (\<lambda>b. of_bool (int b \<in> set a2b)) [0..<nat nb])"
proof -
  let ?s = "replicate (nat nb) (Some (0::int))"
  have "\<exists>s'. parallel_for (asize a2b) (\<lambda>a out. do { b \<leftarrow> rd a2b a; wr out b (Some 1) }) ?s = Some s' \<and>
     length s' = nat nb \<and> (\<forall>i. 0 \<le> i \<and> i < asize a2b \<longrightarrow> s' ! nat (a2b ! nat i) = Some 1) \<and>
     (\<forall>k. (\<forall>i. 0 \<le> i \<and> i < asize a2b \<longrightarrow> a2b ! nat i \<noteq> int k) \<longrightarrow> s' ! k = ?s ! k)"
  proof (rule parallel_for_scatter)
    show "0 \<le> a2b ! nat i \<and> a2b ! nat i < int (nat nb)" if "0 \<le> i" "i < asize a2b" for i
      using assms(1) [OF nth_int_mem [OF that]] assms(2) by simp
  qed (simp_all add: rd_Some)
  then obtain s where s: "parallel_for (asize a2b) (\<lambda>a out. do { b \<leftarrow> rd a2b a; wr out b (Some 1) }) ?s = Some s"
    "length s = nat nb" "\<And>i. 0 \<le> i \<and> i < asize a2b \<Longrightarrow> s ! nat (a2b ! nat i) = Some 1"
    "\<And>k. (\<And>i. 0 \<le> i \<and> i < asize a2b \<Longrightarrow> a2b ! nat i \<noteq> int k) \<Longrightarrow> s ! k = ?s ! k"
    by blast
  have "freeze s = Some (map (\<lambda>b. of_bool (int b \<in> set a2b)) [0..<nat nb])"
  proof (rule freeze_eqI)
    fix k assume "k < length (map (\<lambda>b. of_bool (int b \<in> set a2b) :: int) [0..<nat nb])"
    then have k: "k < nat nb" by simp
    show "s ! k = Some (map (\<lambda>b. of_bool (int b \<in> set a2b)) [0..<nat nb] ! k)"
    proof (cases "int k \<in> set a2b")
      case True
      then show ?thesis using s(3) [of "index_of a2b (int k)"] index_of_mem [OF True] k by simp
    next
      case False
      then have "a2b ! nat i \<noteq> int k" if "0 \<le> i \<and> i < asize a2b" for i
        using nth_int_mem [of i a2b] that by auto
      from s(4) [OF this] show ?thesis using False k by simp
    qed
  qed (use s(2) in simp)
  then show ?thesis using s(1) assms(2) by (simp add: mark_image_def Let_def)
qed

text \<open>The indices of the marked items, in order.\<close>

definition marked_indices :: "int list \<Rightarrow> lo list" where
  "marked_indices marks = map int (filter (\<lambda>i. marks ! i \<noteq> 0) [0..<length marks])"

lemma sum_marks_take:
  assumes "set marks \<subseteq> {0, 1}" "k \<le> length marks"
  shows "sum_list (take k marks) = int (length (filter (\<lambda>i. marks ! i \<noteq> 0) [0..<k]))"
  using assms(2)
proof (induction k)
  case (Suc k)
  then have "marks ! k = 0 \<or> marks ! k = 1" using assms(1) nth_mem [of k marks] by fastforce
  then show ?case using Suc by (elim disjE) (simp_all add: take_Suc_conv_app_nth)
qed simp

lemma nth_filter_upt:
  assumes "k < n" "P k"
  shows "length (filter P [0..<k]) < length (filter P [0..<n])"
    and "filter P [0..<n] ! length (filter P [0..<k]) = k"
proof -
  have "[0..<n] = [0..<k] @ k # [Suc k..<n]"
    using assms(1) upt_add_eq_append [of 0 k "n - k"] upt_conv_Cons [of k n] by simp
  then have "filter P [0..<n] = filter P [0..<k] @ k # filter P [Suc k..<n]"
    using assms(2) by simp
  then show "length (filter P [0..<k]) < length (filter P [0..<n])"
    and "filter P [0..<n] ! length (filter P [0..<k]) = k" by simp_all
qed

lemma filter_upt_length_mono: "i \<le> j \<Longrightarrow> length (filter P [0..<i]) \<le> length (filter P [0..<j])"
proof -
  assume "i \<le> j"
  then have "[0..<j] = [0..<i] @ [i..<j]" by (metis le_add_diff_inverse upt_add_eq_append zero_le)
  then show ?thesis by simp
qed

text \<open>Writing item \<open>i\<close>, when it is kept, at the number of items kept before it: a stable compaction.\<close>

lemma compaction_loop:
  assumes f: "\<And>i s. i < n \<Longrightarrow> f (int i) s =
      (if P i then wr s (int (length (filter P [0..<i]))) (Some (h i)) else Some s)"
    and len: "length s = length (filter P [0..<n])"
  shows "\<exists>s'. parallel_for (int n) f s = Some s' \<and> freeze s' = Some (map h (filter P [0..<n]))"
proof -
  let ?c = "\<lambda>i. length (filter P [0..<i])"
  let ?Q = "\<lambda>i s. length s = ?c n \<and> (\<forall>k < ?c (nat i). s ! k = Some (map h (filter P [0..<n]) ! k))"
  have "\<exists>s'. parallel_for (int n) f s = Some s' \<and> ?Q (int n) s'"
  proof (rule parallel_for_rule)
    show "?Q 0 s" using len by simp
    fix i t assume i: "0 \<le> i" "i < int n" and Q: "?Q i t"
    let ?i = "nat i"
    have lt: "?i < n" "int ?i = i" "nat (i + 1) = Suc ?i" using i by auto
    show "\<exists>s'. f i t = Some s' \<and> ?Q (i + 1) s'"
    proof (cases "P ?i")
      case False
      then show ?thesis using f [OF lt(1), of t] lt Q by simp
    next
      case True
      note c = nth_filter_upt [of ?i n P, OF lt(1) True]
      let ?t = "t[?c ?i := Some (h ?i)]"
      have "f i t = Some ?t" using f [OF lt(1), of t] True lt(2) Q c(1) by simp
      moreover have "?t ! k = Some (map h (filter P [0..<n]) ! k)" if "k < ?c (Suc ?i)" for k
        using that Q c True by (cases "k = ?c ?i") auto
      ultimately show ?thesis using Q lt(3) by simp
    qed
  qed simp
  then obtain s' where s': "parallel_for (int n) f s = Some s'" "?Q (int n) s'" by blast
  then have "freeze s' = Some (map h (filter P [0..<n]))" by (intro freeze_eqI) simp_all
  with s'(1) show ?thesis by blast
qed

lemma collect_marked_eq:
  assumes "set marks \<subseteq> {0, 1}"
  shows "collect_marked marks = Some (marked_indices marks)"
proof -
  let ?P = "\<lambda>i. marks ! i \<noteq> 0" and ?n = "length marks"
  let ?N = "sum_list marks"
  have N: "?N = int (length (filter ?P [0..<?n]))" using sum_marks_take [OF assms, of ?n] by simp
  have "\<exists>s'. parallel_for (int ?n) (\<lambda>i marked. do { m \<leftarrow> rd marks i;
       if m \<noteq> 0 then do { p \<leftarrow> rd (offsets marks) i; wr marked p (Some i) } else Some marked }) (fresh ?N) = Some s' \<and>
     freeze s' = Some (map int (filter ?P [0..<?n]))"
  proof (rule compaction_loop)
    fix i and s :: "int option list" assume i: "i < ?n"
    then have "rd (offsets marks) (int i) = Some (int (length (filter ?P [0..<i])))"
      by (simp add: nth_offsets sum_marks_take [OF assms])
    then show "do { m \<leftarrow> rd marks (int i); if m \<noteq> 0 then do { p \<leftarrow> rd (offsets marks) (int i);
           wr s p (Some (int i)) } else Some s } =
       (if ?P i then wr s (int (length (filter ?P [0..<i]))) (Some (int i)) else Some s)"
      using i by simp
  qed (simp add: N)
  then obtain s' where "parallel_for (int ?n) (\<lambda>i marked. do { m \<leftarrow> rd marks i;
       if m \<noteq> 0 then do { p \<leftarrow> rd (offsets marks) i; wr marked p (Some i) } else Some marked }) (fresh ?N) = Some s'"
    "freeze s' = Some (map int (filter ?P [0..<?n]))" by blast
  then show ?thesis
    by (simp add: collect_marked_def offset_scan_eq N marked_indices_def Let_def asize_def)
qed

lemma set_marked_indices:
  "set (marked_indices marks) = {i. 0 \<le> i \<and> i < asize marks \<and> marks ! nat i \<noteq> 0}"
proof
  show "{i. 0 \<le> i \<and> i < asize marks \<and> marks ! nat i \<noteq> 0} \<subseteq> set (marked_indices marks)"
  proof
    fix i assume "i \<in> {i. 0 \<le> i \<and> i < asize marks \<and> marks ! nat i \<noteq> 0}"
    then show "i \<in> set (marked_indices marks)"
      by (simp add: marked_indices_def asize_def image_iff) (intro exI [of _ "nat i"], simp add: nat_less_iff)
  qed
qed (auto simp: marked_indices_def asize_def)

lemma distinct_marked_indices [simp]: "distinct (marked_indices marks)"
  by (simp add: marked_indices_def distinct_map)

lemma sorted_marked_indices [simp]: "sorted (marked_indices marks)"
proof -
  have "sorted (filter (\<lambda>i. marks ! i \<noteq> 0) [0..<length marks])" by (rule sorted_wrt_filter) simp
  then show ?thesis by (simp add: marked_indices_def sorted_map)
qed

lemma invert_marks_eq: "invert_marks marks = Some (map (\<lambda>m. of_bool (m = 0)) marks)"
  by (simp add: invert_marks_def)

section \<open>Properties\<close>

lemma permutation_inverse:
  assumes "distinct a2b" "set a2b = {0..<asize a2b}"
    and b2a: "b2a = map (\<lambda>b. index_of a2b (int b)) [0..<length a2b]"
  shows "asize b2a = asize a2b" "set b2a = {0..<asize a2b}"
    and "\<And>b. 0 \<le> b \<Longrightarrow> b < asize a2b \<Longrightarrow> a2b ! nat (b2a ! nat b) = b"
    and "\<And>a. 0 \<le> a \<Longrightarrow> a < asize a2b \<Longrightarrow> b2a ! nat (a2b ! nat a) = a"
proof -
  show len: "asize b2a = asize a2b" by (simp add: b2a asize_def)
  have nth: "b2a ! nat b = index_of a2b b" if "0 \<le> b" "b < asize a2b" for b
    using that by (simp add: b2a asize_def nat_less_iff)
  show ab: "a2b ! nat (b2a ! nat b) = b" if "0 \<le> b" "b < asize a2b" for b
    using that nth index_of_mem(3) [of b a2b] assms(2) by simp
  show ba: "b2a ! nat (a2b ! nat a) = a" if "0 \<le> a" "a < asize a2b" for a
    using nth [of "a2b ! nat a"] nth_int_mem [OF that] index_of_nth [OF assms(1) that] assms(2) by auto
  show "set b2a = {0..<asize a2b}"
  proof
    show "set b2a \<subseteq> {0..<asize a2b}"
      using index_of_mem(1,2) [of _ a2b] assms(2) by (auto simp: b2a asize_def)
    show "{0..<asize a2b} \<subseteq> set b2a"
    proof
      fix a assume "a \<in> {0..<asize a2b}"
      then have a: "0 \<le> a" "a < asize a2b" by auto
      then have "0 \<le> a2b ! nat a" "a2b ! nat a < asize b2a"
        using nth_int_mem [OF a] assms(2) len by auto
      from nth_int_mem [OF this] show "a \<in> set b2a" using ba [OF a] by simp
    qed
  qed
qed

text \<open>C21. Permuting data is lossless: for a permutation of the items, \<open>permute\<close> succeeds, gathering
  through the same map restores the data, \<open>invert_permutation\<close> gives the map through which the permuted
  data can be gathered directly, and composing the two maps in either order gives the identity.\<close>

theorem permute_roundtrip:
  assumes "distinct a2b" "set a2b = {0..<asize a2b}" "0 \<le> width" "asize a_data = asize a2b * width"
  shows "\<exists>b_data b2a. permute a_data a2b width = Some b_data \<and> invert_permutation a2b = Some b2a \<and>
    unmap a2b b_data width = Some a_data \<and> unmap b2a a_data width = Some b_data \<and>
    compound_maps a2b b2a = Some [0..asize a2b - 1] \<and> compound_maps b2a a2b = Some [0..asize a2b - 1]"
proof -
  let ?n = "asize a2b"
  obtain b_data where b: "permute a_data a2b width = Some b_data" "asize b_data = ?n * width"
    "\<And>a. 0 \<le> a \<and> a < ?n \<Longrightarrow> row width b_data (a2b ! nat a) = row width a_data a"
    using permute_ex [OF assms(3,4,1,2)] by blast
  define b2a where "b2a = map (\<lambda>b. index_of a2b (int b)) [0..<length a2b]"
  note inv = permutation_inverse [OF assms(1,2) b2a_def]
  have rows: "x * width + width \<le> ?n * width" if "x < ?n" for x
    using mult_right_mono [of "x + 1" ?n width] that assms(3) by (simp add: algebra_simps)
  obtain u where u: "unmap a2b b_data width = Some u" "asize u = ?n * width"
    "\<And>a. 0 \<le> a \<and> a < ?n \<Longrightarrow> row width u a = row width b_data (a2b ! nat a)"
    using unmap_ex [OF assms(3), of a2b b_data] assms(2) b(2) rows by auto
  have "u = a_data" using b(3) u(3) by (intro rows_eqI [OF assms(3) u(2) assms(4)]) simp
  moreover obtain v where v: "unmap b2a a_data width = Some v" "asize v = asize b2a * width"
    "\<And>a. 0 \<le> a \<and> a < asize b2a \<Longrightarrow> row width v a = row width a_data (b2a ! nat a)"
    using unmap_ex [OF assms(3), of b2a a_data] inv(2) assms(4) rows by auto
  have "v = b_data"
  proof (rule rows_eqI [OF assms(3) _ b(2)])
    fix i assume i: "0 \<le> i" "i < ?n"
    then have "b2a ! nat i \<in> {0..<?n}" using nth_int_mem [of i b2a] inv(1,2) by simp
    then show "row width v i = row width b_data i"
      using v(3) [of i] b(3) [of "b2a ! nat i"] inv(1) inv(3) [OF i] i by simp
  qed (use v(2) inv(1) in simp)
  moreover have "compound_maps a2b b2a = Some [0..?n - 1]"
  proof -
    have "map (\<lambda>b. b2a ! nat b) a2b = [0..?n - 1]"
    proof (rule nth_equalityI)
      fix k assume "k < length (map (\<lambda>b. b2a ! nat b) a2b)"
      then show "map (\<lambda>b. b2a ! nat b) a2b ! k = [0..?n - 1] ! k"
        using inv(4) [of "int k"] by (simp add: asize_def)
    qed (simp add: asize_def)
    then show ?thesis using compound_maps_eq [of a2b b2a] assms(2) inv(1) by auto
  qed
  moreover have "compound_maps b2a a2b = Some [0..?n - 1]"
  proof -
    have "map (\<lambda>b. a2b ! nat b) b2a = [0..?n - 1]"
    proof (rule nth_equalityI)
      fix k assume "k < length (map (\<lambda>b. a2b ! nat b) b2a)"
      then show "map (\<lambda>b. a2b ! nat b) b2a ! k = [0..?n - 1] ! k"
        using inv(3) [of "int k"] inv(1) by (simp add: asize_def)
    qed (use inv(1) in \<open>simp add: asize_def\<close>)
    then show ?thesis using compound_maps_eq [of b2a a2b] inv(2) by auto
  qed
  ultimately show ?thesis
    using b(1) u(1) v(1) invert_permutation_eq [OF assms(1,2)] by (simp add: b2a_def)
qed

theorem permute_roundtrip_witness:
  "\<exists>out. permute [10, 11, 20, 21, 30, 31 :: int] [2, 0, 1] 2 = Some out \<and>
     unmap [2, 0, 1] out 2 = Some [10, 11, 20, 21, 30, 31]"
proof -
  have "set [2, 0, 1] = {0..<asize [2, 0, 1 :: int]}" by auto
  then show ?thesis
    using permute_roundtrip [of "[2, 0, 1]" 2 "[10, 11, 20, 21, 30, 31 :: int]"] by auto
qed

text \<open>\<open>map_onto\<close> and \<open>unmap\<close> along an injective map into \<open>0 .. nb - 1\<close>: scattering a small array into
  a large one and gathering it back is the identity, and every row of the large array that the map
  does not hit holds the initial value.  \<open>invert_injective_map\<close> finds the source of every target and
  marks the others with -1.\<close>

theorem map_onto_roundtrip:
  assumes "distinct a2b" "\<forall>b \<in> set a2b. 0 \<le> b \<and> b < nb" "0 \<le> nb"
    and "0 \<le> width" "asize a_data = asize a2b * width"
  shows "\<exists>out b2a. map_onto a_data a2b nb init width = Some out \<and>
    unmap a2b out width = Some a_data \<and>
    (\<forall>b. 0 \<le> b \<and> b < nb \<and> b \<notin> set a2b \<longrightarrow> row width out b = replicate (nat width) init) \<and>
    invert_injective_map a2b nb = Some b2a \<and>
    (\<forall>b. 0 \<le> b \<and> b < nb \<longrightarrow>
       (if b \<in> set a2b then rd a2b (b2a ! nat b) = Some b else b2a ! nat b = - 1))"
proof -
  have rng: "0 \<le> b \<and> b < nb" if "b \<in> set a2b" for b using assms(2) that by blast
  obtain out where out: "map_onto a_data a2b nb init width = Some out" "asize out = nb * width"
    "\<And>a. 0 \<le> a \<and> a < asize a2b \<Longrightarrow> row width out (a2b ! nat a) = row width a_data a"
    "\<And>b. 0 \<le> b \<and> b < nb \<and> b \<notin> set a2b \<Longrightarrow> row width out b = replicate (nat width) init"
    using map_onto_ex [OF assms(4,3,5) rng assms(1), of init] by blast
  have "b * width + width \<le> nb * width" if "b \<in> set a2b" for b
    using mult_right_mono [of "b + 1" nb width] rng [OF that] assms(4) by (simp add: algebra_simps)
  then obtain u where u: "unmap a2b out width = Some u" "asize u = asize a2b * width"
    "\<And>a. 0 \<le> a \<and> a < asize a2b \<Longrightarrow> row width u a = row width out (a2b ! nat a)"
    using unmap_ex [OF assms(4), of a2b out] rng out(2) by auto
  have "u = a_data" using out(3) u(3) by (intro rows_eqI [OF assms(4) u(2) assms(5)]) simp
  moreover have "if b \<in> set a2b then rd a2b (map (\<lambda>b. if int b \<in> set a2b then index_of a2b (int b) else - 1)
        [0..<nat nb] ! nat b) = Some b
      else map (\<lambda>b. if int b \<in> set a2b then index_of a2b (int b) else - 1) [0..<nat nb] ! nat b = - 1"
    if "0 \<le> b \<and> b < nb" for b
    using that index_of_mem [of b a2b] by (simp add: rd_Some)
  ultimately show ?thesis
    using out(1,4) u(1) invert_injective_map_eq [OF assms(1) rng assms(3)] by blast
qed

theorem map_onto_roundtrip_witness:
  "\<exists>out. map_onto [5, 6 :: int] [3, 1] 4 0 1 = Some out \<and> unmap [3, 1] out 1 = Some [5, 6]"
  using map_onto_roundtrip [of "[3, 1]" 4 1 "[5, 6 :: int]" 0] by auto

text \<open>Marks and index lists are two views of one set: \<open>collect_marked\<close> lists the marked items in
  increasing order, each once, and nothing else; marking the image of that list gives the marks back.\<close>

theorem collect_marked_roundtrip:
  assumes "set marks \<subseteq> {0, 1}"
  shows "\<exists>marked. collect_marked marks = Some marked \<and>
    set marked = {i. 0 \<le> i \<and> i < asize marks \<and> marks ! nat i = 1} \<and>
    sorted_wrt (<) marked \<and> mark_image marked (asize marks) = Some marks"
proof -
  let ?m = "marked_indices marks"
  have one: "marks ! nat i \<noteq> 0 \<longleftrightarrow> marks ! nat i = 1" if "0 \<le> i" "i < asize marks" for i
    using nth_int_mem [OF that] assms by auto
  then have set: "set ?m = {i. 0 \<le> i \<and> i < asize marks \<and> marks ! nat i = 1}"
    by (auto simp: set_marked_indices)
  have "mark_image ?m (asize marks) = Some (map (\<lambda>b. of_bool (int b \<in> set ?m)) [0..<nat (asize marks)])"
    by (rule mark_image_eq) (auto simp: set)
  also have "map (\<lambda>b. of_bool (int b \<in> set ?m)) [0..<nat (asize marks)] = marks"
  proof (rule nth_equalityI)
    fix k assume "k < length (map (\<lambda>b. of_bool (int b \<in> set ?m)) [0..<nat (asize marks)] :: int list)"
    then have k: "k < length marks" by (simp add: asize_def)
    then have "marks ! k = 0 \<or> marks ! k = 1" using assms nth_mem [of k marks] by fastforce
    then show "map (\<lambda>b. of_bool (int b \<in> set ?m)) [0..<nat (asize marks)] ! k = marks ! k"
      using k by (auto simp: set asize_def)
  qed (simp add: asize_def)
  finally have "mark_image ?m (asize marks) = Some marks" .
  then show ?thesis
    using collect_marked_eq [OF assms] set by (auto simp: strict_sorted_iff)
qed

theorem collect_marked_roundtrip_witness:
  "\<exists>marked. collect_marked [1, 0, 0, 1, 1] = Some marked \<and> mark_image marked 5 = Some [1, 0, 0, 1, 1]"
  using collect_marked_roundtrip [of "[1, 0, 0, 1, 1]"] by auto

end
