(* ===== verification/Fans.thy ===== *)
theory Fans
  imports Map_Ops
begin

text \<open>
  Fans and inverse maps (the second half of \<open>src/src/Omega_h_map.cpp\<close>), and the \<open>Graph\<close> they build
  (\<open>src/src/Omega_h_graph.hpp\<close>).

  A graph stores a list of rows as the array of their offsets and their concatenation;
  \<open>graph_of R\<close> is the graph that stores \<open>R\<close>, and every well-formed graph is \<open>graph_of\<close> of its \<open>rows\<close>.
  Operations are specified on rows: the lemmas say which rows the resulting graph stores.
\<close>

section \<open>Rows and their offsets\<close>

abbreviation nonneg :: "int list \<Rightarrow> bool" where
  "nonneg ds \<equiv> (\<forall>d \<in> set ds. 0 \<le> d)"

definition sizes :: "'a list list \<Rightarrow> int list" where
  "sizes R = map (\<lambda>r. int (length r)) R"

definition row_start :: "'a list list \<Rightarrow> nat \<Rightarrow> nat" where
  "row_start R a = length (concat (take a R))"

lemma length_sizes [simp]: "length (sizes R) = length R"
  by (simp add: sizes_def)

lemma sizes_nonneg [simp]: "nonneg (sizes R)"
  by (auto simp: sizes_def)

lemma nth_sizes [simp]: "a < length R \<Longrightarrow> sizes R ! a = int (length (R ! a))"
  by (simp add: sizes_def)

lemma sum_sizes [simp]: "sum_list (sizes R) = int (length (concat R))"
  by (induction R) (simp_all add: sizes_def)

lemma sum_sizes_take: "sum_list (take a (sizes R)) = int (row_start R a)"
proof -
  have "take a (sizes R) = sizes (take a R)" by (simp add: sizes_def take_map)
  then show ?thesis by (simp add: row_start_def)
qed

lemma row_start_0 [simp]: "row_start R 0 = 0"
  by (simp add: row_start_def)

lemma row_start_Suc: "a < length R \<Longrightarrow> row_start R (Suc a) = row_start R a + length (R ! a)"
  by (simp add: row_start_def take_Suc_conv_app_nth)

lemma row_start_length [simp]: "row_start R (length R) = length (concat R)"
  by (simp add: row_start_def)

lemma row_start_mono: "a \<le> b \<Longrightarrow> row_start R a \<le> row_start R b"
proof (induction rule: dec_induct)
  case (step n)
  show ?case
  proof (cases "n < length R")
    case True
    with step show ?thesis by (simp add: row_start_Suc)
  next
    case False
    with step show ?thesis by (simp add: row_start_def)
  qed
qed simp

lemma nth_offsets_sizes: "a \<le> length R \<Longrightarrow> offsets (sizes R) ! a = int (row_start R a)"
  by (simp add: nth_offsets sum_sizes_take)

lemma concat_cell:
  assumes "a < length R" "t < length (R ! a)"
  shows "row_start R a + t < length (concat R)" "concat R ! (row_start R a + t) = R ! a ! t"
proof -
  have R: "concat R = concat (take a R) @ R ! a @ concat (drop (Suc a) R)"
    using assms(1) by (metis append_take_drop_id concat.simps(2) concat_append Cons_nth_drop_Suc)
  show "row_start R a + t < length (concat R)"
    using assms(2) by (subst R) (simp add: row_start_def)
  show "concat R ! (row_start R a + t) = R ! a ! t"
    using assms(2) by (subst R) (simp add: row_start_def nth_append)
qed

lemma row_of_concat:
  assumes "k < length (concat R)"
  shows "\<exists>a t. a < length R \<and> t < length (R ! a) \<and> k = row_start R a + t"
proof -
  have "\<exists>a t. a < n \<and> t < length (R ! a) \<and> k = row_start R a + t"
    if "n \<le> length R" "k < row_start R n" for n
    using that
  proof (induction n)
    case (Suc n)
    show ?case
    proof (cases "k < row_start R n")
      case True
      then show ?thesis using Suc by (auto intro: less_SucI)
    next
      case False
      then show ?thesis using Suc.prems
        by (intro exI [of _ n] exI [of _ "k - row_start R n"]) (auto simp: row_start_Suc)
    qed
  qed simp
  from this [of "length R"] show ?thesis using assms by simp
qed

lemma row_cell_inject:
  assumes "a < length R" "t < length (R ! a)" "b < length R" "u < length (R ! b)"
    and "row_start R a + t = row_start R b + u"
  shows "a = b \<and> t = u"
proof -
  have "\<not> a < b" if "row_start R a + t = row_start R b + u" "a < length R" "t < length (R ! a)" for a b t u
    using that row_start_mono [of "Suc a" b R] by (auto simp: row_start_Suc Suc_le_eq)
  from this [of a t b u] this [of b u a t] have "a = b" using assms by (simp add: not_less)
  then show ?thesis using assms(5) by simp
qed

lemma freeze_concat:
  assumes "length w = length (concat R)"
    and "\<And>a t. a < length R \<Longrightarrow> t < length (R ! a) \<Longrightarrow> w ! (row_start R a + t) = Some (R ! a ! t)"
  shows "freeze w = Some (concat R)"
proof (rule freeze_eqI)
  fix k assume "k < length (concat R)"
  then obtain a t where at: "a < length R" "t < length (R ! a)" "k = row_start R a + t"
    using row_of_concat by blast
  show "w ! k = Some (concat R ! k)"
    unfolding at(3) concat_cell(2) [OF at(1,2)] by (rule assms(2) [OF at(1,2)])
qed (rule assms(1))

text \<open>
  The loop of every operation that builds a graph: iteration \<open>a\<close> fills the cells of row \<open>a\<close>.
\<close>

lemma fill_groups:
  assumes n: "n = int (length R)" "m = int (length (concat R))"
    and f: "\<And>a s. a < length R \<Longrightarrow> length s = length (concat R) \<Longrightarrow>
      \<exists>s'. f (int a) s = Some s' \<and> length s' = length s \<and>
        (\<forall>t < length (R ! a). s' ! (row_start R a + t) = Some (R ! a ! t)) \<and>
        (\<forall>k. k < row_start R a \<or> row_start R (Suc a) \<le> k \<longrightarrow> s' ! k = s ! k)"
  shows "do { s \<leftarrow> parallel_for n f (fresh m); freeze s } = Some (concat R)"
proof -
  let ?reg = "\<lambda>a. {row_start R (nat a)..<row_start R (Suc (nat a))}"
  let ?V = "\<lambda>k. Some (concat R ! k)"
  have "\<exists>s'. run_for [0..n - 1] f (fresh m) = Some s' \<and> length s' = length (concat R) \<and>
     (\<forall>k \<in> \<Union>(?reg ` set [0..n - 1]). s' ! k = ?V k) \<and>
     (\<forall>k. k \<notin> \<Union>(?reg ` set [0..n - 1]) \<longrightarrow> s' ! k = fresh m ! k)"
  proof (rule run_for_regions)
    fix i and s :: "'a option list"
    assume "i \<in> set [0..n - 1]" and len: "length s = length (concat R)"
    then have i: "nat i < length R" "int (nat i) = i" using n by auto
    obtain s' where s': "f i s = Some s'" "length s' = length s"
      "\<And>t. t < length (R ! nat i) \<Longrightarrow> s' ! (row_start R (nat i) + t) = Some (R ! nat i ! t)"
      "\<And>k. k < row_start R (nat i) \<or> row_start R (Suc (nat i)) \<le> k \<Longrightarrow> s' ! k = s ! k"
      using f [OF i(1) len] i(2) by auto
    have "s' ! k = ?V k" if "k \<in> ?reg i" for k
    proof -
      from that i(1) have "k - row_start R (nat i) < length (R ! nat i)" by (auto simp: row_start_Suc)
      from s'(3) [OF this] concat_cell(2) [OF i(1) this] that show ?thesis by simp
    qed
    moreover have "s' ! k = s ! k" if "k \<notin> ?reg i" for k
      using that by (intro s'(4)) auto
    ultimately show "\<exists>s'. f i s = Some s' \<and> length s' = length (concat R) \<and>
        (\<forall>k \<in> ?reg i. s' ! k = ?V k) \<and> (\<forall>k. k \<notin> ?reg i \<longrightarrow> s' ! k = s ! k)"
      using s'(1,2) len by auto
  qed (simp add: n)
  then obtain s' where s': "run_for [0..n - 1] f (fresh m) = Some s'" "length s' = length (concat R)"
    "\<And>k. k \<in> \<Union>(?reg ` set [0..n - 1]) \<Longrightarrow> s' ! k = ?V k" by blast
  have "freeze s' = Some (concat R)"
  proof (rule freeze_concat [OF s'(2)])
    fix a t assume a: "a < length R" "t < length (R ! a)"
    then have "row_start R a + t \<in> ?reg (int a)" "int a \<in> set [0..n - 1]"
      using n by (auto simp: row_start_Suc)
    then show "s' ! (row_start R a + t) = Some (R ! a ! t)"
      using s'(3) concat_cell(2) [OF a] by (metis UN_I)
  qed
  then show ?thesis using s'(1) by (simp add: parallel_for_def for_range_def)
qed

section \<open>Graphs\<close>

record graph =
  a2ab :: "lo list"
  ab2b :: "lo list"

definition graph_of :: "lo list list \<Rightarrow> graph" where
  "graph_of R = \<lparr>a2ab = offsets (sizes R), ab2b = concat R\<rparr>"

definition rows :: "graph \<Rightarrow> lo list list" where
  "rows g = map (\<lambda>a. map (\<lambda>k. ab2b g ! nat k) [a2ab g ! a..a2ab g ! Suc a - 1])
     [0..<length (a2ab g) - 1]"

definition is_fan :: "lo list \<Rightarrow> bool" where
  "is_fan a2b \<longleftrightarrow> a2b \<noteq> [] \<and> a2b ! 0 = 0 \<and> sorted a2b"

definition valid_graph :: "graph \<Rightarrow> bool" where
  "valid_graph g \<longleftrightarrow> is_fan (a2ab g) \<and> last (a2ab g) = asize (ab2b g)"

lemma graph_of_simps [simp]:
  "a2ab (graph_of R) = offsets (sizes R)" "ab2b (graph_of R) = concat R"
  by (simp_all add: graph_of_def)

lemma is_fan_offsets:
  assumes "nonneg ds"
  shows "is_fan (offsets ds)"
proof -
  have "sorted (offsets ds)"
    by (rule sorted_iff_nth_Suc [THEN iffD2]) (auto simp: offsets_Suc assms)
  then show ?thesis by (simp add: is_fan_def)
qed

definition degrees :: "lo list \<Rightarrow> int list" where
  "degrees a2b = map (\<lambda>k. a2b ! Suc k - a2b ! k) [0..<length a2b - 1]"

lemma offsets_degrees:
  assumes "is_fan a2b"
  shows "offsets (degrees a2b) = a2b" "nonneg (degrees a2b)"
proof -
  have len: "length (degrees a2b) = length a2b - 1" "a2b \<noteq> []" using assms
    by (simp_all add: degrees_def is_fan_def)
  show "offsets (degrees a2b) = a2b"
  proof (rule nth_equalityI)
    show "length (offsets (degrees a2b)) = length a2b" using len by simp
    show "offsets (degrees a2b) ! k = a2b ! k" if "k < length (offsets (degrees a2b))" for k
      using that
    proof (induction k)
      case 0
      then show ?case using assms by (simp add: is_fan_def)
    next
      case (Suc k)
      then show ?case using len by (simp add: offsets_Suc degrees_def)
    qed
  qed
  show "nonneg (degrees a2b)"
    using assms sorted_iff_nth_Suc [of a2b] by (auto simp: degrees_def is_fan_def)
qed

lemma degrees_offsets [simp]: "degrees (offsets ds) = ds"
  by (rule nth_equalityI) (simp_all add: degrees_def offsets_Suc)

lemma graph_of_rows:
  assumes "valid_graph g"
  shows "graph_of (rows g) = g"
proof -
  let ?o = "a2ab g"
  have fan: "is_fan ?o" and last: "last ?o = asize (ab2b g)"
    using assms by (simp_all add: valid_graph_def)
  have len: "?o \<noteq> []" using fan by (simp add: is_fan_def)
  have "sizes (rows g) = degrees ?o"
    using fan sorted_iff_nth_Suc [of ?o] by (auto simp: sizes_def rows_def degrees_def is_fan_def)
  then have off: "offsets (sizes (rows g)) = ?o" using offsets_degrees(1) [OF fan] by simp
  have n: "length (rows g) = length ?o - 1" by (simp add: rows_def)
  have start: "int (row_start (rows g) a) = ?o ! a" if "a \<le> length (rows g)" for a
    using nth_offsets_sizes [OF that] off by simp
  have "concat (rows g) = ab2b g"
  proof (rule nth_equalityI)
    show "length (concat (rows g)) = length (ab2b g)"
    proof -
      have "int (length (concat (rows g))) = ?o ! length (rows g)"
        using start [of "length (rows g)"] by simp
      also have "\<dots> = last ?o" unfolding n last_conv_nth [OF len] ..
      finally show ?thesis by (simp add: last asize_def)
    qed
    fix k assume "k < length (concat (rows g))"
    then obtain a t where at: "a < length (rows g)" "t < length (rows g ! a)" "k = row_start (rows g) a + t"
      using row_of_concat by blast
    then have "concat (rows g) ! k = rows g ! a ! t" using concat_cell(2) by simp
    also have "\<dots> = ab2b g ! nat (?o ! a + int t)" using at(1,2) n by (simp add: rows_def)
    also have "nat (?o ! a + int t) = k" using start [of a] at by simp
    finally show "concat (rows g) ! k = ab2b g ! k" .
  qed
  with off show ?thesis by (simp add: graph_of_def)
qed

lemma rows_graph_of [simp]: "rows (graph_of R) = R"
proof (rule nth_equalityI)
  show "length (rows (graph_of R)) = length R" by (simp add: rows_def)
  fix a assume "a < length (rows (graph_of R))"
  then have a: "a < length R" by (simp add: rows_def)
  show "rows (graph_of R) ! a = R ! a"
  proof (rule nth_equalityI)
    show "length (rows (graph_of R) ! a) = length (R ! a)"
      using a by (simp add: rows_def nth_offsets_sizes row_start_Suc)
    fix t assume "t < length (rows (graph_of R) ! a)"
    then have "t < length (R ! a)" using a by (simp add: rows_def nth_offsets_sizes row_start_Suc)
    then show "rows (graph_of R) ! a ! t = R ! a ! t"
      using a concat_cell(2) [OF a]
      by (simp add: rows_def nth_offsets_sizes row_start_Suc nat_add_distrib)
  qed
qed

lemma valid_graph_of [simp]: "valid_graph (graph_of R)"
proof -
  have "is_fan (offsets (sizes R))" by (rule is_fan_offsets) (rule sizes_nonneg)
  then show ?thesis
    by (simp add: valid_graph_def last_conv_nth nth_offsets_sizes asize_def)
qed

section \<open>Operations on fans\<close>

definition get_degrees :: "lo list \<Rightarrow> int list option" where
  "get_degrees offs =
     fill_each (asize offs - 1) (\<lambda>i. do { y \<leftarrow> rd offs (i + 1); x \<leftarrow> rd offs i; Some (y - x) })"

definition multiply_fans :: "lo list \<Rightarrow> lo list \<Rightarrow> lo list option" where
  "multiply_fans a2b a2c = do {
     b_degrees \<leftarrow> get_degrees a2b;
     c_degrees \<leftarrow> get_degrees a2c;
     degrees \<leftarrow> multiply_each b_degrees c_degrees;
     offset_scan degrees
   }"

definition expand_into :: "'a list \<Rightarrow> lo list \<Rightarrow> 'a option list \<Rightarrow> lo \<Rightarrow> 'a option list option" where
  "expand_into a_data a2b b_data width = do {
     let na = asize a2b - 1;
     omega_check (asize a_data = na * width);
     parallel_for na (\<lambda>a b_data. do {
       b0 \<leftarrow> rd a2b a;
       b1 \<leftarrow> rd a2b (a + 1);
       for_range b0 b1 (\<lambda>b b_data.
         for_range 0 width (\<lambda>j b_data. do {
           x \<leftarrow> rd a_data (a * width + j);
           wr b_data (b * width + j) (Some x)
         }) b_data) b_data
     }) b_data
   }"

definition expand :: "'a list \<Rightarrow> lo list \<Rightarrow> lo \<Rightarrow> 'a list option" where
  "expand a_data a2b width = do {
     nb \<leftarrow> rd_last a2b;
     b_data \<leftarrow> alloc (nb * width);
     b_data \<leftarrow> expand_into a_data a2b b_data width;
     freeze b_data
   }"

definition invert_fan :: "lo list \<Rightarrow> lo list option" where
  "invert_fan a2b = do {
     let na = asize a2b - 1;
     nb \<leftarrow> rd_last a2b;
     omega_check (0 \<le> nb);
     let b2a = replicate (nat nb) (Some (- 1));
     b2a \<leftarrow> parallel_for na (\<lambda>a b2a. do {
       x \<leftarrow> rd a2b a;
       y \<leftarrow> rd a2b (a + 1);
       if x \<noteq> y then wr b2a x (Some a) else Some b2a
     }) b2a;
     b2a \<leftarrow> fill_right b2a;
     freeze b2a
   }"

definition mark_fan_preimage :: "lo list \<Rightarrow> int list option" where
  "mark_fan_preimage a2b = do {
     omega_check (asize a2b \<ge> 1);
     fill_each (asize a2b - 1) (\<lambda>i. do { x \<leftarrow> rd a2b i; y \<leftarrow> rd a2b (i + 1); Some (of_bool (x \<noteq> y)) })
   }"

text \<open>
  The functor of a reduction is its initial value and its join; \<open>cast\<close> converts the result, computed
  in the promoted type, back to the array's type.
\<close>

definition fan_reduce_tmpl ::
    "'v \<Rightarrow> ('v \<Rightarrow> 'a \<Rightarrow> 'v) \<Rightarrow> ('v \<Rightarrow> 'a) \<Rightarrow> lo list \<Rightarrow> 'a list \<Rightarrow> lo \<Rightarrow> 'a list option" where
  "fan_reduce_tmpl functor_init functor_join cast a2b b_data width = do {
     nb \<leftarrow> rd_last a2b;
     omega_check (nb * width = asize b_data);
     let na = asize a2b - 1;
     a_data \<leftarrow> alloc (na * width);
     a_data \<leftarrow> parallel_for na (\<lambda>a.
       for_range 0 width (\<lambda>j a_data. do {
         b0 \<leftarrow> rd a2b a;
         b1 \<leftarrow> rd a2b (a + 1);
         res \<leftarrow> for_range b0 b1 (\<lambda>b res. do {
           update \<leftarrow> rd b_data (b * width + j);
           Some (functor_join res update)
         }) functor_init;
         wr a_data (a * width + j) (Some (cast res))
       })) a_data;
     freeze a_data
   }"

datatype omega_h_op = OMEGA_H_MIN | OMEGA_H_MAX | OMEGA_H_SUM

text \<open>
  The instances for the integers of 8, 32 and 64 bits (\<open>I8\<close>, \<open>I32\<close>, \<open>I64\<close>): the least and greatest values
  of the type (\<open>ArithTraits\<close>), the type in which a reduction is computed, 32 bits for 8 (\<open>promoted_t\<close>), and
  the conversion to a type.  A sum that leaves the promoted type wraps around.
\<close>

definition arith_min :: "nat \<Rightarrow> int" where
  "arith_min bits = - (2 ^ (bits - 1))"

definition arith_max :: "nat \<Rightarrow> int" where
  "arith_max bits = 2 ^ (bits - 1) - 1"

definition promoted_bits :: "nat \<Rightarrow> nat" where
  "promoted_bits bits = (if bits = 8 then 32 else bits)"

definition int_cast :: "nat \<Rightarrow> int \<Rightarrow> int" where
  "int_cast bits x = signed_take_bit (bits - 1) x"

definition fan_reduce_int :: "nat \<Rightarrow> lo list \<Rightarrow> int list \<Rightarrow> lo \<Rightarrow> omega_h_op \<Rightarrow> int list option" where
  "fan_reduce_int bits a2b b_data width op2 =
     (case op2 of
        OMEGA_H_MIN \<Rightarrow> fan_reduce_tmpl (arith_max bits) min (int_cast bits) a2b b_data width
      | OMEGA_H_MAX \<Rightarrow> fan_reduce_tmpl (arith_min bits) max (int_cast bits) a2b b_data width
      | OMEGA_H_SUM \<Rightarrow> fan_reduce_tmpl 0 (\<lambda>update input. int_cast (promoted_bits bits) (update + input))
          (int_cast bits) a2b b_data width)"

text \<open>The instance for \<open>LO\<close>.\<close>

definition fan_reduce :: "lo list \<Rightarrow> int list \<Rightarrow> lo \<Rightarrow> omega_h_op \<Rightarrow> int list option" where
  "fan_reduce a2b b_data width op2 = fan_reduce_int 32 a2b b_data width op2"

lemma get_degrees_eq:
  assumes "a2b \<noteq> []"
  shows "get_degrees a2b = Some (degrees a2b)"
proof -
  have n: "asize a2b - 1 = int (length a2b - 1)" using assms by (cases a2b) (simp_all add: asize_def)
  have "get_degrees a2b = Some (map (\<lambda>k. a2b ! Suc k - a2b ! k) [0..<nat (asize a2b - 1)])"
    unfolding get_degrees_def
  proof (rule fill_each_Some)
    fix k assume "int k < asize a2b - 1"
    then have "k < length a2b" "Suc k < length a2b" by (simp_all add: asize_def)
    then show "do { y \<leftarrow> rd a2b (int k + 1); x \<leftarrow> rd a2b (int k); Some (y - x) } =
        Some (a2b ! Suc k - a2b ! k)"
      using rd_int [of "Suc k" a2b] by (simp add: add.commute)
  qed (simp add: n)
  then show ?thesis by (simp add: degrees_def n)
qed

lemma get_degrees_offsets [simp]: "get_degrees (offsets ds) = Some ds"
  by (simp add: get_degrees_eq)

lemma multiply_fans_eq:
  "length ds = length es \<Longrightarrow> multiply_fans (offsets ds) (offsets es) = Some (offsets (map2 (*) ds es))"
  by (simp add: multiply_fans_def multiply_each_same offset_scan_eq)

lemma mark_fan_preimage_eq: "mark_fan_preimage (offsets ds) = Some (map (\<lambda>d. of_bool (d \<noteq> 0)) ds)"
proof -
  have "fill_each (asize ds) (\<lambda>i. do { x \<leftarrow> rd (offsets ds) i; y \<leftarrow> rd (offsets ds) (i + 1);
      Some (of_bool (x \<noteq> y)) }) = Some (map (\<lambda>d. of_bool (d \<noteq> 0)) ds)"
  proof (rule fill_each_map)
    fix k assume "k < length ds"
    then show "do { x \<leftarrow> rd (offsets ds) (int k); y \<leftarrow> rd (offsets ds) (int k + 1);
        Some (of_bool (x \<noteq> y)) } = Some (of_bool (ds ! k \<noteq> 0))"
      using rd_int [of "Suc k" "offsets ds"] by (simp add: offsets_Suc add.commute)
  qed simp
  then show ?thesis by (simp add: mark_fan_preimage_def)
qed

subsection \<open>The owners of the items of a fan\<close>

text \<open>\<open>blocks ds\<close> repeats every index as often as its degree says.\<close>

definition blocks :: "int list \<Rightarrow> lo list list" where
  "blocks ds = map (\<lambda>a. replicate (nat (ds ! a)) (int a)) [0..<length ds]"

definition owners :: "int list \<Rightarrow> lo list" where
  "owners ds = concat (blocks ds)"

lemma length_blocks [simp]: "length (blocks ds) = length ds"
  by (simp add: blocks_def)

lemma nth_blocks: "a < length ds \<Longrightarrow> blocks ds ! a = replicate (nat (ds ! a)) (int a)"
  by (simp add: blocks_def)

lemma sizes_blocks:
  assumes "nonneg ds"
  shows "sizes (blocks ds) = ds"
  using assms by (intro nth_equalityI) (simp_all add: nth_blocks)

lemma offsets_blocks:
  assumes "nonneg ds" "a \<le> length ds"
  shows "offsets ds ! a = int (row_start (blocks ds) a)"
  using nth_offsets_sizes [of a "blocks ds"] sizes_blocks [OF assms(1)] assms(2) by simp

lemma asize_owners:
  assumes "nonneg ds"
  shows "asize (owners ds) = sum_list ds"
  using sum_sizes [of "blocks ds"] sizes_blocks [OF assms] by (simp add: owners_def asize_def)

lemma owners_nth:
  assumes nn: "nonneg ds" and a: "0 \<le> a" "a < asize ds"
    and b: "offsets ds ! nat a \<le> b" "b < offsets ds ! nat (a + 1)"
  shows "0 \<le> b" "b < asize (owners ds)" "owners ds ! nat b = a"
proof -
  let ?a = "nat a" and ?R = "blocks ds"
  have a': "?a < length ?R" "nat (a + 1) = Suc ?a" using a by (simp_all add: asize_def nat_less_iff)
  have b': "int (row_start ?R ?a) \<le> b" "b < int (row_start ?R ?a) + int (length (?R ! ?a))"
    using b a' by (simp_all add: offsets_blocks [OF nn] row_start_Suc)
  then have t: "nat b - row_start ?R ?a < length (?R ! ?a)" "nat b = row_start ?R ?a + (nat b - row_start ?R ?a)"
    by linarith+
  show "0 \<le> b" using b' by linarith
  then show "b < asize (owners ds)"
    using concat_cell(1) [OF a'(1) t(1)] t(2) by (simp add: owners_def asize_def nat_less_iff)
  have "owners ds ! nat b = ?R ! ?a ! (nat b - row_start ?R ?a)"
    unfolding owners_def using concat_cell(2) [OF a'(1) t(1)] t(2) by simp
  also have "\<dots> = a" using a' t(1) a(1) by (simp add: nth_blocks)
  finally show "owners ds ! nat b = a" .
qed

lemma owner_exists:
  assumes nn: "nonneg ds" and b: "0 \<le> b" "b < asize (owners ds)"
  shows "0 \<le> owners ds ! nat b" "owners ds ! nat b < asize ds"
    and "offsets ds ! nat (owners ds ! nat b) \<le> b" "b < offsets ds ! nat (owners ds ! nat b + 1)"
proof -
  let ?R = "blocks ds"
  have "nat b < length (concat ?R)" using b by (simp add: owners_def asize_def nat_less_iff)
  then obtain a t where at: "a < length ?R" "t < length (?R ! a)" "nat b = row_start ?R a + t"
    using row_of_concat by blast
  have own: "owners ds ! nat b = int a"
    unfolding owners_def at(3) concat_cell(2) [OF at(1,2)] using at by (simp add: nth_blocks)
  show "0 \<le> owners ds ! nat b" "owners ds ! nat b < asize ds" using own at(1) by (simp_all add: asize_def)
  have "nat (int a + 1) = Suc a" by simp
  then show "offsets ds ! nat (owners ds ! nat b) \<le> b" "b < offsets ds ! nat (owners ds ! nat b + 1)"
    unfolding own using at b(1) by (simp_all add: offsets_blocks [OF nn] row_start_Suc)
qed

lemma expand_ex:
  assumes nn: "nonneg ds" and w: "0 \<le> w" and sz: "asize a_data = asize ds * w"
  shows "\<exists>out. expand a_data (offsets ds) w = Some out \<and> asize out = asize (owners ds) * w \<and>
    (\<forall>b. 0 \<le> b \<and> b < asize (owners ds) \<longrightarrow> row w out b = row w a_data (owners ds ! nat b))"
proof -
  let ?o = "offsets ds" and ?nb = "asize (owners ds)"
  let ?js = "\<lambda>a. [?o ! nat a..?o ! nat (a + 1) - 1]"
  let ?is = "concat (map (\<lambda>a. map (Pair a) (?js a)) [0..asize ds - 1])"
  let ?F = "\<lambda>(a, b) s. for_range 0 w (\<lambda>j b_data. do {
       x \<leftarrow> rd a_data (a * w + j); wr b_data (b * w + j) (Some x) }) s"
  have is_set: "ab \<in> set ?is \<longleftrightarrow> 0 \<le> fst ab \<and> fst ab < asize ds \<and>
      ?o ! nat (fst ab) \<le> snd ab \<and> snd ab < ?o ! nat (fst ab + 1)" for ab
    by (cases ab) (auto simp: image_iff)
  have own: "0 \<le> snd ab" "snd ab < ?nb" "owners ds ! nat (snd ab) = fst ab" if "ab \<in> set ?is" for ab
    using owners_nth [OF nn, of "fst ab" "snd ab"] that by (simp_all add: is_set del: set_concat)
  have "parallel_for (asize ds) (\<lambda>a b_data. do { b0 \<leftarrow> rd ?o a; b1 \<leftarrow> rd ?o (a + 1);
       for_range b0 b1 (\<lambda>b b_data. for_range 0 w (\<lambda>j b_data. do {
           x \<leftarrow> rd a_data (a * w + j); wr b_data (b * w + j) (Some x) }) b_data) b_data }) (fresh (?nb * w)) =
     run_for [0..asize ds - 1] (\<lambda>a s. run_for (?js a) (\<lambda>b. ?F (a, b)) s) (fresh (?nb * w))"
    unfolding parallel_for_def for_range_def [of 0 "asize ds"]
    by (rule run_for_cong) (simp add: rd_Some flip: for_range_def)
  also have "\<dots> = run_for ?is ?F (fresh (?nb * w))"
    using run_for_nested_dep [of "[0..asize ds - 1]" ?js "\<lambda>a b. ?F (a, b)"] by simp
  finally have loop: "parallel_for (asize ds) (\<lambda>a b_data. do { b0 \<leftarrow> rd ?o a; b1 \<leftarrow> rd ?o (a + 1);
       for_range b0 b1 (\<lambda>b b_data. for_range 0 w (\<lambda>j b_data. do {
           x \<leftarrow> rd a_data (a * w + j); wr b_data (b * w + j) (Some x) }) b_data) b_data }) (fresh (?nb * w)) =
     run_for ?is ?F (fresh (?nb * w))" .
  have "\<exists>s'. run_for ?is ?F (fresh (?nb * w)) = Some s' \<and> length s' = length (fresh (?nb * w) :: 'a option list) \<and>
     (\<forall>ab j. ab \<in> set ?is \<and> 0 \<le> j \<and> j < w \<longrightarrow>
        s' ! nat (snd ab * w + j) = Some (a_data ! nat (fst ab * w + j))) \<and>
     (\<forall>b j. 0 \<le> b \<and> b < ?nb \<and> 0 \<le> j \<and> j < w \<and> b \<notin> snd ` set ?is \<longrightarrow>
        s' ! nat (b * w + j) = fresh (?nb * w) ! nat (b * w + j))"
  proof (rule scatter_rows_list)
    show "?F ab s = for_range 0 w (\<lambda>j s. do {
        v \<leftarrow> do { x \<leftarrow> rd a_data (fst ab * w + j); Some (Some x) }; wr s (snd ab * w + j) v }) s" for ab s
      by (cases ab) (simp add: Option.bind_assoc)
    show "do { x \<leftarrow> rd a_data (fst ab * w + j); Some (Some x) } = Some (Some (a_data ! nat (fst ab * w + j)))"
      if "ab \<in> set ?is" "0 \<le> j" "j < w" for ab j
      using int_row_bound(1) [OF _ _ that(2,3) sz] that(1) by (simp add: is_set del: set_concat)
    show "0 \<le> snd ab \<and> snd ab < ?nb" if "ab \<in> set ?is" for ab
      using own [OF that] by simp
    show "Some (a_data ! nat (fst ab * w + j)) = Some (a_data ! nat (fst cd * w + j))"
      if "ab \<in> set ?is" "cd \<in> set ?is" "snd ab = snd cd" for ab cd j
      using own(3) [OF that(1)] own(3) [OF that(2)] that(3) by simp
  qed simp
  then obtain s where s: "run_for ?is ?F (fresh (?nb * w)) = Some s"
    "length s = length (fresh (?nb * w) :: 'a option list)"
    "\<And>ab j. ab \<in> set ?is \<and> 0 \<le> j \<and> j < w \<Longrightarrow>
        s ! nat (snd ab * w + j) = Some (a_data ! nat (fst ab * w + j))" by blast
  have cell: "s ! nat (b * w + j) = Some (a_data ! nat (owners ds ! nat b * w + j))"
    if "0 \<le> b" "b < ?nb" "0 \<le> j" "j < w" for b j
  proof -
    have "(owners ds ! nat b, b) \<in> set ?is"
      unfolding is_set using owner_exists [OF nn that(1,2)] by simp
    then show ?thesis using s(3) [of "(owners ds ! nat b, b)" j] that by simp
  qed
  have "\<exists>out. freeze s = Some out \<and> asize out = ?nb * w \<and>
    (\<forall>b j. 0 \<le> b \<and> b < ?nb \<and> 0 \<le> j \<and> j < w \<longrightarrow>
       out ! nat (b * w + j) = a_data ! nat (owners ds ! nat b * w + j))"
    by (rule freeze_rows [OF w]) (simp_all add: s(2) cell)
  then obtain out where out: "freeze s = Some out" "asize out = ?nb * w"
    "\<And>b j. 0 \<le> b \<and> b < ?nb \<and> 0 \<le> j \<and> j < w \<Longrightarrow>
       out ! nat (b * w + j) = a_data ! nat (owners ds ! nat b * w + j)" by blast
  have "expand a_data ?o w = Some out"
    using sz w s(1) out(1) loop by (simp add: expand_def expand_into_def Let_def flip: asize_owners [OF nn])
  then show ?thesis using out(2,3) by (auto simp: row_eq_iff)
qed

lemma expand_1:
  assumes nn: "nonneg ds" and sz: "length a_data = length ds"
  shows "expand a_data (offsets ds) 1 = Some (map (\<lambda>a. a_data ! nat a) (owners ds))"
proof -
  obtain out where out: "expand a_data (offsets ds) 1 = Some out" "asize out = asize (owners ds)"
    "\<And>b. 0 \<le> b \<and> b < asize (owners ds) \<Longrightarrow> row 1 out b = row 1 a_data (owners ds ! nat b)"
    using expand_ex [OF nn, of 1 a_data] sz by (auto simp: asize_def)
  have "out = map (\<lambda>a. a_data ! nat a) (owners ds)"
  proof (rule nth_equalityI)
    fix k assume "k < length out"
    then show "out ! k = map (\<lambda>a. a_data ! nat a) (owners ds) ! k"
      using out(2) out(3) [of "int k"] by (simp add: asize_def)
  qed (use out(2) in \<open>simp add: asize_def\<close>)
  with out(1) show ?thesis by simp
qed

subsection \<open>Inverting a fan\<close>

lemma invert_fan_eq:
  assumes nn: "nonneg ds"
  shows "invert_fan (offsets ds) = Some (owners ds)"
proof -
  let ?o = "offsets ds" and ?nb = "length (owners ds)" and ?own = "\<lambda>k. owners ds ! k"
  have nb: "sum_list ds = int ?nb" using asize_owners [OF nn] by (simp add: asize_def)
  let ?c = "\<lambda>a. ?o ! nat a \<noteq> ?o ! nat (a + 1)"
  let ?is = "filter ?c [0..asize ds - 1]"
  let ?s = "replicate ?nb (Some (- 1 :: int))"
  have fan: "is_fan ?o" by (rule is_fan_offsets) (rule nn)
  have step: "?o ! nat a < ?o ! nat (a + 1)" if "a \<in> set ?is" for a
  proof -
    have "nat (a + 1) = Suc (nat a)" "nat a < length ds" using that by (auto simp: asize_def)
    moreover have "0 \<le> ds ! nat a" using nn \<open>nat a < length ds\<close> by simp
    ultimately show ?thesis using that by (auto simp: offsets_Suc)
  qed
  have start: "0 \<le> ?o ! nat a" "?o ! nat a < int ?nb" "?own (nat (?o ! nat a)) = a" if "a \<in> set ?is" for a
    using owners_nth [OF nn, of a "?o ! nat a"] step [OF that] that by (auto simp: asize_def)
  have "parallel_for (asize ds) (\<lambda>a b2a. do { x \<leftarrow> rd ?o a; y \<leftarrow> rd ?o (a + 1);
      if x \<noteq> y then wr b2a x (Some a) else Some b2a }) ?s =
    run_for [0..asize ds - 1] (\<lambda>a b2a. if ?c a then wr b2a (?o ! nat a) (Some a) else Some b2a) ?s"
    unfolding parallel_for_def for_range_def by (rule run_for_cong) (simp add: rd_Some)
  also have "\<dots> = run_for ?is (\<lambda>a b2a. wr b2a (?o ! nat a) (Some a)) ?s"
    by (rule run_for_filter)
  finally have loop: "parallel_for (asize ds) (\<lambda>a b2a. do { x \<leftarrow> rd ?o a; y \<leftarrow> rd ?o (a + 1);
      if x \<noteq> y then wr b2a x (Some a) else Some b2a }) ?s =
    run_for ?is (\<lambda>a b2a. wr b2a (?o ! nat a) (Some a)) ?s" .
  have "\<exists>s'. run_for ?is (\<lambda>a b2a. wr b2a (?o ! nat a) (Some a)) ?s = Some s' \<and> length s' = ?nb \<and>
     (\<forall>a \<in> set ?is. s' ! nat (?o ! nat a) = Some a) \<and>
     (\<forall>k. int k \<notin> (\<lambda>a. ?o ! nat a) ` set ?is \<longrightarrow> s' ! k = ?s ! k)"
  proof (rule run_for_scatter)
    show "0 \<le> ?o ! nat a \<and> ?o ! nat a < int ?nb" if "a \<in> set ?is" for a
      using start [OF that] by simp
    show "Some a = Some b" if "a \<in> set ?is" "b \<in> set ?is" "?o ! nat a = ?o ! nat b" for a b
      using start(3) [OF that(1)] start(3) [OF that(2)] unfolding that(3) by (simp only:)
  qed simp_all
  then obtain s where s: "run_for ?is (\<lambda>a b2a. wr b2a (?o ! nat a) (Some a)) ?s = Some s" "length s = ?nb"
    "\<And>a. a \<in> set ?is \<Longrightarrow> s ! nat (?o ! nat a) = Some a"
    "\<And>k. int k \<notin> (\<lambda>a. ?o ! nat a) ` set ?is \<Longrightarrow> s ! k = ?s ! k" by blast
  let ?v = "map (\<lambda>k. if int k = ?o ! nat (?own k) then ?own k else - 1) [0..<?nb]"
  have own: "0 \<le> ?own k" "?own k < asize ds" "?o ! nat (?own k) \<le> int k" "int k < ?o ! nat (?own k + 1)"
    if "k < ?nb" for k
    using owner_exists [OF nn, of "int k"] that by (simp_all add: asize_def)
  have "s = map Some ?v"
  proof (rule nth_equalityI)
    fix k assume "k < length s"
    then have k: "k < ?nb" using s(2) by simp
    show "s ! k = map Some ?v ! k"
    proof (cases "int k = ?o ! nat (?own k)")
      case True
      then have "?own k \<in> set ?is" using own [OF k] by auto
      then have "s ! nat (int k) = Some (?own k)" unfolding True by (rule s(3))
      then have "s ! k = Some (?own k)" by simp
      then show ?thesis using True k by simp
    next
      case False
      have "int k \<notin> (\<lambda>a. ?o ! nat a) ` set ?is"
      proof
        assume "int k \<in> (\<lambda>a. ?o ! nat a) ` set ?is"
        then obtain a where "a \<in> set ?is" "int k = ?o ! nat a" by auto
        with start(3) [of a] False show False by (metis nat_int)
      qed
      from s(4) [OF this] show ?thesis using False k by simp
    qed
  qed (use s(2) in simp)
  then have "fill_right s = Some (map Some (scan_list max ?v))" by (simp only: fill_right_eq)
  moreover have "scan_list max ?v = owners ds"
  proof (rule nth_equalityI)
    have "scan_list max ?v ! k = ?own k" if "k < ?nb" for k
      using that
    proof (induction k)
      case 0
      have "0 \<le> ?o ! nat (?own 0)"
        using fan own(1,2) [OF 0] sorted_nth_mono [of ?o 0 "nat (?own 0)"]
        by (simp add: is_fan_def asize_def nat_less_iff)
      then have "?o ! nat (?own 0) = 0" using own(3) [OF 0] by simp
      then show ?case using 0 by (simp add: scan_list_0)
    next
      case (Suc k)
      then have k: "k < ?nb" by simp
      have scan: "scan_list max ?v ! Suc k = max (?own k) (?v ! Suc k)"
        using Suc by (simp add: scan_list_Suc del: upt_Suc)
      show ?case
      proof (cases "int (Suc k) = ?o ! nat (?own (Suc k))")
        case True
        have "?own k < ?own (Suc k)"
        proof (rule ccontr)
          assume "\<not> ?own k < ?own (Suc k)"
          then have "?o ! nat (?own (Suc k)) \<le> ?o ! nat (?own k)"
            using fan own(1,2) [OF k] own(1) [OF Suc.prems]
            by (intro sorted_nth_mono) (simp_all add: is_fan_def asize_def nat_less_iff)
          then show False using True own(3) [OF k] by simp
        qed
        then show ?thesis using scan True Suc.prems by (simp del: upt_Suc)
      next
        case False
        have "?own k = ?own (Suc k)"
          using owners_nth(3) [OF nn own(1,2) [OF Suc.prems], of "int k"] own(3,4) [OF Suc.prems] False
          by simp
        then show ?thesis using scan False Suc.prems own(1) [OF k] by (simp del: upt_Suc)
      qed
    qed
    then show "scan_list max ?v ! k = ?own k" if "k < length (scan_list max ?v)" for k
      using that by simp
  qed simp
  ultimately show ?thesis
    using s(1) loop by (simp add: invert_fan_def nb Let_def)
qed

subsection \<open>Reductions over a fan\<close>

lemma run_for_fold:
  assumes "\<And>i. i \<in> set is \<Longrightarrow> t i = Some (h i)"
  shows "run_for is (\<lambda>i r. do { x \<leftarrow> t i; Some (p r x) }) s = Some (foldl p s (map h is))"
  using assms by (induction "is" arbitrary: s) simp_all

lemma offsets_mono:
  assumes "nonneg ds" "i \<le> j" "j \<le> length ds"
  shows "offsets ds ! i \<le> offsets ds ! j"
  using is_fan_offsets [OF assms(1)] assms(2,3)
  by (intro sorted_nth_mono) (simp_all add: is_fan_def)

lemma fan_reduce_tmpl_ex:
  assumes nn: "nonneg ds" and w: "0 \<le> w" and sz: "asize b_data = sum_list ds * w"
  shows "\<exists>out. fan_reduce_tmpl init join cast (offsets ds) b_data w = Some out \<and>
    asize out = asize ds * w \<and>
    (\<forall>a j. 0 \<le> a \<and> a < asize ds \<and> 0 \<le> j \<and> j < w \<longrightarrow>
       out ! nat (a * w + j) = cast (foldl join init (map (\<lambda>b. b_data ! nat (b * w + j))
         [offsets ds ! nat a..offsets ds ! nat (a + 1) - 1])))"
proof -
  let ?o = "offsets ds" and ?n = "asize ds"
  let ?h = "\<lambda>a j. cast (foldl join init (map (\<lambda>b. b_data ! nat (b * w + j))
         [?o ! nat a..?o ! nat (a + 1) - 1]))"
  let ?g = "\<lambda>a j. do { b0 \<leftarrow> rd ?o a; b1 \<leftarrow> rd ?o (a + 1);
         res \<leftarrow> for_range b0 b1 (\<lambda>b res. do {
           update \<leftarrow> rd b_data (b * w + j); Some (join res update) }) init; Some (cast res) }"
  let ?out = "map (\<lambda>k. ?h (int k div w) (int k mod w)) [0..<nat (?n * w)]"
  have g: "?g a j = Some (?h a j)" if a: "0 \<le> a" "a < ?n" and j: "0 \<le> j" "j < w" for a j
  proof -
    have "run_for [?o ! nat a..?o ! nat (a + 1) - 1] (\<lambda>b res. do {
           update \<leftarrow> rd b_data (b * w + j); Some (join res update) }) init =
        Some (foldl join init (map (\<lambda>b. b_data ! nat (b * w + j)) [?o ! nat a..?o ! nat (a + 1) - 1]))"
    proof (rule run_for_fold)
      fix b assume "b \<in> set [?o ! nat a..?o ! nat (a + 1) - 1]"
      then have "0 \<le> b" "b < asize (owners ds)" using owners_nth [OF nn a, of b] by simp_all
      then show "rd b_data (b * w + j) = Some (b_data ! nat (b * w + j))"
        using int_row_bound(1) [OF _ _ j] sz by (simp add: asize_owners [OF nn])
    qed
    then show ?thesis using a by (simp add: rd_Some for_range_def)
  qed
  have "do { s \<leftarrow> parallel_for ?n (\<lambda>a. for_range 0 w (\<lambda>j a_data. do {
         b0 \<leftarrow> rd ?o a; b1 \<leftarrow> rd ?o (a + 1);
         res \<leftarrow> for_range b0 b1 (\<lambda>b res. do {
           update \<leftarrow> rd b_data (b * w + j); Some (join res update) }) init;
         wr a_data (a * w + j) (Some (cast res)) })) (fresh (?n * w)); freeze s } = Some ?out"
    by (rule fill_rows [where g = ?g]) (simp_all add: g w)
  then have "fan_reduce_tmpl init join cast ?o b_data w = Some ?out"
    using sz w by (simp add: fan_reduce_tmpl_def)
  moreover have "?out ! nat (a * w + j) = ?h a j" if "0 \<le> a \<and> a < ?n \<and> 0 \<le> j \<and> j < w" for a j
    using row_index_bound [of j w a ?n] that by (simp add: nat_less_iff)
  ultimately show ?thesis using w by (intro exI [of _ ?out]) (simp add: asize_def)
qed

lemma upto_row:
  assumes "a < length R"
  shows "map (\<lambda>b. concat R ! nat b) [offsets (sizes R) ! a..offsets (sizes R) ! Suc a - 1] = R ! a"
proof (rule nth_equalityI)
  show "length (map (\<lambda>b. concat R ! nat b) [offsets (sizes R) ! a..offsets (sizes R) ! Suc a - 1]) =
      length (R ! a)"
    using assms by (simp add: nth_offsets_sizes row_start_Suc)
  fix t assume "t < length (map (\<lambda>b. concat R ! nat b) [offsets (sizes R) ! a..offsets (sizes R) ! Suc a - 1])"
  then have "t < length (R ! a)" using assms by (simp add: nth_offsets_sizes row_start_Suc)
  then show "map (\<lambda>b. concat R ! nat b) [offsets (sizes R) ! a..offsets (sizes R) ! Suc a - 1] ! t = R ! a ! t"
    using concat_cell(2) [OF assms] assms by (simp add: nth_offsets_sizes row_start_Suc nat_add_distrib)
qed

lemma fan_reduce_tmpl_rows:
  "fan_reduce_tmpl init join cast (offsets (sizes R)) (concat R) 1 =
     Some (map (\<lambda>r. cast (foldl join init r)) R)"
proof -
  obtain out where out: "fan_reduce_tmpl init join cast (offsets (sizes R)) (concat R) 1 = Some out"
    "asize out = asize (sizes R)"
    "\<And>a j. 0 \<le> a \<and> a < asize (sizes R) \<and> 0 \<le> j \<and> j < 1 \<Longrightarrow>
       out ! nat (a * 1 + j) = cast (foldl join init (map (\<lambda>b. concat R ! nat (b * 1 + j))
         [offsets (sizes R) ! nat a..offsets (sizes R) ! nat (a + 1) - 1]))"
    using fan_reduce_tmpl_ex [of "sizes R" 1 "concat R" init join cast] by (auto simp: asize_def)
  have "out = map (\<lambda>r. cast (foldl join init r)) R"
  proof (rule nth_equalityI)
    show "length out = length (map (\<lambda>r. cast (foldl join init r)) R)"
      using out(2) by (simp add: asize_def)
    fix k assume "k < length out"
    then have k: "k < length R" using out(2) by (simp add: asize_def)
    have "nat (int k + 1) = Suc k" by simp
    then have "out ! k = cast (foldl join init (map (\<lambda>b. concat R ! nat b)
         [offsets (sizes R) ! k..offsets (sizes R) ! Suc k - 1]))"
      using out(3) [of "int k" 0] k by (simp add: asize_def)
    then show "out ! k = map (\<lambda>r. cast (foldl join init r)) R ! k" using k upto_row [OF k] by simp
  qed
  with out(1) show ?thesis by simp
qed

text \<open>Conversions: idempotent, exact in the range of the type, and a sum may be converted at every step.\<close>

lemma int_cast_exact:
  "0 < bits \<Longrightarrow> arith_min bits \<le> x \<Longrightarrow> x \<le> arith_max bits \<Longrightarrow> int_cast bits x = x"
  unfolding int_cast_def arith_min_def arith_max_def by (rule signed_take_bit_int_eq_self) simp_all

lemma int_cast_cast: "0 < a \<Longrightarrow> a \<le> b \<Longrightarrow> int_cast a (int_cast b x) = int_cast a x"
  by (simp add: int_cast_def signed_take_bit_signed_take_bit min_def)

lemma int_cast_add: "int_cast b (int_cast b x + y) = int_cast b (x + y)"
  by (metis int_cast_def signed_take_bit_add signed_take_bit_signed_take_bit min.idem)

lemma foldl_wrapping_sum:
  "int_cast b (foldl (\<lambda>update input. int_cast b (update + input)) s xs) = int_cast b (s + sum_list xs)"
proof (induction xs arbitrary: s)
  case (Cons x xs)
  have "int_cast b (foldl (\<lambda>update input. int_cast b (update + input)) s (x # xs)) =
      int_cast b (int_cast b (s + x) + sum_list xs)" using Cons.IH [of "int_cast b (s + x)"] by simp
  then show ?case by (simp add: int_cast_add add.assoc)
qed simp

lemma wrapping_sum:
  assumes "bits \<in> {8, 32, 64}"
  shows "int_cast bits (foldl (\<lambda>update input. int_cast (promoted_bits bits) (update + input)) 0 xs) =
    int_cast bits (sum_list xs)"
proof -
  have b: "0 < bits" "bits \<le> promoted_bits bits" using assms by (auto simp: promoted_bits_def)
  show ?thesis
    using int_cast_cast [OF b, of "foldl (\<lambda>update input. int_cast (promoted_bits bits) (update + input)) 0 xs"]
      int_cast_cast [OF b, of "sum_list xs"] foldl_wrapping_sum [of "promoted_bits bits" 0 xs] by simp
qed

section \<open>Counting and accumulating\<close>

lemma accumulate:
  fixes b0 :: "int list"
  assumes "\<And>i. i \<in> set is \<Longrightarrow> 0 \<le> p i \<and> p i < asize b0" and "\<And>i. i \<in> set is \<Longrightarrow> g i = Some (h i)"
  shows "run_for is (\<lambda>i s. do { x \<leftarrow> rd_cell s (p i); y \<leftarrow> g i; wr s (p i) (Some (x + y)) }) (map Some b0) =
    Some (map (\<lambda>k. Some (b0 ! k + sum_list (map h (filter (\<lambda>i. p i = int k) is)))) [0..<length b0])"
proof -
  let ?f = "\<lambda>i s. do { x \<leftarrow> rd_cell s (p i); y \<leftarrow> g i; wr s (p i) (Some (x + y)) }"
  let ?S = "\<lambda>done. map (\<lambda>k. Some (b0 ! k + sum_list (map h (filter (\<lambda>i. p i = int k) done)))) [0..<length b0]"
  have "\<exists>s'. run_for is ?f (map Some b0) = Some s' \<and> s' = ?S is"
  proof (rule run_for_rule [where P = "\<lambda>done s. s = ?S done"])
    show "map Some b0 = ?S []" by (rule nth_equalityI) simp_all
    fix "done" i rest s assume "is = done @ i # rest" and s: "s = ?S done"
    then have i: "0 \<le> p i" "p i < asize b0" "g i = Some (h i)" using assms by auto
    have k: "nat (p i) < length b0" "int (nat (p i)) = p i"
      using i by (simp_all add: asize_def nat_less_iff)
    have "rd_cell s (p i) = Some (b0 ! nat (p i) + sum_list (map h (filter (\<lambda>i'. p i' = p i) done)))"
      using k i by (simp add: rd_cell_def s rd_def asize_def)
    moreover have "s[nat (p i) := Some (b0 ! nat (p i) + sum_list (map h (filter (\<lambda>i'. p i' = p i) done)) + h i)] =
        ?S (done @ [i])"
    proof (rule nth_equalityI)
      fix k' assume "k' < length (s[nat (p i) := Some (b0 ! nat (p i) +
          sum_list (map h (filter (\<lambda>i'. p i' = p i) done)) + h i)])"
      then have "k' < length b0" by (simp add: s)
      then show "s[nat (p i) := Some (b0 ! nat (p i) + sum_list (map h (filter (\<lambda>i'. p i' = p i) done)) + h i)] ! k' =
          ?S (done @ [i]) ! k'"
        using k by (cases "k' = nat (p i)") (auto simp: s nth_list_update)
    qed (simp add: s)
    ultimately show "\<exists>s'. ?f i s = Some s' \<and> s' = ?S (done @ [i])"
      using i by (simp add: wr_def s asize_def)
  qed
  then show ?thesis by blast
qed

lemma add_into_ex:
  assumes w: "0 \<le> w" and sz: "asize a_data = asize a2b * w" "asize b0 = nb * w"
    and rng: "\<And>b. b \<in> set a2b \<Longrightarrow> 0 \<le> b \<and> b < nb"
  shows "\<exists>out. add_into a_data a2b (map Some b0) w = Some (map Some out) \<and> length out = length b0 \<and>
    (\<forall>b j. 0 \<le> b \<and> b < nb \<and> 0 \<le> j \<and> j < w \<longrightarrow>
       out ! nat (b * w + j) = b0 ! nat (b * w + j) +
         sum_list (map (\<lambda>a. a_data ! nat (a * w + j)) (filter (\<lambda>a. a2b ! nat a = b) [0..asize a2b - 1])))"
proof -
  let ?n = "asize a2b"
  let ?is = "List.product [0..?n - 1] [0..w - 1]"
  let ?p = "\<lambda>(a, j). a2b ! nat a * w + j"
  let ?h = "\<lambda>(a, j). a_data ! nat (a * w + j)"
  let ?g = "\<lambda>(a, j). rd a_data (a * w + j)"
  let ?F = "\<lambda>ij s. do { x \<leftarrow> rd_cell s (?p ij); y \<leftarrow> ?g ij; wr s (?p ij) (Some (x + y)) }"
  let ?out = "map (\<lambda>k. b0 ! k + sum_list (map ?h (filter (\<lambda>ij. ?p ij = int k) ?is))) [0..<length b0]"
  have mem: "a2b ! nat a \<in> set a2b" if "0 \<le> a" "a < ?n" for a
    using that by (rule nth_int_mem)
  have "parallel_for ?n (\<lambda>a b_data. do { b \<leftarrow> rd a2b a; for_range 0 w (\<lambda>j b_data. do {
         x \<leftarrow> rd_cell b_data (b * w + j); y \<leftarrow> rd a_data (a * w + j);
         wr b_data (b * w + j) (Some (x + y)) }) b_data }) (map Some b0) =
       run_for [0..?n - 1] (\<lambda>a s. run_for [0..w - 1] (\<lambda>j. ?F (a, j)) s) (map Some b0)"
    unfolding parallel_for_def for_range_def by (rule run_for_cong) (simp add: rd_Some)
  also have "\<dots> = run_for ?is ?F (map Some b0)"
    using run_for_nested [of "[0..?n - 1]" "[0..w - 1]" "\<lambda>a j. ?F (a, j)"] by (simp add: case_prod_unfold)
  also have "\<dots> = Some (map (\<lambda>k. Some (b0 ! k + sum_list (map ?h (filter (\<lambda>ij. ?p ij = int k) ?is)))) [0..<length b0])"
  proof (rule accumulate)
    fix ij assume ij: "ij \<in> set ?is"
    then show "0 \<le> ?p ij \<and> ?p ij < asize b0"
      using row_index_bound [of "snd ij" w "a2b ! nat (fst ij)" nb] rng [OF mem [of "fst ij"]] sz(2)
      by (auto simp: case_prod_unfold)
    show "?g ij = Some (?h ij)"
      using int_row_bound(1) [OF _ _ _ _ sz(1), of "fst ij" "snd ij"] ij by (auto simp: case_prod_unfold)
  qed
  finally have run: "add_into a_data a2b (map Some b0) w = Some (map Some ?out)"
    using sz(1) by (simp add: add_into_def Let_def comp_def)
  moreover have "?out ! nat (b * w + j) = b0 ! nat (b * w + j) +
         sum_list (map (\<lambda>a. a_data ! nat (a * w + j)) (filter (\<lambda>a. a2b ! nat a = b) [0..?n - 1]))"
    if H: "0 \<le> b \<and> b < nb \<and> 0 \<le> j \<and> j < w" for b j
  proof -
    have k: "0 \<le> b * w + j" "nat (b * w + j) < length b0"
      using row_index_bound [of j w b nb] H sz(2) by (simp_all add: asize_def nat_less_iff)
    have "filter (\<lambda>i. ?p (a, i) = b * w + j) [0..w - 1] = (if a2b ! nat a = b then [j] else [])" for a
    proof -
      have "filter (\<lambda>i. ?p (a, i) = b * w + j) [0..w - 1] =
          filter (\<lambda>i. a2b ! nat a = b \<and> i = j) [0..w - 1]"
        using row_index_inject [of "a2b ! nat a" w _ b j] H by (intro filter_cong) auto
      also have "\<dots> = (if a2b ! nat a = b then [j] else [])"
      proof (cases "a2b ! nat a = b")
        case True
        have "[0..w - 1] = [0..j - 1] @ j # [j + 1..w - 1]"
          using H upto_split3 [of 0 j "w - 1"] by simp
        then show ?thesis using True by (simp add: filter_empty_conv)
      qed simp
      finally show ?thesis .
    qed
    then have "filter (\<lambda>ij. ?p ij = b * w + j) ?is =
        concat (map (\<lambda>a. if a2b ! nat a = b then [(a, j)] else []) [0..?n - 1])"
      unfolding product_concat_map filter_concat map_map comp_def filter_map
      by (intro arg_cong [where f = concat] map_cong refl) simp
    moreover have "map ?h (concat (map (\<lambda>a. if a2b ! nat a = b then [(a, j)] else []) as)) =
        map (\<lambda>a. a_data ! nat (a * w + j)) (filter (\<lambda>a. a2b ! nat a = b) as)" for as
      by (induction as) simp_all
    ultimately show ?thesis using k by simp
  qed
  ultimately show ?thesis by (intro exI [of _ ?out]) simp
qed

section \<open>Properties\<close>

text \<open>C20. Fans: the offsets that \<open>offset_scan\<close> computes from non-negative degrees give the degrees back;
  \<open>invert_fan\<close> maps every item to the group whose offsets enclose it; and \<open>expand\<close>, which copies a
  group's row to all its items, is gathering along the inverted fan.\<close>

theorem fan_roundtrip:
  assumes "\<forall>d \<in> set ds. 0 \<le> d" "0 \<le> width" "asize a_data = asize ds * width"
  shows "\<exists>a2b b2a. offset_scan ds = Some a2b \<and> get_degrees a2b = Some ds \<and>
    invert_fan a2b = Some b2a \<and> rd_last a2b = Some (asize b2a) \<and>
    (\<forall>b. 0 \<le> b \<and> b < asize b2a \<longrightarrow> 0 \<le> b2a ! nat b \<and> b2a ! nat b < asize ds \<and>
       a2b ! nat (b2a ! nat b) \<le> b \<and> b < a2b ! nat (b2a ! nat b + 1)) \<and>
    expand a_data a2b width = unmap b2a a_data width \<and> expand a_data a2b width \<noteq> None"
proof (intro exI conjI)
  show "offset_scan ds = Some (offsets ds)" by (rule offset_scan_eq)
  show "get_degrees (offsets ds) = Some ds" by simp
  show "invert_fan (offsets ds) = Some (owners ds)" using assms(1) by (rule invert_fan_eq)
  show "rd_last (offsets ds) = Some (asize (owners ds))" using asize_owners [OF assms(1)] by simp
  show "\<forall>b. 0 \<le> b \<and> b < asize (owners ds) \<longrightarrow> 0 \<le> owners ds ! nat b \<and> owners ds ! nat b < asize ds \<and>
       offsets ds ! nat (owners ds ! nat b) \<le> b \<and> b < offsets ds ! nat (owners ds ! nat b + 1)"
    using owner_exists [OF assms(1)] by blast
  obtain out where out: "expand a_data (offsets ds) width = Some out" "asize out = asize (owners ds) * width"
    "\<And>b. 0 \<le> b \<and> b < asize (owners ds) \<Longrightarrow> row width out b = row width a_data (owners ds ! nat b)"
    using expand_ex [OF assms] by blast
  have "0 \<le> a \<and> a * width + width \<le> asize a_data" if "a \<in> set (owners ds)" for a
  proof -
    obtain b where "0 \<le> b" "b < asize (owners ds)" "owners ds ! nat b = a"
      using \<open>a \<in> set (owners ds)\<close> by (auto simp: in_set_int_conv)
    then have "0 \<le> a" "a < asize ds" using owner_exists(1,2) [OF assms(1), of b] by auto
    then show ?thesis
      using mult_right_mono [of "a + 1" "asize ds" width] assms(2,3) by (simp add: algebra_simps)
  qed
  then obtain u where u: "unmap (owners ds) a_data width = Some u" "asize u = asize (owners ds) * width"
    "\<And>b. 0 \<le> b \<and> b < asize (owners ds) \<Longrightarrow> row width u b = row width a_data (owners ds ! nat b)"
    using unmap_ex [OF assms(2), of "owners ds" a_data] by blast
  have "out = u" using out(3) u(3) by (intro rows_eqI [OF assms(2) out(2) u(2)]) simp
  then show "expand a_data (offsets ds) width = unmap (owners ds) a_data width"
    "expand a_data (offsets ds) width \<noteq> None"
    using out(1) u(1) by simp_all
qed

theorem fan_roundtrip_witness:
  "\<exists>a2b b2a. offset_scan [2, 0, 3] = Some a2b \<and> get_degrees a2b = Some [2, 0, 3] \<and>
     invert_fan a2b = Some b2a \<and> expand [7, 8, 9 :: int] a2b 1 = unmap b2a [7, 8, 9] 1"
  using fan_roundtrip [of "[2, 0, 3]" 1 "[7, 8, 9 :: int]"] by auto

text \<open>The values of component \<open>j\<close> of the items of group \<open>a\<close>.\<close>

definition group_values :: "lo list \<Rightarrow> 'a list \<Rightarrow> lo \<Rightarrow> lo \<Rightarrow> lo \<Rightarrow> 'a list" where
  "group_values ds b_data width a j =
     map (\<lambda>b. b_data ! nat (b * width + j)) [offsets ds ! nat a..offsets ds ! nat (a + 1) - 1]"

lemma group_values_data:
  assumes nn: "nonneg ds" and sz: "asize b_data = sum_list ds * w"
    and a: "0 \<le> a" "a < asize ds" and j: "0 \<le> j" "j < w"
  shows "set (group_values ds b_data w a j) \<subseteq> set b_data"
proof -
  have "b_data ! nat (b * w + j) \<in> set b_data"
    if "b \<in> set [offsets ds ! nat a..offsets ds ! nat (a + 1) - 1]" for b
  proof -
    have "0 \<le> b" "b < asize (owners ds)" using that owners_nth [OF nn a, of b] by simp_all
    then have "rd b_data (b * w + j) = Some (b_data ! nat (b * w + j))"
      using int_row_bound(1) [OF _ _ j] sz by (simp add: asize_owners [OF nn])
    then show ?thesis by (auto simp: rd_def asize_def split: if_splits)
  qed
  then show ?thesis by (auto simp: group_values_def)
qed

text \<open>C19. \<open>fan_reduce\<close> for integers of 8, 32 and 64 bits reduces every group of consecutive items, component
  by component, for every number of components per item.  The sum of a group is that of its values, taken
  in the type: the mathematical sum whenever the type holds it, and otherwise that sum wrapped around (sums
  of 8-bit integers are computed with 32 bits and then cast).  Minimum and maximum are those of the
  values, with the limits of the type for an empty group.\<close>

theorem fan_reduce_groups:
  assumes bits: "bits \<in> {8, 32, 64}" and nn: "nonneg ds" and w: "0 \<le> w"
    and sz: "asize b_data = sum_list ds * w"
    and range: "\<forall>x \<in> set b_data. arith_min bits \<le> x \<and> x \<le> arith_max bits"
  shows "\<exists>sums mins maxs.
    fan_reduce_int bits (offsets ds) b_data w OMEGA_H_SUM = Some sums \<and> asize sums = asize ds * w \<and>
    fan_reduce_int bits (offsets ds) b_data w OMEGA_H_MIN = Some mins \<and> asize mins = asize ds * w \<and>
    fan_reduce_int bits (offsets ds) b_data w OMEGA_H_MAX = Some maxs \<and> asize maxs = asize ds * w \<and>
    (\<forall>a j. 0 \<le> a \<and> a < asize ds \<and> 0 \<le> j \<and> j < w \<longrightarrow>
      (let g = group_values ds b_data w a j; i = nat (a * w + j) in
        sums ! i = int_cast bits (sum_list g) \<and>
        (arith_min bits \<le> sum_list g \<and> sum_list g \<le> arith_max bits \<longrightarrow> sums ! i = sum_list g) \<and>
        mins ! i = (if g = [] then arith_max bits else Min (set g)) \<and>
        maxs ! i = (if g = [] then arith_min bits else Max (set g))))"
proof -
  have pos: "0 < bits" using bits by auto
  note ex = fan_reduce_tmpl_ex [OF nn w sz, folded group_values_def]
  obtain s where s: "fan_reduce_int bits (offsets ds) b_data w OMEGA_H_SUM = Some s" "asize s = asize ds * w"
    "\<And>a j. 0 \<le> a \<and> a < asize ds \<and> 0 \<le> j \<and> j < w \<Longrightarrow>
       s ! nat (a * w + j) = int_cast bits (sum_list (group_values ds b_data w a j))"
    using ex [of 0 "\<lambda>update input. int_cast (promoted_bits bits) (update + input)" "int_cast bits"]
    by (auto simp: fan_reduce_int_def wrapping_sum [OF bits])
  obtain m where m: "fan_reduce_int bits (offsets ds) b_data w OMEGA_H_MIN = Some m" "asize m = asize ds * w"
    "\<And>a j. 0 \<le> a \<and> a < asize ds \<and> 0 \<le> j \<and> j < w \<Longrightarrow>
       m ! nat (a * w + j) = int_cast bits (foldl min (arith_max bits) (group_values ds b_data w a j))"
    using ex [of "arith_max bits" min "int_cast bits"] by (auto simp: fan_reduce_int_def)
  obtain M where M: "fan_reduce_int bits (offsets ds) b_data w OMEGA_H_MAX = Some M" "asize M = asize ds * w"
    "\<And>a j. 0 \<le> a \<and> a < asize ds \<and> 0 \<le> j \<and> j < w \<Longrightarrow>
       M ! nat (a * w + j) = int_cast bits (foldl max (arith_min bits) (group_values ds b_data w a j))"
    using ex [of "arith_min bits" max "int_cast bits"] by (auto simp: fan_reduce_int_def)
  have limits: "int_cast bits (arith_max bits) = arith_max bits" "int_cast bits (arith_min bits) = arith_min bits"
    using int_cast_exact [OF pos] by (simp_all add: arith_min_def arith_max_def)
  have mm: "int_cast bits (foldl min (arith_max bits) g) = (if g = [] then arith_max bits else Min (set g))"
    "int_cast bits (foldl max (arith_min bits) g) = (if g = [] then arith_min bits else Max (set g))"
    if g: "set g \<subseteq> set b_data" for g
  proof -
    have "arith_min bits \<le> x \<and> x \<le> arith_max bits" if "x \<in> set g" for x using g range that by blast
    moreover have "g \<noteq> [] \<Longrightarrow> Min (set g) \<in> set g" "g \<noteq> [] \<Longrightarrow> Max (set g) \<in> set g" by simp_all
    ultimately show "int_cast bits (foldl min (arith_max bits) g) = (if g = [] then arith_max bits else Min (set g))"
      "int_cast bits (foldl max (arith_min bits) g) = (if g = [] then arith_min bits else Max (set g))"
      by (simp_all add: foldl_min foldl_max limits int_cast_exact [OF pos])
  qed
  have "let g = group_values ds b_data w a j; i = nat (a * w + j) in
      s ! i = int_cast bits (sum_list g) \<and>
      (arith_min bits \<le> sum_list g \<and> sum_list g \<le> arith_max bits \<longrightarrow> s ! i = sum_list g) \<and>
      m ! i = (if g = [] then arith_max bits else Min (set g)) \<and>
      M ! i = (if g = [] then arith_min bits else Max (set g))"
    if aj: "0 \<le> a \<and> a < asize ds \<and> 0 \<le> j \<and> j < w" for a j
  proof -
    have "set (group_values ds b_data w a j) \<subseteq> set b_data"
      using group_values_data [OF nn sz] aj by blast
    then show ?thesis using s(3) [OF aj] m(3) [OF aj] M(3) [OF aj] mm int_cast_exact [OF pos] by (simp add: Let_def)
  qed
  then show ?thesis using s(1,2) m(1,2) M(1,2) by blast
qed

text \<open>Two groups of two and no items with two components each; the first component of the first group
  overflows 8 bits.\<close>

theorem fan_reduce_groups_witness:
  "\<exists>sums mins. fan_reduce_int 8 (offsets [2, 0]) [100, 1, 28, 2] 2 OMEGA_H_SUM = Some sums \<and>
     fan_reduce_int 8 (offsets [2, 0]) [100, 1, 28, 2] 2 OMEGA_H_MIN = Some mins \<and>
     sums ! 0 = - 128 \<and> sums ! 1 = 3 \<and> sums ! 2 = 0 \<and> mins ! 0 = 28 \<and> mins ! 3 = 127"
proof -
  have g: "group_values [2, 0] [100, 1, 28, 2 :: int] 2 0 0 = [100, 28]"
    "group_values [2, 0] [100, 1, 28, 2 :: int] 2 0 1 = [1, 2]" "group_values [2, 0] [100, 1, 28, 2 :: int] 2 1 0 = []"
    "group_values [2, 0] [100, 1, 28, 2 :: int] 2 1 1 = []" by code_simp+
  have "nonneg [2, 0]" by simp
  from fan_reduce_groups [of 8 "[2, 0]" 2 "[100, 1, 28, 2]", OF _ this]
  obtain sums mins where r: "fan_reduce_int 8 (offsets [2, 0]) [100, 1, 28, 2] 2 OMEGA_H_SUM = Some sums"
    "fan_reduce_int 8 (offsets [2, 0]) [100, 1, 28, 2] 2 OMEGA_H_MIN = Some mins"
    and all: "\<And>a j. 0 \<le> a \<and> a < asize [2, 0] \<and> 0 \<le> j \<and> j < 2 \<Longrightarrow>
      sums ! nat (a * 2 + j) = int_cast 8 (sum_list (group_values [2, 0] [100, 1, 28, 2 :: int] 2 a j)) \<and>
      mins ! nat (a * 2 + j) = (if group_values [2, 0] [100, 1, 28, 2 :: int] 2 a j = [] then arith_max 8
        else Min (set (group_values [2, 0] [100, 1, 28, 2 :: int] 2 a j)))"
    by (auto simp: asize_def arith_min_def arith_max_def Let_def)
  have "int_cast 8 128 = - 128" "int_cast 8 3 = 3" "int_cast 8 0 = 0" "arith_max 8 = 127" by code_simp+
  then show ?thesis
    using r all [of 0 0] all [of 0 1] all [of 1 0] all [of 1 1] by (simp add: g asize_def)
qed

end
