(* ===== verification/Sort.thy ===== *)
theory Sort
  imports Map_Ops "HOL-Library.List_Lexorder" "HOL-Library.Multiset"
begin

text \<open>
  Sorting (\<open>src/src/Omega_h_sort.cpp\<close>).

  \<open>stable_sort\<close> stands for the standard library's \<open>std::stable_sort\<close> (the OpenMP and CUDA builds call
  other stable sorts, whose result is the same list).  \<open>sort_by_keys\<close> sorts indices by rows of keys;
  \<open>sort_small_range\<close> sorts by repeatedly picking the next smallest value, a loop that runs once per
  distinct value and is a partial function here, so that its termination is part of the result.
  The main results: \<open>sort_by_keys\<close> is the stable lexicographic sort of the key rows, and
  \<open>sort_small_range\<close> returns the position of every item in that order (\<open>rank\<close>), the distinct values in
  increasing order and the offsets of their groups.
\<close>

section \<open>Stable sorting by a comparison\<close>

fun insert_by :: "('a \<Rightarrow> 'a \<Rightarrow> bool) \<Rightarrow> 'a \<Rightarrow> 'a list \<Rightarrow> 'a list" where
  "insert_by lt x [] = [x]"
| "insert_by lt x (y # ys) = (if lt y x then y # insert_by lt x ys else x # y # ys)"

definition stable_sort :: "('a \<Rightarrow> 'a \<Rightarrow> bool) \<Rightarrow> 'a list \<Rightarrow> 'a list" where
  "stable_sort lt xs = foldr (insert_by lt) xs []"

fun compare_keys :: "int list \<Rightarrow> lo \<Rightarrow> lo \<Rightarrow> lo \<Rightarrow> lo list \<Rightarrow> bool" where
  "compare_keys keys N a b [] = False"
| "compare_keys keys N a b (i # is) =
     (let x = keys ! nat (a * N + i); y = keys ! nat (b * N + i)
      in if x \<noteq> y then x < y else compare_keys keys N a b is)"

definition compare_key_sets :: "lo \<Rightarrow> int list \<Rightarrow> lo \<Rightarrow> lo \<Rightarrow> bool" where
  "compare_key_sets N keys a b = compare_keys keys N a b [0..N - 1]"

definition sort_by_keys_tmpl :: "lo \<Rightarrow> int list \<Rightarrow> lo list option" where
  "sort_by_keys_tmpl N keys = do {
     n \<leftarrow> divide_no_remainder (asize keys) N;
     let perm = [0..n - 1];
     Some (stable_sort (compare_key_sets N keys) perm)
   }"

definition sort_by_keys :: "int list \<Rightarrow> lo \<Rightarrow> lo list option" where
  "sort_by_keys keys width =
     (if width = 1 then sort_by_keys_tmpl 1 keys
      else if width = 2 then sort_by_keys_tmpl 2 keys
      else if width = 3 then sort_by_keys_tmpl 3 keys
      else if width = 4 then sort_by_keys_tmpl 4 keys
      else None)"

lemma insert_by_insort:
  assumes "\<And>y. y \<in> set ys \<Longrightarrow> lt y x \<longleftrightarrow> f y < (f x :: 'k :: linorder)"
  shows "insert_by lt x ys = insort_key f x ys"
  using assms by (induction ys) auto

lemma stable_sort_sort_key:
  assumes "\<And>x y. x \<in> set xs \<Longrightarrow> y \<in> set xs \<Longrightarrow> lt x y \<longleftrightarrow> f x < (f y :: 'k :: linorder)"
  shows "stable_sort lt xs = sort_key f xs"
  using assms
proof (induction xs)
  case (Cons x xs)
  have "stable_sort lt xs = sort_key f xs" using Cons.prems by (intro Cons.IH) simp
  moreover have "insert_by lt x (sort_key f xs) = insort_key f x (sort_key f xs)"
    by (rule insert_by_insort) (use Cons.prems in simp)
  ultimately have "insert_by lt x (stable_sort lt xs) = insort_key f x (sort_key f xs)"
    by simp
  then show ?case by (simp add: stable_sort_def sort_key_def)
qed (simp add: stable_sort_def)

lemma compare_keys_lexord:
  "compare_keys keys N a b is \<longleftrightarrow>
     map (\<lambda>i. keys ! nat (a * N + i)) is < map (\<lambda>i. keys ! nat (b * N + i)) is"
  by (induction "is") (auto simp: Let_def)

lemma compare_key_sets_lexord: "compare_key_sets N keys a b \<longleftrightarrow> row N keys a < row N keys b"
  by (simp add: compare_key_sets_def compare_keys_lexord row_def)

lemma sort_by_keys_tmpl_eq:
  "N \<noteq> 0 \<Longrightarrow> asize keys = n * N \<Longrightarrow>
     sort_by_keys_tmpl N keys = Some (sort_key (row N keys) [0..n - 1])"
  by (simp add: sort_by_keys_tmpl_def stable_sort_sort_key [OF compare_key_sets_lexord])

lemma sort_by_keys_eq:
  assumes "1 \<le> width" "width \<le> 4" "asize keys = n * width"
  shows "sort_by_keys keys width = Some (sort_key (row width keys) [0..n - 1])"
proof -
  have "width = 1 \<or> width = 2 \<or> width = 3 \<or> width = 4" using assms(1,2) by linarith
  then show ?thesis using sort_by_keys_tmpl_eq [of width keys n] assms(3)
    by (elim disjE) (simp_all add: sort_by_keys_def)
qed

text \<open>Stability: the sort of increasing indices is increasing in the key first, the index second.\<close>

lemma sorted_wrt_insort_key:
  assumes "sorted_wrt (\<lambda>a b. f a < f b \<or> f a = f b \<and> a < b) ys" "\<And>y. y \<in> set ys \<Longrightarrow> x < (y :: int)"
  shows "sorted_wrt (\<lambda>a b. f a < (f b :: 'k :: linorder) \<or> f a = f b \<and> a < b) (insort_key f x ys)"
  using assms by (induction ys) (fastforce simp: set_insort_key)+

lemma sorted_wrt_sort_key:
  assumes "sorted_wrt (<) (xs :: int list)"
  shows "sorted_wrt (\<lambda>a b. f a < (f b :: 'k :: linorder) \<or> f a = f b \<and> a < b) (sort_key f xs)"
  using assms
proof (induction xs)
  case (Cons x xs)
  then show ?case by (simp add: sort_key_def) (intro sorted_wrt_insort_key, auto simp flip: sort_key_def)
qed simp

section \<open>Sorting a small range of values\<close>

definition next_smallest_value :: "int list \<Rightarrow> int \<Rightarrow> int option" where
  "next_smallest_value a v =
     transform_reduce (asize a) lo_max min (\<lambda>i. do { x \<leftarrow> rd a i; Some (if x > v then x else lo_max) })"

definition number_same_values :: "int list \<Rightarrow> int \<Rightarrow> lo option list \<Rightarrow> (lo option list \<times> lo) option" where
  "number_same_values a v tmp_perm = do {
     tmp_perm \<leftarrow> wr tmp_perm 0 (Some 0);
     tmp_perm \<leftarrow> transform_inclusive_scan (asize a) (\<lambda>_ i. Some i) 1 (+)
       (\<lambda>i. do { x \<leftarrow> rd a i; Some (if x = v then 1 else 0) }) tmp_perm;
     n \<leftarrow> rd_cell tmp_perm (asize tmp_perm - 1);
     Some (tmp_perm, n)
   }"

definition combine_perms ::
    "int list \<Rightarrow> int \<Rightarrow> lo option list \<Rightarrow> lo option list \<Rightarrow> lo \<Rightarrow> (lo option list \<times> lo option list) option" where
  "combine_perms a v tmp_perm perm ndone = do {
     tmp_perm \<leftarrow> wr tmp_perm 0 (Some 0);
     perm \<leftarrow> parallel_for (asize a) (\<lambda>i perm. do {
       x \<leftarrow> rd a i;
       if x = v then do { t \<leftarrow> rd_cell tmp_perm i; wr perm i (Some (t + ndone)) } else Some perm
     }) perm;
     Some (tmp_perm, perm)
   }"

partial_function (option) sort_small_loop ::
    "int list \<Rightarrow> lo \<Rightarrow> int \<Rightarrow> lo option list \<Rightarrow> lo option list \<Rightarrow> lo list \<Rightarrow> int list \<Rightarrow>
     (lo option list \<times> lo list \<times> int list) option" where
  "sort_small_loop a ndone v tmp_perm perm fan_vec uniq_vec = do {
     let uniq_vec = uniq_vec @ [v];
     (tmp_perm, ndid) \<leftarrow> number_same_values a v tmp_perm;
     (tmp_perm, perm) \<leftarrow> combine_perms a v tmp_perm perm ndone;
     let ndone = ndone + ndid;
     let fan_vec = fan_vec @ [ndone];
     if ndone = asize a then Some (perm, fan_vec, uniq_vec) else do {
       v \<leftarrow> next_smallest_value a v;
       sort_small_loop a ndone v tmp_perm perm fan_vec uniq_vec
     }
   }"

definition sort_small_range :: "int list \<Rightarrow> (lo list \<times> lo list \<times> int list) option" where
  "sort_small_range a = do {
     let ndone = 0;
     v \<leftarrow> get_min a;
     let tmp_perm = fresh (asize a + 1);
     let perm = replicate (length a) (Some (- 42));
     let fan_vec = [0];
     let uniq_vec = [];
     (perm, fan_vec, uniq_vec) \<leftarrow>
       (if asize a \<noteq> 0 then sort_small_loop a ndone v tmp_perm perm fan_vec uniq_vec
        else Some (perm, fan_vec, uniq_vec));
     perm \<leftarrow> freeze perm;
     Some (perm, fan_vec, uniq_vec)
   }"

text \<open>The position of item \<open>i\<close> in the stable order, and the number of items below a value.\<close>

definition less_count :: "int list \<Rightarrow> int \<Rightarrow> nat" where
  "less_count a v = length (filter (\<lambda>x. x < v) a)"

definition rank :: "int list \<Rightarrow> nat \<Rightarrow> lo" where
  "rank a i = int (less_count a (a ! i) + length (filter (\<lambda>x. x = a ! i) (take i a)))"

lemma sum_indicator: "sum_list (map (\<lambda>x. if P x then 1 else 0) xs) = int (length (filter P xs))"
  by (induction xs) auto

lemma number_same_values_eq:
  assumes "length tmp = Suc (length a)"
  shows "\<exists>tmp'. number_same_values a v tmp = Some (tmp', int (length (filter (\<lambda>x. x = v) a))) \<and>
    length tmp' = Suc (length a) \<and>
    (\<forall>k \<le> length a. tmp' ! k = Some (int (length (filter (\<lambda>x. x = v) (take k a)))))"
proof -
  let ?f = "\<lambda>x. if x = v then 1 else (0 :: int)"
  let ?vals = "map ?f a" and ?o = "tmp[0 := Some (0 :: int)]"
  have "\<exists>w. transform_inclusive_scan (int (length ?vals)) (\<lambda>_ i. Some i) 1 (+)
       (\<lambda>i. do { x \<leftarrow> rd a i; Some (?f x) }) ?o = Some w \<and> length w = length ?o \<and>
    (\<forall>k < length ?vals. w ! (nat 1 + k) = Some (scan_list (+) ?vals ! k)) \<and>
    (\<forall>k. k < nat 1 \<or> nat 1 + length ?vals \<le> k \<longrightarrow> w ! k = ?o ! k)"
    by (rule transform_inclusive_scan_spec) (use assms in \<open>simp_all add: asize_def\<close>)
  then obtain w where w: "transform_inclusive_scan (int (length a)) (\<lambda>_ i. Some i) 1 (+)
       (\<lambda>i. do { x \<leftarrow> rd a i; Some (?f x) }) ?o = Some w" "length w = Suc (length a)"
    "\<And>k. k < length a \<Longrightarrow> w ! Suc k = Some (scan_list (+) ?vals ! k)" "w ! 0 = Some 0"
    using assms by auto
  have cell: "w ! k = Some (int (length (filter (\<lambda>x. x = v) (take k a))))" if "k \<le> length a" for k
  proof (cases k)
    case 0
    then show ?thesis using w(4) by simp
  next
    case (Suc m)
    then have "w ! k = Some (sum_list (take k ?vals))" using w(3) [of m] that by (simp add: scan_list_plus)
    then show ?thesis by (simp add: take_map sum_indicator)
  qed
  have "rd_cell w (asize w - 1) = Some (int (length (filter (\<lambda>x. x = v) a)))"
    using cell [of "length a"] w(2) by (simp add: rd_cell_def rd_def asize_def)
  moreover have "wr tmp 0 (Some 0) = Some ?o" using assms by (simp add: wr_def asize_def)
  ultimately show ?thesis using w(1,2) cell by (simp add: number_same_values_def asize_def)
qed

lemma combine_perms_eq:
  assumes "length tmp = Suc (length a)"
    and "\<And>k. k \<le> length a \<Longrightarrow> tmp ! k = Some (int (length (filter (\<lambda>x. x = v) (take k a))))"
    and "length perm = length a"
  shows "combine_perms a v tmp perm ndone =
    Some (tmp, map (\<lambda>i. if a ! i = v then Some (int (length (filter (\<lambda>x. x = v) (take i a))) + ndone)
                        else perm ! i) [0..<length a])"
proof -
  let ?c = "\<lambda>i. int (length (filter (\<lambda>x. x = v) (take (nat i) a))) + ndone"
  let ?P = "\<lambda>n perm'. perm' = map (\<lambda>i. if i < nat n \<and> a ! i = v then Some (?c (int i)) else perm ! i) [0..<length a]"
  have tmp0: "wr tmp 0 (Some 0) = Some tmp"
    using assms(1) assms(2) [of 0] by (cases tmp) (simp_all add: wr_def asize_def)
  have "\<exists>s'. parallel_for (asize a) (\<lambda>i perm. do { x \<leftarrow> rd a i;
       if x = v then do { t \<leftarrow> rd_cell tmp i; wr perm i (Some (t + ndone)) } else Some perm }) perm = Some s' \<and>
     ?P (asize a) s'"
  proof (rule parallel_for_rule)
    show "?P 0 perm" using assms(3) by (intro nth_equalityI) simp_all
    fix i s assume i: "0 \<le> i" "i < asize a" and s: "?P i s"
    then have k: "nat i < length a" "int (nat i) = i" "nat (i + 1) = Suc (nat i)"
      by (simp_all add: asize_def nat_less_iff)
    have t: "rd_cell tmp i = Some (int (length (filter (\<lambda>x. x = v) (take (nat i) a))))"
      using assms(1) assms(2) [of "nat i"] i by (simp add: rd_cell_Some asize_def)
    show "\<exists>s'. do { x \<leftarrow> rd a i; if x = v then do { t \<leftarrow> rd_cell tmp i; wr s i (Some (t + ndone)) }
        else Some s } = Some s' \<and> ?P (i + 1) s'"
    proof (cases "a ! nat i = v")
      case True
      have "s[nat i := Some (?c i)] =
          map (\<lambda>j. if j < Suc (nat i) \<and> a ! j = v then Some (?c (int j)) else perm ! j) [0..<length a]"
        using k True i by (intro nth_equalityI) (auto simp: s nth_list_update less_Suc_eq)
      moreover have "wr s i (Some (?c i)) = Some (s[nat i := Some (?c i)])"
        using i by (intro wr_Some) (simp_all add: s asize_def)
      ultimately show ?thesis using True i k(3) t by (simp add: rd_Some)
    next
      case False
      then have "s = map (\<lambda>j. if j < Suc (nat i) \<and> a ! j = v then Some (?c (int j)) else perm ! j) [0..<length a]"
        by (intro nth_equalityI) (auto simp: s less_Suc_eq)
      then show ?thesis using False i k by (simp add: rd_Some)
    qed
  qed simp
  then obtain s' where s': "parallel_for (asize a) (\<lambda>i perm. do { x \<leftarrow> rd a i;
       if x = v then do { t \<leftarrow> rd_cell tmp i; wr perm i (Some (t + ndone)) } else Some perm }) perm = Some s'"
    "?P (asize a) s'" by blast
  then show ?thesis using tmp0 by (simp add: combine_perms_def asize_def)
qed

definition distinct_values :: "int list \<Rightarrow> int list" where
  "distinct_values a = sorted_list_of_set (set a)"

lemma distinct_values_simps [simp]:
  "set (distinct_values a) = set a" "sorted (distinct_values a)" "distinct (distinct_values a)"
  by (simp_all add: distinct_values_def)

lemma distinct_values_index:
  assumes "x \<in> set a"
  obtains j where "j < length (distinct_values a)" "distinct_values a ! j = x"
  using assms in_set_conv_nth [of x "distinct_values a"] by auto

lemma distinct_values_less_iff:
  assumes "j < length (distinct_values a)" "k < length (distinct_values a)"
  shows "distinct_values a ! j < distinct_values a ! k \<longleftrightarrow> j < k"
proof -
  have "sorted_wrt (<) (distinct_values a)" by (simp add: strict_sorted_iff)
  then show ?thesis using assms sorted_wrt_nth_less [of "(<)" "distinct_values a"]
    by (metis linorder_neqE_nat order_less_asym)
qed

lemma distinct_values_next:
  assumes "Suc k < length (distinct_values a)" "x \<in> set a"
  shows "x < distinct_values a ! Suc k \<longleftrightarrow> x \<le> distinct_values a ! k"
proof -
  obtain j where j: "j < length (distinct_values a)" "distinct_values a ! j = x"
    using assms(2) by (rule distinct_values_index)
  have "x < distinct_values a ! Suc k \<longleftrightarrow> j < Suc k"
    using distinct_values_less_iff [of j a "Suc k"] j assms(1) by simp
  moreover have "distinct_values a ! k < x \<longleftrightarrow> k < j"
    using distinct_values_less_iff [of k a j] j assms(1) by simp
  ultimately show ?thesis by auto
qed

lemma less_count_plus: "less_count a v + length (filter (\<lambda>x. x = v) a) = length (filter (\<lambda>x. x \<le> v) a)"
  unfolding less_count_def by (induction a) auto

lemma less_count_next:
  assumes "Suc k < length (distinct_values a)"
  shows "less_count a (distinct_values a ! Suc k) =
    less_count a (distinct_values a ! k) + length (filter (\<lambda>x. x = distinct_values a ! k) a)"
  unfolding less_count_plus
  unfolding less_count_def using distinct_values_next [OF assms] by (metis (mono_tags, lifting) filter_cong)

lemma last_distinct_value:
  assumes "k < length (distinct_values a)"
  shows "length (filter (\<lambda>x. x \<le> distinct_values a ! k) a) = length a \<longleftrightarrow> Suc k = length (distinct_values a)"
proof
  assume L: "length (filter (\<lambda>x. x \<le> distinct_values a ! k) a) = length a"
  show "Suc k = length (distinct_values a)"
  proof (rule ccontr)
    assume "Suc k \<noteq> length (distinct_values a)"
    then have k: "Suc k < length (distinct_values a)" using assms by simp
    have "distinct_values a ! Suc k \<in> set a" using nth_mem [OF k] by simp
    moreover have "\<not> distinct_values a ! Suc k \<le> distinct_values a ! k"
      using distinct_values_less_iff [OF assms k] by simp
    ultimately have "length (filter (\<lambda>x. x \<le> distinct_values a ! k) a) < length a"
      by (intro length_filter_less) auto
    with L show False by simp
  qed
next
  assume k: "Suc k = length (distinct_values a)"
  have "x \<le> distinct_values a ! k" if "x \<in> set a" for x
  proof -
    obtain j where j: "j < length (distinct_values a)" "distinct_values a ! j = x"
      using \<open>x \<in> set a\<close> by (rule distinct_values_index)
    have "\<not> distinct_values a ! k < distinct_values a ! j"
      unfolding distinct_values_less_iff [OF assms j(1)] using j(1) k by linarith
    then show ?thesis unfolding j(2) by simp
  qed
  then show "length (filter (\<lambda>x. x \<le> distinct_values a ! k) a) = length a"
    by (simp add: filter_id_conv)
qed

lemma next_smallest_value_eq:
  assumes "Suc k < length (distinct_values a)" "\<forall>x \<in> set a. x \<le> lo_max"
  shows "next_smallest_value a (distinct_values a ! k) = Some (distinct_values a ! Suc k)"
proof -
  let ?v = "distinct_values a ! k" and ?w = "distinct_values a ! Suc k"
  let ?h = "\<lambda>x. if x > ?v then x else lo_max"
  have "next_smallest_value a ?v = Some (foldl min lo_max (map (\<lambda>i. ?h (a ! i)) [0..<length a]))"
    unfolding next_smallest_value_def asize_def by (rule transform_reduce_eq) simp
  also have "map (\<lambda>i. ?h (a ! i)) [0..<length a] = map ?h a"
    by (rule nth_equalityI) simp_all
  finally have eq: "next_smallest_value a ?v = Some (foldl min lo_max (map ?h a))" .
  have w: "?w \<in> set a" "?v < ?w"
    using nth_mem [OF assms(1)] distinct_values_less_iff [of k a "Suc k"] assms(1) by simp_all
  have "Min (set (map ?h a)) = ?w"
  proof (rule Min_eqI)
    show "?w \<in> set (map ?h a)" using w by force
    fix y assume "y \<in> set (map ?h a)"
    then obtain x where x: "x \<in> set a" "y = ?h x" by auto
    show "?w \<le> y"
    proof (cases "x > ?v")
      case True
      then show ?thesis using distinct_values_next [OF assms(1) x(1)] x(2) by simp
    next
      case False
      then show ?thesis using w(1) assms(2) x(2) by simp
    qed
  qed simp
  moreover have "a \<noteq> []" using w(1) by auto
  moreover have "?w \<le> lo_max" using w(1) assms(2) by blast
  ultimately show ?thesis by (simp add: eq foldl_min)
qed

lemma sort_small_loop_eq:
  assumes "k < length (distinct_values a)" "\<forall>x \<in> set a. x \<le> lo_max" "length tmp = Suc (length a)"
  shows "sort_small_loop a (int (less_count a (distinct_values a ! k))) (distinct_values a ! k) tmp
      (map (\<lambda>i. if a ! i < distinct_values a ! k then Some (rank a i) else Some (- 42)) [0..<length a])
      fan uniq =
    Some (map (\<lambda>i. Some (rank a i)) [0..<length a],
      fan @ map (\<lambda>v. int (length (filter (\<lambda>x. x \<le> v) a))) (drop k (distinct_values a)),
      uniq @ drop k (distinct_values a))"
  using assms(1,3)
proof (induction "length (distinct_values a) - k" arbitrary: k tmp fan uniq rule: less_induct)
  case less
  let ?U = "distinct_values a" and ?n = "length a"
  let ?v = "?U ! k"
  let ?perm = "map (\<lambda>i. if a ! i < ?v then Some (rank a i) else Some (- 42)) [0..<?n]"
  let ?cnt = "length (filter (\<lambda>x. x = ?v) a)"
  obtain tmp' where tmp': "number_same_values a ?v tmp = Some (tmp', int ?cnt)" "length tmp' = Suc ?n"
    "\<And>j. j \<le> ?n \<Longrightarrow> tmp' ! j = Some (int (length (filter (\<lambda>x. x = ?v) (take j a))))"
    using number_same_values_eq [OF less.prems(2), of ?v] by blast
  let ?perm' = "map (\<lambda>i. if a ! i \<le> ?v then Some (rank a i) else Some (- 42)) [0..<?n]"
  have "map (\<lambda>i. if a ! i = ?v then Some (int (length (filter (\<lambda>x. x = ?v) (take i a))) +
      int (less_count a ?v)) else ?perm ! i) [0..<?n] = ?perm'"
    by (rule nth_equalityI) (auto simp: rank_def)
  then have comb: "combine_perms a ?v tmp' ?perm (int (less_count a ?v)) = Some (tmp', ?perm')"
    by (subst combine_perms_eq [OF tmp'(2)]) (simp_all add: tmp'(3))
  have done_eq: "int (less_count a ?v) + int ?cnt = int (length (filter (\<lambda>x. x \<le> ?v) a))"
    using less_count_plus [of a ?v] by linarith
  have drop_k: "drop k ?U = ?v # drop (Suc k) ?U" using less.prems(1) by (simp add: Cons_nth_drop_Suc)
  show ?case
  proof (cases "Suc k = length ?U")
    case True
    then have all: "length (filter (\<lambda>x. x \<le> ?v) a) = ?n" using last_distinct_value [OF less.prems(1)] by simp
    then have "\<forall>i < ?n. a ! i \<le> ?v" by (metis filter_id_conv length_filter_less less_irrefl nth_mem)
    then have "?perm' = map (\<lambda>i. Some (rank a i)) [0..<?n]" by (intro map_cong) auto
    then show ?thesis
      using True by (subst sort_small_loop.simps) (simp add: tmp'(1) comb done_eq all drop_k asize_def)
  next
    case False
    then have k: "Suc k < length ?U" using less.prems(1) by simp
    have nd: "length (filter (\<lambda>x. x \<le> ?v) a) \<noteq> ?n" using last_distinct_value [OF less.prems(1)] False by simp
    have pe: "?perm' = map (\<lambda>i. if a ! i < ?U ! Suc k then Some (rank a i) else Some (- 42)) [0..<?n]"
      using distinct_values_next [OF k] by (intro map_cong) auto
    have lc: "less_count a (?U ! Suc k) = length (filter (\<lambda>x. x \<le> ?v) a)"
      using less_count_next [OF k] less_count_plus [of a ?v] by simp
    note IH = less.hyps [of "Suc k" tmp', OF _ k tmp'(2), folded pe, unfolded lc]
    have "sort_small_loop a (int (length (filter (\<lambda>x. x \<le> ?v) a))) (?U ! Suc k) tmp' ?perm'
        (fan @ [int (length (filter (\<lambda>x. x \<le> ?v) a))]) (uniq @ [?v]) =
      Some (map (\<lambda>i. Some (rank a i)) [0..<?n],
      (fan @ [int (length (filter (\<lambda>x. x \<le> ?v) a))]) @
        map (\<lambda>v. int (length (filter (\<lambda>x. x \<le> v) a))) (drop (Suc k) ?U),
      (uniq @ [?v]) @ drop (Suc k) ?U)"
      by (rule IH) (use k in simp)
    then show ?thesis
      by (subst sort_small_loop.simps)
        (simp add: tmp'(1) comb done_eq nd drop_k asize_def next_smallest_value_eq [OF k assms(2)])
  qed
qed

lemma sort_small_range_eq:
  assumes "\<forall>x \<in> set a. x \<le> lo_max"
  shows "sort_small_range a =
    Some (map (rank a) [0..<length a],
      0 # map (\<lambda>v. int (length (filter (\<lambda>x. x \<le> v) a))) (distinct_values a), distinct_values a)"
proof (cases "a = []")
  case True
  then show ?thesis
    by (simp add: sort_small_range_def get_min_def transform_reduce_def distinct_values_def freeze_def)
next
  case False
  let ?U = "distinct_values a"
  have U: "0 < length ?U" using False by (simp add: distinct_values_def card_gt_0_iff)
  have min: "Min (set a) = ?U ! 0"
  proof (rule Min_eqI)
    show "?U ! 0 \<in> set a" using nth_mem [OF U] by simp
    fix y assume "y \<in> set a"
    then obtain j where j: "j < length ?U" "?U ! j = y" by (rule distinct_values_index)
    have "\<not> ?U ! j < ?U ! 0" unfolding distinct_values_less_iff [OF j(1) U] by simp
    then show "?U ! 0 \<le> y" unfolding j(2) by simp
  qed simp
  have low: "\<not> x < ?U ! 0" if "x \<in> set a" for x using that min by (metis List.finite_set Min_le not_le)
  then have "less_count a (?U ! 0) = 0" by (auto simp: less_count_def filter_empty_conv)
  moreover have "map (\<lambda>i. if a ! i < ?U ! 0 then Some (rank a i) else Some (- 42)) [0..<length a] =
      replicate (length a) (Some (- 42))"
    using low by (intro nth_equalityI) auto
  ultimately have loop: "sort_small_loop a 0 (?U ! 0) (fresh (asize a + 1))
      (replicate (length a) (Some (- 42))) [0] [] =
    Some (map (\<lambda>i. Some (rank a i)) [0..<length a],
      [0] @ map (\<lambda>v. int (length (filter (\<lambda>x. x \<le> v) a))) ?U, ?U)"
    using sort_small_loop_eq [OF U assms, of "fresh (asize a + 1)" "[0]" "[]"]
    by (simp add: asize_def nat_add_distrib)
  have "freeze (map (\<lambda>i. Some (rank a i)) [0..<length a]) = Some (map (rank a) [0..<length a])"
    by (rule freeze_eqI) simp_all
  then show ?thesis
    using get_min_spec [OF False assms] False loop by (simp add: sort_small_range_def min asize_def)
qed

section \<open>Positions in the sorted order\<close>

lemma sorted_position:
  assumes "sorted_wrt R p" "\<And>x y. R x y \<Longrightarrow> \<not> R y x" "m < length p"
  shows "length (filter (\<lambda>x. R x (p ! m)) p) = m"
proof -
  have p: "p = take m p @ p ! m # drop (Suc m) p" using assms(3) by (rule id_take_nth_drop)
  have "sorted_wrt R (take m p @ p ! m # drop (Suc m) p)" using assms(1) p by simp
  then have "\<forall>x \<in> set (take m p). R x (p ! m)" "\<forall>x \<in> set (drop (Suc m) p). R (p ! m) x"
    by (simp_all add: sorted_wrt_append)
  note around = this
  have "filter (\<lambda>x. R x (p ! m)) p =
      filter (\<lambda>x. R x (p ! m)) (take m p) @ filter (\<lambda>x. R x (p ! m)) (p ! m # drop (Suc m) p)"
    by (subst p) (simp only: filter_append)
  also have "filter (\<lambda>x. R x (p ! m)) (take m p) = take m p"
    using around(1) by (simp add: filter_id_conv)
  also have "filter (\<lambda>x. R x (p ! m)) (p ! m # drop (Suc m) p) = []"
    using around(2) assms(2) by (auto simp: filter_empty_conv)
  finally show ?thesis using assms(3) by simp
qed

lemma key_order_asym:
  fixes x y :: int
  assumes "f x < (f y :: 'k :: linorder) \<or> f x = f y \<and> x < y"
  shows "\<not> (f y < f x \<or> f y = f x \<and> y < x)"
  using assms by (metis order_less_asym order_less_irrefl)

lemma length_filter_or:
  assumes "\<And>x. \<not> (P x \<and> Q x)"
  shows "length (filter (\<lambda>x. P x \<or> Q x) xs) = length (filter P xs) + length (filter Q xs)"
  using assms by (induction xs) auto

lemma length_filter_nth: "length (filter (\<lambda>k. P (a ! k)) [0..<length a]) = length (filter P a)"
  using length_filter_map [of P "\<lambda>k. a ! k" "[0..<length a]"] by (simp add: map_nth comp_def)

lemma length_filter_below:
  assumes "i \<le> length a"
  shows "length (filter (\<lambda>k. P (a ! k) \<and> k < i) [0..<length a]) = length (filter P (take i a))"
proof -
  have "[0..<length a] = [0..<i] @ [i..<length a]" using assms by (metis le_add_diff_inverse upt_add_eq_append zero_le)
  then have "filter (\<lambda>k. P (a ! k) \<and> k < i) [0..<length a] = filter (\<lambda>k. P (take i a ! k)) [0..<length (take i a)]"
    using assms by (auto simp: filter_empty_conv intro: filter_cong)
  then show ?thesis by (simp only: length_filter_nth)
qed

lemma rank_position:
  assumes i: "i < length a" and order: "sort_by_keys a 1 = Some order"
  shows "0 \<le> rank a i" "rank a i < asize order" "order ! nat (rank a i) = int i"
proof -
  let ?R = "\<lambda>x y. row 1 a x < row 1 a y \<or> row 1 a x = row 1 a y \<and> x < y"
  have o: "order = sort_key (row 1 a) [0..asize a - 1]"
    using sort_by_keys_eq [of 1 a "asize a"] order by simp
  then have sorted: "sorted_wrt ?R order" using sorted_wrt_sort_key [of "[0..asize a - 1]" "row 1 a"] by simp
  have mset: "mset order = mset [0..asize a - 1]" using o by simp
  have "set order = {0..asize a - 1}" by (simp add: o)
  then have "int i \<in> set order" using i by (simp add: asize_def)
  then obtain m where m: "m < length order" "order ! m = int i" by (auto simp: in_set_conv_nth)
  have "m = length (filter (\<lambda>x. ?R x (int i)) order)"
  proof (subst sorted_position [OF sorted _ m(1), unfolded m(2)])
    show "\<not> ?R y x" if "?R x y" for x y using that by (rule key_order_asym)
  qed simp
  also have "\<dots> = length (filter (\<lambda>x. ?R x (int i)) [0..asize a - 1])"
    by (simp only: size_mset [symmetric] mset_filter mset)
  also have "\<dots> = length (filter (\<lambda>k. a ! k < a ! i \<or> (a ! k = a ! i \<and> k < i)) [0..<length a])"
    by (simp add: asize_def upto_eq_map_upt filter_map comp_def)
  also have "\<dots> = less_count a (a ! i) + length (filter (\<lambda>x. x = a ! i) (take i a))"
    using length_filter_or [of "\<lambda>k. a ! k < a ! i" "\<lambda>k. a ! k = a ! i \<and> k < i" "[0..<length a]"]
      length_filter_nth [of "\<lambda>x. x < a ! i" a] length_filter_below [of i a "\<lambda>x. x = a ! i"] i
    by (simp add: less_count_def)
  finally have "rank a i = int m" by (simp add: rank_def)
  then show "0 \<le> rank a i" "rank a i < asize order" "order ! nat (rank a i) = int i"
    using m by (simp_all add: asize_def)
qed

section \<open>Properties\<close>

text \<open>C15. \<open>sort_by_keys\<close> sorts the items of an array with one to four keys each: the result is a
  permutation of the item indices, ordered by the key rows lexicographically, and items with equal
  rows stay in their original order.  Any other number of keys fails.  (The comment on \<open>sort_by_keys\<close>
  in \<open>Omega_h_sort.hpp\<close> allows one to three keys; the code accepts four as well.)\<close>

theorem sort_by_keys_stable:
  assumes "asize keys = n * width" "0 \<le> n"
  shows "if 1 \<le> width \<and> width \<le> 4 then
      \<exists>perm. sort_by_keys keys width = Some perm \<and> mset perm = mset [0..n - 1] \<and>
        sorted_wrt (\<lambda>a b. row width keys a < row width keys b \<or>
          row width keys a = row width keys b \<and> a < b) perm
    else sort_by_keys keys width = None"
proof (cases "1 \<le> width \<and> width \<le> 4")
  case True
  then show ?thesis
    using sort_by_keys_eq [OF _ _ assms(1)] sorted_wrt_sort_key [of "[0..n - 1]" "row width keys"] by simp
qed (auto simp: sort_by_keys_def)

theorem sort_by_keys_stable_witness:
  "\<exists>perm. sort_by_keys [2, 1, 1, 9, 2, 0, 1, 9] 2 = Some perm \<and> mset perm = mset [0, 1, 2, 3]"
proof -
  have "[0..4 - 1] = [0, 1, 2, 3::int]" by code_simp
  then show ?thesis
    using sort_by_keys_stable [of "[2, 1, 1, 9, 2, 0, 1, 9]" 4 2] by auto
qed

text \<open>C16. \<open>sort_small_range\<close> terminates on every array and agrees with \<open>sort_by_keys\<close>: it returns the
  distinct values in increasing order, the offsets of the groups of equal values, and for every item
  its position in the stable order, so its permutation is the inverse of the one of \<open>sort_by_keys\<close>.\<close>

theorem sort_small_range_inverts_sort:
  assumes "\<forall>x \<in> set a. x \<le> lo_max"
  shows "\<exists>perm fan uniq order. sort_small_range a = Some (perm, fan, uniq) \<and>
    sort_by_keys a 1 = Some order \<and>
    length perm = length a \<and> (\<forall>i < length a. rd order (perm ! i) = Some (int i)) \<and>
    set uniq = set a \<and> sorted_wrt (<) uniq \<and>
    length fan = Suc (length uniq) \<and> fan ! 0 = 0 \<and>
    (\<forall>k < length uniq. fan ! Suc k = fan ! k + int (count_list a (uniq ! k)))"
proof -
  let ?U = "distinct_values a" and ?le = "\<lambda>v. int (length (filter (\<lambda>x. x \<le> v) a))"
  let ?fan = "0 # map ?le ?U"
  obtain order where order: "sort_by_keys a 1 = Some order"
    using sort_by_keys_eq [of 1 a "asize a"] by simp
  have count: "count_list a v = length (filter (\<lambda>x. x = v) a)" for v
    by (induction a) auto
  have "?fan ! Suc k = ?fan ! k + int (count_list a (?U ! k))" if k: "k < length ?U" for k
  proof (cases k)
    case 0
    have "\<not> x < ?U ! 0" if "x \<in> set a" for x
    proof -
      obtain j where j: "j < length ?U" "?U ! j = x" using \<open>x \<in> set a\<close> by (rule distinct_values_index)
      show ?thesis using distinct_values_less_iff [OF j(1), of 0] k 0 j(2) by simp
    qed
    then have "less_count a (?U ! 0) = 0" by (auto simp: less_count_def filter_empty_conv)
    then show ?thesis using 0 k less_count_plus [of a "?U ! 0"] by (simp add: count)
  next
    case (Suc m)
    then show ?thesis
      using k less_count_plus [of a "?U ! k"] less_count_plus [of a "?U ! m"] less_count_next [of m a]
      by (simp add: count)
  qed
  moreover have "sorted_wrt (<) ?U" by (simp add: strict_sorted_iff)
  ultimately show ?thesis
    using order sort_small_range_eq [OF assms] rank_position [OF _ order] by (auto simp: rd_def)
qed

theorem sort_small_range_inverts_sort_witness:
  "\<exists>perm fan uniq. sort_small_range [7, 3, 7, 3, 1] = Some (perm, fan, uniq) \<and> set uniq = {1, 3, 7}"
  using sort_small_range_inverts_sort [of "[7, 3, 7, 3, 1]"] by (auto simp: lo_max_def)

end
