(* ===== verification/Inverse_Maps.thy ===== *)
theory Inverse_Maps
  imports Fans Sort
begin

text \<open>
  Inverting maps that are not injective (the rest of \<open>src/src/Omega_h_map.cpp\<close>): the fibres of a map
  as a graph, once by sorting and once by counting with atomic operations.

  \<open>fibres order a2b nb\<close> lists, for every target \<open>b\<close>, the sources mapped to \<open>b\<close>, in the order in which
  they occur in \<open>order\<close>.  The orders in which the threads execute the two parallel loops of
  \<open>invert_map_by_atomics\<close> are parameters; an atomic operation is one indivisible step of its iteration.
\<close>

definition fibres :: "lo list \<Rightarrow> lo list \<Rightarrow> lo \<Rightarrow> lo list list" where
  "fibres order a2b nb = map (\<lambda>b. filter (\<lambda>a. a2b ! nat a = b) order) [0..nb - 1]"

definition invert_funnel :: "lo list \<Rightarrow> lo \<Rightarrow> lo list option" where
  "invert_funnel ab2a na = do {
     let nab = asize ab2a;
     omega_check (0 \<le> na + 1);
     let a2ab = replicate (nat (na + 1)) (Some (- 1));
     a2ab \<leftarrow> wr a2ab 0 (Some 0);
     a2ab \<leftarrow> parallel_for (max 0 (nab - 1)) (\<lambda>ab a2ab. do {
       a_end \<leftarrow> rd ab2a ab;
       a_start \<leftarrow> rd ab2a (ab + 1);
       if a_end \<noteq> a_start then wr a2ab (a_end + 1) (Some (ab + 1)) else Some a2ab
     }) a2ab;
     a2ab \<leftarrow> (if nab \<noteq> 0 then do {
       a_end \<leftarrow> rd ab2a (nab - 1);
       wr a2ab (a_end + 1) (Some nab)
     } else Some a2ab);
     a2ab \<leftarrow> fill_right a2ab;
     freeze a2ab
   }"

definition invert_map_by_sorting :: "lo list \<Rightarrow> lo \<Rightarrow> graph option" where
  "invert_map_by_sorting a2b nb = do {
     ba2ab \<leftarrow> sort_by_keys a2b 1;
     ba2b \<leftarrow> unmap ba2ab a2b 1;
     b2ba \<leftarrow> invert_funnel ba2b nb;
     Some \<lparr>a2ab = b2ba, ab2b = ba2ab\<rparr>
   }"

definition invert_map_by_atomics :: "lo list \<Rightarrow> lo list \<Rightarrow> lo list \<Rightarrow> lo \<Rightarrow> graph option" where
  "invert_map_by_atomics count_order fill_order a2b nb = do {
     omega_check (0 \<le> nb);
     let degs = replicate (nat nb) (Some 0);
     degs \<leftarrow> run_for count_order (\<lambda>a degs. do {
       b \<leftarrow> rd a2b a;
       d \<leftarrow> rd_cell degs b;
       wr degs b (Some (d + 1))
     }) degs;
     degs \<leftarrow> freeze degs;
     b2ba \<leftarrow> offset_scan degs;
     nba \<leftarrow> rd b2ba nb;
     write_ba2a \<leftarrow> alloc nba;
     let positions = replicate (nat nb) (Some 0);
     (positions, write_ba2a) \<leftarrow> run_for fill_order (\<lambda>a (positions, write_ba2a). do {
       b \<leftarrow> rd a2b a;
       first \<leftarrow> rd b2ba b;
       j \<leftarrow> rd_cell positions b;
       positions \<leftarrow> wr positions b (Some (j + 1));
       write_ba2a \<leftarrow> wr write_ba2a (first + j) (Some a);
       Some (positions, write_ba2a)
     }) (positions, write_ba2a);
     ba2a \<leftarrow> freeze write_ba2a;
     Some \<lparr>a2ab = b2ba, ab2b = ba2a\<rparr>
   }"

section \<open>Funnels\<close>

lemma less_count_mono: "u \<le> v \<Longrightarrow> less_count xs u \<le> less_count xs v"
  unfolding less_count_def by (induction xs) auto

lemma less_count_step:
  "less_count xs (v + 1) = less_count xs v + length (filter (\<lambda>x. x = v) xs)"
  unfolding less_count_def by (induction xs) auto

lemma less_count_same: "v \<notin> set xs \<Longrightarrow> less_count xs (v + 1) = less_count xs v"
  by (simp add: less_count_step filter_empty_conv) (metis (mono_tags, lifting) filter_False list.size(3))

text \<open>In a sorted array the items up to the last occurrence of a value are the items below its successor.\<close>

lemma sorted_less_count:
  assumes "sorted xs" "k < length xs" "Suc k < length xs \<Longrightarrow> xs ! k < xs ! Suc k"
  shows "less_count xs (xs ! k + 1) = Suc k"
proof -
  have xs: "xs = take (Suc k) xs @ drop (Suc k) xs" by simp
  have "x \<le> xs ! k" if "x \<in> set (take (Suc k) xs)" for x
    using that assms(1,2) by (auto simp: in_set_conv_nth less_Suc_eq_le intro: sorted_nth_mono)
  then have l: "filter (\<lambda>x. x < xs ! k + 1) (take (Suc k) xs) = take (Suc k) xs"
    by (intro filter_True) auto
  have "xs ! k < x" if "x \<in> set (drop (Suc k) xs)" for x
  proof -
    obtain j where j: "Suc k + j < length xs" "x = xs ! (Suc k + j)"
    proof -
      obtain j where "j < length (drop (Suc k) xs)" "drop (Suc k) xs ! j = x"
        using \<open>x \<in> set (drop (Suc k) xs)\<close> by (auto simp: in_set_conv_nth)
      then show ?thesis by (intro that [of j]) auto
    qed
    have "xs ! Suc k \<le> x" using assms(1) j by (simp add: sorted_nth_mono)
    then show ?thesis using assms(3) j(1) by simp
  qed
  note gt = this
  have r: "filter (\<lambda>x. x < xs ! k + 1) (drop (Suc k) xs) = []"
    unfolding filter_empty_conv
  proof (intro ballI)
    fix x assume "x \<in> set (drop (Suc k) xs)"
    from gt [OF this] show "\<not> x < xs ! k + 1" by simp
  qed
  have "filter (\<lambda>x. x < xs ! k + 1) xs = take (Suc k) xs"
    by (subst xs) (simp only: filter_append l r append_Nil2)
  then show ?thesis using assms(2) by (simp add: less_count_def)
qed

lemma last_occurrence:
  assumes "sorted xs" "v \<in> set xs"
  obtains k where "k < length xs" "xs ! k = v" "Suc k < length xs \<Longrightarrow> xs ! k < xs ! Suc k"
proof -
  let ?S = "{k. k < length xs \<and> xs ! k = v}"
  have "?S \<noteq> {}" "finite ?S" using assms(2) by (auto simp: in_set_conv_nth)
  then have m: "Max ?S \<in> ?S" "\<And>k. k \<in> ?S \<Longrightarrow> k \<le> Max ?S"
    using Max_in [of ?S] Max_ge [of ?S] by blast+
  have "xs ! Max ?S < xs ! Suc (Max ?S)" if "Suc (Max ?S) < length xs"
  proof -
    have "xs ! Max ?S \<le> xs ! Suc (Max ?S)" using assms(1) that by (simp add: sorted_iff_nth_Suc)
    moreover have "xs ! Suc (Max ?S) \<noteq> v" using m(2) [of "Suc (Max ?S)"] that by (metis (mono_tags, lifting) mem_Collect_eq Suc_n_not_le_n)
    ultimately show ?thesis using m(1) by auto
  qed
  then show ?thesis using that [of "Max ?S"] m(1) by blast
qed

lemma invert_funnel_eq:
  assumes srt: "sorted xs" and rng: "\<And>x. x \<in> set xs \<Longrightarrow> 0 \<le> x \<and> x < na" and na: "0 \<le> na"
  shows "invert_funnel xs na = Some (map (\<lambda>a. int (less_count xs (int a))) [0..<Suc (nat na)])"
proof -
  let ?n = "length xs" and ?m = "Suc (nat na)"
  let ?L = "\<lambda>v. int (less_count xs v)"
  let ?init = "(replicate ?m (Some (- 1)))[0 := Some (0 :: int)]"
  let ?c = "\<lambda>ab. xs ! nat ab \<noteq> xs ! nat (ab + 1)"
  let ?is = "filter ?c [0..max 0 (asize xs - 1) - 1] @ (if xs = [] then [] else [asize xs - 1])"
  let ?p = "\<lambda>ab. xs ! nat ab + 1"
  have is_mem: "nat ab < ?n \<and> 0 \<le> ab \<and> (Suc (nat ab) < ?n \<longrightarrow> xs ! nat ab < xs ! Suc (nat ab))"
    if "ab \<in> set ?is" for ab
  proof (cases "ab \<in> set (filter ?c [0..max 0 (asize xs - 1) - 1])")
    case True
    then have ab: "0 \<le> ab" "nat ab < ?n" "Suc (nat ab) < ?n" "nat (ab + 1) = Suc (nat ab)"
      by (auto simp: asize_def max_def split: if_splits)
    have "xs ! nat ab \<le> xs ! Suc (nat ab)" using srt ab(3) by (simp add: sorted_iff_nth_Suc)
    then show ?thesis using True ab by auto
  next
    case False
    then show ?thesis using that by (cases xs) (auto simp: asize_def split: if_splits)
  qed
  have val: "int (less_count xs (?p ab)) = ab + 1" if "ab \<in> set ?is" for ab
    using sorted_less_count [OF srt, of "nat ab"] is_mem [OF that] by simp
  have hit: "v + 1 \<in> ?p ` set ?is" if v: "v \<in> set xs" for v
  proof -
    obtain k where k: "k < ?n" "xs ! k = v" "Suc k < ?n \<Longrightarrow> xs ! k < xs ! Suc k"
      using last_occurrence [OF srt v] by blast
    have "int k \<in> set ?is"
    proof (cases "Suc k < ?n")
      case True
      have "nat (int k + 1) = Suc k" by simp
      then have "?c (int k)" using k(3) [OF True] by simp
      then show ?thesis using True by (auto simp: asize_def)
    qed (use k(1) in \<open>auto simp: asize_def\<close>)
    then show ?thesis using k(2) by (intro image_eqI [of _ _ "int k"]) simp
  qed
  have run: "do { a2ab \<leftarrow> parallel_for (max 0 (asize xs - 1)) (\<lambda>ab a2ab. do {
       a_end \<leftarrow> rd xs ab; a_start \<leftarrow> rd xs (ab + 1);
       if a_end \<noteq> a_start then wr a2ab (a_end + 1) (Some (ab + 1)) else Some a2ab }) ?init;
     if asize xs \<noteq> 0 then do { a_end \<leftarrow> rd xs (asize xs - 1); wr a2ab (a_end + 1) (Some (asize xs)) }
     else Some a2ab } = run_for ?is (\<lambda>ab s. wr s (?p ab) (Some (ab + 1))) ?init"
  proof -
    have "parallel_for (max 0 (asize xs - 1)) (\<lambda>ab a2ab. do {
         a_end \<leftarrow> rd xs ab; a_start \<leftarrow> rd xs (ab + 1);
         if a_end \<noteq> a_start then wr a2ab (a_end + 1) (Some (ab + 1)) else Some a2ab }) ?init =
       run_for [0..max 0 (asize xs - 1) - 1]
         (\<lambda>ab s. if ?c ab then wr s (?p ab) (Some (ab + 1)) else Some s) ?init"
      unfolding parallel_for_def for_range_def by (rule run_for_cong) (auto simp: rd_Some)
    also have "\<dots> = run_for (filter ?c [0..max 0 (asize xs - 1) - 1])
         (\<lambda>ab s. wr s (?p ab) (Some (ab + 1))) ?init"
      by (rule run_for_filter)
    finally show ?thesis by (cases "xs = []") (auto simp: run_for_append rd_Some asize_def Suc_le_eq)
  qed
  have "\<exists>s'. run_for ?is (\<lambda>ab s. wr s (?p ab) (Some (ab + 1))) ?init = Some s' \<and> length s' = ?m \<and>
     (\<forall>ab \<in> set ?is. s' ! nat (?p ab) = Some (ab + 1)) \<and>
     (\<forall>k. int k \<notin> ?p ` set ?is \<longrightarrow> s' ! k = ?init ! k)"
  proof (rule run_for_scatter)
    show "0 \<le> ?p ab \<and> ?p ab < int ?m" if "ab \<in> set ?is" for ab
      using rng [of "xs ! nat ab"] is_mem [OF that] na by simp
    show "Some (ab + 1) = Some (cd + 1)" if "ab \<in> set ?is" "cd \<in> set ?is" "?p ab = ?p cd" for ab cd
      using val [OF that(1)] val [OF that(2)] unfolding that(3) by simp
  qed simp_all
  then obtain s where s: "run_for ?is (\<lambda>ab s. wr s (?p ab) (Some (ab + 1))) ?init = Some s" "length s = ?m"
    "\<And>ab. ab \<in> set ?is \<Longrightarrow> s ! nat (?p ab) = Some (ab + 1)"
    "\<And>k. int k \<notin> ?p ` set ?is \<Longrightarrow> s ! k = ?init ! k" by blast
  let ?v = "map (\<lambda>k. if k = 0 then 0 else if int k - 1 \<in> set xs then ?L (int k) else - 1) [0..<?m]"
  have "s = map Some ?v"
  proof (rule nth_equalityI)
    fix k assume "k < length s"
    then have k: "k < ?m" using s(2) by simp
    show "s ! k = map Some ?v ! k"
    proof (cases "k \<noteq> 0 \<and> int k - 1 \<in> set xs")
      case True
      then obtain ab where ab: "ab \<in> set ?is" "int k = ?p ab" using hit [of "int k - 1"] by auto
      have "s ! nat (int k) = Some (?L (int k))" unfolding ab(2) s(3) [OF ab(1)] val [OF ab(1)] ..
      then have "s ! k = Some (?L (int k))" by simp
      then show ?thesis using True k by (simp del: upt_Suc)
    next
      case False
      have "int k \<notin> ?p ` set ?is"
      proof
        assume "int k \<in> ?p ` set ?is"
        then obtain ab where ab: "ab \<in> set ?is" "int k = ?p ab" by blast
        then have "int k - 1 \<in> set xs" "0 < k" using is_mem [OF ab(1)] rng [of "xs ! nat ab"] by auto
        with False show False by simp
      qed
      from s(4) [OF this] show ?thesis using False k by (auto simp: nth_list_update simp del: upt_Suc replicate_Suc)
    qed
  qed (use s(2) in \<open>simp del: upt_Suc\<close>)
  then have fill: "fill_right s = Some (map Some (scan_list max ?v))" by (simp only: fill_right_eq)
  have "scan_list max ?v = map (\<lambda>a. ?L (int a)) [0..<?m]"
  proof (rule nth_equalityI)
    have L0: "?L 0 = 0" using rng by (auto simp: less_count_def filter_empty_conv not_less)
    have "scan_list max ?v ! k = ?L (int k)" if "k < ?m" for k
      using that
    proof (induction k)
      case 0
      then show ?case by (simp add: scan_list_0 L0 del: upt_Suc)
    next
      case (Suc k)
      then have scan: "scan_list max ?v ! Suc k = max (?L (int k)) (?v ! Suc k)"
        by (simp add: scan_list_Suc del: upt_Suc)
      show ?case
      proof (cases "int k \<in> set xs")
        case True
        have "?L (int k) \<le> ?L (int (Suc k))" using less_count_mono [of "int k" "int (Suc k)" xs] by simp
        then show ?thesis using scan True Suc.prems by (simp del: upt_Suc)
      next
        case False
        have "?L (int (Suc k)) = ?L (int k)" using less_count_same [OF False] by (simp add: add.commute)
        then show ?thesis using scan False Suc.prems by (simp del: upt_Suc)
      qed
    qed
    then show "scan_list max ?v ! k = map (\<lambda>a. ?L (int a)) [0..<?m] ! k" if "k < length (scan_list max ?v)" for k
      using that by (simp del: upt_Suc)
  qed (simp del: upt_Suc)
  note scan = this
  have "wr (replicate (nat (na + 1)) (Some (- 1))) 0 (Some 0) = Some ?init"
    using na by (simp add: wr_def nat_add_distrib del: replicate_Suc)
  then have "invert_funnel xs na = do {
     s \<leftarrow> do { a2ab \<leftarrow> parallel_for (max 0 (asize xs - 1)) (\<lambda>ab a2ab. do {
         a_end \<leftarrow> rd xs ab; a_start \<leftarrow> rd xs (ab + 1);
         if a_end \<noteq> a_start then wr a2ab (a_end + 1) (Some (ab + 1)) else Some a2ab }) ?init;
       if asize xs \<noteq> 0 then do { a_end \<leftarrow> rd xs (asize xs - 1); wr a2ab (a_end + 1) (Some (asize xs)) }
       else Some a2ab };
     t \<leftarrow> fill_right s; freeze t }"
    using na by (simp add: invert_funnel_def Let_def Option.bind_assoc del: upt_Suc replicate_Suc)
  then show ?thesis unfolding run s(1) by (simp only: bind.simps fill scan freeze_map_Some)
qed

section \<open>Inverting by counting\<close>

lemma length_fibres [simp]: "0 \<le> nb \<Longrightarrow> length (fibres order a2b nb) = nat nb"
  by (simp add: fibres_def)

lemma nth_fibres:
  "b < nat nb \<Longrightarrow> fibres order a2b nb ! b = filter (\<lambda>a. a2b ! nat a = int b) order"
  by (simp add: fibres_def)

lemma sizes_fibres_mset:
  assumes "mset order1 = mset order2"
  shows "sizes (fibres order1 a2b nb) = sizes (fibres order2 a2b nb)"
proof -
  have "length (filter P order1) = length (filter P order2)" for P
    by (simp only: size_mset [symmetric] mset_filter assms)
  then show ?thesis by (simp add: sizes_def fibres_def)
qed

lemma freeze_nth: "\<lbrakk>\<And>k. k < n \<Longrightarrow> w ! k = Some (h k); length w = n\<rbrakk> \<Longrightarrow> freeze w = Some (map h [0..<n])"
  by (rule freeze_eqI) simp_all

lemma count_loop:
  assumes rng: "\<And>b. b \<in> set a2b \<Longrightarrow> 0 \<le> b \<and> b < nb" and nb: "0 \<le> nb"
    and ord: "set order \<subseteq> {0..<asize a2b}"
  shows "do { degs \<leftarrow> run_for order (\<lambda>a degs. do { b \<leftarrow> rd a2b a; d \<leftarrow> rd_cell degs b;
       wr degs b (Some (d + 1)) }) (replicate (nat nb) (Some 0)); freeze degs } =
     Some (sizes (fibres order a2b nb))"
proof -
  let ?b0 = "replicate (nat nb) (0 :: int)"
  have mem: "0 \<le> a2b ! nat a \<and> a2b ! nat a < nb \<and> 0 \<le> a \<and> a < asize a2b" if "a \<in> set order" for a
    using ord that rng nth_int_mem [of a a2b] by auto
  have "run_for order (\<lambda>a degs. do { b \<leftarrow> rd a2b a; d \<leftarrow> rd_cell degs b; wr degs b (Some (d + 1)) })
      (map Some ?b0) =
    run_for order (\<lambda>a s. do { x \<leftarrow> rd_cell s (a2b ! nat a); y \<leftarrow> Some 1;
       wr s (a2b ! nat a) (Some (x + y)) }) (map Some ?b0)"
    using mem by (intro run_for_cong) (simp add: rd_Some)
  also have "\<dots> = Some (map (\<lambda>k. Some (?b0 ! k +
      sum_list (map (\<lambda>_. 1) (filter (\<lambda>a. a2b ! nat a = int k) order)))) [0..<length ?b0])"
    by (rule accumulate) (use mem nb in \<open>simp_all add: asize_def\<close>)
  finally have run: "run_for order (\<lambda>a degs. do { b \<leftarrow> rd a2b a; d \<leftarrow> rd_cell degs b;
      wr degs b (Some (d + 1)) }) (replicate (nat nb) (Some 0)) =
    Some (map (\<lambda>k. Some (int (length (filter (\<lambda>a. a2b ! nat a = int k) order)))) [0..<nat nb])"
    by (auto simp: map_replicate sum_list_triv intro!: map_cong)
  have "freeze (map (\<lambda>k. Some (int (length (filter (\<lambda>a. a2b ! nat a = int k) order)))) [0..<nat nb]) =
      Some (sizes (fibres order a2b nb))"
    by (rule freeze_eqI) (use nb in \<open>simp_all add: nth_fibres\<close>)
  then show ?thesis using run by simp
qed

lemma fill_loop:
  assumes rng: "\<And>b. b \<in> set a2b \<Longrightarrow> 0 \<le> b \<and> b < nb" and nb: "0 \<le> nb"
    and ord: "set order \<subseteq> {0..<asize a2b}"
    and R: "R = fibres order a2b nb"
  shows "\<exists>pos w. run_for order (\<lambda>a (positions, write_ba2a). do {
       b \<leftarrow> rd a2b a; first \<leftarrow> rd (offsets (sizes R)) b; j \<leftarrow> rd_cell positions b;
       positions \<leftarrow> wr positions b (Some (j + 1));
       write_ba2a \<leftarrow> wr write_ba2a (first + j) (Some a);
       Some (positions, write_ba2a) })
      (replicate (nat nb) (Some 0), fresh (asize (concat R))) = Some (pos, w) \<and>
    freeze w = Some (concat R)"
proof -
  let ?f = "\<lambda>a (positions, write_ba2a). do {
       b \<leftarrow> rd a2b a; first \<leftarrow> rd (offsets (sizes R)) b; j \<leftarrow> rd_cell positions b;
       positions \<leftarrow> wr positions b (Some (j + 1));
       write_ba2a \<leftarrow> wr write_ba2a (first + j) (Some a);
       Some (positions, write_ba2a) }"
  let ?in = "\<lambda>b done. filter (\<lambda>a. a2b ! nat a = int b) done"
  let ?P = "\<lambda>done (pos, w). pos = map (\<lambda>b. Some (int (length (?in b done)))) [0..<nat nb] \<and>
     length w = length (concat R) \<and>
     (\<forall>b < nat nb. \<forall>t < length (?in b done). w ! (row_start R b + t) = Some (R ! b ! t))"
  have lenR: "length R = nat nb" using nb by (simp add: R)
  have "\<exists>s'. run_for order ?f (replicate (nat nb) (Some 0), fresh (asize (concat R))) = Some s' \<and> ?P order s'"
  proof (rule run_for_rule [where P = ?P])
    show "?P [] (replicate (nat nb) (Some 0), fresh (asize (concat R)))"
      by (auto simp: asize_def intro!: nth_equalityI)
    fix "done" a rest s assume o: "order = done @ a # rest" and P: "?P done s"
    obtain pos w where s: "s = (pos, w)" by force
    have a: "0 \<le> a" "a < asize a2b" using ord o by auto
    let ?b = "nat (a2b ! nat a)" and ?b' = "a2b ! nat a"
    have b: "0 \<le> ?b'" "?b' < nb" "int ?b = ?b'" "?b < nat nb" using rng [OF nth_int_mem [OF a]] by auto
    let ?j = "length (?in ?b done)"
    have Rb: "R ! ?b = ?in ?b done @ a # ?in ?b rest"
      using b by (simp add: R nth_fibres o)
    then have j: "?j < length (R ! ?b)" "R ! ?b ! ?j = a" by simp_all
    let ?k = "row_start R ?b + ?j"
    have k: "?k < length (concat R)" using concat_cell(1) [of ?b R ?j] j(1) b(4) lenR by simp
    have e1: "rd a2b a = Some ?b'" using a by (simp add: rd_Some)
    have e2: "rd (offsets (sizes R)) ?b' = Some (int (row_start R ?b))"
      using b(1,2,4) lenR by (simp add: rd_Some asize_def nth_offsets_sizes)
    have e3: "rd_cell pos ?b' = Some (int ?j)"
      using P s b(1,2,4) by (simp add: rd_cell_Some asize_def)
    let ?pos = "pos[?b := Some (int ?j + 1)]" and ?w = "w[?k := Some a]"
    have e4: "wr pos ?b' (Some (int ?j + 1)) = Some ?pos" using P s b(1,2,4) by (simp add: wr_Some asize_def)
    have e5: "wr w (int (row_start R ?b) + int ?j) (Some a) = Some ?w"
      using P s k by (simp add: wr_def asize_def nat_add_distrib)
    have "?f a s = Some (?pos, ?w)" by (simp only: s prod.case e1 e2 e3 e4 e5 bind.simps)
    moreover have "?P (done @ [a]) (?pos, ?w)"
    proof -
      have "?pos = map (\<lambda>b. Some (int (length (?in b (done @ [a]))))) [0..<nat nb]"
        using P s b by (intro nth_equalityI) (auto simp: nth_list_update)
      moreover have "?w ! (row_start R c + t) = Some (R ! c ! t)"
        if c: "c < nat nb" "t < length (?in c (done @ [a]))" for c t
      proof (cases "c = ?b \<and> t = ?j")
        case True
        then show ?thesis using k P s j(2) by simp
      next
        case False
        have t: "t < length (?in c done)" using c(2) False b by (auto split: if_splits)
        have "length (?in c done) \<le> length (R ! c)" using c by (simp add: R nth_fibres o)
        then have t': "t < length (R ! c)" using t by (rule less_le_trans [rotated])
        have "c < length R" "?b < length R" using c(1) b(4) lenR by simp_all
        from row_cell_inject [OF this(1) t' this(2) j(1)] have "row_start R c + t \<noteq> ?k"
          using False by blast
        then show ?thesis using P s c(1) t by simp
      qed
      ultimately show ?thesis using P s by simp
    qed
    ultimately show "\<exists>s'. ?f a s = Some s' \<and> ?P (done @ [a]) s'" by blast
  qed
  then obtain pos w where w: "run_for order ?f (replicate (nat nb) (Some 0), fresh (asize (concat R))) =
      Some (pos, w)" "?P order (pos, w)" by auto
  have "freeze w = Some (concat R)"
    using w(2) nb by (intro freeze_concat) (simp_all add: R nth_fibres)
  with w(1) show ?thesis by blast
qed

lemma invert_map_by_atomics_eq:
  assumes rng: "\<And>b. b \<in> set a2b \<Longrightarrow> 0 \<le> b \<and> b < nb" and nb: "0 \<le> nb"
    and o1: "mset count_order = mset [0..asize a2b - 1]" and o2: "mset fill_order = mset [0..asize a2b - 1]"
  shows "invert_map_by_atomics count_order fill_order a2b nb = Some (graph_of (fibres fill_order a2b nb))"
proof -
  let ?R = "fibres fill_order a2b nb"
  have sub: "set count_order \<subseteq> {0..<asize a2b}" "set fill_order \<subseteq> {0..<asize a2b}"
    using mset_eq_setD [OF o1] mset_eq_setD [OF o2] by auto
  have sz: "sizes (fibres count_order a2b nb) = sizes ?R"
    by (rule sizes_fibres_mset) (simp only: o1 o2)
  obtain degs where degs: "run_for count_order (\<lambda>a degs. do { b \<leftarrow> rd a2b a; d \<leftarrow> rd_cell degs b;
       wr degs b (Some (d + 1)) }) (replicate (nat nb) (Some 0)) = Some degs" "freeze degs = Some (sizes ?R)"
    using count_loop [OF rng nb sub(1)] unfolding sz by (auto simp: Option.bind_eq_Some_conv)
  obtain pos w where w: "run_for fill_order (\<lambda>a (positions, write_ba2a). do {
       b \<leftarrow> rd a2b a; first \<leftarrow> rd (offsets (sizes ?R)) b; j \<leftarrow> rd_cell positions b;
       positions \<leftarrow> wr positions b (Some (j + 1));
       write_ba2a \<leftarrow> wr write_ba2a (first + j) (Some a);
       Some (positions, write_ba2a) })
      (replicate (nat nb) (Some 0), fresh (asize (concat ?R))) = Some (pos, w)" "freeze w = Some (concat ?R)"
    using fill_loop [OF rng nb sub(2) refl] by blast
  have "row_start ?R (nat nb) = length (concat ?R)"
    using row_start_length [of ?R] nb by (simp del: row_start_length)
  then have nba: "rd (offsets (sizes ?R)) nb = Some (asize (concat ?R))"
    using nb nth_offsets_sizes [of "nat nb" ?R] by (simp add: rd_def asize_def)
  show ?thesis
    using nb degs w by (simp add: invert_map_by_atomics_def Let_def offset_scan_eq nba graph_of_def)
qed

section \<open>Inverting by sorting\<close>

lemma sort_by_keys_1:
  "sort_by_keys a2b 1 = Some (sort_key (\<lambda>a. a2b ! nat a) [0..asize a2b - 1])"
proof -
  have "compare_key_sets 1 a2b x y \<longleftrightarrow> a2b ! nat x < a2b ! nat y" for x y
    by (simp add: compare_key_sets_lexord)
  then have "stable_sort (compare_key_sets 1 a2b) [0..asize a2b - 1] =
      sort_key (\<lambda>a. a2b ! nat a) [0..asize a2b - 1]"
    by (intro stable_sort_sort_key)
  then show ?thesis by (simp add: sort_by_keys_def sort_by_keys_tmpl_def divide_no_remainder_def Let_def)
qed

lemma filter_groups:
  "distinct bs \<Longrightarrow> filter (\<lambda>x. f x = c) (concat (map (\<lambda>b. filter (\<lambda>x. f x = b) L) bs)) =
     (if c \<in> set bs then filter (\<lambda>x. f x = c) L else [])"
proof (induction bs)
  case (Cons b bs)
  have "filter (\<lambda>x. f x = c) (filter (\<lambda>x. f x = b) L) = (if c = b then filter (\<lambda>x. f x = c) L else [])"
    by (auto simp: filter_empty_conv intro: filter_cong)
  with Cons show ?case by auto
qed simp

lemma mset_groups:
  "distinct bs \<Longrightarrow> mset (concat (map (\<lambda>b. filter (\<lambda>x. f x = b) L) bs)) =
     filter_mset (\<lambda>x. f x \<in> set bs) (mset L)"
proof (induction bs)
  case (Cons b bs)
  have "filter_mset (\<lambda>x. f x = b) (mset L) + filter_mset (\<lambda>x. f x \<in> set bs) (mset L) =
      filter_mset (\<lambda>x. f x \<in> set (b # bs)) (mset L)"
    using Cons.prems by (induction L) auto
  with Cons show ?case by (simp del: set_simps)
qed simp

lemma sorted_groups:
  "sorted bs \<Longrightarrow> sorted (map f (concat (map (\<lambda>b. filter (\<lambda>x. f x = b) L) bs)))"
proof (induction bs)
  case (Cons b bs)
  have "map f (filter (\<lambda>x. f x = b) L) = replicate (length (filter (\<lambda>x. f x = b) L)) b"
    by (induction L) auto
  then have "sorted (map f (filter (\<lambda>x. f x = b) L))" by (simp only: sorted_replicate)
  with Cons show ?case by (auto simp: sorted_append)
qed simp

lemma sort_key_groups:
  fixes f :: "'a \<Rightarrow> int"
  assumes "\<And>x. x \<in> set L \<Longrightarrow> 0 \<le> f x \<and> f x < nb"
  shows "sort_key f L = concat (map (\<lambda>b. filter (\<lambda>x. f x = b) L) [0..nb - 1])"
proof (rule properties_for_sort_key)
  have "filter_mset (\<lambda>x. f x \<in> set [0..nb - 1]) (mset L) = mset L"
    unfolding mset_filter [symmetric] using assms by (subst filter_True) auto
  then show "mset (concat (map (\<lambda>b. filter (\<lambda>x. f x = b) L) [0..nb - 1])) = mset L"
    by (simp add: mset_groups del: mset_concat set_upto)
  show "filter (\<lambda>x. f k = f x) (concat (map (\<lambda>b. filter (\<lambda>x. f x = b) L) [0..nb - 1])) =
      filter (\<lambda>x. f k = f x) L"
    if "k \<in> set (concat (map (\<lambda>b. filter (\<lambda>x. f x = b) L) [0..nb - 1]))" for k
    using filter_groups [of "[0..nb - 1]" f "f k" L] that by (auto simp: eq_commute [of "f k"])
  show "sorted (map f (concat (map (\<lambda>b. filter (\<lambda>x. f x = b) L) [0..nb - 1])))"
    by (rule sorted_groups) simp
qed

lemma fibres_row_start:
  assumes rng: "\<And>b. b \<in> set a2b \<Longrightarrow> 0 \<le> b \<and> b < nb" and nb: "0 \<le> nb"
    and ord: "mset order = mset [0..asize a2b - 1]" and a: "a \<le> nat nb"
  shows "row_start (fibres order a2b nb) a = less_count (map (\<lambda>x. a2b ! nat x) order) (int a)"
  using a
proof (induction a)
  case 0
  have "set order = {0..asize a2b - 1}" using mset_eq_setD [OF ord] by simp
  then have "\<not> x < 0" if "x \<in> set (map (\<lambda>x. a2b ! nat x) order)" for x
    using rng nth_int_mem [of _ a2b] that by (auto simp: not_less)
  then show ?case by (simp add: less_count_def filter_empty_conv)
next
  case (Suc a)
  then have "row_start (fibres order a2b nb) (Suc a) =
      less_count (map (\<lambda>x. a2b ! nat x) order) (int a) + length (filter (\<lambda>x. a2b ! nat x = int a) order)"
    using nb by (simp add: row_start_Suc nth_fibres)
  also have "length (filter (\<lambda>x. a2b ! nat x = int a) order) =
      length (filter (\<lambda>v. v = int a) (map (\<lambda>x. a2b ! nat x) order))"
    by (simp add: filter_map comp_def)
  finally show ?case using less_count_step [of "map (\<lambda>x. a2b ! nat x) order" "int a"]
    by (simp add: add.commute)
qed

lemma offsets_fibres:
  assumes rng: "\<And>b. b \<in> set a2b \<Longrightarrow> 0 \<le> b \<and> b < nb" and nb: "0 \<le> nb"
    and ord: "mset order = mset [0..asize a2b - 1]"
  shows "map (\<lambda>a. int (less_count (map (\<lambda>x. a2b ! nat x) order) (int a))) [0..<Suc (nat nb)] =
    offsets (sizes (fibres order a2b nb))"
proof (rule nth_equalityI)
  fix k assume "k < length (map (\<lambda>a. int (less_count (map (\<lambda>x. a2b ! nat x) order) (int a))) [0..<Suc (nat nb)])"
  then have k: "k \<le> nat nb" by simp
  then show "map (\<lambda>a. int (less_count (map (\<lambda>x. a2b ! nat x) order) (int a))) [0..<Suc (nat nb)] ! k =
      offsets (sizes (fibres order a2b nb)) ! k"
    using nb by (simp add: nth_offsets_sizes fibres_row_start [OF rng nb ord k] del: upt_Suc)
qed (use nb in simp)

lemma invert_map_by_sorting_eq:
  assumes rng: "\<And>b. b \<in> set a2b \<Longrightarrow> 0 \<le> b \<and> b < nb" and nb: "0 \<le> nb"
  shows "invert_map_by_sorting a2b nb = Some (graph_of (fibres [0..asize a2b - 1] a2b nb))"
proof -
  let ?L = "[0..asize a2b - 1]" and ?f = "\<lambda>a. a2b ! nat a"
  let ?order = "sort_key ?f ?L"
  let ?xs = "map ?f ?order"
  have mem: "0 \<le> ?f x \<and> ?f x < nb" if "x \<in> set ?L" for x
    using rng nth_int_mem [of x a2b] that by simp
  have order: "?order = concat (fibres ?L a2b nb)"
    using sort_key_groups [of ?L ?f nb] mem by (simp add: fibres_def)
  have ord: "mset ?order = mset ?L" by simp
  have un: "unmap ?order a2b 1 = Some ?xs"
    by (rule unmap_1) (use rng in simp)
  have "invert_funnel ?xs nb = Some (map (\<lambda>a. int (less_count ?xs (int a))) [0..<Suc (nat nb)])"
  proof (rule invert_funnel_eq)
    show "0 \<le> x \<and> x < nb" if "x \<in> set ?xs" for x
      using that mem by (auto simp del: set_upto)
  qed (use nb in simp_all)
  also have "\<dots> = Some (offsets (sizes (fibres ?order a2b nb)))"
    using offsets_fibres [OF rng nb ord] by (simp only:)
  also have "sizes (fibres ?order a2b nb) = sizes (fibres ?L a2b nb)"
    by (rule sizes_fibres_mset) (rule ord)
  finally have "invert_funnel ?xs nb = Some (offsets (sizes (fibres ?L a2b nb)))" .
  with un show ?thesis
    by (simp add: invert_map_by_sorting_def sort_by_keys_1 graph_of_def flip: order)
qed

section \<open>Properties\<close>

text \<open>C14. Both ways of inverting a map give its fibres, in every schedule: for a map into \<open>0 .. nb - 1\<close>
  both functions succeed with a well-formed graph, row \<open>b\<close> holds exactly the items mapped to \<open>b\<close>, each
  once; sorting lists them in increasing order and counting with atomics in the order in which the
  threads executed the fill loop.  The offsets are the same.\<close>

theorem invert_map_fibres:
  assumes "\<forall>b \<in> set a2b. 0 \<le> b \<and> b < nb" and "0 \<le> nb"
    and "mset count_order = mset [0..asize a2b - 1]" "mset fill_order = mset [0..asize a2b - 1]"
  shows "\<exists>g h. invert_map_by_sorting a2b nb = Some g \<and>
    invert_map_by_atomics count_order fill_order a2b nb = Some h \<and>
    valid_graph g \<and> valid_graph h \<and> a2ab g = a2ab h \<and>
    length (rows g) = nat nb \<and> length (rows h) = nat nb \<and>
    (\<forall>b < nat nb.
       rows g ! b = filter (\<lambda>a. a2b ! nat a = int b) [0..asize a2b - 1] \<and>
       rows h ! b = filter (\<lambda>a. a2b ! nat a = int b) fill_order)"
proof (intro exI conjI)
  show "invert_map_by_sorting a2b nb = Some (graph_of (fibres [0..asize a2b - 1] a2b nb))"
    by (rule invert_map_by_sorting_eq) (use assms(1,2) in blast)+
  show "invert_map_by_atomics count_order fill_order a2b nb = Some (graph_of (fibres fill_order a2b nb))"
    by (rule invert_map_by_atomics_eq) (use assms in blast)+
  show "a2ab (graph_of (fibres [0..asize a2b - 1] a2b nb)) = a2ab (graph_of (fibres fill_order a2b nb))"
    using sizes_fibres_mset [OF assms(4)] by simp
qed (use assms(2) in \<open>simp_all add: nth_fibres\<close>)

theorem invert_map_fibres_witness:
  "\<exists>h. invert_map_by_atomics [0, 1, 2, 3] [3, 1, 0, 2] [2, 0, 2, 2] 3 = Some h \<and>
     rows h ! 2 = [3, 0, 2] \<and> rows h ! 1 = []"
proof -
  have upto: "[0..asize [2, 0, 2, 2::int] - 1] = [0, 1, 2, 3]" by code_simp
  have h: "\<forall>b \<in> set [2, 0, 2, 2]. 0 \<le> b \<and> b < (3::int)" "0 \<le> (3::int)"
    "mset [0, 1, 2, 3] = mset [0..asize [2, 0, 2, 2::int] - 1]"
    "mset [3, 1, 0, 2] = mset [0..asize [2, 0, 2, 2::int] - 1]"
    unfolding upto by simp_all
  from invert_map_fibres [OF h] obtain g h where
    gh: "invert_map_by_atomics [0, 1, 2, 3] [3, 1, 0, 2] [2, 0, 2, 2] 3 = Some h"
    "\<And>b. b < nat 3 \<Longrightarrow> rows h ! b = filter (\<lambda>a. [2, 0, 2, 2] ! nat a = int b) [3, 1, 0, 2]"
    by blast
  have "filter (\<lambda>a. [2, 0, 2, 2] ! nat a = int 2) [3, 1, 0, 2] = [3, 0, 2]"
    "filter (\<lambda>a. [2, 0, 2, 2] ! nat a = int 1) [3, 1, 0, 2] = []"
    by code_simp+
  moreover have "(2::nat) < nat 3" "(1::nat) < nat 3" by simp_all
  ultimately show ?thesis using gh(1) gh(2) [of 2] gh(2) [of 1] by (intro exI [of _ h] conjI) (simp_all only:)
qed

end
