(* ===== verification/Graphs.thy ===== *)
theory Graphs
  imports Inverse_Maps
begin

text \<open>
  Operations on graphs (\<open>src/src/Omega_h_graph.cpp\<close>).

  A \<open>graph\<close> is stored by offsets and concatenated rows.  Every operation is specified by what it
  does to the rows: on \<open>graph_of R\<close> it succeeds and returns \<open>graph_of\<close> of the transformed rows, so
  the result is well-formed whenever the input is.  The exception is \<open>filter_graph_edges\<close>, whose
  degrees pass through 8-bit integers.  Not modelled are the two weighted averages, which compute
  with floating-point numbers.
\<close>

section \<open>Operations\<close>

definition nnodes :: "graph \<Rightarrow> lo" where
  "nnodes g = asize (a2ab g) - 1"

definition nedges :: "graph \<Rightarrow> lo" where
  "nedges g = asize (ab2b g)"

definition fill_linear :: "int option list \<Rightarrow> int \<Rightarrow> int \<Rightarrow> int option list option" where
  "fill_linear a off stride = parallel_for (asize a) (\<lambda>i a. wr a i (Some (off + stride * i))) a"

definition linear_array :: "lo \<Rightarrow> int \<Rightarrow> int \<Rightarrow> int list option" where
  "linear_array size_in off stride = do {
     a \<leftarrow> alloc size_in;
     a \<leftarrow> fill_linear a off stride;
     freeze a
   }"

definition add_edges :: "graph \<Rightarrow> graph \<Rightarrow> graph option" where
  "add_edges g1 g2 = do {
     let v2e1 = a2ab g1;
     let e2v1 = ab2b g1;
     let v2e2 = a2ab g2;
     let e2v2 = ab2b g2;
     let nv = asize v2e1 - 1;
     deg1 \<leftarrow> get_degrees v2e1;
     deg2 \<leftarrow> get_degrees v2e2;
     deg \<leftarrow> add_each deg1 deg2;
     v2e \<leftarrow> offset_scan deg;
     n \<leftarrow> rd_last v2e;
     e2v \<leftarrow> alloc n;
     e2v \<leftarrow> parallel_for nv (\<lambda>v e2v. do {
       begin1 \<leftarrow> rd v2e1 v;
       end1 \<leftarrow> rd v2e1 (v + 1);
       begin2 \<leftarrow> rd v2e2 v;
       end2 \<leftarrow> rd v2e2 (v + 1);
       begin3 \<leftarrow> rd v2e v;
       end3 \<leftarrow> rd v2e (v + 1);
       let k = begin3;
       (k, e2v) \<leftarrow> for_range begin1 end1 (\<lambda>j (k, e2v). do {
         x \<leftarrow> rd e2v1 j;
         e2v \<leftarrow> wr e2v k (Some x);
         Some (k + 1, e2v)
       }) (k, e2v);
       (k, e2v) \<leftarrow> for_range begin2 end2 (\<lambda>j (k, e2v). do {
         x \<leftarrow> rd e2v2 j;
         e2v \<leftarrow> wr e2v k (Some x);
         Some (k + 1, e2v)
       }) (k, e2v);
       omega_check (k = end3);
       Some e2v
     }) e2v;
     e2v \<leftarrow> freeze e2v;
     Some \<lparr>a2ab = v2e, ab2b = e2v\<rparr>
   }"

definition unmap_graph :: "lo list \<Rightarrow> graph \<Rightarrow> graph option" where
  "unmap_graph a2b b2c = do {
     let b2bc = a2ab b2c;
     let bc2c = ab2b b2c;
     b_degrees \<leftarrow> get_degrees b2bc;
     a_degrees \<leftarrow> unmap a2b b_degrees 1;
     a2ac \<leftarrow> offset_scan a_degrees;
     let na = asize a2b;
     n \<leftarrow> rd_last a2ac;
     ac2c \<leftarrow> alloc n;
     ac2c \<leftarrow> parallel_for na (\<lambda>a ac2c. do {
       b \<leftarrow> rd a2b a;
       bc \<leftarrow> rd b2bc b;
       ac0 \<leftarrow> rd a2ac a;
       ac1 \<leftarrow> rd a2ac (a + 1);
       (bc, ac2c) \<leftarrow> for_range ac0 ac1 (\<lambda>ac (bc, ac2c). do {
         c \<leftarrow> rd bc2c bc;
         ac2c \<leftarrow> wr ac2c ac (Some c);
         Some (bc + 1, ac2c)
       }) (bc, ac2c);
       Some ac2c
     }) ac2c;
     ac2c \<leftarrow> freeze ac2c;
     Some \<lparr>a2ab = a2ac, ab2b = ac2c\<rparr>
   }"

definition graph_reduce :: "graph \<Rightarrow> int list \<Rightarrow> lo \<Rightarrow> omega_h_op \<Rightarrow> int list option" where
  "graph_reduce a2b b_data width op2 = do {
     ab_data \<leftarrow> unmap (ab2b a2b) b_data width;
     fan_reduce (a2ab a2b) ab_data width op2
   }"

text \<open>
  \<open>filter_graph_edges\<close> sums the marks of every node with \<open>fan_reduce\<close> on an array of 8-bit integers:
  the sum is computed with 32 bits and then cast to 8 (\<open>static_cast\<close> in \<open>fan_reduce_tmpl\<close>).
\<close>

definition cast_i8 :: "int \<Rightarrow> int" where
  "cast_i8 x = int_cast 8 x"

definition fan_reduce_i8_sum :: "lo list \<Rightarrow> int list \<Rightarrow> lo \<Rightarrow> int list option" where
  "fan_reduce_i8_sum a2b b_data width = fan_reduce_int 8 a2b b_data width OMEGA_H_SUM"

definition filter_graph_edges :: "graph \<Rightarrow> int list \<Rightarrow> graph option" where
  "filter_graph_edges g keep_edge = do {
     degs \<leftarrow> fan_reduce_i8_sum (a2ab g) keep_edge 1;
     offs \<leftarrow> offset_scan degs;
     kept2old \<leftarrow> collect_marked keep_edge;
     edges \<leftarrow> unmap kept2old (ab2b g) 1;
     Some \<lparr>a2ab = offs, ab2b = edges\<rparr>
   }"

definition filter_graph_nodes :: "graph \<Rightarrow> int list \<Rightarrow> graph option" where
  "filter_graph_nodes g keep_node = do {
     let nold_nodes = nnodes g;
     let old_node2old_edge = a2ab g;
     let old_edge2old_node = ab2b g;
     new_node2old_node \<leftarrow> collect_marked keep_node;
     let nnew_nodes = asize new_node2old_node;
     old_node2new_degree \<leftarrow> fill_each nold_nodes (\<lambda>old_node. do {
       e0 \<leftarrow> rd old_node2old_edge old_node;
       e1 \<leftarrow> rd old_node2old_edge (old_node + 1);
       for_range e0 e1 (\<lambda>old_edge n. do {
         other_old_node \<leftarrow> rd old_edge2old_node old_edge;
         keep \<leftarrow> rd keep_node other_old_node;
         Some (if keep \<noteq> 0 then n + 1 else n)
       }) 0
     });
     new_node2new_degree \<leftarrow> unmap new_node2old_node old_node2new_degree 1;
     new_node2new_edge \<leftarrow> offset_scan new_node2new_degree;
     nnew_edges \<leftarrow> rd_last new_node2new_edge;
     old_node2new_node \<leftarrow> invert_injective_map new_node2old_node nold_nodes;
     new_edge2new_node \<leftarrow> alloc nnew_edges;
     new_edge2new_node \<leftarrow> parallel_for nnew_nodes (\<lambda>new_node new_edge2new_node. do {
       old_node \<leftarrow> rd new_node2old_node new_node;
       new_edge \<leftarrow> rd new_node2new_edge new_node;
       e0 \<leftarrow> rd old_node2old_edge old_node;
       e1 \<leftarrow> rd old_node2old_edge (old_node + 1);
       (new_edge, new_edge2new_node) \<leftarrow>
         for_range e0 e1 (\<lambda>old_edge (new_edge, new_edge2new_node). do {
           other_old_node \<leftarrow> rd old_edge2old_node old_edge;
           keep \<leftarrow> rd keep_node other_old_node;
           if keep \<noteq> 0 then do {
             other_new_node \<leftarrow> rd old_node2new_node other_old_node;
             new_edge2new_node \<leftarrow> wr new_edge2new_node new_edge (Some other_new_node);
             Some (new_edge + 1, new_edge2new_node)
           } else Some (new_edge, new_edge2new_node)
         }) (new_edge, new_edge2new_node);
       Some new_edge2new_node
     }) new_edge2new_node;
     new_edge2new_node \<leftarrow> freeze new_edge2new_node;
     Some \<lparr>a2ab = new_node2new_edge, ab2b = new_edge2new_node\<rparr>
   }"

definition graph_eq :: "graph \<Rightarrow> graph \<Rightarrow> bool option" where
  "graph_eq a b = do {
     e \<leftarrow> array_eq (a2ab a) (a2ab b);
     if e then array_eq (ab2b a) (ab2b b) else Some False
   }"

definition identity_graph :: "lo \<Rightarrow> graph option" where
  "identity_graph n = do {
     a2ab \<leftarrow> linear_array (n + 1) 0 1;
     ab2b \<leftarrow> linear_array n 0 1;
     Some \<lparr>a2ab = a2ab, ab2b = ab2b\<rparr>
   }"

definition add_self_edges :: "graph \<Rightarrow> graph option" where
  "add_self_edges g = do { i \<leftarrow> identity_graph (nnodes g); add_edges i g }"

definition graph_map_into ::
    "'a list \<Rightarrow> graph \<Rightarrow> 'a option list \<Rightarrow> lo \<Rightarrow> 'a option list option" where
  "graph_map_into a_data a2b b_data width = do {
     ab_data \<leftarrow> expand a_data (a2ab a2b) width;
     map_into ab_data (ab2b a2b) b_data width
   }"

definition graph_map_onto :: "'a list \<Rightarrow> graph \<Rightarrow> lo \<Rightarrow> 'a \<Rightarrow> lo \<Rightarrow> 'a list option" where
  "graph_map_onto a_data a2b nb init_val width = do {
     omega_check (0 \<le> nb * width);
     let out = replicate (nat (nb * width)) (Some init_val);
     out \<leftarrow> graph_map_into a_data a2b out width;
     freeze out
   }"

section \<open>Filling a row\<close>

text \<open>\<open>overwrite s p vs\<close> is the array \<open>s\<close> after the values \<open>vs\<close> were written from position \<open>p\<close> on.\<close>

definition overwrite :: "'a option list \<Rightarrow> nat \<Rightarrow> 'a list \<Rightarrow> 'a option list" where
  "overwrite s p vs = take p s @ map Some vs @ drop (p + length vs) s"

lemma length_overwrite [simp]:
  "p + length vs \<le> length s \<Longrightarrow> length (overwrite s p vs) = length s"
  by (simp add: overwrite_def)

lemma overwrite_Nil [simp]: "overwrite s p [] = s"
  by (simp add: overwrite_def)

lemma overwrite_snoc:
  assumes "p + length vs < length s"
  shows "(overwrite s p vs)[p + length vs := Some v] = overwrite s p (vs @ [v])"
proof -
  have "drop (p + length vs) s = s ! (p + length vs) # drop (Suc (p + length vs)) s"
    using assms by (rule Cons_nth_drop_Suc [symmetric])
  then show ?thesis using assms by (simp add: overwrite_def list_update_append)
qed

lemma overwrite_overwrite:
  assumes "p + length us + length vs \<le> length s"
  shows "overwrite (overwrite s p us) (p + length us) vs = overwrite s p (us @ vs)"
  using assms by (simp add: overwrite_def ac_simps)

lemma nth_overwrite:
  assumes "p + length vs \<le> length s"
  shows "t < length vs \<Longrightarrow> overwrite s p vs ! (p + t) = Some (vs ! t)"
    and "k < p \<or> p + length vs \<le> k \<Longrightarrow> overwrite s p vs ! k = s ! k"
  using assms by (auto simp: overwrite_def nth_append)

text \<open>The loops that fill a row: pushing computed values, and copying a segment of another array.\<close>

lemma push_loop:
  assumes "\<And>i. i \<in> set is \<Longrightarrow> g i = Some (h i)" and "p + length is \<le> length s"
  shows "run_for is (\<lambda>i (k, s). do { v \<leftarrow> g i; s \<leftarrow> wr s k (Some v); Some (k + 1, s) }) (int p, s) =
    Some (int (p + length is), overwrite s p (map h is))"
  using assms
proof (induction "is" rule: rev_induct)
  case Nil
  then show ?case by simp
next
  case (snoc i "is")
  let ?f = "\<lambda>i (k, s). do { v \<leftarrow> g i; s \<leftarrow> wr s k (Some v); Some (k + 1, s) }"
  have IH: "run_for is ?f (int p, s) = Some (int (p + length is), overwrite s p (map h is))"
    using snoc.prems by (intro snoc.IH) auto
  have "wr (overwrite s p (map h is)) (int (p + length is)) (Some (h i)) =
      Some (overwrite s p (map h (is @ [i])))"
    using snoc.prems(2) overwrite_snoc [of p "map h is" s "h i"] by (subst wr_int) auto
  then show ?case
    unfolding run_for_append IH using snoc.prems(1) by simp
qed

lemma copy_loop:
  assumes "q + n \<le> length xs" "p + n \<le> length s"
  shows "for_range (int p) (int p + int n)
      (\<lambda>i (k, s). do { v \<leftarrow> rd xs k; s \<leftarrow> wr s i (Some v); Some (k + 1, s) }) (int q, s) =
    Some (int q + int n, overwrite s p (take n (drop q xs)))"
  using assms
proof (induction n)
  case 0
  then show ?case by simp
next
  case (Suc n)
  let ?f = "\<lambda>i (k, s). do { v \<leftarrow> rd xs k; s \<leftarrow> wr s i (Some v); Some (k + 1, s) }"
  have IH: "for_range (int p) (int p + int n) ?f (int q, s) =
      Some (int q + int n, overwrite s p (take n (drop q xs)))"
    using Suc.prems by (intro Suc.IH) auto
  have v: "rd xs (int q + int n) = Some (xs ! (q + n))"
    using Suc.prems(1) rd_int [of "q + n" xs] by simp
  have "wr (overwrite s p (take n (drop q xs))) (int p + int n) (Some (xs ! (q + n))) =
      Some (overwrite s p (take (Suc n) (drop q xs)))"
  proof -
    have len: "length (take n (drop q xs)) = n" using Suc.prems(1) by simp
    then show ?thesis
      using Suc.prems overwrite_snoc [of p "take n (drop q xs)" s "xs ! (q + n)"]
        wr_int [of "p + n" "overwrite s p (take n (drop q xs))"]
      unfolding len by (simp add: take_Suc_conv_app_nth)
  qed
  moreover have "int p + int (Suc n) = int p + int n + 1" "int q + int (Suc n) = int q + int n + 1"
    by simp_all
  ultimately show ?case
    using for_range_snoc [of "int p" "int p + int n" ?f "(int q, s)"] IH v by (simp only:) simp
qed

text \<open>A loop that fills row \<open>a\<close> from its offset on builds the concatenation of the rows.\<close>

lemma fill_rows_of:
  assumes "n = int (length R)" "m = int (length (concat R))"
    and "\<And>a s. a < length R \<Longrightarrow> length s = length (concat R) \<Longrightarrow>
      f (int a) s = Some (overwrite s (row_start R a) (R ! a))"
  shows "do { s \<leftarrow> parallel_for n f (fresh m); freeze s } = Some (concat R)"
proof (rule fill_groups [OF assms(1,2)])
  fix a and s :: "'a option list"
  assume a: "a < length R" and len: "length s = length (concat R)"
  have le: "row_start R a + length (R ! a) \<le> length s"
    using row_start_mono [of "Suc a" "length R" R] a len by (simp add: row_start_Suc)
  show "\<exists>s'. f (int a) s = Some s' \<and> length s' = length s \<and>
        (\<forall>t < length (R ! a). s' ! (row_start R a + t) = Some (R ! a ! t)) \<and>
        (\<forall>k. k < row_start R a \<or> row_start R (Suc a) \<le> k \<longrightarrow> s' ! k = s ! k)"
    using assms(3) [OF a len] nth_overwrite [OF le] le
    by (auto simp: row_start_Suc [OF a])
qed

lemma bind_freeze:
  "do { s \<leftarrow> w; freeze s } = Some c \<Longrightarrow> do { s \<leftarrow> w; e \<leftarrow> freeze s; F e } = F c"
  by (cases w) simp_all

lemma asize_sizes [simp, arr_simps]: "asize (sizes R) = int (length R)"
  by (simp add: asize_def)

lemma rd_offsets_sizes:
  assumes "a \<le> length R"
  shows "rd (offsets (sizes R)) (int a) = Some (int (row_start R a))"
  using assms by (simp add: nth_offsets_sizes)

lemma rd_offsets_next:
  assumes "a < length R"
  shows "rd (offsets (sizes R)) (int a + 1) = Some (int (row_start R a + length (R ! a)))"
  using rd_offsets_sizes [of "Suc a" R] assms by (simp add: row_start_Suc add.commute)

lemmas row_reads = rd_offsets_sizes rd_offsets_next

lemma row_fits: "a < length R \<Longrightarrow> row_start R a + length (R ! a) \<le> length (concat R)"
  using row_start_mono [of "Suc a" "length R" R] by (simp add: row_start_Suc)

text \<open>The indices of the cells of row \<open>a\<close> of \<open>graph_of R\<close>.\<close>

definition cells :: "'a list list \<Rightarrow> nat \<Rightarrow> lo list" where
  "cells R a = [int (row_start R a)..int (row_start R a + length (R ! a)) - 1]"

lemma length_cells [simp]: "length (cells R a) = length (R ! a)"
  by (simp add: cells_def)

lemma map_cells:
  assumes "a < length R"
  shows "map (\<lambda>k. concat R ! nat k) (cells R a) = R ! a"
  using upto_row [OF assms] assms by (simp add: cells_def nth_offsets_sizes row_start_Suc)

lemma cell_in_row:
  assumes "a < length R" "k \<in> set (cells R a)"
  shows "concat R ! nat k \<in> set (R ! a)"
proof -
  have "concat R ! nat k \<in> set (map (\<lambda>k. concat R ! nat k) (cells R a))" using assms(2) by simp
  then show ?thesis unfolding map_cells [OF assms(1)] .
qed

lemma rd_cells: "a < length R \<Longrightarrow> k \<in> set (cells R a) \<Longrightarrow> rd (concat R) k = Some (concat R ! nat k)"
  using row_fits [of a R] by (intro rd_Some) (auto simp: cells_def asize_def)

lemma take_row:
  assumes "a < length R"
  shows "take (length (R ! a)) (drop (row_start R a) (concat R)) = R ! a"
proof (rule nth_equalityI)
  show "length (take (length (R ! a)) (drop (row_start R a) (concat R))) = length (R ! a)"
    using row_fits [OF assms] by simp
  fix t assume "t < length (take (length (R ! a)) (drop (row_start R a) (concat R)))"
  then show "take (length (R ! a)) (drop (row_start R a) (concat R)) ! t = R ! a ! t"
    using row_fits [OF assms] concat_cell [OF assms, of t] by simp
qed

section \<open>Operations as functions of the rows\<close>

lemma nnodes_graph_of [simp]: "nnodes (graph_of R) = int (length R)"
  by (simp add: nnodes_def)

lemma fill_linear_array:
  assumes "0 \<le> n"
  shows "linear_array n off stride = Some (map (\<lambda>i. off + stride * int i) [0..<nat n])"
proof -
  have "do { a \<leftarrow> parallel_for n (\<lambda>i a. wr a i (Some (off + stride * i))) (fresh n); freeze a } =
      fill_each n (\<lambda>i. Some (off + stride * i))"
    using assms by (simp add: fill_each_def)
  also have "\<dots> = Some (map (\<lambda>i. off + stride * int i) [0..<nat n])"
    using assms by (intro fill_each_Some) simp_all
  finally show ?thesis using assms by (simp add: linear_array_def fill_linear_def)
qed

lemma identity_graph_eq: "identity_graph (int n) = Some (graph_of (map (\<lambda>a. [int a]) [0..<n]))"
proof -
  let ?R = "map (\<lambda>a. [int a]) [0..<n]"
  have start: "row_start ?R k = k" if "k \<le> n" for k
    using that by (induction k) (simp_all add: row_start_Suc)
  have "map int [0..<Suc n] = offsets (sizes ?R)"
  proof (rule nth_equalityI)
    fix k assume "k < length (map int [0..<Suc n])"
    then show "map int [0..<Suc n] ! k = offsets (sizes ?R) ! k"
      by (simp add: nth_offsets_sizes start del: upt_Suc)
  qed simp
  moreover have "concat ?R = map int [0..<n]" by (induction n) simp_all
  moreover have "nat (int n + 1) = Suc n" by simp
  ultimately show ?thesis
    by (simp add: identity_graph_def fill_linear_array graph_of_def del: upt_Suc)
qed

lemma sizes_map2_append:
  assumes "length R = length S"
  shows "sizes (map2 (@) R S) = map2 (+) (sizes R) (sizes S)"
  using assms by (intro nth_equalityI) simp_all

lemma add_edges_eq:
  assumes "length R = length S"
  shows "add_edges (graph_of R) (graph_of S) = Some (graph_of (map2 (@) R S))"
proof -
  let ?T = "map2 (@) R S"
  have deg: "add_each (sizes R) (sizes S) = Some (sizes ?T)"
    using assms by (simp add: add_each_def zip_each_eq sizes_map2_append)
  let ?f = "\<lambda>v e2v. do {
       begin1 \<leftarrow> rd (offsets (sizes R)) v;
       end1 \<leftarrow> rd (offsets (sizes R)) (v + 1);
       begin2 \<leftarrow> rd (offsets (sizes S)) v;
       end2 \<leftarrow> rd (offsets (sizes S)) (v + 1);
       begin3 \<leftarrow> rd (offsets (sizes ?T)) v;
       end3 \<leftarrow> rd (offsets (sizes ?T)) (v + 1);
       let k = begin3;
       (k, e2v) \<leftarrow> for_range begin1 end1 (\<lambda>j (k, e2v). do {
         x \<leftarrow> rd (concat R) j;
         e2v \<leftarrow> wr e2v k (Some x);
         Some (k + 1, e2v)
       }) (k, e2v);
       (k, e2v) \<leftarrow> for_range begin2 end2 (\<lambda>j (k, e2v). do {
         x \<leftarrow> rd (concat S) j;
         e2v \<leftarrow> wr e2v k (Some x);
         Some (k + 1, e2v)
       }) (k, e2v);
       omega_check (k = end3);
       Some e2v
     }"
  have "do { s \<leftarrow> parallel_for (int (length R)) ?f (fresh (int (length (concat ?T)))); freeze s } = Some (concat ?T)"
  proof (rule fill_rows_of)
    fix a and s :: "lo option list"
    assume "a < length ?T" and len: "length s = length (concat ?T)"
    then have a: "a < length R" "a < length S" "a < length ?T" using assms by simp_all
    let ?p = "row_start ?T a"
    have Ta: "?T ! a = R ! a @ S ! a" using a by simp
    have fit: "?p + length (R ! a) + length (S ! a) \<le> length s"
      using row_fits [OF a(3)] len Ta by simp
    have l1: "run_for (cells R a) (\<lambda>j (k, e2v). do { x \<leftarrow> rd (concat R) j; e2v \<leftarrow> wr e2v k (Some x); Some (k + 1, e2v) })
        (int ?p, s) = Some (int (?p + length (R ! a)), overwrite s ?p (R ! a))"
      using push_loop [of "cells R a" "rd (concat R)" "\<lambda>j. concat R ! nat j" ?p s]
      using a fit by (simp add: rd_cells map_cells)
    have l2: "run_for (cells S a) (\<lambda>j (k, e2v). do { x \<leftarrow> rd (concat S) j; e2v \<leftarrow> wr e2v k (Some x); Some (k + 1, e2v) })
        (int (?p + length (R ! a)), overwrite s ?p (R ! a)) =
        Some (int (?p + length (R ! a) + length (S ! a)), overwrite s ?p (?T ! a))"
      using push_loop [of "cells S a" "rd (concat S)" "\<lambda>j. concat S ! nat j" "?p + length (R ! a)"
          "overwrite s ?p (R ! a)"] a fit
      unfolding Ta by (simp add: rd_cells map_cells overwrite_overwrite)
    show "?f (int a) s = Some (overwrite s ?p (?T ! a))"
      using l1 l2 a by (simp add: row_reads nth_offsets_sizes for_range_def cells_def add.assoc)
  qed (use assms in simp_all)
  from bind_freeze [OF this] show ?thesis
    by (simp add: add_edges_def deg offset_scan_eq graph_of_def Let_def)
qed

lemma unmap_graph_eq:
  assumes rng: "\<And>b. b \<in> set a2b \<Longrightarrow> 0 \<le> b \<and> b < int (length R)"
  shows "unmap_graph a2b (graph_of R) = Some (graph_of (map (\<lambda>b. R ! nat b) a2b))"
proof -
  let ?T = "map (\<lambda>b. R ! nat b) a2b"
  have degs: "unmap a2b (sizes R) 1 = Some (sizes ?T)"
    using rng by (subst unmap_1) (auto simp: sizes_def asize_def nat_less_iff)
  let ?f = "\<lambda>a ac2c. do {
       b \<leftarrow> rd a2b a;
       bc \<leftarrow> rd (offsets (sizes R)) b;
       ac0 \<leftarrow> rd (offsets (sizes ?T)) a;
       ac1 \<leftarrow> rd (offsets (sizes ?T)) (a + 1);
       (bc, ac2c) \<leftarrow> for_range ac0 ac1 (\<lambda>ac (bc, ac2c). do {
         c \<leftarrow> rd (concat R) bc;
         ac2c \<leftarrow> wr ac2c ac (Some c);
         Some (bc + 1, ac2c)
       }) (bc, ac2c);
       Some ac2c
     }"
  have "do { s \<leftarrow> parallel_for (int (length a2b)) ?f (fresh (int (length (concat ?T)))); freeze s } = Some (concat ?T)"
  proof (rule fill_rows_of)
    fix a and s :: "lo option list"
    assume a: "a < length ?T" and len: "length s = length (concat ?T)"
    let ?b = "nat (a2b ! a)"
    have b: "?b < length R" "a2b ! a = int ?b" using rng [of "a2b ! a"] a by (simp_all add: nat_less_iff)
    have Ta: "?T ! a = R ! ?b" using a by simp
    have "rd (offsets (sizes R)) (a2b ! a) = Some (int (row_start R ?b))"
      using rd_offsets_sizes [of ?b R] b by simp
    moreover have "for_range (int (row_start ?T a)) (int (row_start ?T a) + int (length (R ! ?b)))
        (\<lambda>ac (bc, ac2c). do { c \<leftarrow> rd (concat R) bc; ac2c \<leftarrow> wr ac2c ac (Some c); Some (bc + 1, ac2c) })
        (int (row_start R ?b), s) =
      Some (int (row_start R ?b) + int (length (R ! ?b)), overwrite s (row_start ?T a) (R ! ?b))"
      using copy_loop [of "row_start R ?b" "length (R ! ?b)" "concat R" "row_start ?T a" s]
        row_fits [OF b(1)] row_fits [OF a] len Ta take_row [OF b(1)] by simp
    ultimately show "?f (int a) s = Some (overwrite s (row_start ?T a) (?T ! a))"
      using a Ta by (simp add: row_reads nth_offsets_sizes)
  qed simp_all
  from bind_freeze [OF this] show ?thesis
    by (simp add: unmap_graph_def degs offset_scan_eq graph_of_def Let_def asize_def [of a2b])
qed

lemma graph_reduce_rows:
  assumes rng: "\<And>r b. r \<in> set R \<Longrightarrow> b \<in> set r \<Longrightarrow> 0 \<le> b \<and> b < asize b_data"
  shows "graph_reduce (graph_of R) b_data 1 op2 =
    fan_reduce (offsets (sizes (map (map (\<lambda>b. b_data ! nat b)) R)))
      (concat (map (map (\<lambda>b. b_data ! nat b)) R)) 1 op2"
proof -
  have "unmap (concat R) b_data 1 = Some (map (\<lambda>b. b_data ! nat b) (concat R))"
    using rng by (intro unmap_1) auto
  moreover have "sizes (map (map (\<lambda>b. b_data ! nat b)) R) = sizes R" by (simp add: sizes_def)
  ultimately show ?thesis by (simp add: graph_reduce_def map_concat)
qed

section \<open>Filters\<close>

text \<open>The kept elements of each row, when the marks of the elements are laid out like the rows.\<close>

definition keep_rows :: "'a list list \<Rightarrow> int list list \<Rightarrow> 'a list list" where
  "keep_rows R K = map2 (\<lambda>r k. map fst (filter (\<lambda>(x, m). m \<noteq> 0) (zip r k))) R K"

lemma filter_nth_zip:
  "length xs = length ms \<Longrightarrow>
   map (\<lambda>i. xs ! i) (filter (\<lambda>i. ms ! i \<noteq> 0) [0..<length ms]) =
   map fst (filter (\<lambda>(x, m). m \<noteq> (0 :: int)) (zip xs ms))"
proof (induction xs arbitrary: ms rule: rev_induct)
  case (snoc x xs)
  then obtain m ms' where ms: "ms = ms' @ [m]" "length xs = length ms'"
    by (metis append_butlast_last_id butlast_snoc length_append_singleton length_butlast
        list.size(3) nat.distinct(1))
  have eq: "filter (\<lambda>i. ms ! i \<noteq> 0) [0..<length ms'] = filter (\<lambda>i. ms' ! i \<noteq> 0) [0..<length ms']"
    by (rule filter_cong) (auto simp: ms nth_append)
  have "map (\<lambda>i. (xs @ [x]) ! i) (filter (\<lambda>i. ms ! i \<noteq> 0) [0..<length ms']) =
      map (\<lambda>i. xs ! i) (filter (\<lambda>i. ms' ! i \<noteq> 0) [0..<length ms'])"
    unfolding eq by (rule map_cong) (auto simp: nth_append ms(2))
  also have "\<dots> = map fst (filter (\<lambda>(x, m). m \<noteq> 0) (zip xs ms'))"
    by (rule snoc.IH [OF ms(2)])
  finally show ?case using ms by (simp add: nth_append)
qed simp

lemma zip_concat:
  assumes "sizes R = sizes K"
  shows "zip (concat R) (concat K) = concat (map2 zip R K)"
  using assms
proof (induction R arbitrary: K)
  case (Cons r R)
  then obtain k K' where "K = k # K'" "length r = length k" "sizes R = sizes K'"
    by (cases K) (auto simp: sizes_def)
  then show ?case using Cons.IH by simp
qed (simp add: sizes_def)

lemma concat_keep_rows:
  assumes "sizes R = sizes K"
  shows "concat (keep_rows R K) = map fst (filter (\<lambda>(x, m). m \<noteq> 0) (zip (concat R) (concat K)))"
  unfolding zip_concat [OF assms] by (simp add: keep_rows_def filter_concat map_concat comp_def case_prod_beta')

lemma length_keep_row:
  "length r = length k \<Longrightarrow> set k \<subseteq> {0, 1} \<Longrightarrow>
   int (length (map fst (filter (\<lambda>(x, m). m \<noteq> (0 :: int)) (zip r k)))) = sum_list k"
proof (induction r arbitrary: k)
  case (Cons x r)
  then obtain m k' where "k = m # k'" by (cases k) auto
  with Cons show ?case by auto
qed simp

lemma sizes_keep_rows:
  assumes "sizes R = sizes K" "set (concat K) \<subseteq> {0, 1}"
  shows "sizes (keep_rows R K) = map sum_list K"
proof -
  have len: "length R = length K" using assms(1) by (metis length_sizes)
  show ?thesis
  proof (rule nth_equalityI)
    show "length (sizes (keep_rows R K)) = length (map sum_list K)" by (simp add: keep_rows_def len)
    fix a assume "a < length (sizes (keep_rows R K))"
    then have a: "a < length K" by (simp add: keep_rows_def len)
    have "length (R ! a) = length (K ! a)"
      using assms(1) a len nth_sizes [of a R] nth_sizes [of a K] by simp
    moreover have "set (K ! a) \<subseteq> {0, 1}" using assms(2) a by fastforce
    ultimately show "sizes (keep_rows R K) ! a = map sum_list K ! a"
      using a len length_keep_row [of "R ! a" "K ! a"] by (simp add: keep_rows_def)
  qed
qed

lemma filter_graph_edges_eq:
  assumes sz: "sizes R = sizes K" and marks: "set (concat K) \<subseteq> {0, 1}"
  shows "filter_graph_edges (graph_of R) (concat K) =
    Some \<lparr>a2ab = offsets (map cast_i8 (sizes (keep_rows R K))), ab2b = concat (keep_rows R K)\<rparr>"
proof -
  have "fan_reduce_i8_sum (offsets (sizes R)) (concat K) 1 = Some (map cast_i8 (sizes (keep_rows R K)))"
    unfolding sz fan_reduce_i8_sum_def fan_reduce_int_def omega_h_op.case fan_reduce_tmpl_rows
      sizes_keep_rows [OF sz marks]
    by (simp add: wrapping_sum cast_i8_def)
  moreover have "unmap (marked_indices (concat K)) (concat R) 1 = Some (concat (keep_rows R K))"
  proof -
    have len: "length (concat R) = length (concat K)" using sum_sizes [of R] sum_sizes [of K] sz by simp
    have "unmap (marked_indices (concat K)) (concat R) 1 =
        Some (map (\<lambda>b. concat R ! nat b) (marked_indices (concat K)))"
      using len by (intro unmap_1) (auto simp: set_marked_indices asize_def)
    also have "map (\<lambda>b. concat R ! nat b) (marked_indices (concat K)) =
        map (\<lambda>i. concat R ! i) (filter (\<lambda>i. concat K ! i \<noteq> 0) [0..<length (concat K)])"
      by (simp add: marked_indices_def)
    finally show ?thesis unfolding filter_nth_zip [OF len] concat_keep_rows [OF sz] .
  qed
  ultimately show ?thesis
    using collect_marked_eq [OF marks] by (simp add: filter_graph_edges_def offset_scan_eq)
qed

text \<open>The subgraph induced by the kept nodes, its nodes renumbered in order.\<close>

definition kept_row :: "int list \<Rightarrow> lo list \<Rightarrow> lo list" where
  "kept_row keep r = filter (\<lambda>j. keep ! nat j \<noteq> 0) r"

definition induced_rows :: "lo list list \<Rightarrow> int list \<Rightarrow> lo list list" where
  "induced_rows R keep = map (\<lambda>i. map (index_of (marked_indices keep)) (kept_row keep (R ! nat i)))
     (marked_indices keep)"

lemma count_kept:
  "foldl (\<lambda>n k. if k \<noteq> 0 then n + 1 else n) n (map (\<lambda>j. keep ! nat j) r) =
   n + int (length (kept_row keep r))"
  by (induction r arbitrary: n) (simp_all add: kept_row_def)

lemma count_kept_loop:
  assumes a: "a < length R" and rng: "\<And>b. b \<in> set (R ! a) \<Longrightarrow> 0 \<le> b \<and> b < asize keep"
  shows "run_for (cells R a) (\<lambda>e n. do { b \<leftarrow> rd (concat R) e; k \<leftarrow> rd keep b;
      Some (if k \<noteq> 0 then n + 1 else n) }) 0 = Some (int (length (kept_row keep (R ! a))))"
proof -
  let ?p = "\<lambda>n k. if k \<noteq> (0 :: int) then n + 1 else n :: int"
  have "run_for (cells R a) (\<lambda>e n. do { x \<leftarrow> do { b \<leftarrow> rd (concat R) e; rd keep b }; Some (?p n x) }) 0 =
      Some (foldl ?p 0 (map (\<lambda>e. keep ! nat (concat R ! nat e)) (cells R a)))"
  proof (rule run_for_fold)
    fix e assume e: "e \<in> set (cells R a)"
    have "concat R ! nat e \<in> set (R ! a)" by (rule cell_in_row [OF a e])
    then show "do { b \<leftarrow> rd (concat R) e; rd keep b } = Some (keep ! nat (concat R ! nat e))"
      using rng by (simp add: rd_cells [OF a e] rd_Some)
  qed
  also have "map (\<lambda>e. keep ! nat (concat R ! nat e)) (cells R a) = map (\<lambda>j. keep ! nat j) (R ! a)"
    using arg_cong [OF map_cells [OF a], of "map (\<lambda>j. keep ! nat j)"] by (simp add: comp_def)
  finally show ?thesis by (simp add: count_kept Option.bind_assoc)
qed

lemma fill_kept_loop:
  assumes a: "a < length R" and rng: "\<And>b. b \<in> set (R ! a) \<Longrightarrow> 0 \<le> b \<and> b < asize keep"
    and new: "\<And>b. 0 \<le> b \<Longrightarrow> b < asize keep \<Longrightarrow> keep ! nat b \<noteq> 0 \<Longrightarrow> rd old2new b = Some (h b)"
    and fit: "p + length (kept_row keep (R ! a)) \<le> length s"
  shows "run_for (cells R a) (\<lambda>e (k, s). do {
      b \<leftarrow> rd (concat R) e;
      keep \<leftarrow> rd keep b;
      if keep \<noteq> 0 then do { c \<leftarrow> rd old2new b; s \<leftarrow> wr s k (Some c); Some (k + 1, s) } else Some (k, s)
    }) (int p, s) =
    Some (int p + int (length (kept_row keep (R ! a))), overwrite s p (map h (kept_row keep (R ! a))))"
proof -
  let ?c = "\<lambda>e. concat R ! nat e" and ?P = "\<lambda>e. keep ! nat (concat R ! nat e) \<noteq> 0"
  have mem: "0 \<le> ?c e \<and> ?c e < asize keep" if "e \<in> set (cells R a)" for e
  proof -
    have "?c e \<in> set (R ! a)" by (rule cell_in_row [OF a that])
    then show ?thesis by (rule rng)
  qed
  have kept: "map ?c (filter ?P (cells R a)) = kept_row keep (R ! a)"
    unfolding kept_row_def map_cells [OF a, symmetric] filter_map by (simp add: comp_def)
  have "run_for (cells R a) (\<lambda>e (k, s). do {
      b \<leftarrow> rd (concat R) e;
      keep \<leftarrow> rd keep b;
      if keep \<noteq> 0 then do { c \<leftarrow> rd old2new b; s \<leftarrow> wr s k (Some c); Some (k + 1, s) } else Some (k, s)
    }) (int p, s) =
    run_for (cells R a) (\<lambda>e ks. if ?P e
      then (case ks of (k, s) \<Rightarrow> do { c \<leftarrow> rd old2new (?c e); s \<leftarrow> wr s k (Some c); Some (k + 1, s) })
      else Some ks) (int p, s)"
    by (rule run_for_cong) (auto simp: rd_cells [OF a] rd_Some mem)
  also have "\<dots> = run_for (filter ?P (cells R a))
      (\<lambda>e (k, s). do { c \<leftarrow> rd old2new (?c e); s \<leftarrow> wr s k (Some c); Some (k + 1, s) }) (int p, s)"
    by (rule run_for_filter)
  also have "\<dots> = Some (int (p + length (filter ?P (cells R a))),
      overwrite s p (map (\<lambda>e. h (?c e)) (filter ?P (cells R a))))"
  proof (rule push_loop)
    show "rd old2new (?c e) = Some (h (?c e))" if "e \<in> set (filter ?P (cells R a))" for e
      using new mem [of e] that by simp
    show "p + length (filter ?P (cells R a)) \<le> length s"
      using fit arg_cong [OF kept, of length] by simp
  qed
  finally show ?thesis
    using arg_cong [OF kept, of "map h"] arg_cong [OF kept, of length] by (simp add: comp_def)
qed

lemma filter_graph_nodes_eq:
  assumes len: "length keep = length R" and marks: "set keep \<subseteq> {0, 1}"
    and rng: "\<And>r b. r \<in> set R \<Longrightarrow> b \<in> set r \<Longrightarrow> 0 \<le> b \<and> b < asize keep"
  shows "filter_graph_nodes (graph_of R) keep = Some (graph_of (induced_rows R keep))"
proof -
  let ?kept = "marked_indices keep" and ?T = "induced_rows R keep"
  let ?n = "int (length R)"
  let ?deg = "\<lambda>a. int (length (kept_row keep (R ! a)))"
  have row: "0 \<le> b \<and> b < asize keep" if "a < length R" "b \<in> set (R ! a)" for a b
    using rng that nth_mem by blast
  have old: "0 \<le> i \<and> i < ?n \<and> nat i < length R" if "i \<in> set ?kept" for i
    using that len by (auto simp: set_marked_indices asize_def)
  have lenT: "length ?T = length ?kept" by (simp add: induced_rows_def)
  have nthT: "?T ! a = map (index_of ?kept) (kept_row keep (R ! nat (?kept ! a)))" if "a < length ?kept" for a
    using that by (simp add: induced_rows_def)
  have counted: "fill_each ?n (\<lambda>v. do {
      e0 \<leftarrow> rd (offsets (sizes R)) v;
      e1 \<leftarrow> rd (offsets (sizes R)) (v + 1);
      for_range e0 e1 (\<lambda>e n. do { b \<leftarrow> rd (concat R) e; k \<leftarrow> rd keep b; Some (if k \<noteq> 0 then n + 1 else n) }) 0
    }) = Some (map ?deg [0..<nat ?n])"
  proof (rule fill_each_Some)
    fix a assume "int a < ?n"
    then have a: "a < length R" by simp
    show "do {
      e0 \<leftarrow> rd (offsets (sizes R)) (int a);
      e1 \<leftarrow> rd (offsets (sizes R)) (int a + 1);
      for_range e0 e1 (\<lambda>e n. do { b \<leftarrow> rd (concat R) e; k \<leftarrow> rd keep b; Some (if k \<noteq> 0 then n + 1 else n) }) 0
    } = Some (?deg a)"
      using count_kept_loop [OF a row [OF a]] a
      by (simp add: row_reads nth_offsets_sizes for_range_def cells_def)
  qed simp
  have degs: "unmap ?kept (map ?deg [0..<nat ?n]) 1 = Some (sizes ?T)"
    using old by (subst unmap_1) (auto simp: asize_def sizes_def induced_rows_def)
  have inv: "invert_injective_map ?kept ?n =
      Some (map (\<lambda>b. if int b \<in> set ?kept then index_of ?kept (int b) else - 1) [0..<length R])"
    using old by (subst invert_injective_map_eq) auto
  let ?inv = "map (\<lambda>b. if int b \<in> set ?kept then index_of ?kept (int b) else - 1) [0..<length R]"
  have new: "rd ?inv b = Some (index_of ?kept b)" if "0 \<le> b" "b < asize keep" "keep ! nat b \<noteq> 0" for b
  proof -
    have "b \<in> set ?kept" using that by (simp add: set_marked_indices)
    then show ?thesis using old [of b] by (simp add: rd_Some asize_def)
  qed
  let ?f = "\<lambda>v s. do {
       old_node \<leftarrow> rd ?kept v;
       new_edge \<leftarrow> rd (offsets (sizes ?T)) v;
       e0 \<leftarrow> rd (offsets (sizes R)) old_node;
       e1 \<leftarrow> rd (offsets (sizes R)) (old_node + 1);
       (new_edge, s) \<leftarrow> for_range e0 e1 (\<lambda>e (k, s). do {
           b \<leftarrow> rd (concat R) e;
           keep \<leftarrow> rd keep b;
           if keep \<noteq> 0 then do { c \<leftarrow> rd ?inv b; s \<leftarrow> wr s k (Some c); Some (k + 1, s) } else Some (k, s)
         }) (new_edge, s);
       Some s
     }"
  have "do { s \<leftarrow> parallel_for (asize ?kept) ?f (fresh (int (length (concat ?T)))); freeze s } = Some (concat ?T)"
  proof (rule fill_rows_of)
    fix a and s :: "lo option list"
    assume aT: "a < length ?T" and lens: "length s = length (concat ?T)"
    then have a: "a < length ?kept" using lenT by simp
    obtain v where v: "?kept ! a = int v" "v < length R"
      using old [of "?kept ! a"] a by (metis nth_mem zero_le_imp_eq_int nat_int)
    have Ta: "?T ! a = map (index_of ?kept) (kept_row keep (R ! v))" using nthT [OF a] v(1) by simp
    have fit: "row_start ?T a + length (kept_row keep (R ! v)) \<le> length s"
      using row_fits [OF aT] lens Ta by simp
    have r: "rd ?kept (int a) = Some (int v)" using a v(1) by simp
    show "?f (int a) s = Some (overwrite s (row_start ?T a) (?T ! a))"
      unfolding r Ta
      using fill_kept_loop [OF v(2) row [OF v(2)] new fit] aT v(2)
      by (simp add: row_reads nth_offsets_sizes for_range_def cells_def)
  qed (use lenT in \<open>simp_all add: asize_def\<close>)
  from bind_freeze [OF this] counted degs inv show ?thesis
    using collect_marked_eq [OF marks]
    by (simp add: filter_graph_nodes_def nnodes_def offset_scan_eq graph_of_def Let_def)
qed

section \<open>Properties\<close>

lemma cast_i8_small: "0 \<le> x \<Longrightarrow> x \<le> 127 \<Longrightarrow> cast_i8 x = x"
  unfolding cast_i8_def by (rule int_cast_exact) (simp_all add: arith_min_def arith_max_def)

lemma cast_i8_overflow:
  assumes "128 \<le> x" "x \<le> 255"
  shows "cast_i8 x = x - 256"
proof -
  have "take_bit (Suc 7) x = take_bit (Suc 7) (x - 2 ^ Suc 7)"
    unfolding take_bit_eq_mod by (rule minus_mod_self2 [symmetric])
  then have "signed_take_bit 7 x = signed_take_bit 7 (x - 2 ^ Suc 7)"
    by (simp only: signed_take_bit_eq_iff_take_bit_eq)
  also have "\<dots> = x - 2 ^ Suc 7" by (rule signed_take_bit_int_eq_self) (use assms in simp_all)
  finally show ?thesis by (simp add: cast_i8_def int_cast_def)
qed

lemma rows_cases:
  assumes "valid_graph g"
  obtains R where "g = graph_of R" "rows g = R"
  using graph_of_rows [OF assms] by (intro that [of "rows g"]) simp_all

text \<open>C27. The operations that build graphs from graphs, on every pair of well-formed graphs over the
  same nodes: \<open>add_edges\<close> appends the rows, \<open>add_self_edges\<close> puts every node in front of its own
  row, and \<open>unmap_graph\<close> gathers rows along a map; every result is well-formed.\<close>

theorem graph_building_rows:
  assumes "valid_graph g1" "valid_graph g2" "nnodes g1 = nnodes g2"
    and "\<forall>b \<in> set a2b. 0 \<le> b \<and> b < nnodes g1"
  shows "\<exists>u s m. add_edges g1 g2 = Some u \<and> add_self_edges g1 = Some s \<and> unmap_graph a2b g1 = Some m \<and>
    valid_graph u \<and> valid_graph s \<and> valid_graph m \<and>
    rows u = map2 (@) (rows g1) (rows g2) \<and>
    rows s = map (\<lambda>v. int v # rows g1 ! v) [0..<nat (nnodes g1)] \<and>
    rows m = map (\<lambda>b. rows g1 ! nat b) a2b"
proof -
  obtain R where R: "g1 = graph_of R" "rows g1 = R" by (rule rows_cases [OF assms(1)])
  obtain S where S: "g2 = graph_of S" "rows g2 = S" by (rule rows_cases [OF assms(2)])
  have n: "nnodes g1 = int (length R)" "length R = length S"
    using assms(3) by (simp_all add: R(1) S(1) nnodes_def)
  have "map2 (@) (map (\<lambda>a. [int a]) [0..<length R]) R = map (\<lambda>v. int v # R ! v) [0..<length R]"
    by (rule nth_equalityI) simp_all
  then have "add_self_edges g1 = Some (graph_of (map (\<lambda>v. int v # R ! v) [0..<length R]))"
    using add_edges_eq [of "map (\<lambda>a. [int a]) [0..<length R]" R]
    by (simp add: add_self_edges_def R(1) identity_graph_eq)
  moreover have "unmap_graph a2b g1 = Some (graph_of (map (\<lambda>b. R ! nat b) a2b))"
    unfolding R(1) by (rule unmap_graph_eq) (use assms(4) n in auto)
  moreover have "add_edges g1 g2 = Some (graph_of (map2 (@) R S))"
    unfolding R(1) S(1) by (rule add_edges_eq [OF n(2)])
  ultimately show ?thesis using n by (simp add: R(2) S(2))
qed

theorem graph_building_rows_witness:
  "\<exists>u. add_edges (graph_of [[1, 2], [0], []]) (graph_of [[], [2], [0]]) = Some u \<and>
     rows u = [[1, 2], [0, 2], [0]]"
  using graph_building_rows [of "graph_of [[1, 2], [0], []]" "graph_of [[], [2], [0]]" "[2, 0]"]
  by (auto simp: nnodes_def)

text \<open>C26. \<open>filter_graph_nodes\<close> builds the induced subgraph: one row per kept node, in order; the row
  of a kept node lists, in order, exactly its kept neighbours, under their new numbers.\<close>

theorem filter_graph_nodes_induced:
  assumes "valid_graph g" "asize keep = nnodes g" "set keep \<subseteq> {0, 1}"
    and "\<forall>b \<in> set (ab2b g). 0 \<le> b \<and> b < nnodes g"
  shows "\<exists>h kept. filter_graph_nodes g keep = Some h \<and> collect_marked keep = Some kept \<and>
    valid_graph h \<and> nnodes h = asize kept \<and>
    (\<forall>v < length kept.
       (\<forall>w \<in> set (rows h ! v). 0 \<le> w \<and> w < asize kept) \<and>
       map (\<lambda>w. kept ! nat w) (rows h ! v) = filter (\<lambda>b. keep ! nat b = 1) (rows g ! nat (kept ! v)))"
proof -
  let ?kept = "marked_indices keep"
  obtain R where R: "g = graph_of R" "rows g = R" by (rule rows_cases [OF assms(1)])
  have n: "length keep = length R" using assms(2) by (simp add: R(1) nnodes_def asize_def)
  have rng: "0 \<le> b \<and> b < asize keep" if "r \<in> set R" "b \<in> set r" for r b
    using assms(2,4) that by (auto simp: R(1))
  have one: "keep ! nat b \<noteq> 0 \<longleftrightarrow> keep ! nat b = 1" if "0 \<le> b" "b < asize keep" for b
    using nth_int_mem [OF that] assms(3) by auto
  have row: "map (\<lambda>w. ?kept ! nat w) (induced_rows R keep ! v) =
      filter (\<lambda>b. keep ! nat b = 1) (R ! nat (?kept ! v)) \<and>
      (\<forall>w \<in> set (induced_rows R keep ! v). 0 \<le> w \<and> w < asize ?kept)" if v: "v < length ?kept" for v
  proof -
    let ?r = "R ! nat (?kept ! v)"
    have "?kept ! v \<in> set ?kept" using v by simp
    then have "?r \<in> set R" using n by (auto simp: set_marked_indices asize_def nat_less_iff)
    then have mem: "b \<in> set ?kept" "keep ! nat b = 1" if "b \<in> set (kept_row keep ?r)" for b
      using rng [of ?r b] one [of b] that by (auto simp: kept_row_def set_marked_indices)
    have "kept_row keep ?r = filter (\<lambda>b. keep ! nat b = 1) ?r"
      unfolding kept_row_def using rng [OF \<open>?r \<in> set R\<close>] one by (intro filter_cong) auto
    moreover have "map (\<lambda>b. ?kept ! nat (index_of ?kept b)) (kept_row keep ?r) = kept_row keep ?r"
      using mem(1) index_of_mem(3) [of _ ?kept] by (intro map_idI) auto
    ultimately show ?thesis
      using v mem(1) index_of_mem(1,2) [of _ ?kept] by (auto simp: induced_rows_def comp_def)
  qed
  have "filter_graph_nodes g keep = Some (graph_of (induced_rows R keep))"
    unfolding R(1) by (rule filter_graph_nodes_eq [OF n assms(3) rng])
  then show ?thesis
    using collect_marked_eq [OF assms(3)] row R(2)
    by (auto simp: nnodes_def induced_rows_def asize_def)
qed

theorem filter_graph_nodes_induced_witness:
  "\<exists>h. filter_graph_nodes (graph_of [[1, 3], [0, 2, 3], [1], [0, 1]]) [0, 1, 1, 1] = Some h \<and> nnodes h = 3"
proof -
  have "collect_marked [0, 1, 1, 1] = Some [1, 2, 3]" by code_simp
  then show ?thesis
    using filter_graph_nodes_induced [of "graph_of [[1, 3], [0, 2, 3], [1], [0, 1]]" "[0, 1, 1, 1]"]
    by (auto simp: nnodes_def)
qed

text \<open>C28. \<open>filter_graph_edges\<close> keeps the marked edges of every node, in order, as long as no node
  keeps more than 127 of them.\<close>

theorem filter_graph_edges_rows:
  assumes "sizes R = sizes K" "set (concat K) \<subseteq> {0, 1}" "\<forall>k \<in> set K. sum_list k \<le> 127"
  shows "filter_graph_edges (graph_of R) (concat K) = Some (graph_of (keep_rows R K))"
proof -
  have "cast_i8 (sum_list k) = sum_list k" if "k \<in> set K" for k
  proof -
    have "0 \<le> sum_list k" using assms(2) that by (intro sum_list_nonneg) fastforce
    then show ?thesis using assms(3) that by (intro cast_i8_small) auto
  qed
  then have "map cast_i8 (sizes (keep_rows R K)) = sizes (keep_rows R K)"
    unfolding sizes_keep_rows [OF assms(1,2)] by simp
  then show ?thesis using filter_graph_edges_eq [OF assms(1,2)] by (simp add: graph_of_def)
qed

theorem filter_graph_edges_rows_witness:
  "filter_graph_edges (graph_of [[5, 6, 7], [], [8, 9]]) (concat [[1, 0, 1], [], [0, 1]]) =
   Some (graph_of [[5, 7], [], [9]])"
  using filter_graph_edges_rows [of "[[5, 6, 7], [], [8, 9]]" "[[1, 0, 1], [], [0, 1]]"]
  by (simp add: sizes_def keep_rows_def)

text \<open>C29. A node that keeps 128 to 255 edges breaks \<open>filter_graph_edges\<close>: its degree is cast to an
  8-bit integer and becomes negative, and the graph that is returned is not well-formed.\<close>

theorem filter_graph_edges_degree_overflow:
  assumes "sizes R = sizes K" "set (concat K) \<subseteq> {0, 1}"
    and "k \<in> set K" "128 \<le> sum_list k" "sum_list k \<le> 255"
  shows "\<exists>h. filter_graph_edges (graph_of R) (concat K) = Some h \<and> \<not> valid_graph h"
proof -
  let ?ds = "map cast_i8 (sizes (keep_rows R K))"
  have ds: "?ds = map (\<lambda>k. cast_i8 (sum_list k)) K"
    unfolding sizes_keep_rows [OF assms(1,2)] by simp
  have neg: "cast_i8 (sum_list k) < 0" using assms(4,5) by (simp add: cast_i8_overflow)
  have "\<not> sorted (offsets ?ds)"
  proof
    assume s: "sorted (offsets ?ds)"
    obtain a where a: "a < length K" "K ! a = k" using assms(3) by (auto simp: in_set_conv_nth)
    have len: "length ?ds = length K" unfolding ds by simp
    have "offsets ?ds ! a \<le> offsets ?ds ! Suc a"
      using sorted_nth_mono [OF s, of a "Suc a"] a(1) len by simp
    moreover have "?ds ! a = cast_i8 (sum_list k)" unfolding ds using a by simp
    moreover have "offsets ?ds ! Suc a = offsets ?ds ! a + ?ds ! a" using a(1) len by (intro offsets_Suc) simp
    ultimately show False using neg by simp
  qed
  then show ?thesis
    using filter_graph_edges_eq [OF assms(1,2)] by (simp add: valid_graph_def is_fan_def)
qed

theorem filter_graph_edges_degree_overflow_witness:
  "\<exists>h. filter_graph_edges (graph_of [replicate 128 0]) (concat [replicate 128 1]) = Some h \<and> \<not> valid_graph h"
  by (rule filter_graph_edges_degree_overflow [of _ _ "replicate 128 1"]) (simp_all add: sizes_def sum_list_replicate)

end
