(* ===== verification/Adj.thy ===== *)
theory Adj
  imports Graphs Align Element
begin

text \<open>
  Adjacencies and their inversion (the first half of \<open>src/src/Omega_h_adj.cpp\<close>, the structures of
  \<open>src/src/Omega_h_adj.hpp\<close>).

  An \<open>adj\<close> is a graph with an alignment code per edge of the graph; a downward adjacency has a fixed
  number of boundary entities per entity and no offsets (\<open>a2ab = []\<close>).  \<open>adj_codes = None\<close> is an array
  that does not exist.  \<open>sort_by_high_index\<close> permutes arrays whose cells are all written: they are
  plain lists.

  The lemmas give the result of \<open>invert_adj\<close> as a function of the downward adjacency, independent of
  the order in which threads execute the atomic operations of \<open>invert_map_by_atomics\<close>: its selection
  sort of every row by the index of the upper entity makes the result deterministic.
\<close>

section \<open>The data and the operations\<close>

record adj = graph +
  adj_codes :: "i8 list option"



definition unmap_adjacency :: "lo list \<Rightarrow> adj \<Rightarrow> adj option" where
  "unmap_adjacency a2b b2c = do {
     let b2bc = a2ab b2c;
     let bc2c = ab2b b2c;
     b_degrees \<leftarrow> get_degrees b2bc;
     a_degrees \<leftarrow> unmap a2b b_degrees 1;
     a2ac \<leftarrow> offset_scan a_degrees;
     let na = asize a2b;
     nac \<leftarrow> rd_last a2ac;
     ac2c \<leftarrow> alloc nac;
     ac_codes \<leftarrow> alloc nac;
     (ac2c, ac_codes) \<leftarrow> parallel_for na (\<lambda>a (ac2c, ac_codes). do {
       b \<leftarrow> rd a2b a;
       bc \<leftarrow> rd b2bc b;
       ac0 \<leftarrow> rd a2ac a;
       ac1 \<leftarrow> rd a2ac (a + 1);
       (bc, ac2c, ac_codes) \<leftarrow> for_range ac0 ac1 (\<lambda>ac (bc, ac2c, ac_codes). do {
         c \<leftarrow> rd bc2c bc;
         ac2c \<leftarrow> wr ac2c ac (Some c);
         bc_codes \<leftarrow> adj_codes b2c;
         code \<leftarrow> rd bc_codes bc;
         ac_codes \<leftarrow> wr ac_codes ac (Some code);
         Some (bc + 1, ac2c, ac_codes)
       }) (bc, ac2c, ac_codes);
       Some (ac2c, ac_codes)
     }) (ac2c, ac_codes);
     ac2c \<leftarrow> freeze ac2c;
     ac_codes \<leftarrow> freeze ac_codes;
     Some \<lparr>a2ab = a2ac, ab2b = ac2c, adj_codes = Some ac_codes\<rparr>
   }"

text \<open>The search for the least remaining entry, one step and the whole of the selection sort of a row.\<close>

definition find_min :: "lo list \<Rightarrow> lo \<Rightarrow> lo \<Rightarrow> lo option" where
  "find_min lh2h j end_l = do {
     h0 \<leftarrow> rd lh2h j;
     (k_min, min_h) \<leftarrow> for_range (j + 1) end_l (\<lambda>k (k_min, min_h). do {
       h \<leftarrow> rd lh2h k;
       Some (if h < min_h then (k, h) else (k_min, min_h))
     }) (j, h0);
     Some k_min
   }"

definition sort_row :: "lo \<Rightarrow> lo \<Rightarrow> lo list \<times> i8 list \<Rightarrow> (lo list \<times> i8 list) option" where
  "sort_row begin_l end_l arrays = for_range begin_l end_l (\<lambda>j (lh2h, codes). do {
     k_min \<leftarrow> find_min lh2h j end_l;
     lh2h \<leftarrow> swap2 lh2h j k_min;
     codes \<leftarrow> swap2 codes j k_min;
     Some (lh2h, codes)
   }) arrays"

definition sort_by_high_index :: "lo list \<Rightarrow> lo list \<Rightarrow> i8 list \<Rightarrow> (lo list \<times> i8 list) option" where
  "sort_by_high_index l2lh lh2h codes = do {
     let nl = asize l2lh - 1;
     parallel_for nl (\<lambda>l arrays. do {
       begin_l \<leftarrow> rd l2lh l;
       end_l \<leftarrow> rd l2lh (l + 1);
       sort_row begin_l end_l arrays
     }) (lh2h, codes)
   }"

definition separate_upward_with_codes ::
    "lo \<Rightarrow> lo list \<Rightarrow> int \<Rightarrow> lo option list \<Rightarrow> i8 list \<Rightarrow> i8 option list \<Rightarrow>
     (lo option list \<times> i8 option list) option" where
  "separate_upward_with_codes nlh lh2hl nlows_per_high lh2h down_codes codes =
     parallel_for nlh (\<lambda>lh (lh2h, codes). do {
       hl \<leftarrow> rd lh2hl lh;
       omega_check (nlows_per_high \<noteq> 0);
       let h = hl sdiv nlows_per_high;
       lh2h \<leftarrow> wr lh2h lh (Some h);
       let which_down = hl smod nlows_per_high;
       down_code \<leftarrow> rd down_codes hl;
       let is_flipped = code_is_flipped down_code;
       let rotation = code_rotation down_code;
       codes \<leftarrow> wr codes lh (Some (make_code is_flipped rotation which_down));
       Some (lh2h, codes)
     }) (lh2h, codes)"

definition separate_upward_no_codes ::
    "lo \<Rightarrow> lo list \<Rightarrow> int \<Rightarrow> lo option list \<Rightarrow> i8 option list \<Rightarrow>
     (lo option list \<times> i8 option list) option" where
  "separate_upward_no_codes nlh lh2hl nlows_per_high lh2h codes =
     parallel_for nlh (\<lambda>lh (lh2h, codes). do {
       hl \<leftarrow> rd lh2hl lh;
       omega_check (nlows_per_high \<noteq> 0);
       let h = hl sdiv nlows_per_high;
       lh2h \<leftarrow> wr lh2h lh (Some h);
       let which_down = hl smod nlows_per_high;
       codes \<leftarrow> wr codes lh (Some (make_code False 0 which_down));
       Some (lh2h, codes)
     }) (lh2h, codes)"

text \<open>
  The body that both overloads of \<open>invert_adj\<close> share; they differ in how they look up the names of
  the arrays.  The schedules of the two atomic loops are parameters.
\<close>

definition invert_adj_body :: "lo list \<Rightarrow> lo list \<Rightarrow> adj \<Rightarrow> int \<Rightarrow> lo \<Rightarrow> adj option" where
  "invert_adj_body count_order fill_order down nlows_per_high nlows = do {
     l2hl \<leftarrow> invert_map_by_atomics count_order fill_order (ab2b down) nlows;
     let l2lh = a2ab l2hl;
     let lh2hl = ab2b l2hl;
     let nlh = asize lh2hl;
     lh2h \<leftarrow> alloc nlh;
     codes2 \<leftarrow> alloc nlh;
     (lh2h, codes2) \<leftarrow> (case adj_codes down of
         Some down_codes \<Rightarrow> separate_upward_with_codes nlh lh2hl nlows_per_high lh2h down_codes codes2
       | None \<Rightarrow> separate_upward_no_codes nlh lh2hl nlows_per_high lh2h codes2);
     lh2h \<leftarrow> freeze lh2h;
     codes2 \<leftarrow> freeze codes2;
     (lh2h, codes2) \<leftarrow> sort_by_high_index l2lh lh2h codes2;
     Some \<lparr>a2ab = l2lh, ab2b = lh2h, adj_codes = Some codes2\<rparr>
   }"

definition invert_adj :: "lo list \<Rightarrow> lo list \<Rightarrow> adj \<Rightarrow> int \<Rightarrow> lo \<Rightarrow> int \<Rightarrow> int \<Rightarrow> adj option" where
  "invert_adj count_order fill_order down nlows_per_high nlows high_dim low_dim = do {
     high_plural_name \<leftarrow> dimensional_plural_name high_dim;
     high_singular_name \<leftarrow> dimensional_singular_name high_dim;
     low_plural_name \<leftarrow> dimensional_plural_name low_dim;
     low_singular_name \<leftarrow> dimensional_singular_name low_dim;
     invert_adj_body count_order fill_order down nlows_per_high nlows
   }"

definition invert_adj_types ::
    "lo list \<Rightarrow> lo list \<Rightarrow> adj \<Rightarrow> int \<Rightarrow> lo \<Rightarrow> topo_type \<Rightarrow> topo_type \<Rightarrow> adj option" where
  "invert_adj_types count_order fill_order down nlows_per_high nlows high_type low_type =
     invert_adj_body count_order fill_order down nlows_per_high nlows"




section \<open>Selection sort of a row\<close>

lemma find_min_ex:
  assumes "0 \<le> j" "j < e" "e \<le> asize xs"
  shows "\<exists>k. find_min xs j e = Some k \<and> j \<le> k \<and> k < e \<and> (\<forall>i. j \<le> i \<and> i < e \<longrightarrow> xs ! nat k \<le> xs ! nat i)"
proof -
  let ?f = "\<lambda>k (k_min, min_h). do { h \<leftarrow> rd xs k; Some (if h < min_h then (k, h) else (k_min, min_h)) }"
  have "\<exists>s. for_range (j + 1) e ?f (j, xs ! nat j) = Some s \<and>
     (\<lambda>k (m, h). j \<le> m \<and> m < k \<and> h = xs ! nat m \<and> (\<forall>i. j \<le> i \<and> i < k \<longrightarrow> h \<le> xs ! nat i)) e s"
  proof (rule for_range_rule)
    fix i s assume i: "j + 1 \<le> i" "i < e"
      and P: "case s of (m, h) \<Rightarrow> j \<le> m \<and> m < i \<and> h = xs ! nat m \<and> (\<forall>k. j \<le> k \<and> k < i \<longrightarrow> h \<le> xs ! nat k)"
    obtain m h where s: "s = (m, h)" by (cases s)
    have "k < i \<or> k = i" if "k < i + 1" for k using that by linarith
    then show "\<exists>s'. ?f i s = Some s' \<and> (case s' of (m, h) \<Rightarrow> j \<le> m \<and> m < i + 1 \<and> h = xs ! nat m \<and>
        (\<forall>k. j \<le> k \<and> k < i + 1 \<longrightarrow> h \<le> xs ! nat k))"
      using P i assms by (fastforce simp: s rd_Some)
  qed (use assms in auto)
  then show ?thesis using assms by (auto simp: find_min_def rd_Some)
qed

text \<open>The state of the sort as one list of pairs: swapping both arrays swaps the pairs.\<close>

lemma swap_pairs:
  assumes "length xs = length ys" "0 \<le> j" "j < asize xs" "0 \<le> k" "k < asize xs"
  obtains xs' ys' where "swap2 xs j k = Some xs'" "swap2 ys j k = Some ys'"
    "length xs' = length xs" "length ys' = length ys"
    "zip xs' ys' = (zip xs ys)[nat j := zip xs ys ! nat k, nat k := zip xs ys ! nat j]"
proof (rule that)
  have n: "nat j < length xs" "nat k < length xs" using assms by (simp_all add: asize_def nat_less_iff)
  show "swap2 xs j k = Some (xs[nat j := xs ! nat k, nat k := xs ! nat j])"
    using assms by (intro swap2_Some)
  show "swap2 ys j k = Some (ys[nat j := ys ! nat k, nat k := ys ! nat j])"
    using assms by (intro swap2_Some) (simp_all add: asize_def)
  show "zip (xs[nat j := xs ! nat k, nat k := xs ! nat j]) (ys[nat j := ys ! nat k, nat k := ys ! nat j]) =
      (zip xs ys)[nat j := zip xs ys ! nat k, nat k := zip xs ys ! nat j]"
    using assms(1) n by (simp add: zip_update)
qed simp_all

lemma sort_row_ex:
  assumes len: "length xs = length ys" and b: "0 \<le> b" "b \<le> e" "e \<le> asize xs"
  shows "\<exists>xs' ys'. sort_row b e (xs, ys) = Some (xs', ys') \<and>
    length xs' = length xs \<and> length ys' = length ys \<and> mset (zip xs' ys') = mset (zip xs ys) \<and>
    (\<forall>k. int k < b \<or> e \<le> int k \<longrightarrow> zip xs' ys' ! k = zip xs ys ! k) \<and>
    (\<forall>i k. b \<le> i \<and> i < k \<and> k < e \<longrightarrow> xs' ! nat i \<le> xs' ! nat k)"
proof -
  let ?f = "\<lambda>j (lh2h, codes). do {
     k_min \<leftarrow> find_min lh2h j e;
     lh2h \<leftarrow> swap2 lh2h j k_min;
     codes \<leftarrow> swap2 codes j k_min;
     Some (lh2h, codes)
   }"
  let ?P = "\<lambda>j (xs', ys'). length xs' = length xs \<and> length ys' = length ys \<and>
    mset (zip xs' ys') = mset (zip xs ys) \<and>
    (\<forall>k. int k < b \<or> e \<le> int k \<longrightarrow> zip xs' ys' ! k = zip xs ys ! k) \<and>
    (\<forall>i k. b \<le> i \<and> i < j \<and> i < k \<and> k < e \<longrightarrow> xs' ! nat i \<le> xs' ! nat k)"
  have "\<exists>s. for_range b e ?f (xs, ys) = Some s \<and> ?P e s"
  proof (rule for_range_rule [where P = ?P])
    fix j s assume j: "b \<le> j" "j < e" and P: "?P j s"
    obtain us vs where s: "s = (us, vs)" by (cases s)
    have lens: "length us = length xs" "length vs = length ys" "length us = length vs"
      using P len by (simp_all add: s)
    have e: "e \<le> asize us" using lens b by (simp add: asize_def)
    obtain k where k: "find_min us j e = Some k" "j \<le> k" "k < e"
      "\<And>i. j \<le> i \<Longrightarrow> i < e \<Longrightarrow> us ! nat k \<le> us ! nat i"
      using find_min_ex [of j e us] j b e by auto
    have bds: "0 \<le> j" "j < asize us" "0 \<le> k" "k < asize us" using j k b e by auto
    obtain us' vs' where sw: "swap2 us j k = Some us'" "swap2 vs j k = Some vs'"
      "length us' = length us" "length vs' = length vs"
      "zip us' vs' = (zip us vs)[nat j := zip us vs ! nat k, nat k := zip us vs ! nat j]"
      by (rule swap_pairs [OF lens(3) bds])
    have n: "nat j < length us" "nat k < length us" using bds by (simp_all add: asize_def nat_less_iff)
    have us': "us' = us[nat j := us ! nat k, nat k := us ! nat j]"
      using sw(1) swap2_Some [OF bds(1,2,3,4)] by simp
    have "mset (zip us' vs') = mset (zip us vs)"
      unfolding sw(5) using n lens by (intro mset_swap) simp_all
    moreover have "zip us' vs' ! m = zip us vs ! m" if "int m < b \<or> e \<le> int m" for m
    proof -
      have "m \<noteq> nat j" "m \<noteq> nat k" using that j k(2,3) b(1) by arith+
      then show ?thesis by (simp add: sw(5))
    qed
    moreover have "us' ! nat i \<le> us' ! nat m" if im: "b \<le> i" "i < j + 1" "i < m" "m < e" for i m
    proof (cases "i = j")
      case True
      then have "us' ! nat i = us ! nat k" using n k(2) by (simp add: us' nth_list_update)
      moreover have "us' ! nat m \<in> {us ! nat m, us ! nat j}"
        using im True bds n by (auto simp: us' nth_list_update eq_nat_nat_iff)
      ultimately show ?thesis using k(4) [of m] k(4) [of j] im True j by auto
    next
      case False
      then have i: "i < j" using im by linarith
      then have "us' ! nat i = us ! nat i" using im b k(2) by (simp add: us' nth_list_update eq_nat_nat_iff)
      moreover have "us ! nat i \<le> us ! nat t" if "i < t" "t < e" for t
        using P i im(1) that by (auto simp: s)
      moreover have "us' ! nat m \<in> {us ! nat m, us ! nat j, us ! nat k}"
        using bds n by (auto simp: us' nth_list_update)
      ultimately show ?thesis using i im j k by auto
    qed
    ultimately have "?P (j + 1) (us', vs')" using P sw(3,4) lens by (simp add: s)
    then show "\<exists>s'. ?f j s = Some s' \<and> ?P (j + 1) s'" using k(1) sw(1,2) by (simp add: s)
  qed (use b in auto)
  then show ?thesis by (auto simp: sort_row_def)
qed

lemma sort_row_segment:
  fixes r :: "(lo \<times> i8) list"
  assumes Z: "Z = A @ r @ B"
  shows "\<exists>r'. sort_row (int (length A)) (int (length A + length r)) (map fst Z, map snd Z) =
      Some (map fst (A @ r' @ B), map snd (A @ r' @ B)) \<and> mset r' = mset r \<and> sorted (map fst r')"
proof -
  let ?b = "length A" and ?e = "length A + length r"
  obtain xs ys where s: "sort_row (int ?b) (int ?e) (map fst Z, map snd Z) = Some (xs, ys)"
    "length xs = length Z" "length ys = length Z" "mset (zip xs ys) = mset Z"
    "\<And>k. k < ?b \<or> ?e \<le> k \<Longrightarrow> zip xs ys ! k = Z ! k"
    "\<And>i k. int ?b \<le> i \<Longrightarrow> i < k \<Longrightarrow> k < int ?e \<Longrightarrow> xs ! nat i \<le> xs ! nat k"
  proof -
    have bds: "int ?b \<le> int ?e" "int ?e \<le> asize (map fst Z)" using Z by (simp_all add: asize_def)
    obtain xs ys where s: "sort_row (int ?b) (int ?e) (map fst Z, map snd Z) = Some (xs, ys)"
      "length xs = length (map fst Z)" "length ys = length (map snd Z)"
      "mset (zip xs ys) = mset (zip (map fst Z) (map snd Z))"
      "\<forall>k. int k < int ?b \<or> int ?e \<le> int k \<longrightarrow> zip xs ys ! k = zip (map fst Z) (map snd Z) ! k"
      "\<forall>i k. int ?b \<le> i \<and> i < k \<and> k < int ?e \<longrightarrow> xs ! nat i \<le> xs ! nat k"
      using sort_row_ex [of "map fst Z" "map snd Z" "int ?b" "int ?e", OF _ _ bds] by auto
    show ?thesis
    proof (rule that [OF s(1)])
      show "zip xs ys ! k = Z ! k" if "k < ?b \<or> ?e \<le> k" for k
        using s(5) that unfolding zip_map_fst_snd of_nat_less_iff of_nat_le_iff by blast
    qed (use s(2-4,6) in \<open>simp_all add: zip_map_fst_snd\<close>)
  qed
  let ?Z = "zip xs ys"
  let ?r = "take (length r) (drop ?b ?Z)"
  have len: "length ?Z = length Z" using s(2,3) by simp
  have split: "?Z = A @ ?r @ B"
  proof (rule nth_equalityI)
    show "length ?Z = length (A @ ?r @ B)" using len Z by simp
    fix k assume k: "k < length ?Z"
    consider "k < ?b" | "?b \<le> k" "k < ?e" | "?e \<le> k" by linarith
    then show "?Z ! k = (A @ ?r @ B) ! k"
    proof cases
      case 2
      then have "k - ?b < length r" by simp
      then show ?thesis using 2 k len Z by (simp add: nth_append)
    next
      case 1
      then show ?thesis using s(5) [of k] Z by (simp add: nth_append)
    next
      case 3
      moreover have "length ?r = length r" "\<not> k - ?b < length r" using 3 len Z by simp_all
      ultimately show ?thesis using s(5) [of k] Z by (simp add: nth_append)
    qed
  qed
  have xy: "xs = map fst ?Z" "ys = map snd ?Z" using s(2,3) by simp_all
  have "mset (A @ ?r @ B) = mset (A @ r @ B)"
    using s(4) unfolding split [symmetric] Z .
  then have "mset ?r = mset r" by simp
  moreover have "sorted (map fst ?r)"
  proof (rule sorted_iff_nth_mono_less [THEN iffD2], intro allI impI)
    fix i k assume "i < k" "k < length (map fst ?r)"
    then show "map fst ?r ! i \<le> map fst ?r ! k"
      using s(6) [of "int (?b + i)" "int (?b + k)"] s(2,3) Z by (simp add: nat_add_distrib)
  qed
  ultimately show ?thesis using s(1) split xy by metis
qed

lemma sort_by_high_index_ex:
  fixes R :: "(lo \<times> i8) list list"
  shows "\<exists>R'. sort_by_high_index (offsets (sizes R)) (map fst (concat R)) (map snd (concat R)) =
      Some (map fst (concat R'), map snd (concat R')) \<and> length R' = length R \<and>
    (\<forall>a < length R. mset (R' ! a) = mset (R ! a) \<and> sorted (map fst (R' ! a)))"
proof -
  let ?f = "\<lambda>l arrays. do {
       begin_l \<leftarrow> rd (offsets (sizes R)) l;
       end_l \<leftarrow> rd (offsets (sizes R)) (l + 1);
       sort_row begin_l end_l arrays
     }"
  let ?P = "\<lambda>n arrays. \<exists>R'. arrays = (map fst (concat R'), map snd (concat R')) \<and> length R' = length R \<and>
    (\<forall>a < length R. mset (R' ! a) = mset (R ! a) \<and> (int a < n \<longrightarrow> sorted (map fst (R' ! a))))"
  have "\<exists>s. parallel_for (int (length R)) ?f (map fst (concat R), map snd (concat R)) = Some s \<and> ?P (int (length R)) s"
  proof (rule parallel_for_rule)
    show "?P 0 (map fst (concat R), map snd (concat R))" by auto
    fix l arrays assume l: "0 \<le> l" "l < int (length R)" and "?P l arrays"
    then obtain R1 where R1: "arrays = (map fst (concat R1), map snd (concat R1))" "length R1 = length R"
      "\<And>a. a < length R \<Longrightarrow> mset (R1 ! a) = mset (R ! a) \<and> (int a < l \<longrightarrow> sorted (map fst (R1 ! a)))"
      by blast
    obtain a where a: "l = int a" "a < length R" using l by (metis zero_le_imp_eq_int of_nat_less_iff)
    let ?A = "concat (take a R1)" and ?B = "concat (drop (Suc a) R1)"
    have Z: "concat R1 = ?A @ R1 ! a @ ?B"
      using a(2) R1(2) by (metis append_take_drop_id concat.simps(2) concat_append Cons_nth_drop_Suc)
    obtain r' where r': "sort_row (int (length ?A)) (int (length ?A + length (R1 ! a))) arrays =
        Some (map fst (?A @ r' @ ?B), map snd (?A @ r' @ ?B))"
      "mset r' = mset (R1 ! a)" "sorted (map fst r')"
      using sort_row_segment [OF Z] R1(1) by blast
    let ?R' = "R1[a := r']"
    have "concat ?R' = ?A @ r' @ ?B"
      using a(2) R1(2) by (simp add: upd_conv_take_nth_drop)
    moreover have "length ?A = row_start R a"
    proof -
      have "map length (take a R1) = map length (take a R)"
        using R1(2) mset_eq_length [OF conjunct1 [OF R1(3)]] a(2) by (intro nth_equalityI) auto
      then show ?thesis by (simp add: row_start_def length_concat)
    qed
    moreover have "length (R1 ! a) = length (R ! a)" using R1(3) [OF a(2)] by (metis mset_eq_length)
    ultimately have "?f l arrays = Some (map fst (concat ?R'), map snd (concat ?R'))"
      using r'(1) a by (simp add: row_reads nth_offsets_sizes)
    moreover have "?P (l + 1) (map fst (concat ?R'), map snd (concat ?R'))"
      using R1(2,3) r'(2,3) a by (intro exI [of _ ?R']) (auto simp: nth_list_update)
    ultimately show "\<exists>s'. ?f l arrays = Some s' \<and> ?P (l + 1) s'" by blast
  qed simp_all
  then show ?thesis by (auto simp: sort_by_high_index_def)
qed

text \<open>When no two entries of a row have the same upper entity, the sorted row is the only one.\<close>

lemma sort_by_high_index_eq:
  fixes R S :: "(lo \<times> i8) list list"
  assumes "length S = length R"
    and "\<And>a. a < length R \<Longrightarrow> mset (S ! a) = mset (R ! a) \<and> sorted (map fst (S ! a)) \<and> distinct (map fst (S ! a))"
  shows "sort_by_high_index (offsets (sizes R)) (map fst (concat R)) (map snd (concat R)) =
      Some (map fst (concat S), map snd (concat S))"
proof -
  obtain R' where R': "sort_by_high_index (offsets (sizes R)) (map fst (concat R)) (map snd (concat R)) =
      Some (map fst (concat R'), map snd (concat R'))" "length R' = length R"
    "\<And>a. a < length R \<Longrightarrow> mset (R' ! a) = mset (R ! a) \<and> sorted (map fst (R' ! a))"
    using sort_by_high_index_ex [of R] by blast
  have "R' = S"
  proof (rule nth_equalityI)
    show "length R' = length S" using R'(2) assms(1) by simp
    fix a assume "a < length R'"
    then have a: "a < length R" using R'(2) by simp
    have m: "mset (R' ! a) = mset (S ! a)" using R'(3) [OF a] assms(2) [OF a] by simp
    have "inj_on fst (set (S ! a))" using assms(2) [OF a] by (simp add: distinct_map)
    moreover have "set (R' ! a) = set (S ! a)" using m by (rule mset_eq_setD)
    ultimately have "R' ! a = S ! a"
      using m R'(3) [OF a] assms(2) [OF a] mset_eq_imp_distinct_iff [OF m]
      by (intro map_sorted_distinct_set_unique [of fst]) (auto simp: distinct_map)
    then show "R' ! a = S ! a" .
  qed
  with R'(1) show ?thesis by simp
qed

section \<open>Inversion\<close>

lemma fill_two_arrays:
  assumes f: "\<And>i xs ys. i < n \<Longrightarrow> length xs = n \<Longrightarrow> length ys = n \<Longrightarrow>
      f (int i) (xs, ys) = Some (xs[i := Some (h i)], ys[i := Some (g i)])"
  shows "parallel_for (int n) f (fresh (int n), fresh (int n)) =
    Some (map Some (map h [0..<n]), map Some (map g [0..<n]))"
proof -
  let ?P = "\<lambda>k (xs, ys). length xs = n \<and> length ys = n \<and>
    (\<forall>i < n. int i < k \<longrightarrow> xs ! i = Some (h i) \<and> ys ! i = Some (g i))"
  have "\<exists>s. parallel_for (int n) f (fresh (int n), fresh (int n)) = Some s \<and> ?P (int n) s"
  proof (rule parallel_for_rule [where P = ?P])
    fix k s assume k: "0 \<le> k" "k < int n" and P: "?P k s"
    obtain xs ys where s: "s = (xs, ys)" by (cases s)
    obtain i where i: "k = int i" "i < n" using k by (metis zero_le_imp_eq_int of_nat_less_iff)
    have "?P (k + 1) (xs[i := Some (h i)], ys[i := Some (g i)])"
      using P i by (auto simp: s nth_list_update)
    then show "\<exists>s'. f k s = Some s' \<and> ?P (k + 1) s'"
      using f [OF i(2), of xs ys] P by (simp add: s i(1))
  qed auto
  then obtain xs ys where "parallel_for (int n) f (fresh (int n), fresh (int n)) = Some (xs, ys)"
    and P: "?P (int n) (xs, ys)" by auto
  moreover from P have "xs = map Some (map h [0..<n])" "ys = map Some (map g [0..<n])"
    by (auto intro!: nth_equalityI)
  ultimately show ?thesis by simp
qed

text \<open>What the upward adjacency records about the downward entry \<open>hl\<close>.\<close>

definition up_code :: "i8 list option \<Rightarrow> int \<Rightarrow> lo \<Rightarrow> i8" where
  "up_code down_codes n hl =
     (case down_codes of
        Some cs \<Rightarrow> make_code (code_is_flipped (cs ! nat hl)) (code_rotation (cs ! nat hl)) (hl mod n)
      | None \<Rightarrow> make_code False 0 (hl mod n))"

definition up_pair :: "i8 list option \<Rightarrow> int \<Rightarrow> lo \<Rightarrow> lo \<times> i8" where
  "up_pair down_codes n hl = (hl div n, up_code down_codes n hl)"

lemma map_nth_pairs:
  "map (\<lambda>i. f (xs ! i)) [0..<length xs] = map f xs"
  by (rule nth_equalityI) simp_all

lemma separate_upward_eq:
  assumes n: "0 < n" and rng: "\<And>hl. hl \<in> set xs \<Longrightarrow> 0 \<le> hl"
    and cs: "\<And>cs hl. dc = Some cs \<Longrightarrow> hl \<in> set xs \<Longrightarrow> hl < asize cs"
  shows "(case dc of
         Some down_codes \<Rightarrow> separate_upward_with_codes (asize xs) xs n (fresh (asize xs)) down_codes (fresh (asize xs))
       | None \<Rightarrow> separate_upward_no_codes (asize xs) xs n (fresh (asize xs)) (fresh (asize xs))) =
     Some (map Some (map (fst \<circ> up_pair dc n) xs), map Some (map (snd \<circ> up_pair dc n) xs))"
proof -
  let ?m = "length xs"
  have cell: "0 \<le> xs ! i" if "i < ?m" for i using rng that by simp
  show ?thesis
  proof (cases dc)
    case None
    have "separate_upward_no_codes (int ?m) xs n (fresh (int ?m)) (fresh (int ?m)) =
        Some (map Some (map (\<lambda>i. (fst \<circ> up_pair None n) (xs ! i)) [0..<?m]),
              map Some (map (\<lambda>i. (snd \<circ> up_pair None n) (xs ! i)) [0..<?m]))"
      unfolding separate_upward_no_codes_def
      by (rule fill_two_arrays)
        (use n in \<open>simp add: up_pair_def up_code_def sdiv_nonneg smod_nonneg cell Let_def\<close>)
    then show ?thesis unfolding map_nth_pairs by (simp add: None asize_def)
  next
    case (Some cs1)
    have code: "rd cs1 (xs ! i) = Some (cs1 ! nat (xs ! i))" if "i < ?m" for i
      using cs [OF Some, of "xs ! i"] cell [OF that] that by (simp add: rd_Some)
    have "separate_upward_with_codes (int ?m) xs n (fresh (int ?m)) cs1 (fresh (int ?m)) =
        Some (map Some (map (\<lambda>i. (fst \<circ> up_pair (Some cs1) n) (xs ! i)) [0..<?m]),
              map Some (map (\<lambda>i. (snd \<circ> up_pair (Some cs1) n) (xs ! i)) [0..<?m]))"
      unfolding separate_upward_with_codes_def
      by (rule fill_two_arrays)
        (use n in \<open>simp add: up_pair_def up_code_def sdiv_nonneg smod_nonneg cell code Let_def\<close>)
    then show ?thesis unfolding map_nth_pairs by (simp add: Some asize_def)
  qed
qed

lemma strict_uppers:
  assumes n: "0 < (n :: int)" and s: "sorted_wrt (<) hls"
    and d: "\<And>a b. a \<in> set hls \<Longrightarrow> b \<in> set hls \<Longrightarrow> a div n = b div n \<Longrightarrow> a = b"
  shows "sorted (map (\<lambda>a. a div n) hls) \<and> distinct (map (\<lambda>a. a div n) hls)"
proof -
  have "a div n < b div n" if "a \<in> set hls" "b \<in> set hls" "a < b" for a b
    using d [OF that(1,2)] zdiv_mono1 [of a b n] n that(3) by fastforce
  then have "sorted_wrt (<) (map (\<lambda>a. a div n) hls)"
    unfolding sorted_wrt_map by (intro sorted_wrt_mono_rel [OF _ s])
  then show ?thesis by (simp add: strict_sorted_iff)
qed

lemma invert_adj_body_eq:
  assumes n: "0 < n" and nlows: "0 \<le> nlows" and rng: "\<And>l. l \<in> set (ab2b down) \<Longrightarrow> 0 \<le> l \<and> l < nlows"
    and cs: "\<And>cs. adj_codes down = Some cs \<Longrightarrow> asize cs = asize (ab2b down)"
    and inj: "\<And>i j. 0 \<le> i \<Longrightarrow> i < asize (ab2b down) \<Longrightarrow> 0 \<le> j \<Longrightarrow> j < asize (ab2b down) \<Longrightarrow>
      i div n = j div n \<Longrightarrow> ab2b down ! nat i = ab2b down ! nat j \<Longrightarrow> i = j"
    and o1: "mset count_order = mset [0..asize (ab2b down) - 1]"
    and o2: "mset fill_order = mset [0..asize (ab2b down) - 1]"
  shows "invert_adj_body count_order fill_order down n nlows =
    (let F = fibres [0..asize (ab2b down) - 1] (ab2b down) nlows
     in Some \<lparr>a2ab = offsets (sizes F), ab2b = map (\<lambda>hl. hl div n) (concat F),
              adj_codes = Some (map (up_code (adj_codes down) n) (concat F))\<rparr>)"
proof -
  let ?d = "ab2b down" and ?dc = "adj_codes down"
  let ?F = "fibres [0..asize ?d - 1] ?d nlows" and ?G = "fibres fill_order ?d nlows"
  let ?R = "map (map (up_pair ?dc n)) ?G" and ?S = "map (map (up_pair ?dc n)) ?F"
  have mem: "0 \<le> hl \<and> hl < asize ?d" if "hl \<in> set (concat ?G)" for hl
    using that mset_eq_setD [OF o2] by (auto simp: fibres_def)
  have inv: "invert_map_by_atomics count_order fill_order ?d nlows = Some (graph_of ?G)"
    by (rule invert_map_by_atomics_eq [OF rng nlows o1 o2])
  have sep: "(case ?dc of
         Some down_codes \<Rightarrow> separate_upward_with_codes (asize (concat ?G)) (concat ?G) n
           (fresh (asize (concat ?G))) down_codes (fresh (asize (concat ?G)))
       | None \<Rightarrow> separate_upward_no_codes (asize (concat ?G)) (concat ?G) n
           (fresh (asize (concat ?G))) (fresh (asize (concat ?G)))) =
     Some (map Some (map (fst \<circ> up_pair ?dc n) (concat ?G)), map Some (map (snd \<circ> up_pair ?dc n) (concat ?G)))"
    by (rule separate_upward_eq [OF n]) (use mem cs in auto)
  have flat: "map (fst \<circ> up_pair ?dc n) (concat ?G) = map fst (concat ?R)"
    "map (snd \<circ> up_pair ?dc n) (concat ?G) = map snd (concat ?R)"
    by (simp_all add: map_concat comp_def)
  have sizes: "sizes ?G = sizes ?R" by (simp add: sizes_def comp_def)
  have srt: "sort_by_high_index (offsets (sizes ?R)) (map fst (concat ?R)) (map snd (concat ?R)) =
      Some (map fst (concat ?S), map snd (concat ?S))"
  proof (rule sort_by_high_index_eq)
    show "length ?S = length ?R" using nlows by simp
    fix b assume "b < length ?R"
    then have b: "b < nat nlows" using nlows by simp
    let ?hls = "filter (\<lambda>a. ?d ! nat a = int b) [0..asize ?d - 1]"
    have row: "?S ! b = map (up_pair ?dc n) ?hls" using b nlows by (simp add: nth_fibres)
    have "mset (?S ! b) = mset (?R ! b)" using b nlows by (simp add: nth_fibres o2)
    moreover have "sorted (map (\<lambda>a. a div n) ?hls) \<and> distinct (map (\<lambda>a. a div n) ?hls)"
    proof (rule strict_uppers [OF n])
      show "sorted_wrt (<) ?hls" by (rule sorted_wrt_filter) (simp add: strict_sorted_iff)
      show "a = c" if "a \<in> set ?hls" "c \<in> set ?hls" "a div n = c div n" for a c
      proof (rule inj)
        have "0 \<le> x \<and> x < asize ?d \<and> ?d ! nat x = int b" if "x \<in> set ?hls" for x
          using that by simp
        note m = this [OF that(1)] this [OF that(2)]
        show "0 \<le> a" "a < asize ?d" "0 \<le> c" "c < asize ?d" using m by blast+
        have "?d ! nat a = int b" "?d ! nat c = int b" using m by blast+
        then show "?d ! nat a = ?d ! nat c" by (rule trans [OF _ sym])
      qed (rule that(3))
    qed
    ultimately show "mset (?S ! b) = mset (?R ! b) \<and> sorted (map fst (?S ! b)) \<and> distinct (map fst (?S ! b))"
      unfolding row by (simp add: comp_def up_pair_def)
  qed
  have osz: "offsets (sizes ?R) = offsets (sizes ?F)"
    unfolding sizes [symmetric] by (rule arg_cong [OF sizes_fibres_mset]) (rule o2)
  have out: "map fst (concat ?S) = map (\<lambda>hl. hl div n) (concat ?F)"
    "map snd (concat ?S) = map (up_code ?dc n) (concat ?F)"
    by (simp_all add: map_concat comp_def up_pair_def)
  have "invert_adj_body count_order fill_order down n nlows = do {
      (lh2h, codes2) \<leftarrow> sort_by_high_index (offsets (sizes ?G)) (map fst (concat ?R)) (map snd (concat ?R));
      Some \<lparr>a2ab = offsets (sizes ?G), ab2b = lh2h, adj_codes = Some codes2\<rparr> }"
    by (simp only: invert_adj_body_def inv Option.bind.simps Let_def graph_of_simps alloc_nonneg
        asize_ge0 sep prod.case freeze_map_Some flat)
  also have "\<dots> = Some \<lparr>a2ab = offsets (sizes ?F), ab2b = map (\<lambda>hl. hl div n) (concat ?F),
      adj_codes = Some (map (up_code ?dc n) (concat ?F))\<rparr>"
    unfolding sizes unfolding srt unfolding osz out by simp
  finally show ?thesis by (simp only: Let_def)
qed

lemma up_code_fields:
  assumes "0 < n" "n \<le> 16" "0 \<le> hl"
  shows "code_which_down (up_code dc n hl) = hl mod n"
    and "code_is_flipped (up_code (Some cs) n hl) = code_is_flipped (cs ! nat hl)"
    and "code_rotation (up_code (Some cs) n hl) = code_rotation (cs ! nat hl)"
proof -
  have m: "0 \<le> hl mod n" "hl mod n < 16" using assms pos_mod_bound [of n hl] by (simp, linarith)
  show "code_which_down (up_code dc n hl) = hl mod n"
    using m code_rotation_bounds by (cases dc) (simp_all add: up_code_def code_fields_make_code)
  show "code_is_flipped (up_code (Some cs) n hl) = code_is_flipped (cs ! nat hl)"
    "code_rotation (up_code (Some cs) n hl) = code_rotation (cs ! nat hl)"
    using m code_rotation_bounds by (simp_all add: up_code_def code_fields_make_code)
qed

section \<open>Gathering adjacencies\<close>

text \<open>An upward adjacency as rows of entities and rows of codes.\<close>

definition adj_of :: "lo list list \<Rightarrow> i8 list list \<Rightarrow> adj" where
  "adj_of R C = \<lparr>a2ab = offsets (sizes R), ab2b = concat R, adj_codes = Some (concat C)\<rparr>"

lemma two_copy_loop:
  assumes "q + n \<le> length xs" "q + n \<le> length cs" "p + n \<le> length s" "p + n \<le> length t"
  shows "for_range (int p) (int p + int n)
      (\<lambda>i (k, s, t). do { v \<leftarrow> rd xs k; s \<leftarrow> wr s i (Some v); c \<leftarrow> rd cs k; t \<leftarrow> wr t i (Some c); Some (k + 1, s, t) })
      (int q, s, t) =
    Some (int q + int n, overwrite s p (take n (drop q xs)), overwrite t p (take n (drop q cs)))"
  using assms
proof (induction n)
  case 0
  then show ?case by simp
next
  case (Suc n)
  let ?f = "\<lambda>i (k, s, t). do { v \<leftarrow> rd xs k; s \<leftarrow> wr s i (Some v); c \<leftarrow> rd cs k; t \<leftarrow> wr t i (Some c); Some (k + 1, s, t) }"
  have IH: "for_range (int p) (int p + int n) ?f (int q, s, t) =
      Some (int q + int n, overwrite s p (take n (drop q xs)), overwrite t p (take n (drop q cs)))"
    using Suc.prems by (intro Suc.IH) auto
  have v: "rd xs (int q + int n) = Some (xs ! (q + n))" "rd cs (int q + int n) = Some (cs ! (q + n))"
    using Suc.prems(1,2) rd_int [of "q + n" xs] rd_int [of "q + n" cs] by simp_all
  have step: "wr (overwrite u p (take n (drop q ys))) (int p + int n) (Some (ys ! (q + n))) =
      Some (overwrite u p (take (Suc n) (drop q ys)))"
    if "q + Suc n \<le> length ys" "p + Suc n \<le> length u" for u :: "'x option list" and ys
  proof -
    have len: "length (take n (drop q ys)) = n" using that(1) by simp
    then show ?thesis
      using that overwrite_snoc [of p "take n (drop q ys)" u "ys ! (q + n)"]
        wr_int [of "p + n" "overwrite u p (take n (drop q ys))"]
      unfolding len by (simp add: take_Suc_conv_app_nth)
  qed
  have "int p + int (Suc n) = int p + int n + 1" "int q + int (Suc n) = int q + int n + 1" by simp_all
  then show ?case
    using for_range_snoc [of "int p" "int p + int n" ?f "(int q, s, t)"] IH v
      step [OF Suc.prems(1,3)] step [OF Suc.prems(2,4)] by (simp only:) simp
qed

lemma unmap_adjacency_eq:
  assumes sz: "sizes R = sizes C" and rng: "\<And>b. b \<in> set a2b \<Longrightarrow> 0 \<le> b \<and> b < int (length R)"
  shows "unmap_adjacency a2b (adj_of R C) =
    Some (adj_of (map (\<lambda>b. R ! nat b) a2b) (map (\<lambda>b. C ! nat b) a2b))"
proof -
  let ?T = "map (\<lambda>b. R ! nat b) a2b" and ?U = "map (\<lambda>b. C ! nat b) a2b"
  have lenC: "length R = length C" using sz by (metis length_sizes)
  have row: "nat b < length R \<and> nat b < length C" if "b \<in> set a2b" for b
    using rng [OF that] lenC by (simp add: nat_less_iff)
  have rowlen: "length (C ! a) = length (R ! a)" if "a < length R" for a
    using nth_sizes [OF that] nth_sizes [of a C] that lenC sz by simp
  have start: "row_start C a = row_start R a" if "a \<le> length R" for a
    using nth_offsets_sizes [OF that] nth_offsets_sizes [of a C] that lenC sz by simp
  have szTU: "sizes ?T = sizes ?U"
    using row rowlen by (auto simp: sizes_def)
  have startTU: "row_start ?U a = row_start ?T a" if "a \<le> length a2b" for a
    using nth_offsets_sizes [of a ?T] nth_offsets_sizes [of a ?U] that szTU by simp
  have cU: "length (concat ?U) = length (concat ?T)"
    using sum_sizes [of ?T] sum_sizes [of ?U] szTU by simp
  have degs: "unmap a2b (sizes R) 1 = Some (sizes ?T)"
    using rng by (subst unmap_1) (auto simp: sizes_def asize_def nat_less_iff)
  let ?f = "\<lambda>a (ac2c, ac_codes). do {
       b \<leftarrow> rd a2b a;
       bc \<leftarrow> rd (offsets (sizes R)) b;
       ac0 \<leftarrow> rd (offsets (sizes ?T)) a;
       ac1 \<leftarrow> rd (offsets (sizes ?T)) (a + 1);
       (bc, ac2c, ac_codes) \<leftarrow> for_range ac0 ac1 (\<lambda>ac (bc, ac2c, ac_codes). do {
         c \<leftarrow> rd (concat R) bc;
         ac2c \<leftarrow> wr ac2c ac (Some c);
         code \<leftarrow> rd (concat C) bc;
         ac_codes \<leftarrow> wr ac_codes ac (Some code);
         Some (bc + 1, ac2c, ac_codes)
       }) (bc, ac2c, ac_codes);
       Some (ac2c, ac_codes)
     }"
  have step: "?f (int a) (s, t) = Some (overwrite s (row_start ?T a) (?T ! a), overwrite t (row_start ?T a) (?U ! a))"
    if a: "a < length a2b" and len: "length s = length (concat ?T)" "length t = length (concat ?T)" for a s t
  proof -
    obtain v where v: "a2b ! a = int v" "v < length R"
      using rng [of "a2b ! a"] a by (metis nth_mem zero_le_imp_eq_int of_nat_less_iff)
    have aT: "a < length ?T" using a by simp
    have vC: "v < length C" using v(2) lenC by simp
    have T: "?T ! a = R ! v" "?U ! a = C ! v" using a v(1) by simp_all
    have fits: "row_start R v + length (R ! v) \<le> length (concat C)"
      using row_fits [OF vC] rowlen [OF v(2)] start [of v] v(2) by simp
    have "for_range (int (row_start ?T a)) (int (row_start ?T a) + int (length (R ! v)))
        (\<lambda>i (k, s, t). do { w \<leftarrow> rd (concat R) k; s \<leftarrow> wr s i (Some w); c \<leftarrow> rd (concat C) k;
           t \<leftarrow> wr t i (Some c); Some (k + 1, s, t) })
        (int (row_start R v), s, t) =
      Some (int (row_start R v) + int (length (R ! v)), overwrite s (row_start ?T a) (R ! v),
        overwrite t (row_start ?T a) (C ! v))"
      using two_copy_loop [of "row_start R v" "length (R ! v)" "concat R" "concat C" "row_start ?T a" s t]
        row_fits [OF v(2)] fits row_fits [OF aT] len T take_row [OF v(2)] take_row [OF vC]
        rowlen [OF v(2)] start [of v] v(2) by simp
    moreover have "rd (offsets (sizes R)) (int v) = Some (int (row_start R v))"
      using rd_offsets_sizes [of v R] v(2) by simp
    ultimately show ?thesis
      using a T v(1) by (simp add: row_reads nth_offsets_sizes)
  qed
  let ?P = "\<lambda>n (s, t). length s = length (concat ?T) \<and> length t = length (concat ?T) \<and>
    (\<forall>a < length a2b. int a < n \<longrightarrow> (\<forall>k < length (?T ! a).
       s ! (row_start ?T a + k) = Some (?T ! a ! k) \<and> t ! (row_start ?T a + k) = Some (?U ! a ! k)))"
  have "\<exists>st. parallel_for (int (length a2b)) ?f
      (fresh (int (length (concat ?T))), fresh (int (length (concat ?T)))) = Some st \<and> ?P (int (length a2b)) st"
  proof (rule parallel_for_rule [where P = ?P])
    fix n st assume n: "0 \<le> n" "n < int (length a2b)" and P: "?P n st"
    obtain s t where st: "st = (s, t)" by (cases st)
    obtain a where a: "n = int a" "a < length a2b" using n by (metis zero_le_imp_eq_int of_nat_less_iff)
    have aT: "a < length ?T" "a < length ?U" using a by simp_all
    have len: "length s = length (concat ?T)" "length t = length (concat ?T)" using P by (simp_all add: st)
    have U: "length (?U ! a) = length (?T ! a)" using a(2) row rowlen by simp
    let ?s = "overwrite s (row_start ?T a) (?T ! a)" and ?t = "overwrite t (row_start ?T a) (?U ! a)"
    have fs: "row_start ?T a + length (?T ! a) \<le> length s" "row_start ?T a + length (?U ! a) \<le> length t"
      using row_fits [OF aT(1)] len U by simp_all
    have lens: "length ?s = length (concat ?T)" "length ?t = length (concat ?T)"
      using length_overwrite [OF fs(1)] length_overwrite [OF fs(2)] len by simp_all
    have "?s ! (row_start ?T b + k) = Some (?T ! b ! k) \<and> ?t ! (row_start ?T b + k) = Some (?U ! b ! k)"
      if b: "b < length a2b" "int b < n + 1" "k < length (?T ! b)" for b k
    proof (cases "b = a")
      case True
      then show ?thesis
        using nth_overwrite(1) [OF fs(1), of k] nth_overwrite(1) [OF fs(2), of k] b(3) U by simp
    next
      case False
      then have ba: "b < a" using b a by simp
      have "row_start ?T b + k < row_start ?T a"
        using row_start_mono [of "Suc b" a ?T] b ba by (simp add: row_start_Suc)
      then show ?thesis
        using nth_overwrite(2) [OF fs(1)] nth_overwrite(2) [OF fs(2)] P b ba a(1) by (simp add: st)
    qed
    then have "?P (n + 1) (?s, ?t)" using lens by simp
    then show "\<exists>st'. ?f n st = Some st' \<and> ?P (n + 1) st'"
      unfolding st a(1) using step [OF a(2) len] by blast
  qed auto
  then obtain s t where loop: "parallel_for (int (length a2b)) ?f
      (fresh (int (length (concat ?T))), fresh (int (length (concat ?T)))) = Some (s, t)"
    and P: "?P (int (length a2b)) (s, t)" by auto
  have fr: "freeze s = Some (concat ?T)"
    by (rule freeze_concat) (use P in auto)
  have "freeze t = Some (concat ?U)"
  proof (rule freeze_concat)
    show "length t = length (concat ?U)" using P cU by simp
    fix a k assume a: "a < length ?U" "k < length (?U ! a)"
    then have "k < length (?T ! a)" using row rowlen by simp
    then show "t ! (row_start ?U a + k) = Some (?U ! a ! k)"
      using P a startTU [of a] by simp
  qed
  then show ?thesis using fr loop
    by (simp add: unmap_adjacency_def adj_of_def degs offset_scan_eq Let_def asize_def [of a2b])
qed

section \<open>Parents and children\<close>





section \<open>Properties\<close>

text \<open>C10. Inverting a downward adjacency: for every schedule of the atomic operations \<open>invert_adj\<close>
  succeeds with the same result, as long as the lower entities of one upper entity are distinct.  Row
  \<open>l\<close> lists the upper entities that have \<open>l\<close> on their boundary in increasing order, and the code
  stored with an entry says where \<open>l\<close> is on that boundary, with the flip and the rotation of the
  downward code.\<close>

theorem invert_adj_rows:
  assumes "0 < n" "n \<le> 16" "0 \<le> nlows" "\<forall>l \<in> set (ab2b down). 0 \<le> l \<and> l < nlows"
    and "adj_codes down = Some cs" "asize cs = asize (ab2b down)"
    and "\<forall>i j. 0 \<le> i \<and> i < asize (ab2b down) \<and> 0 \<le> j \<and> j < asize (ab2b down) \<and> i div n = j div n \<and>
      ab2b down ! nat i = ab2b down ! nat j \<longrightarrow> i = j"
    and "mset count_order = mset [0..asize (ab2b down) - 1]" "mset fill_order = mset [0..asize (ab2b down) - 1]"
    and "high_dim \<in> {0..3}" "low_dim \<in> {0..3}"
  shows "\<exists>up F C. invert_adj count_order fill_order down n nlows high_dim low_dim = Some up \<and>
    graph.truncate up = graph_of (map (map (\<lambda>hl. hl div n)) F) \<and>
    adj_codes up = Some (map C (concat F)) \<and>
    F = map (\<lambda>l. filter (\<lambda>hl. ab2b down ! nat hl = l) [0..asize (ab2b down) - 1]) [0..nlows - 1] \<and>
    (\<forall>hl. 0 \<le> hl \<longrightarrow> code_which_down (C hl) = hl mod n \<and>
       code_is_flipped (C hl) = code_is_flipped (cs ! nat hl) \<and>
       code_rotation (C hl) = code_rotation (cs ! nat hl))"
proof -
  let ?F = "fibres [0..asize (ab2b down) - 1] (ab2b down) nlows"
  have rng: "0 \<le> l \<and> l < nlows" if "l \<in> set (ab2b down)" for l using assms(4) that by blast
  have inj: "i = j" if "0 \<le> i" "i < asize (ab2b down)" "0 \<le> j" "j < asize (ab2b down)"
      "i div n = j div n" "ab2b down ! nat i = ab2b down ! nat j" for i j
    using assms(7) that by blast
  have cs: "asize c = asize (ab2b down)" if "adj_codes down = Some c" for c using that assms(5,6) by simp
  have dims: "dimensional_plural_name d \<noteq> None" "dimensional_singular_name d \<noteq> None" if "d \<in> {0..3}" for d
    using that by (auto simp: dimensional_plural_name_def dimensional_singular_name_def)
  have "invert_adj_body count_order fill_order down n nlows =
    Some \<lparr>a2ab = offsets (sizes ?F), ab2b = map (\<lambda>hl. hl div n) (concat ?F),
          adj_codes = Some (map (up_code (adj_codes down) n) (concat ?F))\<rparr>"
  proof (rule invert_adj_body_eq [unfolded Let_def])
    show "i = j" if "0 \<le> i" "i < asize (ab2b down)" "0 \<le> j" "j < asize (ab2b down)"
      "i div n = j div n" "ab2b down ! nat i = ab2b down ! nat j" for i j
      using inj [OF that] .
    show "0 \<le> l \<and> l < nlows" if "l \<in> set (ab2b down)" for l using rng [OF that] .
    show "asize c = asize (ab2b down)" if "adj_codes down = Some c" for c using cs [OF that] .
  qed (fact assms)+
  then have "invert_adj count_order fill_order down n nlows high_dim low_dim =
    Some \<lparr>a2ab = offsets (sizes ?F), ab2b = map (\<lambda>hl. hl div n) (concat ?F),
          adj_codes = Some (map (up_code (Some cs) n) (concat ?F))\<rparr>"
    using dims [OF assms(10)] dims [OF assms(11)] assms(5) by (auto simp: invert_adj_def)
  moreover have "sizes (map (map (\<lambda>hl. hl div n)) ?F) = sizes ?F" by (simp add: sizes_def comp_def)
  ultimately show ?thesis
    using up_code_fields [OF assms(1,2)]
    by (intro exI [of _ ?F] exI [of _ "up_code (Some cs) n"] exI) (auto simp: graph.truncate_def graph_of_def map_concat fibres_def)
qed

theorem invert_adj_rows_witness:
  "\<exists>up. invert_adj [0, 1, 2, 3, 4, 5] [4, 1, 5, 0, 2, 3]
       \<lparr>a2ab = [], ab2b = [0, 2, 1, 1, 2, 3], adj_codes = Some (replicate 6 (make_code True 1 0))\<rparr> 3 4 2 1 = Some up \<and>
     ab2b up = [0, 0, 1, 0, 1, 1]"
proof -
  let ?d = "\<lparr>a2ab = [], ab2b = [0, 2, 1, 1, 2, 3], adj_codes = Some (replicate 6 (make_code True 1 0))\<rparr>"
  have upto: "[0..5] = [0, 1, 2, 3, 4, 5::int]" "[0..3] = [0, 1, 2, 3::int]" by code_simp+
  have inj: "\<forall>i j. 0 \<le> i \<and> i < asize (ab2b ?d) \<and> 0 \<le> j \<and> j < asize (ab2b ?d) \<and> i div 3 = j div 3 \<and>
      ab2b ?d ! nat i = ab2b ?d ! nat j \<longrightarrow> i = j"
  proof -
    have "\<forall>i \<in> set [0..5]. \<forall>j \<in> set [0..5]. i div 3 = j div 3 \<and>
       [0, 2, 1, 1, 2, 3 :: int] ! nat i = [0, 2, 1, 1, 2, 3] ! nat j \<longrightarrow> i = (j :: int)" by code_simp
    then show ?thesis by simp
  qed
  obtain up F where "invert_adj [0, 1, 2, 3, 4, 5] [4, 1, 5, 0, 2, 3] ?d 3 4 2 1 = Some up"
    "graph.truncate up = graph_of (map (map (\<lambda>hl. hl div 3)) F)"
    "F = map (\<lambda>l. filter (\<lambda>hl. ab2b ?d ! nat hl = l) [0..5]) [0..3]"
    using invert_adj_rows [of 3 4 ?d "replicate 6 (make_code True 1 0)" "[0, 1, 2, 3, 4, 5]" "[4, 1, 5, 0, 2, 3]" 2 1,
        OF _ _ _ _ _ _ inj] by (auto simp: upto)
  then show ?thesis by (auto simp: upto graph.truncate_def graph_of_def)
qed



end
