(* ===== verification/Align_Rows.thy ===== *)
theory Align_Rows
  imports Align Map_Ops
begin

text \<open>
  Alignment codes acting on vertex lists.  \<open>align_row n c r\<close> is the list of \<open>n\<close> vertices that the
  code \<open>c\<close> makes of the list \<open>r\<close>; \<open>same_entity n r s\<close> says that the two lists describe the same entity:
  some code turns one into the other.  \<open>canonical\<close> characterises one list of every such class, the one
  that starts with the least vertex and goes on towards its smaller neighbour.  The lemmas show that
  \<open>same_entity\<close> is an equivalence and that a class of lists without repetitions has one canonical list.
\<close>

section \<open>The action on lists\<close>

definition align_row :: "int \<Rightarrow> i8 \<Rightarrow> 'a list \<Rightarrow> 'a list" where
  "align_row n c r = map (\<lambda>i. r ! nat (align_vert_index n i (invert_alignment n c))) [0..n - 1]"

definition same_entity :: "int \<Rightarrow> 'a list \<Rightarrow> 'a list \<Rightarrow> bool" where
  "same_entity n r s \<longleftrightarrow> (\<exists>c. s = align_row n c r)"

definition canonical :: "int \<Rightarrow> int list \<Rightarrow> bool" where
  "canonical n r \<longleftrightarrow> (\<forall>x \<in> set r. r ! 0 \<le> x) \<and> (3 \<le> n \<longrightarrow> r ! 1 \<le> r ! nat (n - 1))"

lemma asize_align_row [simp]: "0 \<le> n \<Longrightarrow> asize (align_row n c r) = n"
  by (simp add: align_row_def asize_def)

lemma length_align_row [simp]: "length (align_row n c r) = nat n"
  by (simp add: align_row_def)

lemma nth_align_row:
  "0 \<le> i \<Longrightarrow> i < n \<Longrightarrow> align_row n c r ! nat i = r ! nat (align_vert_index n i (invert_alignment n c))"
  by (simp add: align_row_def)

lemma nth_align_row_act:
  assumes "n \<in> {2, 3, 4}" "0 \<le> j" "j < n"
  shows "align_row n c r ! nat (align_vert_index n j c) = r ! nat j"
  using nth_align_row [of "align_vert_index n j c" n c r] align_index_range(1) [OF assms]
    invert_alignment_inverse(1) [OF assms] by simp

lemma align_rowI:
  assumes n: "n \<in> {2, 3, 4}" and len: "asize s = n"
    and nth: "\<And>j. 0 \<le> j \<Longrightarrow> j < n \<Longrightarrow> s ! nat (align_vert_index n j c) = r ! nat j"
  shows "s = align_row n c r"
proof (rule nth_equalityI)
  show "length s = length (align_row n c r)" using len by (simp add: asize_def)
  fix k assume "k < length s"
  then have k: "0 \<le> int k" "int k < n" using len by (simp_all add: asize_def)
  let ?j = "align_vert_index n (int k) (invert_alignment n c)"
  have "s ! nat (align_vert_index n ?j c) = r ! nat ?j"
    using align_index_range(1) [OF n k] by (intro nth) auto
  then show "s ! k = align_row n c r ! k"
    using invert_alignment_inverse(3) [OF n k] by (simp add: nth_align_row [OF k, simplified])
qed

lemma set_align_row:
  assumes "n \<in> {2, 3, 4}" "asize r = n"
  shows "set (align_row n c r) = set r"
proof
  show "set (align_row n c r) \<subseteq> set r"
  proof
    fix x assume "x \<in> set (align_row n c r)"
    then obtain i where i: "0 \<le> i" "i < n" "x = r ! nat (align_vert_index n i (invert_alignment n c))"
      by (auto simp: align_row_def)
    then show "x \<in> set r"
      using align_index_range(1) [OF assms(1) i(1,2), of "invert_alignment n c"] assms(2)
      by (simp add: nth_int_mem)
  qed
  show "set r \<subseteq> set (align_row n c r)"
  proof
    fix x assume "x \<in> set r"
    then obtain j where j: "0 \<le> j" "j < n" "r ! nat j = x" using assms(2) by (auto simp: in_set_int_conv)
    have "align_row n c r ! nat (align_vert_index n j c) \<in> set (align_row n c r)"
      using align_index_range(1) [OF assms(1) j(1,2), of c] by (intro nth_int_mem) (simp_all add: asize_def)
    then show "x \<in> set (align_row n c r)" by (simp add: nth_align_row_act [OF assms(1) j(1,2)] j(3))
  qed
qed

lemma distinct_align_row:
  assumes "n \<in> {2, 3, 4}" "asize r = n"
  shows "distinct (align_row n c r) \<longleftrightarrow> distinct r"
proof -
  have "length (align_row n c r) = length r" using assms by (simp add: asize_def)
  then show ?thesis using set_align_row [OF assms, of c] by (metis card_distinct distinct_card)
qed

subsection \<open>A group of transformations\<close>

lemma invert_alignment_act_inverse:
  assumes "n \<in> {2, 3, 4}" "0 \<le> i" "i < n"
  shows "align_vert_index n i (invert_alignment n (invert_alignment n c)) = align_vert_index n i c"
proof -
  let ?d = "invert_alignment n c"
  have r: "0 \<le> align_vert_index n i c" "align_vert_index n i c < n"
    using align_index_range(1) [OF assms] by auto
  have "align_vert_index n (align_vert_index n (align_vert_index n i c) ?d) (invert_alignment n ?d) =
      align_vert_index n i c"
    using invert_alignment_inverse(1) [OF assms(1) r] .
  then show ?thesis using invert_alignment_inverse(1) [OF assms] by simp
qed

lemma align_row_inverse:
  assumes n: "n \<in> {2, 3, 4}" and r: "asize r = n"
  shows "align_row n (invert_alignment n c) (align_row n c r) = r"
proof (rule sym, rule align_rowI [OF n r])
  fix j assume j: "0 \<le> j" "j < n"
  show "r ! nat (align_vert_index n j (invert_alignment n c)) = align_row n c r ! nat j"
    by (simp add: nth_align_row [OF j])
qed

lemma act_compound_4_table:
  "\<forall>f \<in> set [False, True]. \<forall>r \<in> set [0..3]. \<forall>f' \<in> set [False, True]. \<forall>r' \<in> set [0..3]. \<forall>i \<in> set [0..3].
     let c = invert_alignment 4 (make_code (f \<noteq> f')
               (rotation_to_first 4 (act_vert 4 f' r' (act_vert 4 f r 0))) 0)
     in act_vert 4 (code_is_flipped c) (code_rotation c) i = act_vert 4 f' r' (act_vert 4 f r i)"
  by code_simp

lemma compound_act:
  assumes "n \<in> {2, 3, 4}" "0 \<le> i" "i < n"
  shows "align_vert_index n i (compound_alignments_deg n c1 c2) =
         align_vert_index n (align_vert_index n i c1) c2"
proof (cases "n = 4")
  case True
  have i: "i \<in> set [0..3]" using assms True by simp
  note act_compound_4_table [THEN bspec, OF bool_range [of "code_is_flipped c1"],
      THEN bspec, OF code_rotation_range [of c1], THEN bspec, OF bool_range [of "code_is_flipped c2"],
      THEN bspec, OF code_rotation_range [of c2], THEN bspec, OF i]
  then show ?thesis
    by (simp add: True Let_def align_vert_index_act compound_alignments_deg_def)
next
  case False
  then show ?thesis using assms by (intro compound_alignments_deg_act) auto
qed

interpretation quad_group: composable_action 4 "\<lambda>c i. align_vert_index 4 i c"
    "invert_alignment 4" "compound_alignments_deg 4"
  by unfold_locales (simp add: compound_act)

lemma align_row_compound:
  assumes n: "n \<in> {2, 3, 4}" and r: "asize r = n"
  shows "align_row n d (align_row n c r) = align_row n (compound_alignments_deg n c d) r"
proof (rule align_rowI [OF n])
  show "asize (align_row n d (align_row n c r)) = n" using n by auto
  fix j assume j: "0 \<le> j" "j < n"
  have "0 \<le> align_vert_index n j c" "align_vert_index n j c < n" using align_index_range(1) [OF n j] by auto
  then show "align_row n d (align_row n c r) ! nat (align_vert_index n j (compound_alignments_deg n c d)) = r ! nat j"
    by (simp add: compound_act [OF n j] nth_align_row_act [OF n j] nth_align_row_act [OF n])
qed

lemma align_row_id:
  assumes "n \<in> {2, 3, 4}" "asize r = n"
  shows "align_row n (make_code False 0 0) r = r"
proof -
  have "\<forall>n \<in> set [2..4]. \<forall>j \<in> set [0..n - 1]. align_vert_index n j (make_code False 0 0) = j" by code_simp
  then have "r ! nat (align_vert_index n j (make_code False 0 0)) = r ! nat j" if "0 \<le> j" "j < n" for j
    using that assms(1) by auto
  then show ?thesis by (intro align_rowI [OF assms, symmetric])
qed

lemma same_entity_refl: "n \<in> {2, 3, 4} \<Longrightarrow> asize r = n \<Longrightarrow> same_entity n r r"
  unfolding same_entity_def by (metis align_row_id)

lemma same_entity_sym: "n \<in> {2, 3, 4} \<Longrightarrow> asize r = n \<Longrightarrow> same_entity n r s \<Longrightarrow> same_entity n s r"
  unfolding same_entity_def using align_row_inverse by metis

lemma same_entity_trans:
  "n \<in> {2, 3, 4} \<Longrightarrow> asize r = n \<Longrightarrow> same_entity n r s \<Longrightarrow> same_entity n s t \<Longrightarrow> same_entity n r t"
  unfolding same_entity_def using align_row_compound by metis

section \<open>Canonical lists\<close>

lemma act_fixing_first_table:
  "\<forall>n \<in> set [2..4]. \<forall>f \<in> set [False, True]. \<forall>r \<in> set [0..3].
     act_vert n f r 0 = 0 \<longrightarrow>
       (\<forall>i \<in> set [0..n - 1]. act_vert n f r i = i) \<or>
       3 \<le> n \<and> act_vert n f r 1 = n - 1 \<and> act_vert n f r (n - 1) = 1"
  by code_simp

lemma canonical_unique:
  assumes n: "n \<in> {2, 3, 4}" and len: "asize r = n" and d: "distinct r"
    and r: "canonical n r" and s: "canonical n (align_row n c r)"
  shows "align_row n c r = r"
proof -
  let ?d = "invert_alignment n c" and ?s = "align_row n c r"
  have n0: "0 \<le> (0::int)" "(0::int) < n" "1 < n" using n by auto
  have rng: "0 \<le> align_vert_index n i ?d" "align_vert_index n i ?d < n" if "0 \<le> i" "i < n" for i
    using align_index_range(1) [OF n that] by auto
  have nth: "?s ! nat i = r ! nat (align_vert_index n i ?d)" if "0 \<le> i" "i < n" for i
    using nth_align_row [OF that] .
  have "r ! 0 \<in> set r" using nth_int_mem [of 0 r] len n0 by simp
  then have "?s ! 0 \<le> r ! 0" using s set_align_row [OF n len, of c] by (auto simp: canonical_def)
  moreover have "r ! 0 \<le> ?s ! 0"
    using r nth [OF n0(1,2)] rng [OF n0(1,2)] len by (auto simp: canonical_def nth_int_mem)
  ultimately have "r ! nat (align_vert_index n 0 ?d) = r ! nat 0" using nth [OF n0(1,2)] by simp
  then have "align_vert_index n 0 ?d = 0"
    using distinct_nth_int_eq [OF d, of "align_vert_index n 0 ?d" 0] rng [OF n0(1,2)] len n0 by simp
  then have "act_vert n (code_is_flipped ?d) (code_rotation ?d) 0 = 0" by (simp add: align_vert_index_act)
  then consider "\<And>i. 0 \<le> i \<Longrightarrow> i < n \<Longrightarrow> align_vert_index n i ?d = i"
    | "3 \<le> n" "align_vert_index n 1 ?d = n - 1" "align_vert_index n (n - 1) ?d = 1"
    using act_fixing_first_table [THEN bspec, of n, THEN bspec, OF _ bool_range [of "code_is_flipped ?d"],
      THEN bspec, OF _ code_rotation_range [of ?d]] n by (auto simp: align_vert_index_act)
  then show ?thesis
  proof cases
    case 1
    have "length ?s = length r" using len by (simp add: asize_def)
    then show ?thesis
    proof (rule nth_equalityI)
      fix k assume "k < length ?s"
      then have k: "0 \<le> int k" "int k < n" by simp_all
      show "?s ! k = r ! k" using nth [OF k] 1 [OF k] by simp
    qed
  next
    case 2
    have "?s ! 1 = r ! nat (n - 1)" "?s ! nat (n - 1) = r ! 1"
      using nth [of 1] nth [of "n - 1"] 2 n0 by simp_all
    then have "r ! nat 1 = r ! nat (n - 1)" using r s 2(1) by (simp add: canonical_def)
    then have "1 = n - 1" using distinct_nth_int_eq [OF d, of 1 "n - 1"] len 2(1) n0 by simp
    then show ?thesis using 2(1) by simp
  qed
qed

lemma canonical_eq_iff:
  assumes n: "n \<in> {2, 3, 4}" and r: "asize r = n" "distinct r" and s: "asize s = n" "distinct s"
    and can: "canonical n (align_row n c r)" "canonical n (align_row n d s)"
  shows "align_row n c r = align_row n d s \<longleftrightarrow> same_entity n r s"
proof
  assume eq: "align_row n c r = align_row n d s"
  have "s = align_row n (invert_alignment n d) (align_row n d s)" using align_row_inverse [OF n s(1)] by simp
  also have "\<dots> = align_row n (compound_alignments_deg n c (invert_alignment n d)) r"
    unfolding eq [symmetric] by (rule align_row_compound [OF n r(1)])
  finally show "same_entity n r s" unfolding same_entity_def by blast
next
  assume "same_entity n r s"
  then obtain e where e: "s = align_row n e r" unfolding same_entity_def by blast
  let ?c = "align_row n c r"
  have lc: "asize ?c = n" "distinct ?c" using n r distinct_align_row [OF n r(1)] by auto
  have "r = align_row n (invert_alignment n c) ?c" using align_row_inverse [OF n r(1)] by simp
  then have "align_row n d s = align_row n (compound_alignments_deg n (invert_alignment n c)
      (compound_alignments_deg n e d)) ?c"
    unfolding e using align_row_compound [OF n lc(1)] align_row_compound [OF n r(1)] by metis
  then show "?c = align_row n d s" using canonical_unique [OF n lc] can by metis
qed

text \<open>What \<open>align_ev2v\<close> does to the rows of its array.\<close>

lemma align_ev2v_rows:
  assumes n: "n \<in> {2, 3, 4}" and sz: "asize ev2v = asize codes * n"
  shows "\<exists>out. align_ev2v n ev2v codes = Some out \<and> asize out = asize ev2v \<and>
    (\<forall>e. 0 \<le> e \<and> e < asize codes \<longrightarrow> row n out e = align_row n (codes ! nat e) (row n ev2v e))"
proof -
  obtain out where out: "align_ev2v n ev2v codes = Some out" "length out = length ev2v"
    "\<And>e j. 0 \<le> e \<and> e < asize codes \<and> 0 \<le> j \<and> j < n \<Longrightarrow>
       out ! nat (e * n + align_vert_index n j (codes ! nat e)) = ev2v ! nat (e * n + j)"
    using align_ev2v_spec [OF assms] by blast
  have "row n out e = align_row n (codes ! nat e) (row n ev2v e)" if e: "0 \<le> e \<and> e < asize codes" for e
  proof (rule align_rowI [OF n])
    show "asize (row n out e) = n" using n by (auto simp: row_def asize_def)
    fix j assume j: "0 \<le> j" "j < n"
    show "row n out e ! nat (align_vert_index n j (codes ! nat e)) = row n ev2v e ! nat j"
      using out(3) [of e j] e j align_index_range(1) [OF n j, of "codes ! nat e"] by (simp add: row_def)
  qed
  then show ?thesis using out(1,2) by (auto simp: asize_def)
qed

end
