(* ===== verification/Canonical.thy ===== *)
theory Canonical
  imports Align_Rows Sort Element
begin

text \<open>
  Uses of entities and the unique entities among them (\<open>form_uses\<close>, \<open>get_codes_to_canonical\<close>,
  \<open>find_canonical_jumps\<close> and \<open>find_unique\<close> of \<open>src/src/Omega_h_adj.cpp\<close>).

  \<open>form_uses\<close> lists the vertices of every boundary entity of every element: one use per element and
  boundary entity.  \<open>find_unique\<close> aligns every use to its canonical list, sorts the uses by these lists
  and keeps one use of every run of equal lists.  The lemmas show that the lists it compares are
  canonical, and that the entities it returns represent every use exactly once.
\<close>

section \<open>Operations\<close>

definition is_flipped_from :: "int \<Rightarrow> int option list \<Rightarrow> bool option" where
  "is_flipped_from deg adj =
     (if deg = 4 then do { x \<leftarrow> rd_cell adj 3; y \<leftarrow> rd_cell adj 1; Some (x < y) }
      else if deg = 3 then do { x \<leftarrow> rd_cell adj 2; y \<leftarrow> rd_cell adj 1; Some (x < y) }
      else if deg = 2 then Some False
      else None)"

definition code_to_canonical :: "int \<Rightarrow> int list \<Rightarrow> lo \<Rightarrow> i8 option" where
  "code_to_canonical deg ev2v e = do {
     let begin_e = e * deg;
     v0 \<leftarrow> rd ev2v begin_e;
     (min_j, min_v) \<leftarrow> for_range 1 deg (\<lambda>j (min_j, min_v). do {
       let ev = j + begin_e;
       v \<leftarrow> rd ev2v ev;
       Some (if v < min_v then (j, v) else (min_j, min_v))
     }) (0, v0);
     let rotation = rotation_to_first deg min_j;
     tmp \<leftarrow> rotate_adj deg rotation ev2v begin_e (fresh deg) 0;
     is_flipped \<leftarrow> is_flipped_from deg tmp;
     Some (make_code is_flipped rotation 0)
   }"

definition get_codes_to_canonical_deg :: "int \<Rightarrow> int list \<Rightarrow> i8 list option" where
  "get_codes_to_canonical_deg deg ev2v = do {
     let nev = asize ev2v;
     ne \<leftarrow> divide_no_remainder nev deg;
     fill_each ne (code_to_canonical deg ev2v)
   }"

definition get_codes_to_canonical :: "int \<Rightarrow> int list \<Rightarrow> i8 list option" where
  "get_codes_to_canonical deg ev2v =
     (if deg = 4 then get_codes_to_canonical_deg 4 ev2v
      else if deg = 3 then get_codes_to_canonical_deg 3 ev2v
      else if deg = 2 then get_codes_to_canonical_deg 2 ev2v
      else None)"

text \<open>The comparison stops at the first difference.\<close>

definition are_equal :: "int \<Rightarrow> lo list \<Rightarrow> lo \<Rightarrow> lo \<Rightarrow> bool option" where
  "are_equal deg canon e0 e1 = do {
     let a = e0 * deg;
     let b = e1 * deg;
     for_range 0 deg (\<lambda>j eq.
       if eq then do { x \<leftarrow> rd canon (a + j); y \<leftarrow> rd canon (b + j); Some (x = y) } else Some False) True
   }"

definition find_canonical_jumps :: "int \<Rightarrow> lo list \<Rightarrow> lo list \<Rightarrow> int list option" where
  "find_canonical_jumps deg canon e_sorted2e = do {
     let ne = asize e_sorted2e;
     let jumps = replicate (nat ne) (Some 0);
     jumps \<leftarrow> parallel_for (max 0 (ne - 1)) (\<lambda>e_sorted jumps. do {
       e0 \<leftarrow> rd e_sorted2e e_sorted;
       e1 \<leftarrow> rd e_sorted2e (e_sorted + 1);
       eq \<leftarrow> are_equal deg canon e0 e1;
       if \<not> eq then wr jumps e_sorted (Some 1) else Some jumps
     }) jumps;
     jumps \<leftarrow> (if asize jumps \<noteq> 0 then wr jumps (asize jumps - 1) (Some 1) else Some jumps);
     freeze jumps
   }"

definition find_unique_deg :: "int \<Rightarrow> lo list \<Rightarrow> lo list option" where
  "find_unique_deg deg uv2v = do {
     codes \<leftarrow> get_codes_to_canonical deg uv2v;
     uv2v_canon \<leftarrow> align_ev2v deg uv2v codes;
     sorted2u \<leftarrow> sort_by_keys uv2v_canon deg;
     jumps \<leftarrow> find_canonical_jumps deg uv2v_canon sorted2u;
     e2sorted \<leftarrow> collect_marked jumps;
     e2u \<leftarrow> compound_maps e2sorted sorted2u;
     unmap e2u uv2v deg
   }"

text \<open>
  The body that both overloads of \<open>form_uses\<close> share: \<open>down u uv\<close> is the local index of vertex \<open>uv\<close> of
  the boundary entity \<open>u\<close>.
\<close>

definition form_uses_body :: "int \<Rightarrow> int \<Rightarrow> int \<Rightarrow> (int \<Rightarrow> int \<Rightarrow> int) \<Rightarrow> lo list \<Rightarrow> lo list option" where
  "form_uses_body nverts_per_high nverts_per_low nlows_per_high down hv2v = do {
     nhigh \<leftarrow> divide_no_remainder (asize hv2v) nverts_per_high;
     let nuses = nhigh * nlows_per_high;
     uv2v \<leftarrow> alloc (nuses * nverts_per_low);
     uv2v \<leftarrow> parallel_for nhigh (\<lambda>h uv2v. do {
       let h_begin = h * nverts_per_high;
       for_range 0 nlows_per_high (\<lambda>u uv2v. do {
         let u_begin = (h * nlows_per_high + u) * nverts_per_low;
         for_range 0 nverts_per_low (\<lambda>uv uv2v. do {
           v \<leftarrow> rd hv2v (h_begin + down u uv);
           wr uv2v (u_begin + uv) (Some v)
         }) uv2v
       }) uv2v
     }) uv2v;
     freeze uv2v
   }"

definition form_uses :: "lo list \<Rightarrow> family \<Rightarrow> int \<Rightarrow> int \<Rightarrow> lo list option" where
  "form_uses hv2v family high_dim low_dim =
     form_uses_body (element_degree family high_dim 0) (element_degree family low_dim 0)
       (element_degree family high_dim low_dim) (element_down_template family high_dim low_dim) hv2v"

definition form_uses_types :: "lo list \<Rightarrow> topo_type \<Rightarrow> topo_type \<Rightarrow> lo list option" where
  "form_uses_types hv2v high_type low_type =
     form_uses_body (topo_degree high_type Vertex) (topo_degree low_type Vertex)
       (topo_degree high_type low_type) (topo_down_template (topo_int high_type) (topo_int low_type)) hv2v"

definition find_unique :: "lo list \<Rightarrow> family \<Rightarrow> int \<Rightarrow> int \<Rightarrow> lo list option" where
  "find_unique hv2v family high_dim low_dim = do {
     omega_check (high_dim > low_dim);
     omega_check (low_dim \<le> 2);
     omega_check (element_degree family high_dim 0 \<noteq> 0);
     omega_check (asize hv2v smod element_degree family high_dim 0 = 0);
     uv2v \<leftarrow> form_uses hv2v family high_dim low_dim;
     let deg = element_degree family low_dim 0;
     find_unique_deg deg uv2v
   }"

definition find_unique_types :: "lo list \<Rightarrow> topo_type \<Rightarrow> topo_type \<Rightarrow> lo list option" where
  "find_unique_types hv2v high_type low_type = do {
     omega_check (topo_int high_type > topo_int low_type);
     omega_check (topo_int low_type \<le> 3);
     omega_check (topo_degree high_type Vertex \<noteq> 0);
     omega_check (asize hv2v smod topo_degree high_type Vertex = 0);
     uv2v \<leftarrow> form_uses_types hv2v high_type low_type;
     let deg = topo_degree low_type Vertex;
     find_unique_deg deg uv2v
   }"

section \<open>Canonical codes\<close>

lemma asize_row [simp]: "0 \<le> w \<Longrightarrow> asize (row w xs i) = w"
  by (simp add: row_def asize_def)

lemma length_row [simp]: "length (row w xs i) = nat w"
  by (simp add: row_def)

lemma nth_row: "0 \<le> j \<Longrightarrow> j < w \<Longrightarrow> row w xs i ! nat j = xs ! nat (i * w + j)"
  by (simp add: row_def)

lemma flip_act:
  assumes n: "n \<in> {2, 3, 4}" and r: "asize r = n" and rot: "0 \<le> rot" "rot < 4" and i: "0 \<le> i" "i < n"
  shows "align_row n (make_code True rot 0) r ! nat (flip_vert_index n i) =
    align_row n (make_code False rot 0) r ! nat i"
proof -
  let ?f = "make_code True rot 0" and ?c = "make_code False rot 0"
  let ?j = "align_vert_index n i (invert_alignment n ?c)"
  have j: "0 \<le> ?j" "?j < n" using align_index_range(1) [OF n i] by auto
  have "align_vert_index n ?j ?f = flip_vert_index n (align_vert_index n ?j ?c)"
    using rot by (simp add: align_vert_index_def)
  then have "align_row n ?f r ! nat (flip_vert_index n i) = r ! nat ?j"
    using nth_align_row_act [OF n j, of ?f r] invert_alignment_inverse(3) [OF n i, of ?c] by simp
  then show ?thesis using nth_align_row [OF i, of ?c r] by simp
qed

lemma flip_vert_index_ends:
  "3 \<le> n \<Longrightarrow> flip_vert_index n 0 = 0 \<and> flip_vert_index n 1 = n - 1 \<and> flip_vert_index n (n - 1) = 1"
  by (simp add: flip_vert_index_def reverse_index_def)

lemma canonical_code:
  assumes n: "n \<in> {2, 3, 4}" and r: "asize r = n" and m: "0 \<le> m" "m < n" "\<And>i. 0 \<le> i \<Longrightarrow> i < n \<Longrightarrow> r ! nat m \<le> r ! nat i"
    and t: "t = align_row n (make_code False (rotation_to_first n m) 0) r"
    and f: "f \<longleftrightarrow> 3 \<le> n \<and> t ! nat (n - 1) < t ! 1"
  shows "canonical n (align_row n (make_code f (rotation_to_first n m) 0) r)"
proof -
  let ?rot = "rotation_to_first n m"
  have rot: "0 \<le> ?rot" "?rot < 4" using n m(1,2)
    by (auto simp: rotation_to_first_def invert_rotation_def smod_nonneg)
  have n0: "0 \<le> (0::int)" "0 < n" "0 \<le> n - 1" using n by auto
  let ?s = "align_row n (make_code f ?rot 0) r"
  have "\<forall>n \<in> set [2..4]. \<forall>m \<in> set [0..n - 1]. rotate_index n m (rotation_to_first n m) = 0" by code_simp
  then have "rotate_index n m ?rot = 0" using n m(1,2) by auto
  then have "align_vert_index n m (make_code f ?rot 0) = 0"
    using rot by (simp add: align_vert_index_def flip_vert_index_def)
  then have s0: "?s ! 0 = r ! nat m" using nth_align_row_act [OF n m(1,2), of "make_code f ?rot 0" r] by simp
  have "?s ! 0 \<le> x" if "x \<in> set ?s" for x
    using that m(3) r unfolding s0 set_align_row [OF n r] by (auto simp: in_set_int_conv)
  moreover have "?s ! 1 \<le> ?s ! nat (n - 1)" if n3: "3 \<le> n"
  proof (cases f)
    case True
    then have "?s ! 1 = t ! nat (n - 1)" "?s ! nat (n - 1) = t ! 1"
      using flip_act [OF n r rot, of 1] flip_act [OF n r rot, of "n - 1"] flip_vert_index_ends [OF n3] n3 t
      by simp_all
    then show ?thesis using f True by simp
  next
    case False
    then have "?s = t" using t by simp
    then show ?thesis using False f n3 by simp
  qed
  ultimately show ?thesis by (simp add: canonical_def)
qed

lemma code_to_canonical_ex:
  assumes n: "n \<in> {2, 3, 4}" and sz: "asize ev2v = ne * n" and e: "0 \<le> e" "e < ne"
  shows "\<exists>c. code_to_canonical n ev2v e = Some c \<and> canonical n (align_row n c (row n ev2v e))"
proof -
  let ?r = "row n ev2v e"
  have n0: "0 \<le> n" "1 \<le> n" "0 < n" using n by auto
  have rng: "0 \<le> e * n" "e * n + n \<le> asize ev2v" using entity_range [OF e n0(3)] sz by simp_all
  have rdr: "rd ev2v (e * n + j) = Some (?r ! nat j)" if "0 \<le> j" "j < n" for j
    using rd_Some [of "e * n + j" ev2v] rng that by (simp add: nth_row)
  let ?f = "\<lambda>j (min_j, min_v). do { let ev = j + e * n; v \<leftarrow> rd ev2v ev;
      Some (if v < min_v then (j, v) else (min_j, min_v)) }"
  let ?P = "\<lambda>j (m, v). 0 \<le> m \<and> m < j \<and> v = ?r ! nat m \<and> (\<forall>i. 0 \<le> i \<and> i < j \<longrightarrow> v \<le> ?r ! nat i)"
  have "\<exists>s. for_range 1 n ?f (0, ?r ! 0) = Some s \<and> ?P n s"
  proof (rule for_range_rule [where P = ?P])
    fix j s assume j: "1 \<le> j" "j < n" and P: "?P j s"
    have "rd ev2v (j + e * n) = Some (?r ! nat j)" using rdr [of j] j by (simp add: add.commute)
    moreover have "i < j \<or> i = j" if "i < j + 1" for i using that by linarith
    ultimately show "\<exists>s'. ?f j s = Some s' \<and> ?P (j + 1) s'"
      using P j by (cases s) (fastforce simp: Let_def)
  next
    have "i = 0" if "0 \<le> i" "i < 1" for i :: int using that by simp
    then show "?P 1 (0, ?r ! 0)" by auto
  qed (rule n0(2))
  then obtain m where m: "for_range 1 n ?f (0, ?r ! 0) = Some (m, ?r ! nat m)" "0 \<le> m" "m < n"
    "\<And>i. 0 \<le> i \<Longrightarrow> i < n \<Longrightarrow> ?r ! nat m \<le> ?r ! nat i" by auto
  let ?rot = "rotation_to_first n m"
  let ?c0 = "make_code False ?rot 0"
  have rot: "0 \<le> ?rot" "?rot < 4" using n m(2,3)
    by (auto simp: rotation_to_first_def invert_rotation_def smod_nonneg)
  obtain tmp where tmp: "rotate_adj n ?rot ev2v (e * n) (fresh n) 0 = Some tmp" "length tmp = nat n"
    "\<And>j. 0 \<le> j \<Longrightarrow> j < n \<Longrightarrow> tmp ! nat (rotate_index n j ?rot) = Some (?r ! nat j)"
    using rotate_adj_spec [OF n rot(1) rng, of 0 "fresh n"] n0(1) by (auto simp: nth_row)
  let ?t = "align_row n ?c0 ?r"
  have cell: "rd_cell tmp i = Some (?t ! nat i)" if i: "0 \<le> i" "i < n" for i
  proof -
    let ?j = "align_vert_index n i (invert_alignment n ?c0)"
    have j: "0 \<le> ?j" "?j < n" using align_index_range(1) [OF n i] by auto
    have "rotate_index n ?j ?rot = i"
      using invert_alignment_inverse(3) [OF n i, of ?c0] rot by (simp add: align_vert_index_def)
    then have "tmp ! nat i = Some (?t ! nat i)" using tmp(3) [OF j] nth_align_row [OF i, of ?c0 ?r] by simp
    then show ?thesis using i tmp(2) by (simp add: rd_cell_def rd_Some asize_def)
  qed
  let ?flip = "3 \<le> n \<and> ?t ! nat (n - 1) < ?t ! 1"
  have "is_flipped_from n tmp = Some ?flip"
    using n cell [of 1] cell [of 2] cell [of 3] by (auto simp: is_flipped_from_def)
  then have "code_to_canonical n ev2v e = Some (make_code ?flip ?rot 0)"
    using m(1) tmp(1) rdr [of 0] n0 by (simp add: code_to_canonical_def Let_def)
  moreover have "canonical n (align_row n (make_code ?flip ?rot 0) ?r)"
    by (rule canonical_code [OF n _ m(2,3) m(4) refl refl]) (use n0 in simp_all)
  ultimately show ?thesis by blast
qed

lemma get_codes_to_canonical_ex:
  assumes n: "n \<in> {2, 3, 4}" and sz: "asize ev2v = ne * n" and ne: "0 \<le> ne"
  shows "\<exists>codes. get_codes_to_canonical n ev2v = Some codes \<and> asize codes = ne \<and>
    (\<forall>e. 0 \<le> e \<and> e < ne \<longrightarrow> canonical n (align_row n (codes ! nat e) (row n ev2v e)))"
proof -
  have "\<forall>k. \<exists>c. int k < ne \<longrightarrow> code_to_canonical n ev2v (int k) = Some c \<and>
      canonical n (align_row n c (row n ev2v (int k)))"
    using code_to_canonical_ex [OF n sz] by auto
  from choice [OF this] obtain h where h: "\<And>k. int k < ne \<Longrightarrow> code_to_canonical n ev2v (int k) = Some (h k)"
    "\<And>k. int k < ne \<Longrightarrow> canonical n (align_row n (h k) (row n ev2v (int k)))"
    by blast
  have fill: "fill_each ne (code_to_canonical n ev2v) = Some (map h [0..<nat ne])"
    by (rule fill_each_Some [OF ne]) (rule h(1))
  have "canonical n (align_row n (map h [0..<nat ne] ! nat e) (row n ev2v e))" if "0 \<le> e" "e < ne" for e
    using h(2) [of "nat e"] that by (simp add: nat_less_iff)
  moreover have "get_codes_to_canonical n ev2v = Some (map h [0..<nat ne])"
    using n fill sz by (auto simp: get_codes_to_canonical_def get_codes_to_canonical_deg_def)
  ultimately show ?thesis using ne by (auto simp: asize_def)
qed

section \<open>Runs of equal lists\<close>

fun run_ends :: "('a \<Rightarrow> 'b) \<Rightarrow> 'a list \<Rightarrow> 'a list" where
  "run_ends f [] = []"
| "run_ends f [x] = [x]"
| "run_ends f (x # y # zs) = (if f x = f y then run_ends f (y # zs) else x # run_ends f (y # zs))"

lemma run_ends_nth:
  "run_ends f s = map (\<lambda>k. s ! k) (filter (\<lambda>k. Suc k = length s \<or> f (s ! k) \<noteq> f (s ! Suc k)) [0..<length s])"
proof (induction f s rule: run_ends.induct)
  case (3 f x y zs)
  let ?s = "x # y # zs"
  have upt: "[0..<length ?s] = 0 # map Suc [0..<length (y # zs)]"
    by (simp add: upt_conv_Cons map_Suc_upt del: upt_Suc)
  show ?case unfolding upt using 3 by (simp add: filter_map comp_def del: upt_Suc)
qed simp_all

lemma run_ends_set: "f ` set (run_ends f s) = f ` set s"
  by (induction f s rule: run_ends.induct) auto

lemma run_ends_subset: "set (run_ends f s) \<subseteq> set s"
  by (induction f s rule: run_ends.induct) auto

lemma run_ends_sorted:
  "sorted (map f s) \<Longrightarrow> sorted_wrt (<) (map (f :: 'a \<Rightarrow> 'b :: linorder) (run_ends f s))"
proof (induction f s rule: run_ends.induct)
  case (3 f x y zs)
  have IH: "sorted_wrt (<) (map f (run_ends f (y # zs)))" using 3 by auto
  moreover have "f x < f z" if "f x \<noteq> f y" "z \<in> set (run_ends f (y # zs))" for z
  proof -
    have "z \<in> set (y # zs)" using that(2) run_ends_subset by fast
    then have "f y \<le> f z" using "3.prems" by auto
    moreover have "f x < f y" using "3.prems" that(1) by auto
    ultimately show ?thesis by simp
  qed
  ultimately show ?case by auto
qed simp_all

lemma are_equal_eq:
  assumes "0 \<le> n" "asize canon = ne * n" "0 \<le> a" "a < ne" "0 \<le> b" "b < ne"
  shows "are_equal n canon a b = Some (row n canon a = row n canon b)"
proof -
  let ?f = "\<lambda>j eq. if eq then do { x \<leftarrow> rd canon (a * n + j); y \<leftarrow> rd canon (b * n + j); Some (x = y) } else Some False"
  let ?P = "\<lambda>j eq. eq \<longleftrightarrow> (\<forall>i. 0 \<le> i \<and> i < j \<longrightarrow> canon ! nat (a * n + i) = canon ! nat (b * n + i))"
  have "\<exists>s. for_range 0 n ?f True = Some s \<and> ?P n s"
  proof (rule for_range_rule [where P = ?P])
    fix j s assume j: "0 \<le> j" "j < n" and P: "?P j s"
    have "rd canon (a * n + j) = Some (canon ! nat (a * n + j))" "rd canon (b * n + j) = Some (canon ! nat (b * n + j))"
      using int_row_bound(1) [OF assms(3,4) j assms(2)] int_row_bound(1) [OF assms(5,6) j assms(2)] by simp_all
    moreover have "i < j + 1 \<longleftrightarrow> i < j \<or> i = j" for i by auto
    ultimately show "\<exists>s'. ?f j s = Some s' \<and> ?P (j + 1) s'" using P j by auto
  qed (use assms(1) in auto)
  then show ?thesis by (auto simp: are_equal_def row_eq_iff)
qed

lemma mark_next:
  fixes d :: "nat \<Rightarrow> bool"
  assumes "k < N"
  shows "d k \<Longrightarrow> (map (\<lambda>j. Some (of_bool (int j < int k \<and> d j))) [0..<N])[k := Some 1] =
      map (\<lambda>j. Some (of_bool (int j < int k + 1 \<and> d j) :: int)) [0..<N]"
    and "\<not> d k \<Longrightarrow> map (\<lambda>j. Some (of_bool (int j < int k \<and> d j))) [0..<N] =
      map (\<lambda>j. Some (of_bool (int j < int k + 1 \<and> d j) :: int)) [0..<N]"
proof -
  have lt: "int j < int k + 1 \<longleftrightarrow> j < k \<or> j = k" for j by auto
  show "(map (\<lambda>j. Some (of_bool (int j < int k \<and> d j))) [0..<N])[k := Some 1] =
      map (\<lambda>j. Some (of_bool (int j < int k + 1 \<and> d j) :: int)) [0..<N]" if "d k"
    by (rule nth_equalityI) (use assms that lt in \<open>auto simp: nth_list_update\<close>)
  show "map (\<lambda>j. Some (of_bool (int j < int k \<and> d j))) [0..<N] =
      map (\<lambda>j. Some (of_bool (int j < int k + 1 \<and> d j) :: int)) [0..<N]" if "\<not> d k"
    by (rule map_cong) (use that lt in auto)
qed

lemma find_canonical_jumps_eq:
  assumes n: "0 \<le> n" and sz: "asize canon = ne * n" and s: "\<And>u. u \<in> set s \<Longrightarrow> 0 \<le> u \<and> u < ne"
  shows "find_canonical_jumps n canon s =
    Some (map (\<lambda>k. of_bool (Suc k = length s \<or> row n canon (s ! k) \<noteq> row n canon (s ! Suc k))) [0..<length s])"
proof (cases "s = []")
  case True
  then show ?thesis by (simp add: find_canonical_jumps_def freeze_def parallel_for_def)
next
  case False
  let ?N = "length s"
  let ?d = "\<lambda>k. row n canon (s ! k) \<noteq> row n canon (s ! Suc k)"
  let ?f = "\<lambda>i jumps. do { e0 \<leftarrow> rd s i; e1 \<leftarrow> rd s (i + 1); eq \<leftarrow> are_equal n canon e0 e1;
      if \<not> eq then wr jumps i (Some 1) else Some jumps }"
  let ?J = "\<lambda>i. map (\<lambda>k. Some (of_bool (int k < i \<and> ?d k) :: int)) [0..<?N]"
  have "\<exists>w. parallel_for (int ?N - 1) ?f (replicate ?N (Some 0)) = Some w \<and> w = ?J (int ?N - 1)"
  proof (rule parallel_for_rule [where P = "\<lambda>i w. w = ?J i"])
    show "replicate ?N (Some 0) = ?J 0" by (rule nth_equalityI) simp_all
    fix i w assume i: "0 \<le> i" "i < int ?N - 1" and w: "w = ?J i"
    obtain k where k: "i = int k" "Suc k < ?N" using i by (metis zero_le_imp_eq_int less_diff_eq of_nat_Suc of_nat_less_iff add.commute)
    have k1: "k < ?N" using k(2) by simp
    have rds: "rd s i = Some (s ! k)" "rd s (i + 1) = Some (s ! Suc k)"
      using k rd_int [of "Suc k" s] by (simp_all add: add.commute)
    have eq: "are_equal n canon (s ! k) (s ! Suc k) = Some (\<not> ?d k)"
      using are_equal_eq [OF n sz] s [of "s ! k"] s [of "s ! Suc k"] k by simp
    have "wr w i (Some 1) = Some (w[k := Some 1])" using k1 w by (simp add: k(1))
    then have "(if ?d k then wr w i (Some 1) else Some w) = Some (?J (i + 1))"
    proof (cases "?d k")
      case True
      then show ?thesis using \<open>wr w i (Some 1) = _\<close> mark_next(1) [OF k1, of ?d] unfolding w k(1) by simp
    next
      case False
      from False mark_next(2) [OF k1, of ?d, OF False] show ?thesis unfolding w k(1) by (simp only: if_False)
    qed
    then show "\<exists>s'. ?f i w = Some s' \<and> s' = ?J (i + 1)" using rds eq by simp
  qed (use False in \<open>cases s; simp\<close>)
  moreover have "freeze ((?J (int ?N - 1))[?N - 1 := Some 1]) =
      Some (map (\<lambda>k. of_bool (Suc k = ?N \<or> ?d k)) [0..<?N])"
    by (rule freeze_eqI) (auto simp: nth_list_update)
  moreover have "max 0 (int ?N - 1) = int ?N - 1" "?N \<noteq> 0" using False by (cases s; simp)+
  moreover have "wr (?J (int ?N - 1)) (int ?N - 1) (Some 1) = Some ((?J (int ?N - 1))[?N - 1 := Some 1])"
    using wr_int [of "?N - 1" "?J (int ?N - 1)" "Some 1"] \<open>?N \<noteq> 0\<close> by (simp add: of_nat_diff)
  ultimately show ?thesis
    by (simp add: find_canonical_jumps_def asize_def Let_def)
qed

section \<open>Unique entities\<close>

text \<open>The entities that represent the uses: every use is the same entity as exactly one of them.\<close>

definition represent :: "int \<Rightarrow> lo list \<Rightarrow> lo list \<Rightarrow> bool" where
  "represent deg ev2v uv2v \<longleftrightarrow> (\<exists>ne nu. 0 \<le> ne \<and> asize ev2v = ne * deg \<and> asize uv2v = nu * deg \<and>
     (\<forall>u. 0 \<le> u \<and> u < nu \<longrightarrow> (\<exists>!e. 0 \<le> e \<and> e < ne \<and> same_entity deg (row deg ev2v e) (row deg uv2v u))) \<and>
     (\<forall>e. 0 \<le> e \<and> e < ne \<longrightarrow> (\<exists>u. 0 \<le> u \<and> u < nu \<and> row deg ev2v e = row deg uv2v u)))"

lemma marks_01: "set (map (\<lambda>k. of_bool (P k) :: int) xs) \<subseteq> {0, 1}"
  by auto

lemma selected_range: "b \<in> set (map int (filter P [0..<length s])) \<Longrightarrow> 0 \<le> b \<and> b < asize s"
  by (auto simp: asize_def)

lemma find_unique_deg_ex:
  assumes n: "deg \<in> {2, 3, 4}" and sz: "asize uv2v = nu * deg" and nu: "0 \<le> nu"
    and d: "\<And>u. 0 \<le> u \<Longrightarrow> u < nu \<Longrightarrow> distinct (row deg uv2v u)"
  shows "\<exists>ev2v. find_unique_deg deg uv2v = Some ev2v \<and> represent deg ev2v uv2v"
proof -
  have n0: "0 \<le> deg" "1 \<le> deg" "deg \<le> 4" using n by auto
  obtain codes where codes: "get_codes_to_canonical deg uv2v = Some codes" "asize codes = nu"
    "\<And>u. 0 \<le> u \<Longrightarrow> u < nu \<Longrightarrow> canonical deg (align_row deg (codes ! nat u) (row deg uv2v u))"
    using get_codes_to_canonical_ex [OF n sz nu] by blast
  obtain canon where canon: "align_ev2v deg uv2v codes = Some canon" "asize canon = nu * deg"
    "\<And>u. 0 \<le> u \<Longrightarrow> u < nu \<Longrightarrow> row deg canon u = align_row deg (codes ! nat u) (row deg uv2v u)"
    using align_ev2v_rows [OF n, of uv2v codes] sz codes(2) by auto
  let ?key = "row deg canon"
  have same: "?key u = ?key v \<longleftrightarrow> same_entity deg (row deg uv2v u) (row deg uv2v v)"
    if "0 \<le> u" "u < nu" "0 \<le> v" "v < nu" for u v
    unfolding canon(3) [OF that(1,2)] canon(3) [OF that(3,4)]
    by (rule canonical_eq_iff [OF n _ d [OF that(1,2)] _ d [OF that(3,4)] codes(3) [OF that(1,2)] codes(3) [OF that(3,4)]])
      (use n0 in simp_all)
  let ?s = "sort_key ?key [0..nu - 1]"
  have sort: "sort_by_keys canon deg = Some ?s" by (rule sort_by_keys_eq [OF n0(2,3) canon(2)])
  have mem: "0 \<le> u \<and> u < nu" if "u \<in> set ?s" for u using that by simp
  let ?jumps = "map (\<lambda>k. of_bool (Suc k = length ?s \<or> ?key (?s ! k) \<noteq> ?key (?s ! Suc k))) [0..<length ?s] :: int list"
  have jumps: "find_canonical_jumps deg canon ?s = Some ?jumps"
    by (rule find_canonical_jumps_eq [OF n0(1) canon(2) mem])
  let ?sel = "filter (\<lambda>k. Suc k = length ?s \<or> ?key (?s ! k) \<noteq> ?key (?s ! Suc k)) [0..<length ?s]"
  have marked: "collect_marked ?jumps = Some (map int ?sel)"
  proof -
    have "marked_indices ?jumps = map int ?sel"
      unfolding marked_indices_def length_map length_upt diff_zero
      by (intro arg_cong [where f = "map int"] filter_cong) auto
    then show ?thesis by (subst collect_marked_eq [OF marks_01]) (simp only:)
  qed
  let ?e2u = "run_ends ?key ?s"
  have "compound_maps (map int ?sel) ?s = Some (map (\<lambda>b. ?s ! nat b) (map int ?sel))"
    by (rule compound_maps_eq) (rule selected_range)
  then have e2u: "compound_maps (map int ?sel) ?s = Some ?e2u"
    by (simp only: run_ends_nth map_map comp_def nat_int)
  have emem: "0 \<le> u \<and> u < nu" if "u \<in> set ?e2u" for u
    by (rule mem [OF subsetD [OF run_ends_subset that]])
  have fits: "u * deg + deg \<le> asize uv2v" if "u \<in> set ?e2u" for u
    using entity_range(2) [of u nu deg] emem [OF that] n0 sz by simp
  obtain ev2v where ev2v: "unmap ?e2u uv2v deg = Some ev2v" "asize ev2v = asize ?e2u * deg"
    "\<And>e. 0 \<le> e \<and> e < asize ?e2u \<Longrightarrow> row deg ev2v e = row deg uv2v (?e2u ! nat e)"
    using unmap_ex [OF n0(1), of ?e2u uv2v] emem fits by blast
  have find: "find_unique_deg deg uv2v = Some ev2v"
    using codes(1) canon(1) sort jumps marked e2u ev2v(1) by (simp add: find_unique_deg_def)
  have strict: "sorted_wrt (<) (map ?key ?e2u)" by (rule run_ends_sorted) simp
  have ent: "0 \<le> ?e2u ! nat e \<and> ?e2u ! nat e < nu" if "0 \<le> e" "e < asize ?e2u" for e
    using emem [OF nth_int_mem [OF that]] .
  have uniq: "\<exists>!e. 0 \<le> e \<and> e < asize ?e2u \<and> same_entity deg (row deg ev2v e) (row deg uv2v u)"
    if u: "0 \<le> u" "u < nu" for u
  proof -
    have iff: "same_entity deg (row deg ev2v e) (row deg uv2v u) \<longleftrightarrow> ?key (?e2u ! nat e) = ?key u"
      if "0 \<le> e" "e < asize ?e2u" for e
      using same [of "?e2u ! nat e" u] ent [OF that] u ev2v(3) [of e] that by simp
    have "?key u \<in> ?key ` set ?e2u" unfolding run_ends_set using u by simp
    then obtain e where e: "0 \<le> e" "e < asize ?e2u" "?key (?e2u ! nat e) = ?key u"
      by (auto simp: in_set_int_conv)
    show ?thesis
    proof (rule ex1I [of _ e])
      show "0 \<le> e \<and> e < asize ?e2u \<and> same_entity deg (row deg ev2v e) (row deg uv2v u)"
        using e iff [OF e(1,2)] by simp
      fix f assume f: "0 \<le> f \<and> f < asize ?e2u \<and> same_entity deg (row deg ev2v f) (row deg uv2v u)"
      then have "map ?key ?e2u ! nat f = map ?key ?e2u ! nat e"
        using iff [of f] e by (simp add: asize_def nat_less_iff)
      moreover have "distinct (map ?key ?e2u)" using strict by (simp add: strict_sorted_iff)
      ultimately show "f = e"
        using distinct_nth_int_eq [of "map ?key ?e2u" f e] f e by simp
    qed
  qed
  have "\<exists>u. 0 \<le> u \<and> u < nu \<and> row deg ev2v e = row deg uv2v u" if "0 \<le> e \<and> e < asize ?e2u" for e
    using ev2v(3) [OF that] ent that by blast
  then have "represent deg ev2v uv2v"
    unfolding represent_def using ev2v(2) sz uniq by (intro exI [of _ "asize ?e2u"] exI [of _ nu]) simp
  then show ?thesis using find by blast
qed

section \<open>Uses\<close>

lemma row_div_mod: "0 \<le> j \<Longrightarrow> j < w \<Longrightarrow> (a * w + j) div w = a \<and> (a * w + j) mod w = (j :: int)"
  by simp

lemma run_for_square:
  assumes "0 \<le> m" "0 < n"
  shows "for_range 0 m (\<lambda>u s. for_range 0 n (g u) s) s = for_range 0 (m * n) (\<lambda>j. g (j div n) (j mod n)) s"
proof -
  have "List.product [0..m - 1] [0..n - 1] = map (\<lambda>j. (j div n, j mod n)) [0..m * n - 1]"
  proof (rule nth_equalityI)
    show "length (List.product [0..m - 1] [0..n - 1]) = length (map (\<lambda>j. (j div n, j mod n)) [0..m * n - 1])"
      using assms by (simp add: nat_mult_distrib)
    fix i assume "i < length (List.product [0..m - 1] [0..n - 1])"
    then have i: "i < nat m * nat n" by simp
    then have "int i < m * n" using assms by (metis nat_mult_distrib of_nat_less_iff nat_0_le mult_nonneg_nonneg order_less_imp_le)
    moreover have "i div nat n < nat m" using i by (simp add: less_mult_imp_div_less)
    moreover have "int (i div nat n) = int i div n" "int (i mod nat n) = int i mod n"
      using assms by (simp_all add: zdiv_int zmod_int)
    moreover have "[0..m * n - 1] ! i = int i" using nth_upto [of 0 i "m * n - 1"] \<open>int i < m * n\<close> by simp
    ultimately show "List.product [0..m - 1] [0..n - 1] ! i = map (\<lambda>j. (j div n, j mod n)) [0..m * n - 1] ! i"
      using i assms by (simp add: product_nth)
  qed
  then show ?thesis
    unfolding for_range_def by (simp add: run_for_nested run_for_map case_prod_beta')
qed

text \<open>The vertices of the use \<open>u\<close> of the upper entity \<open>h\<close>.\<close>

lemma form_uses_body_ex:
  assumes nh: "0 < nh" and nl: "0 < nl" and nb: "0 < nb" and sz: "asize hv2v = nhigh * nh" and n0: "0 \<le> nhigh"
    and down: "\<And>u v. 0 \<le> u \<Longrightarrow> u < nb \<Longrightarrow> 0 \<le> v \<Longrightarrow> v < nl \<Longrightarrow> 0 \<le> down u v \<and> down u v < nh"
  shows "\<exists>uv2v. form_uses_body nh nl nb down hv2v = Some uv2v \<and> asize uv2v = (nhigh * nb) * nl \<and>
    (\<forall>h u. 0 \<le> h \<and> h < nhigh \<and> 0 \<le> u \<and> u < nb \<longrightarrow>
       row nl uv2v (h * nb + u) = map (\<lambda>v. row nh hv2v h ! nat (down u v)) [0..nl - 1])"
proof -
  let ?g = "\<lambda>h j. rd hv2v (h * nh + down (j div nl) (j mod nl))"
  let ?h = "\<lambda>h j. hv2v ! nat (h * nh + down (j div nl) (j mod nl))"
  let ?f = "\<lambda>h uv2v. do {
       let h_begin = h * nh;
       for_range 0 nb (\<lambda>u uv2v. do {
         let u_begin = (h * nb + u) * nl;
         for_range 0 nl (\<lambda>uv uv2v. do {
           v \<leftarrow> rd hv2v (h_begin + down u uv);
           wr uv2v (u_begin + uv) (Some v)
         }) uv2v
       }) uv2v
     }"
  let ?out = "map (\<lambda>k. ?h (int k div (nb * nl)) (int k mod (nb * nl))) [0..<nat (nhigh * (nb * nl))]"
  have dv: "0 \<le> j div nl \<and> j div nl < nb \<and> 0 \<le> j mod nl \<and> j mod nl < nl" if "0 \<le> j" "j < nb * nl" for j
    using that nl div_less_rows [OF nl that(2)] by (simp add: pos_imp_zdiv_nonneg_iff)
  have fill: "do { s \<leftarrow> parallel_for nhigh ?f (fresh (nhigh * (nb * nl))); freeze s } = Some ?out"
  proof (rule fill_rows)
    show "?f h s = for_range 0 (nb * nl) (\<lambda>j s. do { v \<leftarrow> ?g h j; wr s (h * (nb * nl) + j) (Some v) }) s" for h s
    proof -
      have "(h * nb + j div nl) * nl + j mod nl = h * (nb * nl) + j" for j
        by (simp add: algebra_simps)
      then show ?thesis using nb nl by (simp add: Let_def run_for_square)
    qed
    show "?g h j = Some (?h h j)" if "0 \<le> h" "h < nhigh" "0 \<le> j" "j < nb * nl" for h j
      using int_row_bound(1) [OF that(1,2) _ _ sz] down dv [OF that(3,4)] by blast
  qed (use nb nl in simp_all)
  have "row nl ?out (h * nb + u) = map (\<lambda>v. row nh hv2v h ! nat (down u v)) [0..nl - 1]"
    if hu: "0 \<le> h" "h < nhigh" "0 \<le> u" "u < nb" for h u
  proof -
    have "?out ! nat ((h * nb + u) * nl + v) = row nh hv2v h ! nat (down u v)" if v: "0 \<le> v" "v < nl" for v
    proof -
      let ?j = "u * nl + v"
      have j: "0 \<le> ?j \<and> ?j < nb * nl" by (rule row_index_bound [OF v hu(3,4)])
      have k: "0 \<le> h * (nb * nl) + ?j \<and> h * (nb * nl) + ?j < nhigh * (nb * nl)"
        using j hu by (intro row_index_bound) auto
      obtain K where K: "K = h * (nb * nl) + ?j" by simp
      have flat: "(h * nb + u) * nl + v = K" by (simp add: K algebra_simps)
      have dm: "K div (nb * nl) = h" "K mod (nb * nl) = ?j" "?j div nl = u" "?j mod nl = v"
        using row_div_mod [of ?j "nb * nl" h] j row_div_mod [OF v, of u] unfolding K by blast+
      have "nat K < nat (nhigh * (nb * nl))" "0 \<le> K" using k unfolding K zless_nat_conj by linarith+
      then have "?out ! nat K = ?h (K div (nb * nl)) (K mod (nb * nl))" by simp
      then show ?thesis using down [OF hu(3,4) v] unfolding flat dm by (simp add: nth_row)
    qed
    then show ?thesis by (simp add: row_def)
  qed
  moreover have "asize ?out = (nhigh * nb) * nl" using n0 nb nl by (simp add: asize_def mult.assoc)
  moreover have "form_uses_body nh nl nb down hv2v = Some ?out"
    using fill n0 nb nl nh sz by (simp add: form_uses_body_def mult.assoc del: upt_Suc)
  ultimately show ?thesis by blast
qed

section \<open>Uses and unique entities of a mesh\<close>

text \<open>What the derivation of a mesh's entities relies on: the table lists distinct vertices.\<close>

definition use_table :: "int \<Rightarrow> int \<Rightarrow> int \<Rightarrow> (int \<Rightarrow> int \<Rightarrow> int) \<Rightarrow> bool" where
  "use_table nh nl nb down \<longleftrightarrow> 0 < nh \<and> nl \<in> set [2, 3, 4] \<and> 0 < nb \<and> nb \<le> 16 \<and>
     (\<forall>u \<in> set [0..nb - 1]. set (map (down u) [0..nl - 1]) \<subseteq> set [0..nh - 1] \<and> distinct (map (down u) [0..nl - 1]))"

definition family_use_table :: "family \<Rightarrow> int \<Rightarrow> int \<Rightarrow> bool" where
  "family_use_table f h l = use_table (element_degree f h 0) (element_degree f l 0) (element_degree f h l)
     (element_down_template f h l)"

definition type_use_table :: "topo_type \<Rightarrow> topo_type \<Rightarrow> bool" where
  "type_use_table h l = use_table (topo_degree h Vertex) (topo_degree l Vertex) (topo_degree h l)
     (topo_down_template (topo_int h) (topo_int l))"

lemma family_use_tables:
  assumes "(h, l) \<in> {(2, 1), (3, 1), (3, 2)}"
  shows "family_use_table f h l"
proof -
  have "\<forall>f \<in> set [OMEGA_H_SIMPLEX, OMEGA_H_HYPERCUBE, OMEGA_H_MIXED]. \<forall>(h, l) \<in> set [(2, 1), (3, 1), (3, 2)].
      family_use_table f h l" by code_simp
  moreover have "f \<in> set [OMEGA_H_SIMPLEX, OMEGA_H_HYPERCUBE, OMEGA_H_MIXED]" by (cases f) simp_all
  ultimately show ?thesis using assms by auto
qed

lemma type_use_tables:
  "\<forall>(h, l) \<in> set [(Triangle, Edge), (Quadrilateral, Edge), (Tetrahedron, Triangle), (Tetrahedron, Edge),
     (Hexahedron, Quadrilateral), (Hexahedron, Edge), (Wedge, Quadrilateral), (Wedge, Triangle), (Wedge, Edge),
     (Pyramid, Quadrilateral), (Pyramid, Triangle), (Pyramid, Edge)]. type_use_table h l"
  by code_simp

lemma unique_uses_ex:
  assumes t: "use_table nh nl nb down" and sz: "asize hv2v = nhigh * nh" and n0: "0 \<le> nhigh"
    and d: "\<And>h. 0 \<le> h \<Longrightarrow> h < nhigh \<Longrightarrow> distinct (row nh hv2v h)"
  shows "\<exists>uv2v ev2v. form_uses_body nh nl nb down hv2v = Some uv2v \<and> asize uv2v = (nhigh * nb) * nl \<and>
    find_unique_deg nl uv2v = Some ev2v \<and> represent nl ev2v uv2v \<and>
    (\<forall>h u. 0 \<le> h \<and> h < nhigh \<and> 0 \<le> u \<and> u < nb \<longrightarrow>
       row nl uv2v (h * nb + u) = map (\<lambda>v. row nh hv2v h ! nat (down u v)) [0..nl - 1] \<and>
       distinct (row nl uv2v (h * nb + u)))"
proof -
  have tab: "0 < nh" "nl \<in> {2, 3, 4}" "0 < nl" "0 < nb" using t by (auto simp: use_table_def)
  have down: "0 \<le> down u v \<and> down u v < nh" if "0 \<le> u" "u < nb" "0 \<le> v" "v < nl" for u v
    using t that by (auto simp: use_table_def image_subset_iff)
  have inj: "distinct (map (down u) [0..nl - 1])" if "0 \<le> u" "u < nb" for u
    using t that by (auto simp: use_table_def)
  obtain uv2v where uv2v: "form_uses_body nh nl nb down hv2v = Some uv2v" "asize uv2v = (nhigh * nb) * nl"
    "\<And>h u. 0 \<le> h \<and> h < nhigh \<and> 0 \<le> u \<and> u < nb \<Longrightarrow>
       row nl uv2v (h * nb + u) = map (\<lambda>v. row nh hv2v h ! nat (down u v)) [0..nl - 1]"
    using form_uses_body_ex [where down = down, OF tab(1,3,4) sz n0 down] by blast
  have dist: "distinct (row nl uv2v (h * nb + u))" if "0 \<le> h \<and> h < nhigh \<and> 0 \<le> u \<and> u < nb" for h u
  proof -
    have "inj_on (\<lambda>v. row nh hv2v h ! nat (down u v)) (set [0..nl - 1])"
    proof (rule inj_onI)
      fix v w assume v: "v \<in> set [0..nl - 1]" "w \<in> set [0..nl - 1]"
        and eq: "row nh hv2v h ! nat (down u v) = row nh hv2v h ! nat (down u w)"
      have "down u v = down u w"
        using distinct_nth_int_eq [OF d, of h "down u v" "down u w"] eq down that v tab(1) by simp
      then show "v = w" using inj [of u] that v by (simp add: distinct_map inj_on_def)
    qed
    then show ?thesis unfolding uv2v(3) [OF that] by (simp add: distinct_map)
  qed
  have "distinct (row nl uv2v u)" if u: "0 \<le> u" "u < nhigh * nb" for u
  proof -
    have "0 \<le> u div nb \<and> u div nb < nhigh \<and> 0 \<le> u mod nb \<and> u mod nb < nb"
      using entity_of_cell [OF u tab(4)] tab(4) by simp
    from dist [OF this] show ?thesis by simp
  qed
  then obtain ev2v where "find_unique_deg nl uv2v = Some ev2v" "represent nl ev2v uv2v"
    using find_unique_deg_ex [OF tab(2) uv2v(2)] n0 tab(4) by auto
  then show ?thesis using uv2v dist by blast
qed

section \<open>Properties\<close>

text \<open>C9. Deriving the entities of a mesh: for elements with distinct vertices, \<open>form_uses\<close> lists the
  vertices of every boundary entity of every element, and \<open>find_unique\<close> returns entities such that
  every use is the same entity, up to a rotation and a flip, as exactly one of them, and every one of
  them is a use.\<close>

theorem find_unique_represents:
  assumes "(high_dim, low_dim) \<in> {(2, 1), (3, 1), (3, 2)}"
    and "asize hv2v = nhigh * element_degree family high_dim 0" "0 \<le> nhigh"
    and "\<forall>h. 0 \<le> h \<and> h < nhigh \<longrightarrow> distinct (row (element_degree family high_dim 0) hv2v h)"
  shows "\<exists>uv2v ev2v. form_uses hv2v family high_dim low_dim = Some uv2v \<and>
    find_unique hv2v family high_dim low_dim = Some ev2v \<and>
    represent (element_degree family low_dim 0) ev2v uv2v \<and>
    (\<forall>h u. 0 \<le> h \<and> h < nhigh \<and> 0 \<le> u \<and> u < element_degree family high_dim low_dim \<longrightarrow>
       row (element_degree family low_dim 0) uv2v (h * element_degree family high_dim low_dim + u) =
       map (\<lambda>v. row (element_degree family high_dim 0) hv2v h !
               nat (element_down_template family high_dim low_dim u v))
         [0..element_degree family low_dim 0 - 1])"
proof -
  have t: "use_table (element_degree family high_dim 0) (element_degree family low_dim 0)
      (element_degree family high_dim low_dim) (element_down_template family high_dim low_dim)"
    using family_use_tables [OF assms(1), of family] by (simp only: family_use_table_def)
  then have nh: "0 < element_degree family high_dim 0" by (simp add: use_table_def)
  have "low_dim < high_dim" "low_dim \<le> 2" using assms(1) by auto
  moreover have "asize hv2v smod element_degree family high_dim 0 = 0"
    using nh assms(2,3) by (simp add: smod_nonneg)
  ultimately have find: "find_unique hv2v family high_dim low_dim = do {
      uv2v \<leftarrow> form_uses hv2v family high_dim low_dim;
      find_unique_deg (element_degree family low_dim 0) uv2v }"
    using nh by (simp add: find_unique_def)
  show ?thesis
    using unique_uses_ex [OF t assms(2,3)] assms(4) unfolding find form_uses_def by fastforce
qed

theorem find_unique_represents_witness:
  "\<exists>uv2v ev2v. find_unique [0, 1, 2, 2, 1, 3] OMEGA_H_SIMPLEX 2 1 = Some ev2v \<and>
     form_uses [0, 1, 2, 2, 1, 3] OMEGA_H_SIMPLEX 2 1 = Some uv2v \<and> represent 2 ev2v uv2v"
proof -
  have deg: "element_degree OMEGA_H_SIMPLEX 2 0 = 3" "element_degree OMEGA_H_SIMPLEX 1 0 = 2" by code_simp+
  have "\<forall>h \<in> set [0, 1]. distinct (row 3 [0, 1, 2, 2, 1, 3 :: int] h)" by code_simp
  moreover have "h = 0 \<or> h = 1" if "0 \<le> h" "h < 2" for h :: int using that by auto
  ultimately have "\<forall>h. 0 \<le> h \<and> h < 2 \<longrightarrow> distinct (row 3 [0, 1, 2, 2, 1, 3 :: int] h)" by fastforce
  then show ?thesis
    using find_unique_represents [of 2 1 "[0, 1, 2, 2, 1, 3]" 2 OMEGA_H_SIMPLEX] unfolding deg by auto
qed

end
