(* ===== verification/Matching.thy ===== *)
theory Matching
  imports Canonical Adj
begin

text \<open>
  Matching uses of entities with the entities (\<open>IsMatch\<close>, \<open>find_matches\<close> and \<open>reflect_down\<close> of
  \<open>src/src/Omega_h_adj.cpp\<close>).

  For every use the entities around its first vertex are tried; \<open>IsMatch\<close> compares the vertices and
  returns the code that turns the entity into the use.  The locale \<open>matcher\<close> states what the search
  relies on, separately for 2, 3 and 4 vertices; the result is the downward adjacency of a mesh.
\<close>

section \<open>Operations\<close>

definition eq_at :: "int list \<Rightarrow> lo \<Rightarrow> int list \<Rightarrow> lo \<Rightarrow> bool option" where
  "eq_at av2v i bv2v j = do { x \<leftarrow> rd av2v i; y \<leftarrow> rd bv2v j; Some (x = y) }"

definition and_also :: "bool option \<Rightarrow> bool option \<Rightarrow> bool option" where
  "and_also p q = do { x \<leftarrow> p; if x then q else Some False }"

definition is_match_2 :: "int list \<Rightarrow> lo \<Rightarrow> int list \<Rightarrow> lo \<Rightarrow> int \<Rightarrow> i8 option option" where
  "is_match_2 av2v a_begin bv2v b_begin which_down = do {
     m \<leftarrow> eq_at av2v (a_begin + 1) bv2v (b_begin + (1 - which_down));
     Some (if m then Some (make_code False which_down 0) else None)
   }"

definition is_match_3 :: "int list \<Rightarrow> lo \<Rightarrow> int list \<Rightarrow> lo \<Rightarrow> int \<Rightarrow> i8 option option" where
  "is_match_3 av2v a_begin bv2v b_begin which_down = do {
     m \<leftarrow> and_also (eq_at av2v (a_begin + 1) bv2v (b_begin + (which_down + 1) smod 3))
                   (eq_at av2v (a_begin + 2) bv2v (b_begin + (which_down + 2) smod 3));
     if m then Some (Some (make_code False (rotation_to_first 3 which_down) 0)) else do {
       m \<leftarrow> and_also (eq_at av2v (a_begin + 1) bv2v (b_begin + (which_down + 2) smod 3))
                     (eq_at av2v (a_begin + 2) bv2v (b_begin + (which_down + 1) smod 3));
       Some (if m then Some (make_code True (rotation_to_first 3 which_down) 0) else None)
     }
   }"

definition is_match_4 :: "int list \<Rightarrow> lo \<Rightarrow> int list \<Rightarrow> lo \<Rightarrow> int \<Rightarrow> i8 option option" where
  "is_match_4 av2v a_begin bv2v b_begin which_down = do {
     m \<leftarrow> eq_at av2v (a_begin + 2) bv2v (b_begin + (which_down + 2) smod 4);
     if \<not> m then Some None else do {
       m \<leftarrow> and_also (eq_at av2v (a_begin + 1) bv2v (b_begin + (which_down + 1) smod 4))
                     (eq_at av2v (a_begin + 3) bv2v (b_begin + (which_down + 3) smod 4));
       if m then Some (Some (make_code False (rotation_to_first 4 which_down) 0)) else do {
         m \<leftarrow> and_also (eq_at av2v (a_begin + 1) bv2v (b_begin + (which_down + 3) smod 4))
                       (eq_at av2v (a_begin + 3) bv2v (b_begin + (which_down + 1) smod 4));
         Some (if m then Some (make_code True (rotation_to_first 4 which_down) 0) else None)
       }
     }
   }"

definition is_match :: "int \<Rightarrow> int list \<Rightarrow> lo \<Rightarrow> int list \<Rightarrow> lo \<Rightarrow> int \<Rightarrow> i8 option option" where
  "is_match deg = (if deg = 2 then is_match_2 else if deg = 3 then is_match_3 else is_match_4)"

text \<open>One entity around the first vertex; the state says whether the loop was left, whether a match was found.\<close>

definition try_match ::
    "int \<Rightarrow> int list \<Rightarrow> int list \<Rightarrow> adj \<Rightarrow> bool \<Rightarrow> lo \<Rightarrow> lo \<Rightarrow>
     bool \<times> bool \<times> lo option list \<times> i8 option list \<Rightarrow>
     (bool \<times> bool \<times> lo option list \<times> i8 option list) option" where
  "try_match deg av2v bv2v v2b allow_duplicates a vb = (\<lambda>(left, found, a2b, codes).
     if left then Some (left, found, a2b, codes) else do {
       b \<leftarrow> rd (ab2b v2b) vb;
       vb_codes \<leftarrow> adj_codes v2b;
       vb_code \<leftarrow> rd vb_codes vb;
       let which_down = code_which_down vb_code;
       m \<leftarrow> is_match deg av2v (a * deg) bv2v (b * deg) which_down;
       (case m of
          None \<Rightarrow> Some (left, found, a2b, codes)
        | Some match_code \<Rightarrow> do {
            omega_check (\<not> found);
            a2b \<leftarrow> wr a2b a (Some b);
            codes \<leftarrow> wr codes a (Some match_code);
            Some (allow_duplicates, True, a2b, codes)
          })
     })"

definition find_matches_deg ::
    "int \<Rightarrow> lo list \<Rightarrow> int list \<Rightarrow> int list \<Rightarrow> adj \<Rightarrow> bool \<Rightarrow> (lo list \<times> i8 list) option" where
  "find_matches_deg deg a2fv av2v bv2v v2b allow_duplicates = do {
     let na = asize a2fv;
     omega_check (na * deg = asize av2v);
     a2b \<leftarrow> alloc na;
     codes \<leftarrow> alloc na;
     (a2b, codes) \<leftarrow> parallel_for na (\<lambda>a (a2b, codes). do {
       fv \<leftarrow> rd a2fv a;
       vb_begin \<leftarrow> rd (a2ab v2b) fv;
       vb_end \<leftarrow> rd (a2ab v2b) (fv + 1);
       (left, found, a2b, codes) \<leftarrow>
         for_range vb_begin vb_end (try_match deg av2v bv2v v2b allow_duplicates a) (False, False, a2b, codes);
       omega_check found;
       Some (a2b, codes)
     }) (a2b, codes);
     a2b \<leftarrow> freeze a2b;
     codes \<leftarrow> freeze codes;
     Some (a2b, codes)
   }"

definition find_matches_ex ::
    "int \<Rightarrow> lo list \<Rightarrow> int list \<Rightarrow> int list \<Rightarrow> adj \<Rightarrow> bool \<Rightarrow> (lo list \<times> i8 list) option" where
  "find_matches_ex deg a2fv av2v bv2v v2b allow_duplicates =
     (if deg = 2 then find_matches_deg 2 a2fv av2v bv2v v2b allow_duplicates
      else if deg = 3 then find_matches_deg 3 a2fv av2v bv2v v2b allow_duplicates
      else if deg = 4 then find_matches_deg 4 a2fv av2v bv2v v2b allow_duplicates
      else None)"

definition find_matches :: "family \<Rightarrow> int \<Rightarrow> lo list \<Rightarrow> lo list \<Rightarrow> adj \<Rightarrow> (lo list \<times> i8 list) option" where
  "find_matches family dim av2v bv2v v2b = do {
     omega_check (dim \<le> 2);
     let deg = element_degree family dim 0;
     a2fv \<leftarrow> get_component av2v deg 0;
     find_matches_ex deg a2fv av2v bv2v v2b False
   }"

definition find_matches_types :: "topo_type \<Rightarrow> lo list \<Rightarrow> lo list \<Rightarrow> adj \<Rightarrow> (lo list \<times> i8 list) option" where
  "find_matches_types ent_type av2v bv2v v2b = do {
     omega_check (topo_int ent_type \<le> 3);
     let deg = topo_degree ent_type Vertex;
     a2fv \<leftarrow> get_component av2v deg 0;
     find_matches_ex deg a2fv av2v bv2v v2b False
   }"

definition reflect_down :: "lo list \<Rightarrow> lo list \<Rightarrow> adj \<Rightarrow> family \<Rightarrow> int \<Rightarrow> int \<Rightarrow> adj option" where
  "reflect_down hv2v lv2v v2l family high_dim low_dim = do {
     uv2v \<leftarrow> form_uses hv2v family high_dim low_dim;
     (hl2l, codes) \<leftarrow> find_matches family low_dim uv2v lv2v v2l;
     Some \<lparr>a2ab = [], ab2b = hl2l, adj_codes = Some codes\<rparr>
   }"

definition reflect_down_types :: "lo list \<Rightarrow> lo list \<Rightarrow> adj \<Rightarrow> topo_type \<Rightarrow> topo_type \<Rightarrow> adj option" where
  "reflect_down_types hv2v lv2v v2l high_type low_type = do {
     uv2v \<leftarrow> form_uses_types hv2v high_type low_type;
     (hl2l, codes) \<leftarrow> find_matches_types low_type uv2v lv2v v2l;
     Some \<lparr>a2ab = [], ab2b = hl2l, adj_codes = Some codes\<rparr>
   }"

definition reflect_down_nv ::
    "lo list \<Rightarrow> lo list \<Rightarrow> lo list \<Rightarrow> lo list \<Rightarrow> family \<Rightarrow> lo \<Rightarrow> int \<Rightarrow> int \<Rightarrow> adj option" where
  "reflect_down_nv count_order fill_order hv2v lv2v family nv high_dim low_dim = do {
     let nverts_per_low = element_degree family low_dim 0;
     let l2v = \<lparr>a2ab = [], ab2b = lv2v, adj_codes = None\<rparr>;
     v2l \<leftarrow> invert_adj count_order fill_order l2v nverts_per_low nv high_dim low_dim;
     reflect_down hv2v lv2v v2l family high_dim low_dim
   }"

section \<open>Comparing vertex lists\<close>

text \<open>The comparison as a function of the two vertex lists.\<close>

definition match_rows :: "int \<Rightarrow> int list \<Rightarrow> int list \<Rightarrow> int \<Rightarrow> i8 option" where
  "match_rows n a b w = the (is_match n a 0 b 0 w)"

lemma eq_at_rows:
  assumes "asize av = na * n" "asize bv = nb * n" "0 \<le> a" "a < na" "0 \<le> b" "b < nb"
    and "0 \<le> i" "i < n" "0 \<le> j" "j < n"
  shows "eq_at av (a * n + i) bv (b * n + j) = Some (row n av a ! nat i = row n bv b ! nat j)"
  using int_row_bound(1) [OF assms(3,4,7,8,1)] int_row_bound(1) [OF assms(5,6,9,10,2)] assms(7-10)
  by (simp add: eq_at_def nth_row)

lemma eq_at_row_self:
  assumes "0 \<le> i" "i < n" "0 \<le> j" "j < n"
  shows "eq_at (row n av a) (0 + i) (row n bv b) (0 + j) = Some (row n av a ! nat i = row n bv b ! nat j)"
  using assms by (simp add: eq_at_def rd_Some)

lemma is_match_rows:
  assumes n: "n \<in> {2, 3, 4}" and "asize av = na * n" "asize bv = nb * n" "0 \<le> a" "a < na" "0 \<le> b" "b < nb"
    and w: "0 \<le> w" "w < n"
  shows "is_match n av (a * n) bv (b * n) w = Some (match_rows n (row n av a) (row n bv b) w)"
proof -
  note ea = eq_at_rows [OF assms(2-7)]
  have w3: "0 \<le> (w + i) smod n" "(w + i) smod n < n" if "0 \<le> i" for i
    using n w that by (auto simp: smod_nonneg)
  consider "n = 2" | "n = 3" | "n = 4" using n by auto
  then show ?thesis
  proof cases
    case 1
    then show ?thesis
      using w ea [of 1 "1 - w"] eq_at_row_self [of 1 n "1 - w" av a bv b]
      by (simp add: match_rows_def is_match_def is_match_2_def)
  next
    case 2
    note s = w3 [of 1] w3 [of 2]
    then show ?thesis
      using 2 ea [of 1 "(w + 1) smod 3"] ea [of 2 "(w + 2) smod 3"] ea [of 1 "(w + 2) smod 3"] ea [of 2 "(w + 1) smod 3"]
        eq_at_row_self [of 1 n "(w + 1) smod 3" av a bv b] eq_at_row_self [of 2 n "(w + 2) smod 3" av a bv b]
        eq_at_row_self [of 1 n "(w + 2) smod 3" av a bv b] eq_at_row_self [of 2 n "(w + 1) smod 3" av a bv b]
      by (simp add: match_rows_def is_match_def is_match_3_def and_also_def)
  next
    case 3
    note s = w3 [of 1] w3 [of 2] w3 [of 3]
    then show ?thesis
      using 3 ea [of 1 "(w + 1) smod 4"] ea [of 2 "(w + 2) smod 4"] ea [of 3 "(w + 3) smod 4"]
        ea [of 1 "(w + 3) smod 4"] ea [of 3 "(w + 1) smod 4"]
        eq_at_row_self [of 1 n "(w + 1) smod 4" av a bv b] eq_at_row_self [of 2 n "(w + 2) smod 4" av a bv b]
        eq_at_row_self [of 3 n "(w + 3) smod 4" av a bv b]
        eq_at_row_self [of 1 n "(w + 3) smod 4" av a bv b] eq_at_row_self [of 3 n "(w + 1) smod 4" av a bv b]
      by (simp add: match_rows_def is_match_def is_match_4_def and_also_def)
  qed
qed

text \<open>
  What the search relies on: for a use and an entity that share the first vertex of the use, the
  comparison returns a code that turns the entity into the use, and it finds one when there is one.
\<close>

locale matcher =
  fixes n :: int and match :: "int list \<Rightarrow> int list \<Rightarrow> int \<Rightarrow> i8 option"
  assumes n: "n \<in> {2, 3, 4}"
    and sound: "asize a = n \<Longrightarrow> asize b = n \<Longrightarrow> 0 \<le> w \<Longrightarrow> w < n \<Longrightarrow> a ! 0 = b ! nat w \<Longrightarrow>
      match a b w = Some c \<Longrightarrow> a = align_row n c b"
    and complete: "asize b = n \<Longrightarrow> distinct b \<Longrightarrow> 0 \<le> w \<Longrightarrow> w < n \<Longrightarrow>
      align_row n c b ! 0 = b ! nat w \<Longrightarrow> match (align_row n c b) b w \<noteq> None"
begin

lemma match_same_entity:
  assumes "asize a = n" "asize b = n" "distinct b" "0 \<le> w" "w < n" "a ! 0 = b ! nat w"
  shows "match a b w \<noteq> None \<longleftrightarrow> same_entity n b a"
  using sound [OF assms(1,2,4,5,6)] complete [OF assms(2,3,4,5)] assms(6) unfolding same_entity_def by blast

lemma first_vertex:
  assumes "asize a = n" "asize b = n" "same_entity n b a"
  shows "\<exists>w. 0 \<le> w \<and> w < n \<and> a ! 0 = b ! nat w"
proof -
  obtain c where "a = align_row n c b" using assms(3) unfolding same_entity_def by blast
  then have "set a = set b" using set_align_row [OF n assms(2)] by simp
  moreover have "a ! 0 \<in> set a" using nth_int_mem [of 0 a] assms(1) n by auto
  ultimately show ?thesis using assms(2) by (auto simp: in_set_int_conv)
qed

end

text \<open>The vertex permutations that the codes stand for, as explicit lists.\<close>

lemma act_lists:
  "\<forall>f \<in> set [False, True]. \<forall>r \<in> set [0..3].
     map (act_vert 2 f r) [0..1] \<in> set [[0, 1], [1, 0]] \<and>
     map (act_vert 3 f r) [0..2] \<in> set [[0, 1, 2], [1, 2, 0], [2, 0, 1], [0, 2, 1], [2, 1, 0], [1, 0, 2]] \<and>
     map (act_vert 4 f r) [0..3] \<in> set [[0, 1, 2, 3], [1, 2, 3, 0], [2, 3, 0, 1], [3, 0, 1, 2],
       [0, 3, 2, 1], [3, 2, 1, 0], [2, 1, 0, 3], [1, 0, 3, 2]]"
  by code_simp

lemma align_row_act:
  "align_row n c r = map (\<lambda>i. r ! nat i)
     (map (act_vert n (code_is_flipped (invert_alignment n c)) (code_rotation (invert_alignment n c))) [0..n - 1])"
  by (simp add: align_row_def align_vert_index_act)

lemma map_nth_mem:
  assumes "p \<in> set ps"
  shows "map (\<lambda>i. r ! nat i) p \<in> set (map (map (\<lambda>i. r ! nat i)) ps)"
  using assms by simp

lemma align_row_lists:
  "align_row 2 c [x, y] \<in> set [[x, y], [y, x]]"
  "align_row 3 c [x, y, z] \<in> set [[x, y, z], [y, z, x], [z, x, y], [x, z, y], [z, y, x], [y, x, z]]"
  "align_row 4 c [x, y, z, t] \<in> set [[x, y, z, t], [y, z, t, x], [z, t, x, y], [t, x, y, z],
     [x, t, z, y], [t, z, y, x], [z, y, x, t], [y, x, t, z]]"
proof -
  note table = act_lists [THEN bspec, OF bool_range, THEN bspec, OF code_rotation_range]
  show "align_row 2 c [x, y] \<in> set [[x, y], [y, x]]"
    using map_nth_mem [OF table [THEN conjunct1], of "[x, y]" "code_is_flipped (invert_alignment 2 c)" "invert_alignment 2 c"]
    unfolding align_row_act by simp
  show "align_row 3 c [x, y, z] \<in> set [[x, y, z], [y, z, x], [z, x, y], [x, z, y], [z, y, x], [y, x, z]]"
    using map_nth_mem [OF table [THEN conjunct2, THEN conjunct1], of "[x, y, z]"
      "code_is_flipped (invert_alignment 3 c)" "invert_alignment 3 c"]
    unfolding align_row_act by simp
  show "align_row 4 c [x, y, z, t] \<in> set [[x, y, z, t], [y, z, t, x], [z, t, x, y], [t, x, y, z],
     [x, t, z, y], [t, z, y, x], [z, y, x, t], [y, x, t, z]]"
    using map_nth_mem [OF table [THEN conjunct2, THEN conjunct2], of "[x, y, z, t]"
      "code_is_flipped (invert_alignment 4 c)" "invert_alignment 4 c"]
    unfolding align_row_act by simp
qed

definition act_list :: "int \<Rightarrow> i8 \<Rightarrow> int list" where
  "act_list n c = map (\<lambda>i. align_vert_index n i (invert_alignment n c)) [0..n - 1]"

lemma align_row_list: "align_row n c r = map (\<lambda>i. r ! nat i) (act_list n c)"
  by (simp add: align_row_def act_list_def)

lemma match_code_lists:
  "act_list 2 (make_code False 0 0) = [0, 1]" "act_list 2 (make_code False 1 0) = [1, 0]"
  "act_list 3 (make_code False (rotation_to_first 3 0) 0) = [0, 1, 2]"
  "act_list 3 (make_code False (rotation_to_first 3 1) 0) = [1, 2, 0]"
  "act_list 3 (make_code False (rotation_to_first 3 2) 0) = [2, 0, 1]"
  "act_list 3 (make_code True (rotation_to_first 3 0) 0) = [0, 2, 1]"
  "act_list 3 (make_code True (rotation_to_first 3 1) 0) = [1, 0, 2]"
  "act_list 3 (make_code True (rotation_to_first 3 2) 0) = [2, 1, 0]"
  "act_list 4 (make_code False (rotation_to_first 4 0) 0) = [0, 1, 2, 3]"
  "act_list 4 (make_code False (rotation_to_first 4 1) 0) = [1, 2, 3, 0]"
  "act_list 4 (make_code False (rotation_to_first 4 2) 0) = [2, 3, 0, 1]"
  "act_list 4 (make_code False (rotation_to_first 4 3) 0) = [3, 0, 1, 2]"
  "act_list 4 (make_code True (rotation_to_first 4 0) 0) = [0, 3, 2, 1]"
  "act_list 4 (make_code True (rotation_to_first 4 1) 0) = [1, 0, 3, 2]"
  "act_list 4 (make_code True (rotation_to_first 4 2) 0) = [2, 1, 0, 3]"
  "act_list 4 (make_code True (rotation_to_first 4 3) 0) = [3, 2, 1, 0]"
  by code_simp+

lemma asize_explicit:
  "asize a = 2 \<longleftrightarrow> (\<exists>x y. a = [x, y])" "asize a = 3 \<longleftrightarrow> (\<exists>x y z. a = [x, y, z])"
  "asize a = 4 \<longleftrightarrow> (\<exists>x y z t. a = [x, y, z, t])"
  by (auto simp: asize_def numeral_eq_Suc length_Suc_conv eval_nat_numeral)

text \<open>The comparison on explicit lists.\<close>

definition match_code :: "int \<Rightarrow> bool \<Rightarrow> int \<Rightarrow> i8" where
  "match_code n f w = make_code f (rotation_to_first n w) 0"

lemma match_rows_2:
  "match_rows 2 [a, b] [x, y] 0 = (if b = y then Some (make_code False 0 0) else None)"
  "match_rows 2 [a, b] [x, y] 1 = (if b = x then Some (make_code False 1 0) else None)"
  by (simp_all add: match_rows_def is_match_def is_match_2_def eq_at_def rd_def)

lemma match_rows_3:
  "match_rows 3 [a, b, c] [x, y, z] 0 =
     (if b = y \<and> c = z then Some (match_code 3 False 0) else if b = z \<and> c = y then Some (match_code 3 True 0) else None)"
  "match_rows 3 [a, b, c] [x, y, z] 1 =
     (if b = z \<and> c = x then Some (match_code 3 False 1) else if b = x \<and> c = z then Some (match_code 3 True 1) else None)"
  "match_rows 3 [a, b, c] [x, y, z] 2 =
     (if b = x \<and> c = y then Some (match_code 3 False 2) else if b = y \<and> c = x then Some (match_code 3 True 2) else None)"
  by (simp_all add: match_rows_def is_match_def is_match_3_def and_also_def eq_at_def rd_def smod_nonneg match_code_def)

lemma match_rows_4:
  "match_rows 4 [a, b, c, d] [x, y, z, t] 0 = (if c \<noteq> z then None else
     if b = y \<and> d = t then Some (match_code 4 False 0) else if b = t \<and> d = y then Some (match_code 4 True 0) else None)"
  "match_rows 4 [a, b, c, d] [x, y, z, t] 1 = (if c \<noteq> t then None else
     if b = z \<and> d = x then Some (match_code 4 False 1) else if b = x \<and> d = z then Some (match_code 4 True 1) else None)"
  "match_rows 4 [a, b, c, d] [x, y, z, t] 2 = (if c \<noteq> x then None else
     if b = t \<and> d = y then Some (match_code 4 False 2) else if b = y \<and> d = t then Some (match_code 4 True 2) else None)"
  "match_rows 4 [a, b, c, d] [x, y, z, t] 3 = (if c \<noteq> y then None else
     if b = x \<and> d = z then Some (match_code 4 False 3) else if b = z \<and> d = x then Some (match_code 4 True 3) else None)"
  by (simp_all add: match_rows_def is_match_def is_match_4_def and_also_def eq_at_def rd_def smod_nonneg match_code_def)

lemma align_row_match_code:
  "align_row 2 (make_code False 0 0) [x, y] = [x, y]" "align_row 2 (make_code False 1 0) [x, y] = [y, x]"
  "align_row 3 (match_code 3 False 0) [x, y, z] = [x, y, z]" "align_row 3 (match_code 3 True 0) [x, y, z] = [x, z, y]"
  "align_row 3 (match_code 3 False 1) [x, y, z] = [y, z, x]" "align_row 3 (match_code 3 True 1) [x, y, z] = [y, x, z]"
  "align_row 3 (match_code 3 False 2) [x, y, z] = [z, x, y]" "align_row 3 (match_code 3 True 2) [x, y, z] = [z, y, x]"
  "align_row 4 (match_code 4 False 0) [x, y, z, t] = [x, y, z, t]" "align_row 4 (match_code 4 True 0) [x, y, z, t] = [x, t, z, y]"
  "align_row 4 (match_code 4 False 1) [x, y, z, t] = [y, z, t, x]" "align_row 4 (match_code 4 True 1) [x, y, z, t] = [y, x, t, z]"
  "align_row 4 (match_code 4 False 2) [x, y, z, t] = [z, t, x, y]" "align_row 4 (match_code 4 True 2) [x, y, z, t] = [z, y, x, t]"
  "align_row 4 (match_code 4 False 3) [x, y, z, t] = [t, x, y, z]" "align_row 4 (match_code 4 True 3) [x, y, z, t] = [t, z, y, x]"
  by (simp_all add: match_code_def align_row_list match_code_lists)

lemma matched_2:
  assumes "r \<in> set [[x, y], [y, x]]" "w \<in> {0, 1}" "distinct [x, y]" "r ! 0 = [x, y] ! nat w"
  shows "match_rows 2 r [x, y] w \<noteq> None"
  using assms(1,2) unfolding list.set
  by (elim insertE emptyE) (use assms(3,4) in \<open>simp_all add: match_rows_2\<close>)

lemma matched_3:
  assumes "r \<in> set [[x, y, z], [y, z, x], [z, x, y], [x, z, y], [z, y, x], [y, x, z]]" "w \<in> {0, 1, 2}"
    and "distinct [x, y, z]" "r ! 0 = [x, y, z] ! nat w"
  shows "match_rows 3 r [x, y, z] w \<noteq> None"
  using assms(1,2) unfolding list.set
  by (elim insertE emptyE) (use assms(3,4) in \<open>simp_all add: match_rows_3\<close>)

lemma matched_4:
  assumes "r \<in> set [[x, y, z, t], [y, z, t, x], [z, t, x, y], [t, x, y, z],
     [x, t, z, y], [t, z, y, x], [z, y, x, t], [y, x, t, z]]" "w \<in> {0, 1, 2, 3}"
    and "distinct [x, y, z, t]" "r ! 0 = [x, y, z, t] ! nat w"
  shows "match_rows 4 r [x, y, z, t] w \<noteq> None"
  using assms(1,2) unfolding list.set
  by (elim insertE emptyE) (use assms(3,4) in \<open>simp_all add: match_rows_4\<close>)

interpretation edge_matcher: matcher 2 "match_rows 2"
proof unfold_locales
  fix a b :: "int list" and w :: int and c
  assume a: "asize b = 2" "0 \<le> w" "w < 2"
  obtain x y where b: "b = [x, y]" using a(1) unfolding asize_explicit by blast
  have w: "w \<in> {0, 1}" using a(2,3) by auto
  show "a = align_row 2 c b" if "asize a = 2" "a ! 0 = b ! nat w" "match_rows 2 a b w = Some c"
    using that w unfolding asize_explicit b
    by (elim exE insertE emptyE) (auto simp: match_rows_2 align_row_match_code split: if_splits)
  show "match_rows 2 (align_row 2 c b) b w \<noteq> None" if "distinct b" "align_row 2 c b ! 0 = b ! nat w"
    unfolding b by (rule matched_2 [OF align_row_lists(1) w]) (use that b in simp_all)
qed simp

interpretation triangle_matcher: matcher 3 "match_rows 3"
proof unfold_locales
  fix a b :: "int list" and w :: int and c
  assume a: "asize b = 3" "0 \<le> w" "w < 3"
  obtain x y z where b: "b = [x, y, z]" using a(1) unfolding asize_explicit by blast
  have w: "w \<in> {0, 1, 2}" using a(2,3) by auto
  show "a = align_row 3 c b" if "asize a = 3" "a ! 0 = b ! nat w" "match_rows 3 a b w = Some c"
    using that w unfolding asize_explicit b
    by (elim exE insertE emptyE) (auto simp: match_rows_3 align_row_match_code split: if_splits)
  show "match_rows 3 (align_row 3 c b) b w \<noteq> None" if "distinct b" "align_row 3 c b ! 0 = b ! nat w"
    unfolding b by (rule matched_3 [OF align_row_lists(2) w]) (use that b in simp_all)
qed simp

interpretation quad_matcher: matcher 4 "match_rows 4"
proof unfold_locales
  fix a b :: "int list" and w :: int and c
  assume a: "asize b = 4" "0 \<le> w" "w < 4"
  obtain x y z t where b: "b = [x, y, z, t]" using a(1) unfolding asize_explicit by blast
  have w: "w \<in> {0, 1, 2, 3}" using a(2,3) by auto
  show "a = align_row 4 c b" if "asize a = 4" "a ! 0 = b ! nat w" "match_rows 4 a b w = Some c"
    using that w unfolding asize_explicit b
    by (elim exE insertE emptyE) (auto simp: match_rows_4 align_row_match_code split: if_splits)
  show "match_rows 4 (align_row 4 c b) b w \<noteq> None" if "distinct b" "align_row 4 c b ! 0 = b ! nat w"
    unfolding b by (rule matched_4 [OF align_row_lists(3) w]) (use that b in simp_all)
qed simp

lemma match_rows_same_entity:
  assumes "n \<in> {2, 3, 4}" "asize a = n" "asize b = n" "distinct b" "0 \<le> w" "w < n" "a ! 0 = b ! nat w"
  shows "match_rows n a b w \<noteq> None \<longleftrightarrow> same_entity n b a"
    and "match_rows n a b w = Some c \<Longrightarrow> a = align_row n c b"
proof -
  have m: "matcher n (match_rows n)"
    using assms(1) edge_matcher.matcher_axioms triangle_matcher.matcher_axioms quad_matcher.matcher_axioms by auto
  show "match_rows n a b w \<noteq> None \<longleftrightarrow> same_entity n b a"
    by (rule matcher.match_same_entity [OF m assms(2-7)])
  show "a = align_row n c b" if "match_rows n a b w = Some c"
    by (rule matcher.sound [OF m assms(2,3,5,6,7) that])
qed

lemma first_vertex_of:
  assumes "n \<in> {2, 3, 4}" "asize a = n" "asize b = n" "same_entity n b a"
  shows "\<exists>w. 0 \<le> w \<and> w < n \<and> a ! 0 = b ! nat w"
  using assms edge_matcher.first_vertex triangle_matcher.first_vertex quad_matcher.first_vertex by blast

lemma match_rows_2_rotation:
  assumes "asize a = 2" "asize b = 2" "0 \<le> w" "w < 2" "match_rows 2 a b w = Some c"
  shows "code_rotation c < 2"
proof -
  have w: "w \<in> {0, 1}" using assms(3,4) by auto
  have "code_rotation (make_code False 0 0) < 2" "code_rotation (make_code False 1 0) < 2" by code_simp+
  then show ?thesis
    using assms(1,2,5) w unfolding asize_explicit by (auto simp: match_rows_2 split: if_splits)
qed

section \<open>The search\<close>

text \<open>A scan that must hit exactly one element of its row.\<close>

lemma scan_unique:
  assumes hit: "filter M xs = [x]"
    and step: "\<And>j found s t. j < length xs \<Longrightarrow> length s = m \<Longrightarrow> length t = m \<Longrightarrow> f (int (p + j)) (False, found, s, t) =
      (if M (xs ! j) then (if found then None else Some (False, True, s[u := h (xs ! j)], t[u := g (xs ! j)]))
       else Some (False, found, s, t))"
    and len: "length s = m" "length t = m"
  shows "for_range (int p) (int (p + length xs)) f (False, False, s, t) = Some (False, True, s[u := h x], t[u := g x])"
proof -
  let ?P = "\<lambda>k st. case filter M (take (nat (k - int p)) xs) of [] \<Rightarrow> st = (False, False, s, t)
      | y # ys \<Rightarrow> st = (False, True, s[u := h x], t[u := g x])"
  have "\<exists>st. for_range (int p) (int (p + length xs)) f (False, False, s, t) = Some st \<and> ?P (int (p + length xs)) st"
  proof (rule for_range_rule [where P = ?P])
    fix i st assume i: "int p \<le> i" "i < int (p + length xs)" and P: "?P i st"
    obtain j where j: "i = int (p + j)" "j < length xs"
      using i by (intro that [of "nat (i - int p)"]) auto
    have tk: "take (Suc j) xs = take j xs @ [xs ! j]" by (rule take_Suc_conv_app_nth [OF j(2)])
    have "xs = take j xs @ xs ! j # drop (Suc j) xs" by (rule id_take_nth_drop [OF j(2)])
    then have all: "filter M (take j xs) @ filter M [xs ! j] @ filter M (drop (Suc j) xs) = [x]"
      using hit by (metis append_Cons append_Nil filter_append)
    have nats: "nat (int (p + j) - int p) = j" "nat (int (p + j) + 1 - int p) = Suc j" by auto
    show "\<exists>st'. f i st = Some st' \<and> ?P (i + 1) st'"
    proof (cases "M (xs ! j)")
      case True
      then have "filter M (take j xs) = []" "xs ! j = x" using all by (auto simp: append_eq_Cons_conv)
      then show ?thesis using P step [OF j(2) len] True unfolding j(1) nats tk by simp
    next
      case False
      then show ?thesis using P step [OF j(2)] len unfolding j(1) nats tk by (auto split: list.splits)
    qed
  qed simp_all
  then show ?thesis using hit by auto
qed

lemma filter_single:
  assumes "distinct xs" "x \<in> set xs" "\<And>y. y \<in> set xs \<Longrightarrow> M y \<longleftrightarrow> y = x"
  shows "filter M xs = [x]"
proof -
  have "filter M xs = filter (\<lambda>y. y = x) xs" by (rule filter_cong) (simp_all add: assms(3))
  also have "\<dots> = [x]" using assms(1,2)
  proof (induction xs)
    case (Cons a xs)
    show ?case
    proof (cases "a = x")
      case True
      then have "filter (\<lambda>y. y = x) xs = []" using Cons.prems by (auto simp: filter_empty_conv)
      then show ?thesis using True by simp
    next
      case False
      then show ?thesis using Cons by simp
    qed
  qed simp
  finally show ?thesis .
qed

text \<open>The fibre of the first vertex of a use contains exactly one cell of the entity of the use.\<close>

lemma fibre_hit:
  assumes n: "0 < n" and lv: "asize lv = nb * n"
    and d: "distinct (row n lv b)" and b: "0 \<le> b" "b < nb" and w: "0 \<le> w" "w < n" "row n lv b ! nat w = v"
  shows "filter (\<lambda>hl. hl div n = b) (filter (\<lambda>hl. lv ! nat hl = v) [0..asize lv - 1]) = [b * n + w]"
proof (rule filter_single)
  have c: "0 \<le> b * n + w \<and> b * n + w < nb * n" by (rule row_index_bound [OF w(1,2) b])
  then show "b * n + w \<in> set (filter (\<lambda>hl. lv ! nat hl = v) [0..asize lv - 1])"
    using w lv by (simp add: nth_row)
  fix y assume "y \<in> set (filter (\<lambda>hl. lv ! nat hl = v) [0..asize lv - 1])"
  then have y: "0 \<le> y" "y < nb * n" "lv ! nat y = v" using lv by simp_all
  show "y div n = b \<longleftrightarrow> y = b * n + w"
  proof
    assume "y div n = b"
    then have yb: "y = b * n + y mod n" using div_mult_mod_eq [of y n] by simp
    have m: "0 \<le> y mod n" "y mod n < n" using n by simp_all
    have "row n lv b ! nat (y mod n) = v" using y(3) m yb by (simp add: nth_row)
    then have "y mod n = w" using distinct_nth_int_eq [OF d, of "y mod n" w] m w n by simp
    then show "y = b * n + w" using yb by simp
  next
    assume "y = b * n + w"
    then show "y div n = b" using w by simp
  qed
qed simp

text \<open>The upward adjacency that the search reads: that of the vertices of the entities.\<close>

definition vertex_up :: "int \<Rightarrow> lo list \<Rightarrow> lo \<Rightarrow> adj \<Rightarrow> bool" where
  "vertex_up n lv nv up \<longleftrightarrow> (let F = fibres [0..asize lv - 1] lv nv in
     a2ab up = offsets (sizes F) \<and> ab2b up = map (\<lambda>hl. hl div n) (concat F) \<and>
     (\<exists>C. adj_codes up = Some (map C (concat F)) \<and> (\<forall>hl \<in> set (concat F). code_which_down (C hl) = hl mod n)))"

lemma try_match_cell:
  assumes n: "n \<in> {2, 3, 4}" and lv: "asize lv = nb * n" and up: "vertex_up n lv nv up"
    and uv: "asize uv = na * n" and a: "0 \<le> a" "a < na" and st: "asize s = na" "asize t = na"
    and d: "\<And>b. 0 \<le> b \<Longrightarrow> b < nb \<Longrightarrow> distinct (row n lv b)"
    and v: "v < nat nv" "row n uv a ! 0 = int v"
    and j: "j < length (fibres [0..asize lv - 1] lv nv ! v)" "hl = fibres [0..asize lv - 1] lv nv ! v ! j"
  shows "try_match n uv lv up False a (int (row_start (fibres [0..asize lv - 1] lv nv) v + j)) (False, found, s, t) =
    (if same_entity n (row n lv (hl div n)) (row n uv a)
     then if found then None
       else Some (False, True, s[nat a := Some (hl div n)],
         t[nat a := match_rows n (row n uv a) (row n lv (hl div n)) (hl mod n)])
     else Some (False, found, s, t))"
proof -
  let ?F = "fibres [0..asize lv - 1] lv nv"
  let ?k = "row_start ?F v + j"
  have n0: "0 < n" using n by auto
  have k: "?k < length (concat ?F)" "concat ?F ! ?k = hl"
    using concat_cell [of v ?F j] v(1) j by simp_all
  obtain C where C: "a2ab up = offsets (sizes ?F)" "ab2b up = map (\<lambda>hl. hl div n) (concat ?F)"
    "adj_codes up = Some (map C (concat ?F))" "\<And>hl. hl \<in> set (concat ?F) \<Longrightarrow> code_which_down (C hl) = hl mod n"
    using up unfolding vertex_up_def Let_def by blast
  have "hl \<in> set (?F ! v)" using j by simp
  then have hl: "0 \<le> hl" "hl < nb * n" "lv ! nat hl = int v"
    using v(1) lv by (simp_all add: nth_fibres)
  have b: "0 \<le> hl div n" "hl div n < nb" and w: "0 \<le> hl mod n" "hl mod n < n"
    using hl n0 div_less_rows by (simp_all add: pos_imp_zdiv_nonneg_iff)
  have cell: "row n lv (hl div n) ! nat (hl mod n) = int v" using hl(3) w by (simp add: nth_row)
  have rd1: "rd (ab2b up) (int ?k) = Some (hl div n)" "rd (map C (concat ?F)) (int ?k) = Some (C hl)"
    using k by (simp_all add: C(2) del: of_nat_add)
  have wd: "code_which_down (C hl) = hl mod n" using C(4) k nth_mem by metis
  have m: "is_match n uv (a * n) lv (hl div n * n) (hl mod n) =
      Some (match_rows n (row n uv a) (row n lv (hl div n)) (hl mod n))"
    by (rule is_match_rows [OF n uv lv a b w])
  have first: "row n uv a ! 0 = row n lv (hl div n) ! nat (hl mod n)" using v(2) cell by simp
  have "match_rows n (row n uv a) (row n lv (hl div n)) (hl mod n) \<noteq> None \<longleftrightarrow>
      same_entity n (row n lv (hl div n)) (row n uv a)"
    using n0 by (intro match_rows_same_entity(1) [OF n _ _ d [OF b] w first]) simp_all
  then show ?thesis
    using a st by (auto simp: try_match_def rd1 C(3) wd m wr_Some simp del: of_nat_add)
qed

lemma find_matches_deg_ex:
  assumes n: "n \<in> {2, 3, 4}" and lv: "asize lv = nb * n" and up: "vertex_up n lv nv up"
    and uv: "asize uv = na * n" "0 \<le> na"
    and rng: "\<And>v. v \<in> set lv \<Longrightarrow> 0 \<le> v \<and> v < nv"
    and d: "\<And>b. 0 \<le> b \<Longrightarrow> b < nb \<Longrightarrow> distinct (row n lv b)"
    and one: "\<And>a. 0 \<le> a \<Longrightarrow> a < na \<Longrightarrow> \<exists>!b. 0 \<le> b \<and> b < nb \<and> same_entity n (row n lv b) (row n uv a)"
  shows "\<exists>a2b codes. find_matches_deg n (map (\<lambda>i. uv ! nat (int i * n)) [0..<nat na]) uv lv up False = Some (a2b, codes) \<and>
    asize a2b = na \<and> asize codes = na \<and>
    (\<forall>a. 0 \<le> a \<and> a < na \<longrightarrow> 0 \<le> a2b ! nat a \<and> a2b ! nat a < nb \<and>
       row n uv a = align_row n (codes ! nat a) (row n lv (a2b ! nat a)) \<and>
       (n = 2 \<longrightarrow> code_rotation (codes ! nat a) < 2))"
proof -
  let ?F = "fibres [0..asize lv - 1] lv nv"
  have n0: "0 < n" using n by auto
  have "\<forall>i. \<exists>bwc. i < nat na \<longrightarrow> (case bwc of (b, w, c) \<Rightarrow> 0 \<le> b \<and> b < nb \<and> same_entity n (row n lv b) (row n uv (int i)) \<and>
      0 \<le> w \<and> w < n \<and> row n uv (int i) ! 0 = row n lv b ! nat w \<and>
      match_rows n (row n uv (int i)) (row n lv b) w = Some c)"
  proof
    fix i
    show "\<exists>bwc. i < nat na \<longrightarrow> (case bwc of (b, w, c) \<Rightarrow> 0 \<le> b \<and> b < nb \<and> same_entity n (row n lv b) (row n uv (int i)) \<and>
      0 \<le> w \<and> w < n \<and> row n uv (int i) ! 0 = row n lv b ! nat w \<and>
      match_rows n (row n uv (int i)) (row n lv b) w = Some c)"
    proof (cases "i < nat na")
      case True
      then have "int i < na" by (simp add: zless_nat_eq_int_zless)
      then obtain b where b: "0 \<le> b" "b < nb" "same_entity n (row n lv b) (row n uv (int i))"
        using ex1_implies_ex [OF one [of "int i"]] by auto
      have len: "asize (row n uv (int i)) = n" "asize (row n lv b) = n" using n0 by simp_all
      obtain w where w: "0 \<le> w" "w < n" "row n uv (int i) ! 0 = row n lv b ! nat w"
        using first_vertex_of [OF n len b(3)] by blast
      have "match_rows n (row n uv (int i)) (row n lv b) w \<noteq> None"
        using match_rows_same_entity(1) [OF n len d [OF b(1,2)] w] b(3) by simp
      then obtain c where "match_rows n (row n uv (int i)) (row n lv b) w = Some c" by blast
      then show ?thesis using b w by (intro exI [of _ "(b, w, c)"]) simp
    qed simp
  qed
  from choice [OF this] obtain B where
    "\<forall>i. i < nat na \<longrightarrow> (case B i of (b, w, c) \<Rightarrow> 0 \<le> b \<and> b < nb \<and> same_entity n (row n lv b) (row n uv (int i)) \<and>
      0 \<le> w \<and> w < n \<and> row n uv (int i) ! 0 = row n lv b ! nat w \<and>
      match_rows n (row n uv (int i)) (row n lv b) w = Some c)" by blast
  then obtain h w g where hwg: "\<And>i. i < nat na \<Longrightarrow> 0 \<le> h i \<and> h i < nb \<and> same_entity n (row n lv (h i)) (row n uv (int i)) \<and>
      0 \<le> w i \<and> w i < n \<and> row n uv (int i) ! 0 = row n lv (h i) ! nat (w i) \<and>
      match_rows n (row n uv (int i)) (row n lv (h i)) (w i) = Some (g i)"
    by (atomize_elim) (intro exI [of _ "\<lambda>i. fst (B i)"] exI [of _ "\<lambda>i. fst (snd (B i))"] exI [of _ "\<lambda>i. snd (snd (B i))"],
        simp add: case_prod_beta')
  let ?a2fv = "map (\<lambda>i. uv ! nat (int i * n)) [0..<nat na]"
  let ?f = "\<lambda>a (a2b, codes). do {
       fv \<leftarrow> rd ?a2fv a;
       vb_begin \<leftarrow> rd (a2ab up) fv;
       vb_end \<leftarrow> rd (a2ab up) (fv + 1);
       (left, found, a2b, codes) \<leftarrow>
         for_range vb_begin vb_end (try_match n uv lv up False a) (False, False, a2b, codes);
       omega_check found;
       Some (a2b, codes)
     }"
  have step: "?f (int i) (s, t) = Some (s[i := Some (h i)], t[i := Some (g i)])"
    if i: "i < nat na" and len: "length s = nat na" "length t = nat na" for i s t
  proof -
    note H = hwg [OF i]
    have ina: "0 \<le> int i" "int i < na" using i by (simp_all add: zless_nat_eq_int_zless)
    have "row n lv (h i) ! nat (w i) \<in> set lv"
      using int_row_bound(2) [of "h i" nb "w i" n lv] H lv by (simp add: nth_row)
    then obtain v where v: "row n lv (h i) ! nat (w i) = int v" "v < nat nv"
      using rng [of "row n lv (h i) ! nat (w i)"] by (metis zero_le_imp_eq_int of_nat_less_iff nat_int zless_nat_eq_int_zless)
    have uv0: "row n uv (int i) ! 0 = int v" using H v(1) by simp
    then have fv: "uv ! nat (int i * n) = int v" using nth_row [of 0 n uv "int i"] n0 by simp
    have vF: "v < length ?F" using v(2) by simp
    have hit: "filter (\<lambda>hl. hl div n = h i) (?F ! v) = [h i * n + w i]"
      unfolding nth_fibres [OF v(2)] using H v(1) by (intro fibre_hit [OF n0 lv d]) simp_all
    have same: "same_entity n (row n lv b) (row n uv (int i)) \<longleftrightarrow> b = h i" if "0 \<le> b" "b < nb" for b
      using one [of "int i"] H that ina by blast
    have "for_range (int (row_start ?F v)) (int (row_start ?F v + length (?F ! v)))
        (try_match n uv lv up False (int i)) (False, False, s, t) =
      Some (False, True, s[i := Some ((h i * n + w i) div n)],
        t[i := match_rows n (row n uv (int i)) (row n lv ((h i * n + w i) div n)) ((h i * n + w i) mod n)])"
    proof (rule scan_unique [where h = "\<lambda>hl. Some (hl div n)" and
          g = "\<lambda>hl. match_rows n (row n uv (int i)) (row n lv (hl div n)) (hl mod n)", OF hit _ len])
      fix j found and s :: "lo option list" and t :: "i8 option list"
      assume j: "j < length (?F ! v)" and l: "length s = nat na" "length t = nat na"
      have "?F ! v ! j \<in> set (?F ! v)" using j by simp
      then have hl: "0 \<le> ?F ! v ! j" "?F ! v ! j < nb * n" using v(2) lv by (simp_all add: nth_fibres)
      have b: "0 \<le> (?F ! v ! j) div n" "(?F ! v ! j) div n < nb"
        using hl n0 div_less_rows by (simp_all add: pos_imp_zdiv_nonneg_iff)
      have "asize s = na" "asize t = na" using l uv(2) by (simp_all add: asize_def)
      then show "try_match n uv lv up False (int i) (int (row_start ?F v + j)) (False, found, s, t) =
        (if (?F ! v ! j) div n = h i then if found then None
           else Some (False, True, s[i := Some ((?F ! v ! j) div n)],
             t[i := match_rows n (row n uv (int i)) (row n lv ((?F ! v ! j) div n)) ((?F ! v ! j) mod n)])
         else Some (False, found, s, t))"
        using try_match_cell [OF n lv up uv(1) _ _ _ _ d v(2) uv0 j refl, of s t found] i same [OF b] by simp
    qed
    moreover have "rd ?a2fv (int i) = Some (int v)" using i fv by simp
    moreover have "rd (a2ab up) (int v) = Some (int (row_start ?F v))"
      "rd (a2ab up) (int v + 1) = Some (int (row_start ?F v + length (?F ! v)))"
      using up rd_offsets_sizes [of v ?F] rd_offsets_next [OF vF] vF by (simp_all add: vertex_up_def Let_def row_start_Suc)
    ultimately show ?thesis using H by simp
  qed
  have fill: "parallel_for na ?f (fresh na, fresh na) =
      Some (map Some (map h [0..<nat na]), map Some (map g [0..<nat na]))"
    using fill_two_arrays [of "nat na" ?f h g] step uv(2) by simp
  have asz: "asize ?a2fv = na" using uv(2) by (simp add: asize_def)
  have find: "find_matches_deg n ?a2fv uv lv up False = Some (map h [0..<nat na], map g [0..<nat na])"
    by (simp only: find_matches_deg_def asz Let_def uv(1) simp_thms omega_check_simps Option.bind.simps
      alloc_nonneg [OF uv(2)] fill prod.case freeze_map_Some)
  have "row n uv a = align_row n (g (nat a)) (row n lv (h (nat a)))" if "0 \<le> a" "a < na" for a
    using match_rows_same_entity(2) [OF n, of "row n uv a" "row n lv (h (nat a))" "w (nat a)" "g (nat a)"]
      hwg [of "nat a"] that d n0 by simp
  moreover have "code_rotation (g (nat a)) < 2" if "0 \<le> a" "a < na" "n = 2" for a
    using match_rows_2_rotation [of "row 2 uv a" "row 2 lv (h (nat a))" "w (nat a)" "g (nat a)"]
      hwg [of "nat a"] that by simp
  ultimately show ?thesis using find hwg uv(2) by (intro exI conjI) (auto simp: nat_less_iff asize_def)
qed

section \<open>The vertices of the entities\<close>

lemma vertex_up_ex:
  assumes n: "n \<in> {2, 3, 4}" and lv: "asize lv = nb * n" and nv: "0 \<le> nv"
    and rng: "\<And>v. v \<in> set lv \<Longrightarrow> 0 \<le> v \<and> v < nv"
    and d: "\<And>b. 0 \<le> b \<Longrightarrow> b < nb \<Longrightarrow> distinct (row n lv b)"
    and o: "mset count_order = mset [0..asize lv - 1]" "mset fill_order = mset [0..asize lv - 1]"
  shows "\<exists>up. invert_adj_body count_order fill_order \<lparr>a2ab = [], ab2b = lv, adj_codes = None\<rparr> n nv = Some up \<and>
    vertex_up n lv nv up"
proof -
  let ?F = "fibres [0..asize lv - 1] lv nv"
  let ?down = "\<lparr>a2ab = [], ab2b = lv, adj_codes = None\<rparr>"
  have n0: "0 < n" "n \<le> 16" using n by auto
  have inj: "i = j" if i: "0 \<le> i" "i < asize lv" and j: "0 \<le> j" "j < asize lv"
      and e: "i div n = j div n" "lv ! nat i = lv ! nat j" for i j
  proof -
    have m: "0 \<le> k mod n" "k mod n < n" for k using n0 by simp_all
    have split: "i div n * n + i mod n = i" "i div n * n + j mod n = j"
      using div_mult_mod_eq [of i n] div_mult_mod_eq [of j n] unfolding e(1) by simp_all
    have "row n lv (i div n) ! nat (i mod n) = row n lv (i div n) ! nat (j mod n)"
      using e(2) by (simp only: nth_row [OF m] split)
    moreover have "0 \<le> i div n" "i div n < nb"
      using i lv n0 div_less_rows [of n i nb] by (simp_all add: pos_imp_zdiv_nonneg_iff)
    ultimately have "i mod n = j mod n"
      using distinct_nth_int_eq [OF d, of "i div n" "i mod n" "j mod n"] m n0 by simp
    then have "i div n * n + j mod n = i" using split(1) by (simp only:)
    from trans [OF this [symmetric] split(2)] show ?thesis .
  qed
  have ab: "ab2b ?down = lv" by simp
  have "invert_adj_body count_order fill_order ?down n nv =
    (let F = fibres [0..asize (ab2b ?down) - 1] (ab2b ?down) nv
     in Some \<lparr>a2ab = offsets (sizes F), ab2b = map (\<lambda>hl. hl div n) (concat F),
              adj_codes = Some (map (up_code (adj_codes ?down) n) (concat F))\<rparr>)"
  proof (rule invert_adj_body_eq)
    show "0 \<le> l \<and> l < nv" if "l \<in> set (ab2b ?down)" for l using rng that by simp
    show "i = j" if "0 \<le> i" "i < asize (ab2b ?down)" "0 \<le> j" "j < asize (ab2b ?down)" "i div n = j div n"
      "ab2b ?down ! nat i = ab2b ?down ! nat j" for i j
      using that unfolding ab by (rule inj)
    show "mset count_order = mset [0..asize (ab2b ?down) - 1]" "mset fill_order = mset [0..asize (ab2b ?down) - 1]"
      using o by simp_all
  qed (use n0 nv in simp_all)
  moreover have "0 \<le> hl" if "hl \<in> set (concat ?F)" for hl using that by (auto simp: fibres_def)
  ultimately show ?thesis
    using up_code_fields(1) [OF n0] unfolding vertex_up_def by (auto simp: Let_def)
qed

text \<open>Entities that represent uses with distinct vertices in a range have such vertices themselves.\<close>

lemma represent_rows:
  assumes n: "n \<in> {2, 3, 4}" and rep: "represent n ev uv"
    and uses: "\<And>u. 0 \<le> u \<Longrightarrow> u < nu \<Longrightarrow> distinct (row n uv u) \<and> set (row n uv u) \<subseteq> V" and nu: "asize uv = nu * n"
  obtains ne where "0 \<le> ne" "asize ev = ne * n"
    "\<And>b. 0 \<le> b \<Longrightarrow> b < ne \<Longrightarrow> distinct (row n ev b) \<and> set (row n ev b) \<subseteq> V"
    "\<And>u. 0 \<le> u \<Longrightarrow> u < nu \<Longrightarrow> \<exists>!b. 0 \<le> b \<and> b < ne \<and> same_entity n (row n ev b) (row n uv u)"
proof -
  obtain ne nu' where r: "0 \<le> ne" "asize ev = ne * n" "asize uv = nu' * n"
    "\<And>u. 0 \<le> u \<and> u < nu' \<Longrightarrow> \<exists>!b. 0 \<le> b \<and> b < ne \<and> same_entity n (row n ev b) (row n uv u)"
    "\<And>e. 0 \<le> e \<and> e < ne \<Longrightarrow> \<exists>u. 0 \<le> u \<and> u < nu' \<and> row n ev e = row n uv u"
    using rep unfolding represent_def by blast
  have "nu' = nu" using r(3) nu n by auto
  then show thesis using r uses by (intro that [of ne]) (auto, (metis subsetD)+)
qed

lemma set_row: "0 \<le> n \<Longrightarrow> set (row n xs b) = (\<lambda>j. xs ! nat (b * n + j)) ` {0..<n}"
  by (force simp: row_def)

lemma set_rows:
  assumes n: "0 < n" and sz: "asize xs = nb * n" and V: "\<And>b. 0 \<le> b \<Longrightarrow> b < nb \<Longrightarrow> set (row n xs b) \<subseteq> V"
  shows "set xs \<subseteq> V"
proof
  fix x assume "x \<in> set xs"
  then obtain i where i: "0 \<le> i" "i < asize xs" "xs ! nat i = x" unfolding in_set_int_conv by blast
  have m: "0 \<le> i mod n" "i mod n < n" using n by simp_all
  have b: "0 \<le> i div n" "i div n < nb"
    using i sz n div_less_rows [of n i nb] by (simp_all add: pos_imp_zdiv_nonneg_iff)
  have "row n xs (i div n) ! nat (i mod n) = x" using i(3) by (simp add: nth_row [OF m])
  then have "x \<in> set (row n xs (i div n))"
    using nth_int_mem [of "i mod n" "row n xs (i div n)"] m n by auto
  then show "x \<in> V" using V [OF b] by blast
qed

section \<open>Properties\<close>

text \<open>
  A downward adjacency describes the elements: every boundary \<open>u\<close> of every upper entity \<open>h\<close> has a lower
  entity in range and a code that turns the vertices of the lower entity into those of the boundary.
  Edges only have the two codes without flip.
\<close>

definition consistent_down :: "int \<Rightarrow> int \<Rightarrow> int \<Rightarrow> (int \<Rightarrow> int \<Rightarrow> int) \<Rightarrow> lo list \<Rightarrow> lo list \<Rightarrow> adj \<Rightarrow> bool" where
  "consistent_down nh nb nl down hv lv d \<longleftrightarrow> (\<exists>nhigh nlow codes. 0 \<le> nhigh \<and> asize hv = nhigh * nh \<and>
     asize lv = nlow * nl \<and> asize (ab2b d) = nhigh * nb \<and> adj_codes d = Some codes \<and> asize codes = nhigh * nb \<and>
     (\<forall>h u. 0 \<le> h \<and> h < nhigh \<and> 0 \<le> u \<and> u < nb \<longrightarrow>
        0 \<le> ab2b d ! nat (h * nb + u) \<and> ab2b d ! nat (h * nb + u) < nlow \<and>
        map (\<lambda>v. row nh hv h ! nat (down u v)) [0..nl - 1] =
          align_row nl (codes ! nat (h * nb + u)) (row nl lv (ab2b d ! nat (h * nb + u))) \<and>
        (nl = 2 \<longrightarrow> code_rotation (codes ! nat (h * nb + u)) < 2)))"

lemma matched_uses_ex:
  assumes t: "use_table nh nl nb down" and sz: "asize hv2v = nhigh * nh" and n0: "0 \<le> nhigh" and nv: "0 \<le> nv"
    and el: "\<And>h. 0 \<le> h \<Longrightarrow> h < nhigh \<Longrightarrow> distinct (row nh hv2v h) \<and> set (row nh hv2v h) \<subseteq> {0..<nv}"
  obtains uv2v ev2v where "form_uses_body nh nl nb down hv2v = Some uv2v" "find_unique_deg nl uv2v = Some ev2v"
    "\<And>co fo. mset co = mset [0..asize ev2v - 1] \<Longrightarrow> mset fo = mset [0..asize ev2v - 1] \<Longrightarrow>
      (\<exists>up a2b codes. invert_adj_body co fo \<lparr>a2ab = [], ab2b = ev2v, adj_codes = None\<rparr> nl nv = Some up \<and>
        do { a2fv \<leftarrow> get_component uv2v nl 0; find_matches_ex nl a2fv uv2v ev2v up False } = Some (a2b, codes) \<and>
        consistent_down nh nb nl down hv2v ev2v \<lparr>a2ab = [], ab2b = a2b, adj_codes = Some codes\<rparr>)"
proof -
  have tab: "0 < nh" "nl \<in> {2, 3, 4}" "0 < nl" "0 < nb" using t by (auto simp: use_table_def)
  have dn: "0 \<le> down u v \<and> down u v < nh" if "0 \<le> u" "u < nb" "0 \<le> v" "v < nl" for u v
    using t that by (auto simp: use_table_def image_subset_iff)
  have dist: "distinct (row nh hv2v h)" if "0 \<le> h" "h < nhigh" for h using el [OF that] by simp
  obtain uv2v ev2v where uv: "form_uses_body nh nl nb down hv2v = Some uv2v" "asize uv2v = (nhigh * nb) * nl"
    "find_unique_deg nl uv2v = Some ev2v" "represent nl ev2v uv2v"
    and rows: "\<And>h u. 0 \<le> h \<and> h < nhigh \<and> 0 \<le> u \<and> u < nb \<Longrightarrow>
       row nl uv2v (h * nb + u) = map (\<lambda>v. row nh hv2v h ! nat (down u v)) [0..nl - 1] \<and>
       distinct (row nl uv2v (h * nb + u))"
    using unique_uses_ex [OF t sz n0 dist] by blast
  have inside: "set (map (\<lambda>v. row nh hv2v h ! nat (down u v)) [0..nl - 1]) \<subseteq> {0..<nv}"
    if "0 \<le> h \<and> h < nhigh \<and> 0 \<le> u \<and> u < nb" for h u
  proof -
    have "row nh hv2v h ! nat (down u v) \<in> set (row nh hv2v h)" if "0 \<le> v" "v < nl" for v
      using dn [of u v] \<open>0 \<le> h \<and> h < nhigh \<and> 0 \<le> u \<and> u < nb\<close> that tab(1) by (intro nth_int_mem) auto
    then show ?thesis using el [of h] that by auto
  qed
  have use: "distinct (row nl uv2v u) \<and> set (row nl uv2v u) \<subseteq> {0..<nv}" if u: "0 \<le> u" "u < nhigh * nb" for u
  proof -
    have "0 \<le> u div nb \<and> u div nb < nhigh \<and> 0 \<le> u mod nb \<and> u mod nb < nb"
      using entity_of_cell [OF u tab(4)] tab(4) by simp
    note r = rows [OF this, unfolded div_mult_mod_eq] and i = inside [OF this]
    show ?thesis using r [THEN conjunct2] i [folded r [THEN conjunct1]] by (rule conjI)
  qed
  obtain ne where ne: "0 \<le> ne" "asize ev2v = ne * nl"
    and ent: "\<And>b. 0 \<le> b \<Longrightarrow> b < ne \<Longrightarrow> distinct (row nl ev2v b) \<and> set (row nl ev2v b) \<subseteq> {0..<nv}"
    and one: "\<And>u. 0 \<le> u \<Longrightarrow> u < nhigh * nb \<Longrightarrow> \<exists>!b. 0 \<le> b \<and> b < ne \<and> same_entity nl (row nl ev2v b) (row nl uv2v u)"
    using represent_rows [OF tab(2) uv(4) use uv(2)] by blast
  have "set ev2v \<subseteq> {0..<nv}" by (rule set_rows [OF tab(3) ne(2)]) (use ent in blast)
  then have rng: "0 \<le> v \<and> v < nv" if "v \<in> set ev2v" for v using that by auto
  have entd: "distinct (row nl ev2v b)" if "0 \<le> b" "b < ne" for b using ent [OF that] by simp
  have nn: "0 \<le> nhigh * nb" using n0 tab(4) by simp
  have comp: "get_component uv2v nl 0 = Some (map (\<lambda>i. uv2v ! nat (int i * nl)) [0..<nat (nhigh * nb)])"
    using get_component_eq [OF uv(2), of 0] tab(3) nn by simp
  have ex: "find_matches_ex nl = find_matches_deg nl"
    using tab(2) by (intro ext) (auto simp: find_matches_ex_def)
  show thesis
  proof (rule that [OF uv(1,3)])
    fix co fo assume o: "mset co = mset [0..asize ev2v - 1]" "mset fo = mset [0..asize ev2v - 1]"
    obtain up where up: "invert_adj_body co fo \<lparr>a2ab = [], ab2b = ev2v, adj_codes = None\<rparr> nl nv = Some up"
      "vertex_up nl ev2v nv up"
      using vertex_up_ex [OF tab(2) ne(2) nv rng entd o] by blast
    obtain a2b codes where find: "find_matches_deg nl (map (\<lambda>i. uv2v ! nat (int i * nl)) [0..<nat (nhigh * nb)]) uv2v ev2v up False =
        Some (a2b, codes)" "asize a2b = nhigh * nb" "asize codes = nhigh * nb"
      and al: "\<And>a. 0 \<le> a \<and> a < nhigh * nb \<Longrightarrow> 0 \<le> a2b ! nat a \<and> a2b ! nat a < ne \<and>
       row nl uv2v a = align_row nl (codes ! nat a) (row nl ev2v (a2b ! nat a)) \<and>
       (nl = 2 \<longrightarrow> code_rotation (codes ! nat a) < 2)"
      using find_matches_deg_ex [OF tab(2) ne(2) up(2) uv(2) nn rng entd one] by blast
    have "0 \<le> a2b ! nat (h * nb + u) \<and> a2b ! nat (h * nb + u) < ne \<and>
        map (\<lambda>v. row nh hv2v h ! nat (down u v)) [0..nl - 1] =
          align_row nl (codes ! nat (h * nb + u)) (row nl ev2v (a2b ! nat (h * nb + u))) \<and>
        (nl = 2 \<longrightarrow> code_rotation (codes ! nat (h * nb + u)) < 2)"
      if hu: "0 \<le> h \<and> h < nhigh \<and> 0 \<le> u \<and> u < nb" for h u
    proof -
      have "0 \<le> h * nb + u \<and> h * nb + u < nhigh * nb" using hu by (intro row_index_bound) simp_all
      from al [OF this] show ?thesis unfolding rows [OF hu, THEN conjunct1] .
    qed
    then have "consistent_down nh nb nl down hv2v ev2v \<lparr>a2ab = [], ab2b = a2b, adj_codes = Some codes\<rparr>"
      unfolding consistent_down_def graph.select_convs adj.select_convs
      by (intro exI [of _ nhigh] exI [of _ ne] exI [of _ codes] conjI n0 sz ne(2) find(2,3)) simp_all
    moreover have "do { a2fv \<leftarrow> get_component uv2v nl 0; find_matches_ex nl a2fv uv2v ev2v up False } = Some (a2b, codes)"
      unfolding comp ex by (simp only: Option.bind.simps find(1))
    ultimately show "\<exists>up a2b codes. invert_adj_body co fo \<lparr>a2ab = [], ab2b = ev2v, adj_codes = None\<rparr> nl nv = Some up \<and>
        do { a2fv \<leftarrow> get_component uv2v nl 0; find_matches_ex nl a2fv uv2v ev2v up False } = Some (a2b, codes) \<and>
        consistent_down nh nb nl down hv2v ev2v \<lparr>a2ab = [], ab2b = a2b, adj_codes = Some codes\<rparr>"
      using up(1) by blast
  qed
qed

text \<open>C7. The downward adjacency of a mesh: for elements whose vertices are distinct and in range, the
  entities that \<open>find_unique\<close> derives and the adjacency that \<open>reflect_down\<close> then computes from the
  vertices describe the elements exactly: whatever the schedules of the two loops with atomic
  updates in \<open>invert_adj\<close>, every boundary of every element gets one entity, in range, and a code that
  turns the vertices of that entity into the vertices of the boundary as the element's template lists
  them.\<close>

theorem reflect_down_adjacency:
  assumes "(high_dim, low_dim) \<in> {(2, 1), (3, 1), (3, 2)}"
    and "asize hv2v = nhigh * element_degree family high_dim 0" "0 \<le> nhigh" "0 \<le> nv"
    and "\<forall>h. 0 \<le> h \<and> h < nhigh \<longrightarrow> distinct (row (element_degree family high_dim 0) hv2v h) \<and>
      set (row (element_degree family high_dim 0) hv2v h) \<subseteq> {0..<nv}"
  shows "\<exists>lv2v. find_unique hv2v family high_dim low_dim = Some lv2v \<and>
    (\<forall>count_order fill_order. mset count_order = mset [0..asize lv2v - 1] \<and> mset fill_order = mset [0..asize lv2v - 1] \<longrightarrow>
      (\<exists>down. reflect_down_nv count_order fill_order hv2v lv2v family nv high_dim low_dim = Some down \<and>
        consistent_down (element_degree family high_dim 0) (element_degree family high_dim low_dim)
          (element_degree family low_dim 0) (element_down_template family high_dim low_dim) hv2v lv2v down))"
proof -
  have t: "use_table (element_degree family high_dim 0) (element_degree family low_dim 0)
      (element_degree family high_dim low_dim) (element_down_template family high_dim low_dim)"
    using family_use_tables [OF assms(1), of family] by (simp only: family_use_table_def)
  then have nh: "0 < element_degree family high_dim 0" by (simp add: use_table_def)
  have "low_dim < high_dim" and low: "low_dim \<le> 2" using assms(1) by auto
  moreover have "asize hv2v smod element_degree family high_dim 0 = 0"
    using nh assms(2,3) by (simp add: smod_nonneg)
  ultimately have find: "find_unique hv2v family high_dim low_dim = do {
      uv2v \<leftarrow> form_uses hv2v family high_dim low_dim;
      find_unique_deg (element_degree family low_dim 0) uv2v }"
    using nh by (simp add: find_unique_def)
  have "dimensional_plural_name high_dim \<noteq> None" "dimensional_singular_name high_dim \<noteq> None"
    "dimensional_plural_name low_dim \<noteq> None" "dimensional_singular_name low_dim \<noteq> None"
    using assms(1) by (auto simp: dimensional_plural_name_def dimensional_singular_name_def)
  then have inv: "invert_adj co fo d n nv high_dim low_dim = invert_adj_body co fo d n nv" for co fo d n nv
    by (auto simp: invert_adj_def)
  have el: "distinct (row (element_degree family high_dim 0) hv2v h) \<and>
      set (row (element_degree family high_dim 0) hv2v h) \<subseteq> {0..<nv}" if "0 \<le> h" "h < nhigh" for h
    using assms(5) that by blast
  show ?thesis
  proof (rule matched_uses_ex [OF t assms(2-4) el])
    fix uv2v lv2v
    assume uv: "form_uses_body (element_degree family high_dim 0) (element_degree family low_dim 0)
        (element_degree family high_dim low_dim) (element_down_template family high_dim low_dim) hv2v = Some uv2v"
      "find_unique_deg (element_degree family low_dim 0) uv2v = Some lv2v"
      and match: "\<And>co fo. mset co = mset [0..asize lv2v - 1] \<Longrightarrow> mset fo = mset [0..asize lv2v - 1] \<Longrightarrow>
      (\<exists>up a2b codes. invert_adj_body co fo \<lparr>a2ab = [], ab2b = lv2v, adj_codes = None\<rparr> (element_degree family low_dim 0) nv = Some up \<and>
        do { a2fv \<leftarrow> get_component uv2v (element_degree family low_dim 0) 0;
             find_matches_ex (element_degree family low_dim 0) a2fv uv2v lv2v up False } = Some (a2b, codes) \<and>
        consistent_down (element_degree family high_dim 0) (element_degree family high_dim low_dim)
          (element_degree family low_dim 0) (element_down_template family high_dim low_dim) hv2v lv2v
          \<lparr>a2ab = [], ab2b = a2b, adj_codes = Some codes\<rparr>)"
    have uses: "form_uses hv2v family high_dim low_dim = Some uv2v" using uv(1) by (simp add: form_uses_def)
    show ?thesis
    proof (intro exI [of _ lv2v] conjI allI impI)
      show "find_unique hv2v family high_dim low_dim = Some lv2v" by (simp add: find uses uv(2))
      fix co fo assume o: "mset co = mset [0..asize lv2v - 1] \<and> mset fo = mset [0..asize lv2v - 1]"
      obtain up a2b codes where m:
        "invert_adj_body co fo \<lparr>a2ab = [], ab2b = lv2v, adj_codes = None\<rparr> (element_degree family low_dim 0) nv = Some up"
        "do { a2fv \<leftarrow> get_component uv2v (element_degree family low_dim 0) 0;
               find_matches_ex (element_degree family low_dim 0) a2fv uv2v lv2v up False } = Some (a2b, codes)"
        and cons: "consistent_down (element_degree family high_dim 0) (element_degree family high_dim low_dim)
          (element_degree family low_dim 0) (element_down_template family high_dim low_dim) hv2v lv2v
          \<lparr>a2ab = [], ab2b = a2b, adj_codes = Some codes\<rparr>"
        using match [of co fo] o by blast
      have "find_matches family low_dim uv2v lv2v up = Some (a2b, codes)"
        using m(2) low by (simp add: find_matches_def Let_def)
      then have "reflect_down_nv co fo hv2v lv2v family nv high_dim low_dim =
          Some \<lparr>a2ab = [], ab2b = a2b, adj_codes = Some codes\<rparr>"
        by (simp add: reflect_down_nv_def reflect_down_def inv m(1) uses)
      then show "\<exists>down. reflect_down_nv co fo hv2v lv2v family nv high_dim low_dim = Some down \<and>
        consistent_down (element_degree family high_dim 0) (element_degree family high_dim low_dim)
          (element_degree family low_dim 0) (element_down_template family high_dim low_dim) hv2v lv2v down"
        using cons by blast
    qed
  qed
qed

text \<open>Two triangles that share an edge, in a vertex range of four.\<close>

theorem reflect_down_adjacency_witness:
  "\<exists>lv2v down. find_unique [0, 1, 2, 2, 1, 3] OMEGA_H_SIMPLEX 2 1 = Some lv2v \<and>
     reflect_down_nv (rev [0..asize lv2v - 1]) (rev [0..asize lv2v - 1]) [0, 1, 2, 2, 1, 3] lv2v OMEGA_H_SIMPLEX 4 2 1 = Some down \<and>
     consistent_down 3 3 2 (element_down_template OMEGA_H_SIMPLEX 2 1) [0, 1, 2, 2, 1, 3] lv2v down"
proof -
  have deg: "element_degree OMEGA_H_SIMPLEX 2 0 = 3" "element_degree OMEGA_H_SIMPLEX 2 1 = 3"
    "element_degree OMEGA_H_SIMPLEX 1 0 = 2" by code_simp+
  have "\<forall>h \<in> set [0, 1]. distinct (row 3 [0, 1, 2, 2, 1, 3 :: int] h) \<and> set (row 3 [0, 1, 2, 2, 1, 3 :: int] h) \<subseteq> set [0..3]"
    by code_simp
  moreover have "h = 0 \<or> h = 1" if "0 \<le> h" "h < 2" for h :: int using that by auto
  moreover have "set [0..3] = {0..<4 :: int}" by auto
  ultimately have el: "\<forall>h. 0 \<le> h \<and> h < 2 \<longrightarrow> distinct (row 3 [0, 1, 2, 2, 1, 3 :: int] h) \<and>
      set (row 3 [0, 1, 2, 2, 1, 3 :: int] h) \<subseteq> {0..<4}" by fastforce
  show ?thesis
    using reflect_down_adjacency [of 2 1 "[0, 1, 2, 2, 1, 3]" 2 OMEGA_H_SIMPLEX 4] el unfolding deg
    by (auto simp: imp_conjL dest!: spec [of _ "rev [0.._]"])
qed

end
