(* ===== verification/Transit.thy ===== *)
theory Transit
  imports Matching
begin

text \<open>
  Composing downward adjacencies (\<open>transit\<close> of \<open>src/src/Omega_h_adj.cpp\<close>).

  \<open>transit\<close> goes from an element to its low entities through the first upward entry of the boundary
  tables.  It is proved on the interface \<open>boundary_tables\<close>: the composition of consistent downward
  adjacencies is consistent.
\<close>

section \<open>Operations\<close>

definition codes_of :: "adj \<Rightarrow> i8 list" where
  "codes_of d = (case adj_codes d of None \<Rightarrow> [] | Some codes \<Rightarrow> codes)"

text \<open>One low entity \<open>hl\<close> of the upper entity \<open>h\<close>; \<open>up\<close> is the element's table at \<open>which_up = 0\<close>.\<close>

definition transit_low ::
    "int \<Rightarrow> int \<Rightarrow> int \<Rightarrow> int \<Rightarrow> (int \<Rightarrow> template_up) \<Rightarrow> adj \<Rightarrow> adj \<Rightarrow> lo \<Rightarrow> int \<Rightarrow>
     lo option list \<times> i8 option list \<Rightarrow> (lo option list \<times> i8 option list) option" where
  "transit_low nmids_per_high nlows_per_mid nlows_per_high low_dim up h2m m2l h hl = (\<lambda>(hl2l, codes). do {
     let hl_begin = h * nlows_per_high;
     let hm_begin = h * nmids_per_high;
     let ut = up hl;
     let hm = tup_up ut;
     let hml = tup_which_down ut;
     m \<leftarrow> rd (ab2b h2m) (hm_begin + hm);
     m2hm_code \<leftarrow> rd (codes_of h2m) (hm_begin + hm);
     let hm2m_code = invert_alignment nlows_per_mid m2hm_code;
     let ml = align_index nlows_per_mid low_dim hml hm2m_code;
     let ml_begin = m * nlows_per_mid;
     l \<leftarrow> rd (ab2b m2l) (ml_begin + ml);
     for_range 0 hl (\<lambda>hhl2 _. do { x \<leftarrow> rd_cell hl2l (hl_begin + hhl2); omega_check (l \<noteq> x) }) ();
     hl2l \<leftarrow> wr hl2l (hl_begin + hl) (Some l);
     if low_dim = 1 then do {
       let region_face_code = hm2m_code;
       face_edge_code \<leftarrow> rd (codes_of m2l) (ml_begin + ml);
       let region_face_flipped = code_is_flipped region_face_code;
       let face_edge_flipped = (code_rotation face_edge_code = 1);
       let canon_flipped = tup_is_flipped ut;
       let region_edge_flipped = ((region_face_flipped \<noteq> face_edge_flipped) \<noteq> canon_flipped);
       codes \<leftarrow> wr codes (hl_begin + hl) (Some (make_code False (of_bool region_edge_flipped) 0));
       Some (hl2l, codes)
     } else Some (hl2l, codes)
   })"

definition transit_body ::
    "int \<Rightarrow> int \<Rightarrow> int \<Rightarrow> int \<Rightarrow> (int \<Rightarrow> template_up) \<Rightarrow> adj \<Rightarrow> adj \<Rightarrow> adj option" where
  "transit_body nmids_per_high nlows_per_mid nlows_per_high low_dim up h2m m2l = do {
     nhighs \<leftarrow> divide_no_remainder (asize (ab2b h2m)) nmids_per_high;
     hl2l \<leftarrow> alloc (nhighs * nlows_per_high);
     codes \<leftarrow> (if low_dim = 1 then alloc (asize hl2l) else Some []);
     (hl2l, codes) \<leftarrow> parallel_for nhighs (\<lambda>h. for_range 0 nlows_per_high
       (transit_low nmids_per_high nlows_per_mid nlows_per_high low_dim up h2m m2l h)) (hl2l, codes);
     hl2l \<leftarrow> freeze hl2l;
     codes \<leftarrow> freeze codes;
     Some \<lparr>a2ab = [], ab2b = hl2l, adj_codes = (if low_dim = 1 then Some codes else None)\<rparr>
   }"

definition transit :: "adj \<Rightarrow> adj \<Rightarrow> family \<Rightarrow> int \<Rightarrow> int \<Rightarrow> adj option" where
  "transit h2m m2l family high_dim low_dim = do {
     high_singular_name \<leftarrow> dimensional_singular_name high_dim;
     low_plural_name \<leftarrow> dimensional_plural_name low_dim;
     omega_check (3 \<ge> high_dim);
     let mid_dim = low_dim + 1;
     omega_check (high_dim > mid_dim);
     omega_check (low_dim = 1 \<or> low_dim = 0);
     transit_body (element_degree family high_dim mid_dim) (element_degree family mid_dim low_dim)
       (element_degree family high_dim low_dim) low_dim
       (\<lambda>hl. element_up_template family high_dim low_dim hl 0) h2m m2l
   }"

definition transit_types :: "adj \<Rightarrow> adj \<Rightarrow> topo_type \<Rightarrow> topo_type \<Rightarrow> topo_type \<Rightarrow> adj option" where
  "transit_types h2m m2l high_type low_type mid_type = do {
     high_singular_name \<leftarrow> topo_singular_name high_type;
     low_plural_name \<leftarrow> topo_plural_name low_type;
     omega_check (7 \<ge> topo_int high_type);
     omega_check (topo_int high_type > topo_int mid_type);
     omega_check (topo_int low_type = 1 \<or> topo_int low_type = 0);
     transit_body (topo_degree high_type mid_type) (topo_degree mid_type low_type)
       (topo_degree high_type low_type) (topo_int low_type)
       (\<lambda>hl. topo_up_template (topo_int high_type) (topo_int low_type) hl 0) h2m m2l
   }"

section \<open>What transit computes\<close>

definition transit_mid :: "int \<Rightarrow> (int \<Rightarrow> template_up) \<Rightarrow> adj \<Rightarrow> lo \<Rightarrow> int \<Rightarrow> lo" where
  "transit_mid nm up h2m h w = ab2b h2m ! nat (h * nm + tup_up (up w))"

definition transit_code :: "int \<Rightarrow> int \<Rightarrow> (int \<Rightarrow> template_up) \<Rightarrow> adj \<Rightarrow> lo \<Rightarrow> int \<Rightarrow> i8" where
  "transit_code nm nlm up h2m h w = invert_alignment nlm (codes_of h2m ! nat (h * nm + tup_up (up w)))"

definition transit_cell :: "int \<Rightarrow> int \<Rightarrow> int \<Rightarrow> (int \<Rightarrow> template_up) \<Rightarrow> adj \<Rightarrow> lo \<Rightarrow> int \<Rightarrow> lo" where
  "transit_cell nm nlm low up h2m h w =
     transit_mid nm up h2m h w * nlm + align_index nlm low (tup_which_down (up w)) (transit_code nm nlm up h2m h w)"

definition transit_flip :: "int \<Rightarrow> int \<Rightarrow> (int \<Rightarrow> template_up) \<Rightarrow> adj \<Rightarrow> adj \<Rightarrow> lo \<Rightarrow> int \<Rightarrow> bool" where
  "transit_flip nm nlm up h2m m2l h w \<longleftrightarrow>
     ((code_is_flipped (transit_code nm nlm up h2m h w) \<noteq>
       (code_rotation (codes_of m2l ! nat (transit_cell nm nlm 1 up h2m h w)) = 1)) \<noteq> tup_is_flipped (up w))"

lemma rd_index_Some: "0 \<le> i \<Longrightarrow> i < asize s \<Longrightarrow> s ! nat i = Some x \<Longrightarrow> rd_cell s i = Some x"
  by (simp add: rd_cell_def rd_Some)

lemma run_for_checks:
  assumes "\<And>i. i \<in> set is \<Longrightarrow> f i () = Some ()"
  shows "run_for is f () = Some ()"
  using assms by (induction "is") simp_all

text \<open>What the loop relies on: sizes, ranges, and that the low entities of an upper entity differ.\<close>

definition transit_inputs :: "int \<Rightarrow> int \<Rightarrow> int \<Rightarrow> int \<Rightarrow> int \<Rightarrow> int \<Rightarrow> (int \<Rightarrow> template_up) \<Rightarrow> adj \<Rightarrow> adj \<Rightarrow> bool" where
  "transit_inputs nm nlm nlh low nhigh nmid up h2m m2l \<longleftrightarrow>
     0 < nm \<and> nlm \<in> {2, 3, 4} \<and> 0 \<le> nlh \<and> low \<in> {0, 1} \<and> 0 \<le> nhigh \<and>
     (\<forall>w. 0 \<le> w \<and> w < nlh \<longrightarrow> 0 \<le> tup_up (up w) \<and> tup_up (up w) < nm \<and>
        0 \<le> tup_which_down (up w) \<and> tup_which_down (up w) < nlm) \<and>
     asize (ab2b h2m) = nhigh * nm \<and> asize (codes_of h2m) = nhigh * nm \<and>
     (\<forall>h u. 0 \<le> h \<and> h < nhigh \<and> 0 \<le> u \<and> u < nm \<longrightarrow>
        0 \<le> ab2b h2m ! nat (h * nm + u) \<and> ab2b h2m ! nat (h * nm + u) < nmid) \<and>
     asize (ab2b m2l) = nmid * nlm \<and> (low = 1 \<longrightarrow> asize (codes_of m2l) = nmid * nlm) \<and>
     (\<forall>h w v. 0 \<le> h \<and> h < nhigh \<and> 0 \<le> w \<and> w < nlh \<and> 0 \<le> v \<and> v < nlh \<and> w \<noteq> v \<longrightarrow>
        ab2b m2l ! nat (transit_cell nm nlm low up h2m h w) \<noteq> ab2b m2l ! nat (transit_cell nm nlm low up h2m h v))"

lemma transit_inputsD:
  assumes "transit_inputs nm nlm nlh low nhigh nmid up h2m m2l"
  shows "0 < nm" "nlm \<in> {2, 3, 4}" "0 \<le> nlh" "low \<in> {0, 1}" "0 \<le> nhigh"
    and "0 \<le> w \<Longrightarrow> w < nlh \<Longrightarrow> 0 \<le> tup_up (up w) \<and> tup_up (up w) < nm \<and>
      0 \<le> tup_which_down (up w) \<and> tup_which_down (up w) < nlm"
    and "asize (ab2b h2m) = nhigh * nm" "asize (codes_of h2m) = nhigh * nm"
    and "0 \<le> h \<Longrightarrow> h < nhigh \<Longrightarrow> 0 \<le> u \<Longrightarrow> u < nm \<Longrightarrow> 0 \<le> ab2b h2m ! nat (h * nm + u) \<and> ab2b h2m ! nat (h * nm + u) < nmid"
    and "asize (ab2b m2l) = nmid * nlm" "low = 1 \<Longrightarrow> asize (codes_of m2l) = nmid * nlm"
    and "0 \<le> h \<Longrightarrow> h < nhigh \<Longrightarrow> 0 \<le> w \<Longrightarrow> w < nlh \<Longrightarrow> 0 \<le> v \<Longrightarrow> v < nlh \<Longrightarrow> w \<noteq> v \<Longrightarrow>
      ab2b m2l ! nat (transit_cell nm nlm low up h2m h w) \<noteq> ab2b m2l ! nat (transit_cell nm nlm low up h2m h v)"
  using assms unfolding transit_inputs_def by blast+

abbreviation lo_of :: "int \<Rightarrow> int \<Rightarrow> int \<Rightarrow> (int \<Rightarrow> template_up) \<Rightarrow> adj \<Rightarrow> adj \<Rightarrow> lo \<Rightarrow> int \<Rightarrow> lo" where
  "lo_of nm nlm low up h2m m2l h w \<equiv> ab2b m2l ! nat (transit_cell nm nlm low up h2m h w)"

abbreviation code_at :: "int \<Rightarrow> int \<Rightarrow> (int \<Rightarrow> template_up) \<Rightarrow> adj \<Rightarrow> adj \<Rightarrow> lo \<Rightarrow> int \<Rightarrow> i8" where
  "code_at nm nlm up h2m m2l h w \<equiv> make_code False (of_bool (transit_flip nm nlm up h2m m2l h w)) 0"

lemma cell_range:
  assumes ti: "transit_inputs nm nlm nlh low nhigh nmid up h2m m2l" and h: "0 \<le> h" "h < nhigh" and w: "0 \<le> w" "w < nlh"
  shows "0 \<le> transit_cell nm nlm low up h2m h w \<and> transit_cell nm nlm low up h2m h w < nmid * nlm"
  unfolding transit_cell_def transit_mid_def
proof (rule row_index_bound)
  note deg = transit_inputsD(1-5) [OF ti] and up = transit_inputsD(6) [OF ti] and h2m = transit_inputsD(7,8) [OF ti]
    and mids = transit_inputsD(9) [OF ti] and m2l = transit_inputsD(10,11) [OF ti] and lows = transit_inputsD(12) [OF ti]
  note u = up [OF w]
  show "0 \<le> align_index nlm low (tup_which_down (up w)) (transit_code nm nlm up h2m h w)"
    "align_index nlm low (tup_which_down (up w)) (transit_code nm nlm up h2m h w) < nlm"
    using align_index_range [OF deg(2), of "tup_which_down (up w)"] u by (simp_all add: align_index_def)
  show "0 \<le> ab2b h2m ! nat (h * nm + tup_up (up w))" "ab2b h2m ! nat (h * nm + tup_up (up w)) < nmid"
    using mids [OF h] u by simp_all
qed

lemma transit_low_step:
  assumes ti: "transit_inputs nm nlm nlh low nhigh nmid up h2m m2l"
    and h: "0 \<le> h" "h < nhigh" and w: "0 \<le> w" "w < nlh"
    and s: "asize s = nhigh * nlh" and t: "low = 1 \<Longrightarrow> asize t = nhigh * nlh"
    and earlier: "\<And>v. 0 \<le> v \<Longrightarrow> v < w \<Longrightarrow> s ! nat (h * nlh + v) = Some (lo_of nm nlm low up h2m m2l h v)"
  shows "transit_low nm nlm nlh low up h2m m2l h w (s, t) =
    Some (s[nat (h * nlh + w) := Some (lo_of nm nlm low up h2m m2l h w)],
      if low = 1 then t[nat (h * nlh + w) := Some (code_at nm nlm up h2m m2l h w)] else t)"
proof -
  note deg = transit_inputsD(1-5) [OF ti] and up = transit_inputsD(6) [OF ti] and h2m = transit_inputsD(7,8) [OF ti]
    and mids = transit_inputsD(9) [OF ti] and m2l = transit_inputsD(10,11) [OF ti] and lows = transit_inputsD(12) [OF ti]
  note u = up [OF w]
  have rh: "rd (ab2b h2m) (h * nm + tup_up (up w)) = Some (transit_mid nm up h2m h w)"
    "rd (codes_of h2m) (h * nm + tup_up (up w)) = Some (codes_of h2m ! nat (h * nm + tup_up (up w)))"
    using int_row_bound(1) [OF h _ _ h2m(1)] int_row_bound(1) [OF h _ _ h2m(2)] u by (simp_all add: transit_mid_def)
  note c = cell_range [OF ti h w]
  have rl: "rd (ab2b m2l) (transit_cell nm nlm low up h2m h w) = Some (lo_of nm nlm low up h2m m2l h w)"
    using c m2l(1) by (simp add: rd_Some)
  have rc: "rd (codes_of m2l) (transit_cell nm nlm low up h2m h w) =
      Some (codes_of m2l ! nat (transit_cell nm nlm low up h2m h w))" if "low = 1"
    using c m2l(2) [OF that] by (simp add: rd_Some)
  have inh: "0 \<le> h * nlh + v \<and> h * nlh + v < nhigh * nlh" if "0 \<le> v" "v < nlh" for v
    by (rule row_index_bound [OF that h])
  have check: "for_range 0 w (\<lambda>v _. do { x \<leftarrow> rd_cell s (h * nlh + v); omega_check (lo_of nm nlm low up h2m m2l h w \<noteq> x) }) () = Some ()"
    unfolding for_range_def
  proof (rule run_for_checks)
    fix v assume "v \<in> set [0..w - 1]"
    then have v: "0 \<le> v" "v < w" by simp_all
    then have "rd_cell s (h * nlh + v) = Some (lo_of nm nlm low up h2m m2l h v)"
      using earlier inh [of v] s w by (intro rd_index_Some) simp_all
    moreover have "lo_of nm nlm low up h2m m2l h w \<noteq> lo_of nm nlm low up h2m m2l h v" using lows [OF h w, of v] v w by simp
    ultimately show "do { x \<leftarrow> rd_cell s (h * nlh + v); omega_check (lo_of nm nlm low up h2m m2l h w \<noteq> x) } = Some ()" by simp
  qed
  have ws: "wr s (h * nlh + w) x = Some (s[nat (h * nlh + w) := x])"
    "low = 1 \<Longrightarrow> wr t (h * nlh + w) y = Some (t[nat (h * nlh + w) := y])" for x y
    using inh [OF w] s t by (simp_all add: wr_Some)
  note fold = transit_code_def [symmetric] transit_cell_def [of nm nlm low up h2m h w, symmetric]
  show ?thesis
    unfolding transit_low_def Let_def prod.case rh Option.bind.simps fold rl check ws(1)
    using rc ws(2) by (simp add: transit_flip_def)
qed

lemma transit_body_ex:
  assumes ti: "transit_inputs nm nlm nlh low nhigh nmid up h2m m2l"
  shows "\<exists>hl2l codes. transit_body nm nlm nlh low up h2m m2l =
      Some \<lparr>a2ab = [], ab2b = hl2l, adj_codes = (if low = 1 then Some codes else None)\<rparr> \<and>
    asize hl2l = nhigh * nlh \<and> (low = 1 \<longrightarrow> asize codes = nhigh * nlh) \<and>
    (\<forall>h w. 0 \<le> h \<and> h < nhigh \<and> 0 \<le> w \<and> w < nlh \<longrightarrow> hl2l ! nat (h * nlh + w) = lo_of nm nlm low up h2m m2l h w \<and>
      (low = 1 \<longrightarrow> codes ! nat (h * nlh + w) = code_at nm nlm up h2m m2l h w))"
proof -
  note deg = transit_inputsD(1-5) [OF ti] and up = transit_inputsD(6) [OF ti] and h2m = transit_inputsD(7,8) [OF ti]
    and mids = transit_inputsD(9) [OF ti] and m2l = transit_inputsD(10,11) [OF ti] and lows = transit_inputsD(12) [OF ti]
  let ?N = "nhigh * nlh"
  let ?L = "\<lambda>k. lo_of nm nlm low up h2m m2l (k div nlh) (k mod nlh)" and ?C = "\<lambda>k. code_at nm nlm up h2m m2l (k div nlh) (k mod nlh)"
  let ?P = "\<lambda>k (s, t). asize s = ?N \<and> (if low = 1 then asize t = ?N else t = []) \<and>
    (\<forall>i. 0 \<le> i \<and> i < k \<longrightarrow> s ! nat i = Some (?L i) \<and> (low = 1 \<longrightarrow> t ! nat i = Some (?C i)))"
  have N: "0 \<le> ?N" using deg by simp
  have dm: "(h * nlh + w) div nlh = h" "(h * nlh + w) mod nlh = w" if "0 \<le> w" "w < nlh" for h w
    using that by simp_all
  have inner: "\<exists>st'. for_range 0 nlh (transit_low nm nlm nlh low up h2m m2l h) st = Some st' \<and> ?P ((h + 1) * nlh) st'"
    if h: "0 \<le> h" "h < nhigh" and P: "?P (h * nlh) st" for h st
  proof -
    have "\<exists>st'. for_range 0 nlh (transit_low nm nlm nlh low up h2m m2l h) st = Some st' \<and> ?P (h * nlh + nlh) st'"
    proof (rule for_range_rule [where P = "\<lambda>w. ?P (h * nlh + w)"])
      show "?P (h * nlh + 0) st" using P by simp
      show "0 \<le> nlh" by (rule deg)
      fix w st assume w: "0 \<le> w" "w < nlh" and Q: "?P (h * nlh + w) st"
      obtain s t where st: "st = (s, t)" by (cases st)
      have s: "asize s = ?N" and t: "low = 1 \<Longrightarrow> asize t = ?N" "low \<noteq> 1 \<Longrightarrow> t = []"
        and cells: "\<And>i. 0 \<le> i \<and> i < h * nlh + w \<Longrightarrow> s ! nat i = Some (?L i) \<and> (low = 1 \<longrightarrow> t ! nat i = Some (?C i))"
        using Q unfolding st by auto
      have k: "0 \<le> h * nlh + w \<and> h * nlh + w < ?N" by (rule row_index_bound [OF w h])
      have step: "transit_low nm nlm nlh low up h2m m2l h w st =
        Some (s[nat (h * nlh + w) := Some (lo_of nm nlm low up h2m m2l h w)],
          if low = 1 then t[nat (h * nlh + w) := Some (code_at nm nlm up h2m m2l h w)] else t)"
        unfolding st
      proof (rule transit_low_step [OF ti h w s t(1)])
        fix v assume v: "0 \<le> v" "v < w"
        have "0 \<le> h * nlh + v \<and> h * nlh + v < h * nlh + w"
          using v row_index_bound [of v nlh h nhigh] h w by simp
        then show "s ! nat (h * nlh + v) = Some (lo_of nm nlm low up h2m m2l h v)" using cells [of "h * nlh + v"] dm [of v h] v w by simp
      qed simp_all
      have new: "s[nat (h * nlh + w) := Some (lo_of nm nlm low up h2m m2l h w)] ! nat i = Some (?L i) \<and>
          (low = 1 \<longrightarrow> t[nat (h * nlh + w) := Some (code_at nm nlm up h2m m2l h w)] ! nat i = Some (?C i))"
        if i: "0 \<le> i" "i < h * nlh + (w + 1)" for i
      proof (cases "i = h * nlh + w")
        case True
        have "nat (h * nlh + w) < length s" "low = 1 \<Longrightarrow> nat (h * nlh + w) < length t"
          using k s t(1) by (simp_all add: asize_def nat_less_iff)
        then show ?thesis unfolding True dm [OF w] by simp
      next
        case False
        then have "nat i \<noteq> nat (h * nlh + w)" using i k by simp
        then show ?thesis using cells [of i] i False by simp
      qed
      show "\<exists>st'. transit_low nm nlm nlh low up h2m m2l h w st = Some st' \<and> ?P (h * nlh + (w + 1)) st'"
        unfolding step using new s t by (simp add: add.assoc)
    qed
    then show ?thesis by (simp only: distrib_right mult_1)
  qed
  let ?t0 = "if low = 1 then fresh ?N else []"
  have "\<exists>st. parallel_for nhigh (\<lambda>h. for_range 0 nlh (transit_low nm nlm nlh low up h2m m2l h)) (fresh ?N, ?t0) = Some st \<and>
      ?P (nhigh * nlh) st"
  proof (rule parallel_for_rule [where P = "\<lambda>h. ?P (h * nlh)"])
    show "?P (0 * nlh) (fresh ?N, ?t0)" using N by auto
    show "0 \<le> nhigh" by (rule deg)
  qed (rule inner)
  then obtain s t where run: "parallel_for nhigh (\<lambda>h. for_range 0 nlh (transit_low nm nlm nlh low up h2m m2l h)) (fresh ?N, ?t0) =
      Some (s, t)" and P: "?P (nhigh * nlh) (s, t)" by auto
  have s: "length s = nat ?N" "\<And>k. int k < ?N \<Longrightarrow> s ! k = Some (?L (int k))"
    and t: "low = 1 \<Longrightarrow> length t = nat ?N" "low \<noteq> 1 \<Longrightarrow> t = []" "\<And>k. low = 1 \<Longrightarrow> int k < ?N \<Longrightarrow> t ! k = Some (?C (int k))"
    using P by (auto simp: asize_def dest: spec [of _ "int _"])
  have fs: "freeze s = Some (map (\<lambda>k. ?L (int k)) [0..<nat ?N])"
    by (rule freeze_eqI) (use s in \<open>simp_all add: zless_nat_eq_int_zless\<close>)
  let ?codes = "if low = 1 then map (\<lambda>k. ?C (int k)) [0..<nat ?N] else []"
  have ft: "freeze t = Some ?codes"
  proof (cases "low = 1")
    case True
    then show ?thesis
      by (simp only: if_True, intro freeze_eqI) (use t True in \<open>simp_all add: zless_nat_eq_int_zless\<close>)
  next
    case False
    then show ?thesis using t(2) by (simp add: freeze_def)
  qed
  have dnr: "divide_no_remainder (asize (ab2b h2m)) nm = Some nhigh"
    using deg(1) by (simp add: h2m(1))
  have alloc: "(if low = 1 then alloc (asize (fresh ?N :: lo option list)) else Some []) = Some ?t0" using N by simp
  have body: "transit_body nm nlm nlh low up h2m m2l =
      Some \<lparr>a2ab = [], ab2b = map (\<lambda>k. ?L (int k)) [0..<nat ?N], adj_codes = (if low = 1 then Some ?codes else None)\<rparr>"
    unfolding transit_body_def dnr Option.bind.simps alloc_nonneg [OF N] alloc run prod.case fs ft ..
  have cell: "map (\<lambda>k. ?L (int k)) [0..<nat ?N] ! nat (h * nlh + w) = lo_of nm nlm low up h2m m2l h w \<and>
      (low = 1 \<longrightarrow> ?codes ! nat (h * nlh + w) = code_at nm nlm up h2m m2l h w)" if "0 \<le> h \<and> h < nhigh \<and> 0 \<le> w \<and> w < nlh" for h w
  proof -
    have "0 \<le> h * nlh + w \<and> h * nlh + w < ?N" using that by (intro row_index_bound) simp_all
    then have "nat (h * nlh + w) < nat ?N" "int (nat (h * nlh + w)) = h * nlh + w" by simp_all
    then show ?thesis using dm [of w h] that by simp
  qed
  show ?thesis
    by (rule exI, rule exI, intro conjI, rule body) (use cell N in \<open>simp_all add: asize_def\<close>)
qed

section \<open>The tables of the families\<close>

lemma family_tables:
  assumes "(e, m, b) \<in> {(3, 2, 1), (3, 1, 0), (2, 1, 0)}"
  shows "boundary_tables (element_down_template fam) (element_up_template fam) (element_degree fam) e m b"
proof (cases "fam = OMEGA_H_SIMPLEX")
  case True
  then have "element_down_template fam = simplex_down_template" "element_up_template fam = simplex_up_template"
    "element_degree fam = simplex_degree"
    by (intro ext, simp add: element_down_template_def element_up_template_def element_degree_def)+
  then show ?thesis
    using assms tet_edges_via_faces.boundary_tables_axioms tet_verts_via_edges.boundary_tables_axioms
      tri_verts_via_edges.boundary_tables_axioms by auto
next
  case False
  then have "element_down_template fam = hypercube_down_template" "element_up_template fam = hypercube_up_template"
    "element_degree fam = hypercube_degree"
    by (intro ext, simp add: element_down_template_def element_up_template_def element_degree_def)+
  then show ?thesis
    using assms hex_edges_via_faces.boundary_tables_axioms hex_verts_via_edges.boundary_tables_axioms
      quad_verts_via_edges.boundary_tables_axioms by auto
qed

lemma all_families: "(\<forall>f \<in> set [OMEGA_H_SIMPLEX, OMEGA_H_HYPERCUBE, OMEGA_H_MIXED]. P f) \<Longrightarrow> P fam"
  by (cases fam) simp_all

lemma family_degrees:
  "0 < element_degree fam 3 2" "element_degree fam 2 1 \<in> {3, 4}" "element_degree fam 2 0 = element_degree fam 2 1"
  "element_degree fam 1 0 = 2" "element_degree fam 0 0 = 1" "0 < element_degree fam 3 1" "0 < element_degree fam 2 1"
  "0 < element_degree fam 3 0" "0 < element_degree fam 2 0"
  by (rule all_families [where fam = fam], code_simp)+

text \<open>Distinct boundary entities have different sets of vertices.\<close>

lemma family_down_ok: "(e, b) \<in> {(3, 2), (3, 1), (3, 0), (2, 1), (2, 0)} \<Longrightarrow>
    down_ok (element_down_template fam) (element_degree fam) e b"
proof -
  have "\<forall>(e, b) \<in> set [(3, 2), (3, 1), (3, 0), (2, 1), (2, 0)]. down_ok (element_down_template fam) (element_degree fam) e b"
    by (rule all_families [where fam = fam]) code_simp
  then show "(e, b) \<in> {(3, 2), (3, 1), (3, 0), (2, 1), (2, 0)} \<Longrightarrow>
    down_ok (element_down_template fam) (element_degree fam) e b" by auto
qed

text \<open>A code turns the ends of edge \<open>w\<close> of a face into the ends of the edge it turns \<open>w\<close> into.\<close>

lemma edge_turn_table:
  "\<forall>f \<in> set [False, True]. \<forall>r \<in> set [0..3]. \<forall>w \<in> set [0..element_degree fam 2 1 - 1].
     map (act_vert (element_degree fam 2 0) f r) (map (element_down_template fam 2 1 w) [0..1]) =
     (let vs = map (element_down_template fam 2 1 (act_edge (element_degree fam 2 1) f r w)) [0..1] in if f then rev vs else vs)"
  by (rule all_families [where fam = fam]) code_simp

lemma vertex_entity_table:
  "\<forall>w \<in> set [0..element_degree fam 3 0 - 1]. element_down_template fam 3 0 w 0 = w"
  "\<forall>w \<in> set [0..element_degree fam 2 0 - 1]. element_down_template fam 2 0 w 0 = w"
  "\<forall>w \<in> set [0..element_degree fam 1 0 - 1]. element_down_template fam 1 0 w 0 = w"
  by (rule all_families [where fam = fam], code_simp)+

lemma face_edge_range:
  assumes "0 \<le> w" "w < element_degree fam 2 1" "k \<in> set [0, 1]"
  shows "0 \<le> element_down_template fam 2 1 w k \<and> element_down_template fam 2 1 w k < element_degree fam 2 1"
proof -
  have "\<forall>w \<in> set [0..element_degree fam 2 1 - 1]. \<forall>k \<in> set [0, 1].
      0 \<le> element_down_template fam 2 1 w k \<and> element_down_template fam 2 1 w k < element_degree fam 2 1"
    by (rule all_families [where fam = fam]) code_simp
  moreover have "w \<in> set [0..element_degree fam 2 1 - 1]" using assms(1,2) by simp
  ultimately show ?thesis using assms(3) by blast
qed

lemma edge_turn:
  assumes "0 \<le> w" "w < element_degree fam 2 1"
  shows "map (\<lambda>k. align_vert_index (element_degree fam 2 0) (element_down_template fam 2 1 w k) c) [0..1] =
    (let vs = map (element_down_template fam 2 1 (align_edge_index (element_degree fam 2 1) w c)) [0..1]
     in if code_is_flipped c then rev vs else vs)"
proof -
  have "w \<in> set [0..element_degree fam 2 1 - 1]" using assms by simp
  from edge_turn_table [where fam = fam, THEN bspec, OF bool_range [of "code_is_flipped c"], THEN bspec, OF code_rotation_range [of c],
    THEN bspec, OF this] show ?thesis
    by (simp only: align_vert_index_act align_edge_index_act Let_def map_map comp_def)
qed

lemma align_row_edge:
  assumes "code_rotation c < 2"
  shows "align_row 2 c [x, y] = (if code_rotation c = 1 then [y, x] else [x, y])"
proof (rule align_rowI [symmetric])
  have "\<forall>f \<in> set [False, True]. \<forall>r \<in> set [0, 1]. \<forall>j \<in> set [0, 1]. act_vert 2 f r j = (j + r) mod 2" by code_simp
  moreover have "code_rotation c \<in> set [0, 1]" using assms code_rotation_bounds(1) [of c]
    by (auto simp del: code_rotation_bounds)
  ultimately have act: "align_vert_index 2 j c = (j + code_rotation c) mod 2" if "j \<in> set [0, 1]" for j
    using that bool_range by (simp only: align_vert_index_act)
  fix j :: int assume "0 \<le> j" "j < 2"
  then have "j \<in> set [0, 1]" by auto
  then show "(if code_rotation c = 1 then [y, x] else [x, y]) ! nat (align_vert_index 2 j c) = [x, y] ! nat j"
    using act \<open>code_rotation c \<in> set [0, 1]\<close> by auto
qed simp_all

lemma edge_code_rotation: "code_rotation (make_code False (of_bool b) 0) = of_bool b"
proof -
  have "code_rotation (make_code False 0 0) = 0" "code_rotation (make_code False 1 0) = 1" by code_simp+
  then show ?thesis by (cases b) simp_all
qed

section \<open>Composing downward adjacencies\<close>

lemma map_upto_2: "map g [0..1::int] = [g 0, g 1]"
proof -
  have "[0..1::int] = [0, 1]" by code_simp
  then show ?thesis by simp
qed

text \<open>The boundary entities of an element whose vertices are distinct have different vertices.\<close>

lemma bdry_verts_differ:
  assumes ok: "down_ok dn deg e b" and len: "asize V = deg e 0" and d: "distinct V" and ne: "e \<noteq> b"
    and w: "0 \<le> w" "w < deg e b" and v: "0 \<le> v" "v < deg e b" and wv: "w \<noteq> v"
  shows "set (map (\<lambda>k. V ! nat (dn e b w k)) [0..deg b 0 - 1]) \<noteq> set (map (\<lambda>k. V ! nat (dn e b v k)) [0..deg b 0 - 1])"
proof -
  let ?S = "\<lambda>w. set (ent_verts dn deg e b w)"
  have sub: "?S w \<subseteq> {0..<deg e 0}" if "0 \<le> w" "w < deg e b" for w
    using ok that unfolding down_ok_def by force
  have "?S w \<noteq> ?S v" using ok w v wv unfolding down_ok_def by auto
  moreover have "inj_on (\<lambda>i. V ! nat i) {0..<deg e 0}"
    using d len by (intro inj_onI) (simp add: distinct_nth_int_eq)
  ultimately have "(\<lambda>i. V ! nat i) ` ?S w \<noteq> (\<lambda>i. V ! nat i) ` ?S v"
    using inj_on_image_eq_iff sub [OF w] sub [OF v] by metis
  then show ?thesis using ne by (simp add: ent_verts_def image_image)
qed

lemma consistent_downE:
  assumes "consistent_down nh nb nl down hv lv d" "0 < nh" "asize hv = nhigh * nh"
  obtains nlow codes where "0 \<le> nhigh" "asize lv = nlow * nl" "asize (ab2b d) = nhigh * nb"
    "codes_of d = codes" "adj_codes d = Some codes" "asize codes = nhigh * nb"
    "\<And>h u. 0 \<le> h \<Longrightarrow> h < nhigh \<Longrightarrow> 0 \<le> u \<Longrightarrow> u < nb \<Longrightarrow>
        0 \<le> ab2b d ! nat (h * nb + u) \<and> ab2b d ! nat (h * nb + u) < nlow \<and>
        map (\<lambda>v. row nh hv h ! nat (down u v)) [0..nl - 1] =
          align_row nl (codes ! nat (h * nb + u)) (row nl lv (ab2b d ! nat (h * nb + u))) \<and>
        (nl = 2 \<longrightarrow> code_rotation (codes ! nat (h * nb + u)) < 2)"
proof -
  obtain n nlow codes where c: "0 \<le> n" "asize hv = n * nh" "asize lv = nlow * nl" "asize (ab2b d) = n * nb"
    "adj_codes d = Some codes" "asize codes = n * nb"
    "\<forall>h u. 0 \<le> h \<and> h < n \<and> 0 \<le> u \<and> u < nb \<longrightarrow>
        0 \<le> ab2b d ! nat (h * nb + u) \<and> ab2b d ! nat (h * nb + u) < nlow \<and>
        map (\<lambda>v. row nh hv h ! nat (down u v)) [0..nl - 1] =
          align_row nl (codes ! nat (h * nb + u)) (row nl lv (ab2b d ! nat (h * nb + u))) \<and>
        (nl = 2 \<longrightarrow> code_rotation (codes ! nat (h * nb + u)) < 2)"
    using assms(1) unfolding consistent_down_def by blast
  have "n = nhigh" using c(2) assms(2,3) by simp
  then show thesis using c by (intro that [of nlow codes]) (simp_all add: codes_of_def)
qed

section \<open>Elements to edges through their faces\<close>

text \<open>
  What the directions of the edges rest on, for an element and a kind of faces: the upward table of the
  edges is right, faces have as many edges as vertices, and a code turns the ends of an edge of a face
  into the ends of the edge it turns this edge into.
\<close>

locale edge_transit = boundary_tables down up deg elem mid 1
  for down :: down_table and up :: up_table and deg :: degree_table and elem mid :: int +
  assumes face_degree: "deg mid 1 \<in> {2, 3, 4}" "deg mid 0 = deg mid 1" "deg 1 0 = 2"
    and elem_degree: "0 < deg elem 0" "0 < deg elem mid" "0 < deg elem 1" "elem \<noteq> 1" "mid \<noteq> 1"
    and face_edges: "0 \<le> w \<Longrightarrow> w < deg mid 1 \<Longrightarrow> k \<in> set [0, 1] \<Longrightarrow> 0 \<le> down mid 1 w k \<and> down mid 1 w k < deg mid 1"
    and face_turn: "0 \<le> w \<Longrightarrow> w < deg mid 1 \<Longrightarrow>
      map (\<lambda>k. align_vert_index (deg mid 0) (down mid 1 w k) c) [0..1] =
      (let vs = map (down mid 1 (align_edge_index (deg mid 1) w c)) [0..1] in if code_is_flipped c then rev vs else vs)"
    and edges_differ: "down_ok down deg elem 1"
begin

abbreviation ups :: "int \<Rightarrow> template_up" where
  "ups w \<equiv> up elem 1 w 0"

lemma via_face:
  assumes c: "map (\<lambda>k. V ! nat (down elem mid (tup_up ut) k)) [0..deg mid 0 - 1] = align_row (deg mid 0) c M"
    and m: "map (\<lambda>k. M ! nat (down mid 1 ml k)) [0..1] = align_row 2 ec L"
    and ut: "ut = ups w" and ml: "ml = align_edge_index (deg mid 1) (tup_which_down ut) (invert_alignment (deg mid 1) c)"
    and w: "0 \<le> w" "w < deg elem 1" and ec: "code_rotation ec < 2" and L: "asize L = 2"
  shows "map (\<lambda>k. V ! nat (down elem 1 w k)) [0..1] =
    align_row 2 (make_code False (of_bool ((code_is_flipped (invert_alignment (deg mid 1) c) \<noteq>
      (code_rotation ec = 1)) \<noteq> tup_is_flipped ut)) 0) L"
proof -
  let ?n = "deg mid 1" and ?d = "invert_alignment (deg mid 1) c"
  let ?wd = "tup_which_down ut" and ?up = "tup_up ut"
  have wd: "0 \<le> ?wd" "?wd < ?n" using up_range(3,4) [OF w] by (simp_all add: ut)
  let ?e = "down mid 1 ?wd" and ?f = "down mid 1 ml"
  have via: "V ! nat (down elem mid ?up k) = M ! nat (align_vert_index ?n k ?d)" if k: "0 \<le> k" "k < ?n" for k
  proof -
    have "map (\<lambda>k. V ! nat (down elem mid ?up k)) [0..?n - 1] ! nat k = V ! nat (down elem mid ?up k)"
      using k by (simp add: nth_upto)
    then show ?thesis using c nth_align_row [OF k, of c M] face_degree(2) by simp
  qed
  have e: "0 \<le> ?e k \<and> ?e k < ?n" if "k \<in> set [0, 1]" for k using face_edges [of ?wd k] wd that by simp
  obtain x y where xy: "L = [x, y]" using L unfolding asize_explicit by blast
  let ?r = "code_rotation ec = 1" and ?fl = "tup_is_flipped ut" and ?df = "code_is_flipped ?d"
  have "(if ?fl then [down elem mid ?up (?e 1), down elem mid ?up (?e 0)]
      else [down elem mid ?up (?e 0), down elem mid ?up (?e 1)]) = [down elem 1 w 0, down elem 1 w 1]"
    using up_verts [OF w] face_degree(3) elem_degree(4,5)
    by (cases ?fl) (simp_all add: ut via_verts_def ent_verts_def Let_def map_upto_2)
  then have A: "[V ! nat (down elem 1 w 0), V ! nat (down elem 1 w 1)] =
      (if ?fl then [M ! nat (align_vert_index ?n (?e 1) ?d), M ! nat (align_vert_index ?n (?e 0) ?d)]
       else [M ! nat (align_vert_index ?n (?e 0) ?d), M ! nat (align_vert_index ?n (?e 1) ?d)])"
    using via [of "?e 0"] via [of "?e 1"] e by (auto split: if_splits)
  have B: "[align_vert_index ?n (?e 0) ?d, align_vert_index ?n (?e 1) ?d] = (if ?df then [?f 1, ?f 0] else [?f 0, ?f 1])"
    using face_turn [OF wd, of ?d] unfolding face_degree(2) ml [symmetric] map_upto_2 Let_def by simp
  have C: "[M ! nat (?f 0), M ! nat (?f 1)] = (if ?r then [y, x] else [x, y])"
    using m align_row_edge [OF ec, of x y] unfolding map_upto_2 xy by simp
  have D: "align_row 2 (make_code False (of_bool b) 0) [x, y] = (if b then [y, x] else [x, y])" for b
    using align_row_edge [of "make_code False (of_bool b) 0" x y] by (simp add: edge_code_rotation)
  show ?thesis
    unfolding map_upto_2 xy D A using B C by (cases ?fl; cases ?df; cases ?r) simp_all
qed

text \<open>The edge that \<open>transit\<close> finds for a place in an element, and its code, are right.\<close>

lemma edges_found:
  assumes c: "consistent_down (deg elem 0) (deg elem mid) (deg mid 0) (down elem mid) rv2v fv2v r2f"
    and d: "consistent_down (deg mid 0) (deg mid 1) 2 (down mid 1) fv2v ev2v f2e"
    and sz: "asize rv2v = nr * deg elem 0"
    and dist: "\<forall>r. 0 \<le> r \<and> r < nr \<longrightarrow> distinct (row (deg elem 0) rv2v r)"
  obtains nf ne where "asize ev2v = ne * 2"
    "transit_inputs (deg elem mid) (deg mid 1) (deg elem 1) 1 nr nf ups r2f f2e"
    "\<And>h w. 0 \<le> h \<Longrightarrow> h < nr \<Longrightarrow> 0 \<le> w \<Longrightarrow> w < deg elem 1 \<Longrightarrow>
      0 \<le> lo_of (deg elem mid) (deg mid 1) 1 ups r2f f2e h w \<and>
      lo_of (deg elem mid) (deg mid 1) 1 ups r2f f2e h w < ne \<and>
      map (\<lambda>k. row (deg elem 0) rv2v h ! nat (down elem 1 w k)) [0..1] =
        align_row 2 (code_at (deg elem mid) (deg mid 1) ups r2f f2e h w)
          (row 2 ev2v (lo_of (deg elem mid) (deg mid 1) 1 ups r2f f2e h w))"
proof -
  let ?nr0 = "deg elem 0" and ?nf = "deg elem mid" and ?n = "deg mid 1" and ?ne = "deg elem 1"
  have pos: "0 < deg mid 0" using face_degree by auto
  obtain nf rcodes where r: "0 \<le> nr" "asize fv2v = nf * deg mid 0" "asize (ab2b r2f) = nr * ?nf"
    "codes_of r2f = rcodes" "asize rcodes = nr * ?nf"
    "\<And>h u. 0 \<le> h \<Longrightarrow> h < nr \<Longrightarrow> 0 \<le> u \<Longrightarrow> u < ?nf \<Longrightarrow>
        0 \<le> ab2b r2f ! nat (h * ?nf + u) \<and> ab2b r2f ! nat (h * ?nf + u) < nf \<and>
        map (\<lambda>v. row ?nr0 rv2v h ! nat (down elem mid u v)) [0..deg mid 0 - 1] =
          align_row (deg mid 0) (rcodes ! nat (h * ?nf + u)) (row (deg mid 0) fv2v (ab2b r2f ! nat (h * ?nf + u)))"
    using consistent_downE [OF c elem_degree(1) sz] by metis
  obtain ne fcodes where f: "asize ev2v = ne * 2" "asize (ab2b f2e) = nf * ?n" "codes_of f2e = fcodes" "asize fcodes = nf * ?n"
    "\<And>h u. 0 \<le> h \<Longrightarrow> h < nf \<Longrightarrow> 0 \<le> u \<Longrightarrow> u < ?n \<Longrightarrow>
        0 \<le> ab2b f2e ! nat (h * ?n + u) \<and> ab2b f2e ! nat (h * ?n + u) < ne \<and>
        map (\<lambda>v. row (deg mid 0) fv2v h ! nat (down mid 1 u v)) [0..2 - 1] =
          align_row 2 (fcodes ! nat (h * ?n + u)) (row 2 ev2v (ab2b f2e ! nat (h * ?n + u))) \<and>
        code_rotation (fcodes ! nat (h * ?n + u)) < 2"
    using consistent_downE [OF d pos r(2)] by metis
  let ?cell = "transit_cell ?nf ?n 1 ups r2f" and ?lo = "lo_of ?nf ?n 1 ups r2f f2e"
  let ?code = "code_at ?nf ?n ups r2f f2e"
  have edge: "0 \<le> ?lo h w \<and> ?lo h w < ne \<and>
      map (\<lambda>k. row ?nr0 rv2v h ! nat (down elem 1 w k)) [0..1] = align_row 2 (?code h w) (row 2 ev2v (?lo h w))"
    if h: "0 \<le> h" "h < nr" and w: "0 \<le> w" "w < ?ne" for h w
  proof -
    let ?c = "rcodes ! nat (h * ?nf + tup_up (ups w))" and ?m = "ab2b r2f ! nat (h * ?nf + tup_up (ups w))"
    note u = up_range [OF w]
    note R = r(6) [OF h u(1,2)]
    let ?ml = "align_edge_index ?n (tup_which_down (ups w)) (invert_alignment ?n ?c)"
    have ml: "0 \<le> ?ml" "?ml < ?n" using align_index_range(2) [OF face_degree(1) u(3,4)] by auto
    have m: "0 \<le> ?m" "?m < nf" using R by auto
    note F = f(5) [OF m ml]
    have cell: "?cell h w = ?m * ?n + ?ml"
      by (simp add: transit_cell_def transit_mid_def transit_code_def align_index_def r(4))
    have "map (\<lambda>k. row ?nr0 rv2v h ! nat (down elem 1 w k)) [0..1] =
      align_row 2 (make_code False (of_bool ((code_is_flipped (invert_alignment ?n ?c) \<noteq>
        (code_rotation (fcodes ! nat (?m * ?n + ?ml)) = 1)) \<noteq> tup_is_flipped (ups w))) 0)
        (row 2 ev2v (ab2b f2e ! nat (?m * ?n + ?ml)))"
      by (rule via_face [where M = "row (deg mid 0) fv2v ?m" and c = ?c and ml = ?ml]) (use R F w in simp_all)
    then show ?thesis
      using F unfolding cell transit_flip_def by (simp add: transit_code_def r(4) f(3))
  qed
  have lens: "asize (row ?nr0 rv2v h) = ?nr0" for h using elem_degree(1) by simp
  have "transit_inputs ?nf ?n ?ne 1 nr nf ups r2f f2e"
    unfolding transit_inputs_def
  proof (intro conjI allI impI)
    fix h w v assume a: "0 \<le> h \<and> h < nr \<and> 0 \<le> w \<and> w < ?ne \<and> 0 \<le> v \<and> v < ?ne \<and> w \<noteq> v"
    then have "distinct (row ?nr0 rv2v h)" using dist by blast
    then have "set (map (\<lambda>k. row ?nr0 rv2v h ! nat (down elem 1 w k)) [0..deg 1 0 - 1]) \<noteq>
        set (map (\<lambda>k. row ?nr0 rv2v h ! nat (down elem 1 v k)) [0..deg 1 0 - 1])"
      by (rule bdry_verts_differ [OF edges_differ lens _ elem_degree(4)]) (use a in auto)
    moreover have "set (map (\<lambda>k. row ?nr0 rv2v h ! nat (down elem 1 x k)) [0..1]) = set (row 2 ev2v (?lo h x))"
      if "0 \<le> x" "x < ?ne" for x
      using edge [of h x] a that set_align_row [of 2 "row 2 ev2v (?lo h x)"] by simp
    ultimately show "?lo h w \<noteq> ?lo h v" using a face_degree(3) by auto
  qed (use face_degree(1) elem_degree r f up_range in \<open>auto simp: less_imp_le\<close>)
  then show thesis by (intro that [of ne nf] f(1) edge)
qed

end

interpretation family: edge_transit "element_down_template fam" "element_up_template fam" "element_degree fam" 3 2 for fam
proof (intro edge_transit.intro family_tables edge_transit_axioms.intro)
  show "element_degree fam 2 1 \<in> {2, 3, 4}" using family_degrees(2) [of fam] by auto
qed (use family_degrees [of fam] family_down_ok [of 3 1 fam] face_edge_range [of _ fam] edge_turn [of _ fam] in simp_all)

lemma transit_edges_consistent:
  assumes "consistent_down (element_degree fam 3 0) (element_degree fam 3 2) (element_degree fam 2 0)
      (element_down_template fam 3 2) rv2v fv2v r2f"
    and "consistent_down (element_degree fam 2 0) (element_degree fam 2 1) 2 (element_down_template fam 2 1) fv2v ev2v f2e"
    and "asize rv2v = nr * element_degree fam 3 0"
    and "\<forall>r. 0 \<le> r \<and> r < nr \<longrightarrow> distinct (row (element_degree fam 3 0) rv2v r)"
  shows "\<exists>r2e. transit r2f f2e fam 3 1 = Some r2e \<and> a2ab r2e = [] \<and>
    consistent_down (element_degree fam 3 0) (element_degree fam 3 1) 2 (element_down_template fam 3 1) rv2v ev2v r2e"
proof -
  let ?nr0 = "element_degree fam 3 0" and ?nf = "element_degree fam 3 2" and ?n = "element_degree fam 2 1"
  let ?ne = "element_degree fam 3 1" and ?up = "\<lambda>w. element_up_template fam 3 1 w 0"
  obtain nf ne where f: "asize ev2v = ne * 2" "transit_inputs ?nf ?n ?ne 1 nr nf ?up r2f f2e"
    "\<And>h w. 0 \<le> h \<Longrightarrow> h < nr \<Longrightarrow> 0 \<le> w \<Longrightarrow> w < ?ne \<Longrightarrow>
      0 \<le> lo_of ?nf ?n 1 ?up r2f f2e h w \<and> lo_of ?nf ?n 1 ?up r2f f2e h w < ne \<and>
      map (\<lambda>k. row ?nr0 rv2v h ! nat (element_down_template fam 3 1 w k)) [0..1] =
        align_row 2 (code_at ?nf ?n ?up r2f f2e h w) (row 2 ev2v (lo_of ?nf ?n 1 ?up r2f f2e h w))"
    by (rule family.edges_found [OF assms]) blast
  have nr: "0 \<le> nr" by (rule transit_inputsD(5) [OF f(2)])
  obtain r2e codes where t: "transit_body ?nf ?n ?ne 1 ?up r2f f2e = Some \<lparr>a2ab = [], ab2b = r2e, adj_codes = Some codes\<rparr>"
    "asize r2e = nr * ?ne" "asize codes = nr * ?ne"
    "\<And>h w. 0 \<le> h \<Longrightarrow> h < nr \<Longrightarrow> 0 \<le> w \<Longrightarrow> w < ?ne \<Longrightarrow>
       r2e ! nat (h * ?ne + w) = lo_of ?nf ?n 1 ?up r2f f2e h w \<and> codes ! nat (h * ?ne + w) = code_at ?nf ?n ?up r2f f2e h w"
    using transit_body_ex [OF f(2)] by auto
  have "transit r2f f2e fam 3 1 = Some \<lparr>a2ab = [], ab2b = r2e, adj_codes = Some codes\<rparr>"
    using t(1) by (simp add: transit_def dimensional_singular_name_def dimensional_plural_name_def)
  moreover have "code_rotation (code_at ?nf ?n ?up r2f f2e h w) < 2" for h w
    by (simp add: edge_code_rotation)
  ultimately show ?thesis
    unfolding consistent_down_def using t(2-) f(3) nr assms(3) f(1)
    by (intro exI [of _ "\<lparr>a2ab = [], ab2b = r2e, adj_codes = Some codes\<rparr>"] conjI exI [of _ nr] exI [of _ ne] exI [of _ codes]) simp_all
qed

text \<open>C8. \<open>transit\<close> composes downward adjacencies: from a consistent adjacency of elements to faces and a
  consistent adjacency of faces to edges it computes, without failing any of its checks, a
  consistent adjacency of elements to edges, the directions of the edges included; for
  tetrahedra and hexahedra.\<close>

theorem transit_elements_edges:
  assumes "consistent_down (element_degree fam 3 0) (element_degree fam 3 2) (element_degree fam 2 0)
      (element_down_template fam 3 2) rv2v fv2v r2f"
    and "consistent_down (element_degree fam 2 0) (element_degree fam 2 1) 2 (element_down_template fam 2 1) fv2v ev2v f2e"
    and "asize rv2v = nr * element_degree fam 3 0"
    and "\<forall>r. 0 \<le> r \<and> r < nr \<longrightarrow> distinct (row (element_degree fam 3 0) rv2v r)"
  shows "\<exists>r2e. transit r2f f2e fam 3 1 = Some r2e \<and>
    consistent_down (element_degree fam 3 0) (element_degree fam 3 1) 2 (element_down_template fam 3 1) rv2v ev2v r2e"
  using transit_edges_consistent [OF assms] by blast

text \<open>A way to evaluate the predicate.\<close>

lemma consistent_downI:
  assumes "0 \<le> nhigh" "asize hv = nhigh * nh" "asize lv = nlow * nl" "asize (ab2b d) = nhigh * nb"
    "adj_codes d = Some codes" "asize codes = nhigh * nb"
    and "\<forall>h \<in> set [0..nhigh - 1]. \<forall>u \<in> set [0..nb - 1].
        0 \<le> ab2b d ! nat (h * nb + u) \<and> ab2b d ! nat (h * nb + u) < nlow \<and>
        map (\<lambda>v. row nh hv h ! nat (down u v)) [0..nl - 1] =
          align_row nl (codes ! nat (h * nb + u)) (row nl lv (ab2b d ! nat (h * nb + u))) \<and>
        (nl = 2 \<longrightarrow> code_rotation (codes ! nat (h * nb + u)) < 2)"
  shows "consistent_down nh nb nl down hv lv d"
  unfolding consistent_down_def
  using assms by (intro exI [of _ nhigh] exI [of _ nlow] exI [of _ codes] conjI) simp_all

text \<open>One tetrahedron with its four faces and six edges.\<close>

theorem transit_elements_edges_witness:
  "\<exists>r2e. transit \<lparr>a2ab = [], ab2b = [0, 1, 2, 3], adj_codes = Some (replicate 4 (make_code False 0 0))\<rparr>
      \<lparr>a2ab = [], ab2b = [2, 1, 0, 0, 4, 3, 1, 5, 4, 2, 3, 5],
       adj_codes = Some (map (\<lambda>r. make_code False r 0) [1, 1, 1, 0, 0, 1, 0, 0, 1, 0, 0, 1])\<rparr> OMEGA_H_SIMPLEX 3 1 = Some r2e \<and>
    consistent_down 4 6 2 (element_down_template OMEGA_H_SIMPLEX 3 1) [0, 1, 2, 3] [0, 1, 1, 2, 2, 0, 0, 3, 1, 3, 2, 3] r2e"
proof -
  let ?r2f = "\<lparr>a2ab = [], ab2b = [0, 1, 2, 3], adj_codes = Some (replicate 4 (make_code False 0 0))\<rparr>"
  let ?fc = "map (\<lambda>r. make_code False r 0) [1, 1, 1, 0, 0, 1, 0, 0, 1, 0, 0, 1]"
  let ?f2e = "\<lparr>a2ab = [], ab2b = [2, 1, 0, 0, 4, 3, 1, 5, 4, 2, 3, 5], adj_codes = Some ?fc\<rparr>"
  let ?fv = "[0, 2, 1, 0, 1, 3, 1, 2, 3, 2, 0, 3]" and ?ev = "[0, 1, 1, 2, 2, 0, 0, 3, 1, 3, 2, 3]"
  have deg: "element_degree OMEGA_H_SIMPLEX 3 0 = 4" "element_degree OMEGA_H_SIMPLEX 3 2 = 4" "element_degree OMEGA_H_SIMPLEX 2 0 = 3"
    "element_degree OMEGA_H_SIMPLEX 2 1 = 3" "element_degree OMEGA_H_SIMPLEX 3 1 = 6" by code_simp+
  have a: "consistent_down 4 4 3 (element_down_template OMEGA_H_SIMPLEX 3 2) [0, 1, 2, 3] ?fv ?r2f"
    by (rule consistent_downI [where nhigh = 1 and nlow = 4 and codes = "replicate 4 (make_code False 0 0)"])
      (simp, simp, simp, simp, simp, simp, code_simp)
  have b: "consistent_down 3 3 2 (element_down_template OMEGA_H_SIMPLEX 2 1) ?fv ?ev ?f2e"
    by (rule consistent_downI [where nhigh = 4 and nlow = 6 and codes = ?fc]) (simp, simp, simp, simp, simp, simp, code_simp)
  have "distinct (row 4 [0, 1, 2, 3 :: int] 0)" by code_simp
  moreover have "r = 0" if "0 \<le> r \<and> r < 1" for r :: int using that by simp
  ultimately have c: "\<forall>r. 0 \<le> r \<and> r < 1 \<longrightarrow> distinct (row 4 [0, 1, 2, 3 :: int] r)" by blast
  show ?thesis
    using transit_elements_edges [where fam = OMEGA_H_SIMPLEX, unfolded deg, OF a b _ c] by simp
qed

text \<open>
  From edges to vertices: the transit of a consistent adjacency of elements to edges and of the edges'
  vertices is the vertex list of the elements itself.
\<close>

lemma transit_vertices_eq:
  assumes "high \<in> {2, 3}"
    and cons: "consistent_down (element_degree fam high 0) (element_degree fam high 1) 2 (element_down_template fam high 1) hv2v ev2v h2e"
    and sz: "asize hv2v = nh * element_degree fam high 0"
    and dist: "\<forall>h. 0 \<le> h \<and> h < nh \<longrightarrow> distinct (row (element_degree fam high 0) hv2v h)"
  shows "transit h2e \<lparr>a2ab = [], ab2b = ev2v, adj_codes = None\<rparr> fam high 0 = Some \<lparr>a2ab = [], ab2b = hv2v, adj_codes = None\<rparr>"
proof -
  let ?n0 = "element_degree fam high 0" and ?ne = "element_degree fam high 1"
  let ?up = "\<lambda>w. element_up_template fam high 0 w 0" and ?e2v = "\<lparr>a2ab = [], ab2b = ev2v, adj_codes = None\<rparr>"
  note fd = family_degrees [of fam]
  have deg: "0 < ?n0" "0 < ?ne" using fd assms(1) by auto
  obtain ne codes where r: "0 \<le> nh" "asize ev2v = ne * 2" "asize (ab2b h2e) = nh * ?ne" "codes_of h2e = codes" "asize codes = nh * ?ne"
    "\<And>h u. 0 \<le> h \<Longrightarrow> h < nh \<Longrightarrow> 0 \<le> u \<Longrightarrow> u < ?ne \<Longrightarrow>
        0 \<le> ab2b h2e ! nat (h * ?ne + u) \<and> ab2b h2e ! nat (h * ?ne + u) < ne \<and>
        map (\<lambda>v. row ?n0 hv2v h ! nat (element_down_template fam high 1 u v)) [0..2 - 1] =
          align_row 2 (codes ! nat (h * ?ne + u)) (row 2 ev2v (ab2b h2e ! nat (h * ?ne + u)))"
    using consistent_downE [OF cons deg(1) sz] by metis
  have T: "boundary_tables (element_down_template fam) (element_up_template fam) (element_degree fam) high 1 0"
    using assms(1) by (intro family_tables) auto
  note upr = boundary_tables.up_range [OF T]
  let ?cell = "\<lambda>h w. transit_cell ?ne 2 0 ?up h2e h w"
  have vertex: "ev2v ! nat (?cell h w) = row ?n0 hv2v h ! nat w" if h: "0 \<le> h" "h < nh" and w: "0 \<le> w" "w < ?n0" for h w
  proof -
    let ?c = "codes ! nat (h * ?ne + tup_up (?up w))" and ?m = "ab2b h2e ! nat (h * ?ne + tup_up (?up w))"
    let ?k = "tup_which_down (?up w)"
    note u = upr [OF w, unfolded fd(4)]
    note R = r(6) [OF h u(1,2)]
    have ml: "0 \<le> align_vert_index 2 ?k (invert_alignment 2 ?c)" "align_vert_index 2 ?k (invert_alignment 2 ?c) < 2"
      using align_index_range(1) [of 2 ?k "invert_alignment 2 ?c"] u(3,4) by auto
    have "row ?n0 hv2v h ! nat (element_down_template fam high 1 (tup_up (?up w)) ?k) =
        map (\<lambda>v. row ?n0 hv2v h ! nat (element_down_template fam high 1 (tup_up (?up w)) v)) [0..1] ! nat ?k"
      using u(3,4) nth_upto [of 0 "nat ?k" 1] by simp
    also have "\<dots> = align_row 2 ?c (row 2 ev2v ?m) ! nat ?k" using R by simp
    also have "\<dots> = ev2v ! nat (?cell h w)"
      by (simp add: nth_align_row [OF u(3,4)] nth_row [OF ml] transit_cell_def transit_mid_def transit_code_def align_index_def r(4))
    also have "element_down_template fam high 1 (tup_up (?up w)) ?k = w"
    proof -
      have "ent_verts (element_down_template fam) (element_degree fam) 1 0 ?k = [?k]"
        using vertex_entity_table(3) [of fam] u(3,4) fd(4,5) by (simp add: ent_verts_def)
      moreover have "ent_verts (element_down_template fam) (element_degree fam) high 0 w = [w]"
        using vertex_entity_table(1,2) [of fam] w fd(5) assms(1) by (auto simp: ent_verts_def)
      ultimately show ?thesis
        using boundary_tables.up_verts [OF T w] by (auto simp: via_verts_def Let_def split: if_splits)
    qed
    finally show ?thesis ..
  qed
  have inputs: "transit_inputs ?ne 2 ?n0 0 nh ne ?up h2e ?e2v"
    unfolding transit_inputs_def
  proof (intro conjI allI impI)
    fix h w v assume a: "0 \<le> h \<and> h < nh \<and> 0 \<le> w \<and> w < ?n0 \<and> 0 \<le> v \<and> v < ?n0 \<and> w \<noteq> v"
    have "distinct (row ?n0 hv2v h)" using dist a by blast
    then have "row ?n0 hv2v h ! nat w \<noteq> row ?n0 hv2v h ! nat v" using a deg(1) by (simp add: distinct_nth_int_eq)
    then show "ab2b ?e2v ! nat (?cell h w) \<noteq> ab2b ?e2v ! nat (?cell h v)" using a vertex by simp
  qed (use fd(4) r deg upr in \<open>auto simp: less_imp_le\<close>)
  obtain hl where t: "transit_body ?ne 2 ?n0 0 ?up h2e ?e2v = Some \<lparr>a2ab = [], ab2b = hl, adj_codes = None\<rparr>"
    "asize hl = nh * ?n0" "\<And>h w. 0 \<le> h \<Longrightarrow> h < nh \<Longrightarrow> 0 \<le> w \<Longrightarrow> w < ?n0 \<Longrightarrow> hl ! nat (h * ?n0 + w) = ev2v ! nat (?cell h w)"
    using transit_body_ex [OF inputs] by auto
  have "hl = hv2v"
  proof (rule nth_equalityI)
    show "length hl = length hv2v" using t(2) sz by (simp add: asize_def)
    fix k assume "k < length hl"
    then have k: "0 \<le> int k" "int k < nh * ?n0" using t(2) by (simp_all add: asize_def)
    have hw: "0 \<le> int k div ?n0" "int k div ?n0 < nh" "0 \<le> int k mod ?n0" "int k mod ?n0 < ?n0"
      using k deg(1) div_less_rows [OF deg(1) k(2)] by (simp_all add: pos_imp_zdiv_nonneg_iff)
    show "hl ! k = hv2v ! k" using t(3) [OF hw] vertex [OF hw] nth_row [OF hw(3,4), of hv2v "int k div ?n0"]
      unfolding div_mult_mod_eq by simp
  qed
  then show ?thesis
    using t(1) assms(1) fd(4) by (auto simp: transit_def dimensional_singular_name_def dimensional_plural_name_def)
qed

section \<open>Mixed types\<close>

text \<open>The places of the edges that run against the downward table in the upward one, and the upward table
  with their flip bits set.\<close>

definition edge_reversed :: "int \<Rightarrow> int \<Rightarrow> bool" where
  "edge_reversed e w \<longleftrightarrow> e = 6 \<and> w \<in> {3, 4, 5} \<or> e = 7 \<and> w \<in> {4, 5, 6, 7}"

definition topo_up_fixed :: up_table where
  "topo_up_fixed e b w i = (let t = topo_up_template e b w i in
     if b = 1 \<and> edge_reversed e w then t \<lparr>tup_is_flipped := True\<rparr> else t)"

lemma type_face_turn_table:
  "\<forall>m \<in> set [2, 3]. \<forall>f \<in> set [False, True]. \<forall>r \<in> set [0..3]. \<forall>w \<in> set [0..topo_deg m 1 - 1].
     map (act_vert (topo_deg m 0) f r) (map (topo_down_template m 1 w) [0..1]) =
     (let vs = map (topo_down_template m 1 (act_edge (topo_deg m 1) f r w)) [0..1] in if f then rev vs else vs)"
  by code_simp

lemma type_face_edges_table:
  "\<forall>m \<in> set [2, 3]. \<forall>w \<in> set [0..topo_deg m 1 - 1]. \<forall>k \<in> set [0, 1].
     0 \<le> topo_down_template m 1 w k \<and> topo_down_template m 1 w k < topo_deg m 1"
  by code_simp

lemma type_fixed_table:
  "\<forall>(e, m) \<in> set [(4, 2), (5, 3), (6, 3), (7, 2)]. \<forall>w \<in> set [0..topo_deg e 1 - 1].
     up_entry_ok topo_down_template topo_deg e m 1 w (topo_up_fixed e 1 w 0)"
  by code_simp

lemma type_degrees:
  "topo_deg 2 1 = 3" "topo_deg 2 0 = 3" "topo_deg 3 1 = 4" "topo_deg 3 0 = 4" "topo_deg 1 0 = 2"
  "topo_deg 4 0 = 4" "topo_deg 5 0 = 8" "topo_deg 6 0 = 6" "topo_deg 7 0 = 5"
  "topo_deg 4 2 = 4" "topo_deg 5 3 = 6" "topo_deg 6 3 = 3" "topo_deg 7 2 = 4"
  "topo_deg 4 1 = 6" "topo_deg 5 1 = 12" "topo_deg 6 1 = 9" "topo_deg 7 1 = 8"
  by code_simp+

lemma type_tables:
  assumes "(e, m) \<in> {(4, 2), (5, 3), (6, 3), (7, 2)}"
  shows "edge_transit topo_down_template topo_up_fixed topo_deg e m"
proof
  have m: "m \<in> set [2, 3]" using assms by auto
  fix w k :: int and c
  show "up_entry_ok topo_down_template topo_deg e m 1 w (topo_up_fixed e 1 w 0)" if "0 \<le> w" "w < topo_deg e 1"
    using type_fixed_table assms that by auto
  show "0 \<le> topo_down_template m 1 w k \<and> topo_down_template m 1 w k < topo_deg m 1"
    if "0 \<le> w" "w < topo_deg m 1" "k \<in> set [0, 1]"
    using bspec [OF bspec [OF bspec [OF type_face_edges_table m], of w], of k] that by simp
  show "map (\<lambda>k. align_vert_index (topo_deg m 0) (topo_down_template m 1 w k) c) [0..1] =
      (let vs = map (topo_down_template m 1 (align_edge_index (topo_deg m 1) w c)) [0..1]
       in if code_is_flipped c then rev vs else vs)" if "0 \<le> w" "w < topo_deg m 1"
  proof -
    have "w \<in> set [0..topo_deg m 1 - 1]" using that by simp
    from type_face_turn_table [THEN bspec, OF m, THEN bspec, OF bool_range [of "code_is_flipped c"], THEN bspec,
      OF code_rotation_range [of c], THEN bspec, OF this] show ?thesis
      by (simp only: align_vert_index_act align_edge_index_act Let_def map_map comp_def)
  qed
  show "down_ok topo_down_template topo_deg e 1" using topo_down_table assms by (auto simp: topo_pairs_def)
qed (use assms type_degrees in auto)

text \<open>Tables that differ in flip bits only find the same edges.\<close>

lemma same_places:
  assumes "\<And>w. tup_up (up w) = tup_up (up' w) \<and> tup_which_down (up w) = tup_which_down (up' w)"
  shows "transit_cell nm nlm low up h2m h w = transit_cell nm nlm low up' h2m h w"
    and "transit_inputs nm nlm nlh low nhigh nmid up h2m m2l = transit_inputs nm nlm nlh low nhigh nmid up' h2m m2l"
    and "transit_flip nm nlm up h2m m2l h w \<longleftrightarrow>
      transit_flip nm nlm up' h2m m2l h w \<noteq> (tup_is_flipped (up w) \<noteq> tup_is_flipped (up' w))"
proof -
  have code: "transit_code nm nlm up h2m h w = transit_code nm nlm up' h2m h w" for h w
    by (simp add: transit_code_def assms)
  show cell: "transit_cell nm nlm low up h2m h w = transit_cell nm nlm low up' h2m h w" for low h w
    by (simp add: transit_cell_def transit_mid_def code assms)
  show "transit_inputs nm nlm nlh low nhigh nmid up h2m m2l = transit_inputs nm nlm nlh low nhigh nmid up' h2m m2l"
    by (simp add: transit_inputs_def cell assms)
  show "transit_flip nm nlm up h2m m2l h w \<longleftrightarrow>
      transit_flip nm nlm up' h2m m2l h w \<noteq> (tup_is_flipped (up w) \<noteq> tup_is_flipped (up' w))"
    unfolding transit_flip_def code cell by blast
qed

lemma reversed_bits:
  "\<forall>(e, m) \<in> set [(4, 2), (5, 3), (6, 3), (7, 2)]. \<forall>w \<in> set [0..topo_deg e 1 - 1].
     (tup_is_flipped (topo_up_template e 1 w 0) \<noteq> tup_is_flipped (topo_up_fixed e 1 w 0)) = edge_reversed e w"
  by code_simp

lemma align_edge_reversed:
  "asize L = 2 \<Longrightarrow> align_row 2 (make_code False (of_bool (b \<noteq> d)) 0) L =
     (let r = align_row 2 (make_code False (of_bool b) 0) L in if d then rev r else r)"
proof -
  assume "asize L = 2"
  then obtain x y where L: "L = [x, y]" unfolding asize_explicit by blast
  have row: "align_row 2 (make_code False (of_bool b) 0) [x, y] = (if b then [y, x] else [x, y])" for b
    using align_row_edge [of "make_code False (of_bool b) 0" x y] by (simp add: edge_code_rotation)
  show ?thesis unfolding L row Let_def by simp
qed

lemma reversed_edge_ends:
  assumes "e \<in> {6, 7}" "distinct xs" "length xs = nat (topo_deg e 0)"
  shows "map (\<lambda>k. xs ! nat (topo_down_template e 1 4 k)) [0..1] \<noteq> rev (map (\<lambda>k. xs ! nat (topo_down_template e 1 4 k)) [0..1])"
proof -
  have "\<forall>e \<in> set [6, 7]. nat (topo_down_template e 1 4 0) \<noteq> nat (topo_down_template e 1 4 1) \<and>
      nat (topo_down_template e 1 4 0) < nat (topo_deg e 0) \<and> nat (topo_down_template e 1 4 1) < nat (topo_deg e 0)"
    by code_simp
  then have "nat (topo_down_template e 1 4 0) \<noteq> nat (topo_down_template e 1 4 1)"
    "nat (topo_down_template e 1 4 0) < length xs" "nat (topo_down_template e 1 4 1) < length xs"
    using assms(1,3) by auto
  then show ?thesis using assms(2) by (simp add: map_upto_2 nth_eq_iff_index_eq)
qed

lemma types_of_pair:
  assumes "(high, mid) \<in> {(Tetrahedron, Triangle), (Hexahedron, Quadrilateral), (Wedge, Quadrilateral), (Pyramid, Triangle)}"
  shows "(topo_int high, topo_int mid) \<in> {(4, 2), (5, 3), (6, 3), (7, 2)}"
    and "topo_degree high mid = topo_deg (topo_int high) (topo_int mid)"
    and "topo_degree mid Edge = topo_deg (topo_int mid) 1"
    and "topo_degree high Edge = topo_deg (topo_int high) 1"
    and "1 < topo_int high" "topo_int high \<le> 7" "topo_int mid < topo_int high"
    and "topo_singular_name high \<noteq> None" "topo_plural_name Edge \<noteq> None"
  using assms by (auto simp: topo_deg_def type_of_int_def topo_singular_name_def topo_plural_name_def)

text \<open>C31. \<open>transit\<close> on topological types, for tetrahedra and pyramids through triangles and for hexahedra and
  wedges through quadrilaterals: from consistent adjacencies it computes, without failing any of
  its checks, the edges of every element.  It gets every edge right, and its direction except
  at the places where the upward table lacks the flip bit: edges 3, 4 and 5 of every wedge and edges 4
  to 7 of every pyramid come out reversed.  So the adjacency is consistent for tetrahedra and hexahedra,
  and for no mesh that has a wedge or a pyramid.\<close>

theorem transit_types_edges:
  assumes types: "(high, mid) \<in> {(Tetrahedron, Triangle), (Hexahedron, Quadrilateral), (Wedge, Quadrilateral), (Pyramid, Triangle)}"
    and "consistent_down (topo_degree high Vertex) (topo_degree high mid) (topo_degree mid Vertex)
      (topo_down_template (topo_int high) (topo_int mid)) hv2v mv2v h2m"
    and "consistent_down (topo_degree mid Vertex) (topo_degree mid Edge) 2
      (topo_down_template (topo_int mid) 1) mv2v ev2v m2e"
    and "asize hv2v = nh * topo_degree high Vertex"
    and "\<forall>h. 0 \<le> h \<and> h < nh \<longrightarrow> distinct (row (topo_degree high Vertex) hv2v h)"
  shows "\<exists>h2e codes. transit_types h2m m2e high Edge mid = Some \<lparr>a2ab = [], ab2b = h2e, adj_codes = Some codes\<rparr> \<and>
    asize h2e = nh * topo_degree high Edge \<and> asize codes = nh * topo_degree high Edge \<and>
    (\<forall>h w. 0 \<le> h \<and> h < nh \<and> 0 \<le> w \<and> w < topo_degree high Edge \<longrightarrow>
      (let i = nat (h * topo_degree high Edge + w);
           ends = map (\<lambda>k. row (topo_degree high Vertex) hv2v h ! nat (topo_down_template (topo_int high) 1 w k)) [0..1]
       in align_row 2 (codes ! i) (row 2 ev2v (h2e ! i)) = (if edge_reversed (topo_int high) w then rev ends else ends))) \<and>
    (consistent_down (topo_degree high Vertex) (topo_degree high Edge) 2 (topo_down_template (topo_int high) 1) hv2v ev2v
      \<lparr>a2ab = [], ab2b = h2e, adj_codes = Some codes\<rparr> \<longleftrightarrow> nh = 0 \<or> high \<in> {Tetrahedron, Hexahedron})"
proof -
  let ?e = "topo_int high" and ?m = "topo_int mid"
  note ty = types_of_pair [OF types]
  have v: "topo_degree high Vertex = topo_deg ?e 0" "topo_degree mid Vertex = topo_deg ?m 0"
    using types by (auto simp: topo_deg_def type_of_int_def)
  note A = assms(2-5) [unfolded v ty(2,3)]
  let ?nv = "topo_deg ?e 0" and ?nm = "topo_deg ?e ?m" and ?n = "topo_deg ?m 1" and ?ne = "topo_deg ?e 1"
  let ?up = "\<lambda>w. topo_up_template ?e 1 w 0" and ?fix = "\<lambda>w. topo_up_fixed ?e 1 w 0"
  let ?lo = "lo_of ?nm ?n 1 ?up h2m m2e" and ?ends = "\<lambda>h w. map (\<lambda>k. row ?nv hv2v h ! nat (topo_down_template ?e 1 w k)) [0..1]"
  have same: "tup_up (?up w) = tup_up (?fix w) \<and> tup_which_down (?up w) = tup_which_down (?fix w)" for w
    by (simp add: topo_up_fixed_def Let_def)
  note places = same_places [where up = ?up and up' = ?fix, OF same]
  obtain nm ne where f: "asize ev2v = ne * 2" "transit_inputs ?nm ?n ?ne 1 nh nm ?up h2m m2e"
    "\<And>h w. 0 \<le> h \<Longrightarrow> h < nh \<Longrightarrow> 0 \<le> w \<Longrightarrow> w < ?ne \<Longrightarrow> 0 \<le> ?lo h w \<and> ?lo h w < ne \<and>
      ?ends h w = align_row 2 (code_at ?nm ?n ?fix h2m m2e h w) (row 2 ev2v (?lo h w))"
    by (rule edge_transit.edges_found [OF type_tables [OF ty(1)] A]) (auto simp: places)
  have nh: "0 \<le> nh" by (rule transit_inputsD(5) [OF f(2)])
  obtain h2e codes where t: "transit_body ?nm ?n ?ne 1 ?up h2m m2e = Some \<lparr>a2ab = [], ab2b = h2e, adj_codes = Some codes\<rparr>"
    "asize h2e = nh * ?ne" "asize codes = nh * ?ne"
    "\<And>h w. 0 \<le> h \<Longrightarrow> h < nh \<Longrightarrow> 0 \<le> w \<Longrightarrow> w < ?ne \<Longrightarrow>
       h2e ! nat (h * ?ne + w) = ?lo h w \<and> codes ! nat (h * ?ne + w) = code_at ?nm ?n ?up h2m m2e h w"
    using transit_body_ex [OF f(2)] by auto
  let ?h2e = "\<lparr>a2ab = [], ab2b = h2e, adj_codes = Some codes\<rparr>"
  have run: "transit_types h2m m2e high Edge mid = Some ?h2e"
    using ty(5-9) t(1) by (auto simp: transit_types_def ty(2-4))
  have found: "align_row 2 (codes ! nat (h * ?ne + w)) (row 2 ev2v (h2e ! nat (h * ?ne + w))) =
      (if edge_reversed ?e w then rev (?ends h w) else ?ends h w)"
    if hw: "0 \<le> h" "h < nh" "0 \<le> w" "w < ?ne" for h w
  proof -
    have "w \<in> set [0..?ne - 1]" using hw by simp
    then have bits: "(tup_is_flipped (?up w) \<noteq> tup_is_flipped (?fix w)) = edge_reversed ?e w"
      using reversed_bits ty(1) by auto
    have flip: "transit_flip ?nm ?n ?up h2m m2e h w = (transit_flip ?nm ?n ?fix h2m m2e h w \<noteq> edge_reversed ?e w)"
      unfolding places(3) [of ?nm ?n h2m m2e h w] bits ..
    have two: "asize (row 2 ev2v (?lo h w)) = 2" by simp
    note T = t(4) [OF hw] and F = f(3) [OF hw, THEN conjunct2, THEN conjunct2]
    show ?thesis unfolding T [THEN conjunct1] T [THEN conjunct2] flip F align_edge_reversed [OF two] Let_def ..
  qed
  have "consistent_down ?nv ?ne 2 (topo_down_template ?e 1) hv2v ev2v ?h2e \<longleftrightarrow> nh = 0 \<or> high \<in> {Tetrahedron, Hexahedron}"
  proof
    assume good: "nh = 0 \<or> high \<in> {Tetrahedron, Hexahedron}"
    then have right: "\<not> edge_reversed ?e w" if "0 < nh" for w using that by (auto simp: edge_reversed_def)
    have "0 \<le> h2e ! nat (h * ?ne + w) \<and> h2e ! nat (h * ?ne + w) < ne \<and>
        ?ends h w = align_row 2 (codes ! nat (h * ?ne + w)) (row 2 ev2v (h2e ! nat (h * ?ne + w))) \<and>
        code_rotation (codes ! nat (h * ?ne + w)) < 2"
      if hw: "0 \<le> h \<and> h < nh \<and> 0 \<le> w \<and> w < ?ne" for h w
    proof -
      have k: "0 \<le> h" "h < nh" "0 \<le> w" "w < ?ne" using hw by blast+
      have "\<not> edge_reversed ?e w" by (rule right) (use k in simp)
      moreover have "code_rotation (codes ! nat (h * ?ne + w)) < 2"
        unfolding t(4) [OF k, THEN conjunct2] by (simp add: edge_code_rotation)
      ultimately show ?thesis using found [OF k] f(3) [OF k] t(4) [OF k] by simp
    qed
    then show "consistent_down ?nv ?ne 2 (topo_down_template ?e 1) hv2v ev2v ?h2e"
      unfolding consistent_down_def using t(2,3) f(1) nh A(3)
      by (intro exI [of _ nh] exI [of _ ne] exI [of _ codes] conjI) simp_all
  next
    assume cons: "consistent_down ?nv ?ne 2 (topo_down_template ?e 1) hv2v ev2v ?h2e"
    show "nh = 0 \<or> high \<in> {Tetrahedron, Hexahedron}"
    proof (rule ccontr)
      assume bad: "\<not> (nh = 0 \<or> high \<in> {Tetrahedron, Hexahedron})"
      then have w: "edge_reversed ?e 4" "0 < nh" "(4::int) < ?ne" "0 < ?nv"
        using types nh by (auto simp: edge_reversed_def type_degrees)
      have "?ends 0 4 = align_row 2 (codes ! nat (0 * ?ne + 4)) (row 2 ev2v (h2e ! nat (0 * ?ne + 4)))"
      proof (rule consistent_downE [OF cons w(4) A(3)])
        fix nlow cs
        assume cs: "codes_of ?h2e = cs" and all: "\<And>h u. 0 \<le> h \<Longrightarrow> h < nh \<Longrightarrow> 0 \<le> u \<Longrightarrow> u < ?ne \<Longrightarrow>
          0 \<le> ab2b ?h2e ! nat (h * ?ne + u) \<and> ab2b ?h2e ! nat (h * ?ne + u) < nlow \<and>
          map (\<lambda>k. row ?nv hv2v h ! nat (topo_down_template ?e 1 u k)) [0..2 - 1] =
            align_row 2 (cs ! nat (h * ?ne + u)) (row 2 ev2v (ab2b ?h2e ! nat (h * ?ne + u))) \<and>
          (2 = (2 :: int) \<longrightarrow> code_rotation (cs ! nat (h * ?ne + u)) < 2)"
        have "cs = codes" using cs by (simp add: codes_of_def)
        then show ?thesis using all [of 0 4] w by simp
      qed
      also have "\<dots> = rev (?ends 0 4)" using found [of 0 4] w by simp
      finally have turned: "?ends 0 4 = rev (?ends 0 4)" .
      have "?e \<in> {6, 7}" using types bad by auto
      moreover have "distinct (row ?nv hv2v 0)" using A(4) w(2) by simp
      ultimately show False using reversed_edge_ends [of ?e "row ?nv hv2v 0"] turned by (simp add: row_def)
    qed
  qed
  then show ?thesis
    unfolding v ty(4) using run t(2,3) found by (intro exI [of _ h2e] exI [of _ codes] conjI) (simp_all add: Let_def)
qed

text \<open>One wedge with its three quadrilaterals and nine edges.\<close>

theorem transit_types_edges_witness:
  "\<exists>w2e. transit_types \<lparr>a2ab = [], ab2b = [0, 1, 2], adj_codes = Some (replicate 3 (make_code False 0 0))\<rparr>
      \<lparr>a2ab = [], ab2b = [0, 4, 6, 3, 1, 5, 7, 4, 2, 3, 8, 5],
       adj_codes = Some (map (\<lambda>r. make_code False r 0) [0, 0, 0, 1, 0, 0, 0, 1, 0, 0, 0, 1])\<rparr>
      Wedge Edge Quadrilateral = Some w2e \<and>
    \<not> consistent_down 6 9 2 (topo_down_template 6 1) [0, 1, 2, 3, 4, 5]
       [0, 1, 1, 2, 2, 0, 0, 3, 1, 4, 2, 5, 4, 3, 5, 4, 3, 5] w2e"
proof -
  let ?wq = "\<lparr>a2ab = [], ab2b = [0, 1, 2], adj_codes = Some (replicate 3 (make_code False 0 0))\<rparr>"
  let ?qc = "map (\<lambda>r. make_code False r 0) [0, 0, 0, 1, 0, 0, 0, 1, 0, 0, 0, 1]"
  let ?qe = "\<lparr>a2ab = [], ab2b = [0, 4, 6, 3, 1, 5, 7, 4, 2, 3, 8, 5], adj_codes = Some ?qc\<rparr>"
  let ?wv = "[0, 1, 2, 3, 4, 5] :: lo list" and ?qv = "[0, 1, 4, 3, 1, 2, 5, 4, 2, 0, 3, 5]"
  let ?ev = "[0, 1, 1, 2, 2, 0, 0, 3, 1, 4, 2, 5, 4, 3, 5, 4, 3, 5] :: lo list"
  have a: "consistent_down 6 3 4 (topo_down_template 6 3) ?wv ?qv ?wq"
    by (rule consistent_downI [where nhigh = 1 and nlow = 3 and codes = "replicate 3 (make_code False 0 0)"])
      (simp, simp, simp, simp, simp, simp, code_simp)
  have b: "consistent_down 4 4 2 (topo_down_template 3 1) ?qv ?ev ?qe"
    by (rule consistent_downI [where nhigh = 3 and nlow = 9 and codes = ?qc]) (simp, simp, simp, simp, simp, simp, code_simp)
  have deg: "topo_degree Wedge Vertex = 6" "topo_degree Wedge Quadrilateral = 3" "topo_degree Quadrilateral Vertex = 4"
    "topo_degree Quadrilateral Edge = 4" "topo_degree Wedge Edge = 9" by code_simp+
  have "distinct (row 6 ?wv 0)" by code_simp
  moreover have "r = 0" if "0 \<le> r \<and> r < 1" for r :: int using that by simp
  ultimately have c: "\<forall>r. 0 \<le> r \<and> r < 1 \<longrightarrow> distinct (row 6 ?wv r)" by blast
  have d: "(Wedge, Quadrilateral) \<in> {(Tetrahedron, Triangle), (Hexahedron, Quadrilateral), (Wedge, Quadrilateral), (Pyramid, Triangle)}"
    by simp
  have "asize ?wv = 1 * 6" by simp
  note T = transit_types_edges [OF d, unfolded deg topo_int.simps, OF a b this c]
  show ?thesis by (rule exE [OF T], elim exE conjE, rule exI, rule conjI, assumption) simp
qed

end
