(* ===== verification/Neighbors.thy ===== *)
theory Neighbors
  imports Transit
begin

text \<open>
  Second-order adjacencies (\<open>verts_across_edges\<close>, \<open>edges_across_tris\<close>, \<open>edges_across_tets\<close> and
  \<open>elements_across_sides\<close> of \<open>src/src/Omega_h_adj.cpp\<close>): the vertices, edges and elements next to each
  vertex, edge and element.  The lemmas give the rows of every graph they build.
\<close>

section \<open>Operations\<close>

definition verts_across_edges :: "adj \<Rightarrow> adj \<Rightarrow> graph option" where
  "verts_across_edges e2v v2e = do {
     vv2v \<leftarrow> fill_each (asize (ab2b v2e)) (\<lambda>ve. do {
       e \<leftarrow> rd (ab2b v2e) ve;
       v2ve_code \<leftarrow> rd (codes_of v2e) ve;
       let eev = code_which_down v2ve_code;
       rd (ab2b e2v) (e * 2 + (1 - eev))
     });
     Some \<lparr>a2ab = a2ab v2e, ab2b = vv2v\<rparr>
   }"

definition edges_across_tris :: "adj \<Rightarrow> adj \<Rightarrow> graph option" where
  "edges_across_tris f2e e2f = do {
     let ne = asize (a2ab e2f) - 1;
     e2ef_degrees \<leftarrow> get_degrees (a2ab e2f);
     e2ee_degrees \<leftarrow> multiply_each_by e2ef_degrees 2;
     e2ee \<leftarrow> offset_scan e2ee_degrees;
     nee \<leftarrow> rd_last e2ee;
     ee2e \<leftarrow> alloc nee;
     ee2e \<leftarrow> parallel_for ne (\<lambda>e ee2e. do {
       ef_begin \<leftarrow> rd (a2ab e2f) e;
       ef_end \<leftarrow> rd (a2ab e2f) (e + 1);
       let neef = ef_end - ef_begin;
       ee_begin \<leftarrow> rd e2ee e;
       for_range 0 neef (\<lambda>eef ee2e. do {
         let ef = ef_begin + eef;
         f \<leftarrow> rd (ab2b e2f) ef;
         e2ef_code \<leftarrow> rd (codes_of e2f) ef;
         let ffe = code_which_down e2ef_code;
         e1 \<leftarrow> rd (ab2b f2e) (f * 3 + (ffe + 1) smod 3);
         e2 \<leftarrow> rd (ab2b f2e) (f * 3 + (ffe + 2) smod 3);
         ee2e \<leftarrow> wr ee2e (ee_begin + eef * 2 + 0) (Some e1);
         wr ee2e (ee_begin + eef * 2 + 1) (Some e2)
       }) ee2e
     }) ee2e;
     ee2e \<leftarrow> freeze ee2e;
     Some \<lparr>a2ab = e2ee, ab2b = ee2e\<rparr>
   }"

definition edges_across_tets :: "adj \<Rightarrow> adj \<Rightarrow> graph option" where
  "edges_across_tets r2e e2r = do {
     let ne = asize (a2ab e2r) - 1;
     ee2e \<leftarrow> alloc (asize (ab2b e2r));
     ee2e \<leftarrow> parallel_for ne (\<lambda>e ee2e. do {
       er_begin \<leftarrow> rd (a2ab e2r) e;
       er_end \<leftarrow> rd (a2ab e2r) (e + 1);
       for_range er_begin er_end (\<lambda>er ee2e. do {
         r \<leftarrow> rd (ab2b e2r) er;
         e2er_code \<leftarrow> rd (codes_of e2r) er;
         let rre = code_which_down e2er_code;
         let rre_opp = simplex_opposite_template 3 1 rre;
         let re_begin = r * 6;
         e_opp \<leftarrow> rd (ab2b r2e) (re_begin + rre_opp);
         wr ee2e er (Some e_opp)
       }) ee2e
     }) ee2e;
     ee2e \<leftarrow> freeze ee2e;
     Some \<lparr>a2ab = a2ab e2r, ab2b = ee2e\<rparr>
   }"

definition elements_across_sides_count :: "int \<Rightarrow> lo list \<Rightarrow> int list \<Rightarrow> lo \<Rightarrow> lo option" where
  "elements_across_sides_count nsides_per_elem elem_side2side side_is_exposed elem = do {
     let begin_s = elem * nsides_per_elem;
     let end_s = begin_s + nsides_per_elem;
     for_range begin_s end_s (\<lambda>elem_side n. do {
       side \<leftarrow> rd elem_side2side elem_side;
       exposed \<leftarrow> rd side_is_exposed side;
       Some (if exposed = 0 then n + 1 else n)
     }) 0
   }"

definition elements_across_sides :: "int \<Rightarrow> adj \<Rightarrow> adj \<Rightarrow> int list \<Rightarrow> graph option" where
  "elements_across_sides dim elems2sides sides2elems side_is_exposed = do {
     let elem_side2side = ab2b elems2sides;
     let nsides_per_elem = dim + 1;
     nelems \<leftarrow> divide_no_remainder (asize elem_side2side) nsides_per_elem;
     degrees \<leftarrow> fill_each nelems (elements_across_sides_count nsides_per_elem elem_side2side side_is_exposed);
     elem2elem_elems \<leftarrow> offset_scan degrees;
     nelem_elems \<leftarrow> rd_last elem2elem_elems;
     elem_elem2elem \<leftarrow> alloc nelem_elems;
     elem_elem2elem \<leftarrow> parallel_for nelems (\<lambda>elem elem_elem2elem. do {
       let begin_s = elem * nsides_per_elem;
       let end_s = begin_s + nsides_per_elem;
       elem_elem \<leftarrow> rd elem2elem_elems elem;
       (elem_elem, elem_elem2elem) \<leftarrow> for_range begin_s end_s (\<lambda>elem_side (elem_elem, elem_elem2elem). do {
         side \<leftarrow> rd elem_side2side elem_side;
         exposed \<leftarrow> rd side_is_exposed side;
         if exposed = 0 then do {
           side_elem \<leftarrow> rd (a2ab sides2elems) side;
           x \<leftarrow> rd (ab2b sides2elems) side_elem;
           let side_elem = (if x = elem then side_elem + 1 else side_elem);
           y \<leftarrow> rd (ab2b sides2elems) side_elem;
           elem_elem2elem \<leftarrow> wr elem_elem2elem elem_elem (Some y);
           Some (elem_elem + 1, elem_elem2elem)
         } else Some (elem_elem, elem_elem2elem)
       }) (elem_elem, elem_elem2elem);
       Some elem_elem2elem
     }) elem_elem2elem;
     elem_elem2elem \<leftarrow> freeze elem_elem2elem;
     Some \<lparr>a2ab = elem2elem_elems, ab2b = elem_elem2elem\<rparr>
   }"

section \<open>Rows\<close>

text \<open>Following the local index of the code, on the rows of an upward adjacency.\<close>

definition up_of :: "int \<Rightarrow> lo list list \<Rightarrow> (lo \<Rightarrow> i8) \<Rightarrow> adj \<Rightarrow> bool" where
  "up_of n F C up \<longleftrightarrow> a2ab up = offsets (sizes F) \<and> ab2b up = map (\<lambda>hl. hl div n) (concat F) \<and>
     adj_codes up = Some (map C (concat F)) \<and> (\<forall>hl \<in> set (concat F). 0 \<le> hl \<and> code_which_down (C hl) = hl mod n)"

lemma up_of_cell:
  assumes "up_of n F C up" "k < length (concat F)"
  shows "rd (ab2b up) (int k) = Some ((concat F ! k) div n)" "rd (codes_of up) (int k) = Some (C (concat F ! k))"
    and "code_which_down (C (concat F ! k)) = (concat F ! k) mod n" "0 \<le> concat F ! k"
  proof -
  have mem: "concat F ! k \<in> set (concat F)" by (rule nth_mem [OF assms(2)])
  note u = assms(1) [unfolded up_of_def]
  show "rd (ab2b up) (int k) = Some ((concat F ! k) div n)" "rd (codes_of up) (int k) = Some (C (concat F ! k))"
    using u assms(2) by (simp_all add: codes_of_def)
  show "code_which_down (C (concat F ! k)) = (concat F ! k) mod n" "0 \<le> concat F ! k"
    using u mem by blast+
qed

text \<open>
  The vertices next to every vertex: the other end of each edge around it.  The edges around the
  vertices are the rows that \<open>invert_adj\<close> returns.
\<close>

lemma verts_across_edges_rows:
  assumes up: "up_of 2 F C v2e" and F: "\<And>hl. hl \<in> set (concat F) \<Longrightarrow> hl < asize (ab2b e2v)"
    and even: "asize (ab2b e2v) = ne * 2"
  shows "verts_across_edges e2v v2e =
    Some (graph_of (map (map (\<lambda>hl. ab2b e2v ! nat (if hl mod 2 = 0 then hl + 1 else hl - 1))) F))"
proof -
  let ?h = "\<lambda>hl. ab2b e2v ! nat (if hl mod 2 = 0 then hl + 1 else hl - 1)"
  have sz: "asize (ab2b v2e) = int (length (concat F))" using up by (simp add: up_of_def asize_def)
  have "fill_each (asize (ab2b v2e)) (\<lambda>ve. do {
       e \<leftarrow> rd (ab2b v2e) ve;
       v2ve_code \<leftarrow> rd (codes_of v2e) ve;
       let eev = code_which_down v2ve_code;
       rd (ab2b e2v) (e * 2 + (1 - eev))
     }) = Some (map ?h (concat F))"
  proof (rule fill_each_map)
    show "asize (ab2b v2e) = asize (concat F)" using sz by (simp add: asize_def)
    fix k assume k: "k < length (concat F)"
    obtain hl where hl: "concat F ! k = hl" by simp
    note c = up_of_cell [OF up k, unfolded hl]
    have mem: "hl \<in> set (concat F)" using k hl nth_mem by metis
    have dm: "hl div 2 * 2 = hl - hl mod 2" by (simp add: minus_mod_eq_div_mult)
    have "hl mod 2 = 0 \<or> hl mod 2 = 1" by auto
    then have at: "hl div 2 * 2 + (1 - hl mod 2) = (if hl mod 2 = 0 then hl + 1 else hl - 1)" using dm by auto
    have "0 \<le> hl div 2" "hl div 2 < ne"
      using c(4) F [OF mem] even div_less_rows [of 2 hl ne] by (simp_all add: pos_imp_zdiv_nonneg_iff)
    then have "0 \<le> hl div 2 * 2 + (1 - hl mod 2) \<and> hl div 2 * 2 + (1 - hl mod 2) < ne * 2"
      by (intro row_index_bound) simp_all
    then have "rd (ab2b e2v) (hl div 2 * 2 + (1 - hl mod 2)) = Some (?h hl)"
      using even by (simp add: rd_Some at)
    then show "do {
       e \<leftarrow> rd (ab2b v2e) (int k);
       v2ve_code \<leftarrow> rd (codes_of v2e) (int k);
       let eev = code_which_down v2ve_code;
       rd (ab2b e2v) (e * 2 + (1 - eev))
     } = Some (?h (concat F ! k))" by (simp add: c hl Let_def)
  qed
  then show ?thesis
    using up by (simp add: verts_across_edges_def graph_of_def map_concat up_of_def sizes_def comp_def)
qed

text \<open>A loop that writes one block of constant size per iteration.\<close>

lemma block_loop:
  assumes "\<And>j s. j < n \<Longrightarrow> length s = m \<Longrightarrow> f (b + int j) s = Some (overwrite s (p + w * j) (h j))"
    and "\<And>j. j < n \<Longrightarrow> length (h j) = w" and "p + w * n \<le> m" "length s = m"
  shows "for_range b (b + int n) f s = Some (overwrite s p (concat (map h [0..<n])))"
  using assms
proof (induction n)
  case 0
  then show ?case by simp
next
  case (Suc n)
  let ?s = "overwrite s p (concat (map h [0..<n]))"
  have IH: "for_range b (b + int n) f s = Some ?s"
    using Suc.prems by (intro Suc.IH) auto
  have "map (length \<circ> h) [0..<n] = map (\<lambda>_. w) [0..<n]"
    using Suc.prems(2) by (intro map_cong) auto
  then have lenc: "length (concat (map h [0..<n])) = w * n"
    unfolding length_concat map_map by (simp only: sum_list_triv length_upt) simp
  then have lens: "length ?s = m" using Suc.prems(3,4) by (subst length_overwrite) auto
  have "f (b + int n) ?s = Some (overwrite ?s (p + w * n) (h n))" by (rule Suc.prems(1) [OF _ lens]) simp
  also have "overwrite ?s (p + w * n) (h n) = overwrite s p (concat (map h [0..<Suc n]))"
    using overwrite_overwrite [of p "concat (map h [0..<n])" "h n" s] Suc.prems(2) [of n] Suc.prems(3,4) lenc by simp
  finally have last: "f (b + int n) ?s = Some (overwrite s p (concat (map h [0..<Suc n])))" .
  have "b + int (Suc n) = b + int n + 1" by simp
  then show ?case using for_range_snoc [of b "b + int n" f s] IH last by (simp only:) simp
qed

lemma overwrite_single: "p < length s \<Longrightarrow> overwrite s p [v] = s[p := Some v]"
  by (simp add: overwrite_def upd_conv_take_nth_drop)

lemma overwrite_pair:
  assumes "Suc p < length s"
  shows "overwrite s p [v, w] = s[p := Some v, Suc p := Some w]"
  using overwrite_snoc [of p "[v]" s w] overwrite_single [of p s v] assms by simp

lemma map_over_nth: "map (\<lambda>j. g (xs ! j)) [0..<length xs] = map g xs"
  by (rule nth_equalityI) simp_all

lemma concat_map_single: "concat (map (\<lambda>j. [g j]) xs) = map g xs"
  by (induction xs) simp_all

definition opposite_edge :: "lo list \<Rightarrow> int \<Rightarrow> lo" where
  "opposite_edge re2e re = re2e ! nat (re div 6 * 6 + simplex_opposite_template 3 1 (re mod 6))"

definition other_edges :: "lo list \<Rightarrow> int \<Rightarrow> lo list" where
  "other_edges fe2e fe = [fe2e ! nat (fe div 3 * 3 + (fe mod 3 + 1) mod 3), fe2e ! nat (fe div 3 * 3 + (fe mod 3 + 2) mod 3)]"

lemma up_of_rows:
  assumes "up_of n F C up"
  shows "a2ab up = offsets (sizes F)" "asize (ab2b up) = int (length (concat F))" "asize (a2ab up) - 1 = int (length F)"
  using assms by (simp_all add: up_of_def asize_def)

lemma up_row_of_cell:
  assumes "up_of n F C up" "0 < n" "k < length (concat F)" and "concat F ! k = x" "x < N * n"
  shows "0 \<le> x div n" "x div n < N" "0 \<le> x mod n" "x mod n < n"
  using assms up_of_cell(4) [OF assms(1,3)] div_less_rows [of n x N]
  by (auto simp: pos_imp_zdiv_nonneg_iff)

lemma opposite_edge_range:
  assumes "0 \<le> w" "w < 6"
  shows "0 \<le> simplex_opposite_template 3 1 w" "simplex_opposite_template 3 1 w < 6"
proof -
  have "\<forall>w \<in> set [0..5]. 0 \<le> simplex_opposite_template 3 1 w \<and> simplex_opposite_template 3 1 w < 6" by code_simp
  then show "0 \<le> simplex_opposite_template 3 1 w" "simplex_opposite_template 3 1 w < 6" using assms by auto
qed

lemma edges_across_tets_rows:
  assumes up: "up_of 6 F C e2r" and F: "\<And>re. re \<in> set (concat F) \<Longrightarrow> re < asize (ab2b r2e)"
    and sz: "asize (ab2b r2e) = nr * 6"
  shows "edges_across_tets r2e e2r = Some (graph_of (map (map (opposite_edge (ab2b r2e))) F))"
proof -
  let ?R = "map (map (opposite_edge (ab2b r2e))) F"
  have szR: "sizes ?R = sizes F" by (simp add: sizes_def comp_def)
  have start: "row_start ?R a = row_start F a" for a by (simp add: row_start_def take_map flip: map_concat)
  have cat: "length (concat ?R) = length (concat F)" by (simp flip: map_concat)
  let ?f = "\<lambda>e ee2e. do {
       er_begin \<leftarrow> rd (a2ab e2r) e;
       er_end \<leftarrow> rd (a2ab e2r) (e + 1);
       for_range er_begin er_end (\<lambda>er ee2e. do {
         r \<leftarrow> rd (ab2b e2r) er;
         e2er_code \<leftarrow> rd (codes_of e2r) er;
         let rre = code_which_down e2er_code;
         let rre_opp = simplex_opposite_template 3 1 rre;
         let re_begin = r * 6;
         e_opp \<leftarrow> rd (ab2b r2e) (re_begin + rre_opp);
         wr ee2e er (Some e_opp)
       }) ee2e
     }"
  have step: "?f (int a) s = Some (overwrite s (row_start ?R a) (?R ! a))"
    if a: "a < length ?R" and len: "length s = length (concat ?R)" for a s
  proof -
    have aF: "a < length F" using a by simp
    let ?n = "length (F ! a)" and ?p = "row_start F a"
    have fits: "?p + ?n \<le> length s" using row_fits [OF aF] len cat by simp
    have "for_range (int ?p) (int ?p + int ?n) (\<lambda>er ee2e. do {
         r \<leftarrow> rd (ab2b e2r) er;
         e2er_code \<leftarrow> rd (codes_of e2r) er;
         let rre = code_which_down e2er_code;
         let rre_opp = simplex_opposite_template 3 1 rre;
         let re_begin = r * 6;
         e_opp \<leftarrow> rd (ab2b r2e) (re_begin + rre_opp);
         wr ee2e er (Some e_opp)
       }) s = Some (overwrite s ?p (concat (map (\<lambda>j. [opposite_edge (ab2b r2e) (F ! a ! j)]) [0..<?n])))"
    proof (rule block_loop [where w = 1 and m = "length s"])
      fix j and t :: "lo option list"
      assume j: "j < ?n" and lt: "length t = length s"
      obtain x where x: "F ! a ! j = x" by simp
      note k = concat_cell [OF aF j, unfolded x]
      note c = up_of_cell [OF up k(1), unfolded k(2)]
      have "x \<in> set (concat F)" using k nth_mem by metis
      then have lx: "x < nr * 6" using F sz by simp
      note r = up_row_of_cell [OF up _ k(1) k(2) lx]
      have "rd (ab2b r2e) (x div 6 * 6 + simplex_opposite_template 3 1 (x mod 6)) = Some (opposite_edge (ab2b r2e) x)"
        using int_row_bound(1) [OF r(1,2) opposite_edge_range [OF r(3,4)] sz] by (simp add: opposite_edge_def)
      moreover have "wr t (int (?p + j)) (Some v) = Some (overwrite t (?p + 1 * j) [v])" for v
        using fits j lt wr_int [of "?p + j" t] by (simp add: overwrite_single)
      moreover have "int ?p + int j = int (?p + j)" by simp
      ultimately show "do {
         r \<leftarrow> rd (ab2b e2r) (int ?p + int j);
         e2er_code \<leftarrow> rd (codes_of e2r) (int ?p + int j);
         let rre = code_which_down e2er_code;
         let rre_opp = simplex_opposite_template 3 1 rre;
         let re_begin = r * 6;
         e_opp \<leftarrow> rd (ab2b r2e) (re_begin + rre_opp);
         wr t (int ?p + int j) (Some e_opp)
       } = Some (overwrite t (?p + 1 * j) [opposite_edge (ab2b r2e) (F ! a ! j)])"
        unfolding x by (simp only: c Option.bind.simps Let_def)
    qed (use fits in auto)
    moreover have "concat (map (\<lambda>j. [opposite_edge (ab2b r2e) (F ! a ! j)]) [0..<?n]) = ?R ! a"
      unfolding concat_map_single using aF by (simp add: map_over_nth)
    moreover have "rd (a2ab e2r) (int a) = Some (int ?p)" "rd (a2ab e2r) (int a + 1) = Some (int ?p + int ?n)"
      using rd_offsets_sizes [of a F] rd_offsets_next [OF aF] aF
      by (simp_all add: up_of_rows(1) [OF up] row_start_Suc)
    ultimately show ?thesis unfolding start by (simp only: Option.bind.simps)
  qed
  have fill: "do { s \<leftarrow> parallel_for (int (length F)) ?f (fresh (int (length (concat F)))); freeze s } = Some (concat ?R)"
    by (rule fill_rows_of) (use step cat in auto)
  show ?thesis
    unfolding edges_across_tets_def Let_def up_of_rows(2,3) [OF up] alloc_nonneg [OF of_nat_0_le_iff] Option.bind.simps
      bind_freeze [OF fill [unfolded Let_def]]
    by (simp add: graph_of_def up_of_rows(1) [OF up] szR)
qed

lemma length_concat_const:
  "(\<And>x. x \<in> set xs \<Longrightarrow> length (h x) = w) \<Longrightarrow> length (concat (map h xs)) = w * length xs"
  by (induction xs) simp_all

lemma edges_across_tris_rows:
  assumes up: "up_of 3 F C e2f" and F: "\<And>fe. fe \<in> set (concat F) \<Longrightarrow> fe < asize (ab2b f2e)"
    and sz: "asize (ab2b f2e) = nf * 3"
  shows "edges_across_tris f2e e2f = Some (graph_of (map (\<lambda>row. concat (map (other_edges (ab2b f2e)) row)) F))"
proof -
  let ?o = "other_edges (ab2b f2e)"
  let ?R = "map (\<lambda>row. concat (map ?o row)) F"
  have len2: "length (concat (map ?o row)) = 2 * length row" for row
    by (rule length_concat_const) (simp add: other_edges_def)
  have szR: "sizes ?R = map (\<lambda>d. d * 2) (sizes F)" by (simp add: sizes_def comp_def len2)
  have "length (concat (map (\<lambda>row. concat (map ?o row)) xs)) = 2 * length (concat xs)" for xs
    by (induction xs) (simp_all add: len2)
  then have start: "row_start ?R a = 2 * row_start F a" for a
    unfolding row_start_def take_map .
  have cat: "length (concat ?R) = 2 * length (concat F)"
    using start [of "length F"] row_start_length [of ?R] by simp
  let ?f = "\<lambda>e ee2e. do {
       ef_begin \<leftarrow> rd (a2ab e2f) e;
       ef_end \<leftarrow> rd (a2ab e2f) (e + 1);
       let neef = ef_end - ef_begin;
       ee_begin \<leftarrow> rd (offsets (sizes ?R)) e;
       for_range 0 neef (\<lambda>eef ee2e. do {
         let ef = ef_begin + eef;
         f \<leftarrow> rd (ab2b e2f) ef;
         e2ef_code \<leftarrow> rd (codes_of e2f) ef;
         let ffe = code_which_down e2ef_code;
         e1 \<leftarrow> rd (ab2b f2e) (f * 3 + (ffe + 1) smod 3);
         e2 \<leftarrow> rd (ab2b f2e) (f * 3 + (ffe + 2) smod 3);
         ee2e \<leftarrow> wr ee2e (ee_begin + eef * 2 + 0) (Some e1);
         wr ee2e (ee_begin + eef * 2 + 1) (Some e2)
       }) ee2e
     }"
  have step: "?f (int a) s = Some (overwrite s (row_start ?R a) (?R ! a))"
    if a: "a < length ?R" and len: "length s = length (concat ?R)" for a s
  proof -
    have aF: "a < length F" using a by simp
    let ?n = "length (F ! a)" and ?p = "row_start F a" and ?q = "row_start ?R a"
    have fits: "?q + 2 * ?n \<le> length s" using row_fits [OF a] len aF by (simp add: len2)
    have "for_range 0 (0 + int ?n) (\<lambda>eef ee2e. do {
         let ef = int ?p + eef;
         f \<leftarrow> rd (ab2b e2f) ef;
         e2ef_code \<leftarrow> rd (codes_of e2f) ef;
         let ffe = code_which_down e2ef_code;
         e1 \<leftarrow> rd (ab2b f2e) (f * 3 + (ffe + 1) smod 3);
         e2 \<leftarrow> rd (ab2b f2e) (f * 3 + (ffe + 2) smod 3);
         ee2e \<leftarrow> wr ee2e (int ?q + eef * 2 + 0) (Some e1);
         wr ee2e (int ?q + eef * 2 + 1) (Some e2)
       }) s = Some (overwrite s ?q (concat (map (\<lambda>j. ?o (F ! a ! j)) [0..<?n])))"
    proof (rule block_loop [where w = 2 and m = "length s"])
      fix j and t :: "lo option list"
      assume j: "j < ?n" and lt: "length t = length s"
      obtain x where x: "F ! a ! j = x" by simp
      note k = concat_cell [OF aF j, unfolded x]
      note c = up_of_cell [OF up k(1), unfolded k(2)]
      have "x \<in> set (concat F)" using k nth_mem by metis
      then have lx: "x < nf * 3" using F sz by simp
      note r = up_row_of_cell [OF up _ k(1) k(2) lx]
      have sm: "(x mod 3 + i) smod 3 = (x mod 3 + i) mod 3" if "0 \<le> i" for i
        using that by (intro smod_nonneg) simp_all
      have rds: "rd (ab2b f2e) (x div 3 * 3 + (x mod 3 + i) mod 3) = Some (ab2b f2e ! nat (x div 3 * 3 + (x mod 3 + i) mod 3))" for i
        using int_row_bound(1) [OF r(1,2) _ _ sz, of "(x mod 3 + i) mod 3"] by simp
      have l: "?q + 2 * j + 1 < length t" using fits j lt by simp
      have ws: "do { t \<leftarrow> wr t (int ?q + int j * 2 + 0) (Some v); wr t (int ?q + int j * 2 + 1) (Some w) } =
          Some (overwrite t (?q + 2 * j) [v, w])" for v w
      proof -
        have "int ?q + int j * 2 + 0 = int (?q + 2 * j)" "int ?q + int j * 2 + 1 = int (Suc (?q + 2 * j))" by simp_all
        then show ?thesis
          using l wr_int [of "?q + 2 * j" t] wr_int [of "Suc (?q + 2 * j)" "t[?q + 2 * j := Some v]"]
          by (simp only: overwrite_pair Option.bind.simps) (simp add: overwrite_pair)
      qed
      have "int ?p + int j = int (?p + j)" by simp
      then show "do {
         let ef = int ?p + (0 + int j);
         f \<leftarrow> rd (ab2b e2f) ef;
         e2ef_code \<leftarrow> rd (codes_of e2f) ef;
         let ffe = code_which_down e2ef_code;
         e1 \<leftarrow> rd (ab2b f2e) (f * 3 + (ffe + 1) smod 3);
         e2 \<leftarrow> rd (ab2b f2e) (f * 3 + (ffe + 2) smod 3);
         ee2e \<leftarrow> wr t (int ?q + (0 + int j) * 2 + 0) (Some e1);
         wr ee2e (int ?q + (0 + int j) * 2 + 1) (Some e2)
       } = Some (overwrite t (?q + 2 * j) (?o (F ! a ! j)))"
        using rds [of 1] rds [of 2] sm [of 1] sm [of 2]
        unfolding x Let_def by (simp only: c Option.bind.simps add_0 ws other_edges_def)
    qed (use fits in \<open>simp_all add: other_edges_def\<close>)
    moreover have "concat (map (\<lambda>j. ?o (F ! a ! j)) [0..<?n]) = ?R ! a"
      using aF by (simp add: map_over_nth)
    moreover have "rd (a2ab e2f) (int a) = Some (int ?p)" "rd (a2ab e2f) (int a + 1) = Some (int ?p + int ?n)"
      using rd_offsets_sizes [of a F] rd_offsets_next [OF aF] aF
      by (simp_all add: up_of_rows(1) [OF up] row_start_Suc)
    moreover have "rd (offsets (sizes ?R)) (int a) = Some (int ?q)"
      using rd_offsets_sizes [of a ?R] a by simp
    moreover have "int ?p + int ?n - int ?p = 0 + int ?n" by simp
    ultimately show ?thesis by (simp only: Option.bind.simps Let_def)
  qed
  have fill: "do { s \<leftarrow> parallel_for (int (length F)) ?f (fresh (int (length (concat ?R)))); freeze s } = Some (concat ?R)"
    by (rule fill_rows_of) (use step in auto)
  have degs: "get_degrees (a2ab e2f) = Some (sizes F)" using up by (simp add: up_of_def)
  have mul: "multiply_each_by (sizes F) 2 = Some (sizes ?R)" by (simp add: szR multiply_each_by_def)
  show ?thesis
    unfolding edges_across_tris_def Let_def up_of_rows(3) [OF up] degs mul offset_scan_eq rd_last_offsets
      sum_sizes alloc_nonneg [OF of_nat_0_le_iff] Option.bind.simps bind_freeze [OF fill [unfolded Let_def]]
    by (simp add: graph_of_def)
qed

text \<open>The element on the other side of a side with two elements.\<close>

definition other_elem :: "lo list \<Rightarrow> lo \<Rightarrow> lo" where
  "other_elem es elem = (if es ! 0 = elem then es ! 1 else es ! 0)"

definition interior_sides :: "int list \<Rightarrow> lo list \<Rightarrow> lo list" where
  "interior_sides exposed sides = filter (\<lambda>side. exposed ! nat side = 0) sides"

lemma foldl_count: "foldl (\<lambda>n x. if x = 0 then n + 1 else n) n xs = n + int (length (filter (\<lambda>x. x = (0::int)) xs))"
  by (induction xs arbitrary: n) simp_all

lemma elements_across_sides_rows:
  assumes n: "0 < dim + 1" and es: "ab2b elems2sides = es" "asize es = ne * (dim + 1)" "0 \<le> ne"
    and S: "a2ab sides2elems = offsets (sizes S)" "ab2b sides2elems = concat S"
    and ex: "asize exposed = int (length S)" and rng: "\<And>s. s \<in> set es \<Longrightarrow> 0 \<le> s \<and> s < int (length S)"
    and two: "\<And>s. 0 \<le> s \<Longrightarrow> s < int (length S) \<Longrightarrow> exposed ! nat s = 0 \<Longrightarrow> length (S ! nat s) = 2"
  shows "elements_across_sides dim elems2sides sides2elems exposed =
    Some (graph_of (map (\<lambda>e. map (\<lambda>s. other_elem (S ! nat s) (int e)) (interior_sides exposed (row (dim + 1) es (int e)))) [0..<nat ne]))"
proof -
  let ?n = "dim + 1"
  let ?in = "\<lambda>e. interior_sides exposed (row ?n es (int e))"
  let ?R = "map (\<lambda>e. map (\<lambda>s. other_elem (S ! nat s) (int e)) (?in e)) [0..<nat ne]"
  have cell: "rd es i = Some (es ! nat i) \<and> 0 \<le> es ! nat i \<and> es ! nat i < int (length S)"
    if e: "e < nat ne" and i: "i \<in> set [int e * ?n..int e * ?n + ?n - 1]" for e i
  proof -
    have "0 \<le> int e * ?n + (i - int e * ?n) \<and> int e * ?n + (i - int e * ?n) < ne * ?n"
      using e i by (intro row_index_bound) auto
    then have "0 \<le> i" "i < asize es" using es(2) by simp_all
    then show ?thesis using rng [OF nth_int_mem] by (simp add: rd_Some)
  qed
  have cells: "map (\<lambda>i. es ! nat i) [int e * ?n..int e * ?n + ?n - 1] = row ?n es (int e)" for e
  proof -
    have "[int e * ?n..int e * ?n + ?n - 1] = map (\<lambda>j. int e * ?n + j) [0..?n - 1]"
      by (rule nth_equalityI) (simp_all add: nth_upto)
    then show ?thesis by (simp add: row_def)
  qed
  have count: "elements_across_sides_count ?n es exposed (int e) = Some (int (length (?in e)))" if e: "e < nat ne" for e
  proof -
    let ?p = "\<lambda>n x. if x = (0::int) then n + 1 else n"
    have "run_for [int e * ?n..int e * ?n + ?n - 1] (\<lambda>i n. do { x \<leftarrow> do { s \<leftarrow> rd es i; rd exposed s }; Some (?p n x) }) 0 =
        Some (foldl ?p 0 (map (\<lambda>i. exposed ! nat (es ! nat i)) [int e * ?n..int e * ?n + ?n - 1]))"
      by (rule run_for_fold) (use cell [OF e] ex in \<open>simp add: rd_Some\<close>)
    also have "map (\<lambda>i. exposed ! nat (es ! nat i)) [int e * ?n..int e * ?n + ?n - 1] =
        map (\<lambda>s. exposed ! nat s) (row ?n es (int e))"
      unfolding cells [symmetric] by simp
    also have "foldl ?p 0 \<dots> = int (length (?in e))"
      by (simp add: foldl_count interior_sides_def filter_map comp_def)
    finally show ?thesis
      by (simp add: elements_across_sides_count_def for_range_def Option.bind_assoc)
  qed
  have degs: "fill_each ne (elements_across_sides_count ?n es exposed) = Some (sizes ?R)"
    using fill_each_Some [OF es(3), of "elements_across_sides_count ?n es exposed" "\<lambda>e. int (length (?in e))"] count
    by (simp add: zless_nat_eq_int_zless sizes_def comp_def)
  let ?step = "\<lambda>elem elem_side (elem_elem, elem_elem2elem). do {
         side \<leftarrow> rd es elem_side;
         exposed \<leftarrow> rd exposed side;
         if exposed = 0 then do {
           side_elem \<leftarrow> rd (a2ab sides2elems) side;
           x \<leftarrow> rd (ab2b sides2elems) side_elem;
           let side_elem = (if x = elem then side_elem + 1 else side_elem);
           y \<leftarrow> rd (ab2b sides2elems) side_elem;
           elem_elem2elem \<leftarrow> wr elem_elem2elem elem_elem (Some y);
           Some (elem_elem + 1, elem_elem2elem)
         } else Some (elem_elem, elem_elem2elem)
       }"
  let ?f = "\<lambda>elem elem_elem2elem. do {
       let begin_s = elem * ?n;
       let end_s = begin_s + ?n;
       elem_elem \<leftarrow> rd (offsets (sizes ?R)) elem;
       (elem_elem, elem_elem2elem) \<leftarrow> for_range begin_s end_s (?step elem) (elem_elem, elem_elem2elem);
       Some elem_elem2elem
     }"
  have step: "?f (int a) s = Some (overwrite s (row_start ?R a) (?R ! a))"
    if a: "a < length ?R" and len: "length s = length (concat ?R)" for a s
  proof -
    have aN: "a < nat ne" using a by simp
    let ?is = "[int a * ?n..int a * ?n + ?n - 1]" and ?P = "\<lambda>i. exposed ! nat (es ! nat i) = 0"
    let ?g = "\<lambda>i. do {
           side_elem \<leftarrow> rd (a2ab sides2elems) (es ! nat i);
           x \<leftarrow> rd (ab2b sides2elems) side_elem;
           rd (ab2b sides2elems) (if x = int a then side_elem + 1 else side_elem) }"
    let ?h = "\<lambda>i. other_elem (S ! nat (es ! nat i)) (int a)"
    have Ra: "?R ! a = map ?h (filter ?P ?is)"
      using aN unfolding interior_sides_def cells [symmetric] filter_map by (simp add: comp_def)
    have "run_for ?is (?step (int a)) (int (row_start ?R a), s) =
      run_for ?is (\<lambda>i ks. if ?P i then (case ks of (k, s) \<Rightarrow> do { v \<leftarrow> ?g i; s \<leftarrow> wr s k (Some v); Some (k + 1, s) }) else Some ks)
        (int (row_start ?R a), s)"
      by (rule run_for_cong) (use cell [OF aN] ex in \<open>auto simp: rd_Some Option.bind_assoc\<close>)
    also have "\<dots> = run_for (filter ?P ?is) (\<lambda>i (k, s). do { v \<leftarrow> ?g i; s \<leftarrow> wr s k (Some v); Some (k + 1, s) })
        (int (row_start ?R a), s)"
      by (rule run_for_filter)
    also have "\<dots> = Some (int (row_start ?R a + length (filter ?P ?is)), overwrite s (row_start ?R a) (map ?h (filter ?P ?is)))"
    proof (rule push_loop)
      show "row_start ?R a + length (filter ?P ?is) \<le> length s"
        using row_fits [OF a] len arg_cong [OF Ra, of length] by simp
      fix i assume "i \<in> set (filter ?P ?is)"
      then have i: "i \<in> set ?is" and P: "?P i" by simp_all
      obtain v where v: "es ! nat i = int v" "v < length S"
        using cell [OF aN i] by (metis zero_le_imp_eq_int of_nat_less_iff)
      have l2: "length (S ! v) = 2" using two [of "int v"] P v by simp
      have o: "rd (offsets (sizes S)) (int v) = Some (int (row_start S v))"
        using rd_offsets_sizes [of v S] v(2) by simp
      have r: "rd (concat S) (int (row_start S v)) = Some (S ! v ! 0)" "rd (concat S) (int (row_start S v) + 1) = Some (S ! v ! 1)"
        using concat_cell [OF v(2), of 0] concat_cell [OF v(2), of 1] l2 rd_int [of "row_start S v" "concat S"]
          rd_int [of "Suc (row_start S v)" "concat S"] by (simp_all add: add.commute)
      show "?g i = Some (?h i)" by (simp add: v(1) S o r other_elem_def)
    qed
    finally show ?thesis
      using rd_offsets_sizes [of a ?R] a unfolding Ra Let_def for_range_def
      by (simp only: Option.bind.simps prod.case less_imp_le)
  qed
  have fill: "do { s \<leftarrow> parallel_for ne ?f (fresh (int (length (concat ?R)))); freeze s } = Some (concat ?R)"
    by (rule fill_rows_of) (use step es(3) in auto)
  have dnr: "divide_no_remainder (asize es) ?n = Some ne" using n es(2) by simp
  show ?thesis
    unfolding elements_across_sides_def Let_def es(1) dnr degs offset_scan_eq rd_last_offsets sum_sizes
      alloc_nonneg [OF of_nat_0_le_iff] Option.bind.simps bind_freeze [OF fill [unfolded Let_def]]
    by (simp add: graph_of_def)
qed

section \<open>Properties\<close>

definition other_end :: "lo list \<Rightarrow> int \<Rightarrow> lo" where
  "other_end ev2v ev = ev2v ! nat (if ev mod 2 = 0 then ev + 1 else ev - 1)"

text \<open>The uses of the low entity \<open>l\<close>: the cells of the downward adjacency that hold it.\<close>

definition uses_of :: "lo list \<Rightarrow> lo \<Rightarrow> int list" where
  "uses_of hl2l l = filter (\<lambda>hl. hl2l ! nat hl = l) [0..asize hl2l - 1]"

text \<open>C32. The graphs across edges, from the downward adjacency and its inversion, whatever the schedule of
  the inversion: around a vertex \<open>verts_across_edges\<close> lists the other end of every edge, around an edge
  \<open>edges_across_tris\<close> lists the other two edges of every triangle and \<open>edges_across_tets\<close> the opposite edge
  of every tetrahedron, in the order of the uses of the vertex or edge.\<close>

theorem across_edges_rows:
  assumes "n \<in> {2, 3, 6}" "0 \<le> nlows" "asize (ab2b down) = nhighs * n" "\<forall>l \<in> set (ab2b down). 0 \<le> l \<and> l < nlows"
    and "adj_codes down = Some cs" "asize cs = asize (ab2b down)"
    and "\<forall>i j. 0 \<le> i \<and> i < asize (ab2b down) \<and> 0 \<le> j \<and> j < asize (ab2b down) \<and> i div n = j div n \<and>
      ab2b down ! nat i = ab2b down ! nat j \<longrightarrow> i = j"
    and "mset count_order = mset [0..asize (ab2b down) - 1]" "mset fill_order = mset [0..asize (ab2b down) - 1]"
    and "high_dim \<in> {0..3}" "low_dim \<in> {0..3}"
  shows "\<exists>up. invert_adj count_order fill_order down n nlows high_dim low_dim = Some up \<and>
    (n = 2 \<longrightarrow> verts_across_edges down up =
       Some (graph_of (map (\<lambda>v. map (other_end (ab2b down)) (uses_of (ab2b down) v)) [0..nlows - 1]))) \<and>
    (n = 3 \<longrightarrow> edges_across_tris down up =
       Some (graph_of (map (\<lambda>e. concat (map (other_edges (ab2b down)) (uses_of (ab2b down) e))) [0..nlows - 1]))) \<and>
    (n = 6 \<longrightarrow> edges_across_tets down up =
       Some (graph_of (map (\<lambda>e. map (opposite_edge (ab2b down)) (uses_of (ab2b down) e)) [0..nlows - 1])))"
proof -
  let ?d = "ab2b down" and ?F = "fibres [0..asize (ab2b down) - 1] (ab2b down) nlows"
  have n0: "0 < n" "n \<le> 16" using assms(1) by auto
  have F: "?F = map (uses_of ?d) [0..nlows - 1]" by (simp add: fibres_def uses_of_def)
  have mem: "0 \<le> hl \<and> hl < asize ?d" if "hl \<in> set (concat ?F)" for hl
    using that by (auto simp: fibres_def)
  have rng: "0 \<le> l \<and> l < nlows" if "l \<in> set ?d" for l using assms(4) that by blast
  have inj: "i = j" if "0 \<le> i" "i < asize ?d" "0 \<le> j" "j < asize ?d" "i div n = j div n" "?d ! nat i = ?d ! nat j" for i j
    using assms(7) that by blast
  have "invert_adj_body count_order fill_order down n nlows =
    Some \<lparr>a2ab = offsets (sizes ?F), ab2b = map (\<lambda>hl. hl div n) (concat ?F),
          adj_codes = Some (map (up_code (adj_codes down) n) (concat ?F))\<rparr>"
  proof (rule invert_adj_body_eq [unfolded Let_def])
    show "i = j" if "0 \<le> i" "i < asize ?d" "0 \<le> j" "j < asize ?d" "i div n = j div n" "?d ! nat i = ?d ! nat j" for i j
      using inj [OF that] .
    show "0 \<le> l \<and> l < nlows" if "l \<in> set ?d" for l using rng [OF that] .
    show "asize c = asize ?d" if "adj_codes down = Some c" for c using that assms(5,6) by simp
  qed (fact n0 assms)+
  note body = this
  have names: "dimensional_plural_name d \<noteq> None" "dimensional_singular_name d \<noteq> None" if "d \<in> {0..3}" for d
    using that by (auto simp: dimensional_plural_name_def dimensional_singular_name_def)
  have "invert_adj count_order fill_order down n nlows high_dim low_dim =
      invert_adj_body count_order fill_order down n nlows"
    using names [OF assms(10)] names [OF assms(11)] by (auto simp: invert_adj_def)
  let ?up = "\<lparr>a2ab = offsets (sizes ?F), ab2b = map (\<lambda>hl. hl div n) (concat ?F),
          adj_codes = Some (map (up_code (adj_codes down) n) (concat ?F))\<rparr>"
  have up: "invert_adj count_order fill_order down n nlows high_dim low_dim = Some ?up"
    using names [OF assms(10)] names [OF assms(11)] body by (auto simp: invert_adj_def)
  have "up_of n ?F (up_code (adj_codes down) n) ?up"
    unfolding up_of_def using up_code_fields(1) [OF n0] mem by auto
  then obtain up C where up: "invert_adj count_order fill_order down n nlows high_dim low_dim = Some up"
    and U: "up_of n ?F C up"
    using up by blast
  have lt: "hl < asize (ab2b down)" if "hl \<in> set (concat ?F)" for hl using mem [OF that] by simp
  show ?thesis
  proof (intro exI [of _ up] conjI impI up)
    assume "n = 2"
    show "verts_across_edges down up = Some (graph_of (map (\<lambda>v. map (other_end ?d) (uses_of ?d v)) [0..nlows - 1]))"
      by (rule trans [OF verts_across_edges_rows [where F = ?F and C = C]], use U \<open>n = 2\<close> in blast, erule lt,
        use assms(3) \<open>n = 2\<close> in blast, simp add: F other_end_def [abs_def] comp_def)
  next
    assume "n = 3"
    show "edges_across_tris down up = Some (graph_of (map (\<lambda>e. concat (map (other_edges ?d) (uses_of ?d e))) [0..nlows - 1]))"
      by (rule trans [OF edges_across_tris_rows [where F = ?F and C = C]], use U \<open>n = 3\<close> in blast, erule lt,
        use assms(3) \<open>n = 3\<close> in blast, simp add: F comp_def)
  next
    assume "n = 6"
    show "edges_across_tets down up = Some (graph_of (map (\<lambda>e. map (opposite_edge ?d) (uses_of ?d e)) [0..nlows - 1]))"
      by (rule trans [OF edges_across_tets_rows [where F = ?F and C = C]], use U \<open>n = 6\<close> in blast, erule lt,
        use assms(3) \<open>n = 6\<close> in blast, simp add: F comp_def)
  qed
qed

text \<open>The three edges of a triangle and their vertices.\<close>

theorem across_edges_rows_witness:
  "\<exists>up. invert_adj [0, 1, 2, 3, 4, 5] [5, 3, 0, 1, 2, 4]
       \<lparr>a2ab = [], ab2b = [0, 1, 1, 2, 2, 0], adj_codes = Some (replicate 6 0)\<rparr> 2 3 1 0 = Some up \<and>
     verts_across_edges \<lparr>a2ab = [], ab2b = [0, 1, 1, 2, 2, 0], adj_codes = Some (replicate 6 0)\<rparr> up =
       Some (graph_of [[1, 2], [0, 2], [1, 0]])"
proof -
  let ?ev = "[0, 1, 1, 2, 2, 0] :: int list"
  let ?d = "\<lparr>a2ab = [], ab2b = ?ev, adj_codes = Some (replicate 6 0)\<rparr> :: adj"
  have upto: "[0..5] = [0, 1, 2, 3, 4, 5::int]" "[0..2] = [0, 1, 2::int]" by code_simp+
  have inj: "\<forall>i j. 0 \<le> i \<and> i < asize (ab2b ?d) \<and> 0 \<le> j \<and> j < asize (ab2b ?d) \<and> i div 2 = j div 2 \<and>
      ab2b ?d ! nat i = ab2b ?d ! nat j \<longrightarrow> i = j"
  proof -
    have "\<forall>i \<in> set [0..5]. \<forall>j \<in> set [0..5]. i div 2 = j div 2 \<and> ?ev ! nat i = ?ev ! nat j \<longrightarrow> i = (j :: int)" by code_simp
    then show ?thesis by simp
  qed
  have rows: "map (\<lambda>v. map (other_end ?ev) (uses_of ?ev v)) [0..2] = [[1, 2], [0, 2], [1, 0]]" by code_simp
  have "\<exists>up. invert_adj [0, 1, 2, 3, 4, 5] [5, 3, 0, 1, 2, 4] ?d 2 3 1 0 = Some up \<and>
    (2 = (2::int) \<longrightarrow> verts_across_edges ?d up = Some (graph_of (map (\<lambda>v. map (other_end (ab2b ?d)) (uses_of (ab2b ?d) v)) [0..3 - 1]))) \<and>
    (2 = (3::int) \<longrightarrow> edges_across_tris ?d up =
       Some (graph_of (map (\<lambda>e. concat (map (other_edges (ab2b ?d)) (uses_of (ab2b ?d) e))) [0..3 - 1]))) \<and>
    (2 = (6::int) \<longrightarrow> edges_across_tets ?d up =
       Some (graph_of (map (\<lambda>e. map (opposite_edge (ab2b ?d)) (uses_of (ab2b ?d) e)) [0..3 - 1])))"
    by (rule across_edges_rows [OF _ _ _ _ _ _ inj, where nhighs = 3 and cs = "replicate 6 0"]) (simp_all add: upto)
  then show ?thesis using rows by auto
qed

text \<open>C33. The neighbours of the elements: when every side that is not exposed has two elements,
  \<open>elements_across_sides\<close> builds the graph whose row for an element lists, for its interior sides in
  order, the element on the other side.\<close>

theorem elements_across_sides_neighbors:
  assumes "0 < dim + 1" "asize (ab2b elems2sides) = ne * (dim + 1)" "0 \<le> ne"
    and "graph.truncate sides2elems = graph_of S"
    and "asize exposed = int (length S)" "\<forall>s \<in> set (ab2b elems2sides). 0 \<le> s \<and> s < int (length S)"
    and "\<forall>s. 0 \<le> s \<and> s < int (length S) \<and> exposed ! nat s = 0 \<longrightarrow> length (S ! nat s) = 2"
  shows "elements_across_sides dim elems2sides sides2elems exposed =
    Some (graph_of (map (\<lambda>e. map (\<lambda>s. other_elem (S ! nat s) (int e))
      (interior_sides exposed (row (dim + 1) (ab2b elems2sides) (int e)))) [0..<nat ne]))"
proof (rule elements_across_sides_rows [OF assms(1) refl assms(2,3) _ _ assms(5)])
  show "a2ab sides2elems = offsets (sizes S)" "ab2b sides2elems = concat S"
    using assms(4) by (simp_all add: graph.truncate_def graph_of_def)
qed (use assms(6,7) in blast)+

theorem elements_across_sides_neighbors_witness:
  "elements_across_sides 2 \<lparr>a2ab = [], ab2b = [0, 1, 2, 1, 3, 4], adj_codes = None\<rparr>
     \<lparr>a2ab = [0, 1, 3, 4, 5, 6], ab2b = [0, 0, 1, 0, 1, 1], adj_codes = None\<rparr> [1, 0, 1, 1, 1] = Some (graph_of [[1], [0]])"
proof -
  let ?S = "[[0], [0, 1], [0], [1], [1]] :: int list list" and ?ex = "[1, 0, 1, 1, 1] :: int list"
  let ?sides = "\<lparr>a2ab = [0, 1, 3, 4, 5, 6], ab2b = [0, 0, 1, 0, 1, 1], adj_codes = None\<rparr> :: adj"
  let ?down = "\<lparr>a2ab = [], ab2b = [0, 1, 2, 1, 3, 4], adj_codes = None\<rparr> :: adj"
  have g: "graph.truncate ?sides = graph_of ?S" by code_simp
  have "\<forall>s \<in> set [0..4]. ?ex ! nat s = 0 \<longrightarrow> length (?S ! nat s) = 2" by code_simp
  then have two: "\<forall>s. 0 \<le> s \<and> s < int (length ?S) \<and> ?ex ! nat s = 0 \<longrightarrow> length (?S ! nat s) = 2" by auto
  have r: "map (\<lambda>e. map (\<lambda>s. other_elem (?S ! nat s) (int e)) (interior_sides ?ex (row (2 + 1) (ab2b ?down) (int e)))) [0..<nat 2] =
      [[1], [0]]" by code_simp
  show ?thesis
    using elements_across_sides_neighbors [of 2 ?down 2 ?sides ?S ?ex] g two unfolding r by simp
qed

end
