(* ===== verification/Indset.thy ===== *)
theory Indset
  imports Omega_Prelude Array_Ops Fans Graphs
begin

text \<open>
  Independent sets (\<open>src/src/Omega_h_indset_inline.hpp\<close>, \<open>Omega_h_indset.cpp\<close>).

  Refinement, coarsening and swapping pick a set of cavities that do not touch: \<open>indset::find\<close>
  starts with every candidate \<open>UNKNOWN\<close> and repeats \<open>local_iteration\<close>, in which an undecided node
  with a chosen neighbor is rejected and an undecided node that beats all its neighbors not yet
  rejected is chosen, until no node is undecided.  Nodes are compared by quality, ties by global
  number (\<open>QualityCompare\<close>).

  The operations are followed by the same round as a function of lists (\<open>decide_set\<close>), under any strict
  total order of the nodes' keys (locale \<open>priority\<close>).  The invariant of the rounds and their progress are
  proved once and applied to the library's comparison.  The model is that of a mesh on one rank, where
  \<open>Mesh::sync_array\<close> returns its argument and the maximum over the communicator is the local one.
  A quality is an element of a linear order: the comparison of doubles without NaN.
\<close>

section \<open>The operations\<close>

abbreviation NOT_IN :: lo where "NOT_IN \<equiv> 0"
abbreviation IN :: lo where "IN \<equiv> 1"
abbreviation UNKNOWN :: lo where "UNKNOWN \<equiv> 2"

definition has_chosen_neighbor :: "lo list \<Rightarrow> lo list \<Rightarrow> lo \<Rightarrow> lo \<Rightarrow> bool option" where
  "has_chosen_neighbor adj old_state b e = for_range b e (\<lambda>j found.
     if found then Some found
     else do { u \<leftarrow> rd adj j; x \<leftarrow> rd old_state u; Some (x = IN) }) False"

definition is_local_maximum ::
  "lo list \<Rightarrow> lo list \<Rightarrow> (lo \<Rightarrow> lo \<Rightarrow> bool option) \<Rightarrow> lo \<Rightarrow> lo \<Rightarrow> lo \<Rightarrow> bool option" where
  "is_local_maximum adj old_state compare v b e = for_range b e (\<lambda>j ok.
     if \<not> ok then Some ok
     else do {
       u \<leftarrow> rd adj j;
       x \<leftarrow> rd old_state u;
       if x = NOT_IN then Some ok else compare u v
     }) True"

definition decide_node ::
  "lo list \<Rightarrow> lo list \<Rightarrow> (lo \<Rightarrow> lo \<Rightarrow> bool option) \<Rightarrow> lo list \<Rightarrow> lo \<Rightarrow> lo list \<Rightarrow> lo list option" where
  "decide_node xadj adj compare old_state v new_state = do {
     x \<leftarrow> rd old_state v;
     if x \<noteq> UNKNOWN then Some new_state
     else do {
       b \<leftarrow> rd xadj v;
       e \<leftarrow> rd xadj (v + 1);
       chosen \<leftarrow> has_chosen_neighbor adj old_state b e;
       if chosen then wr new_state v NOT_IN
       else do {
         maximal \<leftarrow> is_local_maximum adj old_state compare v b e;
         if \<not> maximal then Some new_state else wr new_state v IN
       }
     }
   }"

definition local_iteration ::
  "lo list \<Rightarrow> lo list \<Rightarrow> lo list \<Rightarrow> (lo \<Rightarrow> lo \<Rightarrow> bool option) \<Rightarrow> lo list option" where
  "local_iteration xadj adj old_state compare =
     parallel_for (asize xadj - 1) (decide_node xadj adj compare old_state) old_state"

definition initial_state :: "lo list \<Rightarrow> lo list option" where
  "initial_state candidates = fill_each (asize candidates) (\<lambda>i. do {
     c \<leftarrow> rd candidates i;
     Some (if c \<noteq> 0 then UNKNOWN else NOT_IN)
   })"

text \<open>The maximum of an empty array of bytes is the least byte.\<close>

definition some_unknown :: "lo list \<Rightarrow> bool option" where
  "some_unknown state = do {
     m \<leftarrow> transform_reduce (asize state) (- 128) max (rd state);
     Some (m = UNKNOWN)
   }"

partial_function (option) iterate_until_decided ::
  "lo list \<Rightarrow> lo list \<Rightarrow> (lo \<Rightarrow> lo \<Rightarrow> bool option) \<Rightarrow> lo list \<Rightarrow> lo list option" where
  "iterate_until_decided xadj adj compare state = do {
     unknown \<leftarrow> some_unknown state;
     if unknown then do {
       state \<leftarrow> local_iteration xadj adj state compare;
       iterate_until_decided xadj adj compare state
     } else Some state
   }"

definition indset_find ::
  "lo list \<Rightarrow> lo list \<Rightarrow> lo list \<Rightarrow> (lo \<Rightarrow> lo \<Rightarrow> bool option) \<Rightarrow> lo list option" where
  "indset_find xadj adj candidates compare = do {
     omega_check (asize candidates = asize xadj - 1);
     state \<leftarrow> initial_state candidates;
     iterate_until_decided xadj adj compare state
   }"

definition quality_compare :: "'q::linorder list \<Rightarrow> lo list \<Rightarrow> lo \<Rightarrow> lo \<Rightarrow> bool option" where
  "quality_compare quality global u v = do {
     v_qual \<leftarrow> rd quality v;
     u_qual \<leftarrow> rd quality u;
     if u_qual \<noteq> v_qual then Some (u_qual < v_qual)
     else do { gu \<leftarrow> rd global u; gv \<leftarrow> rd global v; Some (gu < gv) }
   }"

definition find_indset ::
  "graph \<Rightarrow> 'q::linorder list \<Rightarrow> lo list \<Rightarrow> lo list \<Rightarrow> lo list option" where
  "find_indset g quality global candidates =
     indset_find (a2ab g) (ab2b g) candidates (quality_compare quality global)"

section \<open>A round as a function of lists\<close>

definition decide ::
  "('k \<Rightarrow> 'k \<Rightarrow> bool) \<Rightarrow> lo list list \<Rightarrow> 'k list \<Rightarrow> lo list \<Rightarrow> nat \<Rightarrow> lo" where
  "decide lt R ks s v =
     (if s ! v \<noteq> UNKNOWN then s ! v
      else if \<exists>u \<in> set (R ! v). s ! nat u = IN then NOT_IN
      else if \<forall>u \<in> set (R ! v). s ! nat u = NOT_IN \<or> lt (ks ! nat u) (ks ! v) then IN
      else UNKNOWN)"

text \<open>The nodes of a set \<open>W\<close> decided on the state before; a round of the code decides all of them (\<open>UNIV\<close>).\<close>

definition decide_set ::
  "('k \<Rightarrow> 'k \<Rightarrow> bool) \<Rightarrow> lo list list \<Rightarrow> 'k list \<Rightarrow> nat set \<Rightarrow> lo list \<Rightarrow> lo list" where
  "decide_set lt R ks W s =
     map (\<lambda>v. if v \<in> W then decide lt R ks s v else s ! v) [0..<length R]"

definition start :: "lo list \<Rightarrow> lo list" where
  "start c = map (\<lambda>x. if x \<noteq> 0 then UNKNOWN else NOT_IN) c"

definition node_graph :: "lo list list \<Rightarrow> bool" where
  "node_graph R \<longleftrightarrow> (\<forall>v < length R. \<forall>u \<in> set (R ! v).
     0 \<le> u \<and> u < int (length R) \<and> u \<noteq> int v \<and> int v \<in> set (R ! nat u))"

text \<open>
  The invariant: only candidates are chosen; a chosen node has no chosen neighbor and beats those
  that are undecided; a candidate was rejected for a chosen neighbor that beats it.
\<close>

definition indset_inv ::
  "('k \<Rightarrow> 'k \<Rightarrow> bool) \<Rightarrow> lo list list \<Rightarrow> 'k list \<Rightarrow> lo list \<Rightarrow> lo list \<Rightarrow> bool" where
  "indset_inv lt R ks c s \<longleftrightarrow> length s = length R \<and> (\<forall>v < length R.
     s ! v \<in> {NOT_IN, IN, UNKNOWN} \<and>
     (c ! v = 0 \<longrightarrow> s ! v = NOT_IN) \<and>
     (s ! v = IN \<longrightarrow> (\<forall>u \<in> set (R ! v). s ! nat u \<noteq> IN \<and>
        (s ! nat u = UNKNOWN \<longrightarrow> lt (ks ! nat u) (ks ! v)))) \<and>
     (s ! v = NOT_IN \<and> c ! v \<noteq> 0 \<longrightarrow>
        (\<exists>u \<in> set (R ! v). s ! nat u = IN \<and> lt (ks ! v) (ks ! nat u))))"

text \<open>The outcome: a candidate is chosen unless a chosen neighbor beats it.\<close>

definition greedy_choice ::
  "('k \<Rightarrow> 'k \<Rightarrow> bool) \<Rightarrow> lo list list \<Rightarrow> 'k list \<Rightarrow> lo list \<Rightarrow> lo list \<Rightarrow> bool" where
  "greedy_choice lt R ks c s \<longleftrightarrow> length s = length R \<and> (\<forall>v < length R.
     s ! v = (if c ! v \<noteq> 0 \<and> \<not> (\<exists>u \<in> set (R ! v). s ! nat u = IN \<and> lt (ks ! v) (ks ! nat u))
              then IN else NOT_IN))"

definition undecided :: "lo list \<Rightarrow> nat" where
  "undecided s = card {v. v < length s \<and> s ! v = UNKNOWN}"

lemma node_graphD:
  assumes "node_graph R" "v < length R" "u \<in> set (R ! v)"
  shows "0 \<le> u" "nat u < length R" "nat u \<noteq> v" "int v \<in> set (R ! nat u)"
proof -
  have "0 \<le> u \<and> u < int (length R) \<and> u \<noteq> int v \<and> int v \<in> set (R ! nat u)"
    using assms unfolding node_graph_def by blast
  then show "0 \<le> u" "nat u < length R" "nat u \<noteq> v" "int v \<in> set (R ! nat u)" by auto
qed

lemma indset_invD:
  assumes "indset_inv lt R ks c s" "v < length R"
  shows "s ! v \<in> {NOT_IN, IN, UNKNOWN}" "c ! v = 0 \<Longrightarrow> s ! v = NOT_IN"
    and "s ! v = IN \<Longrightarrow> u \<in> set (R ! v) \<Longrightarrow> s ! nat u \<noteq> IN"
    and "s ! v = IN \<Longrightarrow> u \<in> set (R ! v) \<Longrightarrow> s ! nat u = UNKNOWN \<Longrightarrow> lt (ks ! nat u) (ks ! v)"
    and "s ! v = NOT_IN \<Longrightarrow> c ! v \<noteq> 0 \<Longrightarrow>
          \<exists>u \<in> set (R ! v). s ! nat u = IN \<and> lt (ks ! v) (ks ! nat u)"
  using assms unfolding indset_inv_def by blast+

lemma length_decide_set [simp]: "length (decide_set lt R ks W s) = length R"
  by (simp add: decide_set_def)

lemma nth_decide_set:
  "v < length R \<Longrightarrow> decide_set lt R ks W s ! v = (if v \<in> W then decide lt R ks s v else s ! v)"
  by (simp add: decide_set_def)

lemma decided_kept:
  "v < length R \<Longrightarrow> s ! v \<noteq> UNKNOWN \<Longrightarrow> decide_set lt R ks W s ! v = s ! v"
  by (simp add: nth_decide_set decide_def)

text \<open>What a step can have done to a node.\<close>

lemma decide_set_cases:
  assumes "v < length R"
  obtains (kept) "decide_set lt R ks W s ! v = s ! v"
  | (rejected) u where "s ! v = UNKNOWN" "decide_set lt R ks W s ! v = NOT_IN"
      "u \<in> set (R ! v)" "s ! nat u = IN"
  | (chosen) "s ! v = UNKNOWN" "decide_set lt R ks W s ! v = IN"
      "\<forall>u \<in> set (R ! v). s ! nat u \<noteq> IN \<and> (s ! nat u = NOT_IN \<or> lt (ks ! nat u) (ks ! v))"
proof -
  let ?t = "decide_set lt R ks W s"
  consider "?t ! v = s ! v" | "s ! v = UNKNOWN" "?t ! v = decide lt R ks s v"
    using assms by (cases "v \<in> W \<and> s ! v = UNKNOWN") (auto simp: nth_decide_set decide_def)
  then show thesis
  proof cases
    case 1
    then show thesis by (rule kept)
  next
    case 2
    show thesis
    proof (cases "\<exists>u \<in> set (R ! v). s ! nat u = IN")
      case True
      then obtain u where "u \<in> set (R ! v)" "s ! nat u = IN" by blast
      then show thesis using 2 by (intro rejected) (auto simp: decide_def)
    next
      case False
      note F = False
      show thesis
      proof (cases "\<forall>u \<in> set (R ! v). s ! nat u = NOT_IN \<or> lt (ks ! nat u) (ks ! v)")
        case True
        then show thesis using 2 F by (intro chosen) (auto simp: decide_def)
      next
        case False
        then show thesis using 2 F by (intro kept) (simp add: decide_def)
      qed
    qed
  qed
qed

lemma indset_inv_start:
  assumes "length c = length R"
  shows "indset_inv lt R ks c (start c)"
  using assms by (simp add: indset_inv_def start_def)

locale priority =
  fixes lt :: "'k \<Rightarrow> 'k \<Rightarrow> bool"
  assumes irrefl: "\<not> lt a a"
    and trans: "lt a b \<Longrightarrow> lt b c \<Longrightarrow> lt a c"
    and total: "a \<noteq> b \<Longrightarrow> lt a b \<or> lt b a"
begin

lemma asym: "lt a b \<Longrightarrow> \<not> lt b a"
  using irrefl trans by blast

lemma step_inv:
  assumes g: "node_graph R" and inv: "indset_inv lt R ks c s"
  shows "indset_inv lt R ks c (decide_set lt R ks W s)" (is "indset_inv _ _ _ _ ?t")
  unfolding indset_inv_def
proof (intro conjI allI impI)
  show "length ?t = length R" by simp
next
  fix v assume v: "v < length R"
  note I = indset_invD [OF inv v]
  show "?t ! v \<in> {NOT_IN, IN, UNKNOWN}"
    using v by (cases rule: decide_set_cases [of v R lt ks W s]) (use I(1) in auto)
  show "?t ! v = NOT_IN" if "c ! v = 0"
    using decided_kept [OF v, of s] I(2) [OF that] by simp
  show "\<forall>u \<in> set (R ! v). ?t ! nat u \<noteq> IN \<and> (?t ! nat u = UNKNOWN \<longrightarrow> lt (ks ! nat u) (ks ! v))"
    if vIN: "?t ! v = IN"
  proof
    fix u assume u: "u \<in> set (R ! v)"
    note n = node_graphD [OF g v u]
    have nv: "nat (int v) = v" by simp
    have sv: "s ! v = IN \<or> (s ! v = UNKNOWN \<and>
        (\<forall>u \<in> set (R ! v). s ! nat u \<noteq> IN \<and> (s ! nat u = NOT_IN \<or> lt (ks ! nat u) (ks ! v))))"
      using v by (cases rule: decide_set_cases [of v R lt ks W s]) (use vIN in auto)
    have su: "s ! nat u \<noteq> IN" "s ! nat u = UNKNOWN \<longrightarrow> lt (ks ! nat u) (ks ! v)"
      using sv I(3) [OF _ u] I(4) [OF _ u] u by auto
    show "?t ! nat u \<noteq> IN \<and> (?t ! nat u = UNKNOWN \<longrightarrow> lt (ks ! nat u) (ks ! v))"
      using n(2)
    proof (cases rule: decide_set_cases [of "nat u" R lt ks W s])
      case kept
      then show ?thesis using su by simp
    next
      case (rejected w)
      then show ?thesis by simp
    next
      case chosen
      then have "s ! v \<noteq> IN \<and> (s ! v = NOT_IN \<or> lt (ks ! v) (ks ! nat u))"
        using n(4) nv by metis
      then have "lt (ks ! v) (ks ! nat u)" using sv by auto
      moreover have "lt (ks ! nat u) (ks ! v)" using su(2) chosen(1) by simp
      ultimately show ?thesis using asym by blast
    qed
  qed
  show "\<exists>u \<in> set (R ! v). ?t ! nat u = IN \<and> lt (ks ! v) (ks ! nat u)"
    if "?t ! v = NOT_IN \<and> c ! v \<noteq> 0"
  proof -
    have "\<exists>u \<in> set (R ! v). s ! nat u = IN \<and> lt (ks ! v) (ks ! nat u)"
      using v
    proof (cases rule: decide_set_cases [of v R lt ks W s])
      case kept
      then show ?thesis using I(5) that by simp
    next
      case (rejected u)
      note n = node_graphD [OF g v rejected(3)]
      have "lt (ks ! nat (int v)) (ks ! nat u)"
        by (rule indset_invD(4) [OF inv n(2) rejected(4) n(4)]) (simp add: rejected(1))
      then show ?thesis using rejected by auto
    next
      case chosen
      then show ?thesis using that by simp
    qed
    then obtain u where u: "u \<in> set (R ! v)" "s ! nat u = IN" "lt (ks ! v) (ks ! nat u)" by blast
    then have "?t ! nat u = IN" using decided_kept [OF node_graphD(2) [OF g v u(1)], of s] by simp
    then show ?thesis using u by blast
  qed
qed

text \<open>A nonempty set of nodes with different keys has one that beats all the others.\<close>

lemma best_node:
  assumes "finite A" "A \<noteq> {}" "inj_on key A"
  shows "\<exists>v \<in> A. \<forall>u \<in> A. u = v \<or> lt (key u) (key v)"
  using assms
proof (induction rule: finite_ne_induct)
  case (singleton x)
  show ?case by simp
next
  case (insert x A)
  then obtain v where v: "v \<in> A" "\<forall>u \<in> A. u = v \<or> lt (key u) (key v)" by auto
  have "key x \<noteq> key v" using insert v(1) by (auto simp: inj_on_def)
  then consider "lt (key x) (key v)" | "lt (key v) (key x)" using total by blast
  then show ?case
  proof cases
    case 1
    then show ?thesis using v by blast
  next
    case 2
    have "lt (key u) (key x)" if "u \<in> A" for u
      using v(2) that 2 by (cases "u = v") (auto intro: trans)
    then show ?thesis by blast
  qed
qed

lemma round_progress:
  assumes g: "node_graph R" and ks: "distinct ks" "length ks = length R"
    and inv: "indset_inv lt R ks c s" and ex: "\<exists>v < length R. s ! v = UNKNOWN"
  shows "\<exists>v < length R. s ! v = UNKNOWN \<and> decide_set lt R ks UNIV s ! v \<noteq> UNKNOWN"
proof -
  let ?U = "{v. v < length R \<and> s ! v = UNKNOWN}"
  have "inj_on (\<lambda>v. ks ! v) ?U" using ks by (auto simp: inj_on_def nth_eq_iff_index_eq)
  then obtain v where v: "v < length R" "s ! v = UNKNOWN"
    "\<forall>u \<in> ?U. u = v \<or> lt (ks ! u) (ks ! v)"
    using best_node [of ?U "\<lambda>v. ks ! v"] ex by auto
  have "s ! nat u = NOT_IN \<or> lt (ks ! nat u) (ks ! v)"
    if u: "u \<in> set (R ! v)" "s ! nat u \<noteq> IN" for u
  proof -
    note n = node_graphD [OF g v(1) u(1)]
    show ?thesis using v(3) n indset_invD(1) [OF inv n(2)] u(2) by auto
  qed
  then have "decide lt R ks s v \<noteq> UNKNOWN" by (auto simp: decide_def)
  then show ?thesis using v by (auto simp: nth_decide_set)
qed

lemma decided_greedy:
  assumes inv: "indset_inv lt R ks c s" and dec: "\<forall>v < length R. s ! v \<noteq> UNKNOWN"
  shows "greedy_choice lt R ks c s"
  unfolding greedy_choice_def
proof (intro conjI allI impI)
  show "length s = length R" using inv by (simp add: indset_inv_def)
next
  fix v assume v: "v < length R"
  note I = indset_invD [OF inv v]
  show "s ! v = (if c ! v \<noteq> 0 \<and>
      \<not> (\<exists>u \<in> set (R ! v). s ! nat u = IN \<and> lt (ks ! v) (ks ! nat u)) then IN else NOT_IN)"
    using I(1,2,3,5) dec v by auto
qed

text \<open>Rounds decide every node: each leaves fewer undecided nodes than it found.\<close>

lemma undecided_decrease:
  assumes g: "node_graph R" and ks: "distinct ks" "length ks = length R"
    and inv: "indset_inv lt R ks c s" and ex: "UNKNOWN \<in> set s"
  shows "undecided (decide_set lt R ks UNIV s) < undecided s"
proof -
  let ?t = "decide_set lt R ks UNIV s"
  have len: "length s = length R" using inv by (simp add: indset_inv_def)
  then have "\<exists>v < length R. s ! v = UNKNOWN" using ex by (auto simp: in_set_conv_nth)
  then obtain v where v: "v < length R" "s ! v = UNKNOWN" "?t ! v \<noteq> UNKNOWN"
    using round_progress [OF g ks inv] by blast
  have "{v. v < length R \<and> ?t ! v = UNKNOWN} \<subset> {v. v < length R \<and> s ! v = UNKNOWN}"
  proof
    show "{v. v < length R \<and> ?t ! v = UNKNOWN} \<subseteq> {v. v < length R \<and> s ! v = UNKNOWN}"
    proof
      fix u assume "u \<in> {v. v < length R \<and> ?t ! v = UNKNOWN}"
      then have u: "u < length R" "?t ! u = UNKNOWN" by simp_all
      then have "s ! u = UNKNOWN" using decided_kept [OF u(1), of s lt ks UNIV] by metis
      then show "u \<in> {v. v < length R \<and> s ! v = UNKNOWN}" using u by simp
    qed
    show "{v. v < length R \<and> ?t ! v = UNKNOWN} \<noteq> {v. v < length R \<and> s ! v = UNKNOWN}"
      using v by blast
  qed
  then show ?thesis unfolding undecided_def length_decide_set len by (intro psubset_card_mono) simp_all
qed

lemma rounds_decide:
  assumes g: "node_graph R" and ks: "distinct ks" "length ks = length R"
    and inv: "indset_inv lt R ks c s"
  shows "\<exists>k \<le> undecided s. indset_inv lt R ks c ((decide_set lt R ks UNIV ^^ k) s) \<and>
     UNKNOWN \<notin> set ((decide_set lt R ks UNIV ^^ k) s) \<and>
     (\<forall>j < k. UNKNOWN \<in> set ((decide_set lt R ks UNIV ^^ j) s) \<and>
        indset_inv lt R ks c ((decide_set lt R ks UNIV ^^ j) s))"
  using inv
proof (induction "undecided s" arbitrary: s rule: less_induct)
  case less
  let ?f = "decide_set lt R ks UNIV"
  show ?case
  proof (cases "UNKNOWN \<in> set s")
    case False
    then show ?thesis using less.prems by (intro exI [of _ 0]) simp
  next
    case True
    have dec: "undecided (?f s) < undecided s" by (rule undecided_decrease [OF g ks less.prems True])
    obtain k where k: "k \<le> undecided (?f s)" "indset_inv lt R ks c ((?f ^^ k) (?f s))"
      "UNKNOWN \<notin> set ((?f ^^ k) (?f s))"
      "\<forall>j < k. UNKNOWN \<in> set ((?f ^^ j) (?f s)) \<and> indset_inv lt R ks c ((?f ^^ j) (?f s))"
      using less.hyps [OF dec step_inv [OF g less.prems]] by blast
    have shift: "(?f ^^ Suc j) s = (?f ^^ j) (?f s)" for j by (simp add: funpow_swap1)
    have "UNKNOWN \<in> set ((?f ^^ j) s) \<and> indset_inv lt R ks c ((?f ^^ j) s)" if "j < Suc k" for j
      using that k(4) True less.prems shift by (cases j) (simp_all del: funpow.simps add: funpow_0)
    then show ?thesis using k(1-3) dec shift by (intro exI [of _ "Suc k"]) simp
  qed
qed

end

section \<open>The library's comparison and the rounds of the code\<close>

definition quality_less :: "'q::linorder \<times> lo \<Rightarrow> 'q \<times> lo \<Rightarrow> bool" where
  "quality_less u v = (if fst u \<noteq> fst v then fst u < fst v else snd u < snd v)"

interpretation quality: priority "quality_less :: 'q::linorder \<times> lo \<Rightarrow> 'q \<times> lo \<Rightarrow> bool"
  by unfold_locales (auto simp: quality_less_def prod_eq_iff split: if_splits)

lemma quality_compare_eq:
  assumes "nat u < length ks" "nat v < length ks" "0 \<le> u" "0 \<le> v"
  shows "quality_compare (map fst ks) (map snd ks) u v = Some (quality_less (ks ! nat u) (ks ! nat v))"
  using assms by (auto simp: quality_compare_def quality_less_def rd_Some asize_def)

lemma scan_row:
  assumes "a < length R" and "\<And>k s. k \<in> set (cells R a) \<Longrightarrow> f k s = h (concat R ! nat k) s"
  shows "for_range (int (row_start R a)) (int (row_start R a + length (R ! a))) f s = run_for (R ! a) h s"
proof -
  have "for_range (int (row_start R a)) (int (row_start R a + length (R ! a))) f s =
      run_for (cells R a) (\<lambda>k. h (concat R ! nat k)) s"
    unfolding for_range_def cells_def [symmetric] by (rule run_for_cong) (rule assms(2))
  also have "\<dots> = run_for (map (\<lambda>k. concat R ! nat k) (cells R a)) h s" by (simp only: run_for_map)
  finally show ?thesis by (simp only: map_cells [OF assms(1)])
qed

lemma run_for_some: "run_for us (\<lambda>u found. if found then Some found else Some (P u)) b =
    Some (b \<or> (\<exists>u \<in> set us. P u))"
  by (induction us arbitrary: b) auto

lemma run_for_all: "run_for us (\<lambda>u ok. if \<not> ok then Some ok else Some (P u)) b =
    Some (b \<and> (\<forall>u \<in> set us. P u))"
  by (induction us arbitrary: b) auto

text \<open>The inputs of the code: the graph's arrays and a comparison that evaluates \<open>lt\<close> on the keys.\<close>

definition compares :: "(lo \<Rightarrow> lo \<Rightarrow> bool option) \<Rightarrow> ('k \<Rightarrow> 'k \<Rightarrow> bool) \<Rightarrow> 'k list \<Rightarrow> bool" where
  "compares compare lt ks \<longleftrightarrow> (\<forall>u v. 0 \<le> u \<and> nat u < length ks \<and> v < length ks \<longrightarrow>
     compare u (int v) = Some (lt (ks ! nat u) (ks ! v)))"

lemma decide_node_eq:
  assumes g: "node_graph R" and len: "length s = length R" "length ks = length R"
    and cmp: "compares compare lt ks" and v: "v < length R"
    and t: "length t = length R" "t ! v = s ! v"
  shows "decide_node (offsets (sizes R)) (concat R) compare s (int v) t = Some (t[v := decide lt R ks s v])"
proof -
  have rds: "rd s u = Some (s ! nat u)" if "u \<in> set (R ! v)" for u
    using node_graphD [OF g v that] len by (intro rd_Some) (auto simp: asize_def nat_less_iff)
  have "has_chosen_neighbor (concat R) s (int (row_start R v)) (int (row_start R v + length (R ! v))) =
      run_for (R ! v) (\<lambda>u found. if found then Some found else Some (s ! nat u = IN)) False"
    unfolding has_chosen_neighbor_def
    by (rule scan_row [OF v]) (simp add: rd_cells [OF v] rds cell_in_row [OF v])
  then have chosen: "has_chosen_neighbor (concat R) s (int (row_start R v))
      (int (row_start R v + length (R ! v))) = Some (\<exists>u \<in> set (R ! v). s ! nat u = IN)"
    by (simp add: run_for_some)
  have cmp': "compare u (int v) = Some (lt (ks ! nat u) (ks ! v))" if "u \<in> set (R ! v)" for u
    using cmp node_graphD [OF g v that] v len unfolding compares_def by simp
  have "is_local_maximum (concat R) s compare (int v) (int (row_start R v))
      (int (row_start R v + length (R ! v))) =
      run_for (R ! v) (\<lambda>u ok. if \<not> ok then Some ok else
         Some (s ! nat u = NOT_IN \<or> lt (ks ! nat u) (ks ! v))) True"
    unfolding is_local_maximum_def
    by (rule scan_row [OF v]) (simp add: rd_cells [OF v] rds cmp' cell_in_row [OF v])
  then have maximal: "is_local_maximum (concat R) s compare (int v) (int (row_start R v))
      (int (row_start R v + length (R ! v))) =
      Some (\<forall>u \<in> set (R ! v). s ! nat u = NOT_IN \<or> lt (ks ! nat u) (ks ! v))"
    by (simp only: run_for_all simp_thms)
  have same: "t[v := s ! v] = t" using t by (metis list_update_id)
  have reads: "rd s (int v) = Some (s ! v)" "rd (offsets (sizes R)) (int v) = Some (int (row_start R v))"
    using v len by (simp_all add: nth_offsets_sizes)
  have "decide_node (offsets (sizes R)) (concat R) compare s (int v) t =
      (if s ! v \<noteq> UNKNOWN then Some t
       else if \<exists>u \<in> set (R ! v). s ! nat u = IN then Some (t[v := NOT_IN])
       else if \<not> (\<forall>u \<in> set (R ! v). s ! nat u = NOT_IN \<or> lt (ks ! nat u) (ks ! v)) then Some t
       else Some (t[v := IN]))"
    unfolding decide_node_def reads rd_offsets_next [OF v] using v t
    by (auto simp: chosen maximal simp del: of_nat_add)
  then show ?thesis using same by (auto simp: decide_def)
qed

lemma local_iteration_eq:
  assumes g: "node_graph R" and len: "length s = length R" "length ks = length R"
    and cmp: "compares compare lt ks"
  shows "local_iteration (offsets (sizes R)) (concat R) s compare = Some (decide_set lt R ks UNIV s)"
proof -
  let ?f = "decide_node (offsets (sizes R)) (concat R) compare s"
  let ?P = "\<lambda>i t. length t = length R \<and>
     (\<forall>v < length R. t ! v = (if int v < i then decide lt R ks s v else s ! v))"
  have n: "asize (offsets (sizes R)) - 1 = int (length R)" by simp
  have "\<exists>t. parallel_for (int (length R)) ?f s = Some t \<and> ?P (int (length R)) t"
  proof (rule parallel_for_rule [where P = ?P])
    show "?P 0 s" using len by simp
    show "0 \<le> int (length R)" by simp
    fix i t assume i: "0 \<le> i" "i < int (length R)" and P: "?P i t"
    let ?v = "nat i"
    have "?f (int ?v) t = Some (t[?v := decide lt R ks s ?v])"
      using i P by (intro decide_node_eq [OF g len cmp]) auto
    moreover have "?P (i + 1) (t[?v := decide lt R ks s ?v])"
      using P i by (auto simp: nth_list_update)
    ultimately show "\<exists>t'. ?f i t = Some t' \<and> ?P (i + 1) t'" using i by auto
  qed
  then obtain t where t: "parallel_for (int (length R)) ?f s = Some t" "?P (int (length R)) t" by blast
  have "t = decide_set lt R ks UNIV s"
    using t(2) by (intro nth_equalityI) (auto simp: nth_decide_set)
  then show ?thesis using t(1) unfolding local_iteration_def n by simp
qed

lemma initial_state_eq: "initial_state c = Some (start c)"
  unfolding initial_state_def start_def by (rule fill_each_map) simp_all

lemma some_unknown_eq:
  assumes "set s \<subseteq> {NOT_IN, IN, UNKNOWN}"
  shows "some_unknown s = Some (UNKNOWN \<in> set s)"
proof -
  have folded: "some_unknown s = Some (foldl max (- 128) s = UNKNOWN)"
    unfolding some_unknown_def transform_reduce_array by simp
  show ?thesis
  proof (cases "s = []")
    case True
    then show ?thesis using folded by simp
  next
    case False
    then have "Max (set s) \<in> set s" by simp
    then have "Max (set s) \<in> {NOT_IN, IN, UNKNOWN}" using assms by blast
    then have "Max (set s) \<le> UNKNOWN" by (elim insertE emptyE) simp_all
    then have "Max (set s) = UNKNOWN" if "UNKNOWN \<in> set s" using that by (intro antisym Max_ge) simp_all
    then have "max (- 128) (Max (set s)) = UNKNOWN \<longleftrightarrow> UNKNOWN \<in> set s"
      using \<open>Max (set s) \<in> set s\<close> by (auto simp: max_def split: if_splits)
    then show ?thesis using False by (simp add: folded foldl_max)
  qed
qed

lemma indset_inv_states: "indset_inv lt R ks c s \<Longrightarrow> set s \<subseteq> {NOT_IN, IN, UNKNOWN}"
proof
  fix x assume inv: "indset_inv lt R ks c s" and "x \<in> set s"
  then obtain v where "v < length R" "x = s ! v" by (auto simp: indset_inv_def in_set_conv_nth)
  then show "x \<in> {NOT_IN, IN, UNKNOWN}" using indset_invD(1) [OF inv] by blast
qed

text \<open>The loop of \<open>indset::find\<close> runs rounds as long as a node is undecided.\<close>

lemma iterate_rounds:
  assumes g: "node_graph R" and ks: "length ks = length R" and cmp: "compares compare lt ks"
    and "\<forall>j < k. UNKNOWN \<in> set ((decide_set lt R ks UNIV ^^ j) s) \<and>
        indset_inv lt R ks c ((decide_set lt R ks UNIV ^^ j) s)"
    and "UNKNOWN \<notin> set ((decide_set lt R ks UNIV ^^ k) s)"
    and "indset_inv lt R ks c ((decide_set lt R ks UNIV ^^ k) s)"
  shows "iterate_until_decided (offsets (sizes R)) (concat R) compare s =
     Some ((decide_set lt R ks UNIV ^^ k) s)"
  using assms(4-6)
proof (induction k arbitrary: s)
  case 0
  then show ?case
    by (subst iterate_until_decided.simps) (simp add: some_unknown_eq [OF indset_inv_states])
next
  case (Suc k)
  let ?f = "decide_set lt R ks UNIV"
  have shift: "(?f ^^ Suc j) s = (?f ^^ j) (?f s)" for j by (simp add: funpow_swap1)
  have now: "UNKNOWN \<in> set s" "indset_inv lt R ks c s" using Suc.prems(1) by (auto dest: spec [of _ 0])
  then have len: "length s = length R" by (simp add: indset_inv_def)
  have "iterate_until_decided (offsets (sizes R)) (concat R) compare (?f s) = Some ((?f ^^ k) (?f s))"
  proof (rule Suc.IH)
    show "\<forall>j < k. UNKNOWN \<in> set ((?f ^^ j) (?f s)) \<and> indset_inv lt R ks c ((?f ^^ j) (?f s))"
      using Suc.prems(1) unfolding shift [symmetric] by blast
    show "UNKNOWN \<notin> set ((?f ^^ k) (?f s))" "indset_inv lt R ks c ((?f ^^ k) (?f s))"
      using Suc.prems(2,3) unfolding shift by blast+
  qed
  moreover have "iterate_until_decided (offsets (sizes R)) (concat R) compare s =
      iterate_until_decided (offsets (sizes R)) (concat R) compare (?f s)"
    using now by (subst iterate_until_decided.simps)
      (simp add: some_unknown_eq [OF indset_inv_states [OF now(2)]] local_iteration_eq [OF g len ks cmp])
  ultimately show ?case unfolding shift by simp
qed

text \<open>The whole search, on inputs of matching sizes.\<close>

definition indset_inputs :: "graph \<Rightarrow> 'q::linorder list \<Rightarrow> lo list \<Rightarrow> lo list \<Rightarrow> bool" where
  "indset_inputs g quality global candidates \<longleftrightarrow> valid_graph g \<and> node_graph (rows g) \<and>
     length quality = length (rows g) \<and> length global = length (rows g) \<and> distinct global \<and>
     length candidates = length (rows g)"

lemma undecided_start: "undecided (start c) = length (filter (\<lambda>x. x \<noteq> 0) c)"
proof -
  have "{v. v < length (start c) \<and> start c ! v = UNKNOWN} = {v. v < length c \<and> c ! v \<noteq> 0}"
    by (auto simp: start_def)
  then show ?thesis by (simp add: undecided_def length_filter_conv_card)
qed

lemma find_indset_rounds:
  assumes "indset_inputs g quality global c"
  defines "f \<equiv> decide_set quality_less (rows g) (zip quality global) UNIV"
  shows "\<exists>k \<le> length (filter (\<lambda>x. x \<noteq> 0) c).
     find_indset g quality global c = Some ((f ^^ k) (start c)) \<and>
     greedy_choice quality_less (rows g) (zip quality global) c ((f ^^ k) (start c)) \<and>
     indset_inv quality_less (rows g) (zip quality global) c ((f ^^ k) (start c))"
proof -
  let ?R = "rows g" and ?ks = "zip quality global"
  have in1: "valid_graph g" "node_graph ?R" "length quality = length ?R" "length global = length ?R"
    "distinct global" "length c = length ?R"
    using assms(1) by (simp_all add: indset_inputs_def)
  have ks: "distinct ?ks" "length ?ks = length ?R" using in1 by (simp_all add: distinct_zipI2)
  have "graph_of ?R = g" by (rule graph_of_rows [OF in1(1)])
  then have arrays: "a2ab g = offsets (sizes ?R)" "ab2b g = concat ?R" by (metis graph_of_simps)+
  have "map fst ?ks = quality" "map snd ?ks = global" using in1 by simp_all
  then have cmp: "compares (quality_compare quality global) quality_less ?ks"
    using quality_compare_eq [of _ ?ks] unfolding compares_def by auto
  obtain k where k: "k \<le> undecided (start c)" "indset_inv quality_less ?R ?ks c ((f ^^ k) (start c))"
    "UNKNOWN \<notin> set ((f ^^ k) (start c))"
    "\<forall>j < k. UNKNOWN \<in> set ((f ^^ j) (start c)) \<and> indset_inv quality_less ?R ?ks c ((f ^^ j) (start c))"
    using quality.rounds_decide [OF in1(2) ks indset_inv_start [OF in1(6)]] unfolding f_def by blast
  have "iterate_until_decided (a2ab g) (ab2b g) (quality_compare quality global) (start c) =
      Some ((f ^^ k) (start c))"
    unfolding arrays f_def
    by (rule iterate_rounds [OF in1(2) ks(2) cmp k(4) [unfolded f_def] k(3) [unfolded f_def]
          k(2) [unfolded f_def]])
  then have "find_indset g quality global c = Some ((f ^^ k) (start c))"
    using in1 by (simp add: find_indset_def indset_find_def initial_state_eq arrays asize_def)
  moreover have "greedy_choice quality_less ?R ?ks c ((f ^^ k) (start c))"
    using k(2,3) by (intro quality.decided_greedy) (auto simp: indset_inv_def in_set_conv_nth)
  ultimately show ?thesis using k(1,2) by (auto simp: undecided_start)
qed

section \<open>The properties\<close>

text \<open>C3.
  \<open>find_indset\<close> ends: on a graph of neighbors (symmetric, without self edges), with distinct global
  numbers, it returns after at most as many rounds as there are candidates, and what it returns is
  an independent set of candidates that no candidate can be added to: a candidate is chosen exactly
  if none of its chosen neighbors beats it in quality (or, at equal quality, in global number), no
  two neighbors are chosen, and a rejected candidate has a chosen neighbor.
\<close>

theorem find_indset_ends_maximal:
  assumes "indset_inputs g quality global candidates"
  shows "\<exists>s. find_indset g quality global candidates = Some s \<and>
     (\<exists>k \<le> length (filter (\<lambda>x. x \<noteq> 0) candidates).
        s = (decide_set quality_less (rows g) (zip quality global) UNIV ^^ k) (start candidates)) \<and>
     length s = length (rows g) \<and>
     (\<forall>v < length (rows g).
        s ! v = (if candidates ! v \<noteq> 0 \<and> \<not> (\<exists>u \<in> set (rows g ! v). s ! nat u = IN \<and>
                    quality_less (quality ! v, global ! v) (quality ! nat u, global ! nat u))
                 then IN else NOT_IN) \<and>
        (s ! v = IN \<longrightarrow> (\<forall>u \<in> set (rows g ! v). s ! nat u = NOT_IN)) \<and>
        (candidates ! v \<noteq> 0 \<and> s ! v = NOT_IN \<longrightarrow> (\<exists>u \<in> set (rows g ! v). s ! nat u = IN)))"
proof -
  let ?R = "rows g" and ?ks = "zip quality global"
  let ?f = "decide_set quality_less ?R ?ks UNIV"
  obtain k where k: "k \<le> length (filter (\<lambda>x. x \<noteq> 0) candidates)"
    "find_indset g quality global candidates = Some ((?f ^^ k) (start candidates))"
    "greedy_choice quality_less ?R ?ks candidates ((?f ^^ k) (start candidates))"
    "indset_inv quality_less ?R ?ks candidates ((?f ^^ k) (start candidates))"
    using find_indset_rounds [OF assms] by blast
  define s where "s = (?f ^^ k) (start candidates)"
  note gr = k(3) [folded s_def] and inv = k(4) [folded s_def]
  have len: "length s = length ?R" "length quality = length ?R" "length global = length ?R"
    and ng: "node_graph ?R"
    using gr assms by (simp_all add: greedy_choice_def indset_inputs_def)
  have v_cases: "s ! v = (if candidates ! v \<noteq> 0 \<and> \<not> (\<exists>u \<in> set (?R ! v). s ! nat u = IN \<and>
                    quality_less (quality ! v, global ! v) (quality ! nat u, global ! nat u))
                 then IN else NOT_IN)" if v: "v < length ?R" for v
  proof -
    have "?ks ! v = (quality ! v, global ! v)" using v len by simp
    moreover have "?ks ! nat u = (quality ! nat u, global ! nat u)" if "u \<in> set (?R ! v)" for u
      using node_graphD [OF ng v that] len by simp
    ultimately show ?thesis
      using gr v unfolding greedy_choice_def by (auto simp: len)
  qed
  have two: "s ! nat u = NOT_IN" if "v < length ?R" "s ! v = IN" "u \<in> set (?R ! v)" for v u
    using indset_invD(3) [OF inv that] v_cases [OF node_graphD(2) [OF ng that(1,3)]]
    by (simp split: if_splits)
  have three: "\<exists>u \<in> set (?R ! v). s ! nat u = IN"
    if "v < length ?R" "candidates ! v \<noteq> 0 \<and> s ! v = NOT_IN" for v
    using indset_invD(5) [OF inv that(1)] that(2) by blast
  show ?thesis
  proof (intro exI [of _ s] conjI allI impI ballI)
    show "find_indset g quality global candidates = Some s" using k(2) by (simp add: s_def)
    show "\<exists>k \<le> length (filter (\<lambda>x. x \<noteq> 0) candidates). s = (?f ^^ k) (start candidates)"
      using k(1) s_def by blast
    show "length s = length ?R" by (rule len(1))
  qed (rule v_cases two three; assumption)+
qed

lemma all_below_4: "(\<forall>v < Suc (Suc (Suc (Suc 0))). P v) \<longleftrightarrow> P 0 \<and> P 1 \<and> P 2 \<and> P (3::nat)"
  by (auto simp: less_Suc_eq numeral_eq_Suc)

lemma path_inputs:
  "indset_inputs (graph_of [[1], [0, 2], [1, 3], [2]]) [1, 1, 2, 1 :: int] [10, 11, 12, 13] [1, 1, 1, 1]"
  by (simp add: indset_inputs_def rows_graph_of node_graph_def all_below_4)

theorem find_indset_ends_maximal_witness:
  "find_indset (graph_of [[1], [0, 2], [1, 3], [2]]) [1, 1, 2, 1 :: int] [10, 11, 12, 13] [1, 1, 1, 1] =
     Some [1, 0, 1, 0]"
proof -
  let ?g = "graph_of [[1], [0, 2], [1, 3], [2]]"
  obtain s where s: "find_indset ?g [1, 1, 2, 1 :: int] [10, 11, 12, 13] [1, 1, 1, 1] = Some s"
    "length s = 4" "s ! 0 = IN" "s ! 1 = NOT_IN" "s ! 2 = IN" "s ! 3 = NOT_IN"
    using find_indset_ends_maximal [OF path_inputs]
    by (auto simp: rows_graph_of all_below_4 quality_less_def)
  moreover have "s = [s ! 0, s ! 1, s ! 2, s ! 3]"
    using s(2) by (auto simp: length_Suc_conv numeral_eq_Suc)
  ultimately show ?thesis by simp
qed

end
