(* ===== verification/Int128.thy ===== *)
theory Int128
  imports Omega_Prelude Array_Ops "HOL-Library.Word" "HOL-Library.Multiset"
begin

text \<open>
  128-bit integers (\<open>src/src/Omega_h_int128.hpp\<close>, \<open>Omega_h_int128.cpp\<close>) and the reproducible sum
  over them (\<open>int128_sum\<close> in \<open>src/src/Omega_h_array_ops.cpp\<close>).

  A number is a signed high word and an unsigned low word.  Unsigned arithmetic wraps; signed
  arithmetic that overflows and a shift by a negative amount or by the width or more are undefined
  in C++, here \<^term>\<open>None\<close>.  The abstraction \<open>value\<close> reads the pair as an integer, and the operations
  are shown to be exact on it whenever they are defined.
\<close>

unbundle bit_operations_syntax

section \<open>The operations\<close>

record int128 =
  high :: "64 word"
  low :: "64 word"

definition i64_ok :: "int \<Rightarrow> bool" where
  "i64_ok v \<longleftrightarrow> - (2 ^ 63) \<le> v \<and> v < 2 ^ 63"

definition sadd64 :: "64 word \<Rightarrow> 64 word \<Rightarrow> 64 word option" where
  "sadd64 a b = do { omega_check (i64_ok (sint a + sint b)); Some (a + b) }"

definition ssub64 :: "64 word \<Rightarrow> 64 word \<Rightarrow> 64 word option" where
  "ssub64 a b = do { omega_check (i64_ok (sint a - sint b)); Some (a - b) }"

definition shift_ok :: "int \<Rightarrow> bool" where
  "shift_ok expo \<longleftrightarrow> 0 \<le> expo \<and> expo < 64"

definition ushr64 :: "64 word \<Rightarrow> int \<Rightarrow> 64 word option" where
  "ushr64 a expo = do { omega_check (shift_ok expo); Some (drop_bit (nat expo) a) }"

definition ushl64 :: "64 word \<Rightarrow> int \<Rightarrow> 64 word option" where
  "ushl64 a expo = do { omega_check (shift_ok expo); Some (push_bit (nat expo) a) }"

definition sshr64 :: "64 word \<Rightarrow> int \<Rightarrow> 64 word option" where
  "sshr64 a expo = do { omega_check (shift_ok expo); Some (signed_drop_bit (nat expo) a) }"

definition int128_of :: "64 word \<Rightarrow> int128" where
  "int128_of v = \<lparr>high = - (if v <s 0 then 1 else 0), low = v\<rparr>"

definition int128_plus :: "int128 \<Rightarrow> int128 \<Rightarrow> int128 option" where
  "int128_plus lhs rhs = do {
     sum_high \<leftarrow> sadd64 (high lhs) (high rhs);
     let sum_low = low lhs + low rhs;
     sum_high \<leftarrow> sadd64 sum_high (if sum_low < low lhs then 1 else 0);
     Some \<lparr>high = sum_high, low = sum_low\<rparr>
   }"

definition int128_minus :: "int128 \<Rightarrow> int128 \<Rightarrow> int128 option" where
  "int128_minus lhs rhs = do {
     difference_high \<leftarrow> ssub64 (high lhs) (high rhs);
     let difference_low = low lhs - low rhs;
     difference_high \<leftarrow> ssub64 difference_high (if low lhs < difference_low then 1 else 0);
     Some \<lparr>high = difference_high, low = difference_low\<rparr>
   }"

definition int128_uminus :: "int128 \<Rightarrow> int128 option" where
  "int128_uminus x = int128_minus (int128_of 0) x"

definition int128_shiftr :: "int128 \<Rightarrow> int \<Rightarrow> int128 option" where
  "int128_shiftr x expo = do {
     l \<leftarrow> ushr64 (low x) expo;
     h \<leftarrow> ushl64 (high x) (64 - expo);
     s \<leftarrow> sshr64 (high x) expo;
     Some \<lparr>high = s, low = l OR h\<rparr>
   }"

definition int128_eq :: "int128 \<Rightarrow> int128 \<Rightarrow> bool" where
  "int128_eq lhs rhs \<longleftrightarrow> high lhs = high rhs \<and> low lhs = low rhs"

definition int128_less :: "int128 \<Rightarrow> int128 \<Rightarrow> bool" where
  "int128_less lhs rhs = (if high lhs \<noteq> high rhs then high lhs <s high rhs else low lhs < low rhs)"

text \<open>
  \<open>to_double\<close> takes the magnitude and halves it until it fits the low word, doubling the unit each
  time; the model returns the low word, the number of halvings and the sign, the product with the
  unit being a floating-point operation.
\<close>

partial_function (option) halve_to_low :: "int128 \<Rightarrow> int \<Rightarrow> (64 word \<times> int) option" where
  "halve_to_low tmp k =
     (if high tmp \<noteq> 0 then do {
        tmp \<leftarrow> int128_shiftr tmp 1;
        halve_to_low tmp (k + 1)
      } else Some (low tmp, k))"

definition to_double_parts :: "int128 \<Rightarrow> (64 word \<times> int \<times> bool) option" where
  "to_double_parts x = do {
     tmp \<leftarrow> (if int128_less x (int128_of 0) then int128_uminus x else Some x);
     (m, k) \<leftarrow> halve_to_low tmp 0;
     Some (m, k, int128_less x (int128_of 0))
   }"

text \<open>
  The sum of an array of numbers, given their fixed-point form \<open>normalized\<close>, the conversion to 64
  bits of the quotient by the unit.
\<close>

definition int128_sum :: "('r \<Rightarrow> 64 word) \<Rightarrow> 'r list \<Rightarrow> int128 option" where
  "int128_sum normalized a =
     (if asize a = 0 then Some (int128_of 0)
      else for_range 0 (asize a) (\<lambda>i init. do {
        x \<leftarrow> rd a i;
        int128_plus init (int128_of (normalized x))
      }) (int128_of 0))"

section \<open>The integer a pair stands for\<close>

definition int128_value :: "int128 \<Rightarrow> int" where
  "int128_value x = sint (high x) * 2 ^ 64 + uint (low x)"

lemma i64_ok_sint [simp]: "i64_ok (sint (a :: 64 word))"
  using sint_ge [of a] sint_lt [of a] by (simp add: i64_ok_def)

lemma sint_of_ok: "i64_ok v \<Longrightarrow> sint (word_of_int v :: 64 word) = v"
  by (simp add: i64_ok_def sint_sbintrunc' signed_take_bit_int_eq_self)

lemma sint_inject64: "sint (a :: 64 word) = sint b \<longleftrightarrow> a = b"
  by (auto intro: signed_word_eqI)

lemma sadd64_eq: "sadd64 a b = (if i64_ok (sint a + sint b) then Some (a + b) else None)"
  by (simp add: sadd64_def)

lemma ssub64_eq: "ssub64 a b = (if i64_ok (sint a - sint b) then Some (a - b) else None)"
  by (simp add: ssub64_def)

lemma sint_plus: "i64_ok (sint a + sint b) \<Longrightarrow> sint (a + b) = sint a + sint (b :: 64 word)"
  using sint_of_ok [of "sint a + sint b"] by simp

lemma sint_minus: "i64_ok (sint a - sint b) \<Longrightarrow> sint (a - b) = sint a - sint (b :: 64 word)"
  using sint_of_ok [of "sint a - sint b"] by simp

lemma uint64: "0 \<le> uint (a :: 64 word)" "uint a < 2 ^ 64"
  using uint_lt2p [of a] by simp_all

lemma low_plus:
  "uint (a + b :: 64 word) = uint a + uint b - (if a + b < a then 2 ^ 64 else 0)"
  using uint64 [of a] uint64 [of b] by (auto simp: uint_plus_if' word_less_def)

lemma low_minus:
  "uint (a - b :: 64 word) = uint a - uint b + (if a < a - b then 2 ^ 64 else 0)"
  using uint64 [of a] uint64 [of b] by (auto simp: uint_sub_if' word_less_def)

lemma pair_bounds:
  fixes h l :: int
  assumes "- (2 ^ 63) \<le> h" "h < 2 ^ 63" "0 \<le> l" "l < 2 ^ 64"
  shows "- (2 ^ 127) \<le> h * 2 ^ 64 + l" "h * 2 ^ 64 + l < 2 ^ 127"
  using assms by simp_all

lemma sint64: "- (2 ^ 63) \<le> sint (a :: 64 word)" "sint a < 2 ^ 63"
  using i64_ok_sint [of a] by (simp_all add: i64_ok_def)

lemma int128_range: "- (2 ^ 127) \<le> int128_value x" "int128_value x < 2 ^ 127"
  unfolding int128_value_def by (rule pair_bounds [OF sint64 uint64])+

lemma high_low_value:
  "sint (high x) = int128_value x div 2 ^ 64" "uint (low x) = int128_value x mod 2 ^ 64"
  using uint64 [of "low x"] by (simp_all add: int128_value_def)

lemma value_eq_pair:
  assumes "0 \<le> l" "l < 2 ^ 64"
  shows "int128_value z = h * 2 ^ 64 + l \<longleftrightarrow> sint (high z) = h \<and> uint (low z) = l"
proof
  assume v: "int128_value z = h * 2 ^ 64 + l"
  have "(h * 2 ^ 64 + l) div 2 ^ 64 = h" "(h * 2 ^ 64 + l) mod 2 ^ 64 = l" using assms by simp_all
  then show "sint (high z) = h \<and> uint (low z) = l" unfolding high_low_value v by blast
qed (simp add: int128_value_def)

lemma int128_value_inject: "int128_value x = int128_value y \<longleftrightarrow> x = y"
proof
  assume "int128_value x = int128_value y"
  then have "sint (high x) = sint (high y)" "uint (low x) = uint (low y)" by (simp_all add: high_low_value)
  then show "x = y" by (cases x, cases y) (simp add: sint_inject64 word_uint_eq_iff)
qed simp

lemma value_int128_of: "int128_value (int128_of v) = sint v"
proof -
  have "uint v = sint v + (if sint v < 0 then 2 ^ 64 else 0)"
  proof -
    have "uint v = sint v mod 2 ^ 64" by (simp add: uint_sint take_bit_eq_mod)
    moreover have v: "- (2 ^ 63) \<le> sint v" "sint v < 2 ^ 63"
      by (rule sint64)+
    moreover have "sint v mod 2 ^ 64 = sint v + 2 ^ 64" if "sint v < 0"
    proof -
      have "sint v mod 2 ^ 64 = (sint v + 2 ^ 64) mod 2 ^ 64" by simp
      also have "\<dots> = sint v + 2 ^ 64" using v that by (intro mod_pos_pos_trivial) simp_all
      finally show ?thesis .
    qed
    ultimately show ?thesis by simp
  qed
  then show ?thesis by (simp add: int128_value_def int128_of_def word_sless_alt)
qed

section \<open>Exactness of the operations\<close>

lemma int128_plus_eq: "int128_plus x y = Some z \<longleftrightarrow>
   i64_ok (sint (high x) + sint (high y)) \<and> int128_value z = int128_value x + int128_value y"
proof -
  let ?h = "sint (high x) + sint (high y)" and ?c = "low x + low y < low x"
  let ?l = "uint (low x) + uint (low y) - (if ?c then 2 ^ 64 else 0)"
  have l: "uint (low x + low y) = ?l" by (rule low_plus)
  have one: "sint (if ?c then 1 else 0 :: 64 word) = (if ?c then 1 else 0)" by simp
  have total: "int128_value x + int128_value y = (?h + (if ?c then 1 else 0)) * 2 ^ 64 + ?l"
    by (simp add: int128_value_def algebra_simps)
  have "int128_plus x y = Some z \<longleftrightarrow> i64_ok ?h \<and> i64_ok (?h + (if ?c then 1 else 0)) \<and>
      sint (high z) = ?h + (if ?c then 1 else 0) \<and> low z = low x + low y"
    by (cases "i64_ok ?h"; cases "i64_ok (?h + (if ?c then 1 else 0))"; cases z)
      (auto simp: int128_plus_def Let_def sadd64_eq sint_plus one simp flip: sint_inject64)
  moreover have "int128_value z = int128_value x + int128_value y \<longleftrightarrow>
      sint (high z) = ?h + (if ?c then 1 else 0) \<and> low z = low x + low y"
    unfolding total word_uint_eq_iff l [symmetric] by (rule value_eq_pair) (rule uint64)+
  moreover have "i64_ok (?h + (if ?c then 1 else 0))" if "sint (high z) = ?h + (if ?c then 1 else 0)"
    using that [symmetric] by (simp only: i64_ok_sint)
  ultimately show ?thesis by blast
qed

lemma int128_minus_eq: "int128_minus x y = Some z \<longleftrightarrow>
   i64_ok (sint (high x) - sint (high y)) \<and> int128_value z = int128_value x - int128_value y"
proof -
  let ?h = "sint (high x) - sint (high y)" and ?c = "low x < low x - low y"
  let ?l = "uint (low x) - uint (low y) + (if ?c then 2 ^ 64 else 0)"
  have l: "uint (low x - low y) = ?l" by (rule low_minus)
  have one: "sint (if ?c then 1 else 0 :: 64 word) = (if ?c then 1 else 0)" by simp
  have total: "int128_value x - int128_value y = (?h - (if ?c then 1 else 0)) * 2 ^ 64 + ?l"
    by (simp add: int128_value_def algebra_simps)
  have "int128_minus x y = Some z \<longleftrightarrow> i64_ok ?h \<and> i64_ok (?h - (if ?c then 1 else 0)) \<and>
      sint (high z) = ?h - (if ?c then 1 else 0) \<and> low z = low x - low y"
    by (cases "i64_ok ?h"; cases "i64_ok (?h - (if ?c then 1 else 0))"; cases z)
      (auto simp: int128_minus_def Let_def ssub64_eq sint_minus one simp flip: sint_inject64)
  moreover have "int128_value z = int128_value x - int128_value y \<longleftrightarrow>
      sint (high z) = ?h - (if ?c then 1 else 0) \<and> low z = low x - low y"
    unfolding total word_uint_eq_iff l [symmetric] by (rule value_eq_pair) (rule uint64)+
  moreover have "i64_ok (?h - (if ?c then 1 else 0))" if "sint (high z) = ?h - (if ?c then 1 else 0)"
    using that [symmetric] by (simp only: i64_ok_sint)
  ultimately show ?thesis by blast
qed

text \<open>Every integer of the range is the value of a pair.\<close>

lemma int128_value_surj:
  assumes "- (2 ^ 127) \<le> v" "v < 2 ^ 127"
  shows "\<exists>z. int128_value z = v"
proof
  have "i64_ok (v div 2 ^ 64)" using assms by (auto simp: i64_ok_def)
  then show "int128_value \<lparr>high = word_of_int (v div 2 ^ 64), low = word_of_int v\<rparr> = v"
    by (simp add: int128_value_def sint_of_ok uint_word_of_int)
qed

lemma int128_plus_defined:
  assumes "i64_ok (sint (high x) + sint (high y))"
    and "- (2 ^ 127) \<le> int128_value x + int128_value y" "int128_value x + int128_value y < 2 ^ 127"
  shows "\<exists>z. int128_plus x y = Some z"
  using int128_value_surj [OF assms(2,3)] assms(1) by (auto simp: int128_plus_eq)

lemma small_high:
  assumes "- (2 ^ 126) \<le> int128_value x" "int128_value x < 2 ^ 126"
  shows "- (2 ^ 62) \<le> sint (high x)" "sint (high x) < 2 ^ 62"
  using assms unfolding high_low_value by auto

lemma int128_plus_small:
  assumes "- (2 ^ 126) \<le> int128_value x" "int128_value x < 2 ^ 126"
    and "- (2 ^ 126) \<le> int128_value y" "int128_value y < 2 ^ 126"
  shows "\<exists>z. int128_plus x y = Some z \<and> int128_value z = int128_value x + int128_value y"
proof -
  have "i64_ok (sint (high x) + sint (high y))"
    using small_high [OF assms(1,2)] small_high [OF assms(3,4)] by (simp add: i64_ok_def)
  then show ?thesis using int128_plus_defined [of x y] assms by (auto simp: int128_plus_eq)
qed

lemma int128_uminus_eq: "int128_uminus x = Some z \<longleftrightarrow>
   sint (high x) \<noteq> - (2 ^ 63) \<and> int128_value z = - int128_value x"
proof -
  have "i64_ok (- sint (high x)) \<longleftrightarrow> sint (high x) \<noteq> - (2 ^ 63)"
    using sint64 [of "high x"] by (auto simp: i64_ok_def)
  moreover have "sint (high (int128_of 0)) = 0" by (simp add: int128_of_def)
  moreover have "int128_value (int128_of 0) = 0" by (simp add: value_int128_of)
  ultimately show ?thesis by (simp add: int128_uminus_def int128_minus_eq)
qed

lemma pair_less:
  fixes h l :: int
  assumes "h < h'" "l < 2 ^ 64" "0 \<le> l'"
  shows "h * 2 ^ 64 + l < h' * 2 ^ 64 + l'"
  using assms by simp

lemma int128_less_eq: "int128_less x y \<longleftrightarrow> int128_value x < int128_value y"
proof (cases "high x = high y")
  case True
  then show ?thesis by (simp add: int128_less_def int128_value_def word_less_def)
next
  case False
  then have "sint (high x) \<noteq> sint (high y)" by (simp add: sint_inject64)
  then consider "sint (high x) < sint (high y)" | "sint (high y) < sint (high x)" by linarith
  then show ?thesis
  proof cases
    case 1
    from pair_less [OF this uint64(2) uint64(1), of "low x" "low y"]
    show ?thesis using False 1 by (simp add: int128_less_def int128_value_def word_sless_alt)
  next
    case 2
    from pair_less [OF this uint64(2) uint64(1), of "low y" "low x"]
    show ?thesis using False 2 by (simp add: int128_less_def int128_value_def word_sless_alt)
  qed
qed

lemma int128_shiftr_eq: "int128_shiftr x e =
   (if 0 < e \<and> e < 64 then Some \<lparr>high = signed_drop_bit (nat e) (high x),
      low = drop_bit (nat e) (low x) OR push_bit (nat (64 - e)) (high x)\<rparr> else None)"
  by (auto simp: int128_shiftr_def ushr64_def ushl64_def sshr64_def shift_ok_def)

lemma int128_shiftr_value:
  assumes "0 < e" "e < 64" "int128_shiftr x e = Some z"
  shows "int128_value z = int128_value x div 2 ^ nat e"
proof -
  let ?k = "nat e"
  have k: "0 < ?k" "?k < 64" "nat (64 - e) = 64 - ?k" using assms(1,2) by auto
  have z: "high z = signed_drop_bit ?k (high x)" "low z = drop_bit ?k (low x) OR push_bit (64 - ?k) (high x)"
    using assms k(3) by (simp_all add: int128_shiftr_eq) (auto simp: k(3))
  have val: "int128_value x = concat_bit 64 (uint (low x)) (sint (high x))"
    using take_bit_int_eq_self [OF uint64, of "low x"]
    by (simp add: int128_value_def concat_bit_eq push_bit_eq_mult del: take_bit_int_eq_self_iff)
  have "bit (uint (low z)) n = bit (take_bit 64 (drop_bit ?k (int128_value x))) n" for n
  proof (cases "n < 64 \<and> 64 \<le> n + ?k")
    case True
    define j where "j = n + ?k - 64"
    have j: "n = 64 - ?k + j" "n + ?k = 64 + j" "j < 63" using True k by (auto simp: j_def)
    have out: "\<not> bit (low x) (64 + j)" using bit_imp_le_length [of "low x" "64 + j"] by auto
    have "bit (low z) n \<longleftrightarrow> bit (high x) j"
      unfolding z(2) bit_or_iff bit_drop_bit_eq o_def add.commute [of ?k n] j(2)
      using out True by (simp add: bit_push_bit_iff j(1))
    moreover have "bit (int128_value x) (n + ?k) \<longleftrightarrow> bit (high x) j"
      unfolding val j(2) using j(3) by (simp add: bit_concat_bit_iff bit_sint_iff)
    ultimately show ?thesis
      using True by (simp add: bit_uint_iff bit_take_bit_iff bit_drop_bit_eq add.commute)
  next
    case False
    then show ?thesis
      by (auto simp: z(2) val bit_take_bit_iff bit_drop_bit_eq bit_concat_bit_iff bit_uint_iff
          bit_or_iff bit_push_bit_iff add.commute)
  qed
  then have "uint (low z) = take_bit 64 (drop_bit ?k (int128_value x))" by (intro bit_eqI)
  then have "uint (low z) = int128_value x div 2 ^ ?k mod 2 ^ 64"
    by (simp only: take_bit_eq_mod drop_bit_eq_div)
  moreover have "sint (high z) = int128_value x div 2 ^ ?k div 2 ^ 64"
  proof -
    have "int128_value x div 2 ^ ?k div 2 ^ 64 = int128_value x div 2 ^ 64 div 2 ^ ?k"
      unfolding drop_bit_eq_div [symmetric] drop_bit_drop_bit by (simp add: add.commute)
    then show ?thesis using k(2)
      by (simp add: z(1) sint_signed_drop_bit_eq drop_bit_eq_div high_low_value)
  qed
  ultimately show ?thesis
    by (metis div_mult_mod_eq int128_value_def)
qed

section \<open>The magnitude for \<open>to_double\<close>\<close>

lemma halve_to_low_value:
  assumes "0 \<le> int128_value x"
  shows "\<exists>m d. halve_to_low x k = Some (m, k + int d) \<and> d < 64 \<and>
     uint m = int128_value x div 2 ^ d \<and> (d = 0 \<or> 2 ^ 64 \<le> int128_value x div 2 ^ (d - 1))"
proof -
  have "\<exists>m d. halve_to_low x k = Some (m, k + int d) \<and> d \<le> n \<and>
     uint m = int128_value x div 2 ^ d \<and> (d = 0 \<or> 2 ^ 64 \<le> int128_value x div 2 ^ (d - 1))"
    if "0 \<le> int128_value x" "int128_value x < 2 ^ (64 + n)" for n
    using that
  proof (induction n arbitrary: x k)
    case 0
    then have "sint (high x) = 0" unfolding high_low_value by simp
    then have "high x = 0" using sint_inject64 [of "high x" 0] by simp
    then show ?case by (subst halve_to_low.simps) (auto simp: int128_value_def intro: exI [of _ 0])
  next
    case (Suc n)
    show ?case
    proof (cases "high x = 0")
      case True
      then show ?thesis by (subst halve_to_low.simps) (auto simp: int128_value_def intro: exI [of _ 0])
    next
      case False
      then have "sint (high x) \<noteq> 0" using sint_inject64 [of "high x" 0] by simp
      then have big: "2 ^ 64 \<le> int128_value x" using Suc.prems(1) unfolding high_low_value
        by (metis div_pos_pos_trivial linorder_not_less)
      obtain y where y: "int128_shiftr x 1 = Some y" by (simp add: int128_shiftr_eq)
      have vy: "int128_value y = int128_value x div 2"
        using int128_shiftr_value [OF _ _ y] by simp
      have "int128_value x < 2 * 2 ^ (64 + n)" using Suc.prems(2) unfolding add_Suc_right power_Suc .
      then have half: "int128_value y < 2 ^ (64 + n)" "0 \<le> int128_value y"
        using Suc.prems(1) unfolding vy by auto
      obtain m d where IH: "halve_to_low y (k + 1) = Some (m, k + 1 + int d)" "d \<le> n"
        "uint m = int128_value y div 2 ^ d" "d = 0 \<or> 2 ^ 64 \<le> int128_value y div 2 ^ (d - 1)"
        using Suc.IH [OF half(2,1), of "k + 1"] by blast
      have "halve_to_low x k = Some (m, k + int (Suc d))"
        using False y IH(1) by (subst halve_to_low.simps) simp
      moreover have "uint m = int128_value x div 2 ^ Suc d"
        using IH(3) vy by (simp add: zdiv_zmult2_eq)
      moreover have "2 ^ 64 \<le> int128_value x div 2 ^ (Suc d - 1)"
        using IH(4) vy big by (cases d) (auto simp: zdiv_zmult2_eq)
      ultimately show ?thesis using IH(2) by (intro exI [of _ m], intro exI [of _ "Suc d"]) simp
    qed
  qed
  from this [of 63] show ?thesis using assms int128_range(2) [of x] by auto
qed

section \<open>The reproducible sum\<close>

lemma int128_sum_loop:
  assumes "int (length a) \<le> 2 ^ 62"
  shows "\<exists>z. int128_sum normalized a = Some z \<and> int128_value z = (\<Sum>x \<leftarrow> a. sint (normalized x))"
proof -
  let ?f = "\<lambda>i init. do { x \<leftarrow> rd a i; int128_plus init (int128_of (normalized x)) }"
  let ?s = "\<lambda>i. \<Sum>x \<leftarrow> take (nat i) a. sint (normalized x)"
  let ?P = "\<lambda>i z. int128_value z = ?s i \<and> \<bar>?s i\<bar> \<le> i * 2 ^ 63"
  have "\<exists>z. for_range 0 (asize a) ?f (int128_of 0) = Some z \<and> ?P (asize a) z"
  proof (rule for_range_rule [where P = ?P])
    show "?P 0 (int128_of 0)" by (simp add: value_int128_of)
    show "0 \<le> asize a" by simp
    fix i z assume i: "0 \<le> i" "i < asize a" and P: "?P i z"
    let ?x = "normalized (a ! nat i)"
    have len: "nat i < length a" "i + 1 \<le> 2 ^ 62" using i assms by (auto simp: asize_def)
    have next_sum: "?s (i + 1) = ?s i + sint ?x"
      using i len(1) by (simp add: nat_add_distrib take_Suc_conv_app_nth)
    have x: "\<bar>sint ?x\<bar> \<le> 2 ^ 63" using sint64 [of ?x] by simp
    have "\<bar>?s i\<bar> \<le> i * 2 ^ 63" using P by blast
    then have "\<bar>?s (i + 1)\<bar> \<le> (i + 1) * 2 ^ 63" unfolding next_sum using x by (simp add: algebra_simps)
    moreover have "\<exists>z'. int128_plus z (int128_of ?x) = Some z' \<and> int128_value z' = int128_value z + sint ?x"
    proof -
      have "i * 2 ^ 63 \<le> (2 ^ 62 - 1) * 2 ^ 63" using len(2) by (intro mult_right_mono) simp_all
      then have b: "\<bar>int128_value z\<bar> < 2 ^ 126" using P by simp
      have c: "\<bar>int128_value (int128_of ?x)\<bar> < 2 ^ 126" unfolding value_int128_of using x by simp
      show ?thesis
        using int128_plus_small [of z "int128_of ?x"] b c unfolding value_int128_of abs_less_iff
        by simp
    qed
    ultimately show "\<exists>z'. ?f i z = Some z' \<and> ?P (i + 1) z'"
      using i P next_sum by (auto simp: rd_Some)
  qed
  then obtain z where z: "for_range 0 (asize a) ?f (int128_of 0) = Some z" "?P (asize a) z" by blast
  have "nat (asize a) = length a" by (simp add: asize_def)
  then show ?thesis
    using z by (cases "a = []") (auto simp: int128_sum_def value_int128_of asize_def)
qed

lemma to_double_parts_value:
  assumes "sint (high x) \<noteq> - (2 ^ 63)"
  shows "\<exists>m d. to_double_parts x = Some (m, int d, int128_value x < 0) \<and>
     uint m = \<bar>int128_value x\<bar> div 2 ^ d \<and> (d = 0 \<or> 2 ^ 64 \<le> \<bar>int128_value x\<bar> div 2 ^ (d - 1))"
proof -
  have zero: "int128_value (int128_of 0) = 0" by (simp add: value_int128_of)
  have "\<exists>t. (if int128_less x (int128_of 0) then int128_uminus x else Some x) = Some t \<and>
      int128_value t = \<bar>int128_value x\<bar>"
  proof (cases "int128_value x < 0")
    case True
    then have "- (2 ^ 127) \<le> - int128_value x" "- int128_value x < 2 ^ 127"
    proof -
      have "sint (high x) > - (2 ^ 63)" using sint64(1) [of "high x"] assms by simp
      then have "- (2 ^ 63) * 2 ^ 64 + 0 < int128_value x"
        unfolding int128_value_def by (intro pair_less uint64) simp_all
      then show "- int128_value x < 2 ^ 127" by simp
      show "- (2 ^ 127) \<le> - int128_value x" using True by simp
    qed
    then obtain t where "int128_value t = - int128_value x" using int128_value_surj by blast
    then show ?thesis using True assms by (auto simp: int128_less_eq zero int128_uminus_eq)
  qed (simp add: int128_less_eq zero)
  then obtain t where t: "(if int128_less x (int128_of 0) then int128_uminus x else Some x) = Some t"
    "int128_value t = \<bar>int128_value x\<bar>" by blast
  obtain m d where "halve_to_low t 0 = Some (m, 0 + int d)" "uint m = int128_value t div 2 ^ d"
    "d = 0 \<or> 2 ^ 64 \<le> int128_value t div 2 ^ (d - 1)"
    using halve_to_low_value [of t 0] t(2) by auto
  then show ?thesis
    using t(2) unfolding to_double_parts_def t(1)
    by (intro exI [of _ m], intro exI [of _ d]) (simp add: int128_less_eq zero)
qed

section \<open>The properties\<close>

text \<open>C34.
  The 128-bit integers refine the integers: the value of a pair identifies it, comparison compares
  values, a conversion keeps the value, and sum, difference, negation and right shift are exact
  whenever they are defined, which they are unless the high words overflow (or the shift is by 0,
  where the code shifts a word by its whole width, or by 64 and more).
\<close>

theorem int128_refines_integers:
  "(int128_eq x y \<longleftrightarrow> int128_value x = int128_value y) \<and>
   (int128_less x y \<longleftrightarrow> int128_value x < int128_value y) \<and>
   int128_value (int128_of v) = sint v \<and>
   (int128_plus x y = Some z \<longleftrightarrow>
      i64_ok (sint (high x) + sint (high y)) \<and> int128_value z = int128_value x + int128_value y) \<and>
   (int128_minus x y = Some z \<longleftrightarrow>
      i64_ok (sint (high x) - sint (high y)) \<and> int128_value z = int128_value x - int128_value y) \<and>
   (int128_uminus x = Some z \<longleftrightarrow>
      sint (high x) \<noteq> - (2 ^ 63) \<and> int128_value z = - int128_value x) \<and>
   (int128_shiftr x e = Some z \<longleftrightarrow>
      0 < e \<and> e < 64 \<and> int128_value z = int128_value x div 2 ^ nat e)"
proof (intro conjI)
  show "int128_eq x y \<longleftrightarrow> int128_value x = int128_value y"
    unfolding int128_value_inject by (cases x, cases y) (simp add: int128_eq_def)
  show "int128_shiftr x e = Some z \<longleftrightarrow> 0 < e \<and> e < 64 \<and> int128_value z = int128_value x div 2 ^ nat e"
  proof (cases "0 < e \<and> e < 64")
    case True
    then obtain t where t: "int128_shiftr x e = Some t" by (simp add: int128_shiftr_eq)
    have "int128_value t = int128_value x div 2 ^ nat e" using int128_shiftr_value [OF _ _ t] True by blast
    then show ?thesis using True t int128_value_inject [of z t] by auto
  next
    case False
    then show ?thesis by (auto simp: int128_shiftr_eq)
  qed
qed (rule int128_less_eq value_int128_of int128_plus_eq int128_minus_eq int128_uminus_eq)+

text \<open>C35.
  The reproducible sum: over an array of at most \<open>2 ^ 62\<close> numbers the accumulation in 128 bits never
  overflows, its value is the exact sum of the fixed-point forms, so every order of the numbers
  gives the same result; \<open>to_double\<close> then reduces its magnitude to the leading 64 bits and a number
  of doublings of the unit, in a loop that ends.
\<close>

theorem int128_sum_reproducible:
  assumes "int (length a) \<le> 2 ^ 62" and "mset a = mset b"
  shows "\<exists>z m d. int128_sum normalized a = Some z \<and> int128_sum normalized b = Some z \<and>
     int128_value z = (\<Sum>x \<leftarrow> a. sint (normalized x)) \<and>
     to_double_parts z = Some (m, int d, int128_value z < 0) \<and>
     uint m = \<bar>int128_value z\<bar> div 2 ^ d \<and> (d = 0 \<or> 2 ^ 64 \<le> \<bar>int128_value z\<bar> div 2 ^ (d - 1))"
proof -
  have "length b = length a" using assms(2) by (metis size_mset)
  moreover have "(\<Sum>x \<leftarrow> a. sint (normalized x)) = (\<Sum>x \<leftarrow> b. sint (normalized x))"
    using assms(2) by (metis mset_map sum_mset_sum_list)
  ultimately obtain y z where z: "int128_sum normalized a = Some z"
    "int128_value z = (\<Sum>x \<leftarrow> a. sint (normalized x))"
    and y: "int128_sum normalized b = Some y" "int128_value y = int128_value z"
    using int128_sum_loop [of a normalized] int128_sum_loop [of b normalized] assms(1) by auto
  have "\<bar>\<Sum>x \<leftarrow> a. sint (normalized x)\<bar> \<le> int (length a) * 2 ^ 63"
  proof (induction a)
    case (Cons x a)
    then show ?case using sint64 [of "normalized x"] by (simp add: algebra_simps)
  qed simp
  also have "\<dots> \<le> 2 ^ 62 * 2 ^ 63" using assms(1) by (intro mult_right_mono) simp_all
  finally have "\<bar>int128_value z\<bar> < 2 ^ 126" unfolding z(2) by simp
  then have "- (2 ^ 62) \<le> sint (high z)" using small_high [of z] by simp
  then have "sint (high z) \<noteq> - (2 ^ 63)" by auto
  then show ?thesis
    using to_double_parts_value [of z] z y unfolding int128_value_inject by blast
qed

theorem int128_sum_reproducible_witness:
  "\<exists>z. int128_sum (word_of_int :: int \<Rightarrow> 64 word) [1, 2, - 5] = Some z \<and>
     int128_sum word_of_int [- 5, 1, 2 :: int] = Some z \<and> int128_value z = - 2"
proof -
  have "int (length [1, 2, - 5 :: int]) \<le> 2 ^ 62" "mset [1, 2, - 5 :: int] = mset [- 5, 1, 2]"
    by simp_all
  from int128_sum_reproducible [OF this, of word_of_int]
  show ?thesis by (auto simp: sint_of_ok i64_ok_def)
qed

text \<open>The sum of two numbers can be in range although the sum of the high words overflows.\<close>

lemma int128_plus_partial:
  "int128_plus \<lparr>high = - (2 ^ 63), low = - 1\<rparr> \<lparr>high = - 1, low = - 1\<rparr> = None"
  "- (2 ^ 127) \<le> int128_value \<lparr>high = - (2 ^ 63), low = - 1\<rparr> + int128_value \<lparr>high = - 1, low = - 1\<rparr>"
  by (simp_all add: int128_plus_def sadd64_def i64_ok_def int128_value_def unsigned_minus_1_eq_mask
      mask_eq_exp_minus_1)

end
