(* ===== verification/Finite_Automaton.thy ===== *)
theory Finite_Automaton
  imports Omega_Prelude Fans
begin

text \<open>
  Finite automata (\<open>src/src/Omega_h_finite_automaton.hpp/.cpp\<close>, \<open>Omega_h_table.hpp\<close>,
  \<open>Omega_h_std_vector.hpp\<close>), with which the readers split their input into tokens.

  An automaton is a table of next states (a row per state, a column per symbol; -1 for none), the
  token each state accepts (-1 for none) and a flag; the table of an automaton that is not
  deterministic has two more columns, for two kinds of epsilon transitions.  State 0 is the start.
  The first section translates the operations; \<open>fa_rows\<close> reads the table by rows, and \<open>recognizes\<close>
  is the meaning of an automaton: the tokens of the states that a word can lead to.

  The combinations \<open>unite\<close>, \<open>concat\<close>, \<open>plus\<close>, \<open>maybe\<close>, \<open>star\<close> are shown to recognize what their names say,
  for automata whose accepting states have no transitions (\<open>sinks\<close>), which every construction
  preserves.
\<close>

section \<open>Tables\<close>

record tbl =
  tdata :: "int list"
  tncols :: int

definition new_table :: "int \<Rightarrow> int \<Rightarrow> tbl option" where
  "new_table ncols_init nrows_reserve = do {
     omega_check (0 \<le> ncols_init);
     omega_check (0 \<le> ncols_init * nrows_reserve);
     Some \<lparr>tdata = [], tncols = ncols_init\<rparr>
   }"

definition get_nrows :: "tbl \<Rightarrow> int option" where
  "get_nrows t = do {
     omega_check (tncols t > 0);
     omega_check (asize (tdata t) smod tncols t = 0);
     Some (asize (tdata t) sdiv tncols t)
   }"

definition get_ncols :: "tbl \<Rightarrow> int" where
  "get_ncols t = tncols t"

text \<open>The cells that \<open>std::vector::resize\<close> adds are zero.\<close>

definition resize_vector :: "int list \<Rightarrow> int \<Rightarrow> int list option" where
  "resize_vector v n = do {
     omega_check (0 \<le> n);
     Some (take (nat n) v @ replicate (nat n - length v) 0)
   }"

definition resize_table :: "tbl \<Rightarrow> int \<Rightarrow> int \<Rightarrow> tbl option" where
  "resize_table t new_nrows new_ncols = do {
     omega_check (new_ncols = tncols t);
     d \<leftarrow> resize_vector (tdata t) (new_nrows * tncols t);
     Some (t\<lparr>tdata := d\<rparr>)
   }"

definition table_cell :: "tbl \<Rightarrow> int \<Rightarrow> int \<Rightarrow> int option" where
  "table_cell t r c = do {
     omega_check (0 \<le> c);
     omega_check (c < tncols t);
     omega_check (0 \<le> r);
     nrows \<leftarrow> get_nrows t;
     omega_check (r < nrows);
     Some (r * tncols t + c)
   }"

definition table_at :: "tbl \<Rightarrow> int \<Rightarrow> int \<Rightarrow> int option" where
  "table_at t r c = do { k \<leftarrow> table_cell t r c; rd (tdata t) k }"

definition table_set :: "tbl \<Rightarrow> int \<Rightarrow> int \<Rightarrow> int \<Rightarrow> tbl option" where
  "table_set t r c v = do {
     k \<leftarrow> table_cell t r c;
     d \<leftarrow> wr (tdata t) k v;
     Some (t\<lparr>tdata := d\<rparr>)
   }"

section \<open>Automata\<close>

record fa =
  fa_table :: tbl
  accepted_tokens :: "int list"
  is_deterministic :: bool

definition new_fa :: "int \<Rightarrow> bool \<Rightarrow> int \<Rightarrow> fa option" where
  "new_fa nsymbols_init is_deterministic_init nstates_reserve = do {
     t \<leftarrow> new_table (nsymbols_init + (if is_deterministic_init then 0 else 2)) nstates_reserve;
     omega_check (0 \<le> nstates_reserve);
     Some \<lparr>fa_table = t, accepted_tokens = [], is_deterministic = is_deterministic_init\<rparr>
   }"

definition get_nstates :: "fa \<Rightarrow> int option" where
  "get_nstates fa = get_nrows (fa_table fa)"

definition get_nsymbols :: "fa \<Rightarrow> int" where
  "get_nsymbols fa = get_ncols (fa_table fa) - (if is_deterministic fa then 0 else 2)"

definition get_determinism :: "fa \<Rightarrow> bool" where
  "get_determinism fa = is_deterministic fa"

definition get_epsilon0 :: "fa \<Rightarrow> int option" where
  "get_epsilon0 fa = do {
     omega_check (\<not> is_deterministic fa);
     Some (get_ncols (fa_table fa) - 2)
   }"

definition get_epsilon1 :: "fa \<Rightarrow> int option" where
  "get_epsilon1 fa = do {
     omega_check (\<not> is_deterministic fa);
     Some (get_ncols (fa_table fa) - 1)
   }"

definition add_state :: "fa \<Rightarrow> (fa \<times> int) option" where
  "add_state fa = do {
     state \<leftarrow> get_nstates fa;
     t \<leftarrow> resize_table (fa_table fa) (state + 1) (get_ncols (fa_table fa));
     t \<leftarrow> for_range 0 (get_ncols t) (\<lambda>j t. table_set t state j (- 1)) t;
     Some (fa\<lparr>fa_table := t, accepted_tokens := accepted_tokens fa @ [- 1]\<rparr>, state)
   }"

definition add_transition :: "fa \<Rightarrow> int \<Rightarrow> int \<Rightarrow> int \<Rightarrow> fa option" where
  "add_transition fa from_state at_symbol to_state = do {
     omega_check (0 \<le> to_state);
     nstates \<leftarrow> get_nstates fa;
     omega_check (to_state < nstates);
     omega_check (0 \<le> at_symbol);
     omega_check (at_symbol < get_ncols (fa_table fa));
     old \<leftarrow> table_at (fa_table fa) from_state at_symbol;
     omega_check (old = - 1);
     t \<leftarrow> table_set (fa_table fa) from_state at_symbol to_state;
     Some (fa\<lparr>fa_table := t\<rparr>)
   }"

definition add_accept :: "fa \<Rightarrow> int \<Rightarrow> int \<Rightarrow> fa option" where
  "add_accept fa state token = do {
     omega_check (0 \<le> token);
     acc \<leftarrow> wr (accepted_tokens fa) state token;
     Some (fa\<lparr>accepted_tokens := acc\<rparr>)
   }"

definition remove_accept :: "fa \<Rightarrow> int \<Rightarrow> fa option" where
  "remove_accept fa state = do {
     acc \<leftarrow> wr (accepted_tokens fa) state (- 1);
     Some (fa\<lparr>accepted_tokens := acc\<rparr>)
   }"

definition step :: "fa \<Rightarrow> int \<Rightarrow> int \<Rightarrow> int option" where
  "step fa state symbol = do {
     omega_check (0 \<le> state);
     nstates \<leftarrow> get_nstates fa;
     omega_check (state < nstates);
     omega_check (0 \<le> symbol);
     omega_check (symbol < get_ncols (fa_table fa));
     table_at (fa_table fa) state symbol
   }"

definition accepts :: "fa \<Rightarrow> int \<Rightarrow> int option" where
  "accepts fa state = rd (accepted_tokens fa) state"

definition get_nsymbols_eps :: "fa \<Rightarrow> int" where
  "get_nsymbols_eps fa = get_ncols (fa_table fa)"

definition append_states :: "fa \<Rightarrow> fa \<Rightarrow> fa option" where
  "append_states fa other = do {
     omega_check (get_nsymbols other = get_nsymbols fa);
     omega_check (get_determinism other \<or> \<not> is_deterministic fa);
     offset \<leftarrow> get_nstates fa;
     nother \<leftarrow> get_nstates other;
     fa \<leftarrow> for_range 0 nother (\<lambda>other_state fa. do {
       (fa, my_state) \<leftarrow> add_state fa;
       token \<leftarrow> accepts other other_state;
       if 0 \<le> token then add_accept fa my_state token else Some fa
     }) fa;
     for_range 0 nother (\<lambda>other_state fa.
       for_range 0 (get_nsymbols_eps other) (\<lambda>symbol fa. do {
         other_next \<leftarrow> step other other_state symbol;
         if other_next < 0 then Some fa
         else add_transition fa (other_state + offset) symbol (other_next + offset)
       }) fa) fa
   }"

definition make_set_nfa :: "int \<Rightarrow> int list \<Rightarrow> int \<Rightarrow> fa option" where
  "make_set_nfa nsymbols accepted token = do {
     out \<leftarrow> new_fa nsymbols True 2;
     (out, start_state) \<leftarrow> add_state out;
     (out, accept_state) \<leftarrow> add_state out;
     out \<leftarrow> run_for accepted (\<lambda>i out. add_transition out start_state i accept_state) out;
     add_accept out accept_state token
   }"

definition make_range_nfa :: "int \<Rightarrow> int \<Rightarrow> int \<Rightarrow> int \<Rightarrow> fa option" where
  "make_range_nfa nsymbols range_start range_end token = do {
     omega_check (0 \<le> range_start);
     omega_check (range_start \<le> range_end);
     omega_check (range_end \<le> nsymbols);
     out \<leftarrow> new_fa nsymbols True 2;
     (out, start_state) \<leftarrow> add_state out;
     (out, accept_state) \<leftarrow> add_state out;
     out \<leftarrow> for_range range_start (range_end + 1)
       (\<lambda>i out. add_transition out start_state i accept_state) out;
     add_accept out accept_state token
   }"

definition make_single_nfa :: "int \<Rightarrow> int \<Rightarrow> int \<Rightarrow> fa option" where
  "make_single_nfa nsymbols symbol token = make_range_nfa nsymbols symbol symbol token"

definition unite :: "fa \<Rightarrow> fa \<Rightarrow> fa option" where
  "unite a b = do {
     na \<leftarrow> get_nstates a;
     nb \<leftarrow> get_nstates b;
     out \<leftarrow> new_fa (get_nsymbols a) False (1 + na + nb);
     (out, start_state) \<leftarrow> add_state out;
     a_offset \<leftarrow> get_nstates out;
     out \<leftarrow> append_states out a;
     b_offset \<leftarrow> get_nstates out;
     out \<leftarrow> append_states out b;
     epsilon0 \<leftarrow> get_epsilon0 out;
     epsilon1 \<leftarrow> get_epsilon1 out;
     out \<leftarrow> add_transition out start_state epsilon0 a_offset;
     add_transition out start_state epsilon1 b_offset
   }"

definition fa_concat :: "fa \<Rightarrow> fa \<Rightarrow> int \<Rightarrow> fa option" where
  "fa_concat a b token = do {
     na \<leftarrow> get_nstates a;
     nb \<leftarrow> get_nstates b;
     out \<leftarrow> new_fa (get_nsymbols a) False (na + nb);
     out \<leftarrow> append_states out a;
     b_offset \<leftarrow> get_nstates out;
     out \<leftarrow> append_states out b;
     epsilon0 \<leftarrow> get_epsilon0 out;
     out \<leftarrow> for_range 0 na (\<lambda>i out. do {
       t \<leftarrow> accepts a i;
       if t \<noteq> - 1 then do {
         out \<leftarrow> add_transition out i epsilon0 b_offset;
         remove_accept out i
       } else Some out
     }) out;
     for_range 0 nb (\<lambda>i out. do {
       t \<leftarrow> accepts b i;
       if t \<noteq> - 1 then add_accept out (i + b_offset) token else Some out
     }) out
   }"

definition fa_plus :: "fa \<Rightarrow> int \<Rightarrow> fa option" where
  "fa_plus a token = do {
     na \<leftarrow> get_nstates a;
     out \<leftarrow> new_fa (get_nsymbols a) False (na + 1);
     out \<leftarrow> append_states out a;
     (out, new_accept_state) \<leftarrow> add_state out;
     out \<leftarrow> add_accept out new_accept_state token;
     epsilon0 \<leftarrow> get_epsilon0 out;
     epsilon1 \<leftarrow> get_epsilon1 out;
     for_range 0 na (\<lambda>i out. do {
       t \<leftarrow> accepts a i;
       if t \<noteq> - 1 then do {
         out \<leftarrow> add_transition out i epsilon0 new_accept_state;
         out \<leftarrow> add_transition out i epsilon1 0;
         remove_accept out i
       } else Some out
     }) out
   }"

definition maybe :: "fa \<Rightarrow> int \<Rightarrow> fa option" where
  "maybe a token = do {
     na \<leftarrow> get_nstates a;
     out \<leftarrow> new_fa (get_nsymbols a) False (na + 2);
     (out, new_start_state) \<leftarrow> add_state out;
     offset \<leftarrow> get_nstates out;
     out \<leftarrow> append_states out a;
     (out, new_accept_state) \<leftarrow> add_state out;
     epsilon0 \<leftarrow> get_epsilon0 out;
     epsilon1 \<leftarrow> get_epsilon1 out;
     out \<leftarrow> add_transition out new_start_state epsilon1 offset;
     (out, last) \<leftarrow> for_range 0 na (\<lambda>i (out, last). do {
       t \<leftarrow> accepts a i;
       if t \<noteq> - 1 then do {
         out \<leftarrow> add_transition out last epsilon0 (i + offset);
         out \<leftarrow> remove_accept out (i + offset);
         Some (out, i + offset)
       } else Some (out, last)
     }) (out, new_start_state);
     out \<leftarrow> add_transition out last epsilon0 new_accept_state;
     add_accept out new_accept_state token
   }"

definition star :: "fa \<Rightarrow> int \<Rightarrow> fa option" where
  "star a token = do { p \<leftarrow> fa_plus a token; maybe p token }"

section \<open>Automata by rows\<close>

text \<open>\<open>fa_of\<close> puts an automaton together from its rows; every well-formed automaton is one.\<close>

definition width :: "int \<Rightarrow> bool \<Rightarrow> nat" where
  "width n det = nat n + (if det then 0 else 2)"

definition fa_of :: "int \<Rightarrow> bool \<Rightarrow> int list list \<Rightarrow> int list \<Rightarrow> fa" where
  "fa_of n det R acc = \<lparr>fa_table = \<lparr>tdata = concat R, tncols = n + (if det then 0 else 2)\<rparr>,
     accepted_tokens = acc, is_deterministic = det\<rparr>"

definition same_width :: "int \<Rightarrow> bool \<Rightarrow> int list list \<Rightarrow> bool" where
  "same_width n det R \<longleftrightarrow> 0 \<le> n \<and> 0 < width n det \<and> (\<forall>r \<in> set R. length r = width n det)"

lemma int_width: "0 \<le> n \<Longrightarrow> int (width n det) = n + (if det then 0 else 2)"
  by (simp add: width_def)

lemma same_width_row: "same_width n det R \<Longrightarrow> s < length R \<Longrightarrow> length (R ! s) = width n det"
  by (simp add: same_width_def)

lemma concat_same_update:
  assumes "\<forall>r \<in> set R. length r = m" "s < length R" "x < m"
  shows "(concat R)[s * m + x := v] = concat (R[s := (R ! s)[x := v]])"
  using assms
proof (induction R arbitrary: s)
  case (Cons r R)
  then show ?case by (cases s) (simp_all add: list_update_append)
qed simp

lemma tncols_of: "0 \<le> n \<Longrightarrow> tncols (fa_table (fa_of n det R acc)) = int (width n det)"
  by (simp add: fa_of_def width_def)

lemma tdata_of [simp]: "tdata (fa_table (fa_of n det R acc)) = concat R"
  by (simp add: fa_of_def)

lemma same_widthD:
  assumes "same_width n det R"
  shows "0 \<le> n" "0 < width n det" "\<forall>r \<in> set R. length r = width n det"
  using assms by (simp_all add: same_width_def)

lemma get_nrows_of:
  assumes "same_width n det R"
  shows "get_nrows (fa_table (fa_of n det R acc)) = Some (int (length R))"
proof -
  note w = same_widthD [OF assms]
  have "asize (concat R) = int (length R) * int (width n det)"
    using length_concat_same [OF w(3)] by (simp add: asize_def)
  then show ?thesis
    using w(2) by (simp add: get_nrows_def tncols_of [OF w(1)] smod_nonneg sdiv_nonneg)
qed

lemma get_nstates_of: "same_width n det R \<Longrightarrow> get_nstates (fa_of n det R acc) = Some (int (length R))"
  by (simp add: get_nstates_def get_nrows_of)

lemma fa_of_simps [simp]:
  "get_nsymbols (fa_of n det R acc) = n" "get_determinism (fa_of n det R acc) = det"
  "is_deterministic (fa_of n det R acc) = det" "accepted_tokens (fa_of n det R acc) = acc"
  "get_epsilon0 (fa_of n False R acc) = Some n" "get_epsilon1 (fa_of n False R acc) = Some (n + 1)"
  by (simp_all add: fa_of_def get_nsymbols_def get_ncols_def get_determinism_def get_epsilon0_def
      get_epsilon1_def)

lemma put_table [simp]:
  "fa_of n det R acc\<lparr>fa_table := fa_table (fa_of n det S acc')\<rparr> = fa_of n det S acc"
  by (simp add: fa_of_def)

lemma ncols_of: "0 \<le> n \<Longrightarrow> get_ncols (fa_table (fa_of n det R acc)) = int (width n det)"
  by (simp add: fa_of_def get_ncols_def width_def)

lemma table_cell_of:
  assumes R: "same_width n det R" and s: "s < length R" and x: "x < width n det"
  shows "table_cell (fa_table (fa_of n det R acc)) (int s) (int x) = Some (int (s * width n det + x))"
  using s x by (simp add: table_cell_def get_nrows_of [OF R] tncols_of [OF same_widthD(1) [OF R]])

lemma table_at_of:
  assumes "same_width n det R" "s < length R" "x < width n det"
  shows "table_at (fa_table (fa_of n det R acc)) (int s) (int x) = Some (R ! s ! x)"
  using concat_same_nth [OF same_widthD(3) [OF assms(1)] assms(2,3)]
  unfolding table_at_def table_cell_of [OF assms] tdata_of by (simp del: of_nat_add of_nat_mult)

lemma table_set_of:
  assumes "same_width n det R" "s < length R" "x < width n det"
  shows "table_set (fa_table (fa_of n det R acc)) (int s) (int x) v =
     Some (fa_table (fa_of n det (R[s := (R ! s)[x := v]]) acc))"
proof -
  have "\<forall>r \<in> set R. length r = width n det" using assms(1) by (simp add: same_width_def)
  note c = concat_same_nth(2) [OF this assms(2,3)] concat_same_update [OF this assms(2,3), of v]
  have "wr (concat R) (int (s * width n det + x)) v = Some (concat (R[s := (R ! s)[x := v]]))"
    using c by (simp only: wr_int)
  then show ?thesis
    unfolding table_set_def table_cell_of [OF assms] tdata_of
    by (simp del: of_nat_add of_nat_mult) (simp add: fa_of_def)
qed

lemma step_of:
  assumes "same_width n det R" "s < length R" "x < width n det"
  shows "step (fa_of n det R acc) (int s) (int x) = Some (R ! s ! x)"
  using assms ncols_of [of n det R acc]
  by (simp add: step_def get_nstates_of table_at_of same_width_def)

lemma accepts_of: "s < length acc \<Longrightarrow> accepts (fa_of n det R acc) (int s) = Some (acc ! s)"
  by (simp add: accepts_def)

lemma add_transition_of:
  assumes "same_width n det R" "s < length R" "x < width n det" "t < length R" "R ! s ! x = - 1"
  shows "add_transition (fa_of n det R acc) (int s) (int x) (int t) =
     Some (fa_of n det (R[s := (R ! s)[x := int t]]) acc)"
  using assms ncols_of [of n det R acc] table_set_of [OF assms(1-3), of acc "int t"]
  by (simp add: add_transition_def get_nstates_of [OF assms(1)] table_at_of [OF assms(1-3)]
      same_widthD(1) [OF assms(1)])

lemma add_accept_of:
  "s < length acc \<Longrightarrow> 0 \<le> t \<Longrightarrow> add_accept (fa_of n det R acc) (int s) t = Some (fa_of n det R (acc[s := t]))"
  by (simp add: add_accept_def) (simp add: fa_of_def)

lemma remove_accept_of:
  "s < length acc \<Longrightarrow> remove_accept (fa_of n det R acc) (int s) = Some (fa_of n det R (acc[s := - 1]))"
  by (simp add: remove_accept_def) (simp add: fa_of_def)

lemma same_width_append: "same_width n det R \<Longrightarrow> length r = width n det \<Longrightarrow> same_width n det (R @ [r])"
  by (simp add: same_width_def)

lemma same_width_update:
  "same_width n det R \<Longrightarrow> s < length R \<Longrightarrow> same_width n det (R[s := (R ! s)[x := v]])"
  by (auto simp: same_width_def dest!: set_update_subset_insert [THEN subsetD])

definition blank :: "int \<Rightarrow> bool \<Rightarrow> int list" where
  "blank n det = replicate (width n det) (- 1)"

lemma length_blank [simp]: "length (blank n det) = width n det"
  by (simp add: blank_def)

lemma add_state_of:
  assumes R: "same_width n det R"
  shows "add_state (fa_of n det R acc) = Some (fa_of n det (R @ [blank n det]) (acc @ [- 1]), int (length R))"
proof -
  let ?w = "width n det"
  let ?t = "\<lambda>r. fa_table (fa_of n det (R @ [r]) acc)"
  have w: "int ?w = n + (if det then 0 else 2)" "0 \<le> n" using R by (simp_all add: same_width_def int_width)
  have len: "length (concat R) = length R * ?w"
    using length_concat_same [of R ?w] R by (simp add: same_width_def)
  have grow: "resize_table (fa_table (fa_of n det R acc)) (int (length R) + 1)
      (get_ncols (fa_table (fa_of n det R acc))) = Some (?t (replicate ?w 0))"
  proof -
    have "(int (length R) + 1) * int ?w = int (length (concat R) + ?w)"
      unfolding len by (simp add: algebra_simps)
    then have "resize_vector (concat R) ((int (length R) + 1) * int ?w) = Some (concat R @ replicate ?w 0)"
      unfolding resize_vector_def by (simp only: of_nat_0_le_iff) simp
    then show ?thesis using w by (simp add: resize_table_def fa_of_def get_ncols_def)
  qed
  have "\<exists>t. for_range 0 (int ?w) (\<lambda>j t. table_set t (int (length R)) j (- 1)) (?t (replicate ?w 0)) = Some t \<and>
      (\<lambda>j t. t = ?t (replicate (nat j) (- 1) @ replicate (?w - nat j) 0)) (int ?w) t"
  proof (rule for_range_rule)
    fix i t assume i: "0 \<le> i" "i < int ?w"
      and t: "t = ?t (replicate (nat i) (- 1) @ replicate (?w - nat i) 0)"
    let ?r = "replicate (nat i) (- 1) @ replicate (?w - nat i) (0 :: int)"
    have sw: "same_width n det (R @ [?r])" using R i by (intro same_width_append) auto
    have "?r[nat i := - 1] = replicate (nat (i + 1)) (- 1) @ replicate (?w - nat (i + 1)) 0"
    proof -
      have "?w - nat i = Suc (?w - nat (i + 1))" "nat (i + 1) = Suc (nat i)" using i by auto
      then show ?thesis by (simp add: list_update_append replicate_app_Cons_same)
    qed
    then show "\<exists>t'. table_set t (int (length R)) i (- 1) = Some t' \<and>
        t' = ?t (replicate (nat (i + 1)) (- 1) @ replicate (?w - nat (i + 1)) 0)"
      using table_set_of [OF sw, of "length R" "nat i" acc "- 1"] i t by simp
  qed simp_all
  then have "for_range 0 (int ?w) (\<lambda>j t. table_set t (int (length R)) j (- 1)) (?t (replicate ?w 0)) =
      Some (?t (blank n det))" by (simp add: blank_def)
  then show ?thesis
    using grow w by (simp add: add_state_def get_nstates_of [OF R] ncols_of) (simp add: fa_of_def)
qed

text \<open>A well-formed automaton: at least the start state, next states and tokens in range.\<close>

definition fa_ok :: "int \<Rightarrow> bool \<Rightarrow> int list list \<Rightarrow> int list \<Rightarrow> bool" where
  "fa_ok n det R acc \<longleftrightarrow> same_width n det R \<and> R \<noteq> [] \<and> length acc = length R \<and>
     (\<forall>r \<in> set R. \<forall>x \<in> set r. - 1 \<le> x \<and> x < int (length R)) \<and> (\<forall>t \<in> set acc. - 1 \<le> t)"

lemma fa_okD:
  assumes "fa_ok n det R acc"
  shows "same_width n det R" "R \<noteq> []" "length acc = length R" "\<forall>t \<in> set acc. - 1 \<le> t"
    and "s < length R \<Longrightarrow> x < width n det \<Longrightarrow> - 1 \<le> R ! s ! x \<and> R ! s ! x < int (length R)"
proof -
  show "same_width n det R" "R \<noteq> []" "length acc = length R" "\<forall>t \<in> set acc. - 1 \<le> t"
    using assms by (simp_all add: fa_ok_def)
  assume s: "s < length R" "x < width n det"
  then have "R ! s \<in> set R" "R ! s ! x \<in> set (R ! s)"
    using same_width_row [OF \<open>same_width n det R\<close> s(1)] by simp_all
  then show "- 1 \<le> R ! s ! x \<and> R ! s ! x < int (length R)" using assms unfolding fa_ok_def by blast
qed

text \<open>The row that \<open>append_states\<close> makes of a row of the other automaton.\<close>

definition shift_row :: "int \<Rightarrow> bool \<Rightarrow> nat \<Rightarrow> int list \<Rightarrow> int list" where
  "shift_row n det off r =
     map (\<lambda>x. if x < 0 then - 1 else x + int off) r @ replicate (width n det - length r) (- 1)"

lemma width_le: "det2 \<or> \<not> det \<Longrightarrow> width n det2 \<le> width n det"
  by (auto simp: width_def)

lemma length_shift_row [simp]: "length r \<le> width n det \<Longrightarrow> length (shift_row n det off r) = width n det"
  by (simp add: shift_row_def)

lemma nth_shift_row:
  "x < width n det \<Longrightarrow> shift_row n det off r ! x =
     (if x < length r \<and> 0 \<le> r ! x then r ! x + int off else - 1)"
  by (simp add: shift_row_def nth_append)

lemma append_row_loop:
  assumes S: "fa_ok n det2 S acc2" and d: "det2 \<or> \<not> det" and s: "s < length S"
    and X: "same_width n det (X @ Y)" "length X = off + s" "off + length S = length (X @ blank n det # Y)"
  shows "for_range 0 (get_nsymbols_eps (fa_of n det2 S acc2)) (\<lambda>symbol fa. do {
         other_next \<leftarrow> step (fa_of n det2 S acc2) (int s) symbol;
         if other_next < 0 then Some fa
         else add_transition fa (int s + int off) symbol (other_next + int off)
       }) (fa_of n det (X @ blank n det # Y) acc) =
     Some (fa_of n det (X @ shift_row n det off (S ! s) # Y) acc)"
proof -
  let ?w = "width n det" and ?r = "S ! s"
  let ?mid = "\<lambda>j. take (nat j) (shift_row n det off ?r) @ replicate (?w - nat j) (- 1)"
  let ?f = "\<lambda>symbol fa. do {
         other_next \<leftarrow> step (fa_of n det2 S acc2) (int s) symbol;
         if other_next < 0 then Some fa
         else add_transition fa (int s + int off) symbol (other_next + int off)
       }"
  note sw = fa_okD(1) [OF S]
  have lr: "length ?r = width n det2" by (rule same_width_row [OF sw s])
  have le: "width n det2 \<le> ?w" by (rule width_le [OF d])
  have eps: "get_nsymbols_eps (fa_of n det2 S acc2) = int (width n det2)"
    using same_widthD(1) [OF sw] by (simp add: get_nsymbols_eps_def ncols_of)
  have "\<exists>fa. for_range 0 (int (width n det2)) ?f (fa_of n det (X @ blank n det # Y) acc) = Some fa \<and>
      (\<lambda>j fa. fa = fa_of n det (X @ ?mid j # Y) acc) (int (width n det2)) fa"
  proof (rule for_range_rule)
    show "fa_of n det (X @ blank n det # Y) acc = fa_of n det (X @ ?mid 0 # Y) acc" by (simp add: blank_def)
    fix j fa assume j: "0 \<le> j" "j < int (width n det2)" and fa: "fa = fa_of n det (X @ ?mid j # Y) acc"
    have jn: "nat j < width n det2" "nat j < ?w" "int (nat j) = j" using j le by auto
    have nx: "step (fa_of n det2 S acc2) (int s) j = Some (?r ! nat j)"
      using step_of [OF sw s jn(1), of acc2] jn(3) by simp
    have len: "length (?mid j) = ?w" using lr le jn by simp
    have mid: "?mid (j + 1) = (?mid j)[nat j := shift_row n det off ?r ! nat j]"
    proof -
      have "nat (j + 1) = Suc (nat j)" using j(1) by arith
      moreover have "?w - nat j = Suc (?w - Suc (nat j))" using jn(2) by arith
      ultimately show ?thesis using lr le jn(2) by (simp add: take_Suc_conv_app_nth list_update_append)
    qed
    show "\<exists>fa'. ?f j fa = Some fa' \<and> fa' = fa_of n det (X @ ?mid (j + 1) # Y) acc"
    proof (cases "?r ! nat j < 0")
      case True
      then have "shift_row n det off ?r ! nat j = ?mid j ! nat j"
        using jn lr le by (simp add: nth_shift_row nth_append)
      then have "?mid (j + 1) = ?mid j" unfolding mid by (simp only: list_update_id)
      then show ?thesis using True fa nx by simp
    next
      case False
      let ?t = "nat (?r ! nat j)"
      have t: "?t < length S" "?r ! nat j = int ?t" using fa_okD(5) [OF S s jn(1)] False by auto
      have sw': "same_width n det (X @ ?mid j # Y)" using X(1) len by (auto simp: same_width_def)
      have "add_transition (fa_of n det (X @ ?mid j # Y) acc) (int (length X)) (int (nat j)) (int (?t + off)) =
          Some (fa_of n det ((X @ ?mid j # Y)[length X := ((X @ ?mid j # Y) ! length X)[nat j := int (?t + off)]]) acc)"
        using t(1) X(3) jn lr le by (intro add_transition_of [OF sw']) (simp_all add: nth_append)
      moreover have "shift_row n det off ?r ! nat j = int (?t + off)"
        using jn lr False by (simp add: nth_shift_row)
      then have "(X @ ?mid j # Y)[length X := ((X @ ?mid j # Y) ! length X)[nat j := int (?t + off)]] =
          X @ ?mid (j + 1) # Y"
        unfolding mid by (simp add: nth_append list_update_append)
      moreover have "int (length X) = int s + int off" "int (?t + off) = ?r ! nat j + int off"
        using X(2) t(2) by simp_all
      ultimately have "add_transition fa (int s + int off) j (?r ! nat j + int off) =
          Some (fa_of n det (X @ ?mid (j + 1) # Y) acc)"
        unfolding fa jn(3) by metis
      then show ?thesis using False nx by simp
    qed
  qed simp
  moreover have "?mid (int (width n det2)) = shift_row n det off ?r"
    using lr le by (simp add: shift_row_def)
  ultimately show ?thesis unfolding eps by simp
qed

lemma append_states_of:
  assumes R: "same_width n det R" "length acc = length R" and S: "fa_ok n det2 S acc2"
    and d: "det2 \<or> \<not> det"
  shows "append_states (fa_of n det R acc) (fa_of n det2 S acc2) =
     Some (fa_of n det (R @ map (shift_row n det (length R)) S) (acc @ acc2))"
proof -
  let ?off = "length R" and ?m = "length S" and ?other = "fa_of n det2 S acc2" and ?b = "blank n det"
  note sw = fa_okD(1) [OF S]
  let ?f = "\<lambda>other_state fa. do {
       (fa, my_state) \<leftarrow> add_state fa;
       token \<leftarrow> accepts ?other other_state;
       if 0 \<le> token then add_accept fa my_state token else Some fa
     }"
  have "\<exists>fa. for_range 0 (int ?m) ?f (fa_of n det R acc) = Some fa \<and>
      (\<lambda>i fa. fa = fa_of n det (R @ replicate (nat i) ?b) (acc @ take (nat i) acc2)) (int ?m) fa"
  proof (rule for_range_rule)
    fix i fa assume i: "0 \<le> i" "i < int ?m"
      and fa: "fa = fa_of n det (R @ replicate (nat i) ?b) (acc @ take (nat i) acc2)"
    have ni: "nat i < length acc2" "int (nat i) = i" "nat (i + 1) = Suc (nat i)"
      using i fa_okD(3) [OF S] by auto
    have swi: "same_width n det (R @ replicate (nat i) ?b)" using R(1) by (auto simp: same_width_def)
    have acc: "accepts ?other i = Some (acc2 ! nat i)" using accepts_of [OF ni(1), of n det2 S] ni(2) by simp
    have tok: "- 1 \<le> acc2 ! nat i" using fa_okD(4) [OF S] ni(1) by simp
    have st: "add_state fa = Some (fa_of n det (R @ replicate (nat (i + 1)) ?b)
        ((acc @ take (nat i) acc2) @ [- 1]), int (?off + nat i))"
      unfolding fa add_state_of [OF swi] by (simp add: ni(3) replicate_append_same)
    have cell: "((acc @ take (nat i) acc2) @ [- 1])[?off + nat i := t] = acc @ take (nat i) acc2 @ [t]" for t
      using R(2) ni(1) by (simp add: list_update_append)
    have "add_accept (fa_of n det (R @ replicate (nat (i + 1)) ?b) ((acc @ take (nat i) acc2) @ [- 1]))
        (int (?off + nat i)) t =
        Some (fa_of n det (R @ replicate (nat (i + 1)) ?b) (acc @ take (nat i) acc2 @ [t]))"
      if "0 \<le> t" for t
      using add_accept_of [of "?off + nat i" "(acc @ take (nat i) acc2) @ [- 1]" t n det] that R(2) ni(1) cell
      by simp
    moreover have "acc2 ! nat i = - 1" if "\<not> 0 \<le> acc2 ! nat i" using that tok by simp
    ultimately show "\<exists>fa'. ?f i fa = Some fa' \<and>
        fa' = fa_of n det (R @ replicate (nat (i + 1)) ?b) (acc @ take (nat (i + 1)) acc2)"
      using st acc ni(1) by (cases "0 \<le> acc2 ! nat i") (auto simp: ni(3) take_Suc_conv_app_nth)
  qed simp_all
  then have one: "for_range 0 (int ?m) ?f (fa_of n det R acc) =
      Some (fa_of n det (R @ replicate ?m ?b) (acc @ acc2))" using fa_okD(3) [OF S] by simp
  let ?g = "\<lambda>other_state fa. for_range 0 (get_nsymbols_eps ?other) (\<lambda>symbol fa. do {
         other_next \<leftarrow> step ?other other_state symbol;
         if other_next < 0 then Some fa
         else add_transition fa (other_state + int ?off) symbol (other_next + int ?off)
       }) fa"
  let ?shift = "map (shift_row n det ?off)"
  have "\<exists>fa. for_range 0 (int ?m) ?g (fa_of n det (R @ replicate ?m ?b) (acc @ acc2)) = Some fa \<and>
      (\<lambda>i fa. fa = fa_of n det (R @ ?shift (take (nat i) S) @ replicate (?m - nat i) ?b) (acc @ acc2)) (int ?m) fa"
  proof (rule for_range_rule)
    fix i fa assume i: "0 \<le> i" "i < int ?m"
      and fa: "fa = fa_of n det (R @ ?shift (take (nat i) S) @ replicate (?m - nat i) ?b) (acc @ acc2)"
    have ni: "nat i < ?m" "int (nat i) = i" "nat (i + 1) = Suc (nat i)" using i by auto
    have more: "?m - nat i = Suc (?m - Suc (nat i))" using ni by simp
    have rows: "length r \<le> width n det" if "r \<in> set S" for r
      using same_widthD(3) [OF sw] width_le [OF d] that by auto
    have "same_width n det ((R @ ?shift (take (nat i) S)) @ replicate (?m - Suc (nat i)) ?b)"
      using R(1) rows by (auto simp: same_width_def dest: in_set_takeD)
    from append_row_loop [OF S d ni(1) this, of ?off "acc @ acc2", unfolded ni(2)]
    have "?g i fa = Some (fa_of n det ((R @ ?shift (take (nat i) S)) @
        shift_row n det ?off (S ! nat i) # replicate (?m - Suc (nat i)) ?b) (acc @ acc2))"
      using ni(1) more unfolding fa more by simp
    then show "\<exists>fa'. ?g i fa = Some fa' \<and>
        fa' = fa_of n det (R @ ?shift (take (nat (i + 1)) S) @ replicate (?m - nat (i + 1)) ?b) (acc @ acc2)"
      using ni(1) by (simp add: ni(3) take_Suc_conv_app_nth)
  qed simp_all
  then have two: "for_range 0 (int ?m) ?g (fa_of n det (R @ replicate ?m ?b) (acc @ acc2)) =
      Some (fa_of n det (R @ ?shift S) (acc @ acc2))" by simp
  show ?thesis
    unfolding append_states_def
    using d one two by (simp add: get_nstates_of [OF R(1)] get_nstates_of [OF sw] del: of_nat_add)
qed

section \<open>What an automaton recognizes\<close>

definition edge :: "int list list \<Rightarrow> nat \<Rightarrow> nat \<Rightarrow> nat \<Rightarrow> bool" where
  "edge R s x t \<longleftrightarrow> s < length R \<and> x < length (R ! s) \<and> R ! s ! x = int t"

text \<open>The columns from \<open>n\<close> on are epsilon transitions: they read nothing.\<close>

definition read_symbol :: "int \<Rightarrow> nat \<Rightarrow> nat list" where
  "read_symbol n x = (if x < nat n then [x] else [])"

inductive reach :: "int \<Rightarrow> int list list \<Rightarrow> nat \<Rightarrow> nat list \<Rightarrow> nat \<Rightarrow> bool" for n R where
  reach_here: "reach n R s [] s"
| reach_edge: "edge R s x t \<Longrightarrow> reach n R t w u \<Longrightarrow> reach n R s (read_symbol n x @ w) u"

inductive_cases reachE: "reach n R s w u"

definition fa_rows :: "fa \<Rightarrow> int list list" where
  "fa_rows fa = (let m = nat (tncols (fa_table fa)); d = tdata (fa_table fa) in
     map (\<lambda>s. map (\<lambda>x. d ! (s * m + x)) [0..<m]) [0..<length d div m])"

definition recognizes :: "fa \<Rightarrow> nat list \<Rightarrow> int \<Rightarrow> bool" where
  "recognizes fa w token \<longleftrightarrow> (\<exists>u < length (accepted_tokens fa).
     reach (get_nsymbols fa) (fa_rows fa) 0 w u \<and> accepted_tokens fa ! u = token \<and> 0 \<le> token)"

definition wf_fa :: "fa \<Rightarrow> bool" where
  "wf_fa fa \<longleftrightarrow>
     fa = fa_of (get_nsymbols fa) (is_deterministic fa) (fa_rows fa) (accepted_tokens fa) \<and>
     fa_ok (get_nsymbols fa) (is_deterministic fa) (fa_rows fa) (accepted_tokens fa)"

text \<open>Accepting states have no transitions.\<close>

definition sinks :: "fa \<Rightarrow> bool" where
  "sinks fa \<longleftrightarrow> (\<forall>s < length (fa_rows fa). accepted_tokens fa ! s \<noteq> - 1 \<longrightarrow>
     (\<forall>x \<in> set (fa_rows fa ! s). x = - 1))"

lemma fa_rows_of [simp]:
  assumes "same_width n det R"
  shows "fa_rows (fa_of n det R acc) = R"
proof -
  note w = same_widthD [OF assms]
  have m: "nat (tncols (fa_table (fa_of n det R acc))) = width n det" by (simp add: tncols_of [OF w(1)])
  have len: "length (concat R) div width n det = length R"
    using length_concat_same [OF w(3)] w(2) by simp
  show ?thesis
    unfolding fa_rows_def m tdata_of Let_def len
  proof (rule nth_equalityI)
    fix s assume "s < length (map (\<lambda>s. map (\<lambda>x. concat R ! (s * width n det + x)) [0..<width n det]) [0..<length R])"
    then have s: "s < length R" by simp
    have "map (\<lambda>x. concat R ! (s * width n det + x)) [0..<width n det] = R ! s"
      using concat_same_nth(1) [OF w(3) s] same_width_row [OF assms s] by (intro nth_equalityI) auto
    then show "map (\<lambda>s. map (\<lambda>x. concat R ! (s * width n det + x)) [0..<width n det]) [0..<length R] ! s = R ! s"
      using s by simp
  qed simp
qed

lemma wf_fa_of: "fa_ok n det R acc \<Longrightarrow> wf_fa (fa_of n det R acc)"
  by (simp add: wf_fa_def fa_okD(1))

lemma wf_faE:
  assumes "wf_fa fa"
  obtains n det R acc where "fa = fa_of n det R acc" "fa_ok n det R acc"
  using assms unfolding wf_fa_def by blast

lemma recognizes_of:
  assumes "fa_ok n det R acc"
  shows "recognizes (fa_of n det R acc) w token \<longleftrightarrow>
     (\<exists>u < length R. reach n R 0 w u \<and> acc ! u = token \<and> 0 \<le> token)"
  using fa_okD [OF assms] by (simp add: recognizes_def)

lemma sinks_of:
  "fa_ok n det R acc \<Longrightarrow> sinks (fa_of n det R acc) \<longleftrightarrow>
     (\<forall>s < length R. acc ! s \<noteq> - 1 \<longrightarrow> (\<forall>x \<in> set (R ! s). x = - 1))"
  by (simp add: sinks_def fa_okD(1))

lemma reach_trans: "reach n R s v t \<Longrightarrow> reach n R t w u \<Longrightarrow> reach n R s (v @ w) u"
proof (induction rule: reach.induct)
  case (reach_edge s x t v u')
  then show ?case using reach.reach_edge [of R s x t n "v @ w" u] by simp
qed simp

lemma reach_one: "edge R s x t \<Longrightarrow> reach n R s (read_symbol n x) t"
  using reach_edge [OF _ reach_here, of R s x t n] by simp

lemma edge_closed:
  assumes "fa_ok n det R acc" "edge R s x t"
  shows "s < length R" "x < width n det" "t < length R"
proof -
  show s: "s < length R" and x: "x < width n det"
    using assms(2) same_width_row [OF fa_okD(1) [OF assms(1)]] by (auto simp: edge_def)
  show "t < length R" using fa_okD(5) [OF assms(1) s x] assms(2) by (simp add: edge_def)
qed

lemma reach_closed:
  assumes "fa_ok n det R acc" "reach n R s w u" "s < length R"
  shows "u < length R"
  using assms(2,3) by induction (auto dest: edge_closed [OF assms(1)])

text \<open>A copy of an automaton inside another one, with no way out.\<close>

lemma reach_embed:
  assumes ok: "fa_ok n det A acc"
    and e: "\<And>s x t'. s < length A \<Longrightarrow> edge C (f s) x t' \<longleftrightarrow> (\<exists>t. t' = f t \<and> edge A s x t)"
    and s: "s < length A"
  shows "reach n C (f s) w u' \<longleftrightarrow> (\<exists>u. u' = f u \<and> reach n A s w u)"
proof
  have "\<exists>u. u' = f u \<and> reach n A s w u" if "reach n C p w u'" "p = f s" "s < length A" for p s
    using that
  proof (induction arbitrary: s rule: reach.induct)
    case (reach_here p)
    then show ?case by (auto intro: reach.reach_here)
  next
    case (reach_edge p x q w u')
    then obtain t where t: "q = f t" "edge A s x t" using e [of s x q] by auto
    from reach_edge.IH [OF t(1) edge_closed(3) [OF ok t(2)]]
    show ?case using reach.reach_edge [OF t(2)] by blast
  qed
  then show "reach n C (f s) w u' \<Longrightarrow> \<exists>u. u' = f u \<and> reach n A s w u" using s by blast
next
  have "reach n C (f s) w (f u)" if "reach n A s w u" for u
    using that
  proof (induction rule: reach.induct)
    case (reach_here s)
    show ?case by (rule reach.reach_here)
  next
    case (reach_edge s x t w u)
    then have "edge C (f s) x (f t)" using e [of s x "f t"] edge_closed(1) [OF ok] by blast
    then show ?case using reach_edge.IH by (rule reach.reach_edge)
  qed
  then show "\<exists>u. u' = f u \<and> reach n A s w u \<Longrightarrow> reach n C (f s) w u'" by blast
qed

lemma edge_shift:
  assumes ok: "fa_ok n det S acc" and s: "s < length S" and C: "off + s < length C"
    and row: "C ! (off + s) = shift_row n False off (S ! s)"
  shows "edge C (off + s) x t' \<longleftrightarrow> (\<exists>t. t' = off + t \<and> edge S s x t)"
proof -
  have lr: "length (S ! s) = width n det" by (rule same_width_row [OF fa_okD(1) [OF ok] s])
  have le: "width n det \<le> width n False" by (rule width_le) simp
  show ?thesis
  proof
    assume "edge C (off + s) x t'"
    then have x: "x < width n False" "shift_row n False off (S ! s) ! x = int t'"
      using lr le by (auto simp: edge_def row)
    then have "x < length (S ! s)" "0 \<le> S ! s ! x" "S ! s ! x + int off = int t'"
      by (auto simp: nth_shift_row split: if_splits)
    then have "edge S s x (nat (S ! s ! x))" "t' = off + nat (S ! s ! x)" using s by (auto simp: edge_def)
    then show "\<exists>t. t' = off + t \<and> edge S s x t" by blast
  next
    assume "\<exists>t. t' = off + t \<and> edge S s x t"
    then show "edge C (off + s) x t'"
      using C lr le by (auto simp: edge_def row nth_shift_row)
  qed
qed

section \<open>Rows of the combinations\<close>

definition row_ok :: "int \<Rightarrow> nat \<Rightarrow> int list \<Rightarrow> bool" where
  "row_ok n m r \<longleftrightarrow> length r = width n False \<and> (\<forall>x \<in> set r. - 1 \<le> x \<and> x < int m)"

lemma row_ok_shift:
  assumes S: "fa_ok n det S acc" and r: "r \<in> set S" and m: "off + length S \<le> m"
  shows "row_ok n m (shift_row n False off r)"
proof -
  have "length r = width n det" using same_widthD(3) [OF fa_okD(1) [OF S]] r by blast
  moreover have "width n det \<le> width n False" by (rule width_le) simp
  moreover have "- 1 \<le> x \<and> x < int (length S)" if "x \<in> set r" for x
    using S r that unfolding fa_ok_def by blast
  ultimately show ?thesis using m by (force simp: row_ok_def shift_row_def)
qed

lemma row_ok_blank [simp]: "row_ok n m (blank n False)"
  by (simp add: row_ok_def blank_def)

lemma row_ok_update: "row_ok n m r \<Longrightarrow> v < m \<Longrightarrow> row_ok n m (r[i := int v])"
  using set_update_subset_insert [of r i "int v"] by (auto simp: row_ok_def)

lemma fa_ok_rows:
  assumes "0 \<le> n" "R \<noteq> []" "length acc = length R" "\<forall>r \<in> set R. row_ok n (length R) r" "\<forall>t \<in> set acc. - 1 \<le> t"
  shows "fa_ok n False R acc"
  using assms by (auto simp: fa_ok_def same_width_def row_ok_def width_def)

lemma same_width_rows:
  "0 \<le> n \<Longrightarrow> \<forall>r \<in> set R. row_ok n m r \<Longrightarrow> same_width n False R"
  by (auto simp: same_width_def row_ok_def width_def)

lemma new_fa_of: "0 \<le> n \<Longrightarrow> 0 \<le> k \<Longrightarrow> new_fa n det k = Some (fa_of n det [] [])"
  by (simp add: new_fa_def new_table_def fa_of_def)

lemma width_False [simp]: "0 \<le> n \<Longrightarrow> int (width n False) = n + 2" "width n False = nat n + 2"
  by (simp_all add: width_def)

text \<open>The transitions on epsilon of the rows under construction.\<close>

lemma add_epsilon:
  assumes n: "0 \<le> n" and R: "\<forall>r \<in> set R. row_ok n m r" and s: "s < length R" and t: "t < length R"
    and e: "e = 0 \<or> e = 1" and free: "R ! s ! (nat n + e) = - 1"
  shows "add_transition (fa_of n False R acc) (int s) (n + int e) (int t) =
     Some (fa_of n False (R[s := (R ! s)[nat n + e := int t]]) acc)"
proof -
  have "int (nat n + e) = n + int e" using n by simp
  moreover have "nat n + e < width n False" using e by auto
  ultimately show ?thesis
    using add_transition_of [OF same_width_rows [OF n R] s _ t free, of acc] by simp
qed

lemmas add_epsilons = add_epsilon [where e = 0, simplified] add_epsilon [where e = 1, simplified]

lemma blank_nth: "x < width n det \<Longrightarrow> blank n det ! x = - 1"
  by (simp add: blank_def)

definition unite_rows :: "int \<Rightarrow> int list list \<Rightarrow> int list list \<Rightarrow> int list list" where
  "unite_rows n A B = ((blank n False)[nat n := 1])[nat n + 1 := int (1 + length A)] #
     map (shift_row n False 1) A @ map (shift_row n False (1 + length A)) B"

lemma unite_of:
  assumes A: "fa_ok n da A ta" and B: "fa_ok n db B tb"
  shows "unite (fa_of n da A ta) (fa_of n db B tb) = Some (fa_of n False (unite_rows n A B) (- 1 # ta @ tb))"
    and "fa_ok n False (unite_rows n A B) (- 1 # ta @ tb)"
proof -
  note n = same_widthD(1) [OF fa_okD(1) [OF A]]
  let ?b = "blank n False" and ?A = "map (shift_row n False 1) A"
    and ?B = "map (shift_row n False (1 + length A)) B"
  have sA: "\<forall>r \<in> set ?A. row_ok n (1 + length A + length B) r" using row_ok_shift [OF A] by auto
  have sB: "\<forall>r \<in> set ?B. row_ok n (1 + length A + length B) r" using row_ok_shift [OF B] by auto
  have one: "same_width n False [?b]" "same_width n False (?b # ?A)" "same_width n False []"
    using n sA by (auto intro!: same_width_rows [where m = "1 + length A + length B"])
  have rows: "\<forall>r \<in> set (?b # ?A @ ?B). row_ok n (1 + length A + length B) r" using sA sB by auto
  have B0: "length B \<noteq> 0" using fa_okD(2) [OF B] by simp
  have A0: "length A \<noteq> 0" using fa_okD(2) [OF A] by simp
  let ?first = "?b[nat n := 1] # ?A @ ?B"
  have first: "\<forall>r \<in> set ?first. row_ok n (1 + length A + length B) r"
    using rows row_ok_update [OF row_ok_blank, of 1 "1 + length A + length B" n "nat n"] A0 by auto
  have e0: "add_transition (fa_of n False (?b # ?A @ ?B) (- 1 # ta @ tb)) 0 n 1 =
      Some (fa_of n False ?first (- 1 # ta @ tb))"
    using add_epsilons(1) [OF n rows, of 0 1 "- 1 # ta @ tb"] A0 by (simp add: blank_nth)
  have e1: "add_transition (fa_of n False ?first (- 1 # ta @ tb)) 0 (n + 1) (1 + int (length A)) =
      Some (fa_of n False (unite_rows n A B) (- 1 # ta @ tb))"
    using add_epsilons(2) [OF n first, of 0 "1 + length A" "- 1 # ta @ tb"] B0
    by (simp add: blank_nth unite_rows_def)
  have sizes: "get_nstates (fa_of n False [?b] acc) = Some 1"
    "get_nstates (fa_of n False (?b # ?A) acc) = Some (1 + int (length A))" for acc
    using get_nstates_of [OF one(1), of acc] get_nstates_of [OF one(2), of acc] by simp_all
  show "unite (fa_of n da A ta) (fa_of n db B tb) = Some (fa_of n False (unite_rows n A B) (- 1 # ta @ tb))"
    using append_states_of [OF one(1) _ A, of "[- 1]"] append_states_of [OF one(2) _ B, of "- 1 # ta"]
      e0 e1 fa_okD(3) [OF A] sizes
    by (simp add: unite_def get_nstates_of fa_okD(1) [OF A] fa_okD(1) [OF B] new_fa_of n add_state_of one
        same_width_rows [OF n rows])
  have "\<forall>r \<in> set (unite_rows n A B). row_ok n (length (unite_rows n A B)) r"
    using first row_ok_update [of n "1 + length A + length B" "?b[nat n := 1]" "1 + length A"] B0
    by (simp add: unite_rows_def)
  then show "fa_ok n False (unite_rows n A B) (- 1 # ta @ tb)"
    using n fa_okD(3,4) [OF A] fa_okD(3,4) [OF B] by (intro fa_ok_rows) (auto simp: unite_rows_def)
qed

lemma read_epsilon [simp]: "read_symbol n (nat n) = []" "read_symbol n (Suc (nat n)) = []"
  by (simp_all add: read_symbol_def)

lemma reach_epsilon: "edge R s (nat n) t \<or> edge R s (Suc (nat n)) t \<Longrightarrow> reach n R t w u \<Longrightarrow> reach n R s w u"
  using reach_edge [of R s "nat n" t n w u] reach_edge [of R s "Suc (nat n)" t n w u] by auto

lemma edge_epsilon_row:
  assumes "s < length C" "C ! s = ((blank n False)[nat n := e0])[Suc (nat n) := e1]"
  shows "edge C s x t \<longleftrightarrow> (x = nat n \<and> e0 = int t) \<or> (x = Suc (nat n) \<and> e1 = int t)"
  using assms by (auto simp: edge_def nth_list_update blank_nth)

lemma unite_recognizes:
  assumes A: "fa_ok n da A ta" and B: "fa_ok n db B tb"
  defines "C \<equiv> unite_rows n A B" and "tc \<equiv> - 1 # ta @ tb"
  shows "recognizes (fa_of n False C tc) w token \<longleftrightarrow>
     recognizes (fa_of n da A ta) w token \<or> recognizes (fa_of n db B tb) w token"
proof -
  have ok: "fa_ok n False C tc" unfolding C_def tc_def by (rule unite_of(2) [OF A B])
  have lens: "length C = 1 + length A + length B" "length ta = length A" "length tb = length B"
    using fa_okD(3) [OF A] fa_okD(3) [OF B] by (simp_all add: C_def unite_rows_def)
  have start: "edge C 0 x t \<longleftrightarrow> (x = nat n \<and> t = 1) \<or> (x = Suc (nat n) \<and> t = 1 + length A)" for x t
    using edge_epsilon_row [of 0 C n 1 "int (1 + length A)" x t] by (auto simp: C_def unite_rows_def)
  have eA: "edge C (1 + s) x t' \<longleftrightarrow> (\<exists>t. t' = 1 + t \<and> edge A s x t)" if "s < length A" for s x t'
    using that lens by (intro edge_shift [OF A]) (simp_all add: C_def unite_rows_def nth_append)
  have eB: "edge C (1 + length A + s) x t' \<longleftrightarrow> (\<exists>t. t' = 1 + length A + t \<and> edge B s x t)"
    if "s < length B" for s x t'
    using that lens by (intro edge_shift [OF B]) (simp_all add: C_def unite_rows_def nth_append)
  have A0: "0 < length A" "0 < length B" using fa_okD(2) [OF A] fa_okD(2) [OF B] by simp_all
  have rA: "reach n C 1 w u' \<longleftrightarrow> (\<exists>u. u' = 1 + u \<and> reach n A 0 w u)" for w u'
    using reach_embed [OF A eA A0(1)] by simp
  have rB: "reach n C (1 + length A) w u' \<longleftrightarrow> (\<exists>u. u' = 1 + length A + u \<and> reach n B 0 w u)" for w u'
    using reach_embed [OF B eB A0(2)] by simp
  have r0: "reach n C 0 w u' \<and> u' \<noteq> 0 \<longleftrightarrow> (reach n C 1 w u' \<or> reach n C (1 + length A) w u') \<and> u' \<noteq> 0"
    for w u'
  proof
    assume r: "reach n C 0 w u' \<and> u' \<noteq> 0"
    then obtain x t v where "edge C 0 x t" "w = read_symbol n x @ v" "reach n C t v u'"
      by (blast elim: reachE)
    then show "(reach n C 1 w u' \<or> reach n C (1 + length A) w u') \<and> u' \<noteq> 0"
      using r unfolding start by auto
  next
    assume r: "(reach n C 1 w u' \<or> reach n C (1 + length A) w u') \<and> u' \<noteq> 0"
    have "edge C 0 (nat n) 1" "edge C 0 (Suc (nat n)) (1 + length A)" by (simp_all add: start)
    then show "reach n C 0 w u' \<and> u' \<noteq> 0" using r reach_epsilon by blast
  qed
  have tcA: "tc ! (1 + u) = ta ! u" if "u < length A" for u
    using that lens by (simp add: tc_def nth_append)
  have tcB: "tc ! (1 + length A + u) = tb ! u" if "u < length B" for u
    using that lens by (simp add: tc_def nth_append)
  have cA: "u < length A" if "reach n A 0 w u" for u using reach_closed [OF A that A0(1)] .
  have cB: "u < length B" if "reach n B 0 w u" for u using reach_closed [OF B that A0(2)] .
  show ?thesis
    unfolding recognizes_of [OF ok] recognizes_of [OF A] recognizes_of [OF B]
  proof
    assume "\<exists>u < length C. reach n C 0 w u \<and> tc ! u = token \<and> 0 \<le> token"
    then obtain u where u: "reach n C 0 w u" "tc ! u = token" "0 \<le> token" by blast
    then have "u \<noteq> 0" by (cases u) (auto simp: tc_def)
    then have "reach n C 1 w u \<or> reach n C (1 + length A) w u" using r0 u(1) by blast
    then show "(\<exists>u < length A. reach n A 0 w u \<and> ta ! u = token \<and> 0 \<le> token) \<or>
        (\<exists>u < length B. reach n B 0 w u \<and> tb ! u = token \<and> 0 \<le> token)"
      unfolding rA rB using u(2,3) tcA tcB cA cB by metis
  next
    assume "(\<exists>u < length A. reach n A 0 w u \<and> ta ! u = token \<and> 0 \<le> token) \<or>
        (\<exists>u < length B. reach n B 0 w u \<and> tb ! u = token \<and> 0 \<le> token)"
    then show "\<exists>u < length C. reach n C 0 w u \<and> tc ! u = token \<and> 0 \<le> token"
    proof (elim disjE exE conjE)
      fix u assume u: "u < length A" "reach n A 0 w u" "ta ! u = token" "0 \<le> token"
      then have "reach n C 0 w (1 + u)" using r0 rA by blast
      then show ?thesis using u tcA [OF u(1)] lens by (intro exI [of _ "1 + u"]) simp
    next
      fix u assume u: "u < length B" "reach n B 0 w u" "tb ! u = token" "0 \<le> token"
      then have "reach n C 0 w (1 + length A + u)" using r0 rB by blast
      then show ?thesis using u tcB [OF u(1)] lens by (intro exI [of _ "1 + length A + u"]) simp
    qed
  qed
qed

lemma unite_sinks:
  assumes A: "fa_ok n da A ta" and B: "fa_ok n db B tb"
    and "sinks (fa_of n da A ta)" "sinks (fa_of n db B tb)"
  shows "sinks (fa_of n False (unite_rows n A B) (- 1 # ta @ tb))"
  unfolding sinks_of [OF unite_of(2) [OF A B]]
proof (intro allI impI)
  fix s assume s: "s < length (unite_rows n A B)" "(- 1 # ta @ tb) ! s \<noteq> - 1"
  have keep: "\<forall>x \<in> set (shift_row n False off r). x = - 1" if "\<forall>x \<in> set r. x = - 1" for off r
    using that by (auto simp: shift_row_def)
  have lens: "length ta = length A" "length tb = length B" using fa_okD(3) [OF A] fa_okD(3) [OF B] by simp_all
  have sA: "\<forall>s < length A. ta ! s \<noteq> - 1 \<longrightarrow> (\<forall>x \<in> set (A ! s). x = - 1)"
    and sB: "\<forall>s < length B. tb ! s \<noteq> - 1 \<longrightarrow> (\<forall>x \<in> set (B ! s). x = - 1)"
    using assms(3,4) unfolding sinks_of [OF A] sinks_of [OF B] by blast+
  obtain p where p: "s = Suc p" using s(2) by (cases s) auto
  show "\<forall>x \<in> set (unite_rows n A B ! s). x = - 1"
  proof (cases "p < length A")
    case True
    then have "unite_rows n A B ! s = shift_row n False 1 (A ! p)" "ta ! p \<noteq> - 1"
      using s(2) lens by (simp_all add: p unite_rows_def nth_append)
    then show ?thesis using keep sA True by metis
  next
    case False
    then have "p - length A < length B" using s(1) by (simp add: p unite_rows_def)
    moreover from this have "unite_rows n A B ! s = shift_row n False (1 + length A) (B ! (p - length A))"
      "tb ! (p - length A) \<noteq> - 1"
      using False s(2) lens by (simp_all add: p unite_rows_def nth_append)
    ultimately show ?thesis using keep sB by metis
  qed
qed

text \<open>The loops that rewrite the rows and tokens of the accepting states.\<close>

definition upd_rows :: "int list \<Rightarrow> (int list \<Rightarrow> int list) \<Rightarrow> int list list \<Rightarrow> int list list" where
  "upd_rows ta g A = map2 (\<lambda>t r. if t \<noteq> - 1 then g r else r) ta A"

lemma upd_rows_simps [simp]:
  "length ta = length A \<Longrightarrow> length (upd_rows ta g A) = length A"
  "length ta = length A \<Longrightarrow> s < length A \<Longrightarrow>
     upd_rows ta g A ! s = (if ta ! s \<noteq> - 1 then g (A ! s) else A ! s)"
  by (simp_all add: upd_rows_def)

lemma upd_rows_snoc:
  assumes "length ta = length A" "s < length A"
  shows "upd_rows (take (Suc s) ta) g (take (Suc s) A) =
     upd_rows (take s ta) g (take s A) @ [if ta ! s \<noteq> - 1 then g (A ! s) else A ! s]"
  using assms by (simp add: upd_rows_def take_Suc_conv_app_nth)

lemma accepting_loop:
  assumes len: "length ta = length A" and A: "\<forall>r \<in> set (A @ Z). row_ok n m r" and m: "m = length (A @ Z)"
    and zc: "length zc = length Z"
    and acc: "\<And>s. s < length A \<Longrightarrow> accepts a (int s) = Some (ta ! s)"
    and f: "\<And>s R ac. s < length A \<Longrightarrow> ta ! s \<noteq> - 1 \<Longrightarrow> length R = m \<Longrightarrow> R ! s = A ! s \<Longrightarrow>
        \<forall>r \<in> set R. row_ok n m r \<Longrightarrow> length ac = m \<Longrightarrow>
        f (int s) (fa_of n False R ac) = Some (fa_of n False (R[s := g (A ! s)]) (ac[s := - 1]))"
    and g: "\<And>s. s < length A \<Longrightarrow> ta ! s \<noteq> - 1 \<Longrightarrow> row_ok n m (g (A ! s))"
  shows "for_range 0 (int (length A)) (\<lambda>i out. do {
       t \<leftarrow> accepts a i;
       if t \<noteq> - 1 then f i out else Some out
     }) (fa_of n False (A @ Z) (ta @ zc)) =
     Some (fa_of n False (upd_rows ta g A @ Z) (replicate (length A) (- 1) @ zc))"
proof -
  let ?f = "\<lambda>i out. do { t \<leftarrow> accepts a i; if t \<noteq> - 1 then f i out else Some out }"
  let ?R = "\<lambda>k. upd_rows (take k ta) g (take k A) @ drop k A @ Z"
  let ?c = "\<lambda>k. replicate k (- 1) @ drop k ta @ zc"
  have "\<exists>out. for_range 0 (int (length A)) ?f (fa_of n False (A @ Z) (ta @ zc)) = Some out \<and>
      (\<lambda>i out. out = fa_of n False (?R (nat i)) (?c (nat i))) (int (length A)) out"
  proof (rule for_range_rule)
    show "fa_of n False (A @ Z) (ta @ zc) = fa_of n False (?R (nat 0)) (?c (nat 0))"
      by (simp add: upd_rows_def)
    fix i out assume i: "0 \<le> i" "i < int (length A)" and out: "out = fa_of n False (?R (nat i)) (?c (nat i))"
    define k where "k = nat i"
    have k: "i = int k" "k < length A" "nat (i + 1) = Suc k" using i by (auto simp: k_def)
    have dA: "drop k A = A ! k # drop (Suc k) A" "drop k ta = ta ! k # drop (Suc k) ta"
      using k(2) len by (simp_all add: Cons_nth_drop_Suc)
    have lenR: "length (?R k) = m" "length (?c k) = m" using k(2) len m zc by simp_all
    have nth: "?R k ! k = A ! k" using k(2) len dA by (simp add: nth_append)
    have rows: "\<forall>r \<in> set (?R k). row_ok n m r"
    proof
      fix r assume "r \<in> set (?R k)"
      then have "r \<in> set (upd_rows (take k ta) g (take k A)) \<or> r \<in> set (A @ Z)"
        by (auto dest: in_set_dropD)
      then show "row_ok n m r"
      proof
        assume "r \<in> set (upd_rows (take k ta) g (take k A))"
        then obtain s where s: "s < k" "r = upd_rows (take k ta) g (take k A) ! s"
          using k(2) len by (auto simp: in_set_conv_nth)
        then have "r = (if ta ! s \<noteq> - 1 then g (A ! s) else A ! s)" "s < length A" using k(2) len by simp_all
        then show "row_ok n m r" using g A by auto
      qed (use A in blast)
    qed
    have Rs: "?R (Suc k) = (?R k)[k := if ta ! k \<noteq> - 1 then g (A ! k) else A ! k]"
      using k(2) len dA upd_rows_snoc [OF len k(2), of g] by (simp add: list_update_append)
    have cs: "?c (Suc k) = (?c k)[k := - 1]"
      using k(2) len dA by (simp add: list_update_append replicate_app_Cons_same)
    have kept: "?R (Suc k) = ?R k" "?c (Suc k) = ?c k" if "ta ! k = - 1"
    proof -
      show "?R (Suc k) = ?R k" unfolding Rs using that nth by (simp only: simp_thms if_False list_update_id nth [symmetric])
      have "?c k ! k = - 1" using that dA k(2) by (simp add: nth_append)
      then show "?c (Suc k) = ?c k" unfolding cs by (metis list_update_id)
    qed
    have "?f i out = Some (fa_of n False (?R (Suc k)) (?c (Suc k)))"
    proof (cases "ta ! k = - 1")
      case True
      have "?f i out = Some out" unfolding k(1) using acc [OF k(2)] True by simp
      moreover have "out = fa_of n False (?R (Suc k)) (?c (Suc k))"
        using out unfolding k_def [symmetric] kept [OF True] .
      ultimately show ?thesis by (simp only:)
    next
      case False
      then show ?thesis
        using acc [OF k(2)] f [OF k(2) False lenR(1) nth rows lenR(2)] out Rs cs
        unfolding k_def [symmetric] k(1) by simp
    qed
    then show "\<exists>out'. ?f i out = Some out' \<and> out' = fa_of n False (?R (nat (i + 1))) (?c (nat (i + 1)))"
      unfolding k(3) by blast
  qed simp
  then show ?thesis using len by simp
qed

lemma token_loop:
  assumes tb: "\<forall>t \<in> set tb. - 1 \<le> t" and token: "0 \<le> token"
    and acc: "\<And>s. s < length tb \<Longrightarrow> accepts b (int s) = Some (tb ! s)"
  shows "for_range 0 (int (length tb)) (\<lambda>i out. do {
       t \<leftarrow> accepts b i;
       if t \<noteq> - 1 then add_accept out (i + int (length xs)) token else Some out
     }) (fa_of n det R (xs @ tb)) =
     Some (fa_of n det R (xs @ map (\<lambda>t. if t \<noteq> - 1 then token else - 1) tb))"
proof -
  let ?f = "\<lambda>i out. do {
       t \<leftarrow> accepts b i;
       if t \<noteq> - 1 then add_accept out (i + int (length xs)) token else Some out }"
  let ?h = "\<lambda>t. if t \<noteq> - 1 then token else - 1"
  let ?c = "\<lambda>k. xs @ map ?h (take k tb) @ drop k tb"
  have "\<exists>out. for_range 0 (int (length tb)) ?f (fa_of n det R (xs @ tb)) = Some out \<and>
      (\<lambda>i out. out = fa_of n det R (?c (nat i))) (int (length tb)) out"
  proof (rule for_range_rule)
    fix i out assume i: "0 \<le> i" "i < int (length tb)" and out: "out = fa_of n det R (?c (nat i))"
    define k where "k = nat i"
    have k: "i = int k" "k < length tb" "nat (i + 1) = Suc k" using i by (auto simp: k_def)
    have d: "drop k tb = tb ! k # drop (Suc k) tb" using k(2) by (simp add: Cons_nth_drop_Suc)
    have cs: "?c (Suc k) = (?c k)[length xs + k := ?h (tb ! k)]"
      using k(2) d by (simp add: take_Suc_conv_app_nth list_update_append)
    have at: "?c k ! (length xs + k) = tb ! k" using k(2) d by (simp add: nth_append)
    have "?f i out = Some (fa_of n det R (?c (Suc k)))"
    proof (cases "tb ! k = - 1")
      case True
      then have "?c (Suc k) = (?c k)[length xs + k := ?c k ! (length xs + k)]" unfolding cs at by simp
      then have "?c (Suc k) = ?c k" by (simp only: list_update_id)
      then have "out = fa_of n det R (?c (Suc k))" using out unfolding k_def [symmetric] by (simp only:)
      moreover have "?f i out = Some out" unfolding k(1) using acc [OF k(2)] True by simp
      ultimately show ?thesis by (simp only:)
    next
      case False
      have "length xs + k < length (?c k)" using k(2) by simp
      from add_accept_of [OF this token, of n det R]
      have "add_accept out (int (length xs + k)) token = Some (fa_of n det R (?c (Suc k)))"
        using False out cs unfolding k_def [symmetric] by (simp only: if_True simp_thms)
      then show ?thesis unfolding k(1) using acc [OF k(2)] False by (simp add: add.commute)
    qed
    then show "\<exists>out'. ?f i out = Some out' \<and> out' = fa_of n det R (?c (nat (i + 1)))" unfolding k(3) by blast
  qed simp_all
  then show ?thesis by simp
qed

lemma token_loop_at:
  assumes "\<forall>t \<in> set tb. - 1 \<le> t" "0 \<le> token" "\<And>s. s < length tb \<Longrightarrow> accepts b (int s) = Some (tb ! s)"
    and off: "length xs = off"
  shows "for_range 0 (int (length tb)) (\<lambda>i out. do {
       t \<leftarrow> accepts b i;
       if t \<noteq> - 1 then add_accept out (i + int off) token else Some out
     }) (fa_of n det R (xs @ tb)) =
     Some (fa_of n det R (xs @ map (\<lambda>t. if t \<noteq> - 1 then token else - 1) tb))"
  unfolding off [symmetric] by (rule token_loop [OF assms(1-3)])

text \<open>The automaton of \<open>concat\<close>.\<close>

definition concat_rows :: "int \<Rightarrow> int list list \<Rightarrow> int list \<Rightarrow> int list list \<Rightarrow> int list list" where
  "concat_rows n A ta B = upd_rows ta (\<lambda>r. r[nat n := int (length A)]) (map (shift_row n False 0) A) @
     map (shift_row n False (length A)) B"

definition concat_tokens :: "int list \<Rightarrow> int list \<Rightarrow> int \<Rightarrow> int list" where
  "concat_tokens ta tb token =
     replicate (length ta) (- 1) @ map (\<lambda>t. if t \<noteq> - 1 then token else - 1) tb"

lemma sink_row:
  assumes A: "fa_ok n da A ta" and "sinks (fa_of n da A ta)" and s: "s < length A" "ta ! s \<noteq> - 1"
  shows "shift_row n False off (A ! s) = blank n False"
proof (rule nth_equalityI)
  have "length (A ! s) = width n da" by (rule same_width_row [OF fa_okD(1) [OF A] s(1)])
  moreover have "width n da \<le> width n False" by (rule width_le) simp
  ultimately show "length (shift_row n False off (A ! s)) = length (blank n False)" by simp
  have "\<forall>x \<in> set (A ! s). x = - 1" using assms(2) s unfolding sinks_of [OF A] by blast
  then have none: "A ! s ! x = - 1" if "x < length (A ! s)" for x using that by simp
  fix x assume "x < length (shift_row n False off (A ! s))"
  then have "x < width n False" using \<open>length (A ! s) = width n da\<close> \<open>width n da \<le> width n False\<close> by simp
  then show "shift_row n False off (A ! s) ! x = blank n False ! x"
    using none by (auto simp: nth_shift_row blank_nth)
qed

lemma fa_concat_of:
  assumes A: "fa_ok n da A ta" and B: "fa_ok n db B tb" and sink: "sinks (fa_of n da A ta)"
    and token: "0 \<le> token"
  shows "fa_concat (fa_of n da A ta) (fa_of n db B tb) token =
       Some (fa_of n False (concat_rows n A ta B) (concat_tokens ta tb token))"
    and "fa_ok n False (concat_rows n A ta B) (concat_tokens ta tb token)"
proof -
  note n = same_widthD(1) [OF fa_okD(1) [OF A]] and lta = fa_okD(3) [OF A] and ltb = fa_okD(3) [OF B]
  let ?a = "fa_of n da A ta" and ?b = "fa_of n db B tb"
  let ?m = "length A + length B"
  let ?A = "map (shift_row n False 0) A" and ?B = "map (shift_row n False (length A)) B"
  let ?g = "\<lambda>r. r[nat n := int (length A)]"
  have B0: "0 < length B" "0 < length A" using fa_okD(2) [OF B] fa_okD(2) [OF A] by simp_all
  have sA: "\<forall>r \<in> set ?A. row_ok n ?m r" using row_ok_shift [OF A, of _ 0 ?m] by auto
  have sB: "\<forall>r \<in> set ?B. row_ok n ?m r" using row_ok_shift [OF B, of _ "length A" ?m] by auto
  have rows: "\<forall>r \<in> set (?A @ ?B). row_ok n ?m r" using sA sB by auto
  have sw: "same_width n False []" "same_width n False ?A" "same_width n False (?A @ ?B)"
    using n sA rows by (auto intro!: same_width_rows [where m = ?m])
  have free: "?A ! s = blank n False" if "s < length A" "ta ! s \<noteq> - 1" for s
    using sink_row [OF A sink that] that by simp
  let ?f = "\<lambda>i out. do { out \<leftarrow> add_transition out i n (int (length A)); remove_accept out i }"
  have loop1: "for_range 0 (int (length ?A)) (\<lambda>i out. do {
       t \<leftarrow> accepts ?a i;
       if t \<noteq> - 1 then ?f i out else Some out
     }) (fa_of n False (?A @ ?B) (ta @ tb)) =
     Some (fa_of n False (upd_rows ta ?g ?A @ ?B) (replicate (length ?A) (- 1) @ tb))"
  proof (rule accepting_loop [where m = ?m])
    fix s R and ac :: "int list"
    assume s: "s < length ?A" "ta ! s \<noteq> - 1" and R: "length R = ?m" "R ! s = ?A ! s"
      "\<forall>r \<in> set R. row_ok n ?m r" and ac: "length ac = ?m"
    have "R ! s ! nat n = - 1" using free [of s] s R(2) by (simp add: blank_nth)
    then have "add_transition (fa_of n False R ac) (int s) n (int (length A)) =
        Some (fa_of n False (R[s := ?g (R ! s)]) ac)"
      using s R B0 by (intro add_epsilons(1) [OF n R(3)]) simp_all
    then show "?f (int s) (fa_of n False R ac) = Some (fa_of n False (R[s := ?g (?A ! s)]) (ac[s := - 1]))"
      using s(1) ac R(2) by (simp add: remove_accept_of)
  next
    fix s assume "s < length ?A" "ta ! s \<noteq> - 1"
    then show "row_ok n ?m (?g (?A ! s))" using sA B0 by (intro row_ok_update) simp_all
  next
    show "accepts ?a (int s) = Some (ta ! s)" if "s < length ?A" for s
      using that lta by (intro accepts_of) simp
  qed (use lta ltb rows in simp_all)
  let ?R = "upd_rows ta ?g ?A @ ?B"
  have loop2: "for_range 0 (int (length tb)) (\<lambda>i out. do {
       t \<leftarrow> accepts ?b i;
       if t \<noteq> - 1 then add_accept out (i + int (length A)) token else Some out
     }) (fa_of n False ?R (replicate (length A) (- 1) @ tb)) =
     Some (fa_of n False ?R (replicate (length A) (- 1) @ map (\<lambda>t. if t \<noteq> - 1 then token else - 1) tb))"
    by (rule token_loop_at [OF fa_okD(4) [OF B] token accepts_of]) simp_all
  have sizes: "get_nstates (fa_of n False ?A acc) = Some (int (length A))" for acc
    using get_nstates_of [OF sw(2)] by simp
  show "fa_concat ?a ?b token = Some (fa_of n False (concat_rows n A ta B) (concat_tokens ta tb token))"
    using append_states_of [OF sw(1) _ A, of "[]"] append_states_of [OF sw(2) _ B, of ta] loop1 loop2 lta ltb
    by (simp add: fa_concat_def get_nstates_of fa_okD(1) [OF A] fa_okD(1) [OF B] new_fa_of n sizes
        concat_rows_def concat_tokens_def)
  have "\<forall>r \<in> set ?R. row_ok n ?m r"
  proof
    fix r assume "r \<in> set ?R"
    then consider "r \<in> set ?B" | s where "s < length A" "r = upd_rows ta ?g ?A ! s"
      using lta by (auto simp: in_set_conv_nth)
    then show "row_ok n ?m r"
    proof cases
      case 2
      then show ?thesis using lta sA B0 by (auto intro!: row_ok_update)
    qed (use sB in blast)
  qed
  moreover have "length ?R = ?m" using lta by simp
  ultimately show "fa_ok n False (concat_rows n A ta B) (concat_tokens ta tb token)"
    using n lta ltb B0 token unfolding concat_rows_def concat_tokens_def
    by (intro fa_ok_rows) auto
qed

lemma edge_shift_0:
  assumes ok: "fa_ok n det A acc" and s: "s < length A" "s < length C" and row: "C ! s = shift_row n False 0 (A ! s)"
  shows "edge C s x t \<longleftrightarrow> edge A s x t"
  using edge_shift [OF ok s(1), of 0 C x t] s(2) row by simp

lemma reach_mono:
  assumes "\<And>s x t. edge A s x t \<Longrightarrow> edge C s x t" and "reach n A s w u"
  shows "reach n C s w u"
  using assms(2) by induction (auto intro: reach_here reach_edge assms(1))

lemma no_edge_blank: "s < length C \<Longrightarrow> C ! s = blank n False \<Longrightarrow> \<not> edge C s x t"
  by (auto simp: edge_def blank_nth)

lemma no_edge_sink:
  assumes A: "fa_ok n da A ta" and "sinks (fa_of n da A ta)" "ta ! s \<noteq> - 1"
  shows "\<not> edge A s x t"
proof
  assume e: "edge A s x t"
  then have "s < length A" "x < length (A ! s)" by (simp_all add: edge_def)
  moreover from this have "A ! s ! x \<in> set (A ! s)" by simp
  ultimately have "A ! s ! x = - 1" using assms(2,3) unfolding sinks_of [OF A] by blast
  then show False using e by (simp add: edge_def)
qed

text \<open>A word that some state accepting a token is reached on.\<close>

definition accepted :: "fa \<Rightarrow> nat list \<Rightarrow> bool" where
  "accepted fa w \<longleftrightarrow> (\<exists>token. recognizes fa w token)"

lemma accepted_of:
  assumes "fa_ok n det R acc"
  shows "accepted (fa_of n det R acc) w \<longleftrightarrow> (\<exists>u < length R. reach n R 0 w u \<and> acc ! u \<noteq> - 1)"
proof -
  have "acc ! u \<noteq> - 1 \<longleftrightarrow> 0 \<le> acc ! u" if "u < length R" for u
  proof -
    have "acc ! u \<in> set acc" using that fa_okD(3) [OF assms] by simp
    then have "- 1 \<le> acc ! u" using fa_okD(4) [OF assms] by blast
    then show ?thesis by auto
  qed
  then show ?thesis unfolding accepted_def recognizes_of [OF assms] by auto
qed

lemma concat_recognizes:
  assumes A: "fa_ok n da A ta" and B: "fa_ok n db B tb" and sink: "sinks (fa_of n da A ta)"
    and token: "0 \<le> token"
  defines "C \<equiv> concat_rows n A ta B" and "tc \<equiv> concat_tokens ta tb token"
  shows "recognizes (fa_of n False C tc) w tok \<longleftrightarrow> tok = token \<and>
     (\<exists>v1 v2. w = v1 @ v2 \<and> accepted (fa_of n da A ta) v1 \<and> accepted (fa_of n db B tb) v2)"
proof -
  have ok: "fa_ok n False C tc" unfolding C_def tc_def by (rule fa_concat_of(2) [OF A B sink token])
  note lta = fa_okD(3) [OF A] and ltb = fa_okD(3) [OF B]
  have lens: "length C = length A + length B" using lta by (simp add: C_def concat_rows_def)
  have A0: "0 < length A" "0 < length B" using fa_okD(2) [OF A] fa_okD(2) [OF B] by simp_all
  have eA: "edge C s x t \<longleftrightarrow> (ta ! s \<noteq> - 1 \<and> x = nat n \<and> t = length A) \<or> edge A s x t"
    if s: "s < length A" for s x t
  proof (cases "ta ! s \<noteq> - 1")
    case True
    then have "C ! s = (blank n False)[nat n := int (length A)]"
      using s lta sink_row [OF A sink s True] by (simp add: C_def concat_rows_def nth_append)
    then have "edge C s x t \<longleftrightarrow> x = nat n \<and> t = length A"
      using s lens by (auto simp: edge_def nth_list_update blank_nth)
    then show ?thesis using True no_edge_sink [OF A sink True] by blast
  next
    case False
    then have "C ! s = shift_row n False 0 (A ! s)"
      using s lta by (simp add: C_def concat_rows_def nth_append)
    then show ?thesis using edge_shift_0 [OF A s] s lens False by simp
  qed
  have eB: "edge C (length A + s) x t' \<longleftrightarrow> (\<exists>t. t' = length A + t \<and> edge B s x t)"
    if "s < length B" for s x t'
    using that lens lta by (intro edge_shift [OF B]) (simp_all add: C_def concat_rows_def nth_append)
  have rB: "reach n C (length A) w u' \<longleftrightarrow> (\<exists>u. u' = length A + u \<and> reach n B 0 w u)" for w u'
    using reach_embed [OF B eB A0(2)] by simp
  have AC: "reach n C s w u" if "reach n A s w u" for s w u
    using that by (rule reach_mono [rotated]) (use eA edge_closed(1) [OF A] in blast)
  have split: "(u' < length A \<and> reach n A s w u') \<or> (\<exists>v1 v2 f. w = v1 @ v2 \<and> reach n A s v1 f \<and>
      f < length A \<and> ta ! f \<noteq> - 1 \<and> reach n C (length A) v2 u')"
    if "reach n C s w u'" "s < length A" for s w u'
    using that
  proof (induction rule: reach.induct)
    case (reach_here s)
    then show ?case by (auto intro: reach.reach_here)
  next
    case (reach_edge s x t w u)
    show ?case
    proof (cases "edge A s x t")
      case True
      then have t: "t < length A" by (rule edge_closed(3) [OF A])
      from reach_edge.IH [OF t] show ?thesis
      proof (elim disjE exE conjE)
        assume "u < length A" "reach n A t w u"
        then show ?thesis using reach.reach_edge [OF True] by blast
      next
        fix v1 v2 f
        assume v: "w = v1 @ v2" "reach n A t v1 f" "f < length A" "ta ! f \<noteq> - 1" "reach n C (length A) v2 u"
        have "read_symbol n x @ w = (read_symbol n x @ v1) @ v2" using v(1) by simp
        then show ?thesis using reach.reach_edge [OF True v(2)] v(3-5) by blast
      qed
    next
      case False
      then have f: "ta ! s \<noteq> - 1" "x = nat n" "t = length A"
        using reach_edge.hyps(1) eA [OF reach_edge.prems] by simp_all
      have "read_symbol n x @ w = [] @ w" using f(2) by simp
      then show ?thesis using f reach_edge.hyps(2) reach_edge.prems reach.reach_here by metis
    qed
  qed
  have tcA: "tc ! u = - 1" if "u < length A" for u using that lta by (simp add: tc_def concat_tokens_def nth_append)
  have tcB: "tc ! (length A + u) = (if tb ! u \<noteq> - 1 then token else - 1)" if "u < length B" for u
    using that lta ltb by (simp add: tc_def concat_tokens_def nth_append)
  show ?thesis
    unfolding recognizes_of [OF ok] accepted_of [OF A] accepted_of [OF B]
  proof
    assume "\<exists>u < length C. reach n C 0 w u \<and> tc ! u = tok \<and> 0 \<le> tok"
    then obtain u where u: "reach n C 0 w u" "tc ! u = tok" "0 \<le> tok" by blast
    then have "\<not> u < length A" using tcA by force
    then obtain v1 v2 f where v: "w = v1 @ v2" "reach n A 0 v1 f" "f < length A" "ta ! f \<noteq> - 1"
      "reach n C (length A) v2 u" using split [OF u(1) A0(1)] by blast
    then obtain p where p: "u = length A + p" "reach n B 0 v2 p" using rB by blast
    then have "p < length B" using reach_closed [OF B _ A0(2)] by blast
    then show "tok = token \<and> (\<exists>v1 v2. w = v1 @ v2 \<and> (\<exists>u < length A. reach n A 0 v1 u \<and> ta ! u \<noteq> - 1) \<and>
        (\<exists>u < length B. reach n B 0 v2 u \<and> tb ! u \<noteq> - 1))"
      using v p u(2,3) tcB [of p] by (auto split: if_splits)
  next
    assume "tok = token \<and> (\<exists>v1 v2. w = v1 @ v2 \<and> (\<exists>u < length A. reach n A 0 v1 u \<and> ta ! u \<noteq> - 1) \<and>
        (\<exists>u < length B. reach n B 0 v2 u \<and> tb ! u \<noteq> - 1))"
    then obtain v1 v2 f p where v: "tok = token" "w = v1 @ v2" "f < length A" "reach n A 0 v1 f" "ta ! f \<noteq> - 1"
      "p < length B" "reach n B 0 v2 p" "tb ! p \<noteq> - 1" by blast
    have "edge C f (nat n) (length A)" using eA [OF v(3)] v(5) by blast
    moreover have "reach n C (length A) v2 (length A + p)" using rB v(7) by blast
    ultimately have "reach n C f v2 (length A + p)" using reach_epsilon by blast
    then have "reach n C 0 w (length A + p)" unfolding v(2) using reach_trans [OF AC [OF v(4)]] by blast
    then show "\<exists>u < length C. reach n C 0 w u \<and> tc ! u = tok \<and> 0 \<le> tok"
      using v(1,6,8) tcB [OF v(6)] token lens by (intro exI [of _ "length A + p"]) simp
  qed
qed

lemma concat_sinks:
  assumes A: "fa_ok n da A ta" and B: "fa_ok n db B tb" and sink: "sinks (fa_of n da A ta)" "sinks (fa_of n db B tb)"
    and token: "0 \<le> token"
  shows "sinks (fa_of n False (concat_rows n A ta B) (concat_tokens ta tb token))"
  unfolding sinks_of [OF fa_concat_of(2) [OF A B sink(1) token]]
proof (intro allI impI)
  fix s assume s: "s < length (concat_rows n A ta B)" "concat_tokens ta tb token ! s \<noteq> - 1"
  note lta = fa_okD(3) [OF A] and ltb = fa_okD(3) [OF B]
  have "\<not> s < length A" using s(2) lta by (auto simp: concat_tokens_def nth_append)
  moreover have "s < length A + length B" using s(1) lta by (simp add: concat_rows_def)
  ultimately obtain p where p: "s = length A + p" "p < length B" by (metis add_less_cancel_left le_add_diff_inverse not_less)
  then have "tb ! p \<noteq> - 1" using s(2) lta ltb by (simp add: concat_tokens_def nth_append split: if_splits)
  then have "concat_rows n A ta B ! s = blank n False"
    using sink_row [OF B sink(2) p(2)] p lta by (simp add: concat_rows_def nth_append)
  then show "\<forall>x \<in> set (concat_rows n A ta B ! s). x = - 1" by (simp add: blank_def)
qed

text \<open>The automaton of \<open>plus\<close>.\<close>

definition plus_rows :: "int \<Rightarrow> int list list \<Rightarrow> int list \<Rightarrow> int list list" where
  "plus_rows n A ta =
     upd_rows ta (\<lambda>r. (r[nat n := int (length A)])[Suc (nat n) := 0]) (map (shift_row n False 0) A) @ [blank n False]"

definition plus_tokens :: "int list \<Rightarrow> int \<Rightarrow> int list" where
  "plus_tokens ta token = replicate (length ta) (- 1) @ [token]"

lemma fa_plus_of:
  assumes A: "fa_ok n da A ta" and sink: "sinks (fa_of n da A ta)" and token: "0 \<le> token"
  shows "fa_plus (fa_of n da A ta) token = Some (fa_of n False (plus_rows n A ta) (plus_tokens ta token))"
    and "fa_ok n False (plus_rows n A ta) (plus_tokens ta token)"
proof -
  note n = same_widthD(1) [OF fa_okD(1) [OF A]] and lta = fa_okD(3) [OF A]
  let ?a = "fa_of n da A ta" and ?m = "length A + 1" and ?A = "map (shift_row n False 0) A"
  let ?g = "\<lambda>r. (r[nat n := int (length A)])[Suc (nat n) := 0]"
  have A0: "0 < length A" using fa_okD(2) [OF A] by simp
  have sA: "\<forall>r \<in> set ?A. row_ok n ?m r" using row_ok_shift [OF A, of _ 0 ?m] by auto
  then have rows: "\<forall>r \<in> set (?A @ [blank n False]). row_ok n ?m r" by auto
  have sw: "same_width n False []" "same_width n False ?A"
    using n sA by (auto intro!: same_width_rows [where m = ?m])
  have g_ok: "row_ok n ?m (?g r)" if "row_ok n ?m r" for r
    using row_ok_update [OF row_ok_update [OF that, of "length A"], of 0 "nat n" "Suc (nat n)"] by simp
  have free: "?A ! s = blank n False" if "s < length A" "ta ! s \<noteq> - 1" for s
    using sink_row [OF A sink that] that by simp
  let ?f = "\<lambda>i out. do {
      out \<leftarrow> add_transition out i n (int (length A));
      out \<leftarrow> add_transition out i (n + 1) 0;
      remove_accept out i }"
  have loop: "for_range 0 (int (length ?A)) (\<lambda>i out. do {
       t \<leftarrow> accepts ?a i;
       if t \<noteq> - 1 then ?f i out else Some out
     }) (fa_of n False (?A @ [blank n False]) (ta @ [token])) =
     Some (fa_of n False (upd_rows ta ?g ?A @ [blank n False]) (replicate (length ?A) (- 1) @ [token]))"
  proof (rule accepting_loop [where m = ?m])
    fix s R and ac :: "int list"
    assume s: "s < length ?A" "ta ! s \<noteq> - 1" and R: "length R = ?m" "R ! s = ?A ! s"
      "\<forall>r \<in> set R. row_ok n ?m r" and ac: "length ac = ?m"
    have b: "R ! s = blank n False" using free [of s] s R(2) by simp
    then have b0: "R ! s ! nat n = - 1" "R ! s ! Suc (nat n) = - 1" "length (R ! s) = nat n + 2"
      by (simp_all only: length_blank width_False) (simp_all add: blank_nth)
    let ?R = "R[s := (R ! s)[nat n := int (length A)]]"
    have "add_transition (fa_of n False R ac) (int s) n (int (length A)) = Some (fa_of n False ?R ac)"
      using s(1) R(1) b0 by (intro add_epsilons(1) [OF n R(3)]) simp_all
    moreover have R': "\<forall>r \<in> set ?R. row_ok n ?m r"
      using R(1,3) s set_update_subset_insert [of R s "(R ! s)[nat n := int (length A)]"]
        row_ok_update [of n ?m "R ! s" "length A" "nat n"] by force
    have "add_transition (fa_of n False ?R ac) (int s) (n + 1) (int 0) =
        Some (fa_of n False (?R[s := (?R ! s)[Suc (nat n) := int 0]]) ac)"
      using s(1) R(1) A0 b0 by (intro add_epsilons(2) [OF n R']) simp_all
    moreover have "?R[s := (?R ! s)[Suc (nat n) := int 0]] = R[s := ?g (?A ! s)]"
      using s R by simp
    ultimately show "?f (int s) (fa_of n False R ac) = Some (fa_of n False (R[s := ?g (?A ! s)]) (ac[s := - 1]))"
      using s(1) ac by (simp add: remove_accept_of)
  next
    fix s assume "s < length ?A" "ta ! s \<noteq> - 1"
    then show "row_ok n ?m (?g (?A ! s))" using sA by (intro g_ok) simp
  next
    show "accepts ?a (int s) = Some (ta ! s)" if "s < length ?A" for s
      using that lta by (intro accepts_of) simp
  qed (use lta rows in simp_all)
  have "(ta @ [- 1])[length A := token] = ta @ [token]" unfolding lta [symmetric] by simp
  then have "add_accept (fa_of n False (?A @ [blank n False]) (ta @ [- 1])) (int (length A)) token =
      Some (fa_of n False (?A @ [blank n False]) (ta @ [token]))"
    using add_accept_of [of "length A" "ta @ [- 1]" token n False] token lta by simp
  then show "fa_plus ?a token = Some (fa_of n False (plus_rows n A ta) (plus_tokens ta token))"
    using append_states_of [OF sw(1) _ A, of "[]"] loop add_state_of [OF sw(2), of ta] lta
    by (simp add: fa_plus_def get_nstates_of fa_okD(1) [OF A] new_fa_of n plus_rows_def plus_tokens_def)
  have "\<forall>r \<in> set (plus_rows n A ta). row_ok n ?m r"
  proof
    fix r assume "r \<in> set (plus_rows n A ta)"
    then consider "r = blank n False" | s where "s < length A" "r = upd_rows ta ?g ?A ! s"
      using lta by (auto simp: in_set_conv_nth plus_rows_def)
    then show "row_ok n ?m r"
    proof cases
      case 2
      then show ?thesis using lta sA g_ok by auto
    qed simp
  qed
  moreover have "length (plus_rows n A ta) = ?m" using lta by (simp add: plus_rows_def)
  ultimately show "fa_ok n False (plus_rows n A ta) (plus_tokens ta token)"
    using n lta token by (intro fa_ok_rows) (auto simp: plus_rows_def plus_tokens_def)
qed

lemma plus_recognizes:
  assumes A: "fa_ok n da A ta" and sink: "sinks (fa_of n da A ta)" and token: "0 \<le> token"
  defines "C \<equiv> plus_rows n A ta" and "tc \<equiv> plus_tokens ta token"
  shows "recognizes (fa_of n False C tc) w tok \<longleftrightarrow> tok = token \<and>
     (\<exists>ws. ws \<noteq> [] \<and> w = concat ws \<and> (\<forall>v \<in> set ws. accepted (fa_of n da A ta) v))"
proof -
  have ok: "fa_ok n False C tc" unfolding C_def tc_def by (rule fa_plus_of(2) [OF A sink token])
  note lta = fa_okD(3) [OF A]
  have lens: "length C = length A + 1" using lta by (simp add: C_def plus_rows_def)
  have A0: "0 < length A" using fa_okD(2) [OF A] by simp
  have eA: "edge C s x t \<longleftrightarrow>
      (ta ! s \<noteq> - 1 \<and> (x = nat n \<and> t = length A \<or> x = Suc (nat n) \<and> t = 0)) \<or> edge A s x t"
    if s: "s < length A" for s x t
  proof (cases "ta ! s \<noteq> - 1")
    case True
    then have "C ! s = ((blank n False)[nat n := int (length A)])[Suc (nat n) := 0]"
      using s lta sink_row [OF A sink s True] by (simp add: C_def plus_rows_def nth_append)
    then have "edge C s x t \<longleftrightarrow> x = nat n \<and> t = length A \<or> x = Suc (nat n) \<and> t = 0"
      using edge_epsilon_row [of s C n "int (length A)" 0 x t] s lens by auto
    then show ?thesis using True no_edge_sink [OF A sink True] by blast
  next
    case False
    then have "C ! s = shift_row n False 0 (A ! s)"
      using s lta by (simp add: C_def plus_rows_def nth_append)
    then show ?thesis using edge_shift_0 [OF A s] s lens False by simp
  qed
  have end1: "\<not> edge C (length A) x t" for x t
    using lens lta by (intro no_edge_blank [of _ _ n]) (simp_all add: C_def plus_rows_def nth_append)
  have AC: "reach n C s w u" if "reach n A s w u" for s w u
    using that by (rule reach_mono [rotated]) (use eA edge_closed(1) [OF A] in blast)
  let ?acc = "\<lambda>v. \<exists>u < length A. reach n A 0 v u \<and> ta ! u \<noteq> - 1"
  have split: "\<exists>v f ws. w = v @ concat ws \<and> reach n A s v f \<and> f < length A \<and> ta ! f \<noteq> - 1 \<and> (\<forall>v \<in> set ws. ?acc v)"
    if "reach n C s w u'" "s < length A" "u' = length A" for s w u'
    using that
  proof (induction rule: reach.induct)
    case (reach_edge s x t w u)
    consider "ta ! s \<noteq> - 1" "x = nat n" "t = length A" | "ta ! s \<noteq> - 1" "x = Suc (nat n)" "t = 0"
      | "edge A s x t"
      using reach_edge.hyps(1) unfolding eA [OF reach_edge.prems(1)] by (elim disjE conjE)
    then show ?case
    proof cases
      case 1
      have "w = []"
        using reach_edge.hyps(2) unfolding 1(3) by (cases rule: reach.cases) (use end1 in blast)+
      then show ?thesis using 1 reach_edge.prems(1) reach.reach_here
        by (intro exI [of _ "[]"] exI [of _ s]) auto
    next
      case 2
      from reach_edge.IH [OF _ reach_edge.prems(2)] 2(3) A0 obtain v f ws where
        v: "w = v @ concat ws" "reach n A 0 v f" "f < length A" "ta ! f \<noteq> - 1" "\<forall>v \<in> set ws. ?acc v" by auto
      have "read_symbol n x @ w = [] @ concat (v # ws)" using v(1) 2(2) by simp
      moreover have "\<forall>v \<in> set (v # ws). ?acc v" using v by auto
      ultimately show ?thesis using 2(1) reach_edge.prems(1) reach.reach_here by metis
    next
      case 3
      from reach_edge.IH [OF edge_closed(3) [OF A 3] reach_edge.prems(2)] obtain v f ws where
        v: "w = v @ concat ws" "reach n A t v f" "f < length A" "ta ! f \<noteq> - 1" "\<forall>v \<in> set ws. ?acc v" by auto
      have "read_symbol n x @ w = (read_symbol n x @ v) @ concat ws" using v(1) by simp
      then show ?thesis using reach.reach_edge [OF 3 v(2)] v(3-5) by blast
    qed
  qed simp
  have once: "reach n C 0 v (length A)" and again: "reach n C 0 v 0" if "?acc v" for v
  proof -
    note accepting = that
    obtain f where f: "f < length A" "reach n A 0 v f" "ta ! f \<noteq> - 1" using accepting by blast
    have "reach n C f [] (length A)" "reach n C f [] 0"
      using eA [OF f(1)] f(3) reach_epsilon [OF _ reach_here] by blast+
    then show "reach n C 0 v (length A)" "reach n C 0 v 0"
      using reach_trans [OF AC [OF f(2)], of "[]"] by simp_all
  qed
  have join: "reach n C 0 (concat ws) (length A)" if "ws \<noteq> []" "\<forall>v \<in> set ws. ?acc v" for ws
    using that
  proof (induction ws rule: list_nonempty_induct)
    case (single v)
    then show ?case using once by simp
  next
    case (cons v ws)
    then show ?case using reach_trans [OF again [of v]] by simp
  qed
  have tcA: "tc ! u = - 1" if "u < length A" for u using that lta by (simp add: tc_def plus_tokens_def nth_append)
  have tcN: "tc ! length A = token" using lta by (simp add: tc_def plus_tokens_def nth_append)
  show ?thesis
    unfolding recognizes_of [OF ok] accepted_of [OF A]
  proof
    assume "\<exists>u < length C. reach n C 0 w u \<and> tc ! u = tok \<and> 0 \<le> tok"
    then obtain u where u: "u < length C" "reach n C 0 w u" "tc ! u = tok" "0 \<le> tok" by blast
    then have "u = length A" using tcA [of u] lens by force
    then obtain v f ws where v: "w = v @ concat ws" "reach n A 0 v f" "f < length A" "ta ! f \<noteq> - 1"
      "\<forall>v \<in> set ws. ?acc v" using split [OF u(2) A0] by blast
    then have "w = concat (v # ws)" "\<forall>v \<in> set (v # ws). ?acc v" by auto
    then show "tok = token \<and> (\<exists>ws. ws \<noteq> [] \<and> w = concat ws \<and> (\<forall>v \<in> set ws. ?acc v))"
      using u(3) tcN \<open>u = length A\<close> by blast
  next
    assume "tok = token \<and> (\<exists>ws. ws \<noteq> [] \<and> w = concat ws \<and> (\<forall>v \<in> set ws. ?acc v))"
    then show "\<exists>u < length C. reach n C 0 w u \<and> tc ! u = tok \<and> 0 \<le> tok"
      using join tcN lens token by (intro exI [of _ "length A"]) auto
  qed
qed

lemma plus_sinks:
  assumes A: "fa_ok n da A ta" and sink: "sinks (fa_of n da A ta)" and token: "0 \<le> token"
  shows "sinks (fa_of n False (plus_rows n A ta) (plus_tokens ta token))"
  unfolding sinks_of [OF fa_plus_of(2) [OF A sink token]]
  using fa_okD(3) [OF A]
  by (auto simp: plus_rows_def plus_tokens_def nth_append blank_def less_Suc_eq split: if_splits)

end
