(* ===== verification/Regular.thy ===== *)
theory Regular
  imports Finite_Automaton
begin

text \<open>
  The rest of the combinations of automata (\<open>src/src/Omega_h_finite_automaton.cpp\<close>): \<open>maybe\<close>, \<open>star\<close> and
  the automata of a set and a range of symbols, and what the reader of regular expressions
  (\<open>regex::Reader::at_reduce\<close> in \<open>src/src/Omega_h_regex.cpp\<close>) makes of the parts of an expression
  with them.  The automaton of a regular expression recognizes the words of the expression.
\<close>

section \<open>\<open>maybe\<close>\<close>

text \<open>The first accepting state from \<open>s\<close> on, or the number of states.\<close>

definition next_acc :: "int list \<Rightarrow> nat \<Rightarrow> nat" where
  "next_acc ta s = s + length (takeWhile (\<lambda>t. t = - 1) (drop s ta))"

lemma next_acc_ge: "s \<le> next_acc ta s"
  by (simp add: next_acc_def)

lemma next_acc_le: "s \<le> length ta \<Longrightarrow> next_acc ta s \<le> length ta"
  using length_takeWhile_le [of "\<lambda>t. t = - 1" "drop s ta"] by (simp add: next_acc_def)

lemma next_acc_hit: "next_acc ta s < length ta \<Longrightarrow> ta ! next_acc ta s \<noteq> - 1"
  using nth_length_takeWhile [of "\<lambda>t. t = - 1" "drop s ta"] by (simp add: next_acc_def less_diff_conv2 add.commute)

lemma next_acc_between:
  assumes "s \<le> j" "j < next_acc ta s"
  shows "ta ! j = - 1"
proof -
  have j: "j - s < length (takeWhile (\<lambda>t. t = - 1) (drop s ta))" using assms by (simp add: next_acc_def)
  then have "takeWhile (\<lambda>t. t = - 1) (drop s ta) ! (j - s) = drop s ta ! (j - s)" by (rule takeWhile_nth)
  moreover have "takeWhile (\<lambda>t. t = - 1) (drop s ta) ! (j - s) = - 1"
    using j nth_mem set_takeWhileD by fastforce
  moreover have "j - s < length (drop s ta)" using j length_takeWhile_le order_less_le_trans by blast
  ultimately show ?thesis using assms(1) by simp
qed

lemma next_acc_le_hit: "s \<le> j \<Longrightarrow> ta ! j \<noteq> - 1 \<Longrightarrow> next_acc ta s \<le> j"
  using next_acc_between [of s j ta] by (meson not_less)

definition maybe_rows :: "int \<Rightarrow> int list list \<Rightarrow> int list \<Rightarrow> int list list" where
  "maybe_rows n A ta =
     ((blank n False)[Suc (nat n) := 1])[nat n := int (1 + next_acc ta 0)] #
     map (\<lambda>s. if ta ! s \<noteq> - 1 then (blank n False)[nat n := int (1 + next_acc ta (Suc s))]
              else shift_row n False 1 (A ! s)) [0..<length A] @ [blank n False]"

definition maybe_tokens :: "int list \<Rightarrow> int \<Rightarrow> int list" where
  "maybe_tokens ta token = - 1 # replicate (length ta) (- 1) @ [token]"

text \<open>
  The loop of \<open>maybe\<close> links the new start and the accepting states; after the states below \<open>k\<close> the
  state \<open>last\<close> is the one link still open.
\<close>

definition maybe_inv :: "int \<Rightarrow> int list list \<Rightarrow> int list \<Rightarrow> nat \<Rightarrow> fa \<Rightarrow> int \<Rightarrow> bool" where
  "maybe_inv n A ta k out end_link \<longleftrightarrow> (\<exists>R l.
     out = fa_of n False R (- 1 # replicate k (- 1) @ drop k ta @ [- 1]) \<and> end_link = int l \<and>
     length R = length A + 2 \<and> (\<forall>r \<in> set R. row_ok n (length A + 2) r) \<and>
     R ! 0 = (if next_acc ta 0 < k then ((blank n False)[Suc (nat n) := 1])[nat n := int (1 + next_acc ta 0)]
              else (blank n False)[Suc (nat n) := 1]) \<and>
     (\<forall>s < length A. R ! Suc s =
        (if ta ! s \<noteq> - 1 then
           (if next_acc ta (Suc s) < k then (blank n False)[nat n := int (1 + next_acc ta (Suc s))]
            else blank n False)
         else shift_row n False 1 (A ! s))) \<and>
     R ! Suc (length A) = blank n False \<and>
     (l = 0 \<and> k \<le> next_acc ta 0 \<or>
      (\<exists>s < k. l = Suc s \<and> ta ! s \<noteq> - 1 \<and> s < length A \<and> k \<le> next_acc ta (Suc s))))"

text \<open>Linking \<open>last\<close> to the state \<open>k\<close>, the next accepting one, closes its link.\<close>

lemma maybe_link:
  assumes n: "0 \<le> n" and lta: "length ta = length A" and k: "k \<le> length A" "k < length A \<Longrightarrow> ta ! k \<noteq> - 1"
    and R: "length R = length A + 2" "\<forall>r \<in> set R. row_ok n (length A + 2) r"
    and R0: "R ! 0 = (if next_acc ta 0 < k then ((blank n False)[Suc (nat n) := 1])[nat n := int (1 + next_acc ta 0)]
              else (blank n False)[Suc (nat n) := 1])"
    and Rs: "\<And>s. s < length A \<Longrightarrow> R ! Suc s =
        (if ta ! s \<noteq> - 1 then
           (if next_acc ta (Suc s) < k then (blank n False)[nat n := int (1 + next_acc ta (Suc s))]
            else blank n False)
         else shift_row n False 1 (A ! s))"
    and RZ: "R ! Suc (length A) = blank n False"
    and l: "l = 0 \<and> k \<le> next_acc ta 0 \<or>
      (\<exists>s < k. l = Suc s \<and> ta ! s \<noteq> - 1 \<and> s < length A \<and> k \<le> next_acc ta (Suc s))"
  defines "R' \<equiv> R[l := (R ! l)[nat n := int (1 + k)]]"
  shows "add_transition (fa_of n False R acc) (int l) n (int (1 + k)) = Some (fa_of n False R' acc)"
    and "length R' = length A + 2" "\<forall>r \<in> set R'. row_ok n (length A + 2) r"
    and "R' ! 0 = (if next_acc ta 0 < Suc k then ((blank n False)[Suc (nat n) := 1])[nat n := int (1 + next_acc ta 0)]
              else (blank n False)[Suc (nat n) := 1])"
    and "\<And>s. s < length A \<Longrightarrow> R' ! Suc s =
        (if ta ! s \<noteq> - 1 then
           (if next_acc ta (Suc s) < Suc k then (blank n False)[nat n := int (1 + next_acc ta (Suc s))]
            else blank n False)
         else shift_row n False 1 (A ! s))"
    and "R' ! Suc (length A) = blank n False"
proof -
  have hit: "next_acc ta j \<le> k" if "j \<le> k" for j
  proof (cases "k < length A")
    case True
    then show ?thesis using next_acc_le_hit [OF that] k(2) by blast
  next
    case False
    then have "k = length ta" using k(1) lta by simp
    then show ?thesis using next_acc_le [of j ta] that by simp
  qed
  have ll: "l < length R" using l R(1) k(1) by auto
  have open_link: "R ! l ! nat n = - 1"
    using l
  proof (elim disjE exE conjE)
    assume "l = 0" "k \<le> next_acc ta 0"
    then show ?thesis using R0 by (simp add: blank_nth)
  next
    fix s assume "l = Suc s" "ta ! s \<noteq> - 1" "s < length A" "k \<le> next_acc ta (Suc s)"
    then show ?thesis using Rs [of s] by (simp add: blank_nth)
  qed
  show "add_transition (fa_of n False R acc) (int l) n (int (1 + k)) = Some (fa_of n False R' acc)"
    unfolding R'_def using R k(1) by (intro add_epsilons(1) [OF n R(2) ll _ open_link]) simp
  show len': "length R' = length A + 2" using R(1) by (simp add: R'_def)
  show "\<forall>r \<in> set R'. row_ok n (length A + 2) r"
  proof
    fix r assume "r \<in> set R'"
    then have "r \<in> set R \<or> r = (R ! l)[nat n := int (1 + k)]"
      using set_update_subset_insert [of R l "(R ! l)[nat n := int (1 + k)]"] by (auto simp: R'_def)
    then show "row_ok n (length A + 2) r"
      using R(2) row_ok_update [of n "length A + 2" "R ! l" "1 + k" "nat n"] ll k(1) by auto
  qed
  show "R' ! Suc (length A) = blank n False"
  proof -
    have "l \<noteq> Suc (length A)" using l by auto
    then show ?thesis using RZ by (simp add: R'_def)
  qed
  show "R' ! 0 = (if next_acc ta 0 < Suc k then ((blank n False)[Suc (nat n) := 1])[nat n := int (1 + next_acc ta 0)]
              else (blank n False)[Suc (nat n) := 1])"
    using l
  proof (elim disjE exE conjE)
    assume "l = 0" "k \<le> next_acc ta 0"
    moreover from this have "next_acc ta 0 = k" using hit [of 0] by simp
    ultimately show ?thesis using R0 R(1) by (simp add: R'_def)
  next
    fix s assume s: "s < k" "l = Suc s" "ta ! s \<noteq> - 1" "s < length A" "k \<le> next_acc ta (Suc s)"
    then have "next_acc ta 0 \<le> s" by (intro next_acc_le_hit) simp_all
    then show ?thesis using R0 s by (simp add: R'_def)
  qed
  show "R' ! Suc s =
        (if ta ! s \<noteq> - 1 then
           (if next_acc ta (Suc s) < Suc k then (blank n False)[nat n := int (1 + next_acc ta (Suc s))]
            else blank n False)
         else shift_row n False 1 (A ! s))" if s: "s < length A" for s
  proof (cases "l = Suc s")
    case True
    then have t: "ta ! s \<noteq> - 1" "s < k" "k \<le> next_acc ta (Suc s)" using l by auto
    moreover have "next_acc ta (Suc s) = k" using t hit [of "Suc s"] by simp
    ultimately show ?thesis using Rs [OF s] ll True by (simp add: R'_def)
  next
    case False
    have "next_acc ta (Suc s) \<noteq> k" if t: "ta ! s \<noteq> - 1"
    proof
      assume eq: "next_acc ta (Suc s) = k"
      then have sk: "s < k" using next_acc_ge [of "Suc s" ta] by simp
      from l show False
      proof (elim disjE exE conjE)
        assume "k \<le> next_acc ta 0"
        then show False using next_acc_le_hit [of 0 s ta] t sk by simp
      next
        fix p assume p: "p < k" "l = Suc p" "ta ! p \<noteq> - 1" "k \<le> next_acc ta (Suc p)"
        then have "p \<noteq> s" using False by simp
        then consider "p < s" | "s < p" by linarith
        then show False
        proof cases
          case 1
          then show False using next_acc_le_hit [of "Suc p" s ta] t sk p(4) by simp
        next
          case 2
          then show False using next_acc_le_hit [of "Suc s" p ta] p(1,3) eq by simp
        qed
      qed
    qed
    then show ?thesis using Rs [OF s] False by (auto simp: R'_def less_Suc_eq)
  qed
qed

lemma maybe_loop_step:
  assumes n: "0 \<le> n" and lta: "length ta = length A" and k: "k < length A"
    and inv: "maybe_inv n A ta k out end_link"
    and acc: "accepts a (int k) = Some (ta ! k)"
  shows "\<exists>out' end_link'. (do {
       t \<leftarrow> accepts a (int k);
       if t \<noteq> - 1 then do {
         out \<leftarrow> add_transition out end_link n (int k + 1);
         out \<leftarrow> remove_accept out (int k + 1);
         Some (out, int k + 1)
       } else Some (out, end_link)
     }) = Some (out', end_link') \<and> maybe_inv n A ta (Suc k) out' end_link'"
proof -
  obtain R l where R: "out = fa_of n False R (- 1 # replicate k (- 1) @ drop k ta @ [- 1])" "end_link = int l"
    "length R = length A + 2" "\<forall>r \<in> set R. row_ok n (length A + 2) r"
    and R0: "R ! 0 = (if next_acc ta 0 < k then ((blank n False)[Suc (nat n) := 1])[nat n := int (1 + next_acc ta 0)]
              else (blank n False)[Suc (nat n) := 1])"
    and Rs: "\<And>s. s < length A \<Longrightarrow> R ! Suc s =
        (if ta ! s \<noteq> - 1 then
           (if next_acc ta (Suc s) < k then (blank n False)[nat n := int (1 + next_acc ta (Suc s))]
            else blank n False)
         else shift_row n False 1 (A ! s))"
    and RZ: "R ! Suc (length A) = blank n False"
    and l: "l = 0 \<and> k \<le> next_acc ta 0 \<or>
      (\<exists>s < k. l = Suc s \<and> ta ! s \<noteq> - 1 \<and> s < length A \<and> k \<le> next_acc ta (Suc s))"
    using inv unfolding maybe_inv_def by blast
  have d: "drop k ta = ta ! k # drop (Suc k) ta" using k lta by (simp add: Cons_nth_drop_Suc)
  show ?thesis
  proof (cases "ta ! k = - 1")
    case True
    have skip: "next_acc ta j < Suc k \<longleftrightarrow> next_acc ta j < k" for j
    proof -
      have "next_acc ta j \<noteq> k" using next_acc_hit [of ta j] True k lta by auto
      then show ?thesis by auto
    qed
    have "maybe_inv n A ta (Suc k) out end_link"
      unfolding maybe_inv_def
    proof (intro exI conjI)
      show "out = fa_of n False R (- 1 # replicate (Suc k) (- 1) @ drop (Suc k) ta @ [- 1])"
        unfolding R(1) d True by (simp add: replicate_app_Cons_same)
      show "l = 0 \<and> Suc k \<le> next_acc ta 0 \<or>
          (\<exists>s < Suc k. l = Suc s \<and> ta ! s \<noteq> - 1 \<and> s < length A \<and> Suc k \<le> next_acc ta (Suc s))"
        using l skip by (metis less_Suc_eq not_less)
    qed (use R R0 Rs RZ skip in simp_all)
    then show ?thesis using True acc by simp
  next
    case False
    define R' where "R' = R[l := (R ! l)[nat n := int (1 + k)]]"
    note link = maybe_link [OF n lta _ False R(3,4) R0 Rs RZ l, folded R'_def]
    let ?c = "- 1 # replicate k (- 1) @ drop k ta @ [- 1 :: int]"
    have "add_transition out end_link n (int k + 1) = Some (fa_of n False R' ?c)"
      using link(1) [of ?c] k unfolding R(1,2) by (simp add: add.commute)
    moreover have "remove_accept (fa_of n False R' ?c) (int k + 1) =
        Some (fa_of n False R' (- 1 # replicate (Suc k) (- 1) @ drop (Suc k) ta @ [- 1]))"
    proof -
      have "?c[Suc k := - 1] = - 1 # replicate (Suc k) (- 1) @ drop (Suc k) ta @ [- 1]"
        unfolding d by (simp add: list_update_append replicate_app_Cons_same)
      then show ?thesis using remove_accept_of [of "Suc k" ?c n False R'] k lta by (simp add: add.commute)
    qed
    moreover have "maybe_inv n A ta (Suc k)
        (fa_of n False R' (- 1 # replicate (Suc k) (- 1) @ drop (Suc k) ta @ [- 1])) (int k + 1)"
      unfolding maybe_inv_def
    proof (intro exI conjI)
      show "int k + 1 = int (Suc k)" by simp
      show "Suc k = 0 \<and> Suc k \<le> next_acc ta 0 \<or>
          (\<exists>s < Suc k. Suc k = Suc s \<and> ta ! s \<noteq> - 1 \<and> s < length A \<and> Suc k \<le> next_acc ta (Suc s))"
        using False k next_acc_ge [of "Suc k" ta] by auto
    qed (use link(2-6) k in simp_all)
    ultimately show ?thesis using False acc by simp
  qed
qed

lemma maybe_of:
  assumes A: "fa_ok n da A ta" and sink: "sinks (fa_of n da A ta)" and token: "0 \<le> token"
  shows "maybe (fa_of n da A ta) token = Some (fa_of n False (maybe_rows n A ta) (maybe_tokens ta token))"
    and "fa_ok n False (maybe_rows n A ta) (maybe_tokens ta token)"
proof -
  note n = same_widthD(1) [OF fa_okD(1) [OF A]] and lta = fa_okD(3) [OF A]
  let ?a = "fa_of n da A ta" and ?m = "length A + 2" and ?A = "map (shift_row n False 1) A" and ?b = "blank n False"
  let ?c0 = "- 1 # ta @ [- 1]"
  have sA: "\<forall>r \<in> set ?A. row_ok n ?m r" using row_ok_shift [OF A, of _ 1 ?m] by auto
  have rows: "\<forall>r \<in> set (?b # ?A @ [?b]). row_ok n ?m r" using sA by auto
  have sw: "same_width n False []" "same_width n False [?b]" "same_width n False (?b # ?A)"
    using n sA by (auto intro!: same_width_rows [where m = ?m])
  let ?R1 = "?b[Suc (nat n) := 1] # ?A @ [?b]"
  have e1: "add_transition (fa_of n False (?b # ?A @ [?b]) ?c0) 0 (n + 1) 1 = Some (fa_of n False ?R1 ?c0)"
    using add_epsilons(2) [OF n rows, of 0 1 ?c0] by (simp add: blank_nth)
  have inv0: "maybe_inv n A ta 0 (fa_of n False ?R1 ?c0) 0"
    unfolding maybe_inv_def
  proof (intro exI [of _ ?R1] exI [of _ 0] conjI)
    show "\<forall>r \<in> set ?R1. row_ok n ?m r"
      using rows row_ok_update [OF row_ok_blank, of 1 ?m n "Suc (nat n)"] by auto
    show "\<forall>s < length A. ?R1 ! Suc s = (if ta ! s \<noteq> - 1 then
        (if next_acc ta (Suc s) < 0 then ?b[nat n := int (1 + next_acc ta (Suc s))] else ?b)
        else shift_row n False 1 (A ! s))"
      using sink_row [OF A sink] by (auto simp: nth_append)
    show "?R1 ! Suc (length A) = ?b" by (simp add: nth_append)
  qed simp_all
  let ?f = "\<lambda>i (out, end_link). do {
       t \<leftarrow> accepts ?a i;
       if t \<noteq> - 1 then do {
         out \<leftarrow> add_transition out end_link n (i + 1);
         out \<leftarrow> remove_accept out (i + 1);
         Some (out, i + 1)
       } else Some (out, end_link)
     }"
  have "\<exists>s. for_range 0 (int (length A)) ?f (fa_of n False ?R1 ?c0, 0) = Some s \<and>
      (\<lambda>i (out, end_link). maybe_inv n A ta (nat i) out end_link) (int (length A)) s"
  proof (rule for_range_rule)
    show "case (fa_of n False ?R1 ?c0, 0) of (out, end_link) \<Rightarrow> maybe_inv n A ta (nat 0) out end_link"
      using inv0 by simp
    fix i s assume i: "0 \<le> i" "i < int (length A)"
      and inv: "case s of (out, end_link) \<Rightarrow> maybe_inv n A ta (nat i) out end_link"
    obtain out end_link where s: "s = (out, end_link)" by fastforce
    have k: "nat i < length A" "int (nat i) = i" "nat (i + 1) = Suc (nat i)" using i by auto
    have "accepts ?a (int (nat i)) = Some (ta ! nat i)" using k(1) lta by (intro accepts_of) simp
    from maybe_loop_step [OF n lta k(1) _ this, unfolded k(2)]
    show "\<exists>s'. ?f i s = Some s' \<and> (case s' of (out, end_link) \<Rightarrow> maybe_inv n A ta (nat (i + 1)) out end_link)"
      using inv unfolding s k(3) by fastforce
  qed simp
  then obtain out end_link where loop:
    "for_range 0 (int (length A)) ?f (fa_of n False ?R1 ?c0, 0) = Some (out, end_link)"
    "maybe_inv n A ta (length A) out end_link" by auto
  let ?c = "- 1 # replicate (length A) (- 1) @ [- 1 :: int]"
  obtain R l where R: "out = fa_of n False R ?c" "end_link = int l" "length R = ?m" "\<forall>r \<in> set R. row_ok n ?m r"
    and R0: "R ! 0 = (if next_acc ta 0 < length A then (?b[Suc (nat n) := 1])[nat n := int (1 + next_acc ta 0)]
              else ?b[Suc (nat n) := 1])"
    and Rs: "\<And>s. s < length A \<Longrightarrow> R ! Suc s =
        (if ta ! s \<noteq> - 1 then
           (if next_acc ta (Suc s) < length A then ?b[nat n := int (1 + next_acc ta (Suc s))] else ?b)
         else shift_row n False 1 (A ! s))"
    and RZ: "R ! Suc (length A) = ?b"
    and l: "l = 0 \<and> length A \<le> next_acc ta 0 \<or>
      (\<exists>s < length A. l = Suc s \<and> ta ! s \<noteq> - 1 \<and> s < length A \<and> length A \<le> next_acc ta (Suc s))"
    using loop(2) lta unfolding maybe_inv_def by auto
  define R' where "R' = R[l := (R ! l)[nat n := int (1 + length A)]]"
  note link = maybe_link [OF n lta order.refl _ R(3,4) R0 Rs RZ l, folded R'_def]
  have bound: "next_acc ta j < Suc (length A)" if "j \<le> length A" for j
    using next_acc_le [of j ta] that lta by simp
  have final: "R' = maybe_rows n A ta"
  proof (rule nth_equalityI)
    show "length R' = length (maybe_rows n A ta)" using link(2) by (simp add: maybe_rows_def)
    fix s assume "s < length R'"
    then consider "s = 0" | p where "s = Suc p" "p < length A" | "s = Suc (length A)"
      using link(2) by (cases s) (auto simp: less_Suc_eq)
    then show "R' ! s = maybe_rows n A ta ! s"
    proof cases
      case 1
      then show ?thesis using link(4) bound [of 0] by (simp add: maybe_rows_def)
    next
      case 2
      then show ?thesis using link(5) [of p] 2 bound [of "Suc p"] by (simp add: maybe_rows_def nth_append)
    next
      case 3
      then show ?thesis using link(6) by (simp add: maybe_rows_def nth_append)
    qed
  qed
  have "add_transition out end_link n (1 + int (length A)) = Some (fa_of n False (maybe_rows n A ta) ?c)"
    using link(1) [of ?c] unfolding R(1,2) final by simp
  moreover have "add_accept (fa_of n False (maybe_rows n A ta) ?c) (1 + int (length A)) token =
      Some (fa_of n False (maybe_rows n A ta) (maybe_tokens ta token))"
    using add_accept_of [of "Suc (length A)" ?c token n False "maybe_rows n A ta"] token lta
    by (simp add: maybe_tokens_def list_update_append)
  moreover have "get_nstates (fa_of n False [?b] [- 1]) = Some 1"
    using get_nstates_of [OF sw(2), of "[- 1]"] by simp
  ultimately show "maybe ?a token = Some (fa_of n False (maybe_rows n A ta) (maybe_tokens ta token))"
    using append_states_of [OF sw(2) _ A, of "[- 1]"] loop(1) e1 add_state_of [OF sw(3), of "- 1 # ta"]
    by (simp add: maybe_def get_nstates_of fa_okD(1) [OF A] new_fa_of n add_state_of [OF sw(1)])
  show "fa_ok n False (maybe_rows n A ta) (maybe_tokens ta token)"
    unfolding final [symmetric] using link(2,3) n lta token
    by (intro fa_ok_rows) (auto simp: maybe_tokens_def)
qed

lemma maybe_recognizes:
  assumes A: "fa_ok n da A ta" and sink: "sinks (fa_of n da A ta)" and token: "0 \<le> token"
  defines "C \<equiv> maybe_rows n A ta" and "tc \<equiv> maybe_tokens ta token"
  shows "recognizes (fa_of n False C tc) w tok \<longleftrightarrow>
     tok = token \<and> (w = [] \<or> accepted (fa_of n da A ta) w)"
proof -
  have ok: "fa_ok n False C tc" unfolding C_def tc_def by (rule maybe_of(2) [OF A sink token])
  note lta = fa_okD(3) [OF A]
  let ?m = "length A"
  have lens: "length C = ?m + 2" by (simp add: C_def maybe_rows_def)
  have A0: "0 < ?m" using fa_okD(2) [OF A] by simp
  have e0: "edge C 0 x t \<longleftrightarrow> (x = nat n \<and> t = 1 + next_acc ta 0) \<or> (x = Suc (nat n) \<and> t = 1)" for x t
    using edge_epsilon_row [of 0 C n "int (1 + next_acc ta 0)" 1 x t]
    by (auto simp: C_def maybe_rows_def list_update_swap)
  have nth: "C ! Suc s = (if ta ! s \<noteq> - 1 then (blank n False)[nat n := int (1 + next_acc ta (Suc s))]
      else shift_row n False 1 (A ! s))" if "s < ?m" for s
    using that by (simp add: C_def maybe_rows_def nth_append)
  have eF: "edge C (Suc s) x t \<longleftrightarrow> x = nat n \<and> t = 1 + next_acc ta (Suc s)" if "s < ?m" "ta ! s \<noteq> - 1" for s x t
    using that lens nth [OF that(1)] by (auto simp: edge_def nth_list_update blank_nth)
  have eN: "edge C (Suc s) x t' \<longleftrightarrow> (\<exists>t. t' = Suc t \<and> edge A s x t)" if "s < ?m" "ta ! s = - 1" for s x t'
    using edge_shift [OF A that(1), of 1 C x t'] that lens nth [OF that(1)] by simp
  have eZ: "\<not> edge C (Suc ?m) x t" for x t
    using lens by (intro no_edge_blank [of _ _ n]) (simp_all add: C_def maybe_rows_def nth_append)
  have chain: "reach n C (Suc (next_acc ta j)) [] (Suc ?m)" if "j \<le> ?m" for j
    using that
  proof (induction "?m - j" arbitrary: j rule: less_induct)
    case less
    let ?p = "next_acc ta j"
    have p: "j \<le> ?p" "?p \<le> ?m" using next_acc_ge next_acc_le [of j ta] less.prems lta by simp_all
    show ?case
    proof (cases "?p = ?m")
      case True
      then show ?thesis by (simp add: reach_here)
    next
      case False
      then have h: "?p < ?m" "ta ! ?p \<noteq> - 1" using p(2) next_acc_hit [of ta j] lta by simp_all
      have "edge C (Suc ?p) (nat n) (Suc (next_acc ta (Suc ?p)))" using eF [OF h] by simp
      moreover have "reach n C (Suc (next_acc ta (Suc ?p))) [] (Suc ?m)"
        using less.hyps [of "Suc ?p"] p(1) h(1) by simp
      ultimately show ?thesis using reach_epsilon by blast
    qed
  qed
  have silent: "w = []" if "reach n C p' w u" "p' = Suc p" "p = ?m \<or> (p < ?m \<and> ta ! p \<noteq> - 1)" for p p' w u
    using that
  proof (induction arbitrary: p rule: reach.induct)
    case (reach_edge s x t w u)
    then have h: "p < ?m" "ta ! p \<noteq> - 1" using eZ by auto
    then have t: "x = nat n" "t = Suc (next_acc ta (Suc p))" using eF [OF h] reach_edge.hyps(1) reach_edge.prems(1) by simp_all
    have "next_acc ta (Suc p) = ?m \<or> (next_acc ta (Suc p) < ?m \<and> ta ! next_acc ta (Suc p) \<noteq> - 1)"
      using next_acc_le [of "Suc p" ta] next_acc_hit [of ta "Suc p"] h(1) lta by auto
    then show ?case using reach_edge.IH [OF t(2)] t(1) by simp
  qed simp
  have inside: "\<exists>f < ?m. reach n A s w f \<and> ta ! f \<noteq> - 1"
    if "reach n C p w u'" "p = Suc s" "s < ?m" "u' = Suc ?m" for p s w u'
    using that
  proof (induction arbitrary: s rule: reach.induct)
    case (reach_edge p x t w u')
    show ?case
    proof (cases "ta ! s = - 1")
      case True
      then obtain q where q: "t = Suc q" "edge A s x q"
        using eN [OF reach_edge.prems(2) True] reach_edge.hyps(1) reach_edge.prems(1) by auto
      from reach_edge.IH [OF q(1) edge_closed(3) [OF A q(2)] reach_edge.prems(3)]
      show ?thesis using reach.reach_edge [OF q(2)] by blast
    next
      case False
      have "read_symbol n x @ w = []"
        using silent [OF reach.reach_edge [OF reach_edge.hyps(1,2)] reach_edge.prems(1)] False reach_edge.prems(2) by blast
      then show ?thesis using False reach_edge.prems(2) reach.reach_here by auto
    qed
  qed simp
  have embed: "reach n C (Suc s) w (Suc u)" if "reach n A s w u" for s w u
    using that
  proof (induction rule: reach.induct)
    case (reach_here s)
    show ?case by (rule reach.reach_here)
  next
    case (reach_edge s x t w u)
    have "ta ! s = - 1" using no_edge_sink [OF A sink] reach_edge.hyps(1) by blast
    then have "edge C (Suc s) x (Suc t)" using eN [OF edge_closed(1) [OF A reach_edge.hyps(1)]] reach_edge.hyps(1) by blast
    then show ?case using reach_edge.IH by (rule reach.reach_edge)
  qed
  have main: "reach n C 0 w (Suc ?m) \<longleftrightarrow> w = [] \<or> (\<exists>f < ?m. reach n A 0 w f \<and> ta ! f \<noteq> - 1)"
  proof
    assume "reach n C 0 w (Suc ?m)"
    then obtain x t v where s: "edge C 0 x t" "w = read_symbol n x @ v" "reach n C t v (Suc ?m)"
      by (cases rule: reach.cases) auto
    then consider "x = nat n" "t = Suc (next_acc ta 0)" | "x = Suc (nat n)" "t = Suc 0" using e0 by auto
    then show "w = [] \<or> (\<exists>f < ?m. reach n A 0 w f \<and> ta ! f \<noteq> - 1)"
    proof cases
      case 1
      have "next_acc ta 0 = ?m \<or> (next_acc ta 0 < ?m \<and> ta ! next_acc ta 0 \<noteq> - 1)"
        using next_acc_le [of 0 ta] next_acc_hit [of ta 0] lta by auto
      then show ?thesis using silent [OF s(3) 1(2)] s(2) 1(1) by simp
    next
      case 2
      then show ?thesis using inside [OF s(3) 2(2) A0] s(2) by simp
    qed
  next
    assume "w = [] \<or> (\<exists>f < ?m. reach n A 0 w f \<and> ta ! f \<noteq> - 1)"
    then show "reach n C 0 w (Suc ?m)"
    proof (elim disjE exE conjE)
      assume "w = []"
      moreover have "edge C 0 (nat n) (Suc (next_acc ta 0))" using e0 by simp
      ultimately show ?thesis using chain [of 0] reach_epsilon by blast
    next
      fix f assume f: "f < ?m" "reach n A 0 w f" "ta ! f \<noteq> - 1"
      have "reach n C (Suc f) [] (Suc ?m)"
        using eF [OF f(1,3)] chain [of "Suc f"] f(1) reach_epsilon [of C "Suc f" n "Suc (next_acc ta (Suc f))"] by simp
      then have "reach n C (Suc 0) w (Suc ?m)" using reach_trans [OF embed [OF f(2)]] by force
      moreover have "edge C 0 (Suc (nat n)) (Suc 0)" using e0 by simp
      ultimately show ?thesis using reach_epsilon by blast
    qed
  qed
  have tcs: "tc ! u = (if u = Suc ?m then token else - 1)" if "u < length C" for u
    using that lens lta by (auto simp: tc_def maybe_tokens_def nth_append nth_Cons' split: if_splits)
  show ?thesis
    unfolding recognizes_of [OF ok] accepted_of [OF A]
    using main tcs lens token by (auto split: if_splits)
qed

lemma maybe_sinks:
  assumes A: "fa_ok n da A ta" and sink: "sinks (fa_of n da A ta)" and token: "0 \<le> token"
  shows "sinks (fa_of n False (maybe_rows n A ta) (maybe_tokens ta token))"
  unfolding sinks_of [OF maybe_of(2) [OF A sink token]]
proof (intro allI impI)
  fix s assume s: "s < length (maybe_rows n A ta)" "maybe_tokens ta token ! s \<noteq> - 1"
  then have "s = Suc (length A)"
    using fa_okD(3) [OF A]
    by (auto simp: maybe_rows_def maybe_tokens_def nth_append nth_Cons' split: if_splits)
  then show "\<forall>x \<in> set (maybe_rows n A ta ! s). x = - 1" by (simp add: maybe_rows_def nth_append blank_def)
qed

section \<open>Sets and ranges of symbols\<close>

text \<open>Two states, with a transition on each symbol of a list.\<close>

definition symbol_row :: "int \<Rightarrow> int list \<Rightarrow> int list" where
  "symbol_row n xs = map (\<lambda>x. if int x \<in> set xs then 1 else - 1) [0..<nat n]"

lemma symbol_loop:
  assumes n: "0 < n" and xs: "distinct xs" "\<forall>x \<in> set xs. 0 \<le> x \<and> x < n"
  shows "run_for xs (\<lambda>i out. add_transition out 0 i 1) (fa_of n True [blank n True, blank n True] acc) =
     Some (fa_of n True [symbol_row n xs, blank n True] acc)"
proof -
  let ?P = "\<lambda>done out. out = fa_of n True [symbol_row n done, blank n True] acc"
  have blank_row: "symbol_row n [] = blank n True"
    by (intro nth_equalityI) (simp_all add: symbol_row_def blank_nth width_def)
  have "\<exists>out. run_for xs (\<lambda>i out. add_transition out 0 i 1)
      (fa_of n True [blank n True, blank n True] acc) = Some out \<and> ?P xs out"
  proof (rule run_for_rule)
    show "?P [] (fa_of n True [blank n True, blank n True] acc)" by (simp add: blank_row)
    fix "done" i rest out
    assume split: "xs = done @ i # rest" and out: "?P done out"
    have i: "0 \<le> i" "i < n" "i \<notin> set done" using xs split by auto
    have sw: "same_width n True [symbol_row n done, blank n True]"
      using n by (simp add: same_width_def symbol_row_def width_def)
    have "add_transition (fa_of n True [symbol_row n done, blank n True] acc) (int 0) (int (nat i)) (int 1) =
        Some (fa_of n True ([symbol_row n done, blank n True][0 := ([symbol_row n done, blank n True] ! 0)[nat i := int 1]]) acc)"
      using i by (intro add_transition_of [OF sw]) (simp_all add: symbol_row_def width_def)
    moreover have "(symbol_row n done)[nat i := 1] = symbol_row n (done @ [i])"
      using i by (intro nth_equalityI) (auto simp: symbol_row_def nth_list_update)
    ultimately show "\<exists>out'. add_transition out 0 i 1 = Some out' \<and> ?P (done @ [i]) out'"
      using out i by simp
  qed
  then show ?thesis by simp
qed

lemma symbol_fa:
  assumes n: "0 < n" and xs: "\<forall>x \<in> set xs. 0 \<le> x \<and> x < n" and token: "0 \<le> token"
  defines "fa \<equiv> fa_of n True [symbol_row n xs, blank n True] [- 1, token]"
  shows "fa_ok n True [symbol_row n xs, blank n True] [- 1, token]" "sinks fa"
    and "recognizes fa w tok \<longleftrightarrow> tok = token \<and> (\<exists>x. w = [x] \<and> int x \<in> set xs)"
proof -
  let ?R = "[symbol_row n xs, blank n True]"
  show ok: "fa_ok n True ?R [- 1, token]"
    using n token by (auto simp: fa_ok_def same_width_def symbol_row_def width_def blank_def)
  show "sinks fa"
    unfolding fa_def sinks_of [OF ok] by (auto simp: less_Suc_eq blank_def)
  have e: "edge ?R s x t \<longleftrightarrow> s = 0 \<and> t = 1 \<and> int x \<in> set xs" for s x t
  proof -
    have "x < nat n" if "int x \<in> set xs" using xs that by auto
    then show ?thesis
      by (cases s) (auto simp: edge_def symbol_row_def blank_nth less_Suc_eq split: if_splits)
  qed
  have "reach n ?R 0 w u \<and> u = 1 \<longleftrightarrow> u = 1 \<and> (\<exists>x. w = [x] \<and> int x \<in> set xs)" for u
  proof
    assume r: "reach n ?R 0 w u \<and> u = 1"
    then have "reach n ?R 0 w u" by blast
    then obtain x t v where s: "edge ?R 0 x t" "w = read_symbol n x @ v" "reach n ?R t v u"
      by (cases rule: reach.cases) (use r in auto)
    then have "t = 1" "int x \<in> set xs" using e by auto
    moreover from this have "read_symbol n x = [x]" using xs by (auto simp: read_symbol_def)
    moreover have "v = []" using s(3) \<open>t = 1\<close> e by (cases rule: reach.cases) auto
    ultimately show "u = 1 \<and> (\<exists>x. w = [x] \<and> int x \<in> set xs)" using s(2) r by simp
  next
    assume "u = 1 \<and> (\<exists>x. w = [x] \<and> int x \<in> set xs)"
    then obtain x where x: "u = 1" "w = [x]" "int x \<in> set xs" by blast
    then have "read_symbol n x = [x]" using xs by (auto simp: read_symbol_def)
    then show "reach n ?R 0 w u \<and> u = 1" using x e reach_one [of ?R 0 x 1 n] by simp
  qed
  then have one: "reach n ?R 0 w 1 \<longleftrightarrow> (\<exists>x. w = [x] \<and> int x \<in> set xs)" by blast
  have "recognizes fa w tok \<longleftrightarrow> reach n ?R 0 w 1 \<and> tok = token"
  proof
    assume "recognizes fa w tok"
    then obtain u where u: "u < length ?R" "reach n ?R 0 w u" "[- 1, token] ! u = tok" "0 \<le> tok"
      unfolding fa_def recognizes_of [OF ok] by blast
    then have "u = 1" by (cases u) auto
    then show "reach n ?R 0 w 1 \<and> tok = token" using u by simp
  next
    assume "reach n ?R 0 w 1 \<and> tok = token"
    then show "recognizes fa w tok"
      unfolding fa_def recognizes_of [OF ok] using token by (intro exI [of _ 1]) simp
  qed
  then show "recognizes fa w tok \<longleftrightarrow> tok = token \<and> (\<exists>x. w = [x] \<and> int x \<in> set xs)"
    unfolding one by blast
qed

lemma two_states:
  assumes n: "0 < n"
  shows "do {
     out \<leftarrow> new_fa n True 2;
     (out, start_state) \<leftarrow> add_state out;
     (out, accept_state) \<leftarrow> add_state out;
     f out start_state accept_state
   } = f (fa_of n True [blank n True, blank n True] [- 1, - 1]) 0 1"
proof -
  have sw: "same_width n True []" "same_width n True [blank n True]"
    using n by (simp_all add: same_width_def width_def)
  show ?thesis
    using n add_state_of [OF sw(1), of "[]"] add_state_of [OF sw(2), of "[- 1]"] by (simp add: new_fa_of)
qed

lemma make_set_nfa_of:
  assumes n: "0 < n" and xs: "distinct xs" "\<forall>x \<in> set xs. 0 \<le> x \<and> x < n" and token: "0 \<le> token"
  shows "make_set_nfa n xs token = Some (fa_of n True [symbol_row n xs, blank n True] [- 1, token])"
  unfolding make_set_nfa_def two_states [OF n] symbol_loop [OF n xs]
  using add_accept_of [of 1 "[- 1, - 1]" token n True] token by simp

lemma make_range_nfa_of:
  assumes n: "0 < n" and ab: "0 \<le> a" "a \<le> b" "b < n" and token: "0 \<le> token"
  shows "make_range_nfa n a b token = Some (fa_of n True [symbol_row n [a..b], blank n True] [- 1, token])"
proof -
  have "run_for [a..b] (\<lambda>i out. add_transition out 0 i 1) (fa_of n True [blank n True, blank n True] [- 1, - 1]) =
      Some (fa_of n True [symbol_row n [a..b], blank n True] [- 1, - 1])"
    using ab by (intro symbol_loop [OF n]) auto
  then have loop: "for_range a (b + 1) (\<lambda>i out. add_transition out 0 i 1)
      (fa_of n True [blank n True, blank n True] [- 1, - 1]) =
      Some (fa_of n True [symbol_row n [a..b], blank n True] [- 1, - 1])" by (simp add: for_range_def)
  show ?thesis
    using ab unfolding make_range_nfa_def two_states [OF n] loop
    using add_accept_of [of 1 "[- 1, - 1]" token n True] token by simp
qed

section \<open>Characters and symbols\<close>

text \<open>
  The tables of \<open>src/src/Omega_h_chartab.cpp\<close>; a character is its code, -128 to 127.
\<close>

definition NCHARS :: int where
  "NCHARS = 98"

definition chartab :: "int list" where
  "chartab = [-1, -1, -1, -1, -1, -1, -1, -1, -1,
    0, 1, -1, -1, 2, -1, -1, -1, -1, -1, -1, -1, -1, -1, -1, -1, -1, -1, -1, -1,
    -1, -1, -1, 3, 66, 67, 68, 69, 70, 71, 72, 73, 74, 75, 76, 77, 78, 79, 80,
    56, 57, 58, 59, 60, 61, 62, 63, 64, 65, 81, 82, 83, 84, 85, 86, 87, 30, 31,
    32, 33, 34, 35, 36, 37, 38, 39, 40, 41, 42, 43, 44, 45, 46, 47, 48, 49, 50,
    51, 52, 53, 54, 55, 88, 89, 90, 91, 92, 93, 4, 5, 6, 7, 8, 9, 10, 11, 12,
    13, 14, 15, 16, 17, 18, 19, 20, 21, 22, 23, 24, 25, 26, 27, 28, 29, 94, 95,
    96, 97, -1]"

definition inv_chartab :: "int list" where
  "inv_chartab = [9, 10, 13, 32, 97, 98, 99, 100,
    101, 102, 103, 104, 105, 106, 107, 108, 109, 110, 111, 112, 113, 114, 115,
    116, 117, 118, 119, 120, 121, 122, 65, 66, 67, 68, 69, 70, 71, 72,
    73, 74, 75, 76, 77, 78, 79, 80, 81, 82, 83, 84, 85, 86, 87,
    88, 89, 90, 48, 49, 50, 51, 52, 53, 54, 55, 56, 57, 33, 34,
    35, 36, 37, 38, 39, 40, 41, 42, 43, 44, 45, 46, 47, 58, 59,
    60, 61, 62, 63, 64, 91, 92, 93, 94, 95, 96, 123, 124, 125, 126]"

definition is_symbol :: "int \<Rightarrow> bool option" where
  "is_symbol c = (if c < 0 then Some False else do { s \<leftarrow> rd chartab c; Some (0 \<le> s) })"

definition get_symbol :: "int \<Rightarrow> int option" where
  "get_symbol c = do {
     omega_check (0 \<le> c);
     symbol \<leftarrow> rd chartab c;
     omega_check (0 \<le> symbol);
     Some symbol
   }"

definition get_char :: "int \<Rightarrow> int option" where
  "get_char symbol = do {
     omega_check (0 \<le> symbol);
     omega_check (symbol < NCHARS);
     rd inv_chartab symbol
   }"

definition make_char_single_nfa :: "int \<Rightarrow> int \<Rightarrow> fa option" where
  "make_char_single_nfa symbol_char token = do {
     a \<leftarrow> get_symbol symbol_char;
     b \<leftarrow> get_symbol symbol_char;
     make_range_nfa NCHARS a b token
   }"

definition make_char_range_nfa :: "int \<Rightarrow> int \<Rightarrow> int \<Rightarrow> fa option" where
  "make_char_range_nfa range_start range_end token = do {
     a \<leftarrow> get_symbol range_start;
     b \<leftarrow> get_symbol range_end;
     make_range_nfa NCHARS a b token
   }"

text \<open>A \<open>std::set\<close> is the sorted list of its elements.\<close>

definition set_insert :: "int \<Rightarrow> int list \<Rightarrow> int list" where
  "set_insert x xs = (if x \<in> set xs then xs else insort x xs)"

definition unite_sets :: "int list \<Rightarrow> int list \<Rightarrow> int list" where
  "unite_sets a b = fold set_insert b a"

definition make_char_set_nfa :: "int list \<Rightarrow> int \<Rightarrow> fa option" where
  "make_char_set_nfa accepted_chars token = do {
     symbol_set \<leftarrow> run_for accepted_chars (\<lambda>c symbols. do {
       s \<leftarrow> get_symbol c;
       Some (set_insert s symbols)
     }) [];
     make_set_nfa NCHARS symbol_set token
   }"

definition negate_set :: "int list \<Rightarrow> int list option" where
  "negate_set s = for_range 0 NCHARS (\<lambda>symbol out. do {
     c \<leftarrow> rd inv_chartab symbol;
     Some (if c \<in> set s then out else set_insert c out)
   }) []"

lemma chartab_table:
  "\<forall>c < 128. chartab ! c \<noteq> - 1 \<longrightarrow> 0 \<le> chartab ! c \<and> chartab ! c < 98 \<and> inv_chartab ! nat (chartab ! c) = int c"
  "\<forall>s < 98. 0 \<le> inv_chartab ! s \<and> inv_chartab ! s < 128 \<and> chartab ! nat (inv_chartab ! s) = int s"
  by code_simp+

lemma length_chartabs: "length chartab = 128" "length inv_chartab = 98" "NCHARS = 98"
  by (simp_all add: chartab_def inv_chartab_def NCHARS_def)

end
