(* ===== verification/Determinize.thy ===== *)
theory Determinize
  imports Regular
begin

text \<open>
  From a nondeterministic automaton to a deterministic one, by the powerset construction
  (\<open>FiniteAutomaton::make_deterministic\<close> in \<open>src/src/Omega_h_finite_automaton.cpp\<close>).

  A set of states is a sorted list; the map from sets to states is an association list.  The loops
  that run until a work list is empty are \<open>partial_function\<close>s; that they end is part of what is
  proved: the closure adds each state at most once, and there are finitely many sets of states.  The
  deterministic automaton gives a word the least token that the other one recognizes it with.
\<close>

section \<open>The operations\<close>

definition step_set :: "int list \<Rightarrow> int \<Rightarrow> fa \<Rightarrow> int list option" where
  "step_set ss symbol fa = run_for ss (\<lambda>state next_ss. do {
     next_state \<leftarrow> step fa state symbol;
     Some (if next_state \<noteq> - 1 then set_insert next_state next_ss else next_ss)
   }) []"

definition visit_state :: "fa \<Rightarrow> int \<Rightarrow> int \<Rightarrow> int \<Rightarrow> int list \<times> int list \<Rightarrow> (int list \<times> int list) option" where
  "visit_state fa epsilon0 epsilon1 state = for_range epsilon0 (epsilon1 + 1) (\<lambda>epsilon (q, ss). do {
     next_state \<leftarrow> step fa state epsilon;
     if next_state = - 1 then Some (q, ss)
     else if next_state \<notin> set ss then Some (q @ [next_state], set_insert next_state ss)
     else Some (q, ss)
   })"

partial_function (option) closure_loop :: "fa \<Rightarrow> int \<Rightarrow> int \<Rightarrow> int list \<Rightarrow> int list \<Rightarrow> int list option" where
  "closure_loop fa epsilon0 epsilon1 q ss = (case q of
     [] \<Rightarrow> Some ss
   | state # q \<Rightarrow> do {
       (q, ss) \<leftarrow> visit_state fa epsilon0 epsilon1 state (q, ss);
       closure_loop fa epsilon0 epsilon1 q ss
     })"

definition get_epsilon_closure :: "int list \<Rightarrow> fa \<Rightarrow> int list option" where
  "get_epsilon_closure ss fa = do {
     epsilon0 \<leftarrow> get_epsilon0 fa;
     epsilon1 \<leftarrow> get_epsilon1 fa;
     closure_loop fa epsilon0 epsilon1 ss ss
   }"

type_synonym subset_state = "int list list \<times> (int list \<times> int) list \<times> fa"

definition find_or_add :: "int list \<Rightarrow> subset_state \<Rightarrow> (subset_state \<times> int) option" where
  "find_or_add next_ss = (\<lambda>(ssupv, ssp2s, out). case map_of ssp2s next_ss of
     None \<Rightarrow> do {
       (out, next_state) \<leftarrow> add_state out;
       Some ((ssupv @ [next_ss], (next_ss, next_state) # ssp2s, out), next_state)
     }
   | Some next_state \<Rightarrow> Some ((ssupv, ssp2s, out), next_state))"

definition expand_symbol :: "fa \<Rightarrow> int list \<Rightarrow> int \<Rightarrow> int \<Rightarrow> subset_state \<Rightarrow> subset_state option" where
  "expand_symbol nfa ss state symbol s = do {
     next_ss \<leftarrow> step_set ss symbol nfa;
     if next_ss = [] then Some s
     else do {
       next_ss \<leftarrow> get_epsilon_closure next_ss nfa;
       ((ssupv, ssp2s, out), next_state) \<leftarrow> find_or_add next_ss s;
       out \<leftarrow> add_transition out state symbol next_state;
       Some (ssupv, ssp2s, out)
     }
   }"

definition least_token :: "fa \<Rightarrow> int list \<Rightarrow> int option" where
  "least_token nfa ss = run_for ss (\<lambda>nfa_state min_accepted. do {
     nfa_token \<leftarrow> accepts nfa nfa_state;
     Some (if nfa_token = - 1 then min_accepted
           else if min_accepted = - 1 \<or> nfa_token < min_accepted then nfa_token
           else min_accepted)
   }) (- 1)"

partial_function (option) subset_loop :: "fa \<Rightarrow> int \<Rightarrow> subset_state \<Rightarrow> fa option" where
  "subset_loop nfa front s =
     (if front < asize (fst s) then do {
        ss \<leftarrow> rd (fst s) front;
        (ssupv, ssp2s, out) \<leftarrow> for_range 0 (get_nsymbols nfa) (expand_symbol nfa ss front) s;
        min_accepted \<leftarrow> least_token nfa ss;
        out \<leftarrow> (if min_accepted \<noteq> - 1 then add_accept out front min_accepted else Some out);
        subset_loop nfa (front + 1) (ssupv, ssp2s, out)
      } else Some (snd (snd s)))"

definition make_deterministic :: "fa \<Rightarrow> fa option" where
  "make_deterministic nfa =
     (if get_determinism nfa then Some nfa
      else do {
        out \<leftarrow> new_fa (get_nsymbols nfa) True 0;
        start_ss \<leftarrow> get_epsilon_closure [0] nfa;
        (out, start_state) \<leftarrow> add_state out;
        subset_loop nfa 0 ([start_ss], [(start_ss, start_state)], out)
      })"

declare closure_loop.simps [code] subset_loop.simps [code]

section \<open>Paths of a word\<close>

lemma reach_split:
  assumes "reach n R s (v @ w) u"
  shows "\<exists>p. reach n R s v p \<and> reach n R p w u"
proof -
  have "\<exists>p. reach n R s v p \<and> reach n R p w u" if "reach n R s x u" "x = v @ w" for s x u v
    using that
  proof (induction arbitrary: v rule: reach.induct)
    case (reach_here s)
    then show ?case using reach.reach_here by auto
  next
    case (reach_edge s x t y u)
    show ?case
    proof (cases "x < nat n")
      case False
      then have "y = v @ w" using reach_edge.prems by (simp add: read_symbol_def)
      from reach_edge.IH [OF this] obtain p where p: "reach n R t v p" "reach n R p w u" by blast
      have "reach n R s (read_symbol n x @ v) p" by (rule reach.reach_edge [OF reach_edge.hyps(1) p(1)])
      then show ?thesis using p(2) False by (auto simp: read_symbol_def)
    next
      case True
      show ?thesis
      proof (cases v)
        case Nil
        have "reach n R s (read_symbol n x @ y) u" by (rule reach.reach_edge [OF reach_edge.hyps])
        then show ?thesis using Nil reach_edge.prems reach.reach_here by auto
      next
        case (Cons a v')
        then have "a = x" "y = v' @ w" using reach_edge.prems True by (auto simp: read_symbol_def)
        from reach_edge.IH [OF this(2)] obtain p where p: "reach n R t v' p" "reach n R p w u" by blast
        have "reach n R s (read_symbol n x @ v') p" by (rule reach.reach_edge [OF reach_edge.hyps(1) p(1)])
        then show ?thesis using p(2) True Cons \<open>a = x\<close> by (auto simp: read_symbol_def)
      qed
    qed
  qed
  then show ?thesis using assms by blast
qed

lemma reach_symbol:
  "reach n R s [a] u \<longleftrightarrow> (\<exists>p q. reach n R s [] p \<and> edge R p a q \<and> a < nat n \<and> reach n R q [] u)"
proof
  have "\<exists>p q. reach n R s [] p \<and> edge R p a q \<and> a < nat n \<and> reach n R q [] u"
    if "reach n R s w u" "w = [a]" for s w u
    using that
  proof (induction rule: reach.induct)
    case (reach_edge s x t y u)
    show ?case
    proof (cases "x < nat n")
      case True
      then have "x = a" "y = []" using reach_edge.prems by (simp_all add: read_symbol_def)
      then show ?thesis using reach_edge.hyps True reach.reach_here by blast
    next
      case False
      then have "y = [a]" using reach_edge.prems by (simp add: read_symbol_def)
      from reach_edge.IH [OF this] obtain p q where
        "reach n R t [] p" "edge R p a q" "a < nat n" "reach n R q [] u" by blast
      moreover have "reach n R s [] p"
        using reach.reach_edge [OF reach_edge.hyps(1) \<open>reach n R t [] p\<close>] False by (simp add: read_symbol_def)
      ultimately show ?thesis by blast
    qed
  qed simp
  then show "reach n R s [a] u \<Longrightarrow> \<exists>p q. reach n R s [] p \<and> edge R p a q \<and> a < nat n \<and> reach n R q [] u"
    by blast
next
  assume "\<exists>p q. reach n R s [] p \<and> edge R p a q \<and> a < nat n \<and> reach n R q [] u"
  then obtain p q where p: "reach n R s [] p" "edge R p a q" "a < nat n" "reach n R q [] u" by blast
  have "reach n R p (read_symbol n a @ []) u" by (rule reach.reach_edge [OF p(2,4)])
  then show "reach n R s [a] u" using reach_trans [OF p(1)] p(3) by (force simp: read_symbol_def)
qed

text \<open>The states that reading nothing leads to, and those one symbol leads to.\<close>

definition closure :: "int \<Rightarrow> int list list \<Rightarrow> nat set \<Rightarrow> nat set" where
  "closure n R S = {t. \<exists>s \<in> S. reach n R s [] t}"

definition move :: "int list list \<Rightarrow> nat set \<Rightarrow> nat \<Rightarrow> nat set" where
  "move R S a = {t. \<exists>s \<in> S. edge R s a t}"

definition after :: "int \<Rightarrow> int list list \<Rightarrow> nat list \<Rightarrow> nat set" where
  "after n R w = {t. reach n R 0 w t}"

lemma after_Nil: "after n R [] = closure n R {0}"
  by (simp add: after_def closure_def)

lemma after_snoc:
  "after n R (w @ [a]) = (if a < nat n then closure n R (move R (after n R w) a) else {})"
proof (rule set_eqI)
  fix t
  have "reach n R 0 (w @ [a]) t \<longleftrightarrow> (\<exists>p. reach n R 0 w p \<and> reach n R p [a] t)"
    using reach_split reach_trans by blast
  also have "\<dots> \<longleftrightarrow> (\<exists>p q. reach n R 0 w p \<and> edge R p a q \<and> a < nat n \<and> reach n R q [] t)"
  proof
    assume "\<exists>p. reach n R 0 w p \<and> reach n R p [a] t"
    then obtain p p' q where "reach n R 0 w p" "reach n R p [] p'" "edge R p' a q" "a < nat n" "reach n R q [] t"
      unfolding reach_symbol by blast
    then show "\<exists>p q. reach n R 0 w p \<and> edge R p a q \<and> a < nat n \<and> reach n R q [] t"
      using reach_trans [of n R 0 w p "[]" p'] by auto
  next
    assume "\<exists>p q. reach n R 0 w p \<and> edge R p a q \<and> a < nat n \<and> reach n R q [] t"
    then show "\<exists>p. reach n R 0 w p \<and> reach n R p [a] t" unfolding reach_symbol using reach_here by blast
  qed
  finally show "t \<in> after n R (w @ [a]) \<longleftrightarrow>
      t \<in> (if a < nat n then closure n R (move R (after n R w) a) else {})"
    by (auto simp: after_def closure_def move_def)
qed

section \<open>Sets of states as sorted lists\<close>

definition as_list :: "nat set \<Rightarrow> int list" where
  "as_list S = sorted_list_of_set (int ` S)"

lemma set_as_list [simp]: "finite S \<Longrightarrow> set (as_list S) = int ` S"
  by (simp add: as_list_def)

lemma as_list_empty [simp]: "as_list {} = []"
  by (simp add: as_list_def)

lemma as_list_eq_Nil: "finite S \<Longrightarrow> as_list S = [] \<longleftrightarrow> S = {}"
  by (simp add: as_list_def)

lemma as_list_inject: "finite S \<Longrightarrow> finite T \<Longrightarrow> as_list S = as_list T \<longleftrightarrow> S = T"
  by (metis inj_image_eq_iff inj_of_nat set_as_list)

lemma set_insert_as_list:
  assumes "finite S"
  shows "set_insert (int x) (as_list S) = as_list (insert x S)"
proof (cases "x \<in> S")
  case True
  then show ?thesis using assms by (simp add: set_insert_def insert_absorb)
next
  case False
  then have "int x \<notin> int ` S" by auto
  then show ?thesis using assms by (simp add: set_insert_def as_list_def)
qed

lemma run_for_as_list:
  assumes "finite S" and "\<And>s t. s \<in> S \<Longrightarrow> f (int s) t = g s t"
  shows "run_for (as_list S) f t = run_for (sorted_list_of_set S) g t"
proof -
  have "as_list S = map int (sorted_list_of_set S)"
  proof (rule sorted_distinct_set_unique)
    show "sorted (map int (sorted_list_of_set S))"
      using sorted_sorted_list_of_set [of S] by (simp add: sorted_map)
  qed (use assms(1) in \<open>simp_all add: as_list_def distinct_map\<close>)
  then have "run_for (as_list S) f t = run_for (sorted_list_of_set S) (\<lambda>s. f (int s)) t" by (simp add: run_for_map)
  also have "\<dots> = run_for (sorted_list_of_set S) g t"
    using assms by (intro run_for_cong) auto
  finally show ?thesis .
qed

lemma step_edge:
  assumes R: "fa_ok n False R acc" and s: "s < length R" "x < nat n + 2"
  shows "\<exists>v. step (fa_of n False R acc) (int s) (int x) = Some v \<and>
     (v = - 1 \<and> (\<forall>t. \<not> edge R s x t) \<or> (\<exists>t. v = int t \<and> t < length R \<and> (\<forall>t'. edge R s x t' \<longleftrightarrow> t' = t)))"
proof -
  have x: "x < width n False" using s(2) by simp
  have len: "length (R ! s) = width n False" by (rule same_width_row [OF fa_okD(1) [OF R] s(1)])
  have st: "step (fa_of n False R acc) (int s) (int x) = Some (R ! s ! x)" by (rule step_of [OF fa_okD(1) [OF R] s(1) x])
  have range: "- 1 \<le> R ! s ! x" "R ! s ! x < int (length R)" using fa_okD(5) [OF R s(1) x] by simp_all
  show ?thesis
  proof (cases "R ! s ! x = - 1")
    case True
    then show ?thesis using st by (auto simp: edge_def)
  next
    case False
    then have "R ! s ! x = int (nat (R ! s ! x))" using range(1) by simp
    then show ?thesis using st range s(1) x len by (auto simp: edge_def intro!: exI [of _ "nat (R ! s ! x)"])
  qed
qed

lemma step_set_of:
  assumes R: "fa_ok n False R acc" and S: "S \<subseteq> {..<length R}" and a: "a < nat n"
  shows "step_set (as_list S) (int a) (fa_of n False R acc) = Some (as_list (move R S a))"
proof -
  have fin: "finite S" using S finite_subset by blast
  have movefin: "finite (move R T a)" for T
    by (rule finite_subset [of _ "{..<length R}"]) (auto simp: move_def dest: edge_closed(3) [OF R])
  let ?f = "\<lambda>s next_ss. do {
     next_state \<leftarrow> step (fa_of n False R acc) (int s) (int a);
     Some (if next_state \<noteq> - 1 then set_insert next_state next_ss else next_ss)
   }"
  have "\<exists>x. run_for (sorted_list_of_set S) ?f [] = Some x \<and>
      (\<lambda>done x. x = as_list (move R (set done) a)) (sorted_list_of_set S) x"
  proof (rule run_for_rule)
    show "[] = as_list (move R (set []) a)" by (simp add: move_def)
    fix "done" s rest x
    assume split: "sorted_list_of_set S = done @ s # rest" and x: "x = as_list (move R (set done) a)"
    have "s \<in> S" using fin split by (metis in_set_conv_decomp set_sorted_list_of_set)
    then have s: "s < length R" using S by blast
    obtain v where v: "step (fa_of n False R acc) (int s) (int a) = Some v"
      "v = - 1 \<and> (\<forall>t. \<not> edge R s a t) \<or> (\<exists>t. v = int t \<and> t < length R \<and> (\<forall>t'. edge R s a t' \<longleftrightarrow> t' = t))"
      using step_edge [OF R s, of a] a by auto
    from v(2) show "\<exists>x'. ?f s x = Some x' \<and> x' = as_list (move R (set (done @ [s])) a)"
    proof (elim disjE exE conjE)
      assume "v = - 1" "\<forall>t. \<not> edge R s a t"
      moreover from this have "move R (set (done @ [s])) a = move R (set done) a" by (auto simp: move_def)
      ultimately show ?thesis using v(1) x by simp
    next
      fix t assume t: "v = int t" "\<forall>t'. edge R s a t' \<longleftrightarrow> t' = t"
      then have "move R (set (done @ [s])) a = insert t (move R (set done) a)" by (auto simp: move_def)
      then show ?thesis using v(1) x t(1) set_insert_as_list [OF movefin, of t "set done"] by simp
    qed
  qed
  then have "run_for (sorted_list_of_set S) ?f [] = Some (as_list (move R S a))" using fin by simp
  then show ?thesis
    unfolding step_set_def by (subst run_for_as_list [OF fin, where g = ?f]) simp_all
qed

text \<open>The states one epsilon transition leads to.\<close>

definition eps_next :: "int \<Rightarrow> int list list \<Rightarrow> nat \<Rightarrow> nat set" where
  "eps_next n R s = {t. edge R s (nat n) t \<or> edge R s (Suc (nat n)) t}"

lemma run_for_two: "run_for [i, j] f p = (f i p \<bind> f j)"
  by (cases "f i p") simp_all

lemma visit_state_of:
  assumes R: "fa_ok n False R acc" and s: "s < length R" and S: "finite S"
  shows "\<exists>new. visit_state (fa_of n False R acc) n (n + 1) (int s) (map int q, as_list S) =
     Some (map int (q @ new), as_list (S \<union> set new)) \<and> distinct new \<and> set new = eps_next n R s - S"
proof -
  note n = same_widthD(1) [OF fa_okD(1) [OF R]]
  let ?f = "\<lambda>epsilon (q, ss). do {
     next_state \<leftarrow> step (fa_of n False R acc) (int s) epsilon;
     if next_state = - 1 then Some (q, ss)
     else if next_state \<notin> set ss then Some (q @ [next_state], set_insert next_state ss)
     else Some (q, ss)
   }"
  have one: "\<exists>new. ?f (int x) (map int q, as_list S) = Some (map int (q @ new), as_list (S \<union> set new)) \<and>
      distinct new \<and> set new = {t. edge R s x t} - S" if x: "x < nat n + 2" and S: "finite S" for x q S
  proof -
    obtain v where v: "step (fa_of n False R acc) (int s) (int x) = Some v"
      "v = - 1 \<and> (\<forall>t. \<not> edge R s x t) \<or> (\<exists>t. v = int t \<and> t < length R \<and> (\<forall>t'. edge R s x t' \<longleftrightarrow> t' = t))"
      using step_edge [OF R s x] by blast
    from v(2) show ?thesis
    proof (elim disjE exE conjE)
      assume "v = - 1" "\<forall>t. \<not> edge R s x t"
      then show ?thesis using v(1) by (intro exI [of _ "[]"]) simp
    next
      fix t assume t: "v = int t" "\<forall>t'. edge R s x t' \<longleftrightarrow> t' = t"
      show ?thesis
      proof (cases "t \<in> S")
        case True
        then show ?thesis using v(1) t S by (intro exI [of _ "[]"]) auto
      next
        case False
        then have "int t \<notin> set (as_list S)" using S by auto
        then show ?thesis
          using v(1) t False S set_insert_as_list [OF S, of t] by (intro exI [of _ "[t]"]) auto
      qed
    qed
  qed
  have "[n..n + 1 + 1 - 1] = [int (nat n), int (Suc (nat n))]" using n by (simp add: upto_rec1)
  then have run: "visit_state (fa_of n False R acc) n (n + 1) (int s) p =
      (?f (int (nat n)) p \<bind> ?f (int (Suc (nat n))))" for p
    unfolding visit_state_def for_range_def by (simp only: run_for_two)
  obtain new1 where 1: "?f (int (nat n)) (map int q, as_list S) = Some (map int (q @ new1), as_list (S \<union> set new1))"
    "distinct new1" "set new1 = {t. edge R s (nat n) t} - S" using one [of "nat n" S q] S by auto
  obtain new2 where 2: "?f (int (Suc (nat n))) (map int (q @ new1), as_list (S \<union> set new1)) =
      Some (map int ((q @ new1) @ new2), as_list ((S \<union> set new1) \<union> set new2))"
    "distinct new2" "set new2 = {t. edge R s (Suc (nat n)) t} - (S \<union> set new1)"
    using one [of "Suc (nat n)" "S \<union> set new1" "q @ new1"] S by auto
  have "visit_state (fa_of n False R acc) n (n + 1) (int s) (map int q, as_list S) =
      Some (map int (q @ (new1 @ new2)), as_list (S \<union> set (new1 @ new2)))"
    unfolding run 1(1) using 2(1) by (simp add: Un_assoc)
  moreover have "distinct (new1 @ new2)" "set (new1 @ new2) = eps_next n R s - S"
    using 1(2,3) 2(2,3) by (auto simp: eps_next_def)
  ultimately show ?thesis by blast
qed

section \<open>The closure\<close>

lemma closure_mono: "S \<subseteq> closure n R S"
  by (auto simp: closure_def intro: reach_here)

lemma closure_bound: "fa_ok n det R acc \<Longrightarrow> S \<subseteq> {..<length R} \<Longrightarrow> closure n R S \<subseteq> {..<length R}"
  by (auto simp: closure_def dest: reach_closed)

lemma eps_next_reach: "t \<in> eps_next n R s \<Longrightarrow> reach n R s [] t"
  by (auto simp: eps_next_def intro: reach_epsilon reach_here)

lemma eps_next_bound: "fa_ok n det R acc \<Longrightarrow> eps_next n R s \<subseteq> {..<length R}"
  by (auto simp: eps_next_def dest: edge_closed)

text \<open>A set that every epsilon transition stays in holds all that reading nothing leads to.\<close>

lemma closure_closed:
  assumes R: "fa_ok n False R acc" and c: "\<And>s. s \<in> S \<Longrightarrow> eps_next n R s \<subseteq> S"
  shows "closure n R S \<subseteq> S"
proof -
  have "u \<in> S" if "reach n R s w u" "w = []" "s \<in> S" for s w u
    using that
  proof (induction rule: reach.induct)
    case (reach_edge s x t w u)
    have "x < nat n + 2" using edge_closed(2) [OF R reach_edge.hyps(1)] by simp
    moreover have "\<not> x < nat n" using reach_edge.prems(1) by (auto simp: read_symbol_def)
    ultimately have "x = nat n \<or> x = Suc (nat n)" by linarith
    then have "t \<in> eps_next n R s" using reach_edge.hyps(1) by (auto simp: eps_next_def)
    then show ?case using reach_edge.IH reach_edge.prems c by (auto simp: read_symbol_def split: if_splits)
  qed simp
  then show ?thesis by (auto simp: closure_def)
qed

lemma closure_idem:
  assumes "fa_ok n False R acc" shows "closure n R (closure n R S) = closure n R S"
proof
  show "closure n R (closure n R S) \<subseteq> closure n R S"
  proof (rule closure_closed [OF assms])
    fix s assume "s \<in> closure n R S"
    then obtain p where p: "p \<in> S" "reach n R p [] s" by (auto simp: closure_def)
    show "eps_next n R s \<subseteq> closure n R S"
    proof
      fix t assume "t \<in> eps_next n R s"
      then have "reach n R p ([] @ []) t" by (intro reach_trans [OF p(2)] eps_next_reach)
      then show "t \<in> closure n R S" using p(1) by (auto simp: closure_def)
    qed
  qed
qed (rule closure_mono)

lemma closure_loop_of:
  assumes R: "fa_ok n False R acc" and S0: "S0 \<subseteq> S" "S \<subseteq> closure n R S0" "S \<subseteq> {..<length R}"
    and q: "set q \<subseteq> S" "\<And>s. s \<in> S - set q \<Longrightarrow> eps_next n R s \<subseteq> S"
  shows "closure_loop (fa_of n False R acc) n (n + 1) (map int q) (as_list S) =
     Some (as_list (closure n R S0))"
  using S0 q
proof (induction "length q + (length R - card S)" arbitrary: q S rule: less_induct)
  case less
  have fin: "finite S" using less.prems(3) finite_subset by blast
  show ?case
  proof (cases q)
    case Nil
    have "closure n R S0 \<subseteq> closure n R S" using less.prems(1) by (auto simp: closure_def)
    also have "\<dots> \<subseteq> S" using less.prems(5) Nil by (intro closure_closed [OF R]) auto
    finally have "S = closure n R S0" using less.prems(2) by blast
    then show ?thesis using Nil by (subst closure_loop.simps) simp
  next
    case (Cons s q')
    then have s: "s \<in> S" "s < length R" using less.prems(3,4) by auto
    obtain new where new: "visit_state (fa_of n False R acc) n (n + 1) (int s) (map int q', as_list S) =
        Some (map int (q' @ new), as_list (S \<union> set new))" "distinct new" "set new = eps_next n R s - S"
      using visit_state_of [OF R s(2) fin] by blast
    let ?S = "S \<union> set new"
    have sub: "?S \<subseteq> {..<length R}" using less.prems(3) new(3) eps_next_bound [OF R, of s] by blast
    have card: "card ?S = card S + length new"
    proof -
      have "S \<inter> set new = {}" using new(3) by blast
      then have "card ?S = card S + card (set new)" using fin by (intro card_Un_disjoint) simp_all
      then show ?thesis using distinct_card [OF new(2)] by simp
    qed
    moreover have "card ?S \<le> length R" using card_mono [OF _ sub] by simp
    ultimately have dec: "length (q' @ new) + (length R - card ?S) < length q + (length R - card S)"
      using Cons by simp
    have "closure_loop (fa_of n False R acc) n (n + 1) (map int (q' @ new)) (as_list ?S) =
        Some (as_list (closure n R S0))"
    proof (rule less.hyps [OF dec])
      show "S0 \<subseteq> ?S" using less.prems(1) by blast
      have "eps_next n R s \<subseteq> closure n R S0"
      proof
        fix t assume "t \<in> eps_next n R s"
        then have t: "reach n R s [] t" by (rule eps_next_reach)
        obtain p where "p \<in> S0" "reach n R p [] s" using s(1) less.prems(2) by (auto simp: closure_def)
        then show "t \<in> closure n R S0" using reach_trans [OF _ t, of p "[]"] by (auto simp: closure_def)
      qed
      then show "?S \<subseteq> closure n R S0" using less.prems(2) new(3) by blast
      show "?S \<subseteq> {..<length R}" by (rule sub)
      show "set (q' @ new) \<subseteq> ?S" using less.prems(4) Cons by auto
      fix p assume p: "p \<in> ?S - set (q' @ new)"
      then consider "p = s" | "p \<in> S - set q" using Cons by auto
      then show "eps_next n R p \<subseteq> ?S"
      proof cases
        case 1
        then show ?thesis using new(3) by blast
      next
        case 2
        then show ?thesis using less.prems(5) by blast
      qed
    qed
    then show ?thesis using Cons new(1) by (subst closure_loop.simps) simp
  qed
qed

lemma get_epsilon_closure_of:
  assumes R: "fa_ok n False R acc" and S: "S \<subseteq> {..<length R}"
  shows "get_epsilon_closure (as_list S) (fa_of n False R acc) = Some (as_list (closure n R S))"
proof -
  have fin: "finite S" using S finite_subset by blast
  have "as_list S = map int (sorted_list_of_set S)"
  proof (rule sorted_distinct_set_unique)
    show "sorted (map int (sorted_list_of_set S))"
      using sorted_sorted_list_of_set [of S] by (simp add: sorted_map)
  qed (use fin in \<open>simp_all add: as_list_def distinct_map\<close>)
  then show ?thesis
    using closure_loop_of [OF R order.refl closure_mono S, of "sorted_list_of_set S"] fin
    by (simp add: get_epsilon_closure_def)
qed

section \<open>Tokens of a set of states\<close>

text \<open>The least token of the accepting states of a set, -1 if there is none.\<close>

definition token_of :: "int list \<Rightarrow> nat set \<Rightarrow> int \<Rightarrow> bool" where
  "token_of acc S t \<longleftrightarrow> (\<forall>s \<in> S. acc ! s \<noteq> - 1 \<longrightarrow> t \<noteq> - 1 \<and> t \<le> acc ! s) \<and>
     (t = - 1 \<or> (\<exists>s \<in> S. acc ! s = t))"

lemma token_of_insert:
  assumes m: "token_of acc S m"
  shows "token_of acc (insert s S)
     (if acc ! s = - 1 then m else if m = - 1 \<or> acc ! s < m then acc ! s else m)"
proof -
  have below: "m \<noteq> - 1 \<and> m \<le> acc ! p" if "p \<in> S" "acc ! p \<noteq> - 1" for p
    using m that unfolding token_of_def by blast
  have found: "m = - 1 \<or> (\<exists>p \<in> S. acc ! p = m)" using m unfolding token_of_def by blast
  consider "acc ! s = - 1" | "acc ! s \<noteq> - 1" "m = - 1 \<or> acc ! s < m" | "acc ! s \<noteq> - 1" "m \<noteq> - 1" "m \<le> acc ! s"
    by linarith
  then show ?thesis
  proof cases
    case 1
    then show ?thesis using m unfolding token_of_def by auto
  next
    case 2
    have "acc ! s \<le> acc ! p" if "p \<in> S" "acc ! p \<noteq> - 1" for p using below [OF that] 2(2) by auto
    then show ?thesis using 2 unfolding token_of_def by auto
  next
    case 3
    then show ?thesis using below found unfolding token_of_def by auto
  qed
qed

lemma least_token_of:
  assumes R: "fa_ok n False R acc" and S: "S \<subseteq> {..<length R}"
  shows "\<exists>t. least_token (fa_of n False R acc) (as_list S) = Some t \<and> token_of acc S t"
proof -
  have fin: "finite S" using S finite_subset by blast
  let ?f = "\<lambda>s m. do {
     nfa_token \<leftarrow> accepts (fa_of n False R acc) (int s);
     Some (if nfa_token = - 1 then m else if m = - 1 \<or> nfa_token < m then nfa_token else m)
   }"
  have "\<exists>t. run_for (sorted_list_of_set S) ?f (- 1) = Some t \<and>
      (\<lambda>done t. token_of acc (set done) t) (sorted_list_of_set S) t"
  proof (rule run_for_rule)
    show "token_of acc (set []) (- 1)" by (simp add: token_of_def)
    fix "done" s rest m
    assume split: "sorted_list_of_set S = done @ s # rest" and m: "token_of acc (set done) m"
    have "s \<in> S" using fin split by (metis in_set_conv_decomp set_sorted_list_of_set)
    then have "s < length acc" using S fa_okD(3) [OF R] by auto
    from accepts_of [OF this, of n False R]
    show "\<exists>t. ?f s m = Some t \<and> token_of acc (set (done @ [s])) t"
      using token_of_insert [OF m, of s] by simp
  qed
  then show ?thesis
    using fin unfolding least_token_def by (subst run_for_as_list [OF fin, where g = ?f]) simp_all
qed

section \<open>The powerset construction\<close>

text \<open>
  \<open>Ss\<close> are the sets found so far, by the number of their state; the rows below \<open>front\<close> are done, the
  row \<open>front\<close> is done for the symbols below \<open>j\<close>.
\<close>

definition target_ok :: "int \<Rightarrow> int list list \<Rightarrow> nat set list \<Rightarrow> nat set \<Rightarrow> nat \<Rightarrow> int \<Rightarrow> bool" where
  "target_ok n R Ss S a x \<longleftrightarrow>
     (if move R S a = {} then x = - 1
      else \<exists>k < length Ss. x = int k \<and> Ss ! k = closure n R (move R S a))"

definition det_inv ::
  "int \<Rightarrow> int list list \<Rightarrow> int list \<Rightarrow> nat \<Rightarrow> nat \<Rightarrow> nat set list \<Rightarrow> (int list \<times> int) list \<Rightarrow>
   int list list \<Rightarrow> int list \<Rightarrow> bool" where
  "det_inv n R acc front j Ss m D ac \<longleftrightarrow>
     distinct Ss \<and> (\<forall>S \<in> set Ss. S \<subseteq> {..<length R} \<and> S \<noteq> {}) \<and> Ss \<noteq> [] \<and> Ss ! 0 = closure n R {0} \<and>
     (\<forall>k < length Ss. map_of m (as_list (Ss ! k)) = Some (int k)) \<and>
     (\<forall>x. map_of m x \<noteq> None \<longrightarrow> x \<in> as_list ` set Ss) \<and>
     length D = length Ss \<and> length ac = length Ss \<and> same_width n True D \<and>
     (\<forall>i < length Ss. \<forall>a < nat n.
        if i < front \<or> (i = front \<and> a < j) then target_ok n R Ss (Ss ! i) a (D ! i ! a) else D ! i ! a = - 1) \<and>
     (\<forall>i < length Ss. if i < front then token_of acc (Ss ! i) (ac ! i) else ac ! i = - 1)"

lemma det_invD:
  assumes "det_inv n R acc front j Ss m D ac"
  shows "distinct Ss" "\<forall>S \<in> set Ss. S \<subseteq> {..<length R} \<and> S \<noteq> {}" "Ss \<noteq> []" "Ss ! 0 = closure n R {0}"
    and "\<forall>k < length Ss. map_of m (as_list (Ss ! k)) = Some (int k)"
    and "\<forall>x. map_of m x \<noteq> None \<longrightarrow> x \<in> as_list ` set Ss"
    and "length D = length Ss" "length ac = length Ss" "same_width n True D"
    and "\<forall>i < length Ss. \<forall>a < nat n.
        if i < front \<or> (i = front \<and> a < j) then target_ok n R Ss (Ss ! i) a (D ! i ! a) else D ! i ! a = - 1"
    and "\<forall>i < length Ss. if i < front then token_of acc (Ss ! i) (ac ! i) else ac ! i = - 1"
  using assms unfolding det_inv_def by blast+

lemma target_ok_append: "target_ok n R Ss S a x \<Longrightarrow> target_ok n R (Ss @ Ts) S a x"
  by (force simp: target_ok_def nth_append split: if_splits)

lemma finite_sets: "det_inv n R acc front j Ss m D ac \<Longrightarrow> S \<in> set Ss \<Longrightarrow> finite S"
  using det_invD(2) by (meson finite_lessThan finite_subset)

text \<open>The state of a set, new or old.\<close>

lemma find_or_add_of:
  assumes R: "fa_ok n False R acc" and n: "0 < n" and inv: "det_inv n R acc front j Ss m D ac"
    and S: "S \<subseteq> {..<length R}" "S \<noteq> {}" and front: "front < length Ss"
  shows "\<exists>Ts m' D' ac' k. find_or_add (as_list S) (map as_list Ss, m, fa_of n True D ac) =
       Some ((map as_list (Ss @ Ts), m', fa_of n True D' ac'), int k) \<and>
     det_inv n R acc front j (Ss @ Ts) m' D' ac' \<and> k < length (Ss @ Ts) \<and> (Ss @ Ts) ! k = S"
proof -
  note I = det_invD [OF inv]
  have finS: "finite S" using S(1) finite_subset by blast
  show ?thesis
  proof (cases "S \<in> set Ss")
    case True
    then obtain k where k: "k < length Ss" "Ss ! k = S" by (auto simp: in_set_conv_nth)
    then have "map_of m (as_list S) = Some (int k)" using I(5) by blast
    then show ?thesis
      using inv k by (intro exI [of _ "[]"] exI [of _ m] exI [of _ D] exI [of _ ac] exI [of _ k])
        (simp add: find_or_add_def)
  next
    case False
    have "as_list S \<notin> as_list ` set Ss"
      using False as_list_inject [OF finS finite_sets [OF inv]] by blast
    then have none: "map_of m (as_list S) = None" using I(6) by blast
    let ?D = "D @ [blank n True]" and ?ac = "ac @ [- 1]" and ?m = "(as_list S, int (length Ss)) # m"
    have "det_inv n R acc front j (Ss @ [S]) ?m ?D ?ac"
      unfolding det_inv_def
    proof (intro conjI)
      show "distinct (Ss @ [S])" using I(1) False by simp
      show "\<forall>T \<in> set (Ss @ [S]). T \<subseteq> {..<length R} \<and> T \<noteq> {}" using I(2) S by auto
      show "(Ss @ [S]) ! 0 = closure n R {0}" using I(3,4) by (simp add: nth_append)
      show "\<forall>k < length (Ss @ [S]). map_of ?m (as_list ((Ss @ [S]) ! k)) = Some (int k)"
      proof (intro allI impI)
        fix k assume "k < length (Ss @ [S])"
        then consider "k = length Ss" | "k < length Ss" by fastforce
        then show "map_of ?m (as_list ((Ss @ [S]) ! k)) = Some (int k)"
        proof cases
          case 2
          then have "Ss ! k \<noteq> S" "finite (Ss ! k)" using False finite_sets [OF inv] by auto
          then have "as_list (Ss ! k) \<noteq> as_list S" using as_list_inject finS by blast
          then show ?thesis using I(5) 2 by (simp add: nth_append)
        qed simp
      qed
      show "\<forall>x. map_of ?m x \<noteq> None \<longrightarrow> x \<in> as_list ` set (Ss @ [S])" using I(6) by auto
      show "same_width n True ?D" using I(9) by (rule same_width_append) simp
      show "\<forall>i < length (Ss @ [S]). \<forall>a < nat n.
          if i < front \<or> (i = front \<and> a < j) then target_ok n R (Ss @ [S]) ((Ss @ [S]) ! i) a (?D ! i ! a)
          else ?D ! i ! a = - 1"
      proof (intro allI impI)
        fix i a assume ia: "i < length (Ss @ [S])" "a < nat n"
        then consider "i = length Ss" | "i < length Ss" by fastforce
        then show "if i < front \<or> (i = front \<and> a < j) then target_ok n R (Ss @ [S]) ((Ss @ [S]) ! i) a (?D ! i ! a)
          else ?D ! i ! a = - 1"
        proof cases
          case 1
          then show ?thesis using front I(7) ia(2) by (simp add: nth_append blank_nth width_def)
        next
          case 2
          then show ?thesis using I(7,10) ia(2) target_ok_append by (auto simp: nth_append)
        qed
      qed
      show "\<forall>i < length (Ss @ [S]). if i < front then token_of acc ((Ss @ [S]) ! i) (?ac ! i) else ?ac ! i = - 1"
        using I(8,11) front by (auto simp: nth_append less_Suc_eq)
    qed (use I(7,8) in simp_all)
    moreover have "find_or_add (as_list S) (map as_list Ss, m, fa_of n True D ac) =
        Some ((map as_list (Ss @ [S]), ?m, fa_of n True ?D ?ac), int (length Ss))"
      using none add_state_of [OF I(9), of ac] I(7) by (simp add: find_or_add_def)
    ultimately show ?thesis
      by (intro exI [of _ "[S]"] exI [of _ ?m] exI [of _ ?D] exI [of _ ?ac] exI [of _ "length Ss"]) simp
  qed
qed

text \<open>A cell of the current row gets its value.\<close>

lemma det_inv_cell:
  assumes inv: "det_inv n R acc front j Ss m D ac" and front: "front < length Ss" and j: "j < nat n"
    and x: "target_ok n R Ss (Ss ! front) j x"
  shows "det_inv n R acc front (Suc j) Ss m (D[front := (D ! front)[j := x]]) ac"
proof -
  note I = det_invD [OF inv]
  let ?D = "D[front := (D ! front)[j := x]]"
  have lr: "length (D ! front) = nat n" using same_width_row [OF I(9)] front I(7) by (simp add: width_def)
  show ?thesis
    unfolding det_inv_def
  proof (intro conjI)
    show "same_width n True ?D" using I(9) front I(7) by (intro same_width_update) simp_all
    show "\<forall>i < length Ss. \<forall>a < nat n.
        if i < front \<or> (i = front \<and> a < Suc j) then target_ok n R Ss (Ss ! i) a (?D ! i ! a) else ?D ! i ! a = - 1"
    proof (intro allI impI)
      fix i a assume ia: "i < length Ss" "a < nat n"
      show "if i < front \<or> (i = front \<and> a < Suc j) then target_ok n R Ss (Ss ! i) a (?D ! i ! a) else ?D ! i ! a = - 1"
      proof (cases "i = front \<and> a = j")
        case True
        then show ?thesis using x front j lr I(7) by simp
      next
        case False
        then have "?D ! i ! a = D ! i ! a" using front I(7) by (cases "i = front") simp_all
        moreover have "i < front \<or> (i = front \<and> a < Suc j) \<longleftrightarrow> i < front \<or> (i = front \<and> a < j)" using False by auto
        ultimately show ?thesis using I(10) ia by simp
      qed
    qed
  qed (use I in simp_all)
qed

lemma det_inv_no_move:
  assumes inv: "det_inv n R acc front j Ss m D ac" and front: "front < length Ss" and j: "j < nat n"
    and x: "move R (Ss ! front) j = {}"
  shows "det_inv n R acc front (Suc j) Ss m D ac"
proof -
  note I = det_invD [OF inv]
  have "D ! front ! j = - 1" using I(10) front j by auto
  then have "D[front := (D ! front)[j := - 1]] = D" by (metis list_update_id)
  then show ?thesis using det_inv_cell [OF inv front j, of "- 1"] x by (simp add: target_ok_def)
qed

lemma expand_symbol_of:
  assumes R: "fa_ok n False R acc" and n: "0 < n" and inv: "det_inv n R acc front j Ss m D ac"
    and front: "front < length Ss" and j: "j < nat n"
  shows "\<exists>Ts m' D' ac'. expand_symbol (fa_of n False R acc) (as_list (Ss ! front)) (int front) (int j)
       (map as_list Ss, m, fa_of n True D ac) = Some (map as_list (Ss @ Ts), m', fa_of n True D' ac') \<and>
     det_inv n R acc front (Suc j) (Ss @ Ts) m' D' ac'"
proof -
  note I = det_invD [OF inv]
  let ?nfa = "fa_of n False R acc" and ?M = "move R (Ss ! front) j"
  have S: "Ss ! front \<subseteq> {..<length R}" using I(2) front by simp
  have M: "?M \<subseteq> {..<length R}" by (auto simp: move_def dest: edge_closed(3) [OF R])
  have finM: "finite ?M" using M finite_subset by blast
  have st: "step_set (as_list (Ss ! front)) (int j) ?nfa = Some (as_list ?M)" by (rule step_set_of [OF R S j])
  show ?thesis
  proof (cases "?M = {}")
    case True
    then show ?thesis
      using det_inv_no_move [OF inv front j True] st
      by (intro exI [of _ "[]"] exI [of _ m] exI [of _ D] exI [of _ ac]) (simp add: expand_symbol_def)
  next
    case False
    let ?C = "closure n R ?M"
    have C: "?C \<subseteq> {..<length R}" "?C \<noteq> {}" using closure_bound [OF R M] closure_mono [of ?M n R] False by auto
    obtain Ts m' D' ac' k where f: "find_or_add (as_list ?C) (map as_list Ss, m, fa_of n True D ac) =
        Some ((map as_list (Ss @ Ts), m', fa_of n True D' ac'), int k)"
      "det_inv n R acc front j (Ss @ Ts) m' D' ac'" "k < length (Ss @ Ts)" "(Ss @ Ts) ! k = ?C"
      using find_or_add_of [OF R n inv C front] by blast
    note I' = det_invD [OF f(2)]
    have front': "front < length (Ss @ Ts)" "(Ss @ Ts) ! front = Ss ! front" using front by (simp_all add: nth_append)
    have "D' ! front ! j = - 1" using I'(10) front'(1) j by auto
    then have "add_transition (fa_of n True D' ac') (int front) (int j) (int k) =
        Some (fa_of n True (D'[front := (D' ! front)[j := int k]]) ac')"
      using front'(1) f(3) I'(7) j by (intro add_transition_of [OF I'(9)]) (simp_all add: width_def)
    moreover have "det_inv n R acc front (Suc j) (Ss @ Ts) m' (D'[front := (D' ! front)[j := int k]]) ac'"
      using det_inv_cell [OF f(2) front'(1) j, of "int k"] f(3,4) False front'(2) by (auto simp: target_ok_def)
    moreover have "as_list ?M \<noteq> []" using False finM as_list_eq_Nil by blast
    ultimately show ?thesis
      using st f(1) get_epsilon_closure_of [OF R M]
      by (intro exI [of _ Ts] exI [of _ m'] exI [of _ "D'[front := (D' ! front)[j := int k]]"] exI [of _ ac'])
        (simp add: expand_symbol_def)
  qed
qed

lemma expand_symbols_of:
  assumes R: "fa_ok n False R acc" and n: "0 < n" and inv: "det_inv n R acc front 0 Ss m D ac"
    and front: "front < length Ss"
  shows "\<exists>Ts m' D' ac'. for_range 0 n (expand_symbol (fa_of n False R acc) (as_list (Ss ! front)) (int front))
       (map as_list Ss, m, fa_of n True D ac) = Some (map as_list (Ss @ Ts), m', fa_of n True D' ac') \<and>
     det_inv n R acc front (nat n) (Ss @ Ts) m' D' ac'"
proof -
  let ?f = "expand_symbol (fa_of n False R acc) (as_list (Ss ! front)) (int front)"
  let ?P = "\<lambda>i s. \<exists>Ts m' D' ac'. s = (map as_list (Ss @ Ts), m', fa_of n True D' ac') \<and>
     det_inv n R acc front (nat i) (Ss @ Ts) m' D' ac'"
  have "\<exists>s. for_range 0 n ?f (map as_list Ss, m, fa_of n True D ac) = Some s \<and> ?P n s"
  proof (rule for_range_rule [where P = ?P])
    show "?P 0 (map as_list Ss, m, fa_of n True D ac)"
      using inv by (intro exI [of _ "[]"] exI [of _ m] exI [of _ D] exI [of _ ac]) simp
    show "0 \<le> n" using n by simp
    fix i s assume i: "0 \<le> i" "i < n" and P: "?P i s"
    then obtain Ts m' D' ac' where s: "s = (map as_list (Ss @ Ts), m', fa_of n True D' ac')"
      "det_inv n R acc front (nat i) (Ss @ Ts) m' D' ac'" by blast
    have k: "nat i < nat n" "int (nat i) = i" "nat (i + 1) = Suc (nat i)" using i by auto
    have front': "front < length (Ss @ Ts)" "(Ss @ Ts) ! front = Ss ! front" using front by (simp_all add: nth_append)
    from expand_symbol_of [OF R n s(2) front'(1) k(1)]
    obtain Us m2 D2 ac2 where "?f i s = Some (map as_list ((Ss @ Ts) @ Us), m2, fa_of n True D2 ac2)"
      "det_inv n R acc front (Suc (nat i)) ((Ss @ Ts) @ Us) m2 D2 ac2"
      unfolding s(1) front'(2) k(2) by blast
    then show "\<exists>s'. ?f i s = Some s' \<and> ?P (i + 1) s'"
      unfolding k(3) append_assoc by blast
  qed
  then show ?thesis by blast
qed

text \<open>The end of a round: the token of the set is recorded and the next row begins.\<close>

lemma det_inv_round:
  assumes inv: "det_inv n R acc front (nat n) Ss m D ac" and front: "front < length Ss"
    and t: "token_of acc (Ss ! front) t"
  shows "det_inv n R acc (Suc front) 0 Ss m D (ac[front := t])"
proof -
  note I = det_invD [OF inv]
  show ?thesis
    unfolding det_inv_def
  proof (intro conjI)
    show "\<forall>i < length Ss. \<forall>a < nat n.
        if i < Suc front \<or> (i = Suc front \<and> a < 0) then target_ok n R Ss (Ss ! i) a (D ! i ! a) else D ! i ! a = - 1"
    proof (intro allI impI)
      fix i a assume ia: "i < length Ss" "a < nat n"
      show "if i < Suc front \<or> (i = Suc front \<and> a < 0) then target_ok n R Ss (Ss ! i) a (D ! i ! a) else D ! i ! a = - 1"
        using I(10) [rule_format, OF ia] ia(2) by (auto simp: less_Suc_eq split: if_splits)
    qed
    show "\<forall>i < length Ss. if i < Suc front then token_of acc (Ss ! i) (ac[front := t] ! i) else ac[front := t] ! i = - 1"
    proof (intro allI impI)
      fix i assume i: "i < length Ss"
      show "if i < Suc front then token_of acc (Ss ! i) (ac[front := t] ! i) else ac[front := t] ! i = - 1"
        using I(8,11) i front t by (cases "i = front") auto
    qed
  qed (use I in simp_all)
qed

lemma subset_loop_of:
  assumes R: "fa_ok n False R acc" and n: "0 < n" and inv: "det_inv n R acc front 0 Ss m D ac"
    and front: "front \<le> length Ss"
  shows "\<exists>Ts m' D' ac'. subset_loop (fa_of n False R acc) (int front) (map as_list Ss, m, fa_of n True D ac) =
       Some (fa_of n True D' ac') \<and> det_inv n R acc (length (Ss @ Ts)) 0 (Ss @ Ts) m' D' ac'"
  using inv front
proof (induction "2 ^ length R - front" arbitrary: front Ss m D ac rule: less_induct)
  case less
  let ?nfa = "fa_of n False R acc"
  show ?case
  proof (cases "front < length Ss")
    case False
    then have "front = length Ss" using less.prems(2) by simp
    then show ?thesis
      using less.prems(1) by (subst subset_loop.simps, intro exI [of _ "[]"] exI [of _ m] exI [of _ D] exI [of _ ac])
        (simp add: asize_def)
  next
    case True
    obtain Ts m' D' ac' where e: "for_range 0 n (expand_symbol ?nfa (as_list (Ss ! front)) (int front))
        (map as_list Ss, m, fa_of n True D ac) = Some (map as_list (Ss @ Ts), m', fa_of n True D' ac')"
      "det_inv n R acc front (nat n) (Ss @ Ts) m' D' ac'"
      using expand_symbols_of [OF R n less.prems(1) True] by blast
    have front': "front < length (Ss @ Ts)" "(Ss @ Ts) ! front = Ss ! front" using True by (simp_all add: nth_append)
    note I' = det_invD [OF e(2)]
    have S: "Ss ! front \<subseteq> {..<length R}" using I'(2) True by simp
    obtain t where t: "least_token ?nfa (as_list (Ss ! front)) = Some t" "token_of acc (Ss ! front) t"
      using least_token_of [OF R S] by blast
    have "\<exists>out. (if t \<noteq> - 1 then add_accept (fa_of n True D' ac') (int front) t else Some (fa_of n True D' ac')) =
        Some (fa_of n True D' (ac'[front := t]))"
    proof (cases "t = - 1")
      case True
      have "ac' ! front = - 1" using I'(11) front'(1) by auto
      then have "ac'[front := - 1] = ac'" by (metis list_update_id)
      then show ?thesis using True by simp
    next
      case False
      obtain s where "s \<in> Ss ! front" "acc ! s = t" using t(2) False by (auto simp: token_of_def)
      then have "t \<in> set acc" using S fa_okD(3) [OF R] by auto
      then have "0 \<le> t" using fa_okD(4) [OF R] False by force
      then show ?thesis using False add_accept_of [of front ac' t n True D'] front'(1) I'(8) by simp
    qed
    then have accept: "(if t \<noteq> - 1 then add_accept (fa_of n True D' ac') (int front) t else Some (fa_of n True D' ac')) =
        Some (fa_of n True D' (ac'[front := t]))" by simp
    have inv': "det_inv n R acc (Suc front) 0 (Ss @ Ts) m' D' (ac'[front := t])"
      using det_inv_round [OF e(2) front'(1)] t(2) front'(2) by simp
    have "set (Ss @ Ts) \<subseteq> Pow {..<length R}" using I'(2) by auto
    then have "card (set (Ss @ Ts)) \<le> card (Pow {..<length R})" by (intro card_mono) simp_all
    then have "length (Ss @ Ts) \<le> 2 ^ length R" using distinct_card [OF I'(1)] by (simp add: card_Pow)
    then have dec: "2 ^ length R - Suc front < 2 ^ length R - front" using front'(1) by simp
    obtain Us m2 D2 ac2 where rest: "subset_loop ?nfa (int (Suc front))
        (map as_list (Ss @ Ts), m', fa_of n True D' (ac'[front := t])) = Some (fa_of n True D2 ac2)"
      "det_inv n R acc (length ((Ss @ Ts) @ Us)) 0 ((Ss @ Ts) @ Us) m2 D2 ac2"
      using less.hyps [OF dec inv'] front'(1) by (auto simp: Suc_le_eq)
    have rd: "rd (map as_list Ss) (int front) = Some (as_list (Ss ! front))" using True by simp
    have "subset_loop ?nfa (int front) (map as_list Ss, m, fa_of n True D ac) = Some (fa_of n True D2 ac2)"
      using True rd e(1) t(1) accept rest(1)
      by (subst subset_loop.simps) (simp add: asize_def add.commute)
    then show ?thesis using rest(2) unfolding append_assoc by blast
  qed
qed

section \<open>What the deterministic automaton recognizes\<close>

lemma reach_no_epsilon:
  assumes "fa_ok n True D ac"
  shows "reach n D s [] t \<longleftrightarrow> t = s" and "reach n D s [a] t \<longleftrightarrow> edge D s a t"
proof -
  have x: "x < nat n" if "edge D s x t" for s x t
    using edge_closed(2) [OF assms that] by (simp add: width_def)
  have nil: "t = s" if "reach n D s w t" "w = []" for s w t
    using that by (cases rule: reach.cases) (auto simp: read_symbol_def dest: x)
  then show one: "reach n D s [] t \<longleftrightarrow> t = s" for s t using reach_here by blast
  show "reach n D s [a] t \<longleftrightarrow> edge D s a t"
    unfolding reach_symbol one using x by blast
qed

lemma det_edge:
  assumes inv: "det_inv n R acc (length Ss) 0 Ss m D ac"
  shows "edge D i a k \<longleftrightarrow> i < length Ss \<and> a < nat n \<and> move R (Ss ! i) a \<noteq> {} \<and>
     k < length Ss \<and> Ss ! k = closure n R (move R (Ss ! i) a)"
proof (cases "i < length Ss \<and> a < nat n")
  case True
  note I = det_invD [OF inv]
  have cell: "target_ok n R Ss (Ss ! i) a (D ! i ! a)" using I(10) True by auto
  have same: "k = k'" if "k < length Ss" "k' < length Ss" "Ss ! k = Ss ! k'" for k k'
    using that I(1) nth_eq_iff_index_eq by blast
  have "edge D i a k \<longleftrightarrow> D ! i ! a = int k"
    using True I(7) same_width_row [OF I(9)] by (auto simp: edge_def width_def)
  also have "\<dots> \<longleftrightarrow> move R (Ss ! i) a \<noteq> {} \<and> k < length Ss \<and> Ss ! k = closure n R (move R (Ss ! i) a)"
  proof (cases "move R (Ss ! i) a = {}")
    case True
    then show ?thesis using cell by (simp add: target_ok_def)
  next
    case False
    then obtain k' where k': "k' < length Ss" "D ! i ! a = int k'" "Ss ! k' = closure n R (move R (Ss ! i) a)"
      using cell by (auto simp: target_ok_def)
    have "k' = k \<longleftrightarrow> k < length Ss \<and> Ss ! k = Ss ! k'" using same k'(1) by metis
    then show ?thesis using False k' by simp
  qed
  finally show ?thesis using True by simp
next
  case False
  note I = det_invD [OF inv]
  have "width n True = nat n" by (simp add: width_def)
  then show ?thesis using False I(7) same_width_row [OF I(9), of i] by (auto simp: edge_def)
qed

lemma det_reach:
  assumes inv: "det_inv n R acc (length Ss) 0 Ss m D ac" and ok: "fa_ok n True D ac"
  shows "(\<forall>u. reach n D 0 w u \<longleftrightarrow> u < length Ss \<and> Ss ! u = after n R w) \<and>
     (after n R w \<noteq> {} \<longrightarrow> after n R w \<in> set Ss)"
proof (induction w rule: rev_induct)
  case Nil
  note I = det_invD [OF inv]
  have "u = 0 \<longleftrightarrow> u < length Ss \<and> Ss ! u = Ss ! 0" for u
    using I(1,3) nth_eq_iff_index_eq by blast
  then show ?case unfolding reach_no_epsilon(1) [OF ok] after_Nil using I(3,4) by (metis length_greater_0_conv nth_mem)
next
  case (snoc a w)
  note I = det_invD [OF inv]
  have split: "reach n D 0 (w @ [a]) u \<longleftrightarrow> (\<exists>p. reach n D 0 w p \<and> edge D p a u)" for u
    using reach_split [of n D 0 w "[a]" u] reach_trans [of n D 0 w _ "[a]" u] reach_no_epsilon(2) [OF ok]
    by blast
  have none: "move R {} a = {}" "closure n R {} = {}" by (simp_all add: move_def closure_def)
  have full: "u < length Ss \<Longrightarrow> Ss ! u \<noteq> {}" for u using I(2) by simp
  show ?case
  proof (cases "a < nat n \<and> move R (after n R w) a \<noteq> {}")
    case True
    then have "after n R w \<in> set Ss" using snoc none by metis
    then obtain p where p: "p < length Ss" "Ss ! p = after n R w" by (auto simp: in_set_conv_nth)
    have step: "after n R (w @ [a]) = closure n R (move R (Ss ! p) a)" using True p(2) by (simp add: after_snoc)
    have "reach n D 0 w p' \<longleftrightarrow> p' = p" for p'
      using snoc p I(1) nth_eq_iff_index_eq by metis
    then have reach: "reach n D 0 (w @ [a]) u \<longleftrightarrow> u < length Ss \<and> Ss ! u = after n R (w @ [a])" for u
      unfolding split step using det_edge [OF inv, of p a u] True p by auto
    have "target_ok n R Ss (Ss ! p) a (D ! p ! a)" using I(10) True p(1) by auto
    then have "after n R (w @ [a]) \<in> set Ss"
      using True p(2) unfolding step by (auto simp: target_ok_def in_set_conv_nth split: if_splits)
    then show ?thesis using reach by blast
  next
    case False
    then have "after n R (w @ [a]) = {}" using none by (auto simp: after_snoc)
    moreover have "\<not> reach n D 0 (w @ [a]) u" for u
      unfolding split using det_edge [OF inv, of _ a u] False snoc by auto
    ultimately show ?thesis using full by simp
  qed
qed

lemma make_deterministic_of:
  assumes R: "fa_ok n False R acc" and n: "0 < n"
  shows "\<exists>D ac Ss m. make_deterministic (fa_of n False R acc) = Some (fa_of n True D ac) \<and> fa_ok n True D ac \<and>
     det_inv n R acc (length Ss) 0 Ss m D ac"
proof -
  let ?S = "closure n R {0}" and ?D = "[blank n True]"
  have sub: "{0} \<subseteq> {..<length R}" using fa_okD(2) [OF R] by simp
  have S: "?S \<subseteq> {..<length R}" "?S \<noteq> {}"
    using closure_bound [OF R sub] closure_mono [of "{0}" n R] by auto
  have start: "get_epsilon_closure [0] (fa_of n False R acc) = Some (as_list ?S)"
    using get_epsilon_closure_of [OF R sub] by (simp add: as_list_def)
  have w: "same_width n True []" using n by (simp add: same_width_def width_def)
  have state: "add_state (fa_of n True [] []) = Some (fa_of n True ?D [- 1], 0)"
    using add_state_of [OF w, of "[]"] by simp
  have "det_inv n R acc 0 0 [?S] [(as_list ?S, 0)] ?D [- 1]"
    using S w by (auto simp: det_inv_def same_width_def blank_def width_def split: if_splits)
  from subset_loop_of [OF R n this] obtain Ts m D ac where
    l: "subset_loop (fa_of n False R acc) 0 ([as_list ?S], [(as_list ?S, 0)], fa_of n True ?D [- 1]) =
      Some (fa_of n True D ac)" and inv: "det_inv n R acc (length ([?S] @ Ts)) 0 ([?S] @ Ts) m D ac"
    by auto
  define Ss where "Ss = [?S] @ Ts"
  note I = det_invD [OF inv [folded Ss_def]]
  have "- 1 \<le> x \<and> x < int (length D)" if x: "r \<in> set D" "x \<in> set r" for r x
  proof -
    obtain i a where i: "i < length D" "r = D ! i" "a < nat n" "x = D ! i ! a"
      using x same_width_row [OF I(9)] by (auto simp: in_set_conv_nth width_def)
    then have "target_ok n R Ss (Ss ! i) a x" using I(7,10) by auto
    then show ?thesis using I(7) by (auto simp: target_ok_def split: if_splits)
  qed
  moreover have "- 1 \<le> t" if t: "t \<in> set ac" for t
  proof -
    obtain i where i: "i < length Ss" "t = ac ! i" using t I(8) by (auto simp: in_set_conv_nth)
    then have "token_of acc (Ss ! i) t" using I(11) by auto
    moreover have "Ss ! i \<subseteq> {..<length R}" using I(2) i(1) by simp
    ultimately show ?thesis using fa_okD(3,4) [OF R] by (fastforce simp: token_of_def)
  qed
  ultimately have "fa_ok n True D ac" using I(3,7,8,9) by (auto simp: fa_ok_def)
  moreover have "make_deterministic (fa_of n False R acc) = Some (fa_of n True D ac)"
    using n start state l by (simp add: make_deterministic_def new_fa_of)
  ultimately show ?thesis using inv unfolding Ss_def [symmetric] by blast
qed

lemma det_recognizes:
  assumes R: "fa_ok n False R acc" and ok: "fa_ok n True D ac"
    and inv: "det_inv n R acc (length Ss) 0 Ss m D ac"
  shows "recognizes (fa_of n True D ac) w token \<longleftrightarrow>
     recognizes (fa_of n False R acc) w token \<and>
     (\<forall>t. recognizes (fa_of n False R acc) w t \<longrightarrow> token \<le> t)"
proof -
  note I = det_invD [OF inv]
  let ?S = "after n R w"
  have low: "- 1 \<le> acc ! u" if "u < length R" for u using that fa_okD(3,4) [OF R] by simp
  have S: "?S \<subseteq> {..<length R}"
    using reach_closed [OF R, of 0 w] fa_okD(2) [OF R] by (auto simp: after_def)
  have rec: "recognizes (fa_of n False R acc) w t \<longleftrightarrow> (\<exists>u \<in> ?S. acc ! u = t) \<and> t \<noteq> - 1" for t
    unfolding recognizes_of [OF R] using S low by (force simp: after_def)
  have "ac ! u = t" if "u < length Ss" "token_of acc (Ss ! u) t" for u t
  proof -
    have "token_of acc (Ss ! u) (ac ! u)" using I(11) that(1) by auto
    then show ?thesis using that(2) unfolding token_of_def by (metis order_antisym)
  qed
  then have ac: "ac ! u = t \<longleftrightarrow> token_of acc (Ss ! u) t" if "u < length Ss" for u t
    using that I(11) by auto
  have notneg: "0 \<le> token \<longleftrightarrow> token \<noteq> - 1" if "u < length Ss" "ac ! u = token" for u
  proof -
    have "- 1 \<le> token" using that I(8) fa_okD(4) [OF ok] by auto
    then show ?thesis by auto
  qed
  have "recognizes (fa_of n True D ac) w token \<longleftrightarrow>
      (\<exists>u < length Ss. Ss ! u = ?S \<and> ac ! u = token \<and> 0 \<le> token)"
    unfolding recognizes_of [OF ok] using det_reach [OF inv ok, of w] I(7) by auto
  also have "\<dots> \<longleftrightarrow> (\<exists>u < length Ss. Ss ! u = ?S \<and> ac ! u = token \<and> token \<noteq> - 1)"
    using notneg by blast
  also have "\<dots> \<longleftrightarrow> ?S \<in> set Ss \<and> token_of acc ?S token \<and> token \<noteq> - 1"
    unfolding in_set_conv_nth using ac by metis
  also have "\<dots> \<longleftrightarrow> token_of acc ?S token \<and> token \<noteq> - 1"
    using det_reach [OF inv ok, of w] by (auto simp: token_of_def)
  also have "\<dots> \<longleftrightarrow> recognizes (fa_of n False R acc) w token \<and>
      (\<forall>t. recognizes (fa_of n False R acc) w t \<longrightarrow> token \<le> t)"
    unfolding rec token_of_def by blast
  finally show ?thesis .
qed

text \<open>A deterministic automaton is in one state after a word.\<close>

lemma reach_functional:
  assumes "fa_ok n True D ac" "reach n D 0 w u" "reach n D 0 w v"
  shows "u = v"
  using assms(2,3)
proof (induction w arbitrary: u v rule: rev_induct)
  case Nil
  then show ?case using reach_no_epsilon(1) [OF assms(1)] by simp
next
  case (snoc a w)
  obtain p q where "reach n D 0 w p" "edge D p a u" "reach n D 0 w q" "edge D q a v"
    using reach_split [OF snoc.prems(1)] reach_split [OF snoc.prems(2)] reach_no_epsilon(2) [OF assms(1)] by blast
  then show ?case using snoc.IH [of p q] by (simp add: edge_def)
qed

lemma determinized:
  assumes R: "fa_ok n det R acc" and n: "0 < n"
  shows "\<exists>D ac. make_deterministic (fa_of n det R acc) = Some (fa_of n True D ac) \<and> fa_ok n True D ac \<and>
     (\<forall>w token. recognizes (fa_of n True D ac) w token \<longleftrightarrow>
        recognizes (fa_of n det R acc) w token \<and> (\<forall>t. recognizes (fa_of n det R acc) w t \<longrightarrow> token \<le> t))"
proof (cases det)
  case True
  with R have R: "fa_ok n True R acc" by simp
  note unique = reach_functional [OF R]
  have "recognizes (fa_of n True R acc) w token \<Longrightarrow> recognizes (fa_of n True R acc) w t \<Longrightarrow> token = t" for w token t
    unfolding recognizes_of [OF R] using unique by blast
  then show ?thesis using R True by (intro exI [of _ R] exI [of _ acc]) (auto simp: make_deterministic_def)
next
  case False
  with R have R: "fa_ok n False R acc" by simp
  then obtain D ac Ss m where D: "make_deterministic (fa_of n False R acc) = Some (fa_of n True D ac)"
    "fa_ok n True D ac" "det_inv n R acc (length Ss) 0 Ss m D ac"
    using make_deterministic_of [OF R n] by blast
  show ?thesis using D(1,2) det_recognizes [OF R D(2,3)] False by (intro exI [of _ D] exI [of _ ac]) simp
qed

text \<open>C5.  Determinization (equivalence).  \<open>make_deterministic\<close> returns on every well-formed automaton
  with at least one symbol: a well-formed deterministic automaton over the same symbols, which recognizes a word
  with the least of the tokens that the given automaton recognizes it with, and no other word.\<close>

theorem make_deterministic_least_token:
  assumes nfa: "wf_fa nfa" and symbols: "0 < get_nsymbols nfa"
  shows "\<exists>out. make_deterministic nfa = Some out \<and> wf_fa out \<and> get_determinism out \<and>
     get_nsymbols out = get_nsymbols nfa \<and>
     (\<forall>w token. recognizes out w token \<longleftrightarrow>
        recognizes nfa w token \<and> (\<forall>t. recognizes nfa w t \<longrightarrow> token \<le> t))"
proof -
  obtain n det R acc where e: "nfa = fa_of n det R acc" and R: "fa_ok n det R acc" using nfa by (rule wf_faE)
  then obtain D ac where D: "make_deterministic nfa = Some (fa_of n True D ac)" "fa_ok n True D ac"
    "\<forall>w token. recognizes (fa_of n True D ac) w token \<longleftrightarrow>
        recognizes nfa w token \<and> (\<forall>t. recognizes nfa w t \<longrightarrow> token \<le> t)"
    using determinized [OF R] symbols unfolding e fa_of_simps by blast
  then show ?thesis using wf_fa_of [OF D(2)] unfolding e by (intro exI [of _ "fa_of n True D ac"]) simp
qed

text \<open>Two copies of a one-letter word, with the tokens 1 and 0.\<close>

lemma make_deterministic_least_token_witness:
  "let nfa = fa_of 1 False [[- 1, 1, 2], [3, - 1, - 1], [4, - 1, - 1], [- 1, - 1, - 1], [- 1, - 1, - 1]] [- 1, - 1, - 1, 1, 0];
       out = fa_of 1 True [[1], [- 1]] [- 1, 0]
   in make_deterministic nfa = Some out \<and>
     (\<forall>w token. recognizes out w token \<longleftrightarrow>
        recognizes nfa w token \<and> (\<forall>t. recognizes nfa w t \<longrightarrow> token \<le> t))"
proof -
  let ?nfa = "fa_of 1 False [[- 1, 1, 2], [3, - 1, - 1], [4, - 1, - 1], [- 1, - 1, - 1], [- 1, - 1, - 1]] [- 1, - 1, - 1, 1, 0]"
  have "wf_fa ?nfa" by (rule wf_fa_of) (simp add: fa_ok_def same_width_def width_def)
  moreover have "make_deterministic ?nfa = Some (fa_of 1 True [[1], [- 1]] [- 1, 0])" by code_simp
  ultimately show ?thesis using make_deterministic_least_token [of ?nfa] by (simp add: Let_def)
qed

end
