(* ===== verification/Simplify.thy ===== *)
theory Simplify
  imports Determinize
begin

text \<open>
  Simplification of an automaton (\<open>FiniteAutomaton::simplify_once\<close> and \<open>FiniteAutomaton::simplify\<close> in
  \<open>src/src/Omega_h_finite_automaton.cpp\<close>): states with the same token and the same transitions are merged,
  again and again until nothing changes.

  The \<open>std::map\<close> from state rows to simple states is an association list whose keys are compared as the
  map compares them, by the comparator in both directions.  What is proved: the loop ends, the words and
  tokens recognized stay the same, and the states of the result have pairwise different rows.
\<close>

section \<open>The operations\<close>

fun row_less_cells :: "tbl \<Rightarrow> int \<Rightarrow> int \<Rightarrow> int list \<Rightarrow> bool option" where
  "row_less_cells table a b [] = Some False"
| "row_less_cells table a b (symbol # symbols) = do {
     ea \<leftarrow> table_at table a symbol;
     eb \<leftarrow> table_at table b symbol;
     if ea \<noteq> eb then Some (ea < eb) else row_less_cells table a b symbols
   }"

definition row_less :: "fa \<Rightarrow> int \<Rightarrow> int \<Rightarrow> bool option" where
  "row_less fa a b = do {
     aa \<leftarrow> rd (accepted_tokens fa) a;
     ab \<leftarrow> rd (accepted_tokens fa) b;
     if aa \<noteq> ab then Some (aa < ab)
     else row_less_cells (fa_table fa) a b ([0..get_ncols (fa_table fa) - 1])
   }"

fun find_row :: "fa \<Rightarrow> (int \<times> int) list \<Rightarrow> int \<Rightarrow> int option option" where
  "find_row fa [] state = Some None"
| "find_row fa ((key, simple) # sr2ss) state = do {
     less \<leftarrow> row_less fa key state;
     greater \<leftarrow> row_less fa state key;
     if \<not> less \<and> \<not> greater then Some (Some simple) else find_row fa sr2ss state
   }"

definition number_rows :: "fa \<Rightarrow> int \<Rightarrow> ((int \<times> int) list \<times> int) option" where
  "number_rows fa nstates = for_range 0 nstates (\<lambda>state (sr2ss, nsimple). do {
     found \<leftarrow> find_row fa sr2ss state;
     case found of
       None \<Rightarrow> Some (sr2ss @ [(state, nsimple)], nsimple + 1)
     | Some simple \<Rightarrow> Some (sr2ss, nsimple)
   }) ([], 0)"

definition copy_state :: "fa \<Rightarrow> (int \<times> int) list \<Rightarrow> int \<Rightarrow> fa \<times> bool list \<Rightarrow> (fa \<times> bool list) option" where
  "copy_state fa sr2ss state = (\<lambda>(out, did_simple). do {
     simple \<leftarrow> find_row fa sr2ss state \<bind> (\<lambda>found. found);
     did \<leftarrow> rd did_simple simple;
     if did then Some (out, did_simple)
     else do {
       out \<leftarrow> for_range 0 (get_nsymbols_eps fa) (\<lambda>symbol out. do {
         next_state \<leftarrow> step fa state symbol;
         if next_state = - 1 then Some out
         else do {
           next_simple \<leftarrow> find_row fa sr2ss next_state \<bind> (\<lambda>found. found);
           add_transition out simple symbol next_simple
         }
       }) out;
       token \<leftarrow> accepts fa state;
       out \<leftarrow> (if token \<noteq> - 1 then add_accept out simple token else Some out);
       did_simple \<leftarrow> wr did_simple simple True;
       Some (out, did_simple)
     }
   })"

definition simplify_once :: "fa \<Rightarrow> fa option" where
  "simplify_once fa = do {
     nstates \<leftarrow> get_nstates fa;
     (sr2ss, nsimple) \<leftarrow> number_rows fa nstates;
     out \<leftarrow> new_fa (get_nsymbols fa) (get_determinism fa) nsimple;
     out \<leftarrow> for_range 0 nsimple (\<lambda>simple out. do { (out, state) \<leftarrow> add_state out; Some out }) out;
     (out, did_simple) \<leftarrow> for_range 0 nstates (copy_state fa sr2ss) (out, replicate (nat nsimple) False);
     Some out
   }"

partial_function (option) simplify_loop :: "fa \<Rightarrow> int \<Rightarrow> fa option" where
  "simplify_loop out nstates = do {
     out \<leftarrow> simplify_once out;
     nstates_new \<leftarrow> get_nstates out;
     if nstates_new < nstates then simplify_loop out nstates_new else Some out
   }"

declare simplify_loop.simps [code]

definition simplify :: "fa \<Rightarrow> fa option" where
  "simplify fa = do {
     nstates \<leftarrow> get_nstates fa;
     simplify_loop fa nstates
   }"

section \<open>Comparison of rows\<close>

definition row_key :: "int list list \<Rightarrow> int list \<Rightarrow> nat \<Rightarrow> int \<times> int list" where
  "row_key R acc s = (acc ! s, R ! s)"

lemma row_less_cells_of:
  assumes R: "same_width n det R" and s: "s < length R" "t < length R"
    and xs: "\<forall>x \<in> set xs. 0 \<le> x \<and> x < int (width n det)"
  shows "row_less_cells (fa_table (fa_of n det R acc)) (int s) (int t) xs \<noteq> None"
    and "row_less_cells (fa_table (fa_of n det R acc)) (int s) (int t) xs = Some False \<and>
       row_less_cells (fa_table (fa_of n det R acc)) (int t) (int s) xs = Some False \<longleftrightarrow>
       (\<forall>x \<in> set xs. R ! s ! nat x = R ! t ! nat x)"
proof -
  have at: "table_at (fa_table (fa_of n det R acc)) (int p) x = Some (R ! p ! nat x)"
    if "p < length R" "0 \<le> x \<and> x < int (width n det)" for p x
    using table_at_of [OF R that(1), of "nat x" acc] that(2) by (simp add: nat_less_iff)
  show "row_less_cells (fa_table (fa_of n det R acc)) (int s) (int t) xs \<noteq> None"
    using xs by (induction xs) (simp_all add: at [OF s(1)] at [OF s(2)])
  show "row_less_cells (fa_table (fa_of n det R acc)) (int s) (int t) xs = Some False \<and>
      row_less_cells (fa_table (fa_of n det R acc)) (int t) (int s) xs = Some False \<longleftrightarrow>
      (\<forall>x \<in> set xs. R ! s ! nat x = R ! t ! nat x)"
    using xs
  proof (induction xs)
    case (Cons x xs)
    then show ?case by (cases "R ! s ! nat x" "R ! t ! nat x" rule: linorder_cases)
        (simp_all add: at [OF s(1)] at [OF s(2)])
  qed simp
qed

lemma row_less_of:
  assumes R: "fa_ok n det R acc" and s: "s < length R" "t < length R"
  shows "\<exists>l g. row_less (fa_of n det R acc) (int s) (int t) = Some l \<and>
     row_less (fa_of n det R acc) (int t) (int s) = Some g \<and>
     (\<not> l \<and> \<not> g \<longleftrightarrow> row_key R acc s = row_key R acc t)"
proof -
  let ?T = "fa_table (fa_of n det R acc)"
  let ?xs = "[0..get_ncols ?T - 1]"
  note sw = fa_okD(1) [OF R]
  have cols: "get_ncols ?T = int (width n det)" using ncols_of [of n det R acc] same_widthD(1) [OF sw] by simp
  have xs: "\<forall>x \<in> set ?xs. 0 \<le> x \<and> x < int (width n det)" using cols by auto
  have rd: "rd acc (int s) = Some (acc ! s)" "rd acc (int t) = Some (acc ! t)" using s fa_okD(3) [OF R] by simp_all
  obtain l g where l: "row_less_cells ?T (int s) (int t) ?xs = Some l" "row_less_cells ?T (int t) (int s) ?xs = Some g"
    using row_less_cells_of(1) [OF sw s xs, of acc] row_less_cells_of(1) [OF sw s(2,1) xs, of acc] by blast
  have "(\<forall>x \<in> set ?xs. R ! s ! nat x = R ! t ! nat x) \<longleftrightarrow> (\<forall>x < width n det. R ! s ! x = R ! t ! x)"
    (is "?l \<longleftrightarrow> ?r")
  proof
    assume l: ?l
    show ?r
    proof (intro allI impI)
      fix x assume "x < width n det"
      then have "int x \<in> set ?xs" unfolding cols by simp
      from bspec [OF l this] show "R ! s ! x = R ! t ! x" by simp
    qed
  qed (use xs in \<open>auto simp: nat_less_iff\<close>)
  also have "\<dots> \<longleftrightarrow> R ! s = R ! t"
    using same_width_row [OF sw s(1)] same_width_row [OF sw s(2)] by (auto intro: nth_equalityI)
  finally have same: "\<not> l \<and> \<not> g \<longleftrightarrow> R ! s = R ! t"
    using row_less_cells_of(2) [OF sw s xs, of acc] l by simp
  show ?thesis
    using l rd same by (cases "acc ! s = acc ! t") (auto simp: row_less_def row_key_def)
qed

section \<open>The numbering of the different rows\<close>

text \<open>The states below \<open>i\<close> that are the first ones with their row, and the number of a row among them.\<close>

definition reps :: "(nat \<Rightarrow> 'k) \<Rightarrow> nat \<Rightarrow> nat list" where
  "reps K i = filter (\<lambda>s. \<forall>t < s. K t \<noteq> K s) [0..<i]"

definition number_of :: "(nat \<Rightarrow> 'k) \<Rightarrow> nat list \<Rightarrow> nat \<Rightarrow> nat" where
  "number_of K rs s = length (takeWhile (\<lambda>r. K r \<noteq> K s) rs)"

lemma number_of_hit:
  assumes "\<exists>r \<in> set rs. K r = K s"
  shows "number_of K rs s < length rs" and "K (rs ! number_of K rs s) = K s"
proof -
  have "number_of K rs s < length rs \<and> K (rs ! number_of K rs s) = K s"
    using assms by (induction rs) (auto simp: number_of_def)
  then show "number_of K rs s < length rs" "K (rs ! number_of K rs s) = K s" by simp_all
qed

lemma reps_first:
  assumes "s < i"
  shows "\<exists>r \<in> set (reps K i). K r = K s \<and> r \<le> s \<and> (\<forall>t < r. K t \<noteq> K s)"
proof -
  define r where "r = (LEAST r. K r = K s)"
  have "K r = K s" unfolding r_def by (rule LeastI [of _ s]) simp
  moreover have "r \<le> s" unfolding r_def by (rule Least_le) simp
  moreover have "\<forall>t < r. K t \<noteq> K s" unfolding r_def using not_less_Least by blast
  moreover have "r \<in> set (reps K i)" using calculation assms by (auto simp: reps_def)
  ultimately show ?thesis by blast
qed

lemma reps_inject: "r \<in> set (reps K i) \<Longrightarrow> q \<in> set (reps K i) \<Longrightarrow> K r = K q \<Longrightarrow> r = q"
  by (cases r q rule: linorder_cases) (auto simp: reps_def)

lemma distinct_reps: "distinct (reps K i)" "sorted (reps K i)"
  by (simp_all add: reps_def sorted_wrt_filter)

lemma reps_Suc: "reps K (Suc i) = reps K i @ (if \<exists>r \<in> set (reps K i). K r = K i then [] else [i])"
proof -
  have "(\<forall>t < i. K t \<noteq> K i) \<longleftrightarrow> \<not> (\<exists>r \<in> set (reps K i). K r = K i)"
    using reps_first [of _ i K] by (auto simp: reps_def) metis
  then show ?thesis by (simp add: reps_def)
qed

lemma length_reps: "length (reps K i) \<le> i"
  unfolding reps_def using length_filter_le [of _ "[0..<i]"] by simp

lemma number_of_append:
  "r \<in> set rs \<Longrightarrow> K r = K s \<Longrightarrow> number_of K (rs @ qs) s = number_of K rs s"
  unfolding number_of_def by (metis (mono_tags, lifting) takeWhile_append1)

definition numbered :: "nat list \<Rightarrow> nat \<Rightarrow> (int \<times> int) list" where
  "numbered rs k = zip (map int rs) (map int [k..<k + length rs])"

lemma numbered_simps: "numbered [] k = []" "numbered (r # rs) k = (int r, int k) # numbered rs (Suc k)"
  by (simp_all add: numbered_def upt_conv_Cons del: upt_Suc)

lemma numbered_snoc: "numbered (rs @ [r]) k = numbered rs k @ [(int r, int (k + length rs))]"
  by (simp add: numbered_def)

lemma find_row_of:
  assumes R: "fa_ok n det R acc" and s: "s < length R" and rs: "\<forall>r \<in> set rs. r < length R"
  shows "find_row (fa_of n det R acc) (numbered rs k) (int s) =
     Some (if \<exists>r \<in> set rs. row_key R acc r = row_key R acc s
           then Some (int (k + number_of (row_key R acc) rs s)) else None)"
  using rs
proof (induction rs arbitrary: k)
  case (Cons r rs)
  obtain l g where "row_less (fa_of n det R acc) (int r) (int s) = Some l"
      "row_less (fa_of n det R acc) (int s) (int r) = Some g"
      "\<not> l \<and> \<not> g \<longleftrightarrow> row_key R acc r = row_key R acc s"
    using row_less_of [OF R _ s, of r] Cons.prems by auto
  then show ?case
    using Cons.IH [of "Suc k"] Cons.prems by (cases "row_key R acc r = row_key R acc s")
      (auto simp: numbered_simps number_of_def)
qed (simp add: numbered_simps)

lemma number_rows_of:
  assumes R: "fa_ok n det R acc"
  defines "rs \<equiv> reps (row_key R acc) (length R)"
  shows "number_rows (fa_of n det R acc) (int (length R)) = Some (numbered rs 0, int (length rs))"
proof -
  let ?K = "row_key R acc"
  let ?f = "\<lambda>state (sr2ss, nsimple). do {
     found \<leftarrow> find_row (fa_of n det R acc) sr2ss state;
     case found of
       None \<Rightarrow> Some (sr2ss @ [(state, nsimple)], nsimple + 1)
     | Some simple \<Rightarrow> Some (sr2ss, nsimple)
   }"
  have "\<exists>s. for_range 0 (int (length R)) ?f ([], 0) = Some s \<and>
      (\<lambda>i s. s = (numbered (reps ?K (nat i)) 0, int (length (reps ?K (nat i))))) (int (length R)) s"
  proof (rule for_range_rule)
    fix i s assume i: "0 \<le> i" "i < int (length R)"
      and s: "s = (numbered (reps ?K (nat i)) 0, int (length (reps ?K (nat i))))"
    have ni: "nat i < length R" "int (nat i) = i" "nat (i + 1) = Suc (nat i)" using i by auto
    have "\<forall>r \<in> set (reps ?K (nat i)). r < length R" using ni by (auto simp: reps_def)
    note found = find_row_of [OF R ni(1) this, of 0, unfolded ni(2)]
    show "\<exists>s'. ?f i s = Some s' \<and> s' = (numbered (reps ?K (nat (i + 1))) 0, int (length (reps ?K (nat (i + 1)))))"
      by (cases "\<exists>r \<in> set (reps ?K (nat i)). ?K r = ?K (nat i)")
        (simp_all add: s ni i(1) found reps_Suc numbered_snoc)
  qed (simp_all add: reps_def numbered_simps)
  then show ?thesis by (simp add: number_rows_def rs_def)
qed

section \<open>The rows of the simplified automaton\<close>

definition new_row :: "(nat \<Rightarrow> nat) \<Rightarrow> int list \<Rightarrow> int list" where
  "new_row f r = map (\<lambda>x. if x = - 1 then - 1 else int (f (nat x))) r"

definition simple_number :: "int list list \<Rightarrow> int list \<Rightarrow> nat \<Rightarrow> nat" where
  "simple_number R acc = number_of (row_key R acc) (reps (row_key R acc) (length R))"

definition simple_rows :: "int list list \<Rightarrow> int list \<Rightarrow> int list list" where
  "simple_rows R acc = map (\<lambda>r. new_row (simple_number R acc) (R ! r)) (reps (row_key R acc) (length R))"

definition simple_tokens :: "int list list \<Rightarrow> int list \<Rightarrow> int list" where
  "simple_tokens R acc = map (\<lambda>r. acc ! r) (reps (row_key R acc) (length R))"

lemma length_new_row [simp]: "length (new_row f r) = length r"
  by (simp add: new_row_def)

lemma simple_number:
  fixes R :: "int list list" and acc :: "int list"
  defines "rs \<equiv> reps (row_key R acc) (length R)"
  assumes s: "s < length R"
  shows "simple_number R acc s < length rs" and "row_key R acc (rs ! simple_number R acc s) = row_key R acc s"
    and "rs ! simple_number R acc s \<le> s"
proof -
  have ex: "\<exists>r \<in> set rs. row_key R acc r = row_key R acc s"
    using reps_first [OF s, of "row_key R acc"] unfolding rs_def by blast
  show l: "simple_number R acc s < length rs" and e: "row_key R acc (rs ! simple_number R acc s) = row_key R acc s"
    using number_of_hit [OF ex] unfolding simple_number_def rs_def by simp_all
  have "rs ! simple_number R acc s \<in> set rs" using l by simp
  then have "\<forall>t < rs ! simple_number R acc s. row_key R acc t \<noteq> row_key R acc s"
    using e unfolding rs_def reps_def by auto
  then have "\<not> s < rs ! simple_number R acc s" by blast
  then show "rs ! simple_number R acc s \<le> s" by simp
qed

lemma simple_number_rep:
  assumes "k < length (reps (row_key R acc) (length R))"
  shows "simple_number R acc (reps (row_key R acc) (length R) ! k) = k"
proof -
  let ?rs = "reps (row_key R acc) (length R)"
  have m: "?rs ! k \<in> set ?rs" using assms by simp
  then have s: "?rs ! k < length R" by (auto simp: reps_def)
  note n = simple_number [OF s, of acc]
  have "?rs ! simple_number R acc (?rs ! k) = ?rs ! k"
    using reps_inject [OF _ m n(2)] n(1) by simp
  then show ?thesis using n(1) assms distinct_reps(1) nth_eq_iff_index_eq by blast
qed

lemma find_simple:
  assumes R: "fa_ok n det R acc" and s: "s < length R"
  shows "find_row (fa_of n det R acc) (numbered (reps (row_key R acc) (length R)) 0) (int s) =
     Some (Some (int (simple_number R acc s)))"
proof -
  let ?rs = "reps (row_key R acc) (length R)"
  have "\<forall>r \<in> set ?rs. r < length R" by (auto simp: reps_def)
  from find_row_of [OF R s this, of 0] show ?thesis
    using reps_first [OF s, of "row_key R acc"] unfolding simple_number_def by auto
qed

lemma add_states_loop:
  assumes "0 \<le> n" "0 < width n det"
  shows "for_range 0 (int k) (\<lambda>simple out. do { (out, state) \<leftarrow> add_state out; Some out }) (fa_of n det [] []) =
     Some (fa_of n det (replicate k (blank n det)) (replicate k (- 1)))"
proof -
  let ?f = "\<lambda>simple out. do { (out, state) \<leftarrow> add_state out; Some out }"
  have "\<exists>out. for_range 0 (int k) ?f (fa_of n det [] []) = Some out \<and>
      (\<lambda>i out. out = fa_of n det (replicate (nat i) (blank n det)) (replicate (nat i) (- 1))) (int k) out"
  proof (rule for_range_rule)
    fix i out assume i: "0 \<le> i" and out: "out = fa_of n det (replicate (nat i) (blank n det)) (replicate (nat i) (- 1))"
    have w: "same_width n det (replicate (nat i) (blank n det))" using assms by (auto simp: same_width_def)
    have "nat (i + 1) = Suc (nat i)" using i by simp
    then show "\<exists>out'. ?f i out = Some out' \<and>
        out' = fa_of n det (replicate (nat (i + 1)) (blank n det)) (replicate (nat (i + 1)) (- 1))"
      using add_state_of [OF w, of "replicate (nat i) (- 1)"] by (simp add: out replicate_append_same)
  qed simp_all
  then show ?thesis by simp
qed

text \<open>The transitions of one state.\<close>

lemma copy_row:
  assumes R: "fa_ok n det R acc" and s: "s < length R"
    and X: "same_width n det X" "length X = length (reps (row_key R acc) (length R))"
    and k: "k < length X" "X ! k = blank n det"
  shows "for_range 0 (get_nsymbols_eps (fa_of n det R acc)) (\<lambda>symbol out. do {
         next_state \<leftarrow> step (fa_of n det R acc) (int s) symbol;
         if next_state = - 1 then Some out
         else do {
           next_simple \<leftarrow> find_row (fa_of n det R acc) (numbered (reps (row_key R acc) (length R)) 0) next_state \<bind> (\<lambda>found. found);
           add_transition out (int k) symbol next_simple
         }
       }) (fa_of n det X tc) = Some (fa_of n det (X[k := new_row (simple_number R acc) (R ! s)]) tc)"
    (is "for_range 0 _ ?f _ = Some (fa_of n det (X[k := ?new]) tc)")
proof -
  let ?w = "width n det"
  let ?mid = "\<lambda>j. take (nat j) ?new @ replicate (?w - nat j) (- 1)"
  note sw = fa_okD(1) [OF R]
  have lr: "length (R ! s) = ?w" by (rule same_width_row [OF sw s])
  have eps: "get_nsymbols_eps (fa_of n det R acc) = int ?w"
    using same_widthD(1) [OF sw] by (simp add: get_nsymbols_eps_def ncols_of)
  have "\<exists>out. for_range 0 (int ?w) ?f (fa_of n det X tc) = Some out \<and>
      (\<lambda>j out. out = fa_of n det (X[k := ?mid j]) tc) (int ?w) out"
  proof (rule for_range_rule)
    have "X[k := X ! k] = X" by (rule list_update_id)
    then show "fa_of n det X tc = fa_of n det (X[k := ?mid 0]) tc" using k(2) by (simp add: blank_def)
    fix j out assume j: "0 \<le> j" "j < int ?w" and out: "out = fa_of n det (X[k := ?mid j]) tc"
    have jn: "nat j < ?w" "int (nat j) = j" "nat (j + 1) = Suc (nat j)" using j by auto
    have nx: "step (fa_of n det R acc) (int s) j = Some (R ! s ! nat j)"
      using step_of [OF sw s jn(1), of acc] jn(2) by simp
    have more: "?w - nat j = Suc (?w - Suc (nat j))" using jn(1) by simp
    have mid: "?mid (j + 1) = (?mid j)[nat j := ?new ! nat j]"
      using lr jn(1) unfolding jn(3) more by (simp add: take_Suc_conv_app_nth list_update_append)
    have cell: "?mid j ! nat j = - 1" using lr jn(1) by (simp add: nth_append)
    show "\<exists>out'. ?f j out = Some out' \<and> out' = fa_of n det (X[k := ?mid (j + 1)]) tc"
    proof (cases "R ! s ! nat j = - 1")
      case True
      then have "?new ! nat j = ?mid j ! nat j" using lr jn(1) cell by (simp add: new_row_def)
      then have "?mid (j + 1) = ?mid j" unfolding mid by (simp only: list_update_id)
      then show ?thesis using True out nx by simp
    next
      case False
      let ?t = "nat (R ! s ! nat j)"
      have t: "?t < length R" "R ! s ! nat j = int ?t" using fa_okD(5) [OF R s jn(1)] False by auto
      have found: "find_row (fa_of n det R acc) (numbered (reps (row_key R acc) (length R)) 0) (R ! s ! nat j) =
          Some (Some (int (simple_number R acc ?t)))"
        using find_simple [OF R t(1)] t(2) by simp
      have w: "same_width n det (X[k := ?mid j])"
        using lr jn(1) X(1) by (auto simp: same_width_def dest!: set_update_subset_insert [THEN subsetD])
      have "add_transition out (int k) (int (nat j)) (int (simple_number R acc ?t)) =
          Some (fa_of n det ((X[k := ?mid j])[k := (X[k := ?mid j] ! k)[nat j := int (simple_number R acc ?t)]]) tc)"
        unfolding out using k(1) X(2) simple_number(1) [OF t(1)] cell by (intro add_transition_of [OF w _ jn(1)]) simp_all
      moreover have "?new ! nat j = int (simple_number R acc ?t)" using False lr jn(1) by (simp add: new_row_def)
      ultimately have "add_transition out (int k) j (int (simple_number R acc ?t)) =
          Some (fa_of n det (X[k := ?mid (j + 1)]) tc)"
        unfolding mid using k(1) jn(2) by simp
      then show ?thesis using False nx found by simp
    qed
  qed simp
  then show ?thesis using lr unfolding eps by simp
qed

text \<open>All states: the rows whose first state is below \<open>i\<close> are filled.\<close>

definition filled :: "int list list \<Rightarrow> int list \<Rightarrow> 'a \<Rightarrow> 'a list \<Rightarrow> nat \<Rightarrow> 'a list" where
  "filled R acc b xs i = (let rs = reps (row_key R acc) (length R) in
     map (\<lambda>k. if rs ! k < i then xs ! k else b) [0..<length rs])"

lemma length_filled [simp]: "length (filled R acc b xs i) = length (reps (row_key R acc) (length R))"
  by (simp add: filled_def Let_def)

lemma nth_filled:
  "k < length (reps (row_key R acc) (length R)) \<Longrightarrow>
   filled R acc b xs i ! k = (if reps (row_key R acc) (length R) ! k < i then xs ! k else b)"
  by (simp add: filled_def Let_def)

lemma filled_0: "filled R acc b xs 0 = replicate (length (reps (row_key R acc) (length R))) b"
  by (simp add: filled_def Let_def map_replicate_const)

lemma filled_all:
  "length xs = length (reps (row_key R acc) (length R)) \<Longrightarrow> filled R acc b xs (length R) = xs"
proof (rule nth_equalityI)
  fix k assume xs: "length xs = length (reps (row_key R acc) (length R))"
    and k: "k < length (filled R acc b xs (length R))"
  then have "reps (row_key R acc) (length R) ! k \<in> set (reps (row_key R acc) (length R))" by simp
  then have "reps (row_key R acc) (length R) ! k < length R" by (auto simp: reps_def)
  then show "filled R acc b xs (length R) ! k = xs ! k" using k by (simp add: nth_filled)
qed simp

lemma filled_Suc:
  fixes R :: "int list list" and acc :: "int list"
  assumes s: "s < length R"
  defines "rs \<equiv> reps (row_key R acc) (length R)" and "k \<equiv> simple_number R acc s"
  shows "filled R acc b xs (Suc s) = (if rs ! k < s then filled R acc b xs s else (filled R acc b xs s)[k := xs ! k])"
    and "\<not> rs ! k < s \<Longrightarrow> rs ! k = s"
proof -
  note n = simple_number [OF s, of acc, folded rs_def k_def]
  show first: "\<not> rs ! k < s \<Longrightarrow> rs ! k = s" using n(3) by simp
  have eq: "rs ! j = s \<Longrightarrow> j < length rs \<Longrightarrow> j = k" for j
    using simple_number_rep [of j R acc] unfolding rs_def k_def by simp
  show "filled R acc b xs (Suc s) = (if rs ! k < s then filled R acc b xs s else (filled R acc b xs s)[k := xs ! k])"
  proof (rule nth_equalityI)
    fix j assume "j < length (filled R acc b xs (Suc s))"
    then have j: "j < length rs" by (simp add: rs_def)
    show "filled R acc b xs (Suc s) ! j =
        (if rs ! k < s then filled R acc b xs s else (filled R acc b xs s)[k := xs ! k]) ! j"
    proof (cases "j = k")
      case True
      have "rs ! k < Suc s" using n(3) by simp
      then show ?thesis using True n(1) by (simp add: nth_filled rs_def [symmetric])
    next
      case False
      then have "rs ! j < Suc s \<longleftrightarrow> rs ! j < s" using eq [OF _ j] less_Suc_eq by blast
      then show ?thesis using False j by (simp add: nth_filled rs_def [symmetric])
    qed
  qed (simp add: rs_def)
qed

lemma copy_state_of:
  assumes R: "fa_ok n det R acc" and s: "s < length R"
  defines "rs \<equiv> reps (row_key R acc) (length R)"
  defines "st \<equiv> \<lambda>i. (fa_of n det (filled R acc (blank n det) (simple_rows R acc) i)
        (filled R acc (- 1) (simple_tokens R acc) i), filled R acc False (replicate (length rs) True) i)"
  shows "copy_state (fa_of n det R acc) (numbered rs 0) (int s) (st s) = Some (st (Suc s))"
proof -
  let ?k = "simple_number R acc s"
  note n = simple_number [OF s, of acc, folded rs_def]
  note found = find_simple [OF R s, folded rs_def]
  note next_state = filled_Suc [OF s, of acc, folded rs_def]
  have did: "rd (filled R acc False (replicate (length rs) True) s) (int ?k) = Some (rs ! ?k < s)"
    using n(1) by (simp add: nth_filled rs_def [symmetric])
  show ?thesis
  proof (cases "rs ! ?k < s")
    case True
    then show ?thesis using found did by (simp add: copy_state_def st_def next_state(1))
  next
    case False
    then have first: "rs ! ?k = s" by (rule next_state(2))
    let ?X = "filled R acc (blank n det) (simple_rows R acc) s"
    let ?t = "filled R acc (- 1) (simple_tokens R acc) s"
    have rows: "length r = width n det" if "r \<in> set ?X" for r
    proof -
      have "\<forall>r \<in> set rs. length (R ! r) = width n det"
        using same_width_row [OF fa_okD(1) [OF R]] by (auto simp: rs_def reps_def)
      then show ?thesis using that
        by (auto simp: filled_def Let_def simple_rows_def rs_def [symmetric] split: if_splits)
    qed
    have w: "same_width n det ?X" using rows fa_okD(1) [OF R] by (simp add: same_width_def)
    have blank: "?X ! ?k = blank n det" "?t ! ?k = - 1"
      using n(1) False by (simp_all add: nth_filled rs_def [symmetric])
    have new: "simple_rows R acc ! ?k = new_row (simple_number R acc) (R ! s)" "simple_tokens R acc ! ?k = acc ! s"
      "replicate (length rs) True ! ?k = True"
      using n(1) first by (simp_all add: simple_rows_def simple_tokens_def rs_def [symmetric])
    note copied = copy_row [OF R s w _ _ blank(1), folded rs_def, of ?t]
    have tok: "- 1 \<le> acc ! s" "accepts (fa_of n det R acc) (int s) = Some (acc ! s)"
      using fa_okD(3,4) [OF R] s by (simp_all add: accepts_of)
    have "(if acc ! s \<noteq> - 1 then add_accept (fa_of n det Y ?t) (int ?k) (acc ! s) else Some (fa_of n det Y ?t)) =
        Some (fa_of n det Y (?t[?k := acc ! s]))" for Y
    proof (cases "acc ! s = - 1")
      case True
      then have "?t[?k := acc ! s] = ?t" using blank(2) by (metis list_update_id)
      then show ?thesis using True by simp
    next
      case False
      then show ?thesis using tok(1) n(1) add_accept_of [of ?k ?t "acc ! s" n det Y]
        by (simp add: rs_def [symmetric])
    qed
    moreover have "wr (filled R acc False (replicate (length rs) True) s) (int ?k) True =
        Some ((filled R acc False (replicate (length rs) True) s)[?k := True])"
      using n(1) by (simp add: rs_def [symmetric])
    ultimately show ?thesis
      using found did False copied n(1) tok(2)
      by (simp add: copy_state_def st_def next_state(1) new rs_def [symmetric])
  qed
qed

lemma simplify_once_of:
  assumes R: "fa_ok n det R acc"
  shows "simplify_once (fa_of n det R acc) = Some (fa_of n det (simple_rows R acc) (simple_tokens R acc))"
proof -
  let ?rs = "reps (row_key R acc) (length R)" and ?m = "numbered (reps (row_key R acc) (length R)) 0"
  let ?st = "\<lambda>i. (fa_of n det (filled R acc (blank n det) (simple_rows R acc) i)
        (filled R acc (- 1) (simple_tokens R acc) i), filled R acc False (replicate (length ?rs) True) i)"
  note sw = fa_okD(1) [OF R]
  have w: "0 \<le> n" "0 < width n det" using sw by (simp_all add: same_width_def)
  have "\<exists>s. for_range 0 (int (length R)) (copy_state (fa_of n det R acc) ?m) (?st 0) = Some s \<and>
      (\<lambda>i s. s = ?st (nat i)) (int (length R)) s"
  proof (rule for_range_rule)
    fix i s assume i: "0 \<le> i" "i < int (length R)" and s: "s = ?st (nat i)"
    have "nat i < length R" "int (nat i) = i" "nat (i + 1) = Suc (nat i)" using i by auto
    then show "\<exists>s'. copy_state (fa_of n det R acc) ?m i s = Some s' \<and> s' = ?st (nat (i + 1))"
      using copy_state_of [OF R, of "nat i"] s by simp
  qed simp_all
  then have "for_range 0 (int (length R)) (copy_state (fa_of n det R acc) ?m)
      (fa_of n det (replicate (length ?rs) (blank n det)) (replicate (length ?rs) (- 1)), replicate (length ?rs) False) =
      Some (fa_of n det (simple_rows R acc) (simple_tokens R acc), replicate (length ?rs) True)"
    by (simp add: filled_0 filled_all simple_rows_def simple_tokens_def)
  then show ?thesis
    using w by (simp add: simplify_once_def get_nstates_of [OF sw] number_rows_of [OF R] new_fa_of add_states_loop)
qed

section \<open>What the simplified automaton recognizes\<close>

lemma simple_row:
  assumes R: "fa_ok n det R acc" and s: "s < length R"
  shows "simple_rows R acc ! simple_number R acc s = new_row (simple_number R acc) (R ! s)"
    and "simple_tokens R acc ! simple_number R acc s = acc ! s"
proof -
  note k = simple_number [OF s, of acc]
  show "simple_rows R acc ! simple_number R acc s = new_row (simple_number R acc) (R ! s)"
    "simple_tokens R acc ! simple_number R acc s = acc ! s"
    using k by (simp_all add: simple_rows_def simple_tokens_def row_key_def)
qed

lemma length_simple:
  "length (simple_rows R acc) = length (reps (row_key R acc) (length R))"
  "length (simple_tokens R acc) = length (reps (row_key R acc) (length R))"
  by (simp_all add: simple_rows_def simple_tokens_def)

lemma simple_ok:
  assumes R: "fa_ok n det R acc"
  shows "fa_ok n det (simple_rows R acc) (simple_tokens R acc)"
proof -
  let ?rs = "reps (row_key R acc) (length R)"
  note sw = fa_okD(1) [OF R]
  have rs: "r < length R" if "r \<in> set ?rs" for r using that by (auto simp: reps_def)
  have "0 < length R" using fa_okD(2) [OF R] by simp
  then have "?rs \<noteq> []" using simple_number(1) [of 0 R acc] by auto
  moreover have "- 1 \<le> x \<and> x < int (length ?rs)" if "r \<in> set ?rs" "x \<in> set (new_row (simple_number R acc) (R ! r))" for r x
  proof -
    note rx = that
    obtain y where y: "y \<in> set (R ! r)" "x = (if y = - 1 then - 1 else int (simple_number R acc (nat y)))"
      using rx(2) by (auto simp: new_row_def)
    have "- 1 \<le> y \<and> y < int (length R)"
      using R rs [OF rx(1)] y(1) unfolding fa_ok_def by (meson nth_mem)
    then have "y \<noteq> - 1 \<Longrightarrow> nat y < length R" by auto
    then show ?thesis using y(2) simple_number(1) [of "nat y" R acc] by auto
  qed
  moreover have "- 1 \<le> acc ! r" if "r \<in> set ?rs" for r
    using rs [OF that] fa_okD(3,4) [OF R] by simp
  ultimately show ?thesis
    using sw rs unfolding fa_ok_def length_simple
    by (auto simp: simple_rows_def simple_tokens_def same_width_def)
qed

lemma simple_recognizes:
  assumes R: "fa_ok n det R acc"
  shows "recognizes (fa_of n det (simple_rows R acc) (simple_tokens R acc)) w token \<longleftrightarrow>
     recognizes (fa_of n det R acc) w token"
proof -
  let ?f = "simple_number R acc" and ?C = "simple_rows R acc" and ?rs = "reps (row_key R acc) (length R)"
  have 0: "0 < length R" using fa_okD(2) [OF R] by simp
  have start: "?f 0 = 0"
  proof -
    note k = simple_number [OF 0, of acc]
    have "?rs ! 0 \<le> ?rs ! ?f 0" using distinct_reps(2) k(1) by (intro sorted_nth_mono) simp_all
    then have "?rs ! 0 = ?rs ! ?f 0" using k(3) by simp
    moreover have "0 < length ?rs" using k(1) by linarith
    ultimately show ?thesis using k(1) distinct_reps(1) nth_eq_iff_index_eq by metis
  qed
  have e: "edge ?C (?f s) x t' \<longleftrightarrow> (\<exists>t. t' = ?f t \<and> edge R s x t)" if s: "s < length R" for s x t'
  proof (cases "x < length (R ! s)")
    case True
    then have "x < width n det" using same_width_row [OF fa_okD(1) [OF R] s] by simp
    from fa_okD(5) [OF R s this] have "R ! s ! x = - 1 \<or> R ! s ! x = int (nat (R ! s ! x))" by arith
    then consider "R ! s ! x = - 1" | t where "R ! s ! x = int t" by blast
    then show ?thesis
      using True s simple_number(1) [OF s, of acc]
      by cases (auto simp: edge_def simple_row [OF R s] length_simple new_row_def)
  qed (use s in \<open>auto simp: edge_def simple_row [OF R s]\<close>)
  have tok: "u < length R \<Longrightarrow> simple_tokens R acc ! ?f u = acc ! u" for u by (rule simple_row(2) [OF R])
  have bound: "reach n R 0 w u \<Longrightarrow> u < length R" for u by (rule reach_closed [OF R _ 0])
  have "recognizes (fa_of n det ?C (simple_tokens R acc)) w token \<longleftrightarrow>
      (\<exists>u' < length ?rs. (\<exists>u. u' = ?f u \<and> reach n R 0 w u) \<and> simple_tokens R acc ! u' = token \<and> 0 \<le> token)"
    unfolding recognizes_of [OF simple_ok [OF R]] length_simple
    using reach_embed [where f = "?f" and C = "?C", OF R e 0, unfolded start] by simp
  also have "\<dots> \<longleftrightarrow> (\<exists>u. ?f u < length ?rs \<and> reach n R 0 w u \<and> simple_tokens R acc ! ?f u = token \<and> 0 \<le> token)"
    by blast
  also have "\<dots> \<longleftrightarrow> (\<exists>u < length R. reach n R 0 w u \<and> acc ! u = token \<and> 0 \<le> token)"
  proof (rule ex_cong1)
    fix u
    have "reach n R 0 w u \<Longrightarrow> u < length R \<and> ?f u < length ?rs \<and> simple_tokens R acc ! ?f u = acc ! u"
      using tok [of u] bound [of u] simple_number(1) [of u R acc] by blast
    then show "(?f u < length ?rs \<and> reach n R 0 w u \<and> simple_tokens R acc ! ?f u = token \<and> 0 \<le> token) \<longleftrightarrow>
        (u < length R \<and> reach n R 0 w u \<and> acc ! u = token \<and> 0 \<le> token)"
      by (cases "reach n R 0 w u") simp_all
  qed
  also have "\<dots> \<longleftrightarrow> recognizes (fa_of n det R acc) w token" by (simp add: recognizes_of [OF R])
  finally show ?thesis .
qed

text \<open>When no row is merged, nothing changes.\<close>

lemma simple_unchanged:
  assumes R: "fa_ok n det R acc" and same: "length (reps (row_key R acc) (length R)) = length R"
  shows "simple_rows R acc = R" and "simple_tokens R acc = acc"
    and "s < length R \<Longrightarrow> t < length R \<Longrightarrow> row_key R acc s = row_key R acc t \<Longrightarrow> s = t"
proof -
  let ?rs = "reps (row_key R acc) (length R)"
  have "\<forall>s \<in> set [0..<length R]. \<forall>t < s. row_key R acc t \<noteq> row_key R acc s" (is "\<forall>s \<in> _. ?P s")
  proof (rule ccontr)
    assume "\<not> (\<forall>s \<in> set [0..<length R]. ?P s)"
    then obtain s where "s \<in> set [0..<length R]" "\<not> ?P s" by blast
    then have "length (filter ?P [0..<length R]) < length [0..<length R]" by (rule length_filter_less)
    then show False using same by (simp add: reps_def)
  qed
  then have rs: "?rs = [0..<length R]" unfolding reps_def by (simp add: filter_id_conv)
  show "s < length R \<Longrightarrow> t < length R \<Longrightarrow> row_key R acc s = row_key R acc t \<Longrightarrow> s = t" for s t
    using reps_inject [of s "row_key R acc" "length R" t] rs by simp
  have id: "simple_number R acc k = k" if "k < length R" for k
    using simple_number_rep [of k R acc] that rs by simp
  have "new_row (simple_number R acc) (R ! s) = R ! s" if s: "s < length R" for s
  proof (rule nth_equalityI)
    fix x assume x: "x < length (new_row (simple_number R acc) (R ! s))"
    then have "x < width n det" using same_width_row [OF fa_okD(1) [OF R] s] by simp
    from fa_okD(5) [OF R s this] have "R ! s ! x = - 1 \<or> 0 \<le> R ! s ! x \<and> nat (R ! s ! x) < length R" by linarith
    then show "new_row (simple_number R acc) (R ! s) ! x = R ! s ! x" using x id by (auto simp: new_row_def)
  qed simp
  then show "simple_rows R acc = R" using rs by (intro nth_equalityI) (simp_all add: simple_rows_def)
  show "simple_tokens R acc = acc" using rs fa_okD(3) [OF R] by (intro nth_equalityI) (simp_all add: simple_tokens_def)
qed

lemma simplify_loop_of:
  assumes "fa_ok n det R acc"
  shows "\<exists>C tc. simplify_loop (fa_of n det R acc) (int (length R)) = Some (fa_of n det C tc) \<and> fa_ok n det C tc \<and>
     length C \<le> length R \<and> length (reps (row_key C tc) (length C)) = length C \<and>
     (\<forall>w token. recognizes (fa_of n det C tc) w token \<longleftrightarrow> recognizes (fa_of n det R acc) w token)"
  using assms
proof (induction "length R" arbitrary: R acc rule: less_induct)
  case less
  note R = less.prems
  let ?C = "simple_rows R acc" and ?tc = "simple_tokens R acc"
  note ok = simple_ok [OF R]
  have len: "length ?C = length (reps (row_key R acc) (length R))" by (rule length_simple)
  have le: "length ?C \<le> length R" unfolding len by (rule length_reps)
  have once: "simplify_loop (fa_of n det R acc) (int (length R)) =
      (if length ?C < length R then simplify_loop (fa_of n det ?C ?tc) (int (length ?C)) else Some (fa_of n det ?C ?tc))"
    by (subst simplify_loop.simps) (simp add: simplify_once_of [OF R] get_nstates_of [OF fa_okD(1) [OF ok]])
  show ?case
  proof (cases "length ?C < length R")
    case True
    then show ?thesis using less.hyps [OF True ok] once simple_recognizes [OF R] by fastforce
  next
    case False
    then have "length (reps (row_key R acc) (length R)) = length R" using le len by simp
    then show ?thesis using False once R simple_unchanged(1,2) [OF R]
      by (intro exI [of _ R] exI [of _ acc]) simp
  qed
qed

text \<open>C6.  Simplification (termination).  \<open>simplify\<close> ends on every well-formed automaton: the result is
  well-formed, over the same symbols, has at most as many states, recognizes the same words with the same
  tokens, no two of its states have the same token and transitions, and simplifying it again changes
  nothing.\<close>

theorem simplify_ends_equivalent:
  assumes "wf_fa fa"
  shows "\<exists>out. simplify fa = Some out \<and> wf_fa out \<and> get_nsymbols out = get_nsymbols fa \<and>
     get_determinism out = get_determinism fa \<and> length (fa_rows out) \<le> length (fa_rows fa) \<and>
     (\<forall>w token. recognizes out w token \<longleftrightarrow> recognizes fa w token) \<and>
     distinct (zip (accepted_tokens out) (fa_rows out)) \<and> simplify out = Some out"
proof -
  obtain n det R acc where e: "fa = fa_of n det R acc" and R: "fa_ok n det R acc" using assms by (rule wf_faE)
  obtain C tc where C: "simplify_loop fa (int (length R)) = Some (fa_of n det C tc)" "fa_ok n det C tc"
    "length C \<le> length R" "length (reps (row_key C tc) (length C)) = length C"
    "\<forall>w token. recognizes (fa_of n det C tc) w token \<longleftrightarrow> recognizes fa w token"
    using simplify_loop_of [OF R] e by blast
  note rows = fa_rows_of [OF fa_okD(1) [OF R]] fa_rows_of [OF fa_okD(1) [OF C(2)]]
  note fix_C = simple_unchanged [OF C(2,4)]
  have "simplify fa = Some (fa_of n det C tc)"
    using C(1) unfolding e simplify_def get_nstates_of [OF fa_okD(1) [OF R]] by simp
  moreover have "simplify (fa_of n det C tc) = Some (fa_of n det C tc)"
    unfolding simplify_def get_nstates_of [OF fa_okD(1) [OF C(2)]] bind.bind_lunit
    by (subst simplify_loop.simps)
      (simp add: simplify_once_of [OF C(2)] fix_C(1,2) get_nstates_of [OF fa_okD(1) [OF C(2)]])
  moreover have "distinct (zip tc C)"
    using fix_C(3) fa_okD(3) [OF C(2)] by (auto simp: distinct_conv_nth row_key_def)
  ultimately show ?thesis using C(3,5) wf_fa_of [OF C(2)] by (auto simp: e rows)
qed

text \<open>Two states that accept the token 5 are merged, then the two states that lead to them.\<close>

lemma simplify_ends_equivalent_witness:
  "let fa = fa_of 1 False [[- 1, 1, 2], [3, - 1, - 1], [4, - 1, - 1], [- 1, - 1, - 1], [- 1, - 1, - 1]] [- 1, - 1, - 1, 5, 5];
       out = fa_of 1 False [[- 1, 1, 1], [2, - 1, - 1], [- 1, - 1, - 1]] [- 1, - 1, 5]
   in simplify fa = Some out \<and> (\<forall>w token. recognizes out w token \<longleftrightarrow> recognizes fa w token)"
proof -
  let ?fa = "fa_of 1 False [[- 1, 1, 2], [3, - 1, - 1], [4, - 1, - 1], [- 1, - 1, - 1], [- 1, - 1, - 1]] [- 1, - 1, - 1, 5, 5]"
  have "wf_fa ?fa" by (rule wf_fa_of) (simp add: fa_ok_def same_width_def width_def)
  moreover have "simplify ?fa = Some (fa_of 1 False [[- 1, 1, 1], [2, - 1, - 1], [- 1, - 1, - 1]] [- 1, - 1, 5])"
    by code_simp
  ultimately show ?thesis using simplify_ends_equivalent [of ?fa] by (simp add: Let_def)
qed

end
