(* ===== verification/Regex.thy ===== *)
theory Regex
  imports Simplify
begin

text \<open>
  Regular expressions (\<open>src/src/Omega_h_regex.cpp\<close>): the grammar, and what the reader does at a shift and
  at a reduction.

  A parse tree is evaluated as \<open>Omega_h::Reader\<close> does it: a leaf by \<open>at_shift\<close>, an inner node by
  \<open>at_reduce\<close> on the values of its children.  A character is its code; a \<open>std::set<char>\<close> is the sorted list
  of its elements.  What is proved: the reductions of a parse tree succeed exactly if its sets have
  characters of the table only, and then its automaton recognizes, with the token of the reader, exactly
  the words of the language that the tree denotes.
\<close>

section \<open>The grammar\<close>

datatype regex_prod =
  PROD_REGEX | PROD_UNION_DECAY | PROD_UNION | PROD_CONCAT_DECAY | PROD_CONCAT | PROD_QUAL_DECAY |
  PROD_STAR | PROD_PLUS | PROD_MAYBE | PROD_SINGLE_CHAR | PROD_ANY | PROD_SINGLE_SET |
  PROD_PARENS_UNION | PROD_SET_POSITIVE | PROD_SET_NEGATIVE | PROD_POSITIVE_SET | PROD_NEGATIVE_SET |
  PROD_SET_ITEMS_DECAY | PROD_SET_ITEMS_ADD | PROD_SET_ITEM_CHAR | PROD_SET_ITEM_RANGE | PROD_RANGE

datatype regex_tok =
  TOK_CHAR | TOK_DOT | TOK_LRANGE | TOK_RRANGE | TOK_LPAREN | TOK_RPAREN | TOK_UNION | TOK_RANGE |
  TOK_NEGATE | TOK_STAR | TOK_PLUS | TOK_MAYBE

text \<open>The symbols on both sides of a production, and the name and regular expression of a token
  (\<open>build_language\<close>).\<close>

fun regex_production :: "regex_prod \<Rightarrow> string \<times> string list" where
  "regex_production PROD_REGEX = (''regex'', [''union''])"
| "regex_production PROD_UNION_DECAY = (''union'', [''concat''])"
| "regex_production PROD_UNION = (''union'', [''union'', ''|'', ''concat''])"
| "regex_production PROD_CONCAT_DECAY = (''concat'', [''qualified''])"
| "regex_production PROD_CONCAT = (''concat'', [''concat'', ''qualified''])"
| "regex_production PROD_QUAL_DECAY = (''qualified'', [''single''])"
| "regex_production PROD_STAR = (''qualified'', [''qualified'', ''*''])"
| "regex_production PROD_PLUS = (''qualified'', [''qualified'', ''+''])"
| "regex_production PROD_MAYBE = (''qualified'', [''qualified'', ''?''])"
| "regex_production PROD_SINGLE_CHAR = (''single'', [''char''])"
| "regex_production PROD_ANY = (''single'', [''.''])"
| "regex_production PROD_SINGLE_SET = (''single'', [''set''])"
| "regex_production PROD_PARENS_UNION = (''single'', [''('', ''union'', '')''])"
| "regex_production PROD_SET_POSITIVE = (''set'', [''positive-set''])"
| "regex_production PROD_SET_NEGATIVE = (''set'', [''negative-set''])"
| "regex_production PROD_POSITIVE_SET = (''positive-set'', [''['', ''set-items'', '']''])"
| "regex_production PROD_NEGATIVE_SET = (''negative-set'', [''['', ''^'', ''set-items'', '']''])"
| "regex_production PROD_SET_ITEMS_DECAY = (''set-items'', [''set-item''])"
| "regex_production PROD_SET_ITEMS_ADD = (''set-items'', [''set-items'', ''set-item''])"
| "regex_production PROD_SET_ITEM_CHAR = (''set-item'', [''char''])"
| "regex_production PROD_SET_ITEM_RANGE = (''set-item'', [''range''])"
| "regex_production PROD_RANGE = (''range'', [''char'', ''-'', ''char''])"

abbreviation slash :: char where
  "slash \<equiv> CHR 0x5C"

definition escaped :: "string \<Rightarrow> string" where
  "escaped chars = concat (map (\<lambda>c. [slash, c]) chars)"

fun regex_token :: "regex_tok \<Rightarrow> string \<times> string" where
  "regex_token TOK_CHAR = (''char'', ''[^'' @ escaped (slash # ''.[]()|-^*+?'') @ '']|'' @ [slash, slash] @ ''.'')"
| "regex_token TOK_DOT = (''.'', escaped ''.'')"
| "regex_token TOK_LRANGE = (''['', escaped '']'')"
| "regex_token TOK_RRANGE = ('']'', escaped '']'')"
| "regex_token TOK_LPAREN = (''('', escaped ''('')"
| "regex_token TOK_RPAREN = ('')'', escaped '')'')"
| "regex_token TOK_UNION = (''|'', escaped ''|'')"
| "regex_token TOK_RANGE = (''-'', escaped ''-'')"
| "regex_token TOK_NEGATE = (''^'', escaped ''^'')"
| "regex_token TOK_STAR = (''*'', escaped ''*'')"
| "regex_token TOK_PLUS = (''+'', escaped ''+'')"
| "regex_token TOK_MAYBE = (''?'', escaped ''?'')"

section \<open>Shifts and reductions\<close>

text \<open>\<open>Omega_h::any\<close>: the types that the reader of regular expressions puts in it.\<close>

datatype any = Any_empty | Any_fa fa | Any_char int | Any_set "int list"

fun any_fa :: "any \<Rightarrow> fa option" where
  "any_fa (Any_fa a) = Some a"
| "any_fa _ = None"

fun any_char :: "any \<Rightarrow> int option" where
  "any_char (Any_char c) = Some c"
| "any_char _ = None"

fun any_set :: "any \<Rightarrow> int list option" where
  "any_set (Any_set s) = Some s"
| "any_set _ = None"

definition at_shift :: "regex_tok \<Rightarrow> int list \<Rightarrow> any option" where
  "at_shift token text =
     (if token \<noteq> TOK_CHAR then Some Any_empty
      else if asize text = 1 then do { c \<leftarrow> rd text 0; Some (Any_char c) }
      else if asize text = 2 then do {
        b \<leftarrow> rd text 0;
        omega_check (b = 92);
        c \<leftarrow> rd text 1;
        Some (Any_char c)
      } else None)"

text \<open>The loop over a range of characters: \<open>++c\<close> of the largest \<open>char\<close> wraps.\<close>

definition char_succ :: "int \<Rightarrow> int" where
  "char_succ c = (if c = 127 then - 128 else c + 1)"

partial_function (option) range_loop :: "int \<Rightarrow> int \<Rightarrow> int list \<Rightarrow> int list option" where
  "range_loop c hi s = (if c \<le> hi then range_loop (char_succ c) hi (set_insert c s) else Some s)"

declare range_loop.simps [code]

definition at_reduce :: "int \<Rightarrow> regex_prod \<Rightarrow> any list \<Rightarrow> any option" where
  "at_reduce result_token production rhs = (case production of
     PROD_REGEX \<Rightarrow> do {
       a \<leftarrow> rd rhs 0 \<bind> any_fa;
       d \<leftarrow> make_deterministic a;
       out \<leftarrow> simplify d;
       Some (Any_fa out)
     }
   | PROD_UNION_DECAY \<Rightarrow> rd rhs 0
   | PROD_CONCAT_DECAY \<Rightarrow> rd rhs 0
   | PROD_QUAL_DECAY \<Rightarrow> rd rhs 0
   | PROD_SET_ITEMS_DECAY \<Rightarrow> rd rhs 0
   | PROD_SET_ITEM_RANGE \<Rightarrow> rd rhs 0
   | PROD_UNION \<Rightarrow> do {
       a \<leftarrow> rd rhs 0 \<bind> any_fa;
       b \<leftarrow> rd rhs 2 \<bind> any_fa;
       out \<leftarrow> unite a b;
       Some (Any_fa out)
     }
   | PROD_CONCAT \<Rightarrow> do {
       a_any \<leftarrow> rd rhs 0;
       b_any \<leftarrow> rd rhs 1;
       a \<leftarrow> any_fa a_any;
       b \<leftarrow> any_fa b_any;
       out \<leftarrow> fa_concat a b result_token;
       Some (Any_fa out)
     }
   | PROD_STAR \<Rightarrow> do { a \<leftarrow> rd rhs 0 \<bind> any_fa; out \<leftarrow> star a result_token; Some (Any_fa out) }
   | PROD_PLUS \<Rightarrow> do { a \<leftarrow> rd rhs 0 \<bind> any_fa; out \<leftarrow> fa_plus a result_token; Some (Any_fa out) }
   | PROD_MAYBE \<Rightarrow> do { a \<leftarrow> rd rhs 0 \<bind> any_fa; out \<leftarrow> maybe a result_token; Some (Any_fa out) }
   | PROD_SINGLE_CHAR \<Rightarrow> do {
       c \<leftarrow> rd rhs 0 \<bind> any_char;
       out \<leftarrow> make_char_single_nfa c result_token;
       Some (Any_fa out)
     }
   | PROD_ANY \<Rightarrow> do { out \<leftarrow> make_range_nfa NCHARS 0 (NCHARS - 1) result_token; Some (Any_fa out) }
   | PROD_SINGLE_SET \<Rightarrow> do {
       s \<leftarrow> rd rhs 0 \<bind> any_set;
       out \<leftarrow> make_char_set_nfa s result_token;
       Some (Any_fa out)
     }
   | PROD_PARENS_UNION \<Rightarrow> rd rhs 1
   | PROD_SET_POSITIVE \<Rightarrow> rd rhs 0
   | PROD_SET_NEGATIVE \<Rightarrow> do { s \<leftarrow> rd rhs 0 \<bind> any_set; out \<leftarrow> negate_set s; Some (Any_set out) }
   | PROD_POSITIVE_SET \<Rightarrow> rd rhs 1
   | PROD_NEGATIVE_SET \<Rightarrow> rd rhs 2
   | PROD_SET_ITEMS_ADD \<Rightarrow> do {
       a \<leftarrow> rd rhs 0 \<bind> any_set;
       b \<leftarrow> rd rhs 1 \<bind> any_set;
       Some (Any_set (unite_sets a b))
     }
   | PROD_SET_ITEM_CHAR \<Rightarrow> do { c \<leftarrow> rd rhs 0 \<bind> any_char; Some (Any_set [c]) }
   | PROD_RANGE \<Rightarrow> do {
       c \<leftarrow> rd rhs 0 \<bind> any_char;
       hi \<leftarrow> rd rhs 2 \<bind> any_char;
       s \<leftarrow> range_loop c hi [];
       Some (Any_set s)
     })"

section \<open>Parse trees\<close>

datatype parse_tree = Shift regex_tok "int list" | Reduce regex_prod "parse_tree list"

primrec tree_value :: "int \<Rightarrow> parse_tree \<Rightarrow> any option" where
  "tree_value result_token (Shift token text) = at_shift token text"
| "tree_value result_token (Reduce production ts) =
     those (map (tree_value result_token) ts) \<bind> at_reduce result_token production"

fun tree_symbol :: "parse_tree \<Rightarrow> string" where
  "tree_symbol (Shift token text) = fst (regex_token token)"
| "tree_symbol (Reduce production ts) = fst (regex_production production)"

text \<open>A character of the table; the text of a character token is one such character, or a backslash
  and one.\<close>

definition table_char :: "int \<Rightarrow> bool" where
  "table_char c \<longleftrightarrow> c \<in> set inv_chartab"

definition symbol_of :: "int \<Rightarrow> nat" where
  "symbol_of c = nat (chartab ! nat c)"

definition char_text :: "int list \<Rightarrow> bool" where
  "char_text text \<longleftrightarrow> (length text = 1 \<or> length text = 2 \<and> hd text = 92) \<and> table_char (text ! (length text - 1))"

fun char_of :: "parse_tree \<Rightarrow> int" where
  "char_of (Shift token text) = text ! (length text - 1)"
| "char_of (Reduce production ts) = 0"

primrec chars_of :: "parse_tree \<Rightarrow> int set" where
  "chars_of (Shift token text) = {text ! (length text - 1)}"
| "chars_of (Reduce production ts) = (let C = map chars_of ts in case production of
     PROD_SET_NEGATIVE \<Rightarrow> set inv_chartab - C ! 0
   | PROD_POSITIVE_SET \<Rightarrow> C ! 1
   | PROD_NEGATIVE_SET \<Rightarrow> C ! 2
   | PROD_SET_ITEMS_ADD \<Rightarrow> C ! 0 \<union> C ! 1
   | PROD_RANGE \<Rightarrow> {char_of (ts ! 0)..char_of (ts ! 2)}
   | _ \<Rightarrow> C ! 0)"

text \<open>The words of symbols of a tree.\<close>

primrec language_of :: "parse_tree \<Rightarrow> nat list set" where
  "language_of (Shift token text) = {}"
| "language_of (Reduce production ts) = (let L = map language_of ts in case production of
     PROD_UNION \<Rightarrow> L ! 0 \<union> L ! 2
   | PROD_CONCAT \<Rightarrow> {v1 @ v2 | v1 v2. v1 \<in> L ! 0 \<and> v2 \<in> L ! 1}
   | PROD_STAR \<Rightarrow> {concat ws | ws. set ws \<subseteq> L ! 0}
   | PROD_PLUS \<Rightarrow> {concat ws | ws. ws \<noteq> [] \<and> set ws \<subseteq> L ! 0}
   | PROD_MAYBE \<Rightarrow> insert [] (L ! 0)
   | PROD_SINGLE_CHAR \<Rightarrow> {[symbol_of (char_of (ts ! 0))]}
   | PROD_ANY \<Rightarrow> {[x] | x. x < 98}
   | PROD_SINGLE_SET \<Rightarrow> {[symbol_of c] | c. c \<in> chars_of (ts ! 0)}
   | PROD_PARENS_UNION \<Rightarrow> L ! 1
   | _ \<Rightarrow> L ! 0)"

text \<open>The trees of the grammar, with the texts of the lexer; and those of them whose sets have characters of
  the table only.  A range such as the one from TAB to \<open>a\<close> has others: the codes 11, 12 and 14 to 31 lie
  between characters of the table and are not in it.\<close>

primrec grammar_tree :: "parse_tree \<Rightarrow> bool" where
  "grammar_tree (Shift token text) \<longleftrightarrow> (token = TOK_CHAR \<longrightarrow> char_text text)"
| "grammar_tree (Reduce production ts) \<longleftrightarrow> (\<forall>v \<in> set (map grammar_tree ts). v) \<and>
     map tree_symbol ts = snd (regex_production production)"

primrec sets_in_table :: "parse_tree \<Rightarrow> bool" where
  "sets_in_table (Shift token text) \<longleftrightarrow> True"
| "sets_in_table (Reduce production ts) \<longleftrightarrow> (\<forall>v \<in> set (map sets_in_table ts). v) \<and>
     (production = PROD_SINGLE_SET \<longrightarrow> chars_of (ts ! 0) \<subseteq> set inv_chartab)"

section \<open>Characters and sets of characters\<close>

lemma inv_chartab_chars: "\<forall>c \<in> set inv_chartab. 0 \<le> c \<and> c < 127 \<and> chartab ! nat c \<noteq> - 1"
  by code_simp

lemma table_charD:
  assumes "c \<in> set inv_chartab"
  shows "0 \<le> c" "c < 127" "get_symbol c = Some (int (symbol_of c))" "symbol_of c < 98"
    and "inv_chartab ! symbol_of c = c"
proof -
  note c = bspec [OF inv_chartab_chars assms]
  show "0 \<le> c" "c < 127" using c by simp_all
  then have "nat c < 128" by simp
  with c have e: "0 \<le> chartab ! nat c" "chartab ! nat c < 98" "inv_chartab ! nat (chartab ! nat c) = c"
    using chartab_table(1) [rule_format, of "nat c"] by simp_all
  show "get_symbol c = Some (int (symbol_of c))"
    using c e(1) by (simp add: get_symbol_def symbol_of_def rd_Some asize_def length_chartabs)
  show "symbol_of c < 98" "inv_chartab ! symbol_of c = c" using e by (simp_all add: symbol_of_def)
qed

lemma other_char:
  assumes "c \<notin> set inv_chartab"
  shows "get_symbol c = None"
proof (cases "0 \<le> c \<and> c < 128")
  case True
  then have k: "nat c < 128" by linarith
  have "chartab ! nat c = - 1"
  proof (rule ccontr)
    assume "chartab ! nat c \<noteq> - 1"
    then have e: "0 \<le> chartab ! nat c" "chartab ! nat c < 98" "inv_chartab ! nat (chartab ! nat c) = c"
      using chartab_table(1) [rule_format, OF k] True by simp_all
    then have "inv_chartab ! nat (chartab ! nat c) \<in> set inv_chartab" by (intro nth_mem) (simp add: length_chartabs)
    then show False using e(3) assms by simp
  qed
  then show ?thesis using True k by (simp add: get_symbol_def rd_Some asize_def length_chartabs)
next
  case False
  then show ?thesis by (auto simp: get_symbol_def rd_def asize_def length_chartabs)
qed

lemma symbol_of_inv: "x < 98 \<Longrightarrow> symbol_of (inv_chartab ! x) = x \<and> inv_chartab ! x \<in> set inv_chartab"
  using chartab_table(2) by (simp add: symbol_of_def length_chartabs)

lemma set_set_insert [simp]: "set (set_insert x xs) = insert x (set xs)"
  by (auto simp: set_insert_def set_insort_key)

lemma distinct_set_insert: "distinct xs \<Longrightarrow> distinct (set_insert x xs)"
  by (simp add: set_insert_def distinct_insort)

lemma set_fold_insert: "set (fold set_insert xs s) = set xs \<union> set s"
  by (induction xs arbitrary: s) auto

lemma range_loop_of: "hi < 127 \<Longrightarrow> range_loop c hi s = Some (fold set_insert [c..hi] s)"
proof (induction "nat (hi + 1 - c)" arbitrary: c s rule: less_induct)
  case less
  show ?case
  proof (cases "c \<le> hi")
    case True
    have "range_loop (c + 1) hi (set_insert c s) = Some (fold set_insert [c + 1..hi] (set_insert c s))"
      using less.hyps [of "c + 1"] less.prems True by simp
    moreover have "[c..hi] = c # [c + 1..hi]" using True by (rule upto_rec1)
    ultimately show ?thesis using True less.prems by (subst range_loop.simps) (simp add: char_succ_def)
  qed (subst range_loop.simps, simp)
qed

lemma make_char_set_nfa_of:
  assumes cs: "set cs \<subseteq> set inv_chartab" and token: "0 \<le> token"
  shows "\<exists>xs. make_char_set_nfa cs token = Some (fa_of 98 True [symbol_row 98 xs, blank 98 True] [- 1, token]) \<and>
     set xs = int ` symbol_of ` set cs"
proof -
  let ?f = "\<lambda>c symbols. do { s \<leftarrow> get_symbol c; Some (set_insert s symbols) }"
  have "\<exists>xs. run_for cs ?f [] = Some xs \<and>
      (\<lambda>done xs. distinct xs \<and> set xs = int ` symbol_of ` set done) cs xs"
  proof (rule run_for_rule)
    fix "done" c rest xs assume split: "cs = done @ c # rest" and xs: "distinct xs \<and> set xs = int ` symbol_of ` set done"
    have "c \<in> set inv_chartab" using cs split by auto
    then show "\<exists>xs'. ?f c xs = Some xs' \<and> distinct xs' \<and> set xs' = int ` symbol_of ` set (done @ [c])"
      using xs by (simp add: table_charD(3) distinct_set_insert)
  qed simp
  then obtain xs where xs: "run_for cs ?f [] = Some xs" "distinct xs" "set xs = int ` symbol_of ` set cs" by blast
  have "\<forall>x \<in> set xs. 0 \<le> x \<and> x < 98" using xs(3) cs table_charD(4) by force
  from make_set_nfa_of [OF _ xs(2) this token] show ?thesis
    using xs(1,3) by (intro exI [of _ xs]) (simp add: make_char_set_nfa_def length_chartabs)
qed

lemma run_for_None:
  assumes "i \<in> set is" "\<And>s. f i s = None"
  shows "run_for is f s = None"
  using assms(1) by (induction "is" arbitrary: s) (auto simp: assms(2) Option.bind_eq_None_conv)

lemma make_char_set_nfa_fails:
  assumes "\<not> set cs \<subseteq> set inv_chartab"
  shows "make_char_set_nfa cs token = None"
proof -
  obtain c where c: "c \<in> set cs" "get_symbol c = None" using assms other_char by blast
  have "run_for cs (\<lambda>c symbols. do { s \<leftarrow> get_symbol c; Some (set_insert s symbols) }) [] = None"
    by (rule run_for_None [OF c(1)]) (simp add: c(2))
  then show ?thesis by (simp add: make_char_set_nfa_def)
qed

lemma negate_set_of: "\<exists>out. negate_set s = Some out \<and> set out = set inv_chartab - set s"
proof -
  let ?f = "\<lambda>symbol out. do { c \<leftarrow> rd inv_chartab symbol; Some (if c \<in> set s then out else set_insert c out) }"
  have "\<exists>out. for_range 0 98 ?f [] = Some out \<and>
      (\<lambda>i out. set out = set (take (nat i) inv_chartab) - set s) 98 out"
  proof (rule for_range_rule)
    fix i out assume i: "0 \<le> i" "i < (98::int)" and out: "set out = set (take (nat i) inv_chartab) - set s"
    have n: "nat i < length inv_chartab" "nat (i + 1) = Suc (nat i)" using i by (auto simp: length_chartabs)
    then have "rd inv_chartab i = Some (inv_chartab ! nat i)" using rd_int [OF n(1)] i(1) by simp
    then show "\<exists>out'. ?f i out = Some out' \<and> set out' = set (take (nat (i + 1)) inv_chartab) - set s"
      using out n by (auto simp: take_Suc_conv_app_nth)
  qed simp_all
  then show ?thesis by (simp add: negate_set_def length_chartabs)
qed

section \<open>Automata of languages\<close>

definition regex_fa :: "int \<Rightarrow> fa \<Rightarrow> nat list set \<Rightarrow> bool" where
  "regex_fa token fa L \<longleftrightarrow> wf_fa fa \<and> get_nsymbols fa = 98 \<and> sinks fa \<and>
     (\<forall>w tok. recognizes fa w tok \<longleftrightarrow> tok = token \<and> w \<in> L)"

lemma regex_faE:
  assumes "regex_fa token fa L"
  obtains det R acc where "fa = fa_of 98 det R acc" "fa_ok 98 det R acc" "sinks (fa_of 98 det R acc)"
    "\<forall>w tok. recognizes (fa_of 98 det R acc) w tok \<longleftrightarrow> tok = token \<and> w \<in> L"
    "\<forall>w. accepted (fa_of 98 det R acc) w \<longleftrightarrow> w \<in> L"
  using assms unfolding regex_fa_def accepted_def by (metis fa_of_simps(1) wf_faE)

lemma regex_faI:
  assumes "fa_ok 98 det R acc" "sinks (fa_of 98 det R acc)"
    and "\<And>w tok. recognizes (fa_of 98 det R acc) w tok \<longleftrightarrow> tok = token \<and> w \<in> L"
  shows "regex_fa token (fa_of 98 det R acc) L"
  using assms wf_fa_of [OF assms(1)] by (simp add: regex_fa_def)

lemma regex_unite:
  assumes "regex_fa token a L" "regex_fa token b M"
  shows "\<exists>out. unite a b = Some out \<and> regex_fa token out (L \<union> M)"
proof -
  obtain da A ta where a: "a = fa_of 98 da A ta" "fa_ok 98 da A ta" "sinks (fa_of 98 da A ta)"
    "\<forall>w tok. recognizes (fa_of 98 da A ta) w tok \<longleftrightarrow> tok = token \<and> w \<in> L"
    "\<forall>w. accepted (fa_of 98 da A ta) w \<longleftrightarrow> w \<in> L" using assms(1) by (rule regex_faE)
  obtain db B tb where b: "b = fa_of 98 db B tb" "fa_ok 98 db B tb" "sinks (fa_of 98 db B tb)"
    "\<forall>w tok. recognizes (fa_of 98 db B tb) w tok \<longleftrightarrow> tok = token \<and> w \<in> M"
    "\<forall>w. accepted (fa_of 98 db B tb) w \<longleftrightarrow> w \<in> M" using assms(2) by (rule regex_faE)
  have "regex_fa token (fa_of 98 False (unite_rows 98 A B) (- 1 # ta @ tb)) (L \<union> M)"
    by (rule regex_faI [OF unite_of(2) [OF a(2) b(2)] unite_sinks [OF a(2) b(2) a(3) b(3)]])
      (auto simp: unite_recognizes [OF a(2) b(2)] a(4) b(4))
  then show ?thesis using unite_of(1) [OF a(2) b(2)] a(1) b(1) by blast
qed

lemma regex_concat:
  assumes "regex_fa token a L" "regex_fa token b M" and token: "0 \<le> token"
  shows "\<exists>out. fa_concat a b token = Some out \<and>
     regex_fa token out {v1 @ v2 | v1 v2. v1 \<in> L \<and> v2 \<in> M}"
proof -
  obtain da A ta where a: "a = fa_of 98 da A ta" "fa_ok 98 da A ta" "sinks (fa_of 98 da A ta)"
    "\<forall>w tok. recognizes (fa_of 98 da A ta) w tok \<longleftrightarrow> tok = token \<and> w \<in> L"
    "\<forall>w. accepted (fa_of 98 da A ta) w \<longleftrightarrow> w \<in> L" using assms(1) by (rule regex_faE)
  obtain db B tb where b: "b = fa_of 98 db B tb" "fa_ok 98 db B tb" "sinks (fa_of 98 db B tb)"
    "\<forall>w tok. recognizes (fa_of 98 db B tb) w tok \<longleftrightarrow> tok = token \<and> w \<in> M"
    "\<forall>w. accepted (fa_of 98 db B tb) w \<longleftrightarrow> w \<in> M" using assms(2) by (rule regex_faE)
  have "regex_fa token (fa_of 98 False (concat_rows 98 A ta B) (concat_tokens ta tb token))
      {v1 @ v2 | v1 v2. v1 \<in> L \<and> v2 \<in> M}"
    by (rule regex_faI [OF fa_concat_of(2) [OF a(2) b(2) a(3) token] concat_sinks [OF a(2) b(2) a(3) b(3) token]])
      (auto simp: concat_recognizes [OF a(2) b(2) a(3) token] a(5) b(5))
  then show ?thesis using fa_concat_of(1) [OF a(2) b(2) a(3) token] a(1) b(1) by blast
qed

lemma regex_plus:
  assumes "regex_fa token a L" and token: "0 \<le> token"
  shows "\<exists>out. fa_plus a token = Some out \<and> regex_fa token out {concat ws | ws. ws \<noteq> [] \<and> set ws \<subseteq> L}"
proof -
  obtain da A ta where a: "a = fa_of 98 da A ta" "fa_ok 98 da A ta" "sinks (fa_of 98 da A ta)"
    "\<forall>w tok. recognizes (fa_of 98 da A ta) w tok \<longleftrightarrow> tok = token \<and> w \<in> L"
    "\<forall>w. accepted (fa_of 98 da A ta) w \<longleftrightarrow> w \<in> L" using assms(1) by (rule regex_faE)
  have "regex_fa token (fa_of 98 False (plus_rows 98 A ta) (plus_tokens ta token))
      {concat ws | ws. ws \<noteq> [] \<and> set ws \<subseteq> L}"
    by (rule regex_faI [OF fa_plus_of(2) [OF a(2,3) token] plus_sinks [OF a(2,3) token]])
      (auto simp: plus_recognizes [OF a(2,3) token] a(5))
  then show ?thesis using fa_plus_of(1) [OF a(2,3) token] a(1) by blast
qed

lemma regex_maybe:
  assumes "regex_fa token a L" and token: "0 \<le> token"
  shows "\<exists>out. maybe a token = Some out \<and> regex_fa token out (insert [] L)"
proof -
  obtain da A ta where a: "a = fa_of 98 da A ta" "fa_ok 98 da A ta" "sinks (fa_of 98 da A ta)"
    "\<forall>w tok. recognizes (fa_of 98 da A ta) w tok \<longleftrightarrow> tok = token \<and> w \<in> L"
    "\<forall>w. accepted (fa_of 98 da A ta) w \<longleftrightarrow> w \<in> L" using assms(1) by (rule regex_faE)
  have "regex_fa token (fa_of 98 False (maybe_rows 98 A ta) (maybe_tokens ta token)) (insert [] L)"
    by (rule regex_faI [OF maybe_of(2) [OF a(2,3) token] maybe_sinks [OF a(2,3) token]])
      (auto simp: maybe_recognizes [OF a(2,3) token] a(5))
  then show ?thesis using maybe_of(1) [OF a(2,3) token] a(1) by blast
qed

lemma regex_star:
  assumes "regex_fa token a L" and token: "0 \<le> token"
  shows "\<exists>out. star a token = Some out \<and> regex_fa token out {concat ws | ws. set ws \<subseteq> L}"
proof -
  obtain p where p: "fa_plus a token = Some p" "regex_fa token p {concat ws | ws. ws \<noteq> [] \<and> set ws \<subseteq> L}"
    using regex_plus [OF assms] by blast
  obtain out where out: "maybe p token = Some out"
    "regex_fa token out (insert [] {concat ws | ws. ws \<noteq> [] \<and> set ws \<subseteq> L})"
    using regex_maybe [OF p(2) token] by blast
  have "insert [] {concat ws | ws. ws \<noteq> [] \<and> set ws \<subseteq> L} = {concat ws | ws. set ws \<subseteq> L}"
    by (auto intro: exI [of _ "[]"])
  then show ?thesis using out p(1) by (simp add: star_def)
qed

lemma regex_symbols:
  assumes "\<forall>x \<in> set xs. 0 \<le> x \<and> x < (98::int)" and "0 \<le> token"
  shows "regex_fa token (fa_of 98 True [symbol_row 98 xs, blank 98 True] [- 1, token]) {[x] | x. int x \<in> set xs}"
  using symbol_fa [OF _ assms] by (intro regex_faI) auto

text \<open>Determinization and simplification keep the language.\<close>

lemma regex_result:
  assumes "regex_fa token a L"
  shows "\<exists>d out. make_deterministic a = Some d \<and> simplify d = Some out \<and> wf_fa out \<and> get_determinism out \<and>
     get_nsymbols out = 98 \<and> (\<forall>w tok. recognizes out w tok \<longleftrightarrow> tok = token \<and> w \<in> L)"
proof -
  obtain det R acc where a: "a = fa_of 98 det R acc" "fa_ok 98 det R acc" "sinks (fa_of 98 det R acc)"
    "\<forall>w tok. recognizes (fa_of 98 det R acc) w tok \<longleftrightarrow> tok = token \<and> w \<in> L"
    "\<forall>w. accepted (fa_of 98 det R acc) w \<longleftrightarrow> w \<in> L" using assms by (rule regex_faE)
  obtain D ac where D: "make_deterministic a = Some (fa_of 98 True D ac)" "fa_ok 98 True D ac"
    and least: "\<forall>w tok. recognizes (fa_of 98 True D ac) w tok \<longleftrightarrow>
        recognizes (fa_of 98 det R acc) w tok \<and> (\<forall>t. recognizes (fa_of 98 det R acc) w t \<longrightarrow> tok \<le> t)"
    using determinized [OF a(2)] unfolding a(1) by fastforce
  have same: "\<forall>w tok. recognizes (fa_of 98 True D ac) w tok \<longleftrightarrow> tok = token \<and> w \<in> L"
    using least a(4) by auto
  obtain C tc where C: "simplify_loop (fa_of 98 True D ac) (int (length D)) = Some (fa_of 98 True C tc)"
    "fa_ok 98 True C tc"
    "\<forall>w token. recognizes (fa_of 98 True C tc) w token \<longleftrightarrow> recognizes (fa_of 98 True D ac) w token"
    using simplify_loop_of [OF D(2)] by blast
  have "simplify (fa_of 98 True D ac) = Some (fa_of 98 True C tc)"
    using C(1) unfolding simplify_def get_nstates_of [OF fa_okD(1) [OF D(2)]] by simp
  then show ?thesis using D(1) same C(3) wf_fa_of [OF C(2)] by auto
qed

section \<open>The value of a parse tree\<close>

definition value_ok :: "int \<Rightarrow> parse_tree \<Rightarrow> any \<Rightarrow> bool" where
  "value_ok token t v \<longleftrightarrow>
     (tree_symbol t \<in> {''union'', ''concat'', ''qualified'', ''single''} \<longrightarrow>
        (\<exists>fa. v = Any_fa fa \<and> regex_fa token fa (language_of t))) \<and>
     (tree_symbol t = ''char'' \<longrightarrow> v = Any_char (char_of t) \<and> char_of t \<in> set inv_chartab) \<and>
     (tree_symbol t \<in> {''set'', ''positive-set'', ''negative-set'', ''set-items'', ''set-item'', ''range''} \<longrightarrow>
        (\<exists>s. v = Any_set s \<and> set s = chars_of t)) \<and>
     (tree_symbol t = ''regex'' \<longrightarrow>
        (\<exists>fa. v = Any_fa fa \<and> wf_fa fa \<and> get_determinism fa \<and> get_nsymbols fa = 98 \<and>
          (\<forall>w tok. recognizes fa w tok \<longleftrightarrow> tok = token \<and> w \<in> language_of t)))"

lemma shift_value:
  assumes "grammar_tree (Shift tok text)"
  shows "\<exists>v. at_shift tok text = Some v \<and> value_ok token (Shift tok text) v"
proof (cases "tok = TOK_CHAR")
  case True
  then have "char_text text" using assms by simp
  then consider c where "text = [c]" "table_char c" | c where "text = [92, c]" "table_char c"
    unfolding char_text_def by (auto simp: length_Suc_conv numeral_2_eq_2)
  then show ?thesis
    using True by cases (simp_all add: at_shift_def asize_def rd_def value_ok_def table_char_def)
next
  case False
  then show ?thesis by (cases tok) (simp_all add: at_shift_def value_ok_def)
qed

lemma list_all2_names:
  assumes "list_all2 P ts vs"
  shows "map f ts = [a] \<Longrightarrow> \<exists>t v. ts = [t] \<and> vs = [v] \<and> f t = a \<and> P t v"
    and "map f ts = [a, b] \<Longrightarrow> \<exists>t u v w. ts = [t, u] \<and> vs = [v, w] \<and> f t = a \<and> f u = b \<and> P t v \<and> P u w"
    and "map f ts = [a, b, c] \<Longrightarrow> \<exists>t u x v w y. ts = [t, u, x] \<and> vs = [v, w, y] \<and>
       f t = a \<and> f u = b \<and> f x = c \<and> P t v \<and> P u w \<and> P x y"
    and "map f ts = [a, b, c, d] \<Longrightarrow> \<exists>t u x z v w y y'. ts = [t, u, x, z] \<and> vs = [v, w, y, y'] \<and>
       f t = a \<and> f u = b \<and> f x = c \<and> f z = d \<and> P t v \<and> P u w \<and> P x y \<and> P z y'"
  using assms by (auto simp: map_eq_Cons_conv list_all2_Cons1)

lemma rd_Cons [simp]: "rd (x # xs) 0 = Some x" "rd (x # y # xs) 1 = Some y" "rd (x # y # z # xs) 2 = Some z"
  by (simp_all add: rd_def asize_def)

text \<open>What a value of each kind of symbol is, and how to give one.\<close>

lemma value_okD:
  assumes "value_ok token t v"
  shows "tree_symbol t \<in> {''union'', ''concat'', ''qualified'', ''single''} \<Longrightarrow>
      \<exists>fa. v = Any_fa fa \<and> regex_fa token fa (language_of t)"
    and "tree_symbol t = ''char'' \<Longrightarrow> v = Any_char (char_of t) \<and> char_of t \<in> set inv_chartab"
    and "tree_symbol t \<in> {''set'', ''positive-set'', ''negative-set'', ''set-items'', ''set-item'', ''range''} \<Longrightarrow>
      \<exists>s. v = Any_set s \<and> set s = chars_of t"
  using assms unfolding value_ok_def by blast+

lemma value_fa:
  "p \<notin> {PROD_REGEX, PROD_SET_POSITIVE, PROD_SET_NEGATIVE, PROD_POSITIVE_SET, PROD_NEGATIVE_SET, PROD_SET_ITEMS_DECAY,
     PROD_SET_ITEMS_ADD, PROD_SET_ITEM_CHAR, PROD_SET_ITEM_RANGE, PROD_RANGE} \<Longrightarrow>
   regex_fa token fa (language_of (Reduce p ts)) \<Longrightarrow> value_ok token (Reduce p ts) (Any_fa fa)"
  by (cases p) (simp_all add: value_ok_def)

lemma value_set:
  "p \<in> {PROD_SET_POSITIVE, PROD_SET_NEGATIVE, PROD_POSITIVE_SET, PROD_NEGATIVE_SET, PROD_SET_ITEMS_DECAY,
     PROD_SET_ITEMS_ADD, PROD_SET_ITEM_CHAR, PROD_SET_ITEM_RANGE, PROD_RANGE} \<Longrightarrow>
   set s = chars_of (Reduce p ts) \<Longrightarrow> value_ok token (Reduce p ts) (Any_set s)"
  by (cases p) (simp_all add: value_ok_def)

lemma char_tree: "tree_symbol t = ''char'' \<Longrightarrow> \<exists>text. t = Shift TOK_CHAR text"
proof (cases t)
  case (Shift token word)
  then show "tree_symbol t = ''char'' \<Longrightarrow> \<exists>text. t = Shift TOK_CHAR text" by (cases token) simp_all
next
  case (Reduce p ts)
  then show "tree_symbol t = ''char'' \<Longrightarrow> \<exists>text. t = Shift TOK_CHAR text" by (cases p) simp_all
qed

text \<open>Productions with one symbol on the right-hand side.\<close>

lemma reduce_one:
  assumes v: "value_ok token t v" and token: "0 \<le> token" and name: "snd (regex_production p) = [tree_symbol t]"
    and chars: "p = PROD_SINGLE_SET \<longrightarrow> chars_of t \<subseteq> set inv_chartab"
  shows "\<exists>x. at_reduce token p [v] = Some x \<and> value_ok token (Reduce p [t]) x"
proof (cases p)
  case PROD_REGEX
  then obtain fa where fa: "v = Any_fa fa" "regex_fa token fa (language_of t)" using value_okD(1) [OF v] name by auto
  then show ?thesis using regex_result [OF fa(2)] PROD_REGEX by (auto simp: at_reduce_def value_ok_def)
next
  case PROD_SINGLE_CHAR
  then have c: "v = Any_char (char_of t)" "char_of t \<in> set inv_chartab" using value_okD(2) [OF v] name by auto
  let ?x = "int (symbol_of (char_of t))"
  note d = table_charD [OF c(2)]
  have "make_char_single_nfa (char_of t) token = Some (fa_of 98 True [symbol_row 98 [?x..?x], blank 98 True] [- 1, token])"
    using make_range_nfa_of [of 98 ?x ?x token] d token by (simp add: make_char_single_nfa_def length_chartabs)
  moreover have "regex_fa token (fa_of 98 True [symbol_row 98 [?x..?x], blank 98 True] [- 1, token]) {[symbol_of (char_of t)]}"
    using regex_symbols [of "[?x..?x]", OF _ token] d by simp
  ultimately show ?thesis
    using c(1) PROD_SINGLE_CHAR value_fa [of p token _ "[t]"] by (simp add: at_reduce_def)
next
  case PROD_ANY
  have "make_range_nfa NCHARS 0 (NCHARS - 1) token = Some (fa_of 98 True [symbol_row 98 [0..97], blank 98 True] [- 1, token])"
    using make_range_nfa_of [of 98 0 97 token] token by (simp add: length_chartabs)
  moreover have "{[x] |x. int x \<in> set [0..97]} = {[x] |x. x < 98}" by auto
  then have "regex_fa token (fa_of 98 True [symbol_row 98 [0..97], blank 98 True] [- 1, token]) {[x] |x. x < 98}"
    using regex_symbols [of "[0..97]", OF _ token] by simp
  ultimately show ?thesis
    using PROD_ANY value_fa [of p token _ "[t]"] by (simp add: at_reduce_def)
next
  case PROD_SINGLE_SET
  then obtain s where s: "v = Any_set s" "set s = chars_of t" using value_okD(3) [OF v] name by auto
  have sub: "set s \<subseteq> set inv_chartab" using chars PROD_SINGLE_SET s(2) by simp
  obtain xs where xs: "make_char_set_nfa s token = Some (fa_of 98 True [symbol_row 98 xs, blank 98 True] [- 1, token])"
    "set xs = int ` symbol_of ` set s" using make_char_set_nfa_of [OF sub token] by blast
  have "\<forall>x \<in> set xs. 0 \<le> x \<and> x < 98" using xs(2) sub table_charD(4) by force
  moreover have "{[x] |x. int x \<in> set xs} = {[symbol_of c] |c. c \<in> chars_of t}" using xs(2) s(2) by auto
  ultimately have "regex_fa token (fa_of 98 True [symbol_row 98 xs, blank 98 True] [- 1, token])
      {[symbol_of c] |c. c \<in> chars_of t}"
    using regex_symbols [of xs, OF _ token] by simp
  then show ?thesis
    using s(1) xs(1) PROD_SINGLE_SET value_fa [of p token _ "[t]"] by (simp add: at_reduce_def)
next
  case PROD_SET_NEGATIVE
  then obtain s where s: "v = Any_set s" "set s = chars_of t" using value_okD(3) [OF v] name by auto
  then show ?thesis
    using negate_set_of [of s] PROD_SET_NEGATIVE value_set [of p _ "[t]" token] by (auto simp: at_reduce_def)
next
  case PROD_SET_ITEM_CHAR
  then have "v = Any_char (char_of t)" "tree_symbol t = ''char''" using value_okD(2) [OF v] name by auto
  moreover from this(2) have "chars_of t = {char_of t}" by (auto dest: char_tree)
  ultimately show ?thesis using PROD_SET_ITEM_CHAR value_set [of p _ "[t]" token] by (simp add: at_reduce_def)
qed (use v name in \<open>auto simp: at_reduce_def value_ok_def\<close>)

text \<open>Productions with more symbols, and all of them.\<close>

lemma reduce_value:
  assumes vs: "list_all2 (value_ok token) ts vs" and token: "0 \<le> token"
    and names: "map tree_symbol ts = snd (regex_production p)"
    and chars: "p = PROD_SINGLE_SET \<longrightarrow> chars_of (ts ! 0) \<subseteq> set inv_chartab"
  shows "\<exists>v. at_reduce token p vs = Some v \<and> value_ok token (Reduce p ts) v"
proof -
  note two = list_all2_names(2) [OF vs] and three = list_all2_names(3) [OF vs] and four = list_all2_names(4) [OF vs]
  show ?thesis
  proof (cases p)
    case PROD_UNION
    with names have n: "map tree_symbol ts = [''union'', ''|'', ''concat'']" by simp
    obtain t u x v w y where e: "ts = [t, u, x]" "vs = [v, w, y]" "tree_symbol t = ''union''"
      "tree_symbol x = ''concat''" "value_ok token t v" "value_ok token x y"
      using three [OF n] by blast
    obtain a b where "v = Any_fa a" "regex_fa token a (language_of t)" "y = Any_fa b" "regex_fa token b (language_of x)"
      using value_okD(1) [OF e(5)] value_okD(1) [OF e(6)] e(3,4) by auto
    then show ?thesis using regex_unite [of token a "language_of t" b "language_of x"] PROD_UNION e(1,2)
      by (auto simp: at_reduce_def intro!: value_fa)
  next
    case PROD_CONCAT
    with names have n: "map tree_symbol ts = [''concat'', ''qualified'']" by simp
    obtain t u v w where e: "ts = [t, u]" "vs = [v, w]" "tree_symbol t = ''concat''"
      "tree_symbol u = ''qualified''" "value_ok token t v" "value_ok token u w"
      using two [OF n] by blast
    obtain a b where "v = Any_fa a" "regex_fa token a (language_of t)" "w = Any_fa b" "regex_fa token b (language_of u)"
      using value_okD(1) [OF e(5)] value_okD(1) [OF e(6)] e(3,4) by auto
    then show ?thesis using regex_concat [of token a "language_of t" b "language_of u"] token PROD_CONCAT e(1,2)
      by (auto simp: at_reduce_def intro!: value_fa)
  next
    case PROD_STAR
    with names have n: "map tree_symbol ts = [''qualified'', ''*'']" by simp
    obtain t u v w where e: "ts = [t, u]" "vs = [v, w]" "tree_symbol t = ''qualified''" "value_ok token t v"
      using two [OF n] by blast
    obtain a where "v = Any_fa a" "regex_fa token a (language_of t)" using value_okD(1) [OF e(4)] e(3) by auto
    then show ?thesis using regex_star [of token a "language_of t"] token PROD_STAR e(1,2)
      by (auto simp: at_reduce_def intro!: value_fa)
  next
    case PROD_PLUS
    with names have n: "map tree_symbol ts = [''qualified'', ''+'']" by simp
    obtain t u v w where e: "ts = [t, u]" "vs = [v, w]" "tree_symbol t = ''qualified''" "value_ok token t v"
      using two [OF n] by blast
    obtain a where "v = Any_fa a" "regex_fa token a (language_of t)" using value_okD(1) [OF e(4)] e(3) by auto
    then show ?thesis using regex_plus [of token a "language_of t"] token PROD_PLUS e(1,2)
      by (auto simp: at_reduce_def intro!: value_fa)
  next
    case PROD_MAYBE
    with names have n: "map tree_symbol ts = [''qualified'', ''?'']" by simp
    obtain t u v w where e: "ts = [t, u]" "vs = [v, w]" "tree_symbol t = ''qualified''" "value_ok token t v"
      using two [OF n] by blast
    obtain a where "v = Any_fa a" "regex_fa token a (language_of t)" using value_okD(1) [OF e(4)] e(3) by auto
    then show ?thesis using regex_maybe [of token a "language_of t"] token PROD_MAYBE e(1,2)
      by (auto simp: at_reduce_def intro!: value_fa)
  next
    case PROD_PARENS_UNION
    with names have n: "map tree_symbol ts = [''('', ''union'', '')'']" by simp
    obtain t u x v w y where e: "ts = [t, u, x]" "vs = [v, w, y]" "tree_symbol u = ''union''" "value_ok token u w"
      using three [OF n] by blast
    obtain a where "w = Any_fa a" "regex_fa token a (language_of u)" using value_okD(1) [OF e(4)] e(3) by auto
    then show ?thesis using PROD_PARENS_UNION e(1,2) by (auto simp: at_reduce_def intro!: value_fa)
  next
    case PROD_POSITIVE_SET
    with names have n: "map tree_symbol ts = [''['', ''set-items'', '']'']" by simp
    obtain t u x v w y where e: "ts = [t, u, x]" "vs = [v, w, y]" "tree_symbol u = ''set-items''" "value_ok token u w"
      using three [OF n] by blast
    obtain s where "w = Any_set s" "set s = chars_of u" using value_okD(3) [OF e(4)] e(3) by auto
    then show ?thesis using PROD_POSITIVE_SET e(1,2) value_set [of p s ts token] by (simp add: at_reduce_def)
  next
    case PROD_NEGATIVE_SET
    with names have n: "map tree_symbol ts = [''['', ''^'', ''set-items'', '']'']" by simp
    obtain t u x z v w y y' where e: "ts = [t, u, x, z]" "vs = [v, w, y, y']" "tree_symbol x = ''set-items''"
      "value_ok token x y"
      using four [OF n] by blast
    obtain s where "y = Any_set s" "set s = chars_of x" using value_okD(3) [OF e(4)] e(3) by auto
    then show ?thesis using PROD_NEGATIVE_SET e(1,2) value_set [of p s ts token] by (simp add: at_reduce_def)
  next
    case PROD_SET_ITEMS_ADD
    with names have n: "map tree_symbol ts = [''set-items'', ''set-item'']" by simp
    obtain t u v w where e: "ts = [t, u]" "vs = [v, w]" "tree_symbol t = ''set-items''" "tree_symbol u = ''set-item''"
      "value_ok token t v" "value_ok token u w"
      using two [OF n] by blast
    obtain a b where "v = Any_set a" "set a = chars_of t" "w = Any_set b" "set b = chars_of u"
      using value_okD(3) [OF e(5)] value_okD(3) [OF e(6)] e(3,4) by auto
    then show ?thesis using PROD_SET_ITEMS_ADD e(1,2) value_set [of p "unite_sets a b" ts token]
      by (simp add: at_reduce_def unite_sets_def set_fold_insert Un_commute)
  next
    case PROD_RANGE
    with names have n: "map tree_symbol ts = [''char'', ''-'', ''char'']" by simp
    obtain t u x v w y where e: "ts = [t, u, x]" "vs = [v, w, y]" "tree_symbol t = ''char''" "tree_symbol x = ''char''"
      "value_ok token t v" "value_ok token x y"
      using three [OF n] by blast
    have "v = Any_char (char_of t)" "y = Any_char (char_of x)" "char_of x < 127"
      using value_okD(2) [OF e(5)] value_okD(2) [OF e(6)] e(3,4) table_charD(2) by auto
    then show ?thesis
      using PROD_RANGE e(1,2) value_set [of p "fold set_insert [char_of t..char_of x] []" ts token]
      by (simp add: at_reduce_def range_loop_of set_fold_insert)
  qed (use list_all2_names(1) [OF vs] reduce_one token names chars in fastforce)+
qed

lemma those_values:
  "\<forall>t \<in> set ts. \<exists>v. f t = Some v \<and> P t v \<Longrightarrow> \<exists>vs. those (map f ts) = Some vs \<and> list_all2 P ts vs"
  by (induction ts) (auto simp: list_all2_Cons1)

lemma those_fails: "t \<in> set ts \<Longrightarrow> f t = None \<Longrightarrow> those (map f ts) = None"
  by (induction ts) (auto split: option.splits)

lemma single_set_fails:
  assumes "value_ok token t v" "tree_symbol t = ''set''" "\<not> chars_of t \<subseteq> set inv_chartab"
  shows "at_reduce token PROD_SINGLE_SET [v] = None"
proof -
  obtain s where "v = Any_set s" "set s = chars_of t" using value_okD(3) [OF assms(1)] assms(2) by auto
  then show ?thesis using make_char_set_nfa_fails [of s token] assms(3) by (simp add: at_reduce_def)
qed

text \<open>A tree has a value exactly if its sets are in the table.\<close>

lemma tree_value_cases:
  assumes token: "0 \<le> token"
  shows "grammar_tree t \<Longrightarrow>
    (if sets_in_table t then \<exists>v. tree_value token t = Some v \<and> value_ok token t v else tree_value token t = None)"
proof (induction t)
  case (Shift tok x)
  then show ?case using shift_value [of tok x token] by simp
next
  case (Reduce p ts)
  note names = Reduce.prems [simplified, THEN conjunct2]
  have IH: "\<forall>t \<in> set ts. if sets_in_table t then \<exists>v. tree_value token t = Some v \<and> value_ok token t v
      else tree_value token t = None"
    using Reduce by simp
  show ?case
  proof (cases "\<forall>t \<in> set ts. sets_in_table t")
    case False
    then obtain t where "t \<in> set ts" "\<not> sets_in_table t" by blast
    with IH those_fails [of t ts "tree_value token"] show ?thesis by auto
  next
    case True
    with IH have "\<forall>t \<in> set ts. \<exists>v. tree_value token t = Some v \<and> value_ok token t v" by simp
    from those_values [OF this] obtain vs where
      vs: "those (map (tree_value token) ts) = Some vs" "list_all2 (value_ok token) ts vs" by blast
    show ?thesis
    proof (cases "p = PROD_SINGLE_SET \<longrightarrow> chars_of (ts ! 0) \<subseteq> set inv_chartab")
      case chars: True
      then show ?thesis using reduce_value [OF vs(2) token names chars] vs(1) True by simp
    next
      case chars: False
      then have "map tree_symbol ts = [''set'']" using names by simp
      then obtain t v where "ts = [t]" "vs = [v]" "tree_symbol t = ''set''" "value_ok token t v"
        using list_all2_names(1) [OF vs(2), of tree_symbol "''set''"] by fastforce
      then show ?thesis using single_set_fails [of token t v] chars vs(1) by auto
    qed
  qed
qed

text \<open>C4.  Regular expressions (functional).  The reductions of a parse tree of the grammar of regular
  expressions succeed exactly if every set used as a single character has characters of the table only, and
  abort otherwise (in \<open>get_symbol\<close>, as for the range from TAB to \<open>a\<close>).  When they succeed, the
  automaton of the whole expression is well-formed, deterministic and recognizes with the token of the
  reader exactly the words of the language that the tree denotes: unions, concatenations, repetitions,
  characters, ranges and complements of sets.\<close>

theorem regex_automaton_language:
  assumes t: "grammar_tree t" and root: "tree_symbol t = ''regex''" and token: "0 \<le> token"
  shows "if sets_in_table t
     then \<exists>fa. tree_value token t = Some (Any_fa fa) \<and> wf_fa fa \<and> get_determinism fa \<and> get_nsymbols fa = NCHARS \<and>
       (\<forall>w tok. recognizes fa w tok \<longleftrightarrow> tok = token \<and> w \<in> language_of t)
     else tree_value token t = None"
proof (cases "sets_in_table t")
  case True
  then obtain v where v: "tree_value token t = Some v" "value_ok token t v"
    using tree_value_cases [OF token t] by auto
  then obtain fa where "v = Any_fa fa" "wf_fa fa" "get_determinism fa" "get_nsymbols fa = 98"
    "\<forall>w tok. recognizes fa w tok \<longleftrightarrow> tok = token \<and> w \<in> language_of t"
    using root unfolding value_ok_def by blast
  then show ?thesis using v(1) True by (simp add: length_chartabs)
qed (use tree_value_cases [OF token t] in simp)

text \<open>The trees of \<open>a+\<close> and of the set of the characters from TAB to \<open>a\<close>.\<close>

lemma regex_automaton_language_witness:
  "let expr = (\<lambda>single. Reduce PROD_REGEX [Reduce PROD_UNION_DECAY [Reduce PROD_CONCAT_DECAY [Reduce PROD_PLUS
         [Reduce PROD_QUAL_DECAY [single], Shift TOK_PLUS [43]]]]]);
     t = expr (Reduce PROD_SINGLE_CHAR [Shift TOK_CHAR [97]]);
     u = expr (Reduce PROD_SINGLE_SET [Reduce PROD_SET_POSITIVE [Reduce PROD_POSITIVE_SET [Shift TOK_LRANGE [91],
       Reduce PROD_SET_ITEMS_DECAY [Reduce PROD_SET_ITEM_RANGE [Reduce PROD_RANGE [Shift TOK_CHAR [9],
         Shift TOK_RANGE [45], Shift TOK_CHAR [97]]]], Shift TOK_RRANGE [93]]]])
   in (\<exists>fa. tree_value 3 t = Some (Any_fa fa) \<and>
     recognizes fa [symbol_of 97, symbol_of 97] 3 \<and> \<not> recognizes fa [] 3) \<and> tree_value 3 u = None"
proof -
  let ?expr = "\<lambda>single. Reduce PROD_REGEX [Reduce PROD_UNION_DECAY [Reduce PROD_CONCAT_DECAY [Reduce PROD_PLUS
         [Reduce PROD_QUAL_DECAY [single], Shift TOK_PLUS [43]]]]]"
  let ?t = "?expr (Reduce PROD_SINGLE_CHAR [Shift TOK_CHAR [97]])"
  let ?u = "?expr (Reduce PROD_SINGLE_SET [Reduce PROD_SET_POSITIVE [Reduce PROD_POSITIVE_SET [Shift TOK_LRANGE [91],
       Reduce PROD_SET_ITEMS_DECAY [Reduce PROD_SET_ITEM_RANGE [Reduce PROD_RANGE [Shift TOK_CHAR [9],
         Shift TOK_RANGE [45], Shift TOK_CHAR [97]]]], Shift TOK_RRANGE [93]]]])"
  have t: "grammar_tree ?t" "sets_in_table ?t" and u: "grammar_tree ?u"
    by (simp_all add: char_text_def table_char_def inv_chartab_def)
  have "(11::int) \<in> {9..97}" "11 \<notin> set inv_chartab" by (simp_all add: inv_chartab_def)
  then have "\<not> {9..97} \<subseteq> set inv_chartab" by blast
  then have "\<not> sets_in_table ?u" by simp
  then have fails: "tree_value 3 ?u = None" using regex_automaton_language [OF u] by simp
  have "[symbol_of 97, symbol_of 97] \<in> language_of ?t"
    by (simp, rule exI [of _ "[[symbol_of 97], [symbol_of 97]]"]) simp
  moreover have "[] \<notin> language_of ?t" by (auto simp: neq_Nil_conv)
  ultimately show ?thesis using regex_automaton_language [OF t(1), of 3] t(2) fails by (auto simp: Let_def)
qed

end
