(* ===== verification/Regex_Lexer.thy ===== *)
theory Regex_Lexer
  imports Regex
begin

text \<open>
  The lexer of regular expressions, built by hand (\<open>regex::build_lexer\<close> in \<open>src/src/Omega_h_regex.cpp\<close>): the
  automaton gives a character that is not special, and a backslash with any character, the token
  \<open>TOK_CHAR\<close>, and each special character the token of its position.  It is compared with the regular
  expressions that the grammar has for the same tokens.
\<close>

section \<open>The operation\<close>

fun tok_number :: "regex_tok \<Rightarrow> int" where
  "tok_number TOK_CHAR = 0"
| "tok_number TOK_DOT = 1"
| "tok_number TOK_LRANGE = 2"
| "tok_number TOK_RRANGE = 3"
| "tok_number TOK_LPAREN = 4"
| "tok_number TOK_RPAREN = 5"
| "tok_number TOK_UNION = 6"
| "tok_number TOK_RANGE = 7"
| "tok_number TOK_NEGATE = 8"
| "tok_number TOK_STAR = 9"
| "tok_number TOK_PLUS = 10"
| "tok_number TOK_MAYBE = 11"

text \<open>The characters \<open>.[]()|-^*+?\<close>.\<close>

definition meta_chars :: "int list" where
  "meta_chars = [46, 91, 93, 40, 41, 124, 45, 94, 42, 43, 63]"

text \<open>The automaton that \<open>FiniteAutomaton lex_metachars;\<close> declares: nothing reads it.\<close>

definition empty_fa :: fa where
  "empty_fa = \<lparr>fa_table = \<lparr>tdata = [], tncols = 0\<rparr>, accepted_tokens = [], is_deterministic = False\<rparr>"

definition lex_meta :: "fa option" where
  "lex_meta = for_range 0 (asize meta_chars) (\<lambda>i lex_metachars. do {
     c \<leftarrow> rd meta_chars i;
     lex_metachar \<leftarrow> make_char_single_nfa c (tok_number TOK_CHAR + i + 1);
     if i \<noteq> 0 then unite lex_metachars lex_metachar else Some lex_metachar
   }) empty_fa"

definition build_lexer :: "fa option" where
  "build_lexer = do {
     all_chars \<leftarrow> for_range 0 NCHARS (\<lambda>i s. Some (set_insert i s)) [];
     nonmeta_chars \<leftarrow> run_for meta_chars (\<lambda>c s. do { x \<leftarrow> get_symbol c; Some (remove1 x s) }) all_chars;
     lex_nonmeta \<leftarrow> make_set_nfa NCHARS nonmeta_chars (tok_number TOK_CHAR);
     lex_slash \<leftarrow> make_char_single_nfa 92 0;
     lex_any \<leftarrow> make_set_nfa NCHARS all_chars 0;
     lex_escaped \<leftarrow> fa_concat lex_slash lex_any (tok_number TOK_CHAR);
     lex_char \<leftarrow> unite lex_nonmeta lex_escaped;
     lex_metachars \<leftarrow> lex_meta;
     out \<leftarrow> unite lex_char lex_metachars;
     d \<leftarrow> make_deterministic out;
     simplify d
   }"

section \<open>Automata of several tokens\<close>

text \<open>The pairs of a word and a token that an automaton recognizes.\<close>

definition lexes :: "fa \<Rightarrow> (nat list \<times> int) set \<Rightarrow> bool" where
  "lexes fa L \<longleftrightarrow> wf_fa fa \<and> get_nsymbols fa = 98 \<and> (\<forall>w tok. recognizes fa w tok \<longleftrightarrow> (w, tok) \<in> L)"

lemma lexesE:
  assumes "lexes fa L"
  obtains det R acc where "fa = fa_of 98 det R acc" "fa_ok 98 det R acc"
    "\<forall>w tok. recognizes (fa_of 98 det R acc) w tok \<longleftrightarrow> (w, tok) \<in> L"
  using assms unfolding lexes_def by (metis fa_of_simps(1) wf_faE)

lemma lexesI:
  "fa_ok 98 det R acc \<Longrightarrow> (\<And>w tok. recognizes (fa_of 98 det R acc) w tok \<longleftrightarrow> (w, tok) \<in> L) \<Longrightarrow> lexes (fa_of 98 det R acc) L"
  by (simp add: lexes_def wf_fa_of)

lemma lexes_regex: "regex_fa token fa L \<Longrightarrow> lexes fa (L \<times> {token})"
  by (auto simp: regex_fa_def lexes_def)

lemma lexes_unite:
  assumes "lexes a L" "lexes b M"
  shows "\<exists>out. unite a b = Some out \<and> lexes out (L \<union> M)"
proof -
  obtain da A ta where a: "a = fa_of 98 da A ta" "fa_ok 98 da A ta"
    "\<forall>w tok. recognizes (fa_of 98 da A ta) w tok \<longleftrightarrow> (w, tok) \<in> L" using assms(1) by (rule lexesE)
  obtain db B tb where b: "b = fa_of 98 db B tb" "fa_ok 98 db B tb"
    "\<forall>w tok. recognizes (fa_of 98 db B tb) w tok \<longleftrightarrow> (w, tok) \<in> M" using assms(2) by (rule lexesE)
  have "lexes (fa_of 98 False (unite_rows 98 A B) (- 1 # ta @ tb)) (L \<union> M)"
    by (rule lexesI [OF unite_of(2) [OF a(2) b(2)]]) (auto simp: unite_recognizes [OF a(2) b(2)] a(3) b(3))
  then show ?thesis using unite_of(1) [OF a(2) b(2)] a(1) b(1) by blast
qed

text \<open>When no word has two tokens, determinization and simplification change nothing.\<close>

lemma lexes_result:
  assumes a: "lexes a L" and single: "\<forall>w s t. (w, s) \<in> L \<longrightarrow> (w, t) \<in> L \<longrightarrow> s = t"
  shows "\<exists>d out. make_deterministic a = Some d \<and> simplify d = Some out \<and> get_determinism out \<and> lexes out L"
proof -
  obtain det R acc where a: "a = fa_of 98 det R acc" "fa_ok 98 det R acc"
    "\<forall>w tok. recognizes (fa_of 98 det R acc) w tok \<longleftrightarrow> (w, tok) \<in> L" using assms(1) by (rule lexesE)
  obtain D ac where D: "make_deterministic a = Some (fa_of 98 True D ac)" "fa_ok 98 True D ac"
    and least: "\<forall>w tok. recognizes (fa_of 98 True D ac) w tok \<longleftrightarrow>
        recognizes (fa_of 98 det R acc) w tok \<and> (\<forall>t. recognizes (fa_of 98 det R acc) w t \<longrightarrow> tok \<le> t)"
    using determinized [OF a(2)] unfolding a(1) by fastforce
  have same: "\<forall>w tok. recognizes (fa_of 98 True D ac) w tok \<longleftrightarrow> (w, tok) \<in> L"
  proof (intro allI)
    fix w tok
    have "(w, tok) \<in> L \<Longrightarrow> (w, t) \<in> L \<Longrightarrow> tok \<le> t" for t using single by (metis order_refl)
    then show "recognizes (fa_of 98 True D ac) w tok \<longleftrightarrow> (w, tok) \<in> L" using least a(3) by blast
  qed
  obtain C tc where C: "simplify_loop (fa_of 98 True D ac) (int (length D)) = Some (fa_of 98 True C tc)"
    "fa_ok 98 True C tc"
    "\<forall>w token. recognizes (fa_of 98 True C tc) w token \<longleftrightarrow> recognizes (fa_of 98 True D ac) w token"
    using simplify_loop_of [OF D(2)] by blast
  have "simplify (fa_of 98 True D ac) = Some (fa_of 98 True C tc)"
    using C(1) unfolding simplify_def get_nstates_of [OF fa_okD(1) [OF D(2)]] by simp
  moreover have "lexes (fa_of 98 True C tc) L" using C(3) same by (intro lexesI [OF C(2)]) simp
  ultimately show ?thesis using D(1) by auto
qed

section \<open>The lexer of regular expressions\<close>

lemma meta_chars_table: "set meta_chars \<subseteq> set inv_chartab" "distinct meta_chars" "92 \<notin> set meta_chars"
    "92 \<in> set inv_chartab"
  by code_simp+

lemma symbol_of_inject: "c \<in> set inv_chartab \<Longrightarrow> d \<in> set inv_chartab \<Longrightarrow> symbol_of c = symbol_of d \<longleftrightarrow> c = d"
  using table_charD(5) by metis

lemma single_char:
  assumes c: "c \<in> set inv_chartab" and token: "0 \<le> token"
  shows "\<exists>fa. make_char_single_nfa c token = Some fa \<and> regex_fa token fa {[symbol_of c]}"
  using reduce_one [of token "Shift TOK_CHAR [c]" "Any_char c" PROD_SINGLE_CHAR] assms
  by (auto simp: value_ok_def at_reduce_def bind_eq_Some_conv)

lemma all_chars_of:
  "\<exists>s. for_range 0 98 (\<lambda>i s. Some (set_insert i s)) [] = Some s \<and> distinct s \<and> set s = {0..97}"
proof -
  have "\<exists>s. for_range 0 98 (\<lambda>i s. Some (set_insert i s)) [] = Some s \<and>
      (\<lambda>i s. distinct s \<and> set s = {0..<i}) 98 s"
    by (rule for_range_rule) (auto simp: distinct_set_insert)
  then show ?thesis by fastforce
qed

lemma nonmeta_of:
  assumes s: "distinct s" "set s = {0..97}"
  shows "\<exists>r. run_for meta_chars (\<lambda>c s. do { x \<leftarrow> get_symbol c; Some (remove1 x s) }) s = Some r \<and>
     distinct r \<and> set r = {0..97} - int ` symbol_of ` set meta_chars"
proof -
  have "\<exists>r. run_for meta_chars (\<lambda>c s. do { x \<leftarrow> get_symbol c; Some (remove1 x s) }) s = Some r \<and>
      (\<lambda>done r. distinct r \<and> set r = {0..97} - int ` symbol_of ` set done) meta_chars r"
  proof (rule run_for_rule)
    fix "done" c rest r
    assume split: "meta_chars = done @ c # rest" and r: "distinct r \<and> set r = {0..97} - int ` symbol_of ` set done"
    have "c \<in> set meta_chars" unfolding split by simp
    then have "c \<in> set inv_chartab" using meta_chars_table(1) by blast
    then show "\<exists>r'. (do { x \<leftarrow> get_symbol c; Some (remove1 x r) }) = Some r' \<and> distinct r' \<and>
        set r' = {0..97} - int ` symbol_of ` set (done @ [c])"
      using r by (auto simp: table_charD(3) distinct_remove1)
  qed (use s in simp)
  then show ?thesis by blast
qed

text \<open>Words of one symbol by their character.\<close>

lemma symbol_words:
  assumes s: "set s = {0..97}" and r: "set r = {0..97} - int ` symbol_of ` set meta_chars"
  shows "(\<exists>x. w = [x] \<and> int x \<in> set s) \<longleftrightarrow> (\<exists>c \<in> set inv_chartab. w = [symbol_of c])"
    and "(\<exists>x. w = [x] \<and> int x \<in> set r) \<longleftrightarrow> (\<exists>c \<in> set inv_chartab - set meta_chars. w = [symbol_of c])"
proof -
  have bound: "int x \<in> {0..97} \<longleftrightarrow> x < 98" for x by auto
  have sym: "x < 98 \<longleftrightarrow> (\<exists>c \<in> set inv_chartab. x = symbol_of c)" for x
    using symbol_of_inv [of x] table_charD(4) by metis
  show "(\<exists>x. w = [x] \<and> int x \<in> set s) \<longleftrightarrow> (\<exists>c \<in> set inv_chartab. w = [symbol_of c])"
    unfolding s bound sym by blast
  have "int x \<in> set r \<longleftrightarrow> (\<exists>c \<in> set inv_chartab - set meta_chars. x = symbol_of c)" for x
  proof -
    have "int x \<in> set r \<longleftrightarrow> x < 98 \<and> x \<notin> symbol_of ` set meta_chars" unfolding r Diff_iff bound by force
    also have "\<dots> \<longleftrightarrow> (\<exists>c \<in> set inv_chartab - set meta_chars. x = symbol_of c)"
      unfolding sym using meta_chars_table(1) symbol_of_inject by blast
    finally show ?thesis .
  qed
  then show "(\<exists>x. w = [x] \<and> int x \<in> set r) \<longleftrightarrow> (\<exists>c \<in> set inv_chartab - set meta_chars. w = [symbol_of c])"
    by blast
qed

definition meta_lexemes :: "nat \<Rightarrow> (nat list \<times> int) set" where
  "meta_lexemes k = {([symbol_of (meta_chars ! i)], int i + 1) | i. i < k}"

lemma lex_meta_of: "\<exists>fa. lex_meta = Some fa \<and> lexes fa (meta_lexemes (length meta_chars))"
proof -
  let ?f = "\<lambda>i lex_metachars. do {
     c \<leftarrow> rd meta_chars i;
     lex_metachar \<leftarrow> make_char_single_nfa c (tok_number TOK_CHAR + i + 1);
     if i \<noteq> 0 then unite lex_metachars lex_metachar else Some lex_metachar
   }"
  have "\<exists>fa. for_range 0 (asize meta_chars) ?f empty_fa = Some fa \<and>
      (\<lambda>i fa. i \<noteq> 0 \<longrightarrow> lexes fa (meta_lexemes (nat i))) (asize meta_chars) fa"
  proof (rule for_range_rule)
    fix i fa assume i: "0 \<le> i" "i < asize meta_chars" and fa: "i \<noteq> 0 \<longrightarrow> lexes fa (meta_lexemes (nat i))"
    let ?c = "meta_chars ! nat i"
    have n: "nat i < length meta_chars" "int (nat i) = i" "nat (i + 1) = Suc (nat i)"
      using i by (auto simp: asize_def)
    have "?c \<in> set inv_chartab" using n(1) meta_chars_table(1) by auto
    then obtain s where s: "make_char_single_nfa ?c (i + 1) = Some s" "regex_fa (i + 1) s {[symbol_of ?c]}"
      using single_char [of ?c "i + 1"] i(1) by auto
    note sl = lexes_regex [OF s(2)]
    have rd: "rd meta_chars i = Some ?c" using rd_int [OF n(1)] n(2) by simp
    have next_set: "meta_lexemes (Suc (nat i)) = meta_lexemes (nat i) \<union> {[symbol_of ?c]} \<times> {i + 1}"
      using i(1) by (auto simp: meta_lexemes_def less_Suc_eq)
    show "\<exists>fa'. ?f i fa = Some fa' \<and> (i + 1 \<noteq> 0 \<longrightarrow> lexes fa' (meta_lexemes (nat (i + 1))))"
    proof (cases "i = 0")
      case True
      have "meta_lexemes 0 = {}" by (simp add: meta_lexemes_def)
      then show ?thesis using True rd s(1) sl next_set by simp
    next
      case False
      then obtain out where "unite fa s = Some out" "lexes out (meta_lexemes (nat i) \<union> {[symbol_of ?c]} \<times> {i + 1})"
        using lexes_unite [OF _ sl] fa by blast
      then show ?thesis using False rd s(1) next_set n(3) by (simp add: add.commute)
    qed
  qed simp_all
  moreover have "asize meta_chars \<noteq> 0" "nat (asize meta_chars) = length meta_chars"
    by (simp_all add: asize_def meta_chars_def)
  ultimately show ?thesis unfolding lex_meta_def by auto
qed

text \<open>The words of the lexer, by their characters.\<close>

lemma build_lexer_words:
  "\<exists>fa. build_lexer = Some fa \<and> wf_fa fa \<and> get_determinism fa \<and> get_nsymbols fa = NCHARS \<and>
     (\<forall>w tok. recognizes fa w tok \<longleftrightarrow>
        (\<exists>c \<in> set inv_chartab - set meta_chars. w = [symbol_of c] \<and> tok = tok_number TOK_CHAR) \<or>
        (\<exists>c \<in> set inv_chartab. w = [symbol_of 92, symbol_of c] \<and> tok = tok_number TOK_CHAR) \<or>
        (\<exists>i < length meta_chars. w = [symbol_of (meta_chars ! i)] \<and> tok = int i + 1))"
proof -
  obtain al where al: "for_range 0 98 (\<lambda>i s. Some (set_insert i s)) [] = Some al" "distinct al" "set al = {0..97}"
    using all_chars_of by blast
  obtain nm where nm: "run_for meta_chars (\<lambda>c s. do { x \<leftarrow> get_symbol c; Some (remove1 x s) }) al = Some nm"
    "distinct nm" "set nm = {0..97} - int ` symbol_of ` set meta_chars" using nonmeta_of [OF al(2,3)] by blast
  let ?set = "\<lambda>xs. fa_of 98 True [symbol_row 98 xs, blank 98 True] [- 1, 0]"
  have nonmeta: "make_set_nfa 98 nm 0 = Some (?set nm)" using make_set_nfa_of [of 98 nm 0] nm(2,3) by simp
  have any: "make_set_nfa 98 al 0 = Some (?set al)" using make_set_nfa_of [of 98 al 0] al(2,3) by simp
  have L1: "regex_fa 0 (?set nm) {[x] |x. int x \<in> set nm}" using regex_symbols [of nm 0] nm(3) by simp
  have L2: "regex_fa 0 (?set al) {[x] |x. int x \<in> set al}" using regex_symbols [of al 0] al(3) by simp
  obtain sl where sl: "make_char_single_nfa 92 0 = Some sl" "regex_fa 0 sl {[symbol_of 92]}"
    using single_char [OF meta_chars_table(4), of 0] by auto
  obtain es where es: "fa_concat sl (?set al) 0 = Some es"
    "regex_fa 0 es {v1 @ v2 |v1 v2. v1 \<in> {[symbol_of 92]} \<and> v2 \<in> {[x] |x. int x \<in> set al}}"
    using regex_concat [OF sl(2) L2] by auto
  obtain ch where ch: "unite (?set nm) es = Some ch" and chL: "regex_fa 0 ch ({[x] |x. int x \<in> set nm} \<union>
      {v1 @ v2 |v1 v2. v1 \<in> {[symbol_of 92]} \<and> v2 \<in> {[x] |x. int x \<in> set al}})"
    using regex_unite [OF L1 es(2)] by auto
  obtain me where me: "lex_meta = Some me" "lexes me (meta_lexemes (length meta_chars))" using lex_meta_of by blast
  define L where "L = ({[x] |x. int x \<in> set nm} \<union>
      {v1 @ v2 |v1 v2. v1 \<in> {[symbol_of 92]} \<and> v2 \<in> {[x] |x. int x \<in> set al}}) \<times> {0} \<union>
      meta_lexemes (length meta_chars)"
  obtain un where un: "unite ch me = Some un" "lexes un L"
    using lexes_unite [OF lexes_regex [OF chL] me(2)] unfolding L_def by blast
  have "symbol_of (meta_chars ! i) = symbol_of (meta_chars ! j) \<Longrightarrow> i = j"
    if "i < length meta_chars" "j < length meta_chars" for i j
    using that meta_chars_table(1,2) symbol_of_inject by (metis nth_eq_iff_index_eq nth_mem subsetD)
  then have "\<forall>w s t. (w, s) \<in> L \<longrightarrow> (w, t) \<in> L \<longrightarrow> s = t"
    unfolding L_def meta_lexemes_def using nm(3) by auto
  from lexes_result [OF un(2) this] obtain d out where out: "make_deterministic un = Some d" "simplify d = Some out"
    "get_determinism out" "lexes out L" by blast
  have build: "build_lexer = Some out"
    using al(1) nm(1) nonmeta any sl(1) es(1) ch me(1) un(1) out(1,2)
    unfolding build_lexer_def length_chartabs tok_number.simps me(1) by simp
  have "(w, tok) \<in> L \<longleftrightarrow>
      (\<exists>c \<in> set inv_chartab - set meta_chars. w = [symbol_of c] \<and> tok = 0) \<or>
      (\<exists>c \<in> set inv_chartab. w = [symbol_of 92, symbol_of c] \<and> tok = 0) \<or>
      (\<exists>i < length meta_chars. w = [symbol_of (meta_chars ! i)] \<and> tok = int i + 1)" for w tok
  proof -
    have "(w, tok) \<in> L \<longleftrightarrow> (\<exists>x. w = [x] \<and> int x \<in> set nm) \<and> tok = 0 \<or>
        (\<exists>v. w = symbol_of 92 # v \<and> (\<exists>x. v = [x] \<and> int x \<in> set al)) \<and> tok = 0 \<or>
        (\<exists>i < length meta_chars. w = [symbol_of (meta_chars ! i)] \<and> tok = int i + 1)"
      by (auto simp: L_def meta_lexemes_def)
    then show ?thesis unfolding symbol_words [OF al(3) nm(3)] by blast
  qed
  then show ?thesis
    using build out(3,4) by (intro exI [of _ out]) (simp add: lexes_def length_chartabs)
qed

section \<open>The regular expressions of the tokens\<close>

text \<open>The leaves of a parse tree, and the parse trees of the regular expressions that \<open>build_language\<close>
  gives the tokens.\<close>

primrec leaves :: "parse_tree \<Rightarrow> (regex_tok \<times> int list) list" where
  "leaves (Shift token text) = [(token, text)]"
| "leaves (Reduce production ts) = concat (map leaves ts)"

definition concat_tree :: "parse_tree \<Rightarrow> parse_tree" where
  "concat_tree single = Reduce PROD_CONCAT_DECAY [Reduce PROD_QUAL_DECAY [single]]"

definition escaped_tree :: "int \<Rightarrow> parse_tree" where
  "escaped_tree c = Reduce PROD_SINGLE_CHAR [Shift TOK_CHAR [92, c]]"

definition item_tree :: "int \<Rightarrow> parse_tree" where
  "item_tree c = Reduce PROD_SET_ITEM_CHAR [Shift TOK_CHAR [92, c]]"

primrec items_tree :: "parse_tree \<Rightarrow> int list \<Rightarrow> parse_tree" where
  "items_tree t [] = t"
| "items_tree t (c # cs) = items_tree (Reduce PROD_SET_ITEMS_ADD [t, item_tree c]) cs"

definition not_special_tree :: parse_tree where
  "not_special_tree = Reduce PROD_SINGLE_SET [Reduce PROD_SET_NEGATIVE [Reduce PROD_NEGATIVE_SET
     [Shift TOK_LRANGE [91], Shift TOK_NEGATE [94],
      items_tree (Reduce PROD_SET_ITEMS_DECAY [item_tree 92]) meta_chars, Shift TOK_RRANGE [93]]]]"

fun token_tree :: "regex_tok \<Rightarrow> parse_tree" where
  "token_tree TOK_CHAR = Reduce PROD_REGEX [Reduce PROD_UNION [Reduce PROD_UNION_DECAY [concat_tree not_special_tree],
     Shift TOK_UNION [124],
     Reduce PROD_CONCAT [concat_tree (escaped_tree 92), Reduce PROD_QUAL_DECAY [Reduce PROD_ANY [Shift TOK_DOT [46]]]]]]"
| "token_tree token = Reduce PROD_REGEX [Reduce PROD_UNION_DECAY [concat_tree (escaped_tree
     (of_char (snd (regex_token token) ! 1)))]]"

lemmas token_trees = concat_tree_def escaped_tree_def item_tree_def not_special_tree_def meta_chars_def

lemma token_tree_grammar:
  "grammar_tree (token_tree token)" "tree_symbol (token_tree token) = ''regex''"
  "concat (map snd (leaves (token_tree token))) = map of_char (snd (regex_token token))"
  by (cases token; simp add: token_trees char_text_def table_char_def inv_chartab_def escaped_def)+

lemma items_tree_chars: "chars_of (items_tree t cs) = chars_of t \<union> set cs"
  by (induction cs arbitrary: t) (auto simp: item_tree_def)

lemma token_tree_char_language:
  "w \<in> language_of (token_tree TOK_CHAR) \<longleftrightarrow>
     (\<exists>c \<in> set inv_chartab - insert 92 (set meta_chars). w = [symbol_of c]) \<or>
     (\<exists>c \<in> set inv_chartab. w = [symbol_of 92, symbol_of c])"
proof -
  have "x < 98 \<longleftrightarrow> (\<exists>c \<in> set inv_chartab. x = symbol_of c)" for x
    using symbol_of_inv [of x] table_charD(4) by metis
  then show ?thesis
    by (auto simp: concat_tree_def escaped_tree_def not_special_tree_def items_tree_chars item_tree_def)
qed

lemma token_tree_meta_language:
  "token \<noteq> TOK_CHAR \<Longrightarrow> language_of (token_tree token) = {[symbol_of (of_char (snd (regex_token token) ! 1))]}"
  by (cases token) (simp_all add: concat_tree_def escaped_tree_def)

section \<open>The lexer and the grammar\<close>

definition lexeme :: "regex_tok \<Rightarrow> nat list \<Rightarrow> bool" where
  "lexeme token w \<longleftrightarrow> (if token = TOK_CHAR
     then (\<exists>c \<in> set inv_chartab - set meta_chars. w = [symbol_of c]) \<or>
       (\<exists>c \<in> set inv_chartab. w = [symbol_of 92, symbol_of c])
     else w = [symbol_of (meta_chars ! nat (tok_number token - 1))])"

lemma ex_tok: "(\<exists>t. P t) \<longleftrightarrow> P TOK_CHAR \<or> P TOK_DOT \<or> P TOK_LRANGE \<or> P TOK_RRANGE \<or> P TOK_LPAREN \<or> P TOK_RPAREN \<or>
     P TOK_UNION \<or> P TOK_RANGE \<or> P TOK_NEGATE \<or> P TOK_STAR \<or> P TOK_PLUS \<or> P TOK_MAYBE"
proof
  assume "\<exists>t. P t"
  then obtain t where "P t" ..
  then show "P TOK_CHAR \<or> P TOK_DOT \<or> P TOK_LRANGE \<or> P TOK_RRANGE \<or> P TOK_LPAREN \<or> P TOK_RPAREN \<or>
     P TOK_UNION \<or> P TOK_RANGE \<or> P TOK_NEGATE \<or> P TOK_STAR \<or> P TOK_PLUS \<or> P TOK_MAYBE"
    by (cases t) simp_all
qed (elim disjE; rule exI; assumption)

lemma tok_numbers:
  "token \<noteq> TOK_CHAR \<Longrightarrow> 0 < tok_number token \<and> tok_number token \<le> 11"
  "0 < n \<Longrightarrow> n \<le> 11 \<Longrightarrow> \<exists>token. token \<noteq> TOK_CHAR \<and> tok_number token = n"
proof -
  show "token \<noteq> TOK_CHAR \<Longrightarrow> 0 < tok_number token \<and> tok_number token \<le> 11" by (cases token) simp_all
  show "0 < n \<Longrightarrow> n \<le> 11 \<Longrightarrow> \<exists>token. token \<noteq> TOK_CHAR \<and> tok_number token = n" unfolding ex_tok by simp presburger
qed

lemma ex_char: "(\<exists>t. n = tok_number t \<and> (if t = TOK_CHAR then C else Q t)) \<longleftrightarrow>
     n = tok_number TOK_CHAR \<and> C \<or> (\<exists>t. t \<noteq> TOK_CHAR \<and> n = tok_number t \<and> Q t)"
  by auto

lemma lexeme_numbers:
  "(\<exists>c \<in> set inv_chartab - set meta_chars. w = [symbol_of c] \<and> n = tok_number TOK_CHAR) \<or>
   (\<exists>c \<in> set inv_chartab. w = [symbol_of 92, symbol_of c] \<and> n = tok_number TOK_CHAR) \<or>
   (\<exists>i < length meta_chars. w = [symbol_of (meta_chars ! i)] \<and> n = int i + 1) \<longleftrightarrow>
   (\<exists>token. n = tok_number token \<and> lexeme token w)"
proof -
  have "(\<exists>i < length meta_chars. w = [symbol_of (meta_chars ! i)] \<and> n = int i + 1) \<longleftrightarrow>
      (\<exists>token. token \<noteq> TOK_CHAR \<and> n = tok_number token \<and> w = [symbol_of (meta_chars ! nat (n - 1))])"
    (is "?L \<longleftrightarrow> ?R")
  proof
    assume ?L
    then obtain i where i: "i < length meta_chars" "w = [symbol_of (meta_chars ! i)]" "n = int i + 1" by blast
    moreover have "length meta_chars = 11" by (simp add: meta_chars_def)
    ultimately show ?R using tok_numbers(2) [of n] by auto
  next
    assume ?R
    then obtain token where t: "token \<noteq> TOK_CHAR" "n = tok_number token" "w = [symbol_of (meta_chars ! nat (n - 1))]"
      by blast
    moreover have "length meta_chars = 11" by (simp add: meta_chars_def)
    ultimately show ?L using tok_numbers(1) [OF t(1)] by (intro exI [of _ "nat (n - 1)"]) auto
  qed
  moreover have "(\<exists>token. token \<noteq> TOK_CHAR \<and> n = tok_number token \<and> w = [symbol_of (meta_chars ! nat (n - 1))]) \<longleftrightarrow>
      (\<exists>token. token \<noteq> TOK_CHAR \<and> n = tok_number token \<and>
        w = [symbol_of (meta_chars ! nat (tok_number token - 1))])" by (simp cong: conj_cong)
  moreover have "(\<exists>c \<in> S. P c \<and> m) \<longleftrightarrow> m \<and> (\<exists>c \<in> S. P c)" for m P and S :: "int set" by blast
  ultimately show ?thesis unfolding lexeme_def ex_char by (simp only:) blast
qed

text \<open>What is a token for the lexer and for the regular expression of the token.\<close>

lemma lexeme_grammar:
  "lexeme token w \<longleftrightarrow> w \<in> language_of (token_tree token) \<and> (token, w) \<noteq> (TOK_LRANGE, [symbol_of 93]) \<or>
     (token, w) \<in> {(TOK_CHAR, [symbol_of 92]), (TOK_LRANGE, [symbol_of 91])}"
proof (cases "token = TOK_CHAR")
  case True
  show ?thesis unfolding True lexeme_def token_tree_char_language using meta_chars_table(3,4) by auto
next
  case False
  then show ?thesis unfolding token_tree_meta_language [OF False]
    by (cases token) (simp_all add: lexeme_def meta_chars_def escaped_def)
qed

lemma leaf_texts:
  "\<forall>(tok, text) \<in> set (leaves (token_tree token)).
     if tok = TOK_CHAR then text \<in> set (map (\<lambda>c. [92, c]) (92 # meta_chars))
     else text = [meta_chars ! nat (tok_number tok - 1)]"
  by (cases token; simp add: token_trees escaped_def)

lemma token_tree_leaves:
  assumes "(tok, text) \<in> set (leaves (token_tree token))"
  shows "lexeme tok (map symbol_of text)"
proof -
  have "set (92 # meta_chars) \<subseteq> set inv_chartab" using meta_chars_table(1,4) by simp
  then show ?thesis using bspec [OF leaf_texts assms] by (auto simp: lexeme_def split: if_splits)
qed

text \<open>C36.  The lexer of regular expressions and the regular expressions of its tokens (functional).  The
  automaton that \<open>build_lexer\<close> makes by hand is well-formed and deterministic.  The regular expressions that
  \<open>build_language\<close> gives the twelve tokens are read by this lexer and the grammar as the trees
  \<open>token_tree\<close>, and the lexer gives a word a token exactly if the regular expression of the token matches
  the word, with three exceptions: it gives \<open>TOK_CHAR\<close> to a backslash alone, which the regular
  expression (and its comment) excludes; it gives \<open>TOK_LRANGE\<close> to an opening bracket and not to a closing
  one, whereas the regular expression of that token is a closing bracket.\<close>

theorem build_lexer_tokens:
  "\<exists>fa. build_lexer = Some fa \<and> wf_fa fa \<and> get_determinism fa \<and> get_nsymbols fa = NCHARS \<and>
     (\<forall>token. grammar_tree (token_tree token) \<and> tree_symbol (token_tree token) = ''regex'' \<and>
       concat (map snd (leaves (token_tree token))) = map of_char (snd (regex_token token)) \<and>
       list_all (\<lambda>(tok, text). recognizes fa (map symbol_of text) (tok_number tok)) (leaves (token_tree token))) \<and>
     (\<forall>w n. recognizes fa w n \<longleftrightarrow> (\<exists>token. n = tok_number token \<and>
       (w \<in> language_of (token_tree token) \<and> (token, w) \<noteq> (TOK_LRANGE, [symbol_of 93]) \<or>
        (token, w) \<in> {(TOK_CHAR, [symbol_of 92]), (TOK_LRANGE, [symbol_of 91])})))"
proof -
  obtain fa where fa: "build_lexer = Some fa" "wf_fa fa" "get_determinism fa" "get_nsymbols fa = NCHARS"
    "\<forall>w n. recognizes fa w n \<longleftrightarrow> (\<exists>token. n = tok_number token \<and> lexeme token w)"
    using build_lexer_words unfolding lexeme_numbers by blast
  have leaf: "(tok, xs) \<in> set (leaves (token_tree token)) \<Longrightarrow> recognizes fa (map symbol_of xs) (tok_number tok)"
    for token tok xs
    using fa(5) token_tree_leaves [of tok xs token] by blast
  have "list_all (\<lambda>(tok, text). recognizes fa (map symbol_of text) (tok_number tok)) (leaves (token_tree token))"
    for token by (auto simp: list_all_iff leaf)
  then show ?thesis
    by (intro exI [of _ fa] conjI allI token_tree_grammar fa(1-4) fa(5) [unfolded lexeme_grammar, rule_format]) simp
qed

end
