(* ===== verification/Chains.thy ===== *)
theory Chains
  imports Simplex
begin

text \<open>
  Oriented chains: the sums of oriented edges or triangles that bound a set of triangles or tetrahedra.

  A chain maps a list of vertices to an integer; an oriented simplex counts 1 on its even permutations and
  -1 on its odd ones, so that two copies with opposite orientations cancel and a simplex with a repeated
  vertex counts nothing.  \<open>facets\<close> are the sides of a simplex by \<open>simplex_down_template\<close>; \<open>bounds\<close> says that
  some sides, with their orientations, are what is left of the sides of some cells.  A chain identity on
  vertex numbers \<open>0, 1, ...\<close> is checked by evaluation and holds after any renaming of the vertices
  (\<open>bounds_rename\<close>), which is how the theorems on the templates of mesh modification are proved.
\<close>

fun even_perms :: "'a list \<Rightarrow> 'a list list" where
  "even_perms [a, b] = [[a, b]]"
| "even_perms [a, b, c] = [[a, b, c], [b, c, a], [c, a, b]]"
| "even_perms _ = []"

fun odd_perms :: "'a list \<Rightarrow> 'a list list" where
  "odd_perms [a, b] = [[b, a]]"
| "odd_perms [a, b, c] = [[b, a, c], [a, c, b], [c, b, a]]"
| "odd_perms _ = []"

definition times :: "'a list \<Rightarrow> 'a list list \<Rightarrow> int" where
  "times f ps = (\<Sum>p\<leftarrow>ps. if p = f then 1 else 0)"

definition orient :: "'a list \<Rightarrow> 'a list \<Rightarrow> int" where
  "orient g f = times f (even_perms g) - times f (odd_perms g)"

definition chain :: "'a list list \<Rightarrow> 'a list \<Rightarrow> int" where
  "chain gs f = (\<Sum>g\<leftarrow>gs. orient g f)"

lemma chain_simps [simp]:
  "chain [] f = 0" "chain (g # gs) f = orient g f + chain gs f" "chain (gs @ hs) f = chain gs f + chain hs f"
  by (simp_all add: chain_def)

lemma chain_concat: "chain (concat gss) f = (\<Sum>gs\<leftarrow>gss. chain gs f)"
  by (induction gss) simp_all

lemma perms_map:
  "even_perms (map \<phi> g) = map (map \<phi>) (even_perms g)" "odd_perms (map \<phi> g) = map (map \<phi>) (odd_perms g)"
  by (cases g rule: even_perms.cases; simp)+

lemma times_outside: "f \<notin> set ps \<Longrightarrow> times f ps = 0"
  unfolding times_def by (induction ps) auto

lemma orient_outside: "f \<notin> set (even_perms g) \<Longrightarrow> f \<notin> set (odd_perms g) \<Longrightarrow> orient g f = 0"
  by (simp add: orient_def times_outside)

definition support :: "'a list list \<Rightarrow> 'a list list" where
  "support gs = concat (map (\<lambda>g. even_perms g @ odd_perms g) gs)"

lemma chain_outside: "f \<notin> set (support gs) \<Longrightarrow> chain gs f = 0"
  by (induction gs) (auto simp: support_def orient_outside)

text \<open>Equality of chains is decidable.\<close>

definition same_chain :: "'a list list \<Rightarrow> 'a list list \<Rightarrow> bool" where
  "same_chain gs hs \<longleftrightarrow> (\<forall>f \<in> set (support gs @ support hs). chain gs f = chain hs f)"

lemma same_chain_iff: "same_chain gs hs \<longleftrightarrow> chain gs = chain hs"
proof
  assume same: "same_chain gs hs"
  show "chain gs = chain hs"
  proof
    fix f show "chain gs f = chain hs f"
      using same chain_outside [of f gs] chain_outside [of f hs]
      by (cases "f \<in> set (support gs @ support hs)") (auto simp: same_chain_def)
  qed
qed (simp add: same_chain_def)

section \<open>Renaming of vertices\<close>

lemma times_map:
  assumes "finite F" "set ps \<subseteq> F"
  shows "times f (map (map \<phi>) ps) = (\<Sum>p \<in> F. (if map \<phi> p = f then 1 else 0) * times p ps)"
  using assms(2)
proof (induction ps)
  case Nil
  show ?case by (simp add: times_def)
next
  case (Cons q ps)
  have "(\<Sum>p \<in> F. (if map \<phi> p = f then 1 else 0) * times p (q # ps)) =
      (\<Sum>p \<in> F. (if q = p then (if map \<phi> p = f then 1 else 0) else 0) + (if map \<phi> p = f then 1 else 0) * times p ps)"
    by (intro sum.cong) (auto simp: times_def algebra_simps)
  also have "\<dots> = (if map \<phi> q = f then 1 else 0) + (\<Sum>p \<in> F. (if map \<phi> p = f then 1 else 0) * times p ps)"
    using Cons.prems assms(1) by (simp add: sum.distrib sum.delta)
  finally show ?case using Cons by (simp add: times_def)
qed

lemma orient_map:
  assumes F: "finite F" "set (even_perms g) \<subseteq> F" "set (odd_perms g) \<subseteq> F"
  shows "orient (map \<phi> g) f = (\<Sum>p \<in> F. (if map \<phi> p = f then 1 else 0) * orient g p)"
  unfolding orient_def perms_map times_map [OF F(1,2)] times_map [OF F(1,3)]
  by (simp add: sum_subtractf [symmetric] algebra_simps)

lemma chain_map:
  assumes F: "finite F" "set (support gs) \<subseteq> F"
  shows "chain (map (map \<phi>) gs) f = (\<Sum>p \<in> F. (if map \<phi> p = f then 1 else 0) * chain gs p)"
  using F(2)
proof (induction gs)
  case (Cons g gs)
  then have "set (even_perms g) \<subseteq> F" "set (odd_perms g) \<subseteq> F" "set (support gs) \<subseteq> F" by (auto simp: support_def)
  then show ?case using Cons.IH orient_map [OF F(1), of g \<phi> f]
    by (simp add: sum.distrib [symmetric] algebra_simps)
qed simp

lemma chain_rename:
  assumes "chain gs = chain hs"
  shows "chain (map (map \<phi>) gs) = chain (map (map \<phi>) hs)"
proof
  fix f
  let ?F = "set (support gs) \<union> set (support hs)"
  show "chain (map (map \<phi>) gs) f = chain (map (map \<phi>) hs) f"
    using chain_map [of ?F gs \<phi> f] chain_map [of ?F hs \<phi> f] assms by simp
qed

section \<open>Sides of cells\<close>

text \<open>The sides of a simplex, by the template.\<close>

definition facets :: "int \<Rightarrow> 'a list \<Rightarrow> 'a list list" where
  "facets d cell = map (\<lambda>s. map (\<lambda>i. cell ! nat (simplex_down_template d (d - 1) s i)) [0..d - 1]) [0..d]"

definition boundary :: "int \<Rightarrow> 'a list list \<Rightarrow> 'a list list" where
  "boundary d cells = concat (map (facets d) cells)"

text \<open>The sides \<open>sides\<close> are the oriented boundary of \<open>cells\<close>.\<close>

definition bounds :: "int \<Rightarrow> 'a list list \<Rightarrow> 'a list list \<Rightarrow> bool" where
  "bounds d cells sides \<longleftrightarrow> chain (boundary d cells) = chain sides"

lemma facets_list: "facets 2 [a, b, c] = [[a, b], [b, c], [c, a]]"
  "facets 3 [a, b, c, e] = [[a, c, b], [a, b, e], [b, c, e], [c, a, e]]"
  by (simp_all add: facets_def simplex_down_template_def upto.simps)

lemma bounds_code: "bounds d cells sides \<longleftrightarrow> same_chain (boundary d cells) sides"
  by (simp add: bounds_def same_chain_iff)

lemma facets_rename:
  assumes "d = 2 \<and> length cell = 3 \<or> d = 3 \<and> length cell = 4"
  shows "facets d (map \<phi> cell) = map (map \<phi>) (facets d cell)"
proof -
  consider a b c where "d = 2" "cell = [a, b, c]" | a b c e where "d = 3" "cell = [a, b, c, e]"
    using assms by (auto simp: length_Suc_conv eval_nat_numeral)
  then show ?thesis by cases (simp_all add: facets_list)
qed

lemma boundary_rename:
  assumes "d = 2 \<or> d = 3" "\<forall>cell \<in> set cells. length cell = nat d + 1"
  shows "boundary d (map (map \<phi>) cells) = map (map \<phi>) (boundary d cells)"
  using assms by (auto simp: boundary_def map_concat facets_rename intro!: arg_cong [of _ _ concat])

lemma bounds_rename:
  assumes "bounds d cells sides" "d = 2 \<or> d = 3" "\<forall>cell \<in> set cells. length cell = nat d + 1"
  shows "bounds d (map (map \<phi>) cells) (map (map \<phi>) sides)"
  using chain_rename [of "boundary d cells" sides \<phi>] assms(1) boundary_rename [OF assms(2,3), of \<phi>]
  unfolding bounds_def by simp

lemma boundary_append: "boundary d (xs @ ys) = boundary d xs @ boundary d ys"
  by (simp add: boundary_def)

lemma bounds_append: "bounds d xs s \<Longrightarrow> bounds d ys t \<Longrightarrow> bounds d (xs @ ys) (s @ t)"
  unfolding bounds_def boundary_append by (rule ext) simp

lemma bounds_concat:
  "(\<And>x. x \<in> set xs \<Longrightarrow> bounds d (f x) (g x)) \<Longrightarrow> bounds d (concat (map f xs)) (concat (map g xs))"
proof (induction xs)
  case Nil
  show ?case by (simp add: bounds_def boundary_def)
next
  case (Cons x xs)
  then show ?case by (simp add: bounds_append)
qed

end
