(* ===== verification/Local_Arrays.thy ===== *)
theory Local_Arrays
  imports Neighbors Chains
begin

text \<open>
  The small local arrays of the kernels that build connectivity: \<open>gather\<close> reads the vertices of one entity
  from an array of all of them (\<open>gather_verts\<close>, \<open>gather_down\<close> of \<open>src/src/Omega_h_adj.hpp\<close> and the loops that
  copy a row), \<open>put\<close> writes a local row into the array of the new entities.
\<close>

definition gather :: "'a list \<Rightarrow> lo \<Rightarrow> lo \<Rightarrow> 'a list option" where
  "gather xs b n = those (map (\<lambda>i. rd xs (b + i)) [0..n - 1])"

definition put :: "'a option list \<Rightarrow> lo \<Rightarrow> 'a list \<Rightarrow> 'a option list option" where
  "put s p vs = for_range 0 (asize vs) (\<lambda>j s. do { v \<leftarrow> rd vs j; wr s (p + j) (Some v) }) s"

lemma gather_list:
  assumes "b + length ys \<le> length xs" "\<And>k. k < length ys \<Longrightarrow> xs ! (b + k) = ys ! k"
  shows "gather xs (int b) (int (length ys)) = Some ys"
proof -
  have "map (\<lambda>i. rd xs (int b + i)) [0..int (length ys) - 1] = map Some ys"
  proof (rule nth_equalityI)
    fix k assume "k < length (map (\<lambda>i. rd xs (int b + i)) [0..int (length ys) - 1])"
    then have k: "k < length ys" by simp
    have "rd xs (int (b + k)) = Some (ys ! k)" using assms k by (subst rd_int) simp_all
    then show "map (\<lambda>i. rd xs (int b + i)) [0..int (length ys) - 1] ! k = map Some ys ! k" using k by simp
  qed simp
  then show ?thesis by (simp add: gather_def those_map_Some)
qed

lemma gather_row:
  assumes R: "\<forall>r \<in> set R. length r = w" and a: "a < length R"
  shows "gather (concat R) (int a * int w) (int w) = Some (R ! a)"
proof -
  have len: "length (R ! a) = w" using R a by simp
  have at: "a * w + k < length (concat R) \<and> concat R ! (a * w + k) = R ! a ! k" if "k < w" for k
    using concat_same_nth [OF R a that] by simp
  have "gather (concat R) (int (a * w)) (int (length (R ! a))) = Some (R ! a)"
  proof (rule gather_list)
    show "a * w + length (R ! a) \<le> length (concat R)"
      using at [of "w - 1"] len a R length_concat_same [of R w] mult_le_mono1 [of "Suc a" "length R" w] by simp
    show "concat R ! (a * w + k) = R ! a ! k" if "k < length (R ! a)" for k using at that len by simp
  qed
  then show ?thesis using len by simp
qed

lemma write_loop:
  assumes "\<And>j. j < n \<Longrightarrow> g (int j) = Some (h j)" and "p + n \<le> length s"
  shows "for_range 0 (int n) (\<lambda>j s. do { v \<leftarrow> g j; wr s (int p + j) (Some v) }) s = Some (overwrite s p (map h [0..<n]))"
proof -
  have step: "(do { v \<leftarrow> g (0 + int j); wr t (int p + (0 + int j)) (Some v) }) = Some (overwrite t (p + 1 * j) [h j])"
    if "j < n" "length t = length s" for j and t :: "'a option list"
  proof -
    have "wr t (int (p + j)) (Some (h j)) = Some (t[p + j := Some (h j)])" using that assms(2) by (intro wr_int) simp
    moreover have "t[p + j := Some (h j)] = overwrite t (p + j) [h j]"
      using overwrite_snoc [of "p + j" "[]" t "h j"] that assms(2) by simp
    ultimately show ?thesis using assms(1) [OF that(1)] by simp
  qed
  have "for_range 0 (0 + int n) (\<lambda>j s. do { v \<leftarrow> g j; wr s (int p + j) (Some v) }) s =
      Some (overwrite s p (concat (map (\<lambda>j. [h j]) [0..<n])))"
    by (rule block_loop [where w = 1 and m = "length s"]) (use step assms(2) in simp_all)
  then show ?thesis by (simp add: concat_map_single)
qed

lemma put_overwrite: "p + length vs \<le> length s \<Longrightarrow> put s (int p) vs = Some (overwrite s p vs)"
  using write_loop [of "length vs" "rd vs" "\<lambda>j. vs ! j" p s] by (simp add: put_def asize_def map_nth)

lemma gather_whole: "gather xs 0 (asize xs) = Some xs"
  using gather_list [of 0 xs xs] by (simp add: asize_def)

lemma row_start_same: "\<forall>r \<in> set R. length r = w \<Longrightarrow> k \<le> length R \<Longrightarrow> row_start R k = k * w"
  using length_concat_same [of "take k R" w] unfolding row_start_def by (auto dest: in_set_takeD)

lemma concat_rows: "concat (concat rss) = concat (map concat rss)"
  by (induction rss) simp_all

lemma row_start_scaled:
  assumes "k \<le> length TT" "\<forall>T \<in> set TT. \<forall>t \<in> set T. length t = w"
  shows "row_start (map concat TT) k = row_start TT k * w"
  using assms(1)
proof (induction k)
  case (Suc k)
  have "length (concat (TT ! k)) = length (TT ! k) * w"
    using assms(2) nth_mem [of k TT] Suc.prems by (intro length_concat_same) (auto simp: Suc_le_eq)
  then show ?case using Suc by (simp add: row_start_Suc algebra_simps)
qed simp

lemma wr_snoc:
  assumes "i = int (p + length xs)" "p + length xs < length s"
  shows "wr (overwrite s p xs) i (Some x) = Some (overwrite s p (xs @ [x]))"
  using assms overwrite_snoc [of p xs s x] wr_int [of "p + length xs" "overwrite s p xs" "Some x"] unfolding assms(1) by simp

lemma wr_2:
  assumes "p + 2 \<le> length s"
  shows "do { s \<leftarrow> wr s (int p + 0) (Some a); wr s (int p + 1) (Some b) } = Some (overwrite s p [a, b])"
  using assms wr_snoc [of "int p + 0" p "[]" s a] wr_snoc [of "int p + 1" p "[a]" s b] by simp

lemma wr_4:
  assumes "p + 4 \<le> length s"
  shows "do { s \<leftarrow> wr s (int p + 0) (Some a); s \<leftarrow> wr s (int p + 1) (Some b); s \<leftarrow> wr s (int p + 2) (Some c);
    wr s (int p + 3) (Some d) } = Some (overwrite s p [a, b, c, d])"
  using assms wr_snoc [of "int p + 0" p "[]" s a] wr_snoc [of "int p + 1" p "[a]" s b] wr_snoc [of "int p + 2" p "[a, b]" s c]
    wr_snoc [of "int p + 3" p "[a, b, c]" s d] by simp

lemma wr_8:
  assumes "p + 8 \<le> length s"
  shows "do { s \<leftarrow> wr s (int p + 0) (Some a); s \<leftarrow> wr s (int p + 1) (Some b); s \<leftarrow> wr s (int p + 2) (Some c);
    s \<leftarrow> wr s (int p + 3) (Some d); s \<leftarrow> wr s (int p + 4) (Some e); s \<leftarrow> wr s (int p + 5) (Some f);
    s \<leftarrow> wr s (int p + 6) (Some g); wr s (int p + 7) (Some h) } = Some (overwrite s p [a, b, c, d, e, f, g, h])"
  using assms wr_4 [of p s a b c d] wr_snoc [of "int p + 4" p "[a, b, c, d]" s e]
    wr_snoc [of "int p + 5" p "[a, b, c, d, e]" s f] wr_snoc [of "int p + 6" p "[a, b, c, d, e, f]" s g]
    wr_snoc [of "int p + 7" p "[a, b, c, d, e, f, g]" s h] wr_snoc [of "int p + 0" p "[]" s a] wr_snoc [of "int p + 1" p "[a]" s b]
    wr_snoc [of "int p + 2" p "[a, b]" s c] wr_snoc [of "int p + 3" p "[a, b, c]" s d] by simp

lemma fill_rows_same:
  assumes "0 \<le> n" and rows: "\<And>k. int k < n \<Longrightarrow> length (r k) = w"
    and step: "\<And>k s. int k < n \<Longrightarrow> length s = nat n * w \<Longrightarrow> f (int k) s = Some (overwrite s (k * w) (r k))"
  shows "do { s \<leftarrow> alloc (n * int w); s \<leftarrow> parallel_for n f s; freeze s } = Some (concat (map r [0..<nat n]))"
proof -
  let ?R = "map r [0..<nat n]"
  have same: "\<forall>x \<in> set ?R. length x = w" using rows by auto
  have len: "length (concat ?R) = nat n * w" using length_concat_same [OF same] by simp
  have "do { s \<leftarrow> parallel_for n f (fresh (int (length (concat ?R)))); freeze s } = Some (concat ?R)"
  proof (rule fill_rows_of)
    fix k and s :: "'a option list" assume "k < length ?R" and "length s = length (concat ?R)"
    then have k: "int k < n" "k < nat n" "length s = nat n * w" using len by auto
    then show "f (int k) s = Some (overwrite s (row_start ?R k) (?R ! k))"
      using step [OF k(1,3)] row_start_same [OF same, of k] by simp
  qed (use assms(1) in simp_all)
  moreover have "alloc (n * int w) = Some (fresh (int (length (concat ?R))) :: 'a option list)"
    using assms(1) unfolding len by simp
  ultimately show ?thesis by simp
qed

lemma div_below:
  assumes "0 < b" "a < c * b"
  shows "a div b < (c :: int)"
proof (rule ccontr)
  assume "\<not> a div b < c"
  then have "c * b \<le> a div b * b" using assms(1) by (intro mult_right_mono) simp_all
  also have "\<dots> \<le> a" using assms(1) div_mult_mod_eq [of a b] pos_mod_sign [of b a] by linarith
  finally show False using assms(2) by simp
qed

text \<open>A loop that appends \<open>c\<close> rows of width \<open>w\<close> per step.\<close>

lemma push_blocks:
  assumes "\<And>i k u. i \<in> set is \<Longrightarrow> (k + c) * w \<le> length s \<Longrightarrow> length u = length s \<Longrightarrow>
      f i (int k, u) = Some (int (k + c), overwrite u (k * w) (h i))"
    and "\<And>i. i \<in> set is \<Longrightarrow> length (h i) = c * w" and "(p + c * length is) * w \<le> length s"
  shows "run_for is f (int p, s) = Some (int (p + c * length is), overwrite s (p * w) (concat (map h is)))"
  using assms
proof (induction "is" rule: rev_induct)
  case Nil
  then show ?case by simp
next
  case (snoc i "is")
  let ?q = "p + c * length is" and ?u = "overwrite s (p * w) (concat (map h is))"
  have fits: "(?q + c) * w \<le> length s" using snoc.prems(3) by (simp add: algebra_simps)
  then have IH: "run_for is f (int p, s) = Some (int ?q, ?u)"
    using snoc.prems by (intro snoc.IH) (auto simp: algebra_simps)
  have len: "length (concat (map h is)) = c * length is * w"
    using length_concat_same [of "map h is" "c * w"] snoc.prems(2) by simp
  then have lu: "length ?u = length s" using fits by (simp add: algebra_simps)
  have "f i (int ?q, ?u) = Some (int (?q + c), overwrite ?u (?q * w) (h i))"
    using snoc.prems(1) [of i ?q ?u] fits lu by simp
  also have "overwrite ?u (?q * w) (h i) = overwrite s (p * w) (concat (map h (is @ [i])))"
    using overwrite_overwrite [of "p * w" "concat (map h is)" "h i" s] len fits snoc.prems(2) [of i]
    by (simp add: algebra_simps)
  finally show ?case unfolding run_for_append IH by (simp add: algebra_simps)
qed

lemma swap2_overwrite:
  assumes "p + 4 \<le> length s"
  shows "swap2 (overwrite s p [a, b, c, d]) (int p + 1) (int p + 2) = Some (overwrite s p [a, c, b, d])"
proof -
  have "nat (int p + 1) = Suc p" "nat (int p + 2) = Suc (Suc p)" by simp_all
  then show ?thesis
    using assms by (subst swap2_Some) (simp_all add: asize_def overwrite_def nth_append list_update_append)
qed

lemma rd_concat_row:
  assumes "\<forall>r \<in> set R. length r = w" "a < length R" "0 \<le> i" "i < int w"
  shows "rd (concat R) (int a * int w + i) = Some (R ! a ! nat i)"
proof -
  have "int a * int w + i = int (a * w + nat i)" using assms(3) by simp
  then show ?thesis using concat_same_nth [OF assms(1,2), of "nat i"] assms(3,4) rd_int [of "a * w + nat i" "concat R"] by simp
qed

text \<open>An upward adjacency as rows of uses: an entity and the code of the use.\<close>

definition adj_of_uses :: "(lo \<times> i8) list list \<Rightarrow> adj" where
  "adj_of_uses Z = adj_of (map (map fst) Z) (map (map snd) Z)"

lemma adj_of_uses_simps:
  "a2ab (adj_of_uses Z) = offsets (sizes Z)" "ab2b (adj_of_uses Z) = map fst (concat Z)"
  "adj_codes (adj_of_uses Z) = Some (map snd (concat Z))"
  by (simp_all add: adj_of_uses_def adj_of_def sizes_def comp_def map_concat)

lemma rd_use:
  assumes "e < length Z" "i \<in> set (cells Z e)"
  shows "rd (map fst (concat Z)) i = Some (fst (concat Z ! nat i))" "rd (map snd (concat Z)) i = Some (snd (concat Z ! nat i))"
  using rd_cells [OF assms] by (auto simp: rd_def asize_def nat_less_iff split: if_splits)

lemma then_freeze:
  assumes "do { s \<leftarrow> A; s \<leftarrow> B s; C s } = Some x"
  shows "do { s \<leftarrow> A; s \<leftarrow> B s; s \<leftarrow> C s; F s } = F x"
proof -
  obtain a b where "A = Some a" "B a = Some b" "C b = Some x" using assms by (auto simp: bind_eq_Some_conv)
  then show ?thesis by simp
qed

lemma then_freeze_after:
  assumes "do { s \<leftarrow> A; s \<leftarrow> B s; C s } = Some x" "L = Some l"
  shows "do { s \<leftarrow> A; s \<leftarrow> B s; l \<leftarrow> L; s \<leftarrow> C s; F l s } = F l x"
proof -
  obtain a b where "A = Some a" "B a = Some b" "C b = Some x" using assms(1) by (auto simp: bind_eq_Some_conv)
  then show ?thesis using assms(2) by simp
qed

lemma copy_block:
  assumes "q + w \<le> length xs" "p + w \<le> length s"
  shows "for_range 0 (int w) (\<lambda>j s. do { v \<leftarrow> rd xs (int q + j); wr s (int p + j) (Some v) }) s =
    Some (overwrite s p (take w (drop q xs)))"
proof -
  have "take w (drop q xs) = map (\<lambda>j. xs ! (q + j)) [0..<w]" using assms(1) by (intro nth_equalityI) simp_all
  moreover have "rd xs (int q + int j) = Some (xs ! (q + j))" if "j < w" for j
    using rd_int [of "q + j" xs] that assms(1) by simp
  ultimately show ?thesis using write_loop [of w "\<lambda>j. rd xs (int q + j)" "\<lambda>j. xs ! (q + j)" p s] assms(2) by simp
qed

text \<open>Copying the rows of one key behind those of another array.\<close>

lemma copy_rows_loop:
  assumes R: "\<forall>r \<in> set (concat R). length r = w" and k: "k < length R" and fits: "(p + length (R ! k)) * w \<le> length s"
  shows "run_for (cells R k) (\<lambda>i (q, s). do {
      s \<leftarrow> for_range 0 (int w) (\<lambda>j s. do { v \<leftarrow> rd (concat (concat R)) (i * int w + j); wr s (q * int w + j) (Some v) }) s;
      Some (q + 1, s)
    }) (int p, s) = Some (int (p + length (R ! k)), overwrite s (p * w) (concat (R ! k)))"
proof -
  have "run_for (cells R k) (\<lambda>i (q, s). do {
      s \<leftarrow> for_range 0 (int w) (\<lambda>j s. do { v \<leftarrow> rd (concat (concat R)) (i * int w + j); wr s (q * int w + j) (Some v) }) s;
      Some (q + 1, s)
    }) (int p, s) = Some (int (p + 1 * length (cells R k)), overwrite s (p * w) (concat (map (\<lambda>i. concat R ! nat i) (cells R k))))"
  proof (rule push_blocks)
    fix i assume i: "i \<in> set (cells R k)"
    have "0 \<le> i" "i < int (length (concat R))" using i row_fits [OF k] by (auto simp: cells_def)
    then obtain t where t: "i = int t" "t < length (concat R)" using zero_le_imp_eq_int [of i] by auto
    have row: "length (concat R ! t) = w" using R nth_mem [OF t(2)] by blast
    then show "length (concat R ! nat i) = 1 * w" using t(1) by simp
    fix q and u :: "'a option list" assume f: "(q + 1) * w \<le> length s" "length u = length s"
    have at: "take w (drop (t * w) (concat (concat R))) = concat R ! t" "t * w + w \<le> length (concat (concat R))"
    proof -
      have st: "row_start (concat R) t = t * w" using row_start_same [OF R, of t] t(2) by simp
      show "take w (drop (t * w) (concat (concat R))) = concat R ! t" using take_row [OF t(2)] row st by simp
      show "t * w + w \<le> length (concat (concat R))" using row_fits [OF t(2)] row st by simp
    qed
    have "for_range 0 (int w) (\<lambda>j s. do { v \<leftarrow> rd (concat (concat R)) (int (t * w) + j); wr s (int (q * w) + j) (Some v) }) u =
        Some (overwrite u (q * w) (concat R ! t))"
      using copy_block [OF at(2), of "q * w" u] f at(1) by (simp add: algebra_simps)
    then show "(case (int q, u) of (q, s) \<Rightarrow> do {
      s \<leftarrow> for_range 0 (int w) (\<lambda>j s. do { v \<leftarrow> rd (concat (concat R)) (i * int w + j); wr s (q * int w + j) (Some v) }) s;
      Some (q + 1, s)
    }) = Some (int (q + 1), overwrite u (q * w) (concat R ! nat i))" using t(1) by simp
  qed (use fits in simp)
  then show ?thesis using map_cells [OF k] by simp
qed

lemma offsets_times: "map (\<lambda>x. x * c) (offsets ds) = offsets (map (\<lambda>x. x * c) ds)"
proof (rule nth_equalityI)
  fix k assume "k < length (map (\<lambda>x. x * c) (offsets ds))"
  then show "map (\<lambda>x. x * c) (offsets ds) ! k = offsets (map (\<lambda>x. x * c) ds) ! k"
    by (simp add: nth_offsets take_map sum_list_mult_const)
qed simp

end
