(* ===== verification/Splits.thy ===== *)
theory Splits
  imports Local_Arrays Hypercube
begin

text \<open>
  From quadrilaterals to triangles, from hexahedra to tetrahedra (\<open>src/src/Omega_h_simplify.cpp\<close>).

  A face is split along the diagonal at its smallest vertex, so that the elements on both sides split it
  in the same way.  The pieces are shown to fill the element: their oriented boundary is that of the element
  with its faces split.  The routine that rotates a list of vertices overwrites what it has not copied yet
  (\<open>rot\<close>); where a rotation is needed the pieces lose vertices, which is proved too.
\<close>

section \<open>The operations\<close>

definition find_min_index :: "lo list \<Rightarrow> lo \<Rightarrow> lo option" where
  "find_min_index v n = do {
     v0 \<leftarrow> rd v 0;
     (min_i, min_v) \<leftarrow> for_range 1 n (\<lambda>i (min_i, min_v). do {
       x \<leftarrow> rd v i;
       Some (if x < min_v then (i, x) else (min_i, min_v))
     }) (0, v0);
     Some min_i
   }"

definition diag_lt :: "lo \<Rightarrow> lo \<Rightarrow> lo \<Rightarrow> lo \<Rightarrow> bool" where
  "diag_lt v_i v_j v_k v_l \<longleftrightarrow> min v_i v_j < min v_k v_l"

text \<open>The list that starts at \<open>b\<close>: a pointer into an array.\<close>

definition rot :: "lo list \<Rightarrow> lo \<Rightarrow> lo \<Rightarrow> lo list option" where
  "rot v b n = do {
     tmp \<leftarrow> rd v (b + (n - 1));
     v \<leftarrow> for_range 0 (n - 1) (\<lambda>i v. do { x \<leftarrow> rd v (b + i); wr v (b + (i + 1)) x }) v;
     wr v b tmp
   }"

definition rot_ntimes :: "lo list \<Rightarrow> lo \<Rightarrow> lo \<Rightarrow> lo \<Rightarrow> lo list option" where
  "rot_ntimes v b nv ntimes = for_range 0 ntimes (\<lambda>i v. rot v b nv) v"

definition rot_to_first :: "lo list \<Rightarrow> lo \<Rightarrow> lo \<Rightarrow> lo \<Rightarrow> lo list option" where
  "rot_to_first v b nv first = rot_ntimes v b nv ((nv - first) smod nv)"

definition table_entry :: "lo list list \<Rightarrow> lo \<Rightarrow> lo \<Rightarrow> lo option" where
  "table_entry T i j = do { r \<leftarrow> rd T i; rd r j }"

definition qtv2qqv :: "lo list list" where
  "qtv2qqv = [[0, 1, 2], [2, 3, 0]]"

definition tris_from_quads :: "lo list \<Rightarrow> lo list option" where
  "tris_from_quads qv2v = do {
     nq \<leftarrow> divide_no_remainder (asize qv2v) 4;
     let nt = nq * 2;
     tv2v \<leftarrow> alloc (nt * 3);
     tv2v \<leftarrow> parallel_for nq (\<lambda>q tv2v. do {
       let qv_begin = q * 4;
       qqv2v \<leftarrow> gather qv2v qv_begin 4;
       min_i \<leftarrow> find_min_index qqv2v 4;
       qqv2v \<leftarrow> rot_to_first qqv2v 0 4 min_i;
       for_range 0 2 (\<lambda>i tv2v. do {
         let t = q * 2 + i;
         let tv_begin = t * 3;
         for_range 0 3 (\<lambda>j tv2v. do {
           x \<leftarrow> table_entry qtv2qqv i j \<bind> rd qqv2v;
           wr tv2v (tv_begin + j) (Some x)
         }) tv2v
       }) tv2v
     }) tv2v;
     freeze tv2v
   }"

definition htv2hhv_0 :: "lo list list" where
  "htv2hhv_0 = [[0, 1, 2, 5], [0, 2, 7, 5], [0, 2, 3, 7], [0, 5, 7, 4], [2, 7, 5, 6]]"

definition htv2hhv_1 :: "lo list list" where
  "htv2hhv_1 = [[0, 5, 7, 4], [0, 1, 7, 5], [1, 6, 7, 5], [0, 7, 2, 3], [0, 7, 1, 2], [1, 7, 6, 2]]"

definition htv2hhv_2 :: "lo list list" where
  "htv2hhv_2 = [[0, 4, 5, 6], [0, 3, 7, 6], [0, 7, 4, 6], [0, 1, 2, 5], [0, 3, 6, 2], [0, 6, 5, 2]]"

definition htv2hhv_3 :: "lo list list" where
  "htv2hhv_3 = [[0, 2, 3, 6], [0, 3, 7, 6], [0, 7, 4, 6], [0, 5, 6, 4], [1, 5, 6, 0], [1, 6, 2, 0]]"

definition hex_flip_pairs :: "lo list list" where
  "hex_flip_pairs = [[0, 4], [3, 5], [1, 7], [2, 6]]"

definition flip_hex :: "lo list \<Rightarrow> lo list option" where
  "flip_hex hhv2v = for_range 0 4 (\<lambda>i hhv2v. do {
     a \<leftarrow> table_entry hex_flip_pairs i 0;
     b \<leftarrow> table_entry hex_flip_pairs i 1;
     swap2 hhv2v a b
   }) hhv2v"

definition hex_bur_faces :: "lo list list" where
  "hex_bur_faces = [[6, 5, 1, 2], [6, 2, 3, 7], [6, 7, 4, 5]]"

definition hex_bur_ring :: "lo list" where
  "hex_bur_ring = [1, 2, 3, 7, 5, 4]"

definition hex_bur_rot_ntimes :: "lo list \<Rightarrow> lo \<Rightarrow> lo list option" where
  "hex_bur_rot_ntimes hhv2v ntimes = do {
     tmp \<leftarrow> those (map (\<lambda>i. rd hex_bur_ring i \<bind> rd hhv2v) [0..5]);
     tmp \<leftarrow> rot_ntimes tmp 0 6 (ntimes * 2);
     for_range 0 6 (\<lambda>i hhv2v. do {
       r \<leftarrow> rd hex_bur_ring i;
       x \<leftarrow> rd tmp i;
       wr hhv2v r x
     }) hhv2v
   }"

definition hex_bur_rot_to_right :: "lo list \<Rightarrow> lo \<Rightarrow> lo list option" where
  "hex_bur_rot_to_right hhv2v new_right = hex_bur_rot_ntimes hhv2v ((3 - new_right) smod 3)"

text \<open>The rotated hexahedron, its three flags and their number.\<close>

definition tets_from_hex_1 :: "lo \<Rightarrow> lo list \<Rightarrow> (lo list \<times> lo list \<times> lo) option" where
  "tets_from_hex_1 h hv2v = do {
     let hv_begin = h * 8;
     hhv2v \<leftarrow> gather hv2v hv_begin 8;
     min_i \<leftarrow> find_min_index hhv2v 8;
     hhv2v \<leftarrow> rot_to_first hhv2v 0 4 (min_i smod 4);
     hhv2v \<leftarrow> rot_to_first hhv2v 4 4 (min_i smod 4);
     hhv2v \<leftarrow> (if min_i \<ge> 4 then flip_hex hhv2v else Some hhv2v);
     diags_into \<leftarrow> those (map (\<lambda>i. do {
       a \<leftarrow> table_entry hex_bur_faces i 0 \<bind> rd hhv2v;
       b \<leftarrow> table_entry hex_bur_faces i 2 \<bind> rd hhv2v;
       c \<leftarrow> table_entry hex_bur_faces i 1 \<bind> rd hhv2v;
       d \<leftarrow> table_entry hex_bur_faces i 3 \<bind> rd hhv2v;
       Some (if diag_lt a b c d then 1 else 0)
     }) [0..2]);
     Some (hhv2v, diags_into, sum_list diags_into)
   }"

definition fill_tets_from_hex ::
  "lo option list \<Rightarrow> lo list \<Rightarrow> lo \<Rightarrow> lo list \<Rightarrow> lo list list \<Rightarrow> lo \<Rightarrow> lo option list option" where
  "fill_tets_from_hex tv2v h2ht h hhv2v case_template nhht = do {
     t \<leftarrow> rd h2ht h;
     for_range 0 nhht (\<lambda>i tv2v. for_range 0 4 (\<lambda>j tv2v. do {
       x \<leftarrow> table_entry case_template i j \<bind> rd hhv2v;
       wr tv2v ((t + i) * 4 + j) (Some x)
     }) tv2v) tv2v
   }"

text \<open>The last face whose flag is \<open>flag\<close>.\<close>

definition diag_face_of :: "lo list \<Rightarrow> bool \<Rightarrow> lo option" where
  "diag_face_of diags_into flag = for_range 0 3 (\<lambda>i diag_face. do {
     d \<leftarrow> rd diags_into i;
     Some (if (d \<noteq> 0) = flag then i else diag_face)
   }) (- 1)"

definition tets_from_hexes :: "lo list \<Rightarrow> lo list option" where
  "tets_from_hexes hv2v = do {
     nh \<leftarrow> divide_no_remainder (asize hv2v) 8;
     degrees \<leftarrow> fill_each nh (\<lambda>h. do {
       (hhv2v, diags_into, ndiags_into) \<leftarrow> tets_from_hex_1 h hv2v;
       Some (if ndiags_into = 0 then 5 else 6)
     });
     h2ht \<leftarrow> offset_scan degrees;
     nt \<leftarrow> rd_last h2ht;
     tv2v \<leftarrow> alloc (nt * 4);
     tv2v \<leftarrow> parallel_for nh (\<lambda>h tv2v. do {
       (hhv2v, diags_into, ndiags_into) \<leftarrow> tets_from_hex_1 h hv2v;
       if ndiags_into = 0 then fill_tets_from_hex tv2v h2ht h hhv2v htv2hhv_0 5
       else if ndiags_into = 1 then do {
         diag_face \<leftarrow> diag_face_of diags_into True;
         hhv2v \<leftarrow> hex_bur_rot_to_right hhv2v diag_face;
         fill_tets_from_hex tv2v h2ht h hhv2v htv2hhv_1 6
       }
       else if ndiags_into = 2 then do {
         diag_face \<leftarrow> diag_face_of diags_into False;
         hhv2v \<leftarrow> hex_bur_rot_to_right hhv2v diag_face;
         fill_tets_from_hex tv2v h2ht h hhv2v htv2hhv_2 6
       }
       else fill_tets_from_hex tv2v h2ht h hhv2v htv2hhv_3 6
     }) tv2v;
     freeze tv2v
   }"

section \<open>The least vertex\<close>

lemma find_min_index_eq:
  assumes "v \<noteq> []"
  obtains k where "find_min_index v (asize v) = Some (int k)" "k < length v" "\<forall>j < length v. v ! k \<le> v ! j"
proof -
  let ?f = "\<lambda>i (min_i, min_v). do { x \<leftarrow> rd v i; Some (if x < min_v then (i, x) else (min_i, min_v)) }"
  have "n \<le> length v \<Longrightarrow> 0 < n \<Longrightarrow> \<exists>k < n. for_range 1 (int n) ?f (0, v ! 0) = Some (int k, v ! k) \<and> (\<forall>j < n. v ! k \<le> v ! j)" for n
  proof (induction n)
    case (Suc n)
    show ?case
    proof (cases "n = 0")
      case False
      then obtain k where k: "k < n" "for_range 1 (int n) ?f (0, v ! 0) = Some (int k, v ! k)" "\<forall>j < n. v ! k \<le> v ! j"
        using Suc by auto
      have "for_range 1 (int n + 1) ?f (0, v ! 0) = ?f (int n) (int k, v ! k)"
        using for_range_snoc [of 1 "int n" ?f "(0, v ! 0)"] False k(2) by simp
      also have "\<dots> = Some (if v ! n < v ! k then (int n, v ! n) else (int k, v ! k))" using Suc.prems by simp
      finally have step: "for_range 1 (int (Suc n)) ?f (0, v ! 0) = Some (if v ! n < v ! k then (int n, v ! n) else (int k, v ! k))"
        by (simp add: add.commute)
      show ?thesis
      proof (cases "v ! n < v ! k")
        case True
        then show ?thesis using step k(3) by (intro exI [of _ n]) (auto simp: less_Suc_eq intro: order.trans less_imp_le)
      next
        case False
        then show ?thesis using step k by (intro exI [of _ k]) (auto simp: less_Suc_eq)
      qed
    qed auto
  qed simp
  from this [of "length v"] obtain k where "k < length v" "for_range 1 (int (length v)) ?f (0, v ! 0) = Some (int k, v ! k)"
    "\<forall>j < length v. v ! k \<le> v ! j" using assms by auto
  moreover have "rd v 0 = Some (v ! 0)" using assms by (simp add: rd_def asize_def)
  ultimately show ?thesis using that [of k] by (simp add: find_min_index_def asize_def)
qed

section \<open>Rotations\<close>

text \<open>The vertices that a rotation overwrites are lost.\<close>

lemma rot_lists: "rot [a, b, c, d] 0 4 = Some [d, a, a, a]"
  "rot [e, f, g, h, a, b, c, d] 0 4 = Some [h, e, e, e, a, b, c, d]"
  "rot [e, f, g, h, a, b, c, d] 4 4 = Some [e, f, g, h, d, a, a, a]"
  "rot [a, b, c, d, e, f] 0 6 = Some [f, a, a, a, a, a]"
  by (simp_all add: rot_def for_range_def upto.simps rd_def wr_def nth_Cons' list_update.simps split: nat.split)

lemma flip_hex_list: "flip_hex [a, b, c, d, e, f, g, h] = Some [e, h, g, f, a, d, c, b]"
  by (simp add: flip_hex_def table_entry_def hex_flip_pairs_def for_range_def upto.simps swap2_def rd_def wr_def)

lemma rot_ntimes_0: "rot_ntimes v b n 0 = Some v"
  by (simp add: rot_ntimes_def)

lemma run_for_Cons_fun: "run_for (i # is) f = (\<lambda>s. f i s \<bind> run_for is f)"
  by (rule ext) simp

lemma rot_ntimes_few: "rot_ntimes v b n 1 = rot v b n" "rot_ntimes v b n 2 = rot v b n \<bind> (\<lambda>v. rot v b n)"
  "rot_ntimes v b n 3 = rot v b n \<bind> (\<lambda>v. rot v b n) \<bind> (\<lambda>v. rot v b n)"
  "rot_ntimes v b n 4 = rot v b n \<bind> (\<lambda>v. rot v b n) \<bind> (\<lambda>v. rot v b n) \<bind> (\<lambda>v. rot v b n)"
  by (simp_all add: rot_ntimes_def for_range_def upto.simps run_for_Cons_fun)

lemma rot_to_first_0: "0 < n \<Longrightarrow> rot_to_first v b n 0 = Some v"
  by (simp add: rot_to_first_def smod_nonneg rot_ntimes_0)

lemma rot_to_first_lists:
  assumes "k \<in> {1, 2, 3}"
  shows "rot_to_first [a, b, c, d] 0 4 k \<in> {Some [a, d, d, d], Some [d, a, a, a]}"
    "rot_to_first [a, b, c, d, e, f, g, h] 0 4 k \<in> {Some [a, d, d, d, e, f, g, h], Some [d, a, a, a, e, f, g, h]}"
    "rot_to_first [a, b, c, d, e, f, g, h] 4 4 k \<in> {Some [a, b, c, d, e, h, h, h], Some [a, b, c, d, h, e, e, e]}"
  using assms by (auto simp: rot_to_first_def smod_nonneg rot_ntimes_few rot_lists)

lemma hex_bur_rot_0: "hex_bur_rot_to_right [a, b, c, d, e, f, g, h] 0 = Some [a, b, c, d, e, f, g, h]"
  by (simp add: hex_bur_rot_to_right_def hex_bur_rot_ntimes_def smod_nonneg rot_ntimes_0 hex_bur_ring_def for_range_def
      upto.simps rd_def wr_def nth_Cons')

lemma hex_bur_rot_lists:
  assumes "k \<in> {1, 2}"
  shows "hex_bur_rot_to_right [a, b, c, d, e, f, g, h] k \<in> {Some [a, e, b, b, b, b, g, b], Some [a, b, e, e, e, e, g, e]}"
  using assms by (auto simp: hex_bur_rot_to_right_def hex_bur_rot_ntimes_def smod_nonneg rot_ntimes_few rot_lists
      hex_bur_ring_def for_range_def upto.simps rd_def wr_def nth_Cons')


section \<open>Splitting along the diagonal at the least vertex\<close>

text \<open>What the template of a quadrilateral should give, for any position of its least vertex.\<close>

fun split_quad :: "lo list \<Rightarrow> lo list list" where
  "split_quad [a, b, c, d] = (if min a c < min b d then [[a, b, c], [c, d, a]] else [[b, c, d], [d, a, b]])"
| "split_quad _ = []"

definition hex_faces :: "lo list \<Rightarrow> lo list list" where
  "hex_faces h = map (\<lambda>f. map (\<lambda>i. h ! nat (hypercube_down_template 3 2 f i)) [0..3]) [0..5]"

text \<open>The two elements that share a face list its vertices in opposite directions from any start: the triangles
of one are those of the other, with the opposite orientation.\<close>

lemma split_quad_conforms:
  assumes "distinct q" "length q = 4"
  shows "chain (split_quad (rotate1 q)) = chain (split_quad q)"
    "chain (split_quad (rev q)) f = - chain (split_quad q) f"
proof -
  obtain a b c d where q: "q = [a, b, c, d]" using assms(2) by (auto simp: length_Suc_conv eval_nat_numeral)
  have "chain (split_quad (rotate1 q)) g = chain (split_quad q) g" for g
    using assms(1) unfolding q by (auto simp: min_def orient_def times_def)
  then show "chain (split_quad (rotate1 q)) = chain (split_quad q)" by blast
  show "chain (split_quad (rev q)) f = - chain (split_quad q) f"
    using assms(1) unfolding q by (auto simp: min_def orient_def times_def)
qed

lemma hex_faces_list: "hex_faces [a, b, c, d, e, f, g, h] =
    [[b, a, d, c], [a, b, f, e], [b, c, g, f], [c, d, h, g], [d, a, e, h], [e, f, g, h]]"
  by (simp add: hex_faces_def hypercube_down_template_def hypercube_down_template_3_2_def upto.simps)


text \<open>The split faces of a hexahedron whose least vertex is the first, by the three flags, on vertex numbers.\<close>

definition flagged_faces :: "bool \<Rightarrow> bool \<Rightarrow> bool \<Rightarrow> int list list" where
  "flagged_faces right back upper =
    [[0, 3, 2], [2, 1, 0], [0, 1, 5], [5, 4, 0]] @ (if right then [[1, 2, 6], [6, 5, 1]] else [[2, 6, 5], [5, 1, 2]]) @
    (if back then [[3, 7, 6], [6, 2, 3]] else [[2, 3, 7], [7, 6, 2]]) @ [[0, 4, 7], [7, 3, 0]] @
    (if upper then [[4, 5, 6], [6, 7, 4]] else [[5, 6, 7], [7, 4, 5]])"

lemma hex_templates_bound:
  "bounds 3 htv2hhv_0 (flagged_faces False False False)"
  "bounds 3 htv2hhv_1 (flagged_faces True False False)"
  "bounds 3 htv2hhv_2 (flagged_faces False True True)"
  "bounds 3 htv2hhv_3 (flagged_faces True True True)"
  unfolding bounds_code htv2hhv_0_def htv2hhv_1_def htv2hhv_2_def htv2hhv_3_def by code_simp+

definition hex_flags :: "lo list \<Rightarrow> bool list" where
  "hex_flags h = map (\<lambda>f. diag_lt (h ! nat (f ! 0)) (h ! nat (f ! 2)) (h ! nat (f ! 1)) (h ! nat (f ! 3))) hex_bur_faces"

lemma split_faces_flagged:
  assumes h: "length h = 8" "distinct h" "\<forall>x \<in> set h. h ! 0 \<le> x" and flags: "hex_flags h = [right, back, upper]"
  shows "concat (map split_quad (hex_faces h)) = map (map (\<lambda>i. h ! nat i)) (flagged_faces right back upper)"
proof -
  obtain v0 v1 v2 v3 v4 v5 v6 v7 where e: "h = [v0, v1, v2, v3, v4, v5, v6, v7]"
    using h(1) by (auto simp: length_Suc_conv eval_nat_numeral)
  have le: "v0 \<le> v1" "v0 \<le> v2" "v0 \<le> v3" "v0 \<le> v4" "v0 \<le> v5" "v0 \<le> v7"
    using h(3) unfolding e by auto
  then have lt: "v0 < v1" "v0 < v2" "v0 < v3" "v0 < v4" "v0 < v5" "v0 < v7"
    using h(2) unfolding e by (simp_all add: less_le)
  have f: "right = (min v6 v1 < min v5 v2)" "back = (min v6 v3 < min v2 v7)" "upper = (min v6 v4 < min v7 v5)"
    using flags unfolding e by (auto simp: hex_flags_def hex_bur_faces_def diag_lt_def)
  have d: "distinct [v1, v2, v3, v4, v5, v6, v7]" using h(2) unfolding e by auto
  have c0: "split_quad [v1, v0, v3, v2] = [[v0, v3, v2], [v2, v1, v0]]" using lt by auto
  have c1: "split_quad [v0, v1, v5, v4] = [[v0, v1, v5], [v5, v4, v0]]" using lt by auto
  have c2: "split_quad [v1, v2, v6, v5] = (if right then [[v1, v2, v6], [v6, v5, v1]] else [[v2, v6, v5], [v5, v1, v2]])"
    using f(1) d by (simp add: min.commute)
  have "back \<longleftrightarrow> \<not> min v2 v7 < min v3 v6" using f(2) d by (auto simp: min_def)
  then have c3: "split_quad [v2, v3, v7, v6] = (if back then [[v3, v7, v6], [v6, v2, v3]] else [[v2, v3, v7], [v7, v6, v2]])"
    by (simp add: min.commute)
  have c4: "split_quad [v3, v0, v4, v7] = [[v0, v4, v7], [v7, v3, v0]]" using lt by auto
  have c5: "split_quad [v4, v5, v6, v7] = (if upper then [[v4, v5, v6], [v6, v7, v4]] else [[v5, v6, v7], [v7, v4, v5]])"
    using f(3) d by (simp add: min.commute)
  show ?thesis unfolding e hex_faces_list flagged_faces_def by (simp add: c0 c1 c2 c3 c4 c5 del: split_quad.simps)
qed

text \<open>What the kernel does with the vertices of one hexahedron.\<close>

definition hex_ready :: "lo list \<Rightarrow> (lo list \<times> lo list \<times> lo) option" where
  "hex_ready h = tets_from_hex_1 0 h"

definition apply_template :: "lo list \<Rightarrow> lo list list \<Rightarrow> lo list list" where
  "apply_template h template = map (map (\<lambda>i. h ! nat i)) template"

definition hex_pieces :: "lo list \<Rightarrow> (lo list \<times> lo list list) option" where
  "hex_pieces h = do {
     (h, flags, n) \<leftarrow> hex_ready h;
     if n = 0 then Some (h, htv2hhv_0)
     else if n = 1 then do { f \<leftarrow> diag_face_of flags True; h \<leftarrow> hex_bur_rot_to_right h f; Some (h, htv2hhv_1) }
     else if n = 2 then do { f \<leftarrow> diag_face_of flags False; h \<leftarrow> hex_bur_rot_to_right h f; Some (h, htv2hhv_2) }
     else Some (h, htv2hhv_3)
   }"

lemma hex_ready_row:
  assumes "\<forall>h \<in> set H. length h = 8" "k < length H"
  shows "tets_from_hex_1 (int k) (concat H) = hex_ready (H ! k)"
proof -
  have "asize (H ! k) = 8" using assms by (simp add: asize_def)
  then have "gather (H ! k) 0 8 = Some (H ! k)" using gather_whole [of "H ! k"] by simp
  then show ?thesis using gather_row [OF assms] by (simp add: hex_ready_def tets_from_hex_1_def Let_def)
qed

lemma diag_flags:
  assumes "length h = 8"
  shows "those (map (\<lambda>i. do {
       a \<leftarrow> table_entry hex_bur_faces i 0 \<bind> rd h;
       b \<leftarrow> table_entry hex_bur_faces i 2 \<bind> rd h;
       c \<leftarrow> table_entry hex_bur_faces i 1 \<bind> rd h;
       d \<leftarrow> table_entry hex_bur_faces i 3 \<bind> rd h;
       Some (if diag_lt a b c d then 1 else 0 :: lo)
     }) [0..2]) = Some (map of_bool (hex_flags h))"
  using assms by (simp add: upto.simps table_entry_def hex_bur_faces_def hex_flags_def rd_def asize_def)


definition turned :: "lo list \<Rightarrow> lo list" where
  "turned h = [h ! 4, h ! 7, h ! 6, h ! 5, h ! 0, h ! 3, h ! 2, h ! 1]"

text \<open>The hexahedra that need no rotation once the least vertex is in the lower half.\<close>

definition hex_upright :: "lo list \<Rightarrow> lo list" where
  "hex_upright h = (if h ! 4 = Min (set h) then turned h else h)"

definition hex_in_place :: "lo list \<Rightarrow> bool" where
  "hex_in_place h \<longleftrightarrow> hex_upright h ! 0 = Min (set h) \<and>
    hex_flags (hex_upright h) \<in> {[False, False, False], [True, False, False], [False, True, True], [True, True, True]}"

lemma length_8_list:
  assumes "length h = 8"
  obtains a b c d e f g i where "h = [a, b, c, d, e, f, g, i]"
  using assms by (auto simp: length_Suc_conv eval_nat_numeral)

lemma split_rot: "distinct [a, b, c, d] \<Longrightarrow> chain (split_quad [b, c, d, a]) = chain (split_quad [a, b, c, d])"
  using split_quad_conforms(1) [of "[a, b, c, d]"] by simp

lemma turned_faces:
  assumes "length h = 8" "distinct h"
  shows "chain (concat (map split_quad (hex_faces (turned h)))) = chain (concat (map split_quad (hex_faces h)))"
proof
  fix x
  obtain v0 v1 v2 v3 v4 v5 v6 v7 where e: "h = [v0, v1, v2, v3, v4, v5, v6, v7]"
    using assms(1) by (rule length_8_list)
  have d: "distinct [v0, v1, v2, v3, v4, v5, v6, v7]" using assms(2) unfolding e .
  have "chain (split_quad [v7, v4, v5, v6]) = chain (split_quad [v4, v5, v6, v7])"
    using split_rot [of v7 v4 v5 v6] d by (auto simp del: split_quad.simps)
  moreover have "chain (split_quad [v4, v7, v3, v0]) = chain (split_quad [v3, v0, v4, v7])"
    using split_rot [of v3 v0 v4 v7] split_rot [of v0 v4 v7 v3] d by (auto simp del: split_quad.simps)
  moreover have "chain (split_quad [v7, v6, v2, v3]) = chain (split_quad [v2, v3, v7, v6])"
    using split_rot [of v2 v3 v7 v6] split_rot [of v3 v7 v6 v2] d by (auto simp del: split_quad.simps)
  moreover have "chain (split_quad [v6, v5, v1, v2]) = chain (split_quad [v1, v2, v6, v5])"
    using split_rot [of v1 v2 v6 v5] split_rot [of v2 v6 v5 v1] d by (auto simp del: split_quad.simps)
  moreover have "chain (split_quad [v5, v4, v0, v1]) = chain (split_quad [v0, v1, v5, v4])"
    using split_rot [of v0 v1 v5 v4] split_rot [of v1 v5 v4 v0] d by (auto simp del: split_quad.simps)
  moreover have "chain (split_quad [v0, v3, v2, v1]) = chain (split_quad [v1, v0, v3, v2])"
    using split_rot [of v1 v0 v3 v2] d by (auto simp del: split_quad.simps)
  ultimately show "chain (concat (map split_quad (hex_faces (turned h)))) x = chain (concat (map split_quad (hex_faces h))) x"
    by (simp add: e turned_def hex_faces_list del: split_quad.simps)
qed

lemma upright_faces:
  assumes "length h = 8" "distinct h"
  shows "chain (concat (map split_quad (hex_faces (hex_upright h)))) = chain (concat (map split_quad (hex_faces h)))"
  using turned_faces [OF assms] by (simp add: hex_upright_def)

lemma set_upright:
  assumes "length h = 8" "distinct h"
  shows "length (hex_upright h) = 8" "distinct (hex_upright h)" "set (hex_upright h) = set h"
proof -
  obtain v0 v1 v2 v3 v4 v5 v6 v7 where e: "h = [v0, v1, v2, v3, v4, v5, v6, v7]"
    using assms(1) by (rule length_8_list)
  have "length (turned h) = 8 \<and> distinct (turned h) \<and> set (turned h) = set h"
    using assms(2) unfolding e by (auto simp: turned_def)
  then show "length (hex_upright h) = 8" "distinct (hex_upright h)" "set (hex_upright h) = set h"
    using assms by (simp_all add: hex_upright_def)
qed

lemma in_place_bounds:
  assumes "length h = 8" "distinct h" "hex_upright h ! 0 = Min (set h)" "hex_flags (hex_upright h) = [right, back, upper]"
    and "bounds 3 template (flagged_faces right back upper)" "\<forall>t \<in> set template. length t = 4"
  shows "bounds 3 (apply_template (hex_upright h) template) (concat (map split_quad (hex_faces h)))"
proof -
  let ?g = "hex_upright h"
  note g = set_upright [OF assms(1,2)]
  have "\<forall>x \<in> set ?g. ?g ! 0 \<le> x" using assms(3) g(3) by simp
  then have "concat (map split_quad (hex_faces ?g)) = map (map (\<lambda>i. ?g ! nat i)) (flagged_faces right back upper)"
    by (rule split_faces_flagged [OF g(1,2) _ assms(4)])
  then have "bounds 3 (apply_template ?g template) (concat (map split_quad (hex_faces ?g)))"
    using bounds_rename [OF assms(5), of "\<lambda>i. ?g ! nat i"] assms(6) by (simp add: apply_template_def)
  then show ?thesis using upright_faces [OF assms(1,2)] unfolding bounds_def by simp
qed

text \<open>Where the least vertex is, and what the kernel makes of it.\<close>

lemma least_index:
  assumes "length h = 8" "distinct h"
  obtains k where "find_min_index h 8 = Some (int k)" "k < 8" "h ! k = Min (set h)" "\<forall>j < 8. h ! j = Min (set h) \<longleftrightarrow> j = k"
proof -
  obtain k where k: "find_min_index h (asize h) = Some (int k)" "k < length h" "\<forall>j < length h. h ! k \<le> h ! j"
    using assms(1) by (metis find_min_index_eq length_0_conv zero_neq_numeral)
  have "h ! k = Min (set h)" using k(2,3) by (intro Min_eqI [symmetric]) (auto simp: in_set_conv_nth)
  moreover have "\<forall>j < 8. h ! j = h ! k \<longleftrightarrow> j = k" using assms k(2) nth_eq_iff_index_eq [of h _ k] by auto
  ultimately show ?thesis using that [of k] k(1,2) assms(1) by (simp add: asize_def)
qed

lemma hex_ready_upright:
  assumes h: "length h = 8" "distinct h" and least: "hex_upright h ! 0 = Min (set h)"
  shows "hex_ready h = Some (hex_upright h, map of_bool (hex_flags (hex_upright h)),
    sum_list (map of_bool (hex_flags (hex_upright h))))"
proof -
  obtain k where k: "find_min_index h 8 = Some (int k)" "k < 8" "h ! k = Min (set h)" "\<forall>j < 8. h ! j = Min (set h) \<longleftrightarrow> j = k"
    using least_index [OF h] by blast
  have gath: "gather h 0 8 = Some h" using gather_whole [of h] h(1) by (simp add: asize_def)
  have "k = 4 \<or> k = 0"
    using k(2-4) least by (auto simp: hex_upright_def split: if_splits)
  then have rot: "rot_to_first h 0 4 (int k smod 4) = Some h" "rot_to_first h 4 4 (int k smod 4) = Some h"
    by (auto simp: smod_nonneg rot_to_first_0)
  obtain a b c d e f g i where e: "h = [a, b, c, d, e, f, g, i]" using h(1) by (rule length_8_list)
  have flip: "(if 4 \<le> int k then flip_hex h else Some h) = Some (hex_upright h)"
  proof -
    have "flip_hex h = Some (turned h)" unfolding e by (simp add: flip_hex_list turned_def)
    moreover have "h ! 4 = Min (set h) \<longleftrightarrow> k = 4" using k(4) by simp
    ultimately show ?thesis using \<open>k = 4 \<or> k = 0\<close> by (auto simp: hex_upright_def)
  qed
  show ?thesis
    unfolding hex_ready_def tets_from_hex_1_def
    by (simp only: Let_def mult_zero_left gath k(1) rot flip diag_flags [OF set_upright(1) [OF h]] bind.bind_lunit)
qed

lemma apply_template_set:
  assumes "\<forall>t \<in> set template. \<forall>i \<in> set t. 0 \<le> i \<and> i < 8" "length h = 8"
  shows "(\<Union>t \<in> set (apply_template h template). set t) \<subseteq> set h"
  using assms by (auto simp: apply_template_def nat_less_iff)

lemma templates_in_range:
  "\<forall>t \<in> set htv2hhv_0. length t = 4 \<and> (\<forall>i \<in> set t. 0 \<le> i \<and> i < 8)"
  "\<forall>t \<in> set htv2hhv_1. length t = 4 \<and> (\<forall>i \<in> set t. 0 \<le> i \<and> i < 8)"
  "\<forall>t \<in> set htv2hhv_2. length t = 4 \<and> (\<forall>i \<in> set t. 0 \<le> i \<and> i < 8)"
  "\<forall>t \<in> set htv2hhv_3. length t = 4 \<and> (\<forall>i \<in> set t. 0 \<le> i \<and> i < 8)"
  unfolding htv2hhv_0_def htv2hhv_1_def htv2hhv_2_def htv2hhv_3_def by code_simp+

lemma rotated_halves:
  assumes "k \<in> {1, 2, 3}"
  obtains a' b' e' f' where "rot_to_first [a, b, c, d, e, f, g, i] 0 4 k = Some [a', b', b', b', e, f, g, i]"
    "rot_to_first [a', b', b', b', e, f, g, i] 4 4 k = Some [a', b', b', b', e', f', f', f']"
proof -
  obtain a' b' where 1: "rot_to_first [a, b, c, d, e, f, g, i] 0 4 k = Some [a', b', b', b', e, f, g, i]"
    using rot_to_first_lists(2) [OF assms, of a b c d e f g i] by blast
  obtain e' f' where "rot_to_first [a', b', b', b', e, f, g, i] 4 4 k = Some [a', b', b', b', e', f', f', f']"
    using rot_to_first_lists(3) [OF assms, of a' b' b' b' e f g i] by blast
  with 1 show ?thesis using that by blast
qed

lemma hex_ready_rotated:
  assumes h: "length h = 8" "distinct h" and least: "hex_upright h ! 0 \<noteq> Min (set h)"
  obtains g flags where "hex_ready h = Some (g, map of_bool flags, sum_list (map of_bool flags))" "length flags = 3"
    "length g = 8" "card (set g) \<le> 4"
proof -
  obtain k where k: "find_min_index h 8 = Some (int k)" "k < 8" "h ! k = Min (set h)" "\<forall>j < 8. h ! j = Min (set h) \<longleftrightarrow> j = k"
    using least_index [OF h] by blast
  have gath: "gather h 0 8 = Some h" using gather_whole [of h] h(1) by (simp add: asize_def)
  have "k \<noteq> 4" "k \<noteq> 0"
    using k(4) least by (auto simp: hex_upright_def turned_def split: if_splits)
  then have m: "int k smod 4 \<in> {1, 2, 3}" using k(2) by (auto simp: smod_nonneg) presburger
  obtain v0 v1 v2 v3 v4 v5 v6 v7 where e: "h = [v0, v1, v2, v3, v4, v5, v6, v7]" using h(1) by (rule length_8_list)
  obtain a b c d where r1: "rot_to_first h 0 4 (int k smod 4) = Some [a, b, b, b, v4, v5, v6, v7]"
    and r2: "rot_to_first [a, b, b, b, v4, v5, v6, v7] 4 4 (int k smod 4) = Some [a, b, b, b, c, d, d, d]"
    unfolding e using rotated_halves [OF m] by metis
  obtain g where flip: "(if 4 \<le> int k then flip_hex [a, b, b, b, c, d, d, d] else Some [a, b, b, b, c, d, d, d]) = Some g"
    and g: "length g = 8" "set g \<subseteq> set [a, b, c, d]"
    by (cases "4 \<le> int k") (auto simp: flip_hex_list)
  have "card (set g) \<le> card (set [a, b, c, d])" using g(2) by (intro card_mono) auto
  also have "\<dots> \<le> 4" using card_length [of "[a, b, c, d]"] by simp
  finally have card: "card (set g) \<le> 4" .
  have "hex_ready h = Some (g, map of_bool (hex_flags g), sum_list (map of_bool (hex_flags g)))"
    unfolding hex_ready_def tets_from_hex_1_def
    by (simp only: Let_def mult_zero_left gath k(1) r1 r2 flip diag_flags [OF g(1)] bind.bind_lunit)
  moreover have "length (hex_flags g) = 3" by (simp add: hex_flags_def hex_bur_faces_def)
  ultimately show ?thesis using that g(1) card by blast
qed


lemma ring_rotated:
  assumes "length g = 8" "f \<in> {0, 1, 2}"
  obtains g' where "hex_bur_rot_to_right g f = Some g'" "length g' = 8" "set g' \<subseteq> set g" "f = 0 \<longrightarrow> g' = g"
    "f \<noteq> 0 \<longrightarrow> card (set g') \<le> 4"
proof -
  obtain v0 v1 v2 v3 v4 v5 v6 v7 where e: "g = [v0, v1, v2, v3, v4, v5, v6, v7]" using assms(1) by (rule length_8_list)
  show ?thesis
  proof (cases "f = 0")
    case True
    then show ?thesis using that [of g] assms(1) hex_bur_rot_0 unfolding e by simp
  next
    case False
    then have f: "f \<in> {1, 2}" using assms(2) by simp
    obtain x y where 1: "hex_bur_rot_to_right g f = Some [v0, x, y, y, y, y, v6, y]" "x \<in> set g" "y \<in> set g"
      using hex_bur_rot_lists [OF f, of v0 v1 v2 v3 v4 v5 v6 v7] unfolding e by auto
    have "card (set [v0, x, y, v6]) \<le> 4" using card_length [of "[v0, x, y, v6]"] by simp
    then have "card (set [v0, x, y, y, y, y, v6, y]) \<le> 4" by (simp add: insert_commute)
    moreover have "set [v0, x, y, y, y, y, v6, y] \<subseteq> set g" using 1(2,3) unfolding e by auto
    ultimately show ?thesis using that [of "[v0, x, y, y, y, y, v6, y]"] 1(1) False by simp
  qed
qed

text \<open>The pieces of a hexahedron with the counts of the first pass.\<close>

definition hex_count :: "lo list \<Rightarrow> nat" where
  "hex_count h = (case hex_ready h of Some (g, flags, n) \<Rightarrow> if n = 0 then 5 else 6 | None \<Rightarrow> 0)"

lemma apply_template_tets:
  assumes "\<forall>t \<in> set template. length t = 4 \<and> (\<forall>i \<in> set t. 0 \<le> i \<and> i < 8)" "length g = 8"
  shows "length (apply_template g template) = length template" "\<forall>t \<in> set (apply_template g template). length t = 4"
    "(\<Union>t \<in> set (apply_template g template). set t) \<subseteq> set g"
  using assms apply_template_set [of template g] by (auto simp: apply_template_def)

lemma template_lengths: "length htv2hhv_0 = 5" "length htv2hhv_1 = 6" "length htv2hhv_2 = 6" "length htv2hhv_3 = 6"
  by (simp_all add: htv2hhv_0_def htv2hhv_1_def htv2hhv_2_def htv2hhv_3_def)

lemma template_in_range:
  "P \<in> {htv2hhv_0, htv2hhv_1, htv2hhv_2, htv2hhv_3} \<Longrightarrow> \<forall>t \<in> set P. length t = 4 \<and> (\<forall>i \<in> set t. 0 \<le> i \<and> i < 8)"
  by (elim insertE emptyE; erule ssubst; rule templates_in_range)

definition placed_templates :: "(bool list \<times> lo list list) set" where
  "placed_templates = {([False, False, False], htv2hhv_0), ([True, False, False], htv2hhv_1),
    ([False, True, True], htv2hhv_2), ([True, True, True], htv2hhv_3)}"

lemma diag_face_eval: "diag_face_of (map of_bool [x, y, z]) flag = Some (if z = flag then 2 else if y = flag then 1 else if x = flag then 0 else - 1)"
  by (simp add: diag_face_of_def for_range_def upto.simps rd_def)

lemma hex_tets_flags:
  assumes ready: "hex_ready h = Some (g, map of_bool flags, sum_list (map of_bool flags))"
    and len: "length flags = 3" "length g = 8"
  shows "\<exists>g' T. hex_pieces h = Some (g', T) \<and> length g' = 8 \<and> set g' \<subseteq> set g \<and>
    T \<in> {htv2hhv_0, htv2hhv_1, htv2hhv_2, htv2hhv_3} \<and> length T = hex_count h \<and>
    (g' = g \<and> (flags, T) \<in> placed_templates \<or> card (set g') \<le> 4 \<and> flags \<notin> fst ` placed_templates)"
proof -
  obtain x y z where e: "flags = [x, y, z]" using len(1) by (auto simp: length_Suc_conv eval_nat_numeral)
  have sum: "sum_list (map of_bool flags) = (of_bool x + of_bool y + of_bool z :: lo)" unfolding e by simp
  have count: "hex_count h = (if \<not> x \<and> \<not> y \<and> \<not> z then 5 else 6)" using ready unfolding hex_count_def sum by simp
  note tets = hex_pieces_def ready sum
  consider "x = y" "y = z" | "(x, y, z) \<in> {(True, False, False), (False, True, False), (False, False, True)}"
    | "(x, y, z) \<in> {(False, True, True), (True, False, True), (True, True, False)}" by (cases x; cases y; cases z) simp_all
  then show ?thesis
  proof cases
    case 1
    have "hex_pieces h = Some (g, if x then htv2hhv_3 else htv2hhv_0)" using 1 by (simp add: tets)
    then show ?thesis using 1 e count len
      by (intro exI [of _ g] exI [of _ "if x then htv2hhv_3 else htv2hhv_0"]) (auto simp: placed_templates_def template_lengths)
  next
    case 2
    define f :: lo where "f = (if z then 2 else if y then 1 else 0)"
    have f: "diag_face_of (map of_bool flags) True = Some f" "f \<in> {0, 1, 2}" "f = 0 \<longleftrightarrow> x"
      using 2 unfolding e diag_face_eval f_def by auto
    obtain g' where g': "hex_bur_rot_to_right g f = Some g'" "length g' = 8" "set g' \<subseteq> set g" "f = 0 \<longrightarrow> g' = g"
      "f \<noteq> 0 \<longrightarrow> card (set g') \<le> 4" using ring_rotated [OF len(2) f(2)] by blast
    have "hex_pieces h = Some (g', htv2hhv_1)" using 2 f(1) g'(1) by (auto simp: tets)
    then show ?thesis using 2 e count g' f(3)
      by (intro exI [of _ g'] exI [of _ htv2hhv_1]) (auto simp: placed_templates_def template_lengths)
  next
    case 3
    define f :: lo where "f = (if \<not> z then 2 else if \<not> y then 1 else 0)"
    have f: "diag_face_of (map of_bool flags) False = Some f" "f \<in> {0, 1, 2}" "f = 0 \<longleftrightarrow> \<not> x"
      using 3 unfolding e diag_face_eval f_def by auto
    obtain g' where g': "hex_bur_rot_to_right g f = Some g'" "length g' = 8" "set g' \<subseteq> set g" "f = 0 \<longrightarrow> g' = g"
      "f \<noteq> 0 \<longrightarrow> card (set g') \<le> 4" using ring_rotated [OF len(2) f(2)] by blast
    have "hex_pieces h = Some (g', htv2hhv_2)" using 3 f(1) g'(1) by (auto simp: tets)
    then show ?thesis using 3 e count g' f(3)
      by (intro exI [of _ g'] exI [of _ htv2hhv_2]) (auto simp: placed_templates_def template_lengths)
  qed
qed

lemma placed_bounds: "(flags, T) \<in> placed_templates \<Longrightarrow> \<exists>x y z. flags = [x, y, z] \<and> bounds 3 T (flagged_faces x y z)"
  using hex_templates_bound by (auto simp: placed_templates_def)

lemma in_place_iff: "hex_in_place h \<longleftrightarrow> hex_upright h ! 0 = Min (set h) \<and> hex_flags (hex_upright h) \<in> fst ` placed_templates"
  by (simp add: hex_in_place_def placed_templates_def)

lemma hex_pieces_eq:
  assumes h: "length h = 8" "distinct h"
  obtains g' T where "hex_pieces h = Some (g', T)" "length g' = 8" "T \<in> {htv2hhv_0, htv2hhv_1, htv2hhv_2, htv2hhv_3}"
    "length T = hex_count h" "if hex_in_place h then bounds 3 (apply_template g' T) (concat (map split_quad (hex_faces h)))
      else card (\<Union>t \<in> set (apply_template g' T). set t) \<le> 4"
proof -
  let ?u = "hex_upright h"
  obtain g flags where r: "hex_ready h = Some (g, map of_bool flags, sum_list (map of_bool flags))" "length flags = 3" "length g = 8"
    and g: "if ?u ! 0 = Min (set h) then g = ?u \<and> flags = hex_flags ?u else card (set g) \<le> 4"
  proof (cases "?u ! 0 = Min (set h)")
    case True
    have "length (hex_flags ?u) = 3" by (simp add: hex_flags_def hex_bur_faces_def)
    then show ?thesis using that hex_ready_upright [OF h True] set_upright(1) [OF h] True by simp
  next
    case False
    show ?thesis using hex_ready_rotated [OF h False] that False by (metis (full_types))
  qed
  obtain g' T where t: "hex_pieces h = Some (g', T)" "length g' = 8" "set g' \<subseteq> set g"
    "T \<in> {htv2hhv_0, htv2hhv_1, htv2hhv_2, htv2hhv_3}" "length T = hex_count h"
    and c: "g' = g \<and> (flags, T) \<in> placed_templates \<or> card (set g') \<le> 4 \<and> flags \<notin> fst ` placed_templates"
    using hex_tets_flags [OF r] by blast
  have "\<forall>t \<in> set T. length t = 4 \<and> (\<forall>i \<in> set t. 0 \<le> i \<and> i < 8)" using t(4) by (rule template_in_range)
  note A = apply_template_tets [OF this t(2)] and four = this
  have few: "card (\<Union>t \<in> set (apply_template g' T). set t) \<le> 4" if "card (set g') \<le> 4"
    using card_mono [OF _ A(3)] that by simp
  have "if hex_in_place h then bounds 3 (apply_template g' T) (concat (map split_quad (hex_faces h)))
    else card (\<Union>t \<in> set (apply_template g' T). set t) \<le> 4"
  proof (cases "hex_in_place h")
    case True
    then have u: "?u ! 0 = Min (set h)" "g = ?u" "hex_flags ?u = flags" "flags \<in> fst ` placed_templates"
      using g by (simp_all add: in_place_iff)
    then have p: "g' = ?u" "(flags, T) \<in> placed_templates" using c by auto
    obtain x y z where xyz: "flags = [x, y, z]" "bounds 3 T (flagged_faces x y z)" using placed_bounds [OF p(2)] by blast
    have "bounds 3 (apply_template ?u T) (concat (map split_quad (hex_faces h)))"
      using in_place_bounds [OF h u(1) _ xyz(2)] u(3) xyz(1) four by blast
    then show ?thesis using True p(1) by simp
  next
    case False
    have "card (set g') \<le> 4"
    proof (cases "?u ! 0 = Min (set h)")
      case True
      then have "flags \<notin> fst ` placed_templates" using False g by (auto simp: in_place_iff)
      then show ?thesis using c by force
    next
      case no: False
      then have "card (set g) \<le> 4" using g by simp
      then show ?thesis using card_mono [OF _ t(3)] by simp
    qed
    then show ?thesis using False few by simp
  qed
  then show ?thesis using t that by blast
qed


section \<open>The arrays\<close>

lemma fill_tets_from_hex_eq:
  assumes "rd h2ht h = Some (int t)" "\<forall>r \<in> set P. length r = 4 \<and> (\<forall>i \<in> set r. 0 \<le> i \<and> i < 8)" "length g = 8"
    and "t * 4 + 4 * length P \<le> length s"
  shows "fill_tets_from_hex s h2ht h g P (int (length P)) = Some (overwrite s (t * 4) (concat (apply_template g P)))"
proof -
  let ?f = "\<lambda>i tv2v. for_range 0 4 (\<lambda>j tv2v. do {
       x \<leftarrow> table_entry P i j \<bind> rd g;
       wr tv2v ((int t + i) * 4 + j) (Some x)
     }) tv2v"
  have "for_range 0 (0 + int (length P)) ?f s = Some (overwrite s (t * 4) (concat (map (\<lambda>i. map (\<lambda>i. g ! nat i) (P ! i)) [0..<length P])))"
  proof (rule block_loop [where w = 4 and m = "length s"])
    fix i and u :: "lo option list" assume i: "i < length P" and u: "length u = length s"
    have row: "length (P ! i) = 4" "\<forall>x \<in> set (P ! i). 0 \<le> x \<and> x < 8" using assms(2) i by auto
    have "for_range 0 (int 4) (\<lambda>j s. do { v \<leftarrow> table_entry P (int i) j \<bind> rd g; wr s (int (t * 4 + 4 * i) + j) (Some v) }) u =
        Some (overwrite u (t * 4 + 4 * i) (map (\<lambda>j. g ! nat (P ! i ! j)) [0..<4]))"
    proof (rule write_loop)
      fix j :: nat assume j: "j < 4"
      then have "P ! i ! j \<in> set (P ! i)" using row(1) by simp
      then show "table_entry P (int i) (int j) \<bind> rd g = Some (g ! nat (P ! i ! j))"
        using row j i assms(3) by (simp add: table_entry_def rd_Some asize_def)
    qed (use i u assms(4) in simp)
    moreover have "map (\<lambda>j. g ! nat (P ! i ! j)) [0..<4] = map (\<lambda>i. g ! nat i) (P ! i)"
      using row(1) by (intro nth_equalityI) simp_all
    ultimately show "?f (0 + int i) u = Some (overwrite u (t * 4 + 4 * i) (map (\<lambda>i. g ! nat i) (P ! i)))"
      by (simp add: algebra_simps)
  qed (use assms in auto)
  moreover have "map (\<lambda>i. map (\<lambda>i. g ! nat i) (P ! i)) [0..<length P] = apply_template g P"
    unfolding apply_template_def by (rule nth_equalityI) simp_all
  ultimately show ?thesis using assms(1) by (simp add: fill_tets_from_hex_def)
qed

text \<open>The second pass on a row, with the template that the case distinction finds.\<close>

lemma second_pass:
  assumes "hex_ready h = Some (g, flags, n)"
  shows "(if n = 0 then fill_tets_from_hex s h2ht k g htv2hhv_0 5
       else if n = 1 then do { f \<leftarrow> diag_face_of flags True; g \<leftarrow> hex_bur_rot_to_right g f;
         fill_tets_from_hex s h2ht k g htv2hhv_1 6 }
       else if n = 2 then do { f \<leftarrow> diag_face_of flags False; g \<leftarrow> hex_bur_rot_to_right g f;
         fill_tets_from_hex s h2ht k g htv2hhv_2 6 }
       else fill_tets_from_hex s h2ht k g htv2hhv_3 6) =
    do { (g, P) \<leftarrow> hex_pieces h; fill_tets_from_hex s h2ht k g P (int (length P)) }"
  using assms by (auto simp: hex_pieces_def template_lengths)

lemma tets_from_hexes_pieces:
  assumes H: "\<forall>h \<in> set H. length h = 8"
    and G: "\<And>k. k < length H \<Longrightarrow> hex_pieces (H ! k) = Some (G k, P k) \<and> length (G k) = 8 \<and>
      P k \<in> {htv2hhv_0, htv2hhv_1, htv2hhv_2, htv2hhv_3} \<and> length (P k) = hex_count (H ! k)"
  shows "tets_from_hexes (concat H) = Some (concat (concat (map (\<lambda>k. apply_template (G k) (P k)) [0..<length H])))"
proof -
  let ?TT = "map (\<lambda>k. apply_template (G k) (P k)) [0..<length H]"
  have P8: "\<forall>t \<in> set (P k). length t = 4 \<and> (\<forall>i \<in> set t. 0 \<le> i \<and> i < 8)" if "k < length H" for k
    using G [OF that] by (intro template_in_range) simp
  have four: "\<forall>T \<in> set ?TT. \<forall>t \<in> set T. length t = 4" 
  proof (intro ballI)
    fix T t assume "T \<in> set ?TT" and t: "t \<in> set T"
    then obtain k where k: "k < length H" "T = apply_template (G k) (P k)" by auto
    then show "length t = 4" using apply_template_tets(2) [OF P8 [OF k(1)], of "G k"] G [OF k(1)] t by blast
  qed
  have lenT: "length (apply_template (G k) (P k)) = hex_count (H ! k)" if "k < length H" for k
    using apply_template_tets(1) [OF P8 [OF that], of "G k"] G [OF that] by simp
  have ready: "\<exists>g flags n. hex_ready (H ! k) = Some (g, flags, n)" if "k < length H" for k
    using G [OF that] by (cases "hex_ready (H ! k)") (auto simp: hex_pieces_def)
  have nh: "divide_no_remainder (asize (concat H)) 8 = Some (int (length H))"
    using divide_no_remainder_Some [of 8 "int (length H)"] length_concat_same [OF H] by (simp add: asize_def)
  have first: "fill_each (int (length H)) (\<lambda>h. do {
       (hhv2v, diags_into, ndiags_into) \<leftarrow> tets_from_hex_1 h (concat H);
       Some (if ndiags_into = 0 then 5 else 6)
     }) = Some (sizes ?TT)"
  proof -
    have "(do { (hhv2v, diags_into, ndiags_into) \<leftarrow> tets_from_hex_1 (int k) (concat H); Some (if ndiags_into = 0 then 5 else 6) }) =
        Some (sizes ?TT ! k)" if k: "k < length H" for k
    proof -
      obtain g flags n where "hex_ready (H ! k) = Some (g, flags, n)" using ready [OF k] by blast
      then show ?thesis using hex_ready_row [OF H k] lenT [OF k] k by (simp add: hex_count_def sizes_def)
    qed
    then show ?thesis
      using fill_each_Some [of "int (length H)" _ "\<lambda>k. sizes ?TT ! k"] map_nth [of "sizes ?TT"] by simp
  qed
  let ?fill = "\<lambda>h tv2v. do {
       (hhv2v, diags_into, ndiags_into) \<leftarrow> tets_from_hex_1 h (concat H);
       if ndiags_into = 0 then fill_tets_from_hex tv2v (offsets (sizes ?TT)) h hhv2v htv2hhv_0 5
       else if ndiags_into = 1 then do {
         diag_face \<leftarrow> diag_face_of diags_into True;
         hhv2v \<leftarrow> hex_bur_rot_to_right hhv2v diag_face;
         fill_tets_from_hex tv2v (offsets (sizes ?TT)) h hhv2v htv2hhv_1 6
       }
       else if ndiags_into = 2 then do {
         diag_face \<leftarrow> diag_face_of diags_into False;
         hhv2v \<leftarrow> hex_bur_rot_to_right hhv2v diag_face;
         fill_tets_from_hex tv2v (offsets (sizes ?TT)) h hhv2v htv2hhv_2 6
       }
       else fill_tets_from_hex tv2v (offsets (sizes ?TT)) h hhv2v htv2hhv_3 6
     }"
  have size: "length (concat (map concat ?TT)) = length (concat ?TT) * 4"
    using length_concat_same [of "concat ?TT" 4] four by (simp add: concat_rows)
  have "do { s \<leftarrow> parallel_for (int (length H)) ?fill (fresh (int (length (concat (map concat ?TT))))); freeze s } = Some (concat (map concat ?TT))"
  proof (rule fill_rows_of)
    fix k and s :: "lo option list"
    assume "k < length (map concat ?TT)" and len: "length s = length (concat (map concat ?TT))"
    then have k: "k < length H" by simp
    obtain g flags n where r: "hex_ready (H ! k) = Some (g, flags, n)" using ready [OF k] by blast
    have fits: "row_start ?TT k * 4 + 4 * length (P k) \<le> length s"
      using row_fits [of k ?TT] k len size lenT [OF k] G [OF k] by simp
    have "?fill (int k) s = do { (g, P) \<leftarrow> hex_pieces (H ! k); fill_tets_from_hex s (offsets (sizes ?TT)) (int k) g P (int (length P)) }"
      using second_pass [OF r, of s "offsets (sizes ?TT)" "int k"] hex_ready_row [OF H k] r by simp
    also have "\<dots> = Some (overwrite s (row_start ?TT k * 4) (concat (apply_template (G k) (P k))))"
      using fill_tets_from_hex_eq [OF rd_offsets_sizes [of k ?TT] P8 [OF k] _ fits] k G [OF k] by simp
    finally show "?fill (int k) s = Some (overwrite s (row_start (map concat ?TT) k) (map concat ?TT ! k))"
      using row_start_scaled [OF _ four, of k] k by simp
  qed simp_all
  moreover have "rd_last (offsets (sizes ?TT)) = Some (int (length (concat ?TT)))"
    using rd_offsets_sizes [of "length ?TT" ?TT] row_start_length [of ?TT] by (simp add: rd_last_def)
  moreover have "alloc (int (length (concat ?TT)) * 4) = Some (fresh (int (length (concat (map concat ?TT)))) :: lo option list)"
    unfolding size by simp
  ultimately show ?thesis
    unfolding tets_from_hexes_def concat_rows by (simp only: nh first offset_scan_eq Let_def bind.bind_lunit)
qed


section \<open>Splitting hexahedra\<close>

lemma tets_rows:
  assumes "\<forall>h \<in> set H. length h = 8 \<and> distinct h"
  shows "\<exists>T. tets_from_hexes (concat H) = Some (concat (concat T)) \<and> length T = length H \<and>
    (\<forall>k < length H. (length (T ! k) = 5 \<or> length (T ! k) = 6) \<and> (\<forall>t \<in> set (T ! k). length t = 4) \<and>
      (if hex_in_place (H ! k) then bounds 3 (T ! k) (concat (map split_quad (hex_faces (H ! k))))
       else card (\<Union>t \<in> set (T ! k). set t) \<le> 4))"
proof -
  have "\<exists>GP. hex_pieces (H ! k) = Some GP \<and> length (fst GP) = 8 \<and> snd GP \<in> {htv2hhv_0, htv2hhv_1, htv2hhv_2, htv2hhv_3} \<and>
      length (snd GP) = hex_count (H ! k) \<and>
      (if hex_in_place (H ! k) then bounds 3 (apply_template (fst GP) (snd GP)) (concat (map split_quad (hex_faces (H ! k))))
       else card (\<Union>t \<in> set (apply_template (fst GP) (snd GP)). set t) \<le> 4)" if "k < length H" for k
  proof -
    from assms that have "length (H ! k) = 8" "distinct (H ! k)" by simp_all
    then obtain g P where "hex_pieces (H ! k) = Some (g, P)" "length g = 8" "P \<in> {htv2hhv_0, htv2hhv_1, htv2hhv_2, htv2hhv_3}"
      "length P = hex_count (H ! k)" "if hex_in_place (H ! k) then bounds 3 (apply_template g P) (concat (map split_quad (hex_faces (H ! k))))
        else card (\<Union>t \<in> set (apply_template g P). set t) \<le> 4"
      by (rule hex_pieces_eq)
    then show ?thesis by (intro exI [of _ "(g, P)"]) simp
  qed
  then obtain GP where GP: "\<And>k. k < length H \<Longrightarrow> hex_pieces (H ! k) = Some (GP k) \<and> length (fst (GP k)) = 8 \<and>
      snd (GP k) \<in> {htv2hhv_0, htv2hhv_1, htv2hhv_2, htv2hhv_3} \<and> length (snd (GP k)) = hex_count (H ! k) \<and>
      (if hex_in_place (H ! k) then bounds 3 (apply_template (fst (GP k)) (snd (GP k))) (concat (map split_quad (hex_faces (H ! k))))
       else card (\<Union>t \<in> set (apply_template (fst (GP k)) (snd (GP k))). set t) \<le> 4)"
    by metis
  let ?T = "map (\<lambda>k. apply_template (fst (GP k)) (snd (GP k))) [0..<length H]"
  have 1: "tets_from_hexes (concat H) = Some (concat (concat ?T))"
    using assms GP by (intro tets_from_hexes_pieces) auto
  have 2: "(length (?T ! k) = 5 \<or> length (?T ! k) = 6) \<and> (\<forall>t \<in> set (?T ! k). length t = 4) \<and>
      (if hex_in_place (H ! k) then bounds 3 (?T ! k) (concat (map split_quad (hex_faces (H ! k))))
       else card (\<Union>t \<in> set (?T ! k). set t) \<le> 4)" if k: "k < length H" for k
  proof -
    have "\<forall>t \<in> set (snd (GP k)). length t = 4 \<and> (\<forall>i \<in> set t. 0 \<le> i \<and> i < 8)"
      using GP [OF k] by (intro template_in_range) simp
    then have "length (?T ! k) = length (snd (GP k))" "\<forall>t \<in> set (?T ! k). length t = 4"
      using apply_template_tets [of "snd (GP k)" "fst (GP k)"] GP [OF k] k by simp_all
    moreover have "length (snd (GP k)) = 5 \<or> length (snd (GP k)) = 6" using GP [OF k] template_lengths by auto
    ultimately show ?thesis using GP [OF k] k by simp
  qed
  show ?thesis by (rule exI [of _ ?T], intro conjI, rule 1, simp, intro allI impI, rule 2)
qed


text \<open>C37. \<open>tets_from_hexes\<close> on any number of hexahedra with distinct vertices succeeds and gives each of them 5 or 6
tetrahedra.  If the least vertex is the first or the fifth and the three faces at the opposite corner need no turn of
the hexahedron (\<open>hex_in_place\<close>), the oriented boundary of the tetrahedra is that of the hexahedron with each
face split along the diagonal at its least vertex, so that neighbors agree (\<open>split_quad_conforms\<close>).
Otherwise the rotation of the vertices overwrites some, and the tetrahedra have at most 4 vertices of the 8.\<close>

theorem tets_from_hexes_conforming:
  assumes "\<forall>h \<in> set H. length h = 8 \<and> distinct h"
  shows "\<exists>T. tets_from_hexes (concat H) = Some (concat (concat T)) \<and> length T = length H \<and>
    (\<forall>k < length H. (length (T ! k) = 5 \<or> length (T ! k) = 6) \<and> (\<forall>t \<in> set (T ! k). length t = 4) \<and>
      (if hex_in_place (H ! k) then bounds 3 (T ! k) (concat (map split_quad (hex_faces (H ! k))))
       else card (\<Union>t \<in> set (T ! k). set t) \<le> 4))"
  using tets_rows [OF assms] .

theorem tets_from_hexes_conforming_witness:
  "\<exists>T. tets_from_hexes [0, 1, 4, 3, 9, 10, 13, 12, 3, 2, 1, 0, 7, 6, 5, 4] = Some (concat (concat T)) \<and>
    bounds 3 (T ! 0) (concat (map split_quad (hex_faces [0, 1, 4, 3, 9, 10, 13, 12]))) \<and> card (\<Union>t \<in> set (T ! 1). set t) \<le> 4"
proof -
  have "hex_in_place [0, 1, 4, 3, 9, 10, 13, 12]" "\<not> hex_in_place [3, 2, 1, 0, 7, 6, 5, 4]" by code_simp+
  then show ?thesis using tets_from_hexes_conforming [of "[[0, 1, 4, 3, 9, 10, 13, 12], [3, 2, 1, 0, 7, 6, 5, 4]]"]
    by (auto simp: less_Suc_eq)
qed

section \<open>Splitting quadrilaterals\<close>

definition quad_sides :: "lo list \<Rightarrow> lo list list" where
  "quad_sides q = map (\<lambda>f. map (\<lambda>i. q ! nat (hypercube_down_template 2 1 f i)) [0..1]) [0..3]"

lemma quad_sides_list: "quad_sides [a, b, c, d] = [[a, b], [b, c], [c, d], [d, a]]"
  by (simp add: quad_sides_def hypercube_down_template_def upto.simps)


lemma quad_tris_eq:
  assumes "length q = 4" "distinct q"
  obtains r where "find_min_index q 4 \<bind> rot_to_first q 0 4 = Some r" "length r = 4"
    "q ! 0 = Min (set q) \<longrightarrow> r = q" "q ! 0 \<noteq> Min (set q) \<longrightarrow> (\<exists>x y. r = [x, y, y, y])"
proof -
  obtain a b c d where e: "q = [a, b, c, d]" using assms(1) by (auto simp: length_Suc_conv eval_nat_numeral)
  obtain k where k: "find_min_index q (asize q) = Some (int k)" "k < length q" "\<forall>j < length q. q ! k \<le> q ! j"
    using assms(1) by (metis find_min_index_eq length_0_conv zero_neq_numeral)
  have least: "q ! k = Min (set q)" using k(2,3) by (intro Min_eqI [symmetric]) (auto simp: in_set_conv_nth)
  have zero: "q ! 0 = Min (set q) \<longleftrightarrow> k = 0"
    using least assms k(2) nth_eq_iff_index_eq [of q 0 k] by auto
  have find: "find_min_index q 4 = Some (int k)" using k(1) assms(1) by (simp add: asize_def)
  show ?thesis
  proof (cases "k = 0")
    case True
    then show ?thesis using that [of q] find zero assms(1) by (simp add: rot_to_first_0)
  next
    case False
    then have "int k \<in> {1, 2, 3}" using k(2) assms(1) by auto
    from rot_to_first_lists(1) [OF this, of a b c d] obtain x y where "rot_to_first q 0 4 (int k) = Some [x, y, y, y]"
      unfolding e by blast
    then show ?thesis using that [of "[x, y, y, y]"] find zero False by simp
  qed
qed

lemma tris_from_quads_pieces:
  assumes Q: "\<forall>q \<in> set Q. length q = 4"
    and R: "\<And>k. k < length Q \<Longrightarrow> find_min_index (Q ! k) 4 \<bind> rot_to_first (Q ! k) 0 4 = Some (R k) \<and> length (R k) = 4"
  shows "tris_from_quads (concat Q) = Some (concat (map (\<lambda>k. concat (apply_template (R k) qtv2qqv)) [0..<length Q]))"
proof -
  let ?T = "map (\<lambda>k. concat (apply_template (R k) qtv2qqv)) [0..<length Q]"
  have nq: "divide_no_remainder (asize (concat Q)) 4 = Some (int (length Q))"
    using divide_no_remainder_Some [of 4 "int (length Q)"] length_concat_same [OF Q] by (simp add: asize_def)
  have six: "\<forall>r \<in> set ?T. length r = 6" by (auto simp: apply_template_def qtv2qqv_def)
  then have lenT: "length (concat ?T) = length Q * 6" using length_concat_same [OF six] by simp
  have start: "row_start ?T k = k * 6" if "k \<le> length Q" for k
    using row_start_same [OF six, of k] that by simp
  let ?f = "\<lambda>q tv2v. do {
       let qv_begin = q * 4;
       qqv2v \<leftarrow> gather (concat Q) qv_begin 4;
       min_i \<leftarrow> find_min_index qqv2v 4;
       qqv2v \<leftarrow> rot_to_first qqv2v 0 4 min_i;
       for_range 0 2 (\<lambda>i tv2v. do {
         let t = q * 2 + i;
         let tv_begin = t * 3;
         for_range 0 3 (\<lambda>j tv2v. do {
           x \<leftarrow> table_entry qtv2qqv i j \<bind> rd qqv2v;
           wr tv2v (tv_begin + j) (Some x)
         }) tv2v
       }) tv2v
     }"
  have "do { s \<leftarrow> parallel_for (int (length Q)) ?f (fresh (int (length (concat ?T)))); freeze s } = Some (concat ?T)"
  proof (rule fill_rows_of)
    fix k and s :: "lo option list"
    assume "k < length ?T" and len: "length s = length (concat ?T)"
    then have k: "k < length Q" by simp
    have fits: "k * 6 + 6 \<le> length s" using k len lenT by simp
    let ?r = "R k"
    let ?h = "\<lambda>(i :: nat) (j :: nat). ?r ! nat (qtv2qqv ! i ! j)"
    have loop: "for_range 0 (0 + int 2) (\<lambda>i tv2v. for_range 0 3 (\<lambda>j tv2v. do {
           x \<leftarrow> table_entry qtv2qqv i j \<bind> rd ?r;
           wr tv2v ((int k * 2 + i) * 3 + j) (Some x)
         }) tv2v) s = Some (overwrite s (k * 6) (concat (map (\<lambda>i. map (?h i) [0..<3]) [0..<2])))"
    proof (rule block_loop [where w = 3 and m = "length s"])
      fix i :: nat and u :: "lo option list" assume i: "i < 2" and u: "length u = length s"
      have "for_range 0 (int 3) (\<lambda>j s. do { v \<leftarrow> table_entry qtv2qqv (int i) j \<bind> rd ?r; wr s (int (k * 6 + 3 * i) + j) (Some v) }) u =
          Some (overwrite u (k * 6 + 3 * i) (map (?h i) [0..<3]))"
      proof (rule write_loop)
        fix j :: nat assume j: "j < 3"
        consider "i = 0" "j = 0" | "i = 0" "j = 1" | "i = 0" "j = 2" | "i = 1" "j = 0" | "i = 1" "j = 1" | "i = 1" "j = 2"
          using i j by linarith
        then show "table_entry qtv2qqv (int i) (int j) \<bind> rd ?r = Some (?h i j)"
          using R [OF k] by cases (simp_all add: table_entry_def qtv2qqv_def rd_def asize_def)
      qed (use i u fits in simp)
      then show "for_range 0 3 (\<lambda>j tv2v. do {
           x \<leftarrow> table_entry qtv2qqv (0 + int i) j \<bind> rd ?r;
           wr tv2v ((int k * 2 + (0 + int i)) * 3 + j) (Some x)
         }) u = Some (overwrite u (k * 6 + 3 * i) (map (?h i) [0..<3]))"
        by (simp add: algebra_simps)
    next
      show "k * 6 + 3 * 2 \<le> length s" using fits by linarith
    qed (simp, rule refl)
    have row: "concat (map (\<lambda>i. map (?h i) [0..<3]) [0..<2]) = ?T ! k"
      using k by (simp add: apply_template_def qtv2qqv_def upt_conv_Cons)
    have "0 + int 2 = 2" by simp
    note loop = loop [unfolded row this]
    obtain m where m: "find_min_index (Q ! k) 4 = Some m" "rot_to_first (Q ! k) 0 4 m = Some ?r"
      using R [OF k] by (auto simp: bind_eq_Some_conv)
    have "gather (concat Q) (int k * 4) 4 = Some (Q ! k)" using gather_row [OF Q k] by simp
    then have "?f (int k) s = Some (overwrite s (k * 6) (?T ! k))"
      by (simp only: Let_def m bind.bind_lunit loop)
    then show "?f (int k) s = Some (overwrite s (row_start ?T k) (?T ! k))"
      using start [of k] k by (simp only: less_imp_le)
  qed simp_all
  moreover have "alloc (int (length Q) * 2 * 3) = Some (fresh (int (length (concat ?T))) :: lo option list)"
    using lenT by (simp add: mult.assoc)
  ultimately show ?thesis
    unfolding tris_from_quads_def by (simp only: nq Let_def bind.bind_lunit)
qed


text \<open>C38. \<open>tris_from_quads\<close> on any number of quadrilaterals with distinct vertices succeeds and gives each of them two
triangles.  If the least vertex is the first, their oriented boundary is that of the quadrilateral, and the least
vertex is in both.  Otherwise the rotation overwrites vertices and both triangles repeat a vertex.\<close>

theorem tris_from_quads_split:
  assumes "\<forall>q \<in> set Q. length q = 4 \<and> distinct q"
  shows "\<exists>T. tris_from_quads (concat Q) = Some (concat (concat T)) \<and> length T = length Q \<and>
    (\<forall>k < length Q. length (T ! k) = 2 \<and>
      (if Q ! k ! 0 = Min (set (Q ! k))
       then bounds 2 (T ! k) (quad_sides (Q ! k)) \<and> (\<forall>t \<in> set (T ! k). Min (set (Q ! k)) \<in> set t)
       else \<forall>t \<in> set (T ! k). \<not> distinct t))"
proof -
  have "\<exists>r. find_min_index (Q ! k) 4 \<bind> rot_to_first (Q ! k) 0 4 = Some r \<and> length r = 4 \<and>
      (Q ! k ! 0 = Min (set (Q ! k)) \<longrightarrow> r = Q ! k) \<and> (Q ! k ! 0 \<noteq> Min (set (Q ! k)) \<longrightarrow> (\<exists>x y. r = [x, y, y, y]))"
    if "k < length Q" for k
  proof -
    from assms that have "length (Q ! k) = 4" "distinct (Q ! k)" by simp_all
    then show ?thesis using quad_tris_eq [of "Q ! k"] by metis
  qed
  then obtain R where R: "\<And>k. k < length Q \<Longrightarrow> find_min_index (Q ! k) 4 \<bind> rot_to_first (Q ! k) 0 4 = Some (R k) \<and>
      length (R k) = 4 \<and> (Q ! k ! 0 = Min (set (Q ! k)) \<longrightarrow> R k = Q ! k) \<and>
      (Q ! k ! 0 \<noteq> Min (set (Q ! k)) \<longrightarrow> (\<exists>x y. R k = [x, y, y, y]))"
    by metis
  let ?T = "map (\<lambda>k. apply_template (R k) qtv2qqv) [0..<length Q]"
  have "tris_from_quads (concat Q) = Some (concat (map (\<lambda>k. concat (apply_template (R k) qtv2qqv)) [0..<length Q]))"
    using assms R by (intro tris_from_quads_pieces) auto
  then have 1: "tris_from_quads (concat Q) = Some (concat (concat ?T))" by (simp add: concat_rows comp_def)
  have 2: "length (?T ! k) = 2 \<and>
      (if Q ! k ! 0 = Min (set (Q ! k))
       then bounds 2 (?T ! k) (quad_sides (Q ! k)) \<and> (\<forall>t \<in> set (?T ! k). Min (set (Q ! k)) \<in> set t)
       else \<forall>t \<in> set (?T ! k). \<not> distinct t)" if k: "k < length Q" for k
  proof -
    obtain a b c d where e: "R k = [a, b, c, d]" using R [OF k] by (auto simp: length_Suc_conv eval_nat_numeral)
    have T: "?T ! k = [[a, b, c], [c, d, a]]" using k e by (simp add: apply_template_def qtv2qqv_def)
    have "bounds 2 (map (map (\<lambda>i. R k ! nat i)) qtv2qqv) (map (map (\<lambda>i. R k ! nat i)) [[0, 1], [1, 2], [2, 3], [3, 0]])"
      by (rule bounds_rename) (unfold bounds_code qtv2qqv_def, code_simp+)
    then have b: "bounds 2 (?T ! k) [[a, b], [b, c], [c, d], [d, a]]" using k e by (simp add: apply_template_def)
    show ?thesis
    proof (cases "Q ! k ! 0 = Min (set (Q ! k))")
      case True
      then have q: "Q ! k = [a, b, c, d]" using R [OF k] e by simp
      have "Min (set (Q ! k)) = a" using True q by simp
      then show ?thesis using b True unfolding T q quad_sides_list by simp
    next
      case False
      then have "b = c \<and> c = d" using R [OF k] e by auto
      then show ?thesis using False unfolding T by simp
    qed
  qed
  show ?thesis by (rule exI [of _ ?T], intro conjI, rule 1, simp, intro allI impI, rule 2)
qed

theorem tris_from_quads_split_witness:
  "\<exists>T. tris_from_quads [0, 1, 4, 3, 5, 2, 1, 4] = Some (concat (concat T)) \<and> bounds 2 (T ! 0) (quad_sides [0, 1, 4, 3]) \<and>
    (\<forall>t \<in> set (T ! 1). \<not> distinct t)"
  using tris_from_quads_split [of "[[0, 1, 4, 3], [5, 2, 1, 4]]"] by (auto simp: less_Suc_eq)

end
