(* ===== verification/Box.thy ===== *)
theory Box
  imports Splits
begin

text \<open>
  The cells of a box (\<open>src/src/Omega_h_box.cpp\<close>, the connectivity of \<open>make_1d_box\<close>, \<open>make_2d_box\<close> and
  \<open>make_3d_box\<close>; the coordinates are floating-point numbers) and their split into tetrahedra
  (\<open>build_box_internal\<close> of \<open>src/src/Omega_h_build.cpp\<close>).
\<close>

section \<open>The vertices of a box\<close>

definition make_1d_box_conn :: "lo \<Rightarrow> lo list option" where
  "make_1d_box_conn nx = do {
     let ne = nx;
     ev2v \<leftarrow> alloc (ne * 2);
     ev2v \<leftarrow> parallel_for ne (\<lambda>q ev2v. do {
       let i = q smod ne;
       ev2v \<leftarrow> wr ev2v (q * 2 + 0) (Some (i + 0));
       wr ev2v (q * 2 + 1) (Some (i + 1))
     }) ev2v;
     freeze ev2v
   }"

definition make_2d_box_conn :: "lo \<Rightarrow> lo \<Rightarrow> lo list option" where
  "make_2d_box_conn nx ny = do {
     let nq = nx * ny;
     let nvx = nx + 1;
     qv2v \<leftarrow> alloc (nq * 4);
     qv2v \<leftarrow> parallel_for nq (\<lambda>q qv2v. do {
       let i = q smod nx;
       let j = q sdiv nx;
       qv2v \<leftarrow> wr qv2v (q * 4 + 0) (Some ((j + 0) * nvx + (i + 0)));
       qv2v \<leftarrow> wr qv2v (q * 4 + 1) (Some ((j + 0) * nvx + (i + 1)));
       qv2v \<leftarrow> wr qv2v (q * 4 + 2) (Some ((j + 1) * nvx + (i + 1)));
       wr qv2v (q * 4 + 3) (Some ((j + 1) * nvx + (i + 0)))
     }) qv2v;
     freeze qv2v
   }"

definition make_3d_box_conn :: "lo \<Rightarrow> lo \<Rightarrow> lo \<Rightarrow> lo list option" where
  "make_3d_box_conn nx ny nz = do {
     let nxy = nx * ny;
     let nh = nx * ny * nz;
     let nvx = nx + 1;
     let nvy = ny + 1;
     let nvxy = nvx * nvy;
     hv2v \<leftarrow> alloc (nh * 8);
     hv2v \<leftarrow> parallel_for nh (\<lambda>h hv2v. do {
       let ij = h smod nxy;
       let k = h sdiv nxy;
       let i = ij smod nx;
       let j = ij sdiv nx;
       hv2v \<leftarrow> wr hv2v (h * 8 + 0) (Some ((k + 0) * nvxy + (j + 0) * nvx + (i + 0)));
       hv2v \<leftarrow> wr hv2v (h * 8 + 1) (Some ((k + 0) * nvxy + (j + 0) * nvx + (i + 1)));
       hv2v \<leftarrow> wr hv2v (h * 8 + 2) (Some ((k + 0) * nvxy + (j + 1) * nvx + (i + 1)));
       hv2v \<leftarrow> wr hv2v (h * 8 + 3) (Some ((k + 0) * nvxy + (j + 1) * nvx + (i + 0)));
       hv2v \<leftarrow> wr hv2v (h * 8 + 4) (Some ((k + 1) * nvxy + (j + 0) * nvx + (i + 0)));
       hv2v \<leftarrow> wr hv2v (h * 8 + 5) (Some ((k + 1) * nvxy + (j + 0) * nvx + (i + 1)));
       hv2v \<leftarrow> wr hv2v (h * 8 + 6) (Some ((k + 1) * nvxy + (j + 1) * nvx + (i + 1)));
       wr hv2v (h * 8 + 7) (Some ((k + 1) * nvxy + (j + 1) * nvx + (i + 0)))
     }) hv2v;
     freeze hv2v
   }"

section \<open>Splitting a box\<close>

definition box_hex :: "lo \<Rightarrow> lo \<Rightarrow> lo \<Rightarrow> lo \<Rightarrow> lo \<Rightarrow> lo list" where
  "box_hex nvx nvxy i j k = [
    (k + 0) * nvxy + (j + 0) * nvx + (i + 0), (k + 0) * nvxy + (j + 0) * nvx + (i + 1),
    (k + 0) * nvxy + (j + 1) * nvx + (i + 1), (k + 0) * nvxy + (j + 1) * nvx + (i + 0),
    (k + 1) * nvxy + (j + 0) * nvx + (i + 0), (k + 1) * nvxy + (j + 0) * nvx + (i + 1),
    (k + 1) * nvxy + (j + 1) * nvx + (i + 1), (k + 1) * nvxy + (j + 1) * nvx + (i + 0)]"

definition box_hexes :: "lo \<Rightarrow> lo \<Rightarrow> lo \<Rightarrow> lo list list" where
  "box_hexes nx ny nz = map (\<lambda>h. box_hex (nx + 1) ((nx + 1) * (ny + 1))
    (int h mod (nx * ny) mod nx) (int h mod (nx * ny) div nx) (int h div (nx * ny))) [0..<nat (nx * ny * nz)]"

lemma make_3d_box_conn_eq:
  assumes "0 < nx" "0 < ny" "0 < nz"
  shows "make_3d_box_conn nx ny nz = Some (concat (box_hexes nx ny nz))"
proof -
  have xy: "0 < nx * ny" using assms by simp
  let ?f = "\<lambda>h hv2v. do {
       let ij = h smod (nx * ny);
       let k = h sdiv (nx * ny);
       let i = ij smod nx;
       let j = ij sdiv nx;
       hv2v \<leftarrow> wr hv2v (h * 8 + 0) (Some ((k + 0) * ((nx + 1) * (ny + 1)) + (j + 0) * (nx + 1) + (i + 0)));
       hv2v \<leftarrow> wr hv2v (h * 8 + 1) (Some ((k + 0) * ((nx + 1) * (ny + 1)) + (j + 0) * (nx + 1) + (i + 1)));
       hv2v \<leftarrow> wr hv2v (h * 8 + 2) (Some ((k + 0) * ((nx + 1) * (ny + 1)) + (j + 1) * (nx + 1) + (i + 1)));
       hv2v \<leftarrow> wr hv2v (h * 8 + 3) (Some ((k + 0) * ((nx + 1) * (ny + 1)) + (j + 1) * (nx + 1) + (i + 0)));
       hv2v \<leftarrow> wr hv2v (h * 8 + 4) (Some ((k + 1) * ((nx + 1) * (ny + 1)) + (j + 0) * (nx + 1) + (i + 0)));
       hv2v \<leftarrow> wr hv2v (h * 8 + 5) (Some ((k + 1) * ((nx + 1) * (ny + 1)) + (j + 0) * (nx + 1) + (i + 1)));
       hv2v \<leftarrow> wr hv2v (h * 8 + 6) (Some ((k + 1) * ((nx + 1) * (ny + 1)) + (j + 1) * (nx + 1) + (i + 1)));
       wr hv2v (h * 8 + 7) (Some ((k + 1) * ((nx + 1) * (ny + 1)) + (j + 1) * (nx + 1) + (i + 0)))
     }"
  have "do { s \<leftarrow> alloc (nx * ny * nz * int 8); s \<leftarrow> parallel_for (nx * ny * nz) ?f s; freeze s } =
      Some (concat (box_hexes nx ny nz))"
    unfolding box_hexes_def
  proof (rule fill_rows_same)
    fix k and s :: "lo option list" assume "int k < nx * ny * nz" and len: "length s = nat (nx * ny * nz) * 8"
    then have "k < nat (nx * ny * nz)" by simp
    then have fits: "k * 8 + 8 \<le> length s" using len by simp
    have nonneg: "0 \<le> int k mod (nx * ny)" using xy by simp
    show "?f (int k) s = Some (overwrite s (k * 8) (box_hex (nx + 1) ((nx + 1) * (ny + 1))
        (int k mod (nx * ny) mod nx) (int k mod (nx * ny) div nx) (int k div (nx * ny))))"
      using wr_8 [OF fits] unfolding box_hex_def Let_def
      by (simp add: smod_nonneg sdiv_nonneg xy assms(1) nonneg)
  qed (use assms in \<open>simp_all add: box_hex_def\<close>)
  then show ?thesis by (simp add: make_3d_box_conn_def Let_def)
qed

lemma box_hex_shape:
  assumes "0 < nvx" "nvx < nvxy" "0 \<le> i" "i + 1 < nvx"  "0 \<le> j" "0 \<le> k" "(j + 1) * nvx + i + 1 < nvxy"
    and "(k + 1) * nvxy + nvxy \<le> L"
  shows "length (box_hex nvx nvxy i j k) = 8" "distinct (box_hex nvx nvxy i j k)"
    "hex_in_place (box_hex nvx nvxy i j k)" "set (box_hex nvx nvxy i j k) \<subseteq> {0..<L}"
proof -
  define a where "a = k * nvxy + j * nvx + i"
  have e: "box_hex nvx nvxy i j k = [a, a + 1, a + nvx + 1, a + nvx, a + nvxy, a + nvxy + 1, a + nvxy + nvx + 1, a + nvxy + nvx]"
    by (simp add: box_hex_def a_def algebra_simps)
  have "0 \<le> j * nvx" using assms by simp
  moreover have "(j + 1) * nvx = j * nvx + nvx" by (simp add: algebra_simps)
  ultimately have n: "1 < nvx" "nvx + 1 < nvxy" using assms by linarith+
  show "length (box_hex nvx nvxy i j k) = 8" by (simp add: e)
  show "distinct (box_hex nvx nvxy i j k)" using n by (simp add: e)
  have least: "Min (set (box_hex nvx nvxy i j k)) = a" unfolding e using n by (intro Min_eqI) auto
  have up: "hex_upright (box_hex nvx nvxy i j k) = box_hex nvx nvxy i j k"
    using n by (simp add: hex_upright_def least) (simp add: e)
  have "hex_flags (box_hex nvx nvxy i j k) = [True, True, True]"
    using n by (simp add: e hex_flags_def hex_bur_faces_def diag_lt_def min_def)
  then show "hex_in_place (box_hex nvx nvxy i j k)"
    unfolding hex_in_place_def up least by (simp add: e)
  obtain P Q where PQ: "P = k * nvxy" "Q = j * nvx" by simp
  have "0 \<le> P" "0 \<le> Q" "a = P + Q + i" "Q + nvx + i + 1 < nvxy" "P + nvxy + nvxy \<le> L"
    using assms unfolding PQ a_def by (simp_all add: algebra_simps)
  then show "set (box_hex nvx nvxy i j k) \<subseteq> {0..<L}" unfolding e using n assms(3) by simp
qed


lemma box_hexes_shape:
  assumes pos: "0 < nx" "0 < ny" "0 < nz" and h: "h \<in> set (box_hexes nx ny nz)"
  shows "length h = 8" "distinct h" "hex_in_place h" "set h \<subseteq> {0..<(nx + 1) * (ny + 1) * (nz + 1)}"
proof -
  obtain m :: nat where m': "m < nat (nx * ny * nz)" and e: "h = box_hex (nx + 1) ((nx + 1) * (ny + 1))
      (int m mod (nx * ny) mod nx) (int m mod (nx * ny) div nx) (int m div (nx * ny))"
    using h unfolding box_hexes_def by auto
  have m: "int m < nx * ny * nz" using m' by simp
  let ?i = "int m mod (nx * ny) mod nx" and ?j = "int m mod (nx * ny) div nx" and ?k = "int m div (nx * ny)"
  have xy: "0 < nx * ny" using pos by simp
  have i: "0 \<le> ?i" "?i < nx" using pos by simp_all
  have "int m mod (nx * ny) < ny * nx" using xy by (simp add: mult.commute)
  then have j: "0 \<le> ?j" "?j < ny" using pos xy by (simp_all add: pos_imp_zdiv_nonneg_iff div_below)
  have "int m < nz * (nx * ny)" using m by (simp add: algebra_simps)
  then have k: "0 \<le> ?k" "?k < nz" using xy by (simp_all add: pos_imp_zdiv_nonneg_iff div_below)
  have up: "(?j + 1) * (nx + 1) \<le> ny * (nx + 1)" "(?k + 1) * ((nx + 1) * (ny + 1)) \<le> nz * ((nx + 1) * (ny + 1))"
    using j(2) k(2) pos by (intro mult_right_mono; simp)+
  have split: "(nx + 1) * (ny + 1) = ny * (nx + 1) + (nx + 1)"
    "(nx + 1) * (ny + 1) * (nz + 1) = nz * ((nx + 1) * (ny + 1)) + (nx + 1) * (ny + 1)" by (simp_all add: algebra_simps)
  have "(nx + 1) * 1 < (nx + 1) * (ny + 1)" using pos by (intro mult_strict_left_mono) simp_all
  then have wide: "nx + 1 < (nx + 1) * (ny + 1)" by simp
  have fit: "(?j + 1) * (nx + 1) + ?i + 1 < (nx + 1) * (ny + 1)" using up(1) i(2) split(1) by linarith
  have all: "(?k + 1) * ((nx + 1) * (ny + 1)) + (nx + 1) * (ny + 1) \<le> (nx + 1) * (ny + 1) * (nz + 1)"
    using up(2) split(2) by simp
  have "0 < nx + 1" "?i + 1 < nx + 1" using pos(1) i(2) by linarith+
  then show "length h = 8" "distinct h" "hex_in_place h" "set h \<subseteq> {0..<(nx + 1) * (ny + 1) * (nz + 1)}"
    unfolding e by (rule box_hex_shape [OF _ wide i(1) _ j(1) k(1) fit all])+
qed

text \<open>C2. A box of \<open>nx\<close> by \<open>ny\<close> by \<open>nz\<close> cells: \<open>make_3d_box\<close> gives one hexahedron per cell with 8 distinct vertices
among the \<open>(nx + 1) (ny + 1) (nz + 1)\<close> of the grid, and \<open>tets_from_hexes\<close> splits each of them into
tetrahedra whose oriented boundary is that of the cell with its faces split at their least vertices:
none of the cells of a box needs the rotations that lose vertices.  Indices are mathematical integers: the
box is as large as one likes, where the code needs \<open>8 nx ny nz\<close> to fit 32 bits.\<close>

theorem box_tets_conforming:
  assumes "0 < nx" "0 < ny" "0 < nz"
  shows "\<exists>H T. make_3d_box_conn nx ny nz = Some (concat H) \<and> int (length H) = nx * ny * nz \<and>
    tets_from_hexes (concat H) = Some (concat (concat T)) \<and> length T = length H \<and>
    (\<forall>k < length H. length (H ! k) = 8 \<and> distinct (H ! k) \<and> set (H ! k) \<subseteq> {0..<(nx + 1) * (ny + 1) * (nz + 1)} \<and>
      bounds 3 (T ! k) (concat (map split_quad (hex_faces (H ! k)))))"
proof -
  let ?H = "box_hexes nx ny nz"
  note shape = box_hexes_shape [OF assms nth_mem]
  obtain T where T: "tets_from_hexes (concat ?H) = Some (concat (concat T))" "length T = length ?H"
    "\<forall>k < length ?H. if hex_in_place (?H ! k) then bounds 3 (T ! k) (concat (map split_quad (hex_faces (?H ! k))))
       else card (\<Union>t \<in> set (T ! k). set t) \<le> 4"
    using tets_rows [of ?H] box_hexes_shape(1,2) [OF assms] by blast
  have "int (length ?H) = nx * ny * nz" using assms by (simp add: box_hexes_def)
  moreover have "bounds 3 (T ! k) (concat (map split_quad (hex_faces (?H ! k))))" if "k < length ?H" for k
    using T(3) shape(3) [OF that] that by auto
  ultimately show ?thesis
    using make_3d_box_conn_eq [OF assms] T(1,2) shape by (intro exI [of _ ?H] exI [of _ T]) blast
qed

theorem box_tets_conforming_witness:
  "\<exists>H T. make_3d_box_conn 2 1 1 = Some (concat H) \<and> int (length H) = 2 \<and> tets_from_hexes (concat H) = Some (concat (concat T)) \<and>
    bounds 3 (T ! 1) (concat (map split_quad (hex_faces (H ! 1))))"
proof -
  obtain H T where "make_3d_box_conn 2 1 1 = Some (concat H)" "int (length H) = 2 * 1 * 1"
    "tets_from_hexes (concat H) = Some (concat (concat T))"
    "\<forall>k < length H. bounds 3 (T ! k) (concat (map split_quad (hex_faces (H ! k))))"
    using box_tets_conforming [of 2 1 1] by fastforce
  then show ?thesis by (intro exI [of _ H] exI [of _ T]) simp
qed

end
