(* ===== verification/Refine.thy ===== *)
theory Refine
  imports Local_Arrays
begin

text \<open>
  Edge splits (\<open>src/src/Omega_h_refine_topology.cpp\<close>): the new entities that appear when key edges get midpoint
  vertices.

  The arrays that the C++ code asks of the mesh are arguments: \<open>ev2v\<close> and \<open>dv2v\<close> for \<open>ask_verts_of\<close>, \<open>e2d\<close>
  for \<open>ask_up(EDGE, dim)\<close>.  A pair of output parameters is a pair of results.
\<close>

section \<open>The operations\<close>

definition flip_new_elem :: "int \<Rightarrow> 'a list \<Rightarrow> lo \<Rightarrow> 'a list option" where
  "flip_new_elem dim ev b = (if dim = 3 then swap2 ev (b + 1) (b + 2) else Some ev)"

definition refine_edges_to_pairs ::
  "lo list \<Rightarrow> lo list \<Rightarrow> lo list \<Rightarrow> lo list \<Rightarrow> (lo list \<times> lo list) option" where
  "refine_edges_to_pairs edge_verts2verts keys2edges keys2midverts old_verts2new_verts = do {
     let nkeys = asize keys2edges;
     let ndoms = nkeys;
     let npairs = ndoms * 2;
     pair_verts2verts \<leftarrow> alloc (npairs * 2);
     pair_verts2verts \<leftarrow> parallel_for nkeys (\<lambda>key pair_verts2verts. do {
       edge \<leftarrow> rd keys2edges key;
       midvert \<leftarrow> rd keys2midverts key;
       v0 \<leftarrow> rd edge_verts2verts (edge * 2 + 0) \<bind> rd old_verts2new_verts;
       pair_verts2verts \<leftarrow> wr pair_verts2verts (key * 4 + 0) (Some v0);
       pair_verts2verts \<leftarrow> wr pair_verts2verts (key * 4 + 1) (Some midvert);
       pair_verts2verts \<leftarrow> wr pair_verts2verts (key * 4 + 2) (Some midvert);
       v1 \<leftarrow> rd edge_verts2verts (edge * 2 + 1) \<bind> rd old_verts2new_verts;
       wr pair_verts2verts (key * 4 + 3) (Some v1)
     }) pair_verts2verts;
     keys2pairs \<leftarrow> linear_array (nkeys + 1) 0 2;
     pair_verts2verts \<leftarrow> freeze pair_verts2verts;
     Some (keys2pairs, pair_verts2verts)
   }"

text \<open>One new cell: the side of \<open>d\<close> opposite to an end of the edge, joined to the midpoint.\<close>

definition write_pair ::
  "int \<Rightarrow> lo list \<Rightarrow> lo list \<Rightarrow> lo \<Rightarrow> lo \<Rightarrow> i8 \<Rightarrow> int \<Rightarrow> lo \<Rightarrow> lo option list \<Rightarrow> lo option list option" where
  "write_pair dim dom_verts2verts old_verts2new_verts midvert d code eev pair ppv = do {
     let dde = code_which_down code;
     let rot = code_rotation code;
     let dev = eev XOR rot;
     let ddv = simplex_down_template dim 1 dde dev;
     let dds = simplex_opposite_template dim 0 ddv;
     ppv \<leftarrow> for_range 0 dim (\<lambda>dsv ppv. do {
       let ddv2 = simplex_down_template dim (dim - 1) dds dsv;
       nv \<leftarrow> rd dom_verts2verts (d * (dim + 1) + ddv2) \<bind> rd old_verts2new_verts;
       wr ppv (pair * (dim + 1) + dsv) (Some nv)
     }) ppv;
     ppv \<leftarrow> wr ppv (pair * (dim + 1) + dim) (Some midvert);
     flip_new_elem dim ppv (pair * (dim + 1))
   }"

definition refine_domains_to_pairs ::
  "int \<Rightarrow> lo list \<Rightarrow> lo list \<Rightarrow> adj \<Rightarrow> lo list \<Rightarrow> lo list \<Rightarrow> lo list \<Rightarrow> (lo list \<times> lo list) option" where
  "refine_domains_to_pairs dim edge_verts2verts dom_verts2verts edges2doms keys2edges keys2midverts old_verts2new_verts = do {
     omega_check (dim > 0);
     if dim = 1 then refine_edges_to_pairs edge_verts2verts keys2edges keys2midverts old_verts2new_verts
     else do {
       let nkeys = asize keys2edges;
       let edges2edge_doms = a2ab edges2doms;
       let edge_doms2doms = ab2b edges2doms;
       edge_dom_codes \<leftarrow> adj_codes edges2doms;
       edge_dom_degrees \<leftarrow> get_degrees edges2edge_doms;
       key_dom_degrees \<leftarrow> unmap keys2edges edge_dom_degrees 1;
       keys2key_doms \<leftarrow> offset_scan key_dom_degrees;
       ndoms \<leftarrow> rd_last keys2key_doms;
       let npairs = ndoms * 2;
       keys2pairs \<leftarrow> multiply_each_by keys2key_doms 2;
       pair_verts2verts \<leftarrow> alloc (npairs * (dim + 1));
       pair_verts2verts \<leftarrow> parallel_for nkeys (\<lambda>key pair_verts2verts. do {
         edge \<leftarrow> rd keys2edges key;
         midvert \<leftarrow> rd keys2midverts key;
         pair \<leftarrow> rd keys2pairs key;
         first \<leftarrow> rd edges2edge_doms edge;
         stop \<leftarrow> rd edges2edge_doms (edge + 1);
         (pair, pair_verts2verts) \<leftarrow> for_range first stop (\<lambda>edge_dom (pair, pair_verts2verts). do {
           d \<leftarrow> rd edge_doms2doms edge_dom;
           code \<leftarrow> rd edge_dom_codes edge_dom;
           for_range 0 2 (\<lambda>eev (pair, pair_verts2verts). do {
             pair_verts2verts \<leftarrow> write_pair dim dom_verts2verts old_verts2new_verts midvert d code eev pair pair_verts2verts;
             Some (pair + 1, pair_verts2verts)
           }) (pair, pair_verts2verts)
         }) (pair, pair_verts2verts);
         Some pair_verts2verts
       }) pair_verts2verts;
       pair_verts2verts \<leftarrow> freeze pair_verts2verts;
       Some (keys2pairs, pair_verts2verts)
     }
   }"

definition write_cut ::
  "int \<Rightarrow> lo list \<Rightarrow> lo list \<Rightarrow> lo \<Rightarrow> lo \<Rightarrow> i8 \<Rightarrow> lo \<Rightarrow> lo option list \<Rightarrow> lo option list option" where
  "write_cut dim dom_verts2verts old_verts2new_verts midvert d code c ccv = do {
     let dde = code_which_down code;
     let ddt = simplex_opposite_template dim 1 dde;
     ccv \<leftarrow> for_range 0 (dim - 1) (\<lambda>dtv ccv. do {
       let ddv2 = simplex_down_template dim (dim - 2) ddt dtv;
       nv \<leftarrow> rd dom_verts2verts (d * (dim + 1) + ddv2) \<bind> rd old_verts2new_verts;
       wr ccv (c * dim + dtv) (Some nv)
     }) ccv;
     wr ccv (c * dim + (dim - 1)) (Some midvert)
   }"

definition refine_domains_to_cuts ::
  "int \<Rightarrow> lo list \<Rightarrow> adj \<Rightarrow> lo list \<Rightarrow> lo list \<Rightarrow> lo list \<Rightarrow> (lo list \<times> lo list) option" where
  "refine_domains_to_cuts dim dom_verts2verts edges2doms keys2edges keys2midverts old_verts2new_verts = do {
     omega_check (dim > 1);
     let nkeys = asize keys2edges;
     let edges2edge_doms = a2ab edges2doms;
     let edge_doms2doms = ab2b edges2doms;
     edge_dom_codes \<leftarrow> adj_codes edges2doms;
     edge_dom_degrees \<leftarrow> get_degrees edges2edge_doms;
     key_dom_degrees \<leftarrow> unmap keys2edges edge_dom_degrees 1;
     keys2key_doms \<leftarrow> offset_scan key_dom_degrees;
     ndoms \<leftarrow> rd_last keys2key_doms;
     let ncuts = ndoms;
     let keys2cuts = keys2key_doms;
     cut_verts2verts \<leftarrow> alloc (ncuts * dim);
     cut_verts2verts \<leftarrow> parallel_for nkeys (\<lambda>key cut_verts2verts. do {
       edge \<leftarrow> rd keys2edges key;
       midvert \<leftarrow> rd keys2midverts key;
       c \<leftarrow> rd keys2cuts key;
       first \<leftarrow> rd edges2edge_doms edge;
       stop \<leftarrow> rd edges2edge_doms (edge + 1);
       (c, cut_verts2verts) \<leftarrow> for_range first stop (\<lambda>edge_dom (c, cut_verts2verts). do {
         d \<leftarrow> rd edge_doms2doms edge_dom;
         code \<leftarrow> rd edge_dom_codes edge_dom;
         cut_verts2verts \<leftarrow> write_cut dim dom_verts2verts old_verts2new_verts midvert d code c cut_verts2verts;
         Some (c + 1, cut_verts2verts)
       }) (c, cut_verts2verts);
       Some cut_verts2verts
     }) cut_verts2verts;
     cut_verts2verts \<leftarrow> freeze cut_verts2verts;
     Some (keys2cuts, cut_verts2verts)
   }"

definition combine_pairs_and_cuts ::
  "int \<Rightarrow> lo list \<Rightarrow> lo list \<Rightarrow> lo list \<Rightarrow> lo list \<Rightarrow> (lo list \<times> lo list) option" where
  "combine_pairs_and_cuts ent_dim keys2cuts keys2pairs cut_verts2verts pair_verts2verts = do {
     let nkeys = asize keys2cuts - 1;
     omega_check (nkeys = asize keys2pairs - 1);
     keys2ncuts \<leftarrow> get_degrees keys2cuts;
     keys2npairs \<leftarrow> get_degrees keys2pairs;
     keys2nprods \<leftarrow> add_each keys2ncuts keys2npairs;
     keys2prods \<leftarrow> offset_scan keys2nprods;
     nprods \<leftarrow> rd_last keys2prods;
     let nppv = simplex_degree ent_dim 0;
     prod_verts2verts \<leftarrow> alloc (nprods * nppv);
     prod_verts2verts \<leftarrow> parallel_for nkeys (\<lambda>key prod_verts2verts. do {
       prod \<leftarrow> rd keys2prods key;
       first_pair \<leftarrow> rd keys2pairs key;
       end_pair \<leftarrow> rd keys2pairs (key + 1);
       (prod, prod_verts2verts) \<leftarrow> for_range first_pair end_pair (\<lambda>pair (prod, prod_verts2verts). do {
         prod_verts2verts \<leftarrow> for_range 0 nppv (\<lambda>ppv prod_verts2verts. do {
           v \<leftarrow> rd pair_verts2verts (pair * nppv + ppv);
           wr prod_verts2verts (prod * nppv + ppv) (Some v)
         }) prod_verts2verts;
         Some (prod + 1, prod_verts2verts)
       }) (prod, prod_verts2verts);
       first_cut \<leftarrow> rd keys2cuts key;
       end_cut \<leftarrow> rd keys2cuts (key + 1);
       (prod, prod_verts2verts) \<leftarrow> for_range first_cut end_cut (\<lambda>c (prod, prod_verts2verts). do {
         prod_verts2verts \<leftarrow> for_range 0 nppv (\<lambda>ppv prod_verts2verts. do {
           v \<leftarrow> rd cut_verts2verts (c * nppv + ppv);
           wr prod_verts2verts (prod * nppv + ppv) (Some v)
         }) prod_verts2verts;
         Some (prod + 1, prod_verts2verts)
       }) (prod, prod_verts2verts);
       Some prod_verts2verts
     }) prod_verts2verts;
     prod_verts2verts \<leftarrow> freeze prod_verts2verts;
     Some (keys2prods, prod_verts2verts)
   }"

text \<open>\<open>verts_of d\<close> and \<open>up d\<close> are \<open>ask_verts_of(d)\<close> and \<open>ask_up(EDGE, d)\<close> of a mesh of dimension \<open>mesh_dim\<close>.\<close>

definition refine_products ::
  "int \<Rightarrow> (int \<Rightarrow> lo list) \<Rightarrow> (int \<Rightarrow> adj) \<Rightarrow> int \<Rightarrow> lo list \<Rightarrow> lo list \<Rightarrow> lo list \<Rightarrow> (lo list \<times> lo list) option" where
  "refine_products mesh_dim verts_of up ent_dim keys2edges keys2midverts old_verts2new_verts = do {
     (keys2pairs, pair_verts2verts) \<leftarrow>
       refine_domains_to_pairs ent_dim (verts_of 1) (verts_of ent_dim) (up ent_dim) keys2edges keys2midverts old_verts2new_verts;
     if ent_dim = mesh_dim then Some (keys2pairs, pair_verts2verts)
     else do {
       (keys2cuts, cut_verts2verts) \<leftarrow>
         refine_domains_to_cuts (ent_dim + 1) (verts_of (ent_dim + 1)) (up (ent_dim + 1)) keys2edges keys2midverts
           old_verts2new_verts;
       combine_pairs_and_cuts ent_dim keys2cuts keys2pairs cut_verts2verts pair_verts2verts
     }
   }"


section \<open>The pieces of one cell\<close>

text \<open>The vertices of a new cell by their numbers in the old one; the midpoint is number \<open>dim + 1\<close>.\<close>

definition pair_template :: "int \<Rightarrow> int \<Rightarrow> int \<Rightarrow> int \<Rightarrow> int list" where
  "pair_template dim which_down rot eev = (
     let dds = simplex_opposite_template dim 0 (simplex_down_template dim 1 which_down (eev XOR rot));
         side = map (simplex_down_template dim (dim - 1) dds) [0..dim - 1]
     in (if dim = 3 then [side ! 0, side ! 2, side ! 1] else side) @ [dim + 1])"

definition cut_template :: "int \<Rightarrow> int \<Rightarrow> int list" where
  "cut_template dim which_down =
     map (simplex_down_template dim (dim - 2) (simplex_opposite_template dim 1 which_down)) [0..dim - 2] @ [dim + 1]"

text \<open>A side that holds the edge is split in two at the midpoint.\<close>

definition replace_vert :: "'a \<Rightarrow> 'a \<Rightarrow> 'a list \<Rightarrow> 'a list" where
  "replace_vert v m = map (\<lambda>x. if x = v then m else x)"

definition split_side :: "'a \<Rightarrow> 'a \<Rightarrow> 'a \<Rightarrow> 'a list \<Rightarrow> 'a list list" where
  "split_side m u0 u1 s = (if u0 \<in> set s \<and> u1 \<in> set s then [replace_vert u0 m s, replace_vert u1 m s] else [s])"

definition edge_end :: "int \<Rightarrow> int \<Rightarrow> int \<Rightarrow> int \<Rightarrow> int" where
  "edge_end dim which_down rot eev = simplex_down_template dim 1 which_down (eev XOR rot)"

text \<open>The codes of an edge in a triangle and in a tetrahedron.\<close>

definition edge_codes :: "int \<Rightarrow> (int \<times> int) list" where
  "edge_codes dim = List.product [0..simplex_degree dim 1 - 1] [0, 1]"

lemma pair_templates_2:
  "\<forall>(w, r) \<in> set (edge_codes 2).
    bounds 2 [pair_template 2 w r 0] (facets 2 (replace_vert (edge_end 2 w r 0) 3 [0, 1, 2])) \<and>
    bounds 2 [pair_template 2 w r 1] (facets 2 (replace_vert (edge_end 2 w r 1) 3 [0, 1, 2])) \<and>
    bounds 2 [pair_template 2 w r 0, pair_template 2 w r 1]
      (concat (map (split_side 3 (edge_end 2 w r 0) (edge_end 2 w r 1)) (facets 2 [0, 1, 2])))"
  unfolding bounds_code by code_simp

lemma pair_templates_3:
  "\<forall>(w, r) \<in> set (edge_codes 3).
    bounds 3 [pair_template 3 w r 0] (facets 3 (replace_vert (edge_end 3 w r 0) 4 [0, 1, 2, 3])) \<and>
    bounds 3 [pair_template 3 w r 1] (facets 3 (replace_vert (edge_end 3 w r 1) 4 [0, 1, 2, 3])) \<and>
    bounds 3 [pair_template 3 w r 0, pair_template 3 w r 1]
      (concat (map (split_side 4 (edge_end 3 w r 0) (edge_end 3 w r 1)) (facets 3 [0, 1, 2, 3])))"
  unfolding bounds_code by code_simp

lemma cut_templates:
  "\<forall>(w, r) \<in> set (edge_codes 2). insert 3 ({0, 1, 2} - {edge_end 2 w r 0, edge_end 2 w r 1}) = set (cut_template 2 w)"
  "\<forall>(w, r) \<in> set (edge_codes 3). insert 4 ({0, 1, 2, 3} - {edge_end 3 w r 0, edge_end 3 w r 1}) = set (cut_template 3 w)"
  by code_simp+

lemma template_ranges:
  "\<forall>(w, r) \<in> set (edge_codes 2). \<forall>e \<in> set [0, 1]. 0 \<le> edge_end 2 w r e \<and> edge_end 2 w r e \<le> 2"
  "\<forall>(w, r) \<in> set (edge_codes 3). \<forall>e \<in> set [0, 1]. 0 \<le> edge_end 3 w r e \<and> edge_end 3 w r e \<le> 3"
  "\<forall>v \<in> set [0, 1, 2]. \<forall>j \<in> set [0, 1]. let i = simplex_down_template 2 1 (simplex_opposite_template 2 0 v) j in 0 \<le> i \<and> i \<le> 2"
  "\<forall>v \<in> set [0, 1, 2, 3]. \<forall>j \<in> set [0, 1, 2]. let i = simplex_down_template 3 2 (simplex_opposite_template 3 0 v) j in 0 \<le> i \<and> i \<le> 3"
  by code_simp+


section \<open>The loops\<close>

text \<open>The new vertices of an old cell, and the midpoint.\<close>

definition cell_and_mid :: "lo list \<Rightarrow> lo list \<Rightarrow> lo \<Rightarrow> int \<Rightarrow> lo" where
  "cell_and_mid old2new cell mid i = (map (\<lambda>v. old2new ! nat v) cell @ [mid]) ! nat i"

lemma opposite_side_range:
  assumes "n = 2 \<or> n = 3" "(w, r) \<in> set (edge_codes (int n))" "e \<in> {0, 1}" "0 \<le> j" "j < int n"
  shows "0 \<le> simplex_down_template (int n) (int n - 1) (simplex_opposite_template (int n) 0 (edge_end (int n) w r e)) j \<and>
    simplex_down_template (int n) (int n - 1) (simplex_opposite_template (int n) 0 (edge_end (int n) w r e)) j < int n + 1"
proof -
  consider "n = 2" | "n = 3" using assms(1) by blast
  then show ?thesis
  proof cases
    case 1
    have "j \<in> set [0, 1]" using assms(4,5) 1 by auto
    moreover have "edge_end 2 w r e \<in> set [0, 1, 2]" using template_ranges(1) assms(2,3) 1 by fastforce
    ultimately show ?thesis using template_ranges(3) 1 by (force simp: Let_def)
  next
    case 2
    have "j \<in> set [0, 1, 2]" using assms(4,5) 2 by auto
    moreover have "edge_end 3 w r e \<in> set [0, 1, 2, 3]" using template_ranges(2) assms(2,3) 2 by fastforce
    ultimately show ?thesis using template_ranges(4) 2 by (force simp: Let_def)
  qed
qed

lemma write_pair_eq:
  assumes n: "n = 2 \<or> n = 3" and D: "\<forall>r \<in> set D. length r = n + 1" "a < length D" "\<forall>v \<in> set (D ! a). 0 \<le> v \<and> v < asize old2new"
    and code: "(code_which_down code, code_rotation code) \<in> set (edge_codes (int n))" "e \<in> {0, 1}"
    and fits: "k * (n + 1) + (n + 1) \<le> length s"
  shows "write_pair (int n) (concat D) old2new m (int a) code e (int k) s =
    Some (overwrite s (k * (n + 1)) (map (cell_and_mid old2new (D ! a) m) (pair_template (int n) (code_which_down code) (code_rotation code) e)))"
proof -
  let ?v = "edge_end (int n) (code_which_down code) (code_rotation code) e"
  let ?i = "\<lambda>j. simplex_down_template (int n) (int n - 1) (simplex_opposite_template (int n) 0 ?v) j"
  let ?\<phi> = "cell_and_mid old2new (D ! a) m"
  have cell: "length (D ! a) = n + 1" using D by simp
  have val: "rd (concat D) (int a * int (n + 1) + ?i j) \<bind> rd old2new = Some (?\<phi> (?i j))" if "0 \<le> j" "j < int n" for j
  proof -
    have i: "0 \<le> ?i j" "?i j < int (n + 1)" using opposite_side_range [OF n code that] by simp_all
    then have "D ! a ! nat (?i j) \<in> set (D ! a)" using cell by simp
    then have "rd old2new (D ! a ! nat (?i j)) = Some (?\<phi> (?i j))"
      using D(3) i cell by (simp add: rd_Some cell_and_mid_def nth_append nat_less_iff)
    then show ?thesis using rd_concat_row [OF D(1,2) i] by simp
  qed
  have loop: "for_range 0 (int n) (\<lambda>j s. do { v \<leftarrow> rd (concat D) (int a * int (n + 1) + ?i j) \<bind> rd old2new;
      wr s (int (k * (n + 1)) + j) (Some v) }) s = Some (overwrite s (k * (n + 1)) (map (\<lambda>j. ?\<phi> (?i (int j))) [0..<n]))"
    using fits val by (intro write_loop) auto
  have last: "wr (overwrite s (k * (n + 1)) (map (\<lambda>j. ?\<phi> (?i (int j))) [0..<n])) (int (k * (n + 1)) + int n) (Some m) =
      Some (overwrite s (k * (n + 1)) (map (\<lambda>j. ?\<phi> (?i (int j))) [0..<n] @ [m]))"
    using fits by (intro wr_snoc) simp_all
  have mid: "?\<phi> (int n + 1) = m" using cell by (simp add: cell_and_mid_def nth_append nat_add_distrib)
  have pos: "int k * (int n + 1) = int (k * (n + 1))" "int a * (int n + 1) = int a * int (n + 1)" by (simp_all add: algebra_simps)
  have flip: "flip_new_elem (int n) (overwrite s (k * (n + 1)) (map (\<lambda>j. ?\<phi> (?i (int j))) [0..<n] @ [m])) (int (k * (n + 1))) =
      Some (overwrite s (k * (n + 1)) (map ?\<phi> (pair_template (int n) (code_which_down code) (code_rotation code) e)))"
  proof -
    consider "n = 2" | "n = 3" using n by blast
    then show ?thesis
    proof cases
      case 1
      then show ?thesis using mid by (simp add: flip_new_elem_def pair_template_def Let_def edge_end_def upto.simps upt_conv_Cons)
    next
      case 2
      have "map (\<lambda>j. ?\<phi> (?i (int j))) [0..<3] @ [m] = [?\<phi> (?i 0), ?\<phi> (?i 1), ?\<phi> (?i 2), m]" by (simp add: upt_conv_Cons)
      then show ?thesis
        using mid fits swap2_overwrite [of "k * 4" s "?\<phi> (?i 0)" "?\<phi> (?i 1)" "?\<phi> (?i 2)" m] 2
        by (simp add: flip_new_elem_def pair_template_def Let_def edge_end_def upto.simps)
    qed
  qed
  show ?thesis
    unfolding write_pair_def Let_def edge_end_def [symmetric] pos by (simp only: loop last flip bind.bind_lunit)
qed


text \<open>The loop over the keys of the uses of their edges; each use appends \<open>c\<close> rows of width \<open>w\<close>.\<close>

lemma key_loop:
  fixes Z :: "(lo \<times> i8) list list" and w c :: nat and h :: "lo \<Rightarrow> lo \<times> i8 \<Rightarrow> 'b list"
  defines "T \<equiv> \<lambda>keys. map (\<lambda>e. Z ! nat e) keys"
  assumes keys: "\<forall>e \<in> set keys. 0 \<le> e \<and> e < int (length Z)" and mids: "length mids = length keys"
    and pos: "\<And>k. k < length keys \<Longrightarrow> rd P (int k) = Some (int (row_start (T keys) k * c))"
    and step: "\<And>k u q s. k < length keys \<Longrightarrow> u \<in> set (T keys ! k) \<Longrightarrow> (q + c) * w \<le> length s \<Longrightarrow>
      g (mids ! k) (fst u) (snd u) (int q, s) = Some (int (q + c), overwrite s (q * w) (h (mids ! k) u))"
    and width: "\<And>k u. k < length keys \<Longrightarrow> u \<in> set (T keys ! k) \<Longrightarrow> length (h (mids ! k) u) = c * w"
  shows "do {
      s \<leftarrow> alloc (int (length (concat (T keys)) * c * w));
      s \<leftarrow> parallel_for (asize keys) (\<lambda>key s. do {
        edge \<leftarrow> rd keys key;
        mid \<leftarrow> rd mids key;
        q \<leftarrow> rd P key;
        first \<leftarrow> rd (offsets (sizes Z)) edge;
        stop \<leftarrow> rd (offsets (sizes Z)) (edge + 1);
        (q, s) \<leftarrow> for_range first stop (\<lambda>i (q, s). do {
          d \<leftarrow> rd (map fst (concat Z)) i;
          code \<leftarrow> rd (map snd (concat Z)) i;
          g mid d code (q, s)
        }) (q, s);
        Some s
      }) s;
      freeze s
    } = Some (concat (map (\<lambda>k. concat (map (h (mids ! k)) (T keys ! k))) [0..<length keys]))"
proof -
  let ?T = "T keys" and ?R = "map (\<lambda>k. concat (map (h (mids ! k)) (T keys ! k))) [0..<length keys]"
  have lenT: "length ?T = length keys" by (simp add: T_def)
  have lenR: "length (?R ! k) = length (?T ! k) * (c * w)" if "k < length keys" for k
    using length_concat_same [of "map (h (mids ! k)) (?T ! k)" "c * w"] width that by simp
  have start: "row_start ?R k = row_start ?T k * (c * w)" if "k \<le> length keys" for k
    using that
  proof (induction k)
    case (Suc k)
    then show ?case using lenR [of k] lenT by (simp add: row_start_Suc algebra_simps)
  qed simp
  have lenC: "length (concat ?R) = length (concat ?T) * c * w"
    using start [of "length keys"] row_start_length [of ?R] row_start_length [of ?T] lenT by simp
  let ?f = "\<lambda>key s. do {
        edge \<leftarrow> rd keys key;
        mid \<leftarrow> rd mids key;
        q \<leftarrow> rd P key;
        first \<leftarrow> rd (offsets (sizes Z)) edge;
        stop \<leftarrow> rd (offsets (sizes Z)) (edge + 1);
        (q, s) \<leftarrow> for_range first stop (\<lambda>i (q, s). do {
          d \<leftarrow> rd (map fst (concat Z)) i;
          code \<leftarrow> rd (map snd (concat Z)) i;
          g mid d code (q, s)
        }) (q, s);
        Some s
      }"
  have "do { s \<leftarrow> parallel_for (asize keys) ?f (fresh (int (length (concat ?R)))); freeze s } = Some (concat ?R)"
  proof (rule fill_rows_of)
    fix k and s :: "'b option list" assume "k < length ?R" and len: "length s = length (concat ?R)"
    then have k: "k < length keys" by simp
    obtain e where e: "keys ! k = int e" "e < length Z"
      using keys k by (metis nth_mem zero_le_imp_eq_int of_nat_less_iff)
    have Tk: "?T ! k = Z ! e" using k e(1) by (simp add: T_def)
    let ?p = "row_start ?T k * c"
    have fits: "(?p + c * length (cells Z e)) * w \<le> length s"
      using row_fits [of k ?R] k len lenR [OF k] start [of k] Tk by (simp add: algebra_simps)
    have "run_for (cells Z e) (\<lambda>i (q, s). do {
          d \<leftarrow> rd (map fst (concat Z)) i;
          code \<leftarrow> rd (map snd (concat Z)) i;
          g (mids ! k) d code (q, s)
        }) (int ?p, s) =
      Some (int (?p + c * length (cells Z e)), overwrite s (?p * w) (concat (map (\<lambda>i. h (mids ! k) (concat Z ! nat i)) (cells Z e))))"
    proof (rule push_blocks [OF _ _ fits])
      fix i assume i: "i \<in> set (cells Z e)"
      then have u: "concat Z ! nat i \<in> set (?T ! k)" using cell_in_row [OF e(2)] Tk by simp
      then show "length (h (mids ! k) (concat Z ! nat i)) = c * w" using width [OF k] by simp
      fix q and u :: "'b option list" assume "(q + c) * w \<le> length s" "length u = length s"
      then show "(case (int q, u) of (q, s) \<Rightarrow> do {
          d \<leftarrow> rd (map fst (concat Z)) i;
          code \<leftarrow> rd (map snd (concat Z)) i;
          g (mids ! k) d code (q, s)
        }) = Some (int (q + c), overwrite u (q * w) (h (mids ! k) (concat Z ! nat i)))"
        using rd_use [OF e(2) i] step [OF k u, of q] by simp
    qed
    moreover have "map (\<lambda>i. h (mids ! k) (concat Z ! nat i)) (cells Z e) = map (h (mids ! k)) (?T ! k)"
      using map_cells [OF e(2)] Tk by (metis (no_types, lifting) map_map comp_apply map_cong)
    moreover have "rd (offsets (sizes Z)) (int e) = Some (int (row_start Z e))"
      "rd (offsets (sizes Z)) (int e + 1) = Some (int (row_start Z e + length (Z ! e)))"
      using rd_offsets_sizes [of e Z] rd_offsets_next [of e Z] e(2) by simp_all
    ultimately have "?f (int k) s = Some (overwrite s (?p * w) (?R ! k))"
      using k mids e pos [OF k] by (simp add: for_range_def cells_def)
    then show "?f (int k) s = Some (overwrite s (row_start ?R k) (?R ! k))"
      using start [of k] k by (simp add: mult.assoc)
  qed (simp_all add: asize_def)
  then show ?thesis unfolding lenC [symmetric] by simp
qed


section \<open>What the operations build\<close>

definition use_pairs :: "int \<Rightarrow> lo list list \<Rightarrow> lo list \<Rightarrow> lo \<Rightarrow> lo \<times> i8 \<Rightarrow> lo list list" where
  "use_pairs dim D old2new m u = map (\<lambda>e. map (cell_and_mid old2new (D ! nat (fst u)) m)
     (pair_template dim (code_which_down (snd u)) (code_rotation (snd u)) e)) [0, 1]"

definition use_cut :: "int \<Rightarrow> lo list list \<Rightarrow> lo list \<Rightarrow> lo \<Rightarrow> lo \<times> i8 \<Rightarrow> lo list" where
  "use_cut dim D old2new m u = map (cell_and_mid old2new (D ! nat (fst u)) m) (cut_template dim (code_which_down (snd u)))"

text \<open>The uses of the edges by the cells of a mesh: cells with \<open>dim + 1\<close> distinct vertices, renumbered
injectively, and codes that say where the edge is in the cell.\<close>

definition uses_ok :: "nat \<Rightarrow> lo list list \<Rightarrow> lo list list \<Rightarrow> (lo \<times> i8) list list \<Rightarrow> lo list \<Rightarrow> bool" where
  "uses_ok n E D Z old2new \<longleftrightarrow>
    (\<forall>r \<in> set D. length r = n + 1 \<and> distinct (map (\<lambda>v. old2new ! nat v) r) \<and> (\<forall>v \<in> set r. 0 \<le> v \<and> v < asize old2new)) \<and>
    length Z = length E \<and>
    (\<forall>k < length Z. \<forall>u \<in> set (Z ! k). 0 \<le> fst u \<and> fst u < int (length D) \<and>
      (code_which_down (snd u), code_rotation (snd u)) \<in> set (edge_codes (int n)) \<and>
      E ! k = map (\<lambda>e. D ! nat (fst u) ! nat (edge_end (int n) (code_which_down (snd u)) (code_rotation (snd u)) e)) [0, 1])"

lemma pair_template_length: "n = 2 \<or> n = 3 \<Longrightarrow> length (pair_template (int n) w r e) = n + 1"
  by (auto simp: pair_template_def Let_def)

lemma cut_template_length: "n = 2 \<or> n = 3 \<Longrightarrow> length (cut_template (int n) w) = n"
  by (auto simp: cut_template_def)

lemma use_row:
  assumes "uses_ok n E D Z old2new" "0 \<le> e" "e < int (length Z)" "u \<in> set (Z ! nat e)"
  obtains a where "fst u = int a" "a < length D" "\<forall>v \<in> set (D ! a). 0 \<le> v \<and> v < asize old2new" "length (D ! a) = n + 1"
    "distinct (map (\<lambda>v. old2new ! nat v) (D ! a))"
    "(code_which_down (snd u), code_rotation (snd u)) \<in> set (edge_codes (int n))"
    "E ! nat e = map (\<lambda>e. D ! a ! nat (edge_end (int n) (code_which_down (snd u)) (code_rotation (snd u)) e)) [0, 1]"
proof -
  have k: "nat e < length Z" using assms(2,3) by simp
  let ?a = "nat (fst u)"
  have D: "\<forall>r \<in> set D. length r = n + 1 \<and> distinct (map (\<lambda>v. old2new ! nat v) r) \<and> (\<forall>v \<in> set r. 0 \<le> v \<and> v < asize old2new)"
    and u: "0 \<le> fst u \<and> fst u < int (length D) \<and>
      (code_which_down (snd u), code_rotation (snd u)) \<in> set (edge_codes (int n)) \<and>
      E ! nat e = map (\<lambda>e. D ! nat (fst u) ! nat (edge_end (int n) (code_which_down (snd u)) (code_rotation (snd u)) e)) [0, 1]"
    using assms(1,4) k unfolding uses_ok_def by blast+
  from u have a: "fst u = int ?a" "?a < length D" by (simp_all add: nat_less_iff)
  then have "D ! ?a \<in> set D" by simp
  then show ?thesis using D u by (intro that [of ?a] a) blast+
qed

lemma refine_domains_to_pairs_rows:
  assumes n: "n = 2 \<or> n = 3" and ok: "uses_ok n E D Z old2new" and keys: "\<forall>e \<in> set keys. 0 \<le> e \<and> e < int (length Z)"
    and mids: "length mids = length keys"
  shows "refine_domains_to_pairs (int n) (concat E) (concat D) (adj_of_uses Z) keys mids old2new =
    Some (map (\<lambda>x. x * 2) (offsets (sizes (map (\<lambda>e. Z ! nat e) keys))),
      concat (map (\<lambda>k. concat (map (\<lambda>u. concat (use_pairs (int n) D old2new (mids ! k) u)) (Z ! nat (keys ! k)))) [0..<length keys]))"
proof -
  let ?T = "map (\<lambda>e. Z ! nat e) keys"
  have degs: "unmap keys (sizes Z) 1 = Some (sizes ?T)"
    using keys by (subst unmap_1) (auto simp: sizes_def asize_def nat_less_iff)
  have last: "rd_last (offsets (sizes ?T)) = Some (int (length (concat ?T)))"
    using rd_offsets_sizes [of "length ?T" ?T] row_start_length [of ?T] by (simp add: rd_last_def)
  have mult: "multiply_each_by (offsets (sizes ?T)) 2 = Some (map (\<lambda>x. x * 2) (offsets (sizes ?T)))"
    by (simp add: multiply_each_by_def map_each_eq)
  let ?g = "\<lambda>midvert d code (pair, ppv). for_range 0 2 (\<lambda>eev (pair, ppv). do {
       ppv \<leftarrow> write_pair (int n) (concat D) old2new midvert d code eev pair ppv;
       Some (pair + 1, ppv)
     }) (pair, ppv)"
  let ?h = "\<lambda>m u. concat (use_pairs (int n) D old2new m u)"
  have loop: "do {
      s \<leftarrow> alloc (int (length (concat ?T) * 2 * (n + 1)));
      s \<leftarrow> parallel_for (asize keys) (\<lambda>key s. do {
        edge \<leftarrow> rd keys key;
        mid \<leftarrow> rd mids key;
        q \<leftarrow> rd (map (\<lambda>x. x * 2) (offsets (sizes ?T))) key;
        first \<leftarrow> rd (offsets (sizes Z)) edge;
        stop \<leftarrow> rd (offsets (sizes Z)) (edge + 1);
        (q, s) \<leftarrow> for_range first stop (\<lambda>i (q, s). do {
          d \<leftarrow> rd (map fst (concat Z)) i;
          code \<leftarrow> rd (map snd (concat Z)) i;
          ?g mid d code (q, s)
        }) (q, s);
        Some s
      }) s;
      freeze s
    } = Some (concat (map (\<lambda>k. concat (map (?h (mids ! k)) (?T ! k))) [0..<length keys]))"
  proof (rule key_loop [OF keys mids])
    fix k assume k: "k < length keys"
    then show "rd (map (\<lambda>x. x * 2) (offsets (sizes ?T))) (int k) = Some (int (row_start ?T k * 2))"
      using nth_offsets_sizes [of k ?T] by (simp add: nth_offsets_sizes)
    fix u assume u: "u \<in> set (?T ! k)"
    have "0 \<le> keys ! k" "keys ! k < int (length Z)" "u \<in> set (Z ! nat (keys ! k))" using keys k u by simp_all
    from use_row [OF ok this] obtain a where a: "fst u = int a" "a < length D" "\<forall>v \<in> set (D ! a). 0 \<le> v \<and> v < asize old2new"
      and c: "(code_which_down (snd u), code_rotation (snd u)) \<in> set (edge_codes (int n))" by metis
    have D: "\<forall>r \<in> set D. length r = n + 1" using ok by (simp add: uses_ok_def)
    show "length (?h (mids ! k) u) = 2 * (n + 1)" using pair_template_length [OF n] by (simp add: use_pairs_def)
    let ?p = "\<lambda>e. map (cell_and_mid old2new (D ! a) (mids ! k)) (pair_template (int n) (code_which_down (snd u)) (code_rotation (snd u)) e)"
    fix q and s :: "lo option list" assume fits: "(q + 2) * (n + 1) \<le> length s"
    have "run_for [0, 1] (\<lambda>eev (pair, ppv). do {
       ppv \<leftarrow> write_pair (int n) (concat D) old2new (mids ! k) (fst u) (snd u) eev pair ppv;
       Some (pair + 1, ppv)
     }) (int q, s) = Some (int (q + 1 * length [0, 1 :: int]), overwrite s (q * (n + 1)) (concat (map ?p [0, 1])))"
    proof (rule push_blocks)
      fix e :: int and j and v :: "lo option list"
      assume "e \<in> set [0, 1]" and f: "(j + 1) * (n + 1) \<le> length s" "length v = length s"
      then have e: "e \<in> {0, 1}" by simp
      have "write_pair (int n) (concat D) old2new (mids ! k) (int a) (snd u) e (int j) v = Some (overwrite v (j * (n + 1)) (?p e))"
        using f by (intro write_pair_eq [OF n D a(2,3) c e]) (simp add: algebra_simps)
      then show "(case (int j, v) of (pair, ppv) \<Rightarrow> do {
          ppv \<leftarrow> write_pair (int n) (concat D) old2new (mids ! k) (fst u) (snd u) e pair ppv;
          Some (pair + 1, ppv)
        }) = Some (int (j + 1), overwrite v (j * (n + 1)) (?p e))"
        using a(1) by simp
    qed (use fits pair_template_length [OF n] in \<open>simp_all add: algebra_simps\<close>)
    moreover have "[0..2 - 1] = [0, 1 :: int]" by (simp add: upto.simps)
    ultimately show "?g (mids ! k) (fst u) (snd u) (int q, s) = Some (int (q + 2), overwrite s (q * (n + 1)) (?h (mids ! k) u))"
      using a(1) by (simp add: for_range_def use_pairs_def)
  qed
  have big: "int (length (concat ?T) * 2 * (n + 1)) = int (length (concat ?T)) * 2 * (int n + 1)" by (simp add: algebra_simps)
  have rows: "map (\<lambda>k. concat (map (?h (mids ! k)) (?T ! k))) [0..<length keys] =
      map (\<lambda>k. concat (map (?h (mids ! k)) (Z ! nat (keys ! k)))) [0..<length keys]"
    by (intro map_cong) simp_all
  have "(int n > 0) = True" "(int n = 1) = False" using n by auto
  then show ?thesis
    unfolding refine_domains_to_pairs_def Let_def adj_of_uses_simps
    by (simp only: omega_check_bind if_True if_False bind.bind_lunit get_degrees_offsets degs offset_scan_eq last mult
        then_freeze [OF loop [unfolded prod.case big rows]])
qed


section \<open>The new cells fill the old ones\<close>

lemma replace_vert_rename:
  assumes "inj_on \<phi> (insert v (set xs))"
  shows "map \<phi> (replace_vert v m xs) = replace_vert (\<phi> v) (\<phi> m) (map \<phi> xs)"
proof -
  have "\<phi> x = \<phi> v \<longleftrightarrow> x = v" if "x \<in> set xs" for x using inj_on_eq_iff [OF assms, of x v] that by simp
  then show ?thesis by (auto simp: replace_vert_def)
qed

lemma split_side_rename:
  assumes "inj_on \<phi> A" "u0 \<in> A" "u1 \<in> A" "set xs \<subseteq> A"
  shows "map (map \<phi>) (split_side m u0 u1 xs) = split_side (\<phi> m) (\<phi> u0) (\<phi> u1) (map \<phi> xs)"
proof -
  have "inj_on \<phi> (insert u0 (set xs))" "inj_on \<phi> (insert u1 (set xs))" 
    by (rule inj_on_subset [OF assms(1)], use assms(2-4) in simp)+
  moreover have "\<phi> v \<in> set (map \<phi> xs) \<longleftrightarrow> v \<in> set xs" if "v \<in> A" for v
    using inj_on_image_mem_iff [OF assms(1) that assms(4)] by simp
  ultimately show ?thesis using assms(2,3) by (simp add: split_side_def replace_vert_rename)
qed

lemma pair_templates:
  assumes "n = 2 \<or> n = 3" "(w, r) \<in> set (edge_codes (int n))"
  shows "bounds (int n) [pair_template (int n) w r 0] (facets (int n) (replace_vert (edge_end (int n) w r 0) (int n + 1) [0..int n]))"
    "bounds (int n) [pair_template (int n) w r 1] (facets (int n) (replace_vert (edge_end (int n) w r 1) (int n + 1) [0..int n]))"
    "bounds (int n) [pair_template (int n) w r 0, pair_template (int n) w r 1]
      (concat (map (split_side (int n + 1) (edge_end (int n) w r 0) (edge_end (int n) w r 1)) (facets (int n) [0..int n])))"
    "edge_end (int n) w r 0 \<in> {0..int n}" "edge_end (int n) w r 1 \<in> {0..int n}"
    "set (cut_template (int n) w) = insert (int n + 1) ({0..int n} - {edge_end (int n) w r 0, edge_end (int n) w r 1})"
proof -
  have "n = 2 \<and> (w, r) \<in> set (edge_codes 2) \<or> n = 3 \<and> (w, r) \<in> set (edge_codes 3)" using assms by auto
  then have all: "bounds (int n) [pair_template (int n) w r 0] (facets (int n) (replace_vert (edge_end (int n) w r 0) (int n + 1) [0..int n])) \<and>
    bounds (int n) [pair_template (int n) w r 1] (facets (int n) (replace_vert (edge_end (int n) w r 1) (int n + 1) [0..int n])) \<and>
    bounds (int n) [pair_template (int n) w r 0, pair_template (int n) w r 1]
      (concat (map (split_side (int n + 1) (edge_end (int n) w r 0) (edge_end (int n) w r 1)) (facets (int n) [0..int n]))) \<and>
    edge_end (int n) w r 0 \<in> {0..int n} \<and> edge_end (int n) w r 1 \<in> {0..int n} \<and>
    set (cut_template (int n) w) = insert (int n + 1) ({0..int n} - {edge_end (int n) w r 0, edge_end (int n) w r 1})"
  proof
    assume c: "n = 2 \<and> (w, r) \<in> set (edge_codes 2)"
    have "{0..2} = {0, 1, 2 :: int}" by auto
    then show ?thesis
      using c pair_templates_2 template_ranges(1) cut_templates(1) by (auto simp: upto.simps)
  next
    assume c: "n = 3 \<and> (w, r) \<in> set (edge_codes 3)"
    have "{0..3} = {0, 1, 2, 3 :: int}" by auto
    then show ?thesis
      using c pair_templates_3 template_ranges(2) cut_templates(2) by (auto simp: upto.simps)
  qed
  then show "bounds (int n) [pair_template (int n) w r 0] (facets (int n) (replace_vert (edge_end (int n) w r 0) (int n + 1) [0..int n]))"
    "bounds (int n) [pair_template (int n) w r 1] (facets (int n) (replace_vert (edge_end (int n) w r 1) (int n + 1) [0..int n]))"
    "bounds (int n) [pair_template (int n) w r 0, pair_template (int n) w r 1]
      (concat (map (split_side (int n + 1) (edge_end (int n) w r 0) (edge_end (int n) w r 1)) (facets (int n) [0..int n])))"
    "edge_end (int n) w r 0 \<in> {0..int n}" "edge_end (int n) w r 1 \<in> {0..int n}"
    "set (cut_template (int n) w) = insert (int n + 1) ({0..int n} - {edge_end (int n) w r 0, edge_end (int n) w r 1})" by blast+
qed

lemma cell_renaming:
  assumes "length cell = n + 1" "distinct (map (\<lambda>v. old2new ! nat v) cell)"
  shows "inj_on (cell_and_mid old2new cell m) {0..int n}" "map (cell_and_mid old2new cell m) [0..int n] = map (\<lambda>v. old2new ! nat v) cell"
    "cell_and_mid old2new cell m (int n + 1) = m" "i \<in> {0..int n} \<Longrightarrow> cell_and_mid old2new cell m i = old2new ! nat (cell ! nat i)"
proof -
  let ?\<phi> = "cell_and_mid old2new cell m" and ?c = "map (\<lambda>v. old2new ! nat v) cell"
  have at: "?\<phi> i = ?c ! nat i" if "i \<in> {0..int n}" for i
    using that assms(1) by (simp add: cell_and_mid_def nth_append nat_less_iff)
  show "inj_on ?\<phi> {0..int n}"
  proof (rule inj_onI)
    fix i j assume "i \<in> {0..int n}" "j \<in> {0..int n}" "?\<phi> i = ?\<phi> j"
    then have "nat i = nat j" using at nth_eq_iff_index_eq [OF assms(2), of "nat i" "nat j"] assms(1) by (simp add: nat_less_iff)
    then show "i = j" using \<open>i \<in> _\<close> \<open>j \<in> _\<close> by (simp add: eq_nat_nat_iff)
  qed
  show "map ?\<phi> [0..int n] = ?c"
  proof (rule nth_equalityI)
    fix k assume "k < length (map ?\<phi> [0..int n])"
    then show "map ?\<phi> [0..int n] ! k = ?c ! k" using at [of "int k"] by simp
  qed (use assms(1) in simp)
  show "?\<phi> (int n + 1) = m" using assms(1) by (simp add: cell_and_mid_def nth_append nat_add_distrib)
  show "i \<in> {0..int n} \<Longrightarrow> ?\<phi> i = old2new ! nat (cell ! nat i)" using at [of i] assms(1) by (simp add: nat_less_iff)
qed

lemma facets_subset:
  assumes "n = 2 \<or> n = 3" "f \<in> set (facets (int n) [0..int n])"
  shows "set f \<subseteq> {0..int n}"
  using assms by (auto simp: upto.simps facets_list)

lemma use_pairs_bound:
  fixes m :: lo
  assumes n: "n = 2 \<or> n = 3" and ok: "uses_ok n E D Z old2new" and e: "0 \<le> e" "e < int (length Z)" "u \<in> set (Z ! nat e)"
  defines "cell \<equiv> map (\<lambda>v. old2new ! nat v) (D ! nat (fst u))" and "ends \<equiv> map (\<lambda>v. old2new ! nat v) (E ! nat e)"
    and "P \<equiv> use_pairs (int n) D old2new m u"
  shows "length P = 2" "bounds (int n) [P ! 0] (facets (int n) (replace_vert (ends ! 0) m cell))"
    "bounds (int n) [P ! 1] (facets (int n) (replace_vert (ends ! 1) m cell))"
    "bounds (int n) P (concat (map (split_side m (ends ! 0) (ends ! 1)) (facets (int n) cell)))"
    "set (use_cut (int n) D old2new m u) = insert m (set cell - set ends)"
proof -
  obtain a where a: "fst u = int a" "a < length D" "length (D ! a) = n + 1" "distinct (map (\<lambda>v. old2new ! nat v) (D ! a))"
    and c: "(code_which_down (snd u), code_rotation (snd u)) \<in> set (edge_codes (int n))"
    and E: "E ! nat e = map (\<lambda>e. D ! a ! nat (edge_end (int n) (code_which_down (snd u)) (code_rotation (snd u)) e)) [0, 1]"
    by (rule use_row [OF ok e]) blast
  let ?\<phi> = "cell_and_mid old2new (D ! a) m"
  let ?pt = "pair_template (int n) (code_which_down (snd u)) (code_rotation (snd u))"
  let ?tip = "edge_end (int n) (code_which_down (snd u)) (code_rotation (snd u))"
  note ren = cell_renaming [OF a(3,4), where m = m] and pt = pair_templates [OF n c]
  have P: "P = [map ?\<phi> (?pt 0), map ?\<phi> (?pt 1)]" unfolding P_def use_pairs_def using a(1) by simp
  have cell: "map ?\<phi> [0..int n] = cell" using ren(2) a(1) by (simp add: cell_def)
  have ends: "ends ! 0 = ?\<phi> (?tip 0)" "ends ! 1 = ?\<phi> (?tip 1)" "set ends = {?\<phi> (?tip 0), ?\<phi> (?tip 1)}"
    using ren(4) pt(4,5) by (simp_all add: ends_def E)
  have d: "int n = 2 \<or> int n = 3" and len: "\<forall>c \<in> set [?pt 0, ?pt 1]. length c = nat (int n) + 1"
    using n pair_template_length [OF n] by auto
  have one: "facets (int n) (replace_vert (?\<phi> v) m cell) = map (map ?\<phi>) (facets (int n) (replace_vert v (int n + 1) [0..int n]))"
    if "v \<in> {0..int n}" for v
  proof -
    have "inj_on ?\<phi> (insert v (set [0..int n]))" using ren(1) that by (simp add: insert_absorb)
    from replace_vert_rename [OF this, of "int n + 1"]
    have "replace_vert (?\<phi> v) m cell = map ?\<phi> (replace_vert v (int n + 1) [0..int n])" using cell ren(3) by simp
    then show ?thesis using n by (subst facets_rename [symmetric]) (auto simp: replace_vert_def)
  qed
  show "length P = 2" by (simp add: P)
  show "bounds (int n) [P ! 0] (facets (int n) (replace_vert (ends ! 0) m cell))"
    using bounds_rename [OF pt(1) d, of ?\<phi>] len one [OF pt(4)] by (simp add: P ends)
  show "bounds (int n) [P ! 1] (facets (int n) (replace_vert (ends ! 1) m cell))"
    using bounds_rename [OF pt(2) d, of ?\<phi>] len one [OF pt(5)] by (simp add: P ends del: One_nat_def)
  have "map (map ?\<phi>) (concat (map (split_side (int n + 1) (?tip 0) (?tip 1)) (facets (int n) [0..int n]))) =
      concat (map (\<lambda>f. split_side m (?\<phi> (?tip 0)) (?\<phi> (?tip 1)) (map ?\<phi> f)) (facets (int n) [0..int n]))"
    unfolding map_concat map_map comp_def
  proof (intro arg_cong [of _ _ concat] map_cong refl)
    fix f assume "f \<in> set (facets (int n) [0..int n])"
    from split_side_rename [OF ren(1) pt(4,5) facets_subset [OF n this], of "int n + 1"]
    show "map (map ?\<phi>) (split_side (int n + 1) (?tip 0) (?tip 1) f) = split_side m (?\<phi> (?tip 0)) (?\<phi> (?tip 1)) (map ?\<phi> f)"
      using ren(3) by simp
  qed
  also have "\<dots> = concat (map (split_side m (ends ! 0) (ends ! 1)) (facets (int n) cell))"
    using facets_rename [of "int n" "[0..int n]" ?\<phi>] n by (auto simp: ends cell comp_def simp del: One_nat_def)
  finally show "bounds (int n) P (concat (map (split_side m (ends ! 0) (ends ! 1)) (facets (int n) cell)))"
    using bounds_rename [OF pt(3) d, of ?\<phi>] len by (simp add: P)
  have "set (use_cut (int n) D old2new m u) = ?\<phi> ` insert (int n + 1) ({0..int n} - {?tip 0, ?tip 1})"
    using pt(6) a(1) by (simp add: use_cut_def)
  also have "\<dots> = insert m (?\<phi> ` ({0..int n} - {?tip 0, ?tip 1}))" using ren(3) by simp
  also have "?\<phi> ` ({0..int n} - {?tip 0, ?tip 1}) = ?\<phi> ` {0..int n} - ?\<phi> ` {?tip 0, ?tip 1}"
    using ren(1) pt(4,5) by (intro inj_on_image_set_diff) auto
  also have "?\<phi> ` {0..int n} = set cell" using arg_cong [OF cell, of set] by simp
  finally show "set (use_cut (int n) D old2new m u) = insert m (set cell - set ends)" using ends(3) by simp
qed


lemma write_cut_eq:
  assumes n: "n = 2 \<or> n = 3" and D: "\<forall>r \<in> set D. length r = n + 1" "a < length D" "\<forall>v \<in> set (D ! a). 0 \<le> v \<and> v < asize old2new"
    and code: "(code_which_down code, code_rotation code) \<in> set (edge_codes (int n))" and fits: "k * n + n \<le> length s"
  shows "write_cut (int n) (concat D) old2new m (int a) code (int k) s =
    Some (overwrite s (k * n) (map (cell_and_mid old2new (D ! a) m) (cut_template (int n) (code_which_down code))))"
proof -
  let ?w = "code_which_down code"
  let ?i = "\<lambda>j. simplex_down_template (int n) (int n - 2) (simplex_opposite_template (int n) 1 ?w) j"
  let ?\<phi> = "cell_and_mid old2new (D ! a) m"
  have cell: "length (D ! a) = n + 1" using D by simp
  have tips: "\<forall>(w, r) \<in> set (edge_codes 2). let i = simplex_down_template 2 0 (simplex_opposite_template 2 1 w) 0 in 0 \<le> i \<and> i \<le> 2"
    "\<forall>(w, r) \<in> set (edge_codes 3). \<forall>j \<in> set [0, 1]. let i = simplex_down_template 3 1 (simplex_opposite_template 3 1 w) j in 0 \<le> i \<and> i \<le> 3"
    by code_simp+
  have rng: "0 \<le> ?i j \<and> ?i j < int (n + 1)" if "0 \<le> j" "j < int (n - 1)" for j
  proof -
    consider "n = 2" "j = 0" | "n = 3" "j \<in> set [0, 1]" using n \<open>0 \<le> j\<close> \<open>j < int (n - 1)\<close> by fastforce
    then show ?thesis by cases (use tips code in \<open>force simp: Let_def\<close>)+
  qed
  have val: "rd (concat D) (int a * int (n + 1) + ?i j) \<bind> rd old2new = Some (?\<phi> (?i j))" if "0 \<le> j" "j < int (n - 1)" for j
  proof -
    have i: "0 \<le> ?i j" "?i j < int (n + 1)" using rng [OF that] by simp_all
    then have "D ! a ! nat (?i j) \<in> set (D ! a)" using cell by simp
    then have "rd old2new (D ! a ! nat (?i j)) = Some (?\<phi> (?i j))"
      using D(3) i cell by (simp add: rd_Some cell_and_mid_def nth_append nat_less_iff)
    then show ?thesis using rd_concat_row [OF D(1,2) i] by simp
  qed
  have loop: "for_range 0 (int (n - 1)) (\<lambda>j s. do { v \<leftarrow> rd (concat D) (int a * int (n + 1) + ?i j) \<bind> rd old2new;
      wr s (int (k * n) + j) (Some v) }) s = Some (overwrite s (k * n) (map (\<lambda>j. ?\<phi> (?i (int j))) [0..<n - 1]))"
    using fits val by (intro write_loop) auto
  have last: "wr (overwrite s (k * n) (map (\<lambda>j. ?\<phi> (?i (int j))) [0..<n - 1])) (int (k * n) + int (n - 1)) (Some m) =
      Some (overwrite s (k * n) (map (\<lambda>j. ?\<phi> (?i (int j))) [0..<n - 1] @ [m]))"
    using fits n by (intro wr_snoc) auto
  have row: "map (\<lambda>j. ?\<phi> (?i (int j))) [0..<n - 1] @ [m] = map ?\<phi> (cut_template (int n) ?w)"
  proof -
    have mid: "?\<phi> (int n + 1) = m" using cell by (simp add: cell_and_mid_def nth_append nat_add_distrib)
    consider "n = 2" | "n = 3" using n by blast
    then show ?thesis by cases (use mid in \<open>simp_all add: cut_template_def upto.simps upt_conv_Cons\<close>)
  qed
  have pos: "int n - 1 = int (n - 1)" "int k * int n = int (k * n)" "int a * (int n + 1) = int a * int (n + 1)"
    using n by (auto simp: algebra_simps)
  show ?thesis
    unfolding write_cut_def Let_def pos by (simp only: loop last row bind.bind_lunit)
qed

lemma refine_domains_to_cuts_rows:
  assumes n: "n = 2 \<or> n = 3" and ok: "uses_ok n E D Z old2new" and keys: "\<forall>e \<in> set keys. 0 \<le> e \<and> e < int (length Z)"
    and mids: "length mids = length keys"
  shows "refine_domains_to_cuts (int n) (concat D) (adj_of_uses Z) keys mids old2new =
    Some (offsets (sizes (map (\<lambda>e. Z ! nat e) keys)),
      concat (map (\<lambda>k. concat (map (use_cut (int n) D old2new (mids ! k)) (Z ! nat (keys ! k)))) [0..<length keys]))"
proof -
  let ?T = "map (\<lambda>e. Z ! nat e) keys"
  have degs: "unmap keys (sizes Z) 1 = Some (sizes ?T)"
    using keys by (subst unmap_1) (auto simp: sizes_def asize_def nat_less_iff)
  have last: "rd_last (offsets (sizes ?T)) = Some (int (length (concat ?T)))"
    using rd_offsets_sizes [of "length ?T" ?T] row_start_length [of ?T] by (simp add: rd_last_def)
  let ?g = "\<lambda>midvert d code (c, ccv). do {
       ccv \<leftarrow> write_cut (int n) (concat D) old2new midvert d code c ccv;
       Some (c + 1, ccv)
     }"
  have loop: "do {
      s \<leftarrow> alloc (int (length (concat ?T) * 1 * n));
      s \<leftarrow> parallel_for (asize keys) (\<lambda>key s. do {
        edge \<leftarrow> rd keys key;
        mid \<leftarrow> rd mids key;
        q \<leftarrow> rd (offsets (sizes ?T)) key;
        first \<leftarrow> rd (offsets (sizes Z)) edge;
        stop \<leftarrow> rd (offsets (sizes Z)) (edge + 1);
        (q, s) \<leftarrow> for_range first stop (\<lambda>i (q, s). do {
          d \<leftarrow> rd (map fst (concat Z)) i;
          code \<leftarrow> rd (map snd (concat Z)) i;
          ?g mid d code (q, s)
        }) (q, s);
        Some s
      }) s;
      freeze s
    } = Some (concat (map (\<lambda>k. concat (map (use_cut (int n) D old2new (mids ! k)) (?T ! k))) [0..<length keys]))"
  proof (rule key_loop [OF keys mids])
    fix k assume k: "k < length keys"
    then show "rd (offsets (sizes ?T)) (int k) = Some (int (row_start ?T k * 1))"
      using rd_offsets_sizes [of k ?T] by simp
    fix u assume u: "u \<in> set (?T ! k)"
    have "0 \<le> keys ! k" "keys ! k < int (length Z)" "u \<in> set (Z ! nat (keys ! k))" using keys k u by simp_all
    from use_row [OF ok this] obtain a where a: "fst u = int a" "a < length D" "\<forall>v \<in> set (D ! a). 0 \<le> v \<and> v < asize old2new"
      and c: "(code_which_down (snd u), code_rotation (snd u)) \<in> set (edge_codes (int n))" by metis
    have D: "\<forall>r \<in> set D. length r = n + 1" using ok by (simp add: uses_ok_def)
    show "length (use_cut (int n) D old2new (mids ! k) u) = 1 * n" using cut_template_length [OF n] by (simp add: use_cut_def)
    fix q and s :: "lo option list" assume "(q + 1) * n \<le> length s"
    then have "write_cut (int n) (concat D) old2new (mids ! k) (int a) (snd u) (int q) s =
        Some (overwrite s (q * n) (use_cut (int n) D old2new (mids ! k) u))"
      using write_cut_eq [OF n D a(2,3) c, of q s] a(1) by (simp add: algebra_simps use_cut_def)
    then show "?g (mids ! k) (fst u) (snd u) (int q, s) =
        Some (int (q + 1), overwrite s (q * n) (use_cut (int n) D old2new (mids ! k) u))"
      using a(1) by simp
  qed
  have big: "int (length (concat ?T) * 1 * n) = int (length (concat ?T)) * int n" by simp
  have rows: "map (\<lambda>k. concat (map (use_cut (int n) D old2new (mids ! k)) (?T ! k))) [0..<length keys] =
      map (\<lambda>k. concat (map (use_cut (int n) D old2new (mids ! k)) (Z ! nat (keys ! k)))) [0..<length keys]"
    by (intro map_cong) simp_all
  have "(int n > 1) = True" using n by auto
  then show ?thesis
    unfolding refine_domains_to_cuts_def Let_def adj_of_uses_simps
    by (simp only: omega_check_bind if_True bind.bind_lunit get_degrees_offsets degs offset_scan_eq last
        then_freeze [OF loop [unfolded prod.case big rows]])
qed


lemma combine_pairs_and_cuts_rows:
  assumes len: "length P = length C" and w: "simplex_degree ent_dim 0 = int w"
    and P: "\<forall>r \<in> set (concat P). length r = w" and C: "\<forall>r \<in> set (concat C). length r = w"
  shows "combine_pairs_and_cuts ent_dim (offsets (sizes C)) (offsets (sizes P)) (concat (concat C)) (concat (concat P)) =
    Some (offsets (sizes (map2 (@) P C)), concat (concat (map2 (@) P C)))"
proof -
  let ?Q = "map2 (@) P C" and ?R = "map concat (map2 (@) P C)"
  have szQ: "map2 (+) (sizes C) (sizes P) = sizes ?Q"
    using len by (intro nth_equalityI) (simp_all add: sizes_def add.commute)
  have add: "add_each (sizes C) (sizes P) = Some (sizes ?Q)"
    using len szQ by (simp add: add_each_def zip_each_eq)
  have last: "rd_last (offsets (sizes ?Q)) = Some (int (length (concat ?Q)))"
    using rd_offsets_sizes [of "length ?Q" ?Q] row_start_length [of ?Q] by (simp add: rd_last_def)
  have "\<forall>r \<in> set (concat ?Q). length r = w" using P C by (auto simp: set_zip)
  then have Q: "\<forall>T \<in> set ?Q. \<forall>t \<in> set T. length t = w" by auto
  have start: "row_start ?R k = row_start ?Q k * w" if "k < length P" for k
    using row_start_scaled [OF _ Q, of k] that len by simp
  have "length (concat (concat ?Q)) = length (concat ?Q) * w" using Q by (intro length_concat_same) auto
  then have total: "int (length (concat ?Q)) * int w = int (length (concat ?R))" by (simp add: concat_rows)
  let ?copy = "\<lambda>xs i (q, s). do {
      s \<leftarrow> for_range 0 (int w) (\<lambda>j s. do { v \<leftarrow> rd xs (i * int w + j); wr s (q * int w + j) (Some v) }) s;
      Some (q + 1, s)
    }"
  have "do { s \<leftarrow> parallel_for (int (length P)) (\<lambda>key s. do {
      prod \<leftarrow> rd (offsets (sizes ?Q)) key;
      first_pair \<leftarrow> rd (offsets (sizes P)) key;
      end_pair \<leftarrow> rd (offsets (sizes P)) (key + 1);
      (prod, s) \<leftarrow> for_range first_pair end_pair (?copy (concat (concat P))) (prod, s);
      first_cut \<leftarrow> rd (offsets (sizes C)) key;
      end_cut \<leftarrow> rd (offsets (sizes C)) (key + 1);
      (prod, s) \<leftarrow> for_range first_cut end_cut (?copy (concat (concat C))) (prod, s);
      Some s
    }) (fresh (int (length (concat ?R)))); freeze s } = Some (concat ?R)"
  proof (rule fill_rows_of)
    fix k and s :: "lo option list" assume "k < length ?R" and ls: "length s = length (concat ?R)"
    then have k: "k < length P" "k < length C" "k < length ?Q" "k < length ?R" using len by simp_all
    have Qk: "?Q ! k = P ! k @ C ! k" using k by simp
    let ?p = "row_start ?Q k"
    have wid: "length (concat (P ! k)) = length (P ! k) * w" "length (concat (C ! k)) = length (C ! k) * w"
      using P C k nth_mem by (intro length_concat_same; fastforce)+
    have fits: "(?p + length (P ! k) + length (C ! k)) * w \<le> length s"
      using row_fits [OF k(4)] ls start [OF k(1)] k wid by (simp add: algebra_simps)
    have 1: "for_range (int (row_start P k)) (int (row_start P k + length (P ! k))) (?copy (concat (concat P))) (int ?p, s) =
        Some (int (?p + length (P ! k)), overwrite s (?p * w) (concat (P ! k)))"
      using copy_rows_loop [OF P k(1), of ?p s] fits by (simp add: for_range_def cells_def algebra_simps)
    let ?s = "overwrite s (?p * w) (concat (P ! k))"
    have ls': "length ?s = length s" using fits wid by (simp add: algebra_simps)
    have 2: "for_range (int (row_start C k)) (int (row_start C k + length (C ! k))) (?copy (concat (concat C)))
        (int (?p + length (P ! k)), ?s) =
        Some (int (?p + length (P ! k) + length (C ! k)), overwrite ?s ((?p + length (P ! k)) * w) (concat (C ! k)))"
      using copy_rows_loop [OF C k(2), of "?p + length (P ! k)" ?s] fits ls' by (simp add: for_range_def cells_def algebra_simps)
    have 3: "overwrite ?s ((?p + length (P ! k)) * w) (concat (C ! k)) = overwrite s (row_start ?R k) (?R ! k)"
      using overwrite_overwrite [of "?p * w" "concat (P ! k)" "concat (C ! k)" s] fits wid start [OF k(1)] k
      by (simp add: algebra_simps)
    show "do {
      prod \<leftarrow> rd (offsets (sizes ?Q)) (int k);
      first_pair \<leftarrow> rd (offsets (sizes P)) (int k);
      end_pair \<leftarrow> rd (offsets (sizes P)) (int k + 1);
      (prod, s) \<leftarrow> for_range first_pair end_pair (?copy (concat (concat P))) (prod, s);
      first_cut \<leftarrow> rd (offsets (sizes C)) (int k);
      end_cut \<leftarrow> rd (offsets (sizes C)) (int k + 1);
      (prod, s) \<leftarrow> for_range first_cut end_cut (?copy (concat (concat C))) (prod, s);
      Some s
    } = Some (overwrite s (row_start ?R k) (?R ! k))"
      using rd_offsets_sizes [of k ?Q] rd_offsets_sizes [of k P] rd_offsets_next [of k P] rd_offsets_sizes [of k C]
        rd_offsets_next [of k C] k
      by (simp only: less_imp_le 1 2 3 prod.case bind.bind_lunit of_nat_add [symmetric])
  qed (use len in simp_all)
  then have loop: "do { s \<leftarrow> alloc (int (length (concat ?Q)) * int w); s \<leftarrow> parallel_for (int (length P)) (\<lambda>key s. do {
      prod \<leftarrow> rd (offsets (sizes ?Q)) key;
      first_pair \<leftarrow> rd (offsets (sizes P)) key;
      end_pair \<leftarrow> rd (offsets (sizes P)) (key + 1);
      (prod, s) \<leftarrow> for_range first_pair end_pair (?copy (concat (concat P))) (prod, s);
      first_cut \<leftarrow> rd (offsets (sizes C)) key;
      end_cut \<leftarrow> rd (offsets (sizes C)) (key + 1);
      (prod, s) \<leftarrow> for_range first_cut end_cut (?copy (concat (concat C))) (prod, s);
      Some s
    }) s; freeze s } = Some (concat ?R)" unfolding total by simp
  have n: "asize (offsets (sizes C)) - 1 = int (length P)" "asize (offsets (sizes P)) - 1 = int (length P)"
    using len by (simp_all add: asize_def)
  show ?thesis
    unfolding combine_pairs_and_cuts_def Let_def n w
    by (simp only: refl omega_check_bind if_True get_degrees_offsets add offset_scan_eq last bind.bind_lunit then_freeze [OF loop] concat_rows [of ?Q])
qed


lemma refine_edges_to_pairs_rows:
  assumes E: "\<forall>r \<in> set E. length r = 2 \<and> (\<forall>v \<in> set r. 0 \<le> v \<and> v < asize old2new)"
    and keys: "\<forall>e \<in> set keys. 0 \<le> e \<and> e < int (length E)" and mids: "length mids = length keys"
  shows "refine_edges_to_pairs (concat E) keys mids old2new =
    Some (offsets (replicate (length keys) 2), concat (map (\<lambda>k. let ends = map (\<lambda>v. old2new ! nat v) (E ! nat (keys ! k))
      in [ends ! 0, mids ! k, mids ! k, ends ! 1]) [0..<length keys]))"
proof -
  let ?r = "\<lambda>k. let ends = map (\<lambda>v. old2new ! nat v) (E ! nat (keys ! k)) in [ends ! 0, mids ! k, mids ! k, ends ! 1]"
  have E2: "\<forall>r \<in> set E. length r = 2" using E by simp
  have loop: "do { s \<leftarrow> alloc (asize keys * int 4); s \<leftarrow> parallel_for (asize keys) (\<lambda>key pair_verts2verts. do {
       edge \<leftarrow> rd keys key;
       midvert \<leftarrow> rd mids key;
       v0 \<leftarrow> rd (concat E) (edge * 2 + 0) \<bind> rd old2new;
       pair_verts2verts \<leftarrow> wr pair_verts2verts (key * 4 + 0) (Some v0);
       pair_verts2verts \<leftarrow> wr pair_verts2verts (key * 4 + 1) (Some midvert);
       pair_verts2verts \<leftarrow> wr pair_verts2verts (key * 4 + 2) (Some midvert);
       v1 \<leftarrow> rd (concat E) (edge * 2 + 1) \<bind> rd old2new;
       wr pair_verts2verts (key * 4 + 3) (Some v1)
     }) s; freeze s } = Some (concat (map ?r [0..<nat (asize keys)]))"
  proof (rule fill_rows_same)
    fix k and s :: "lo option list" assume "int k < asize keys" and len: "length s = nat (asize keys) * 4"
    then have k: "k < length keys" by (simp add: asize_def)
    then have fits: "k * 4 + 4 \<le> length s" using len by (simp add: asize_def)
    obtain e where e: "keys ! k = int e" "e < length E"
      using keys k by (metis nth_mem zero_le_imp_eq_int of_nat_less_iff)
    obtain a b where ab: "E ! e = [a, b]" "0 \<le> a" "a < asize old2new" "0 \<le> b" "b < asize old2new"
    proof -
      have "length (E ! e) = 2" "\<forall>v \<in> set (E ! e). 0 \<le> v \<and> v < asize old2new" using E nth_mem [OF e(2)] by blast+
      then show ?thesis using that by (cases "E ! e" rule: remdups_adj.cases) (auto simp: length_Suc_conv)
    qed
    have "rd (concat E) (int e * 2 + 0) = Some a" "rd (concat E) (int e * 2 + 1) = Some b"
      using rd_concat_row [OF E2 e(2), of 0] rd_concat_row [OF E2 e(2), of 1] ab(1) by simp_all
    moreover have "rd old2new a = Some (old2new ! nat a)" "rd old2new b = Some (old2new ! nat b)"
      using ab by (simp_all add: rd_Some)
    ultimately show "do {
       edge \<leftarrow> rd keys (int k);
       midvert \<leftarrow> rd mids (int k);
       v0 \<leftarrow> rd (concat E) (edge * 2 + 0) \<bind> rd old2new;
       pair_verts2verts \<leftarrow> wr s (int k * 4 + 0) (Some v0);
       pair_verts2verts \<leftarrow> wr pair_verts2verts (int k * 4 + 1) (Some midvert);
       pair_verts2verts \<leftarrow> wr pair_verts2verts (int k * 4 + 2) (Some midvert);
       v1 \<leftarrow> rd (concat E) (edge * 2 + 1) \<bind> rd old2new;
       wr pair_verts2verts (int k * 4 + 3) (Some v1)
     } = Some (overwrite s (k * 4) (?r k))"
      using wr_4 [OF fits, of "old2new ! nat a" "mids ! k" "mids ! k" "old2new ! nat b"] k mids e(1) ab(1) by simp
  qed (simp_all add: Let_def)
  have lin: "linear_array (asize keys + 1) 0 2 = Some (offsets (replicate (length keys) 2))"
  proof -
    have "linear_array (asize keys + 1) 0 2 = Some (map (\<lambda>k. 2 * int k) [0..<length keys + 1])"
      using fill_linear_array [of "asize keys + 1" 0 2] by (simp add: asize_def nat_add_distrib)
    also have "map (\<lambda>k. 2 * int k) [0..<length keys + 1] = offsets (replicate (length keys) 2)"
      by (intro nth_equalityI) (simp_all add: nth_offsets sum_list_replicate min_def del: upt_Suc)
    finally show ?thesis .
  qed
  have n: "nat (asize keys) = length keys" "asize keys * 2 * 2 = asize keys * int 4" by (simp_all add: asize_def)
  show ?thesis
    unfolding refine_edges_to_pairs_def Let_def n
    by (simp only: then_freeze_after [OF loop [unfolded n Let_def] lin])
qed


section \<open>Refinement\<close>

lemma all_less_two: "(\<forall>t < Suc (Suc 0). P t) \<longleftrightarrow> P 0 \<and> P (Suc 0)"
  by (auto simp: less_Suc_eq)

definition key_pairs :: "int \<Rightarrow> lo list list \<Rightarrow> (lo \<times> i8) list list \<Rightarrow> lo list \<Rightarrow> lo list \<Rightarrow> lo list \<Rightarrow> lo list list list list" where
  "key_pairs dim D Z keys mids old2new =
     map (\<lambda>k. map (use_pairs dim D old2new (mids ! k)) (Z ! nat (keys ! k))) [0..<length keys]"

definition key_cuts :: "int \<Rightarrow> lo list list \<Rightarrow> (lo \<times> i8) list list \<Rightarrow> lo list \<Rightarrow> lo list \<Rightarrow> lo list \<Rightarrow> lo list list list" where
  "key_cuts dim D Z keys mids old2new =
     map (\<lambda>k. map (use_cut dim D old2new (mids ! k)) (Z ! nat (keys ! k))) [0..<length keys]"

lemma pairs_as_rows:
  assumes n: "n = 2 \<or> n = 3" and ok: "uses_ok n E D Z old2new" and keys: "\<forall>e \<in> set keys. 0 \<le> e \<and> e < int (length Z)"
    and mids: "length mids = length keys"
  defines "Q \<equiv> key_pairs (int n) D Z keys mids old2new"
  shows "refine_domains_to_pairs (int n) (concat E) (concat D) (adj_of_uses Z) keys mids old2new =
    Some (offsets (sizes (map concat Q)), concat (concat (map concat Q)))" (is ?pairs)
    and "\<forall>r \<in> set (concat (map concat Q)). length r = n + 1"
proof -
  have two: "length (concat (Q ! k)) = length (Z ! nat (keys ! k)) * 2" if "k < length keys" for k
    using length_concat_same [of "Q ! k" 2] that by (simp add: Q_def key_pairs_def use_pairs_def)
  have "map (\<lambda>x. x * 2) (sizes (map (\<lambda>e. Z ! nat e) keys)) = sizes (map concat Q)"
  proof (rule nth_equalityI)
    fix k assume "k < length (map (\<lambda>x. x * 2) (sizes (map (\<lambda>e. Z ! nat e) keys)))"
    then have k: "k < length keys" "k < length Q" by (simp_all add: Q_def key_pairs_def)
    then show "map (\<lambda>x. x * 2) (sizes (map (\<lambda>e. Z ! nat e) keys)) ! k = sizes (map concat Q) ! k"
      using two [OF k(1)] by (simp add: sizes_def)
  qed (simp add: Q_def key_pairs_def)
  moreover have "concat (map (\<lambda>k. concat (map (\<lambda>u. concat (use_pairs (int n) D old2new (mids ! k) u)) (Z ! nat (keys ! k)))) [0..<length keys]) =
      concat (concat (map concat Q))"
    by (simp add: Q_def key_pairs_def concat_rows comp_def)
  ultimately show ?pairs
    using refine_domains_to_pairs_rows [OF n ok keys mids] offsets_times [of 2 "sizes (map (\<lambda>e. Z ! nat e) keys)"] by simp
  show "\<forall>r \<in> set (concat (map concat Q)). length r = n + 1"
    using pair_template_length [OF n] by (auto simp: Q_def key_pairs_def use_pairs_def)
qed

lemma cuts_as_rows:
  assumes n: "n = 2 \<or> n = 3" and ok: "uses_ok n E D Z old2new" and keys: "\<forall>e \<in> set keys. 0 \<le> e \<and> e < int (length Z)"
    and mids: "length mids = length keys"
  defines "C \<equiv> key_cuts (int n) D Z keys mids old2new"
  shows "refine_domains_to_cuts (int n) (concat D) (adj_of_uses Z) keys mids old2new =
    Some (offsets (sizes C), concat (concat C))" (is ?cuts)
    and "\<forall>r \<in> set (concat C). length r = n"
proof -
  have "sizes (map (\<lambda>e. Z ! nat e) keys) = sizes C"
    by (rule nth_equalityI) (simp_all add: C_def key_cuts_def sizes_def)
  moreover have "concat (map (\<lambda>k. concat (map (use_cut (int n) D old2new (mids ! k)) (Z ! nat (keys ! k)))) [0..<length keys]) = concat (concat C)"
    by (simp add: C_def key_cuts_def concat_rows comp_def)
  ultimately show ?cuts using refine_domains_to_cuts_rows [OF n ok keys mids] by simp
  show "\<forall>r \<in> set (concat C). length r = n"
    using cut_template_length [OF n] by (auto simp: C_def key_cuts_def use_cut_def)
qed

lemma key_pairs_bound:
  fixes mids :: "lo list"
  assumes n: "n = 2 \<or> n = 3" and ok: "uses_ok n E D Z old2new" and keys: "\<forall>e \<in> set keys. 0 \<le> e \<and> e < int (length Z)"
    and k: "k < length keys" and t: "t < length (Z ! nat (keys ! k))"
  defines "P \<equiv> key_pairs (int n) D Z keys mids old2new ! k ! t"
    and "cell \<equiv> map (\<lambda>v. old2new ! nat v) (D ! nat (fst (Z ! nat (keys ! k) ! t)))"
    and "ends \<equiv> map (\<lambda>v. old2new ! nat v) (E ! nat (keys ! k))"
  shows "length P = 2 \<and> bounds (int n) [P ! 0] (facets (int n) (replace_vert (ends ! 0) (mids ! k) cell)) \<and>
    bounds (int n) [P ! 1] (facets (int n) (replace_vert (ends ! 1) (mids ! k) cell)) \<and>
    bounds (int n) P (concat (map (split_side (mids ! k) (ends ! 0) (ends ! 1)) (facets (int n) cell)))"
    and "set (key_cuts (int n) D Z keys mids old2new ! k ! t) = insert (mids ! k) (set cell - set ends)"
proof -
  let ?u = "Z ! nat (keys ! k) ! t"
  have e: "0 \<le> keys ! k" "keys ! k < int (length Z)" "?u \<in> set (Z ! nat (keys ! k))" using keys k t by simp_all
  have P: "P = use_pairs (int n) D old2new (mids ! k) ?u" using k t by (simp add: P_def key_pairs_def)
  show "length P = 2 \<and> bounds (int n) [P ! 0] (facets (int n) (replace_vert (ends ! 0) (mids ! k) cell)) \<and>
    bounds (int n) [P ! 1] (facets (int n) (replace_vert (ends ! 1) (mids ! k) cell)) \<and>
    bounds (int n) P (concat (map (split_side (mids ! k) (ends ! 0) (ends ! 1)) (facets (int n) cell)))"
    unfolding P cell_def ends_def using use_pairs_bound(1-4) [OF n ok e, of "mids ! k"] by blast
  show "set (key_cuts (int n) D Z keys mids old2new ! k ! t) = insert (mids ! k) (set cell - set ends)"
    unfolding cell_def ends_def using use_pairs_bound(5) [OF n ok e, of "mids ! k"] k t by (simp add: key_cuts_def)
qed

text \<open>C1. Splitting edges of a mesh of triangles (\<open>n = 2\<close>) or tetrahedra (\<open>n = 3\<close>): \<open>refine_products\<close> for the elements
succeeds, and the products of a key are two new elements for every element around its edge, in the order
of the upward adjacency.  The first has the oriented boundary of the old element with the first end of the edge
replaced by the midpoint, the second that with the second end replaced; together they have the boundary of the
old element with each side that holds the edge split in two at the midpoint, so that neither a volume nor a side
is lost, doubled or inverted.\<close>

theorem refine_elements_fill:
  assumes "n = 2 \<or> n = 3" "uses_ok n E D Z old2new" "\<forall>e \<in> set keys. 0 \<le> e \<and> e < int (length Z)" "length mids = length keys"
    and "verts_of 1 = concat E" "verts_of (int n) = concat D" "up (int n) = adj_of_uses Z"
  shows "\<exists>Q. refine_products (int n) verts_of up (int n) keys mids old2new =
      Some (offsets (sizes (map concat Q)), concat (concat (map concat Q))) \<and> length Q = length keys \<and>
    (\<forall>k < length keys. length (Q ! k) = length (Z ! nat (keys ! k)) \<and> (\<forall>t < length (Z ! nat (keys ! k)).
      let cell = map (\<lambda>v. old2new ! nat v) (D ! nat (fst (Z ! nat (keys ! k) ! t)));
          ends = map (\<lambda>v. old2new ! nat v) (E ! nat (keys ! k))
      in length (Q ! k ! t) = 2 \<and>
        bounds (int n) [Q ! k ! t ! 0] (facets (int n) (replace_vert (ends ! 0) (mids ! k) cell)) \<and>
        bounds (int n) [Q ! k ! t ! 1] (facets (int n) (replace_vert (ends ! 1) (mids ! k) cell)) \<and>
        bounds (int n) (Q ! k ! t) (concat (map (split_side (mids ! k) (ends ! 0) (ends ! 1)) (facets (int n) cell)))))"
proof -
  let ?Q = "key_pairs (int n) D Z keys mids old2new"
  have "refine_products (int n) verts_of up (int n) keys mids old2new =
      Some (offsets (sizes (map concat ?Q)), concat (concat (map concat ?Q)))"
    using pairs_as_rows(1) [OF assms(1-4)] by (simp add: refine_products_def assms(5-7))
  moreover have "length ?Q = length keys" "\<forall>k < length keys. length (?Q ! k) = length (Z ! nat (keys ! k))"
    by (simp_all add: key_pairs_def)
  ultimately show ?thesis
    using key_pairs_bound(1) [OF assms(1-3), of _ _ mids] unfolding Let_def by (intro exI [of _ ?Q] conjI allI impI) auto
qed


theorem refine_elements_fill_witness:
  "\<exists>Q. refine_products 2 (\<lambda>d. if d = 1 then [1, 2] else [0, 1, 2, 2, 1, 3]) (\<lambda>d. adj_of_uses [[(0, 8), (1, 2)]]) 2 [0] [4] [0, 1, 2, 3] =
      Some (offsets (sizes (map concat Q)), concat (concat (map concat Q))) \<and>
    bounds 2 (Q ! 0 ! 0) (concat (map (split_side 4 1 2) (facets 2 [0, 1, 2]))) \<and>
    bounds 2 (Q ! 0 ! 1) (concat (map (split_side 4 1 2) (facets 2 [2, 1, 3])))"
proof -
  have "uses_ok 2 [[1, 2]] [[0, 1, 2], [2, 1, 3]] [[(0, 8), (1, 2)]] [0, 1, 2, 3]" by code_simp
  note T = refine_elements_fill [OF _ this, of "[0]" "[4]" "\<lambda>d. if d = 1 then [1, 2] else [0, 1, 2, 2, 1, 3]"
    "\<lambda>d. adj_of_uses [[(0, 8), (1, 2)]]", simplified]
  show ?thesis
    by (rule exE [OF T]; (rule exI, elim conjE, intro conjI, assumption)?)
      (simp_all add: Let_def all_less_two)
qed

text \<open>C39. Splitting edges of a mesh of tetrahedra: the new triangles that \<open>refine_products\<close> makes for a key are, first,
two for every triangle around the edge, which bound that triangle with the edge split at the midpoint; then, for every
tetrahedron around the edge, the triangle between its two halves: its vertices are the midpoint and the vertices of the
tetrahedron that are not ends of the edge.\<close>

theorem refine_sides_split:
  assumes "uses_ok 2 E D Z old2new" "uses_ok 3 E T Y old2new" "\<forall>e \<in> set keys. 0 \<le> e \<and> e < int (length E)" "length mids = length keys"
    and "verts_of 1 = concat E" "verts_of 2 = concat D" "verts_of 3 = concat T" "up 2 = adj_of_uses Z" "up 3 = adj_of_uses Y"
  shows "\<exists>Q C. refine_products 3 verts_of up 2 keys mids old2new =
      Some (offsets (sizes (map2 (@) (map concat Q) C)), concat (concat (map2 (@) (map concat Q) C))) \<and>
    length Q = length keys \<and> length C = length keys \<and>
    (\<forall>k < length keys. length (Q ! k) = length (Z ! nat (keys ! k)) \<and> length (C ! k) = length (Y ! nat (keys ! k)) \<and>
      (let ends = map (\<lambda>v. old2new ! nat v) (E ! nat (keys ! k)) in
        (\<forall>t < length (Z ! nat (keys ! k)).
          let tri = map (\<lambda>v. old2new ! nat v) (D ! nat (fst (Z ! nat (keys ! k) ! t)))
          in length (Q ! k ! t) = 2 \<and>
            bounds 2 (Q ! k ! t) (concat (map (split_side (mids ! k) (ends ! 0) (ends ! 1)) (facets 2 tri)))) \<and>
        (\<forall>t < length (Y ! nat (keys ! k)).
          let tet = map (\<lambda>v. old2new ! nat v) (T ! nat (fst (Y ! nat (keys ! k) ! t)))
          in length (C ! k ! t) = 3 \<and> set (C ! k ! t) = insert (mids ! k) (set tet - set ends))))"
proof -
  let ?Q = "key_pairs 2 D Z keys mids old2new" and ?C = "key_cuts 3 T Y keys mids old2new"
  have Z: "\<forall>e \<in> set keys. 0 \<le> e \<and> e < int (length Z)" and Y: "\<forall>e \<in> set keys. 0 \<le> e \<and> e < int (length Y)"
    using assms(1-3) by (auto simp: uses_ok_def)
  have two: "(2::nat) = 2 \<or> (2::nat) = 3" and three: "(3::nat) = 2 \<or> (3::nat) = 3" by simp_all
  note P = pairs_as_rows [OF two assms(1) Z assms(4), simplified] and K = cuts_as_rows [OF three assms(2) Y assms(4), simplified]
  have "combine_pairs_and_cuts 2 (offsets (sizes ?C)) (offsets (sizes (map concat ?Q))) (concat (concat ?C)) (concat (concat (map concat ?Q))) =
      Some (offsets (sizes (map2 (@) (map concat ?Q) ?C)), concat (concat (map2 (@) (map concat ?Q) ?C)))"
  proof (rule combine_pairs_and_cuts_rows)
    show "length (map concat ?Q) = length ?C" by (simp add: key_pairs_def key_cuts_def)
    show "simplex_degree 2 0 = int 3" by (simp add: simplex_degree_def)
    show "\<forall>r \<in> set (concat (map concat ?Q)). length r = 3" using P(2) by simp
    show "\<forall>r \<in> set (concat ?C). length r = 3" using K(2) by simp
  qed
  then have 1: "refine_products 3 verts_of up 2 keys mids old2new =
      Some (offsets (sizes (map2 (@) (map concat ?Q) ?C)), concat (concat (map2 (@) (map concat ?Q) ?C)))"
    using P(1) K(1) by (simp add: refine_products_def assms(5-9))
  have 2: "length ?Q = length keys" "length ?C = length keys" "\<And>k. k < length keys \<Longrightarrow> length (?Q ! k) = length (Z ! nat (keys ! k))"
    "\<And>k. k < length keys \<Longrightarrow> length (?C ! k) = length (Y ! nat (keys ! k))"
    by (simp_all add: key_pairs_def key_cuts_def)
  have 3: "length (?C ! k ! t) = 3" if "k < length keys" "t < length (Y ! nat (keys ! k))" for k t
    using that cut_template_length [OF three] by (simp add: key_cuts_def use_cut_def)
  have 4: "length (?Q ! k ! t) = 2 \<and> bounds 2 (?Q ! k ! t) (concat (map (split_side (mids ! k) (map (\<lambda>v. old2new ! nat v) (E ! nat (keys ! k)) ! 0)
      (map (\<lambda>v. old2new ! nat v) (E ! nat (keys ! k)) ! 1)) (facets 2 (map (\<lambda>v. old2new ! nat v) (D ! nat (fst (Z ! nat (keys ! k) ! t)))))))"
    if "k < length keys" "t < length (Z ! nat (keys ! k))" for k t
    using key_pairs_bound(1) [OF two assms(1) Z that, of mids] unfolding of_nat_numeral by blast
  have 5: "set (?C ! k ! t) = insert (mids ! k) (set (map (\<lambda>v. old2new ! nat v) (T ! nat (fst (Y ! nat (keys ! k) ! t)))) -
      set (map (\<lambda>v. old2new ! nat v) (E ! nat (keys ! k))))" if "k < length keys" "t < length (Y ! nat (keys ! k))" for k t
    using key_pairs_bound(2) [OF three assms(2) Y that, of mids] unfolding of_nat_numeral .
  show ?thesis
    unfolding Let_def by (intro exI [of _ ?Q] exI [of _ ?C] conjI allI impI; (rule 1 2 | simp only: 2 3 4 5))
qed

theorem refine_sides_split_witness:
  "\<exists>Q C. refine_products 3 (\<lambda>d. if d = 1 then [1, 2] else if d = 2 then [0, 1, 2] else [0, 1, 2, 3])
      (\<lambda>d. adj_of_uses [[(0, 8)]]) 2 [0] [4] [0, 1, 2, 3] =
      Some (offsets (sizes (map2 (@) (map concat Q) C)), concat (concat (map2 (@) (map concat Q) C))) \<and>
    bounds 2 (Q ! 0 ! 0) (concat (map (split_side 4 1 2) (facets 2 [0, 1, 2]))) \<and> set (C ! 0 ! 0) = insert 4 (set [0, 1, 2, 3] - set [1, 2])"
proof -
  have ok: "uses_ok 2 [[1, 2]] [[0, 1, 2]] [[(0, 8)]] [0, 1, 2, 3]" "uses_ok 3 [[1, 2]] [[0, 1, 2, 3]] [[(0, 8)]] [0, 1, 2, 3]" by code_simp+
  note T = refine_sides_split [OF this, of "[0]" "[4]" "\<lambda>d. if d = 1 then [1, 2] else if d = 2 then [0, 1, 2] else [0, 1, 2, 3]"
    "\<lambda>d. adj_of_uses [[(0, 8)]]", simplified]
  show ?thesis
    by (rule exE [OF T], elim exE; (rule exI, rule exI, elim conjE, intro conjI, assumption)?) (simp_all add: Let_def)
qed

end
