(* ===== verification/Spec2Isabelle.thy ===== *)
theory Spec2Isabelle
  imports Align Simplex Hypercube Element Scan Array_Ops Map_Ops Fans Sort Inverse_Maps Graphs Adj
    Align_Rows Canonical Matching Transit Neighbors
    Indset Int128 Finite_Automaton Regular Determinize Simplify Regex Regex_Lexer Chains Local_Arrays Splits Box Refine
begin

text \<open>
  A verification of the combinatorial core of Omega_h, a library of adaptive meshes of triangles,
  tetrahedra, quadrilaterals and hexahedra (and mixed types) for parallel computers.  Paths below are
  relative to \<open>src/src/\<close>.

  \<^bold>\<open>The program.\<close>  A mesh is a set of arrays.  Entities of each dimension are numbered, and everything
  that relates them is an array of 32-bit indices (\<open>LO\<close>): an \<^emph>\<open>adjacency\<close> from entities to entities of a lower
  dimension is a flat array with a fixed number of entries per entity, one to entities of a higher dimension has
  offsets as well, and both carry an 8-bit \<^emph>\<open>alignment code\<close> per entry that says how the vertices of
  the two entities correspond.  Which vertices bound which side of an element is fixed by tables, the
  templates.  Algorithms are loops over entities (\<open>parallel_for\<close>) that write disjoint parts of arrays, scans,
  reductions and sorts; adaptation picks an independent set of cavities, builds the new entities and
  renumbers.  Next to this core the library has an engine for regular expressions and finite automata,
  on which its readers of text formats are built, and 128-bit integers for sums that do not depend on the
  order of their terms.

  \<^bold>\<open>Conventions of the model\<close> (\<open>Omega_Prelude\<close>).  A finished array (\<open>Read<T>\<close>) is a list, an array in
  construction (\<open>Write<T>\<close>) a list of cells that are \<open>None\<close> until written.  Every function of the code that can
  fail returns an option: \<open>None\<close> stands for a failed \<open>OMEGA_H_CHECK\<close>, an access out of range, the read of a
  cell never written, a division by zero or an undefined shift.  So a theorem that a function returns \<open>Some\<close> says
  that none of these happens.  \<open>for_range\<close> and \<open>run_for\<close> are the serial loops, with rules that take an
  invariant; \<open>parallel_for\<close> is the loop of the serial back end, and where the order matters (OpenMP scans, atomic
  claims) the schedule is an argument and the theorems hold for all of them.
  An index or a count of type \<open>LO\<close> is a mathematical integer: the arithmetic on indices is taken not to leave 32
  bits, as the library assumes of its meshes.  Widths are kept where they carry meaning or trouble: alignment codes are
  8-bit words (\<open>Align\<close>), the reductions of \<open>fan_reduce\<close> wrap at 8, 32 and 64 bits (\<open>Fans\<close>), the degrees of
  \<open>filter_graph_edges\<close> are cast to 8 bits (\<open>Graphs\<close>), and \<open>Int128\<close> computes on 64-bit words.
  Floating-point numbers are not modelled; where only their order matters (qualities), they are an arbitrary
  linear order.

  \<^bold>\<open>Theories, bottom up.\<close>

  \<^item> Templates: \<open>Templates\<close> states what boundary tables must satisfy, as predicates that evaluate and as the
    interface \<open>boundary_tables\<close> that \<open>transit\<close> relies on; \<open>Simplex\<close> (\<open>Omega_h_simplex.hpp\<close>), \<open>Hypercube\<close>
    (\<open>Omega_h_hypercube.hpp\<close>) and \<open>Element\<close> (\<open>Omega_h_element.hpp\<close>) hold the tables and interpret the
    interface on them.  All entries are evaluated: the tables agree with each other, except for eight entries of the
    mixed types.
  \<^item> Alignment: \<open>Align\<close> and \<open>Align_Rows\<close> (\<open>Omega_h_align.hpp/.cpp\<close>): codes as a group that acts on the vertices
    and edges of an entity (locales \<open>alignment_action\<close>, \<open>composable_action\<close>, interpreted for edges, triangles
    and quadrilaterals), and the loops that apply codes to whole adjacencies.
  \<^item> Arrays: \<open>Scan\<close> (\<open>Omega_h_scan.hpp\<close>, \<open>Omega_h_int_scan.cpp\<close>), \<open>Array_Ops\<close> (\<open>Omega_h_array_ops.cpp\<close>),
    \<open>Map_Ops\<close>, \<open>Fans\<close> and \<open>Inverse_Maps\<close> (\<open>Omega_h_map.cpp\<close>), \<open>Sort\<close> (\<open>Omega_h_sort.cpp\<close>), \<open>Graphs\<close>
    (\<open>Omega_h_graph.cpp\<close>).  Each operation is shown equal to a function on lists: prefix sums, fibres of a map, rows
    of a graph, the stable sorting permutation.
  \<^item> Adjacencies (\<open>Omega_h_adj.cpp\<close>): \<open>Adj\<close> inverts downward adjacencies and parents; \<open>Canonical\<close> finds the
    unique entities among the uses of an element's sides; \<open>Matching\<close> matches uses with entities
    (\<open>reflect_down\<close>; locale \<open>matcher\<close>, interpreted for the three kinds of sides); \<open>Transit\<close> composes
    downward adjacencies (locale \<open>edge_transit\<close>, interpreted for the element families, and applied to the mixed types with
    their repaired table); \<open>Neighbors\<close> lists the entities across edges and sides.  The notion that binds
    them is \<open>consistent_down\<close>: the vertices of a side by the template are the vertices of the entity found, turned
    by the code.
  \<^item> Meshing: \<open>Local_Arrays\<close> and \<open>Chains\<close> serve the three after them: small arrays of a kernel, and
    oriented chains, by which a set of triangles or tetrahedra fills a cell when its boundary is that of
    the cell.  \<open>Splits\<close> (\<open>Omega_h_simplify.cpp\<close>) cuts quadrilaterals and hexahedra into simplices, \<open>Box\<close>
    (\<open>Omega_h_box.cpp\<close>) builds the cells of a box, \<open>Refine\<close> (\<open>Omega_h_refine_topology.cpp\<close>) builds the
    entities of an edge split.
  \<^item> \<open>Indset\<close> (\<open>Omega_h_indset_inline.hpp\<close>, \<open>Omega_h_indset.cpp\<close>): the independent set of cavities on one rank.  The
    rounds are proved to end, in at most as many rounds as there are undecided nodes, in the greedy choice (locale
    \<open>priority\<close>, interpreted on the comparison by quality and global number).
  \<^item> \<open>Int128\<close> (\<open>Omega_h_int128.hpp/.cpp\<close>, and the sum in \<open>Omega_h_array_ops.cpp\<close>): pairs of words against
    integers.
  \<^item> Automata: \<open>Finite_Automaton\<close> and \<open>Regular\<close> (\<open>Omega_h_finite_automaton.cpp\<close>, \<open>Omega_h_table.hpp\<close>,
    \<open>Omega_h_chartab.cpp\<close>): tables, transitions and one construction with its language per operator;
    \<open>Determinize\<close> and \<open>Simplify\<close>: the powerset construction and the merging of equal rows; \<open>Regex\<close> and
    \<open>Regex_Lexer\<close> (\<open>Omega_h_regex.cpp\<close>): what the reader of regular expressions does at a shift and at
    a reduction, on parse trees, and the lexer it is bootstrapped with.

  \<^bold>\<open>Loops that end for a global reason.\<close>  They are \<open>partial_function (option)\<close>, where not returning is \<open>None\<close>;
  that they return is proved, and no fuel is used: \<open>iterate_until_decided\<close> (undecided nodes decrease),
  \<open>closure_loop\<close> and \<open>subset_loop\<close> (states and sets of states not yet queued decrease), \<open>simplify_loop\<close>
  (states decrease), \<open>sort_small_loop\<close> (values larger than the last one decrease), \<open>halve_to_low\<close> (the
  magnitude halves; at most 63 rounds), \<open>range_loop\<close> (characters below 127 to go).
  Bounds in statements are those of the code: up to 512 threads (the array of thread sums in \<open>Omega_h_scan.hpp\<close>),
  keys of one to four integers, 127 kept edges per node, \<open>2 ^ 62\<close> terms of a sum.

  \<^bold>\<open>Where the code is wrong\<close>, the theorems say what it does: \<open>coalesce\<close> reads past the end of its argument on
  every input; \<open>filter_graph_edges\<close> breaks when a node keeps 128 to 255 edges; the upward tables of wedges and
  pyramids lack flip bits, and \<open>transit\<close> on types reverses these edges in every mesh that has such elements;
  \<open>rot\<close> in \<open>Omega_h_simplify.cpp\<close> loses vertices, so that cells whose least vertex is not in its place are
  split into degenerate simplices (boxes have none); a range of characters that runs across codes outside the
  character table makes the reader of regular expressions abort; the hand-built lexer and the regular expressions of
  the tokens disagree on the backslash and on brackets; \<open>sort_by_keys\<close> takes four keys, which its comment
  excludes.

  \<^bold>\<open>Not modelled.\<close>  Everything that computes with floating-point numbers (metrics, quality, curves, fitting,
  field transfer, and with them the drivers of refinement, coarsening and swapping); the mesh object with its
  cache of adjacencies and its tags; MPI distribution and ownership (the model is that of one rank); file formats
  and bindings; the generator of LALR tables and the languages other than that of regular expressions; the CUDA
  and Kokkos back ends and vendored code.  The libraries' parallel sorts are one stable insertion sort.
\<close>

end
